(* ===== verification/Kern_Prelude.thy ===== *)
theory Kern_Prelude
  imports Main "HOL-Library.Word" "HOL-Library.Monad_Syntax"
begin

text \<open>
  What the components of the kernel model share: C's signed and unsigned integer widths written
  out over \<open>int\<close>, the convention for panics, and lemmas on lists.

  A function of the kernel that may not return has an \<open>option\<close> as result: \<open>None\<close> stands for a panic, for
  the use of a null pointer and for a loop that does not end.  A property that a routine returns is
  therefore stated as the existence of a \<open>Some\<close>.
\<close>

section \<open>Integer widths\<close>

type_synonym byte = "8 word"

text \<open>Storing an \<open>int\<close> into a \<open>short\<close>, a \<open>u_short\<close>, a \<open>long\<close> (32 bits on the VAX).\<close>

definition s16 :: "int \<Rightarrow> int" where
  "s16 x = (x + 32768) mod 65536 - 32768"

definition u16 :: "int \<Rightarrow> int" where
  "u16 x = x mod 65536"

definition s32 :: "int \<Rightarrow> int" where
  "s32 x = (x + 2147483648) mod 4294967296 - 2147483648"

text \<open>C's division and remainder truncate towards zero.\<close>

definition c_div :: "int \<Rightarrow> int \<Rightarrow> int" where
  "c_div a b = sgn a * sgn b * (\<bar>a\<bar> div \<bar>b\<bar>)"

definition c_mod :: "int \<Rightarrow> int \<Rightarrow> int" where
  "c_mod a b = a - c_div a b * b"

named_theorems cint \<open>reading C integers that did not wrap\<close>

lemma s16_id [cint]: "-32768 \<le> x \<Longrightarrow> x < 32768 \<Longrightarrow> s16 x = x"
  by (simp add: s16_def)

lemma u16_id [cint]: "0 \<le> x \<Longrightarrow> x < 65536 \<Longrightarrow> u16 x = x"
  by (simp add: u16_def)

lemma s32_id [cint]: "-2147483648 \<le> x \<Longrightarrow> x < 2147483648 \<Longrightarrow> s32 x = x"
  by (simp add: s32_def)

lemma s16_range: "-32768 \<le> s16 x \<and> s16 x < 32768"
  by (simp add: s16_def)

lemma u16_range: "0 \<le> u16 x \<and> u16 x < 65536"
  by (simp add: u16_def)

lemma s32_range: "-2147483648 \<le> s32 x \<and> s32 x < 2147483648"
  by (simp add: s32_def)

lemma s16_s16_add [simp]: "s16 (s16 a + b) = s16 (a + b)"
  using mod_add_left_eq [of "a + 32768" 65536 b] by (simp add: s16_def algebra_simps)

lemma s16_add_s16 [simp]: "s16 (b + s16 a) = s16 (b + a)"
  using s16_s16_add [of a b] by (simp add: add.commute)

lemma s16_s16_diff [simp]: "s16 (s16 a - b) = s16 (a - b)"
  using s16_s16_add [of a "- b"] by simp

lemma s16_idem [simp]: "s16 (s16 a) = s16 a"
  using s16_s16_add [of a 0] by simp

lemma s16_0 [simp]: "s16 0 = 0"
  by (simp add: s16_def)

lemma c_div_pos: "0 \<le> a \<Longrightarrow> 0 < b \<Longrightarrow> c_div a b = a div b"
  by (cases "a = 0") (simp_all add: c_div_def)

lemma c_mod_pos: "0 \<le> a \<Longrightarrow> 0 < b \<Longrightarrow> c_mod a b = a mod b"
  by (simp add: c_mod_def c_div_pos minus_div_mult_eq_mod)

section \<open>Lists\<close>

lemma last_snoc_butlast: "xs \<noteq> [] \<Longrightarrow> \<exists>ys y. xs = ys @ [y]"
  by (metis append_butlast_last_id)

end
