(* ===== verification/Resource_Map.thy ===== *)
theory Resource_Map
  imports Kern_Prelude
begin

text \<open>
  The resource maps of sys/sys/subr_rmap.c and sys/h/map.h.  A map is an array of segments of free
  space, sorted by address and ended by a segment of size 0; \<open>m_ents\<close> is the list of the segments
  before that delimiter, and \<open>m_limit\<close> the number of slots of the array, the delimiter's included,
  so that the map has room for the delimiter as long as \<open>length (m_ents mp) < m_limit mp\<close>.
  Sizes and addresses are page or disk block numbers, far below the width of a \<open>long\<close>; they are
  integers here.  The first half translates the code; then come the map's invariant, the set of
  units it has free, and the locale for what its clients rely on.
\<close>

section \<open>The code\<close>

record mapent =
  m_size :: int
  m_addr :: int

text \<open>The routines compare the map with the two globals \<open>swapmap\<close> and \<open>kernelmap\<close>.\<close>

datatype mapid = Swapmap | Kernelmap | Othermap

text \<open>
  \<open>kmapwnt\<close> is the kernel's flag that someone sleeps on \<open>kernelmap\<close>; \<open>rm_wakeups\<close> counts the
  wakeups given to it and \<open>rm_lost\<close> holds the ranges the overflow message printed.
\<close>

record rmap =
  m_id :: mapid
  m_limit :: nat
  m_name :: string
  m_ents :: "mapent list"
  kmapwnt :: bool
  rm_wakeups :: nat
  rm_lost :: "(int \<times> int) list"

definition DMMAX :: int where "DMMAX = 1024"

definition CLSIZE :: int where "CLSIZE = 2"

definition m_end :: "mapent \<Rightarrow> int" where
  "m_end e = m_addr e + m_size e"

text \<open>\<open>rminit\<close>: one slot of the \<open>mapsize\<close> is the map structure itself.\<close>

definition rminit :: "mapid \<Rightarrow> int \<Rightarrow> int \<Rightarrow> string \<Rightarrow> nat \<Rightarrow> rmap" where
  "rminit mid sz addr name mapsize =
     \<lparr>m_id = mid, m_limit = mapsize - 1, m_name = name,
      m_ents = (if sz = 0 then [] else [\<lparr>m_size = sz, m_addr = addr\<rparr>]),
      kmapwnt = False, rm_wakeups = 0, rm_lost = []\<rparr>"

text \<open>The code after \<open>done\<close> in \<open>rmfree\<close>.\<close>

definition rm_done :: "rmap \<Rightarrow> rmap" where
  "rm_done mp =
     (if m_id mp = Kernelmap \<and> kmapwnt mp
      then mp\<lparr>kmapwnt := False, rm_wakeups := Suc (rm_wakeups mp)\<rparr>
      else mp)"

text \<open>
  The overflow check after a new entry went in: with no slot left for the delimiter the entry
  before the last is discarded.  With fewer than two entries the code would write over the map
  structure in front of the array; that is a panic here.
\<close>

definition rm_overflow :: "rmap \<Rightarrow> mapent list \<Rightarrow> rmap option" where
  "rm_overflow mp ents =
     (if length ents + 1 > m_limit mp
      then (if length ents < 2 then None
            else let lost = last (butlast ents)
                 in Some (mp\<lparr>m_ents := butlast (butlast ents) @ [last ents],
                             rm_lost := rm_lost mp @ [(m_addr lost, m_end lost)]\<rparr>))
      else Some (mp\<lparr>m_ents := ents\<rparr>))"

text \<open>
  \<open>rmfree\<close>: \<open>l\<close> is the part of the map the first loop skips, \<open>r\<close> the part from \<open>bp\<close> on.
\<close>

definition rmfree :: "rmap \<Rightarrow> int \<Rightarrow> int \<Rightarrow> rmap option" where
  "rmfree mp sz addr =
     (if addr \<le> 0 \<or> sz \<le> 0 then None
      else
        let l = takeWhile (\<lambda>b. m_addr b \<le> addr) (m_ents mp);
            r = dropWhile (\<lambda>b. m_addr b \<le> addr) (m_ents mp)
        in
          if l \<noteq> [] \<and> m_end (last l) \<ge> addr then
            (if m_end (last l) > addr then None
             else
               let grown = (last l)\<lparr>m_size := m_size (last l) + sz\<rparr>
               in case r of
                    [] \<Rightarrow> Some (rm_done (mp\<lparr>m_ents := butlast l @ [grown]\<rparr>))
                  | bp # rest \<Rightarrow>
                      if m_addr bp \<noteq> 0 \<and> addr + sz \<ge> m_addr bp then
                        (if addr + sz > m_addr bp then None
                         else Some (rm_done (mp\<lparr>m_ents := butlast l @
                                [grown\<lparr>m_size := m_size grown + m_size bp\<rparr>] @ rest\<rparr>)))
                      else Some (rm_done (mp\<lparr>m_ents := butlast l @ [grown] @ r\<rparr>)))
          else if r \<noteq> [] \<and> addr + sz \<ge> m_addr (hd r) then
            (if addr + sz > m_addr (hd r) then None
             else Some (rm_done (mp\<lparr>m_ents := l @
                    [\<lparr>m_size = m_size (hd r) + sz, m_addr = m_addr (hd r) - sz\<rparr>] @ tl r\<rparr>)))
          else
            map_option rm_done
              (rm_overflow mp (l @ [\<lparr>m_size = sz, m_addr = addr\<rparr>] @ r)))"

text \<open>\<open>rmalloc\<close>: the first-fit loop; \<open>l\<close> is the part of the map before \<open>bp\<close>.\<close>

fun rmalloc_loop :: "int \<Rightarrow> rmap \<Rightarrow> mapent list \<Rightarrow> mapent list \<Rightarrow> (int \<times> rmap) option" where
  "rmalloc_loop sz mp l [] = Some (0, mp)"
| "rmalloc_loop sz mp l (bp # bs) =
     (if m_size bp \<ge> sz then
        let first = DMMAX - c_mod (m_addr bp) DMMAX
        in
          if m_id mp = Swapmap \<and> first < m_size bp then
            (if m_size bp - first < sz then rmalloc_loop sz mp (l @ [bp]) bs
             else
               let addr = m_addr bp + first;
                   rest = m_size bp - first - sz;
                   mp' = mp\<lparr>m_ents := l @ [bp\<lparr>m_size := first\<rparr>] @ bs\<rparr>
               in if rest \<noteq> 0
                  then map_option (\<lambda>mp''. (addr, mp'')) (rmfree mp' rest (addr + sz))
                  else Some (addr, mp'))
          else
            let addr = m_addr bp;
                bp' = bp\<lparr>m_addr := addr + sz, m_size := m_size bp - sz\<rparr>;
                mp' = mp\<lparr>m_ents := l @ (if m_size bp' = 0 then bs else bp' # bs)\<rparr>
            in if m_id mp = Swapmap \<and> c_mod addr CLSIZE \<noteq> 0 then None
               else Some (addr, mp')
      else rmalloc_loop sz mp (l @ [bp]) bs)"

definition rmalloc :: "rmap \<Rightarrow> int \<Rightarrow> (int \<times> rmap) option" where
  "rmalloc mp sz =
     (if sz \<le> 0 \<or> m_id mp = Swapmap \<and> sz > DMMAX then None
      else rmalloc_loop sz mp [] (m_ents mp))"

text \<open>
  \<open>rmget\<close>: \<open>l\<close>, \<open>bp\<close>, \<open>bs\<close> are the map cut at the first segment that holds \<open>addr\<close>.  The
  table's fullness is checked by comparing the delimiter's slot with \<open>m_limit\<close>.
\<close>

definition rmget_at :: "rmap \<Rightarrow> int \<Rightarrow> int \<Rightarrow> mapent list \<Rightarrow> mapent \<Rightarrow> mapent list \<Rightarrow> int \<times> rmap" where
  "rmget_at mp sz addr l bp bs =
     (if m_end bp < addr + sz then (0, mp)
      else if m_addr bp = addr then
        (if m_end bp = addr + sz then (addr, mp\<lparr>m_ents := l @ bs\<rparr>)
         else (addr, mp\<lparr>m_ents := l @
                [bp\<lparr>m_addr := m_addr bp + sz, m_size := m_size bp - sz\<rparr>] @ bs\<rparr>))
      else if m_end bp = addr + sz then
        (addr, mp\<lparr>m_ents := l @ [bp\<lparr>m_size := m_size bp - sz\<rparr>] @ bs\<rparr>)
      else if length (m_ents mp) = m_limit mp then (0, mp)
      else (addr, mp\<lparr>m_ents := l @ [bp\<lparr>m_size := addr - m_addr bp\<rparr>,
              \<lparr>m_size = m_end bp - (addr + sz), m_addr = addr + sz\<rparr>] @ bs\<rparr>))"

definition rmget :: "rmap \<Rightarrow> int \<Rightarrow> int \<Rightarrow> (int \<times> rmap) option" where
  "rmget mp sz addr =
     (if sz \<le> 0 then None
      else if m_id mp = Swapmap then Some (0, mp)
      else
        let out = \<lambda>b. \<not> (m_addr b \<le> addr \<and> m_end b > addr)
        in case dropWhile out (m_ents mp) of
             [] \<Rightarrow> Some (0, mp)
           | bp # bs \<Rightarrow> Some (rmget_at mp sz addr (takeWhile out (m_ents mp)) bp bs))"

section \<open>The invariant and the free units\<close>

text \<open>Sorted, non-empty segments, and never two that touch: a map is kept coalesced.\<close>

fun segs_wf :: "int \<Rightarrow> mapent list \<Rightarrow> bool" where
  "segs_wf lo [] = True"
| "segs_wf lo (e # es) = (lo < m_addr e \<and> 0 < m_size e \<and> segs_wf (m_end e) es)"

fun segs_units :: "mapent list \<Rightarrow> int set" where
  "segs_units [] = {}"
| "segs_units (e # es) = {m_addr e ..< m_end e} \<union> segs_units es"

definition rm_wf :: "rmap \<Rightarrow> bool" where
  "rm_wf mp \<longleftrightarrow> segs_wf 0 (m_ents mp)"

definition rm_room :: "rmap \<Rightarrow> bool" where
  "rm_room mp \<longleftrightarrow> length (m_ents mp) < m_limit mp"

definition rm_units :: "rmap \<Rightarrow> int set" where
  "rm_units mp = segs_units (m_ents mp)"


lemmas rm_defs = rm_wf_def rm_room_def rm_units_def

lemma segs_wf_append:
  "segs_wf lo (xs @ ys) \<longleftrightarrow>
     segs_wf lo xs \<and> segs_wf (if xs = [] then lo else m_end (last xs)) ys"
  by (induction xs arbitrary: lo) auto

lemma segs_units_append [simp]: "segs_units (xs @ ys) = segs_units xs \<union> segs_units ys"
  by (induction xs) auto

lemma segs_wf_mono: "segs_wf lo es \<Longrightarrow> lo' \<le> lo \<Longrightarrow> segs_wf lo' es"
  by (cases es) auto

lemma segs_units_above: "segs_wf lo es \<Longrightarrow> x \<in> segs_units es \<Longrightarrow> lo < x"
proof (induction es arbitrary: lo)
  case (Cons e es)
  have "lo < m_addr e" "0 < m_size e" "segs_wf (m_end e) es"
    using Cons.prems(1) by auto
  with Cons show ?case by (auto simp: m_end_def dest: Cons.IH)
qed simp

lemma segs_units_below:
  "segs_wf lo es \<Longrightarrow> x \<in> segs_units es \<Longrightarrow> x < m_end (last es)"
proof (induction es arbitrary: lo x)
  case (Cons e es)
  show ?case
  proof (cases es)
    case Nil
    with Cons.prems show ?thesis by simp
  next
    case (Cons e' es')
    have wf: "segs_wf (m_end e) es" using \<open>segs_wf lo (e # es)\<close> by simp
    have "m_end e < m_addr e'" "m_addr e' \<in> segs_units es"
      using wf Cons by (auto simp: m_end_def)
    then have "m_end e < m_end (last es)"
      using Cons.IH [OF wf] by fastforce
    with Cons.IH [OF wf] Cons Cons.prems(2) show ?thesis by auto
  qed
qed simp

lemma segs_in_units: "e \<in> set es \<Longrightarrow> m_addr e \<le> x \<Longrightarrow> x < m_end e \<Longrightarrow> x \<in> segs_units es"
  by (induction es) auto

lemma segs_wf_mem: "segs_wf lo es \<Longrightarrow> e \<in> set es \<Longrightarrow> lo < m_addr e \<and> 0 < m_size e"
  by (induction es arbitrary: lo) (auto simp: m_end_def, fastforce)

text \<open>A coalesced map is determined by the units it has free.\<close>

lemma segs_canonical:
  "segs_wf lo xs \<Longrightarrow> segs_wf lo ys \<Longrightarrow> segs_units xs = segs_units ys \<Longrightarrow> xs = ys"
proof (induction xs arbitrary: lo ys)
  case Nil
  then show ?case by (cases ys) (auto simp: m_end_def)
next
  case (Cons a as)
  show ?case
  proof (cases ys)
    case Nil
    with Cons.prems show ?thesis by (auto simp: m_end_def)
  next
    case (Cons b bs)
    note wa = \<open>segs_wf lo (a # as)\<close> and wb = \<open>segs_wf lo ys\<close> [unfolded Cons]
    note un = \<open>segs_units (a # as) = segs_units ys\<close> [unfolded Cons]
    have above_a: "m_end a < x" if "x \<in> segs_units as" for x
      using wa that by (auto dest: segs_units_above)
    have above_b: "m_end b < x" if "x \<in> segs_units bs" for x
      using wb that by (auto dest: segs_units_above)
    have pos: "m_addr a < m_end a" "m_addr b < m_end b"
      using wa wb by (auto simp: m_end_def)
    have "m_addr a \<in> segs_units (b # bs)" "m_addr b \<in> segs_units (a # as)"
      using un pos by auto
    then have addr: "m_addr a = m_addr b"
      using above_a above_b pos by force
    have "m_end a \<notin> segs_units (a # as)" "m_end b \<notin> segs_units (b # bs)"
      using above_a above_b by fastforce+
    then have "m_end a \<notin> {m_addr b ..< m_end b}" "m_end b \<notin> {m_addr a ..< m_end a}"
      using un by auto
    then have ends: "m_end a = m_end b"
      using addr pos by auto
    then have ab: "a = b"
      using addr by (cases a, cases b) (simp add: m_end_def)
    have A: "segs_units as = {x \<in> segs_units (a # as). m_end a < x}"
      and B: "segs_units bs = {x \<in> segs_units (b # bs). m_end b < x}"
      using above_a above_b by auto
    have "segs_units as = segs_units bs"
      by (subst A, subst B) (simp only: un ends)
    then have "as = bs"
      using Cons.IH [of "m_end a" bs] wa wb ab by simp
    with ab Cons show ?thesis by simp
  qed
qed

text \<open>Because no two segments touch, a run of free units lies in one segment.\<close>

lemma segs_run_in_one:
  "segs_wf lo es \<Longrightarrow> 0 < n \<Longrightarrow> {a ..< a + n} \<subseteq> segs_units es \<Longrightarrow>
     \<exists>e \<in> set es. m_addr e \<le> a \<and> a + n \<le> m_end e"
proof (induction es arbitrary: lo)
  case (Cons e es)
  have wf: "segs_wf (m_end e) es" using Cons.prems(1) by simp
  show ?case
  proof (cases "a < m_end e")
    case True
    have "a \<in> segs_units (e # es)" using Cons.prems(2) by (intro subsetD [OF Cons.prems(3)]) simp
    with wf True have "m_addr e \<le> a" by (auto dest: segs_units_above)
    moreover have "a + n \<le> m_end e"
    proof (rule ccontr)
      assume "\<not> a + n \<le> m_end e"
      with True have "m_end e \<in> {a ..< a + n}" by auto
      with Cons.prems(3) have "m_end e \<in> segs_units es" by auto
      with wf show False by (auto dest: segs_units_above)
    qed
    ultimately show ?thesis by auto
  next
    case False
    then have "{a ..< a + n} \<subseteq> segs_units es" using Cons.prems(3) by fastforce
    with Cons.IH [OF wf Cons.prems(2)] show ?thesis by auto
  qed
qed auto

section \<open>Allocation\<close>

text \<open>Off the swap map the loop is first-fit: it takes the head of the first segment that fits.\<close>

lemma rmalloc_loop_first_fit:
  "m_id mp \<noteq> Swapmap \<Longrightarrow>
   rmalloc_loop n mp l bs =
     Some (case dropWhile (\<lambda>b. m_size b < n) bs of
             [] \<Rightarrow> (0, mp)
           | bp # rest \<Rightarrow>
               (m_addr bp, mp\<lparr>m_ents := l @ takeWhile (\<lambda>b. m_size b < n) bs @
                  (if m_size bp = n then rest
                   else bp\<lparr>m_addr := m_addr bp + n, m_size := m_size bp - n\<rparr> # rest)\<rparr>))"
proof (induction n mp l bs rule: rmalloc_loop.induct)
  case (2 n mp l bp bs)
  then show ?case
    by (cases "dropWhile (\<lambda>b. m_size b < n) bs")
      (auto simp: Let_def simp del: dropWhile_eq_Nil_conv)
qed simp

lemma rmalloc_cases:
  assumes "m_id mp \<noteq> Swapmap" "0 < n" "rmalloc mp n = Some (a, mp')"
  obtains (none) "a = 0" "mp' = mp" "\<forall>b \<in> set (m_ents mp). m_size b < n"
  | (some) l bp r where "m_ents mp = l @ bp # r" "\<forall>b \<in> set l. m_size b < n" "n \<le> m_size bp"
      "a = m_addr bp"
      "mp' = mp\<lparr>m_ents := l @ (if m_size bp = n then r
                 else bp\<lparr>m_addr := m_addr bp + n, m_size := m_size bp - n\<rparr> # r)\<rparr>"
proof (cases "dropWhile (\<lambda>b. m_size b < n) (m_ents mp)")
  case Nil
  with assms none show thesis
    by (auto simp: rmalloc_def rmalloc_loop_first_fit dropWhile_eq_Nil_conv)
next
  case (Cons bp r)
  have "m_ents mp = takeWhile (\<lambda>b. m_size b < n) (m_ents mp) @ bp # r"
    using Cons by (metis takeWhile_dropWhile_id)
  moreover have "n \<le> m_size bp"
    using Cons by (metis hd_dropWhile list.distinct(1) list.sel(1) not_le)
  ultimately show thesis
    using assms Cons some
    by (auto simp: rmalloc_def rmalloc_loop_first_fit dest: set_takeWhileD)
qed

lemma segs_wf_shrink_head:
  "segs_wf lo (bp # r) \<Longrightarrow> 0 < n \<Longrightarrow> n \<le> m_size bp \<Longrightarrow>
   segs_wf lo (if m_size bp = n then r
               else bp\<lparr>m_addr := m_addr bp + n, m_size := m_size bp - n\<rparr> # r)"
  by (auto simp: m_end_def algebra_simps elim: segs_wf_mono)


lemma segs_wf_disjoint:
  "segs_wf lo (l @ bp # r) \<Longrightarrow> x \<in> {m_addr bp ..< m_end bp} \<Longrightarrow>
   x \<notin> segs_units l \<and> x \<notin> segs_units r"
  by (auto simp: segs_wf_append dest: segs_units_above segs_units_below split: if_splits)

text \<open>Taking a range out of one segment leaves the pieces on its two sides.\<close>

lemma interval_take:
  assumes "\<forall>x. A \<le> x \<and> x < E \<longrightarrow> x \<notin> K \<and> x \<notin> R" "A \<le> a" "a + n \<le> (E :: int)" "0 \<le> n"
  shows "K \<union> {A ..< E} \<union> R - {a ..< a + n} = K \<union> {A ..< a} \<union> {a + n ..< E} \<union> R"
proof (rule set_eqI)
  fix x
  show "x \<in> K \<union> {A ..< E} \<union> R - {a ..< a + n} \<longleftrightarrow> x \<in> K \<union> {A ..< a} \<union> {a + n ..< E} \<union> R"
  proof (cases "A \<le> x \<and> x < E")
    case True
    with assms(1) have "x \<notin> K \<and> x \<notin> R" by blast
    with assms(2-) True show ?thesis by auto
  next
    case False
    with assms(2-) show ?thesis by auto
  qed
qed

lemma rmalloc_units:
  assumes "rm_wf mp" "m_id mp \<noteq> Swapmap" "0 < n" "rmalloc mp n = Some (a, mp')" "a \<noteq> 0"
  shows "{a ..< a + n} \<subseteq> rm_units mp" "rm_units mp' = rm_units mp - {a ..< a + n}" "rm_wf mp'"
    "length (m_ents mp') \<le> length (m_ents mp)" "mp' = mp\<lparr>m_ents := m_ents mp'\<rparr>"
proof -
  from assms obtain l bp r where
    ents: "m_ents mp = l @ bp # r" and fit: "n \<le> m_size bp" and a: "a = m_addr bp" and
    mp': "mp' = mp\<lparr>m_ents := l @ (if m_size bp = n then r
                 else bp\<lparr>m_addr := m_addr bp + n, m_size := m_size bp - n\<rparr> # r)\<rparr>"
    by (auto elim!: rmalloc_cases)
  have wf: "segs_wf 0 (l @ bp # r)" using assms(1) ents by (simp add: rm_wf_def)
  show "{a ..< a + n} \<subseteq> rm_units mp"
    using ents a fit by (auto simp: rm_units_def m_end_def)
  have out: "x \<notin> segs_units l \<and> x \<notin> segs_units r" if "x \<in> {a ..< a + n}" for x
    using segs_wf_disjoint [OF wf, of x] that a fit by (auto simp: m_end_def)
  show "rm_units mp' = rm_units mp - {a ..< a + n}"
    using out ents a fit assms(3) by (auto simp: mp' rm_units_def m_end_def)
  have "segs_wf (if l = [] then 0 else m_end (last l)) (bp # r)"
    using wf by (simp add: segs_wf_append)
  from segs_wf_shrink_head [OF this assms(3) fit] wf
  show "rm_wf mp'"
    unfolding mp' rm_wf_def by (simp add: segs_wf_append del: segs_wf.simps)
  show "length (m_ents mp') \<le> length (m_ents mp)" "mp' = mp\<lparr>m_ents := m_ents mp'\<rparr>"
    using ents by (simp_all add: mp')
qed

section \<open>Freeing\<close>

text \<open>
  The three ways \<open>rmfree\<close> goes: where the map is cut, and what is returned when the returned
  space overlaps nothing.
\<close>

definition rm_cut :: "rmap \<Rightarrow> int \<Rightarrow> mapent list \<times> mapent list" where
  "rm_cut mp addr = (takeWhile (\<lambda>b. m_addr b \<le> addr) (m_ents mp),
                     dropWhile (\<lambda>b. m_addr b \<le> addr) (m_ents mp))"

lemma rm_cutD:
  assumes "rm_wf mp" "rm_cut mp addr = (l, r)"
  shows "m_ents mp = l @ r" "segs_wf 0 (l @ r)" "\<forall>b \<in> set l. m_addr b \<le> addr"
    "r \<noteq> [] \<Longrightarrow> addr < m_addr (hd r)"
proof -
  show eq: "m_ents mp = l @ r" using assms(2) by (auto simp: rm_cut_def)
  then show "segs_wf 0 (l @ r)" using assms(1) by (simp add: rm_wf_def)
  show "\<forall>b \<in> set l. m_addr b \<le> addr"
    using assms(2) by (auto simp: rm_cut_def dest: set_takeWhileD)
  show "r \<noteq> [] \<Longrightarrow> addr < m_addr (hd r)"
    using assms(2) hd_dropWhile [of "\<lambda>b. m_addr b \<le> addr" "m_ents mp"]
    by (auto simp: rm_cut_def)
qed

text \<open>Only the neighbours on the two sides can overlap the returned space.\<close>

lemma rm_cut_overlap:
  assumes "rm_wf mp" "rm_cut mp addr = (l, r)" "0 < n"
  shows "{addr ..< addr + n} \<inter> rm_units mp \<noteq> {} \<longleftrightarrow>
           l \<noteq> [] \<and> addr < m_end (last l) \<or> r \<noteq> [] \<and> m_addr (hd r) < addr + n"
proof -
  note c = rm_cutD [OF assms(1,2)]
  show ?thesis
  proof (intro iffI)
    assume "{addr ..< addr + n} \<inter> rm_units mp \<noteq> {}"
    then obtain x where "x \<in> {addr ..< addr + n}" "x \<in> rm_units mp" by blast
    then have x: "addr \<le> x" "x < addr + n" "x \<in> segs_units l \<or> x \<in> segs_units r"
      by (auto simp: rm_units_def c(1))
    from x(3) show "l \<noteq> [] \<and> addr < m_end (last l) \<or> r \<noteq> [] \<and> m_addr (hd r) < addr + n"
    proof (elim disjE)
      assume "x \<in> segs_units l"
      moreover have "segs_wf 0 l" using c(2) by (simp add: segs_wf_append)
      ultimately have "x < m_end (last l)" "l \<noteq> []" by (auto dest: segs_units_below)
      with x show ?thesis by simp
    next
      assume xr: "x \<in> segs_units r"
      then obtain h t where r: "r = h # t" by (cases r) auto
      have "segs_wf (m_addr h - 1) r"
        using c(2) r by (auto simp: segs_wf_append)
      then have "m_addr h \<le> x" using xr segs_units_above by fastforce
      with r x show ?thesis by simp
    qed
  next
    assume "l \<noteq> [] \<and> addr < m_end (last l) \<or> r \<noteq> [] \<and> m_addr (hd r) < addr + n"
    then show "{addr ..< addr + n} \<inter> rm_units mp \<noteq> {}"
    proof
      assume h: "l \<noteq> [] \<and> addr < m_end (last l)"
      then have "addr \<in> segs_units l"
        using c(3) by (intro segs_in_units [of "last l"]) auto
      with assms(3) have "addr \<in> {addr ..< addr + n} \<inter> rm_units mp"
        by (simp add: rm_units_def c(1))
      then show ?thesis by blast
    next
      assume h: "r \<noteq> [] \<and> m_addr (hd r) < addr + n"
      then obtain e t where r: "r = e # t" by (cases r) auto
      have "0 < m_size e" using c(2) r by (auto simp: segs_wf_append)
      then have "m_addr e \<in> {addr ..< addr + n} \<inter> rm_units mp"
        using h c(4) r by (auto simp: rm_units_def c(1) m_end_def)
      then show ?thesis by blast
    qed
  qed
qed


text \<open>
  What \<open>rmfree\<close> is meant to compute: one segment that takes in the neighbours it touches.
\<close>

definition joins_left :: "mapent list \<Rightarrow> int \<Rightarrow> bool" where
  "joins_left l addr \<longleftrightarrow> l \<noteq> [] \<and> m_end (last l) = addr"

definition joins_right :: "mapent list \<Rightarrow> int \<Rightarrow> bool" where
  "joins_right r e \<longleftrightarrow> r \<noteq> [] \<and> m_addr (hd r) = e"

definition coalesce :: "int \<Rightarrow> int \<Rightarrow> mapent list \<Rightarrow> mapent list \<Rightarrow> mapent list" where
  "coalesce n addr l r =
     (if joins_left l addr then butlast l else l) @
     [\<lparr>m_size = (if joins_left l addr then m_size (last l) else 0) + n +
                (if joins_right r (addr + n) then m_size (hd r) else 0),
       m_addr = (if joins_left l addr then m_addr (last l) else addr)\<rparr>] @
     (if joins_right r (addr + n) then tl r else r)"

definition apart :: "int \<Rightarrow> int \<Rightarrow> mapent list \<Rightarrow> mapent list \<Rightarrow> bool" where
  "apart n addr l r \<longleftrightarrow>
     (l \<noteq> [] \<longrightarrow> m_end (last l) \<le> addr) \<and> (r \<noteq> [] \<longrightarrow> addr + n \<le> m_addr (hd r))"

lemma rm_cut_apart:
  assumes "rm_wf mp" "rm_cut mp addr = (l, r)" "0 < n"
  shows "apart n addr l r \<longleftrightarrow> {addr ..< addr + n} \<inter> rm_units mp = {}"
  using rm_cut_overlap [OF assms] by (auto simp: apart_def not_less)

lemma coalesce_wf:
  assumes "segs_wf 0 (l @ r)" "apart n addr l r" "0 < addr" "0 < n"
  shows "segs_wf 0 (coalesce n addr l r)"
proof -
  have l: "segs_wf 0 l" and r: "segs_wf (if l = [] then 0 else m_end (last l)) r"
    using assms(1) by (simp_all add: segs_wf_append)
  have r': "segs_wf (addr + n) r" if "\<not> joins_right r (addr + n)"
    using that r assms(2) by (cases r) (auto simp: joins_right_def apart_def)
  show ?thesis
  proof (cases "joins_left l addr")
    case True
    then obtain k e where k: "l = k @ [e]" "m_end e = addr"
      by (auto simp: joins_left_def dest: last_snoc_butlast)
    with True l r r' assms(4) show ?thesis
      by (cases r) (auto simp: coalesce_def segs_wf_append m_end_def joins_right_def algebra_simps)
  next
    case False
    with l r r' assms show ?thesis
      by (cases r) (auto simp: coalesce_def segs_wf_append m_end_def joins_right_def
          joins_left_def apart_def algebra_simps)
  qed
qed

lemma coalesce_units:
  assumes "segs_wf 0 (l @ r)" "apart n addr l r" "0 < n"
  shows "segs_units (coalesce n addr l r) = segs_units (l @ r) \<union> {addr ..< addr + n}"
proof -
  have pos: "\<forall>e \<in> set (l @ r). 0 < m_size e"
    using segs_wf_mem [OF assms(1)] by blast
  show ?thesis
  proof (cases "joins_left l addr")
    case True
    then obtain k e where k: "l = k @ [e]" "m_end e = addr"
      by (auto simp: joins_left_def dest: last_snoc_butlast)
    with True pos assms(3) show ?thesis
      by (cases r) (auto simp: coalesce_def m_end_def joins_right_def)
  next
    case False
    with pos assms(3) show ?thesis
      by (cases r) (auto simp: coalesce_def m_end_def joins_right_def)
  qed
qed

lemma mapent_size_update: "(e :: mapent)\<lparr>m_size := x\<rparr> = \<lparr>m_size = x, m_addr = m_addr e\<rparr>"
  by (cases e) simp

text \<open>
  Where no overlap is found the code computes \<open>coalesce\<close>; where one is found it panics.
\<close>

lemma rmfree_eq:
  assumes "rm_wf mp" "rm_cut mp addr = (l, r)" "0 < addr" "0 < n"
  shows "rmfree mp n addr =
     (if \<not> apart n addr l r then None
      else if joins_left l addr \<or> joins_right r (addr + n)
      then Some (rm_done (mp\<lparr>m_ents := coalesce n addr l r\<rparr>))
      else map_option rm_done (rm_overflow mp (coalesce n addr l r)))"
proof -
  have ents: "takeWhile (\<lambda>b. m_addr b \<le> addr) (m_ents mp) = l"
      "dropWhile (\<lambda>b. m_addr b \<le> addr) (m_ents mp) = r"
    using assms(2) by (simp_all add: rm_cut_def)
  have r0: "r \<noteq> [] \<Longrightarrow> m_addr (hd r) \<noteq> 0"
    using rm_cutD(4) [OF assms(1,2)] assms(3) by simp
  show ?thesis
    using assms(3,4) r0 unfolding rmfree_def ents
    by (cases r) (auto simp: Let_def apart_def joins_left_def joins_right_def coalesce_def
        mapent_size_update add.commute)
qed

lemma rm_done_simps [simp]:
  "m_ents (rm_done mp) = m_ents mp" "m_limit (rm_done mp) = m_limit mp" "m_id (rm_done mp) = m_id mp"
  "rm_lost (rm_done mp) = rm_lost mp"
  by (simp_all add: rm_done_def)

lemma coalesce_length: "length (coalesce n addr l r) \<le> length (l @ r) + 1"
  by (auto simp: coalesce_def)

lemma rmfree_units:
  assumes "rm_wf mp" "0 < addr" "0 < n" "{addr ..< addr + n} \<inter> rm_units mp = {}"
    and "length (m_ents mp) + 1 < m_limit mp"
  obtains mp' where "rmfree mp n addr = Some mp'" "rm_wf mp'" "rm_room mp'"
    "rm_units mp' = rm_units mp \<union> {addr ..< addr + n}"
    "m_id mp' = m_id mp" "m_limit mp' = m_limit mp" "rm_lost mp' = rm_lost mp"
proof -
  obtain l r where cut: "rm_cut mp addr = (l, r)" by fastforce
  note c = rm_cutD [OF assms(1) cut]
  have ap: "apart n addr l r" using rm_cut_apart [OF assms(1) cut assms(3)] assms(4) by simp
  have "rmfree mp n addr = Some (rm_done (mp\<lparr>m_ents := coalesce n addr l r\<rparr>))"
    using rmfree_eq [OF assms(1) cut assms(2,3)] ap assms(5) coalesce_length [of n addr l r] c(1)
    by (simp add: rm_overflow_def)
  then show thesis
    using that coalesce_wf [OF c(2) ap assms(2,3)] coalesce_units [OF c(2) ap assms(3)]
      coalesce_length [of n addr l r] assms(5) c(1)
    by (simp add: rm_defs)
qed


section \<open>The allocator's contract\<close>

text \<open>
  What a client of a map relies on.  \<open>room\<close> is part of \<open>ok\<close>: the provider promises that space it
  handed out can be given back.
\<close>

locale unit_allocator =
  fixes alloc :: "'s \<Rightarrow> int \<Rightarrow> (int \<times> 's) option"
    and give :: "'s \<Rightarrow> int \<Rightarrow> int \<Rightarrow> 's option"
    and units :: "'s \<Rightarrow> int set"
    and ok :: "'s \<Rightarrow> bool"
  assumes alloc_ok: "ok s \<Longrightarrow> 0 < n \<Longrightarrow> alloc s n = Some (a, s') \<Longrightarrow> ok s'"
    and alloc_grants: "ok s \<Longrightarrow> 0 < n \<Longrightarrow> alloc s n = Some (a, s') \<Longrightarrow> a \<noteq> 0 \<Longrightarrow>
      {a ..< a + n} \<subseteq> units s \<and> units s' = units s - {a ..< a + n}"
    and alloc_fails: "ok s \<Longrightarrow> 0 < n \<Longrightarrow> alloc s n = Some (0, s') \<Longrightarrow> s' = s"
    and alloc_total: "ok s \<Longrightarrow> 0 < n \<Longrightarrow> \<exists>a s'. alloc s n = Some (a, s')"
    and give_back: "ok s \<Longrightarrow> 0 < n \<Longrightarrow> alloc s n = Some (a, s') \<Longrightarrow> a \<noteq> 0 \<Longrightarrow>
      \<exists>s''. give s' n a = Some s'' \<and> ok s'' \<and> units s'' = units s"
begin

lemma alloc_subset:
  "ok s \<Longrightarrow> 0 < n \<Longrightarrow> alloc s n = Some (a, s') \<Longrightarrow> units s' \<subseteq> units s"
  using alloc_grants alloc_fails by blast

lemma two_disjoint:
  assumes "ok s" "0 < n" "0 < k" "alloc s n = Some (a, s')" "alloc s' k = Some (b, s'')"
    "a \<noteq> 0" "b \<noteq> 0"
  shows "{a ..< a + n} \<inter> {b ..< b + k} = {}"
proof -
  have "{b ..< b + k} \<subseteq> units s'"
    using alloc_grants [OF alloc_ok [OF assms(1,2,4)] assms(3,5,7)] by blast
  with alloc_grants [OF assms(1,2,4,6)] show ?thesis by blast
qed

text \<open>Any run of requests grants pairwise disjoint space, and never space that was not free.\<close>

fun grants :: "'s \<Rightarrow> int list \<Rightarrow> (int \<times> int) list" where
  "grants s [] = []"
| "grants s (n # ns) =
     (case alloc s n of
        None \<Rightarrow> []
      | Some (a, s') \<Rightarrow> (if a = 0 then grants s' ns else (a, n) # grants s' ns))"

lemma grants_free:
  "ok s \<Longrightarrow> \<forall>n \<in> set ns. 0 < n \<Longrightarrow> (a, n) \<in> set (grants s ns) \<Longrightarrow> {a ..< a + n} \<subseteq> units s"
proof (induction ns arbitrary: s)
  case (Cons k ns)
  obtain b s' where al: "alloc s k = Some (b, s')" using alloc_total Cons.prems by fastforce
  have "(a, n) \<in> set (grants s' ns) \<Longrightarrow> {a ..< a + n} \<subseteq> units s'"
    using Cons al alloc_ok by fastforce
  moreover have "units s' \<subseteq> units s" using alloc_subset [OF Cons.prems(1) _ al] Cons.prems(2) by simp
  moreover have "b \<noteq> 0 \<Longrightarrow> {b ..< b + k} \<subseteq> units s"
    using alloc_grants [OF Cons.prems(1) _ al] Cons.prems(2) by simp
  ultimately show ?case
    using Cons.prems(3) al by (auto split: if_splits)
qed simp

lemma grants_disjoint:
  "ok s \<Longrightarrow> \<forall>n \<in> set ns. 0 < n \<Longrightarrow> i < j \<Longrightarrow> j < length (grants s ns) \<Longrightarrow>
   (\<lambda>(a, n). {a ..< a + n}) (grants s ns ! i) \<inter> (\<lambda>(a, n). {a ..< a + n}) (grants s ns ! j) = {}"
proof (induction ns arbitrary: s i j)
  case (Cons k ns)
  obtain b s' where al: "alloc s k = Some (b, s')" using alloc_total Cons.prems by fastforce
  have ok': "ok s'" using alloc_ok [OF Cons.prems(1) _ al] Cons.prems(2) by simp
  show ?case
  proof (cases "b = 0 \<or> 0 < i")
    case True
    note IH = Cons.IH [OF ok']
    show ?thesis
    proof (cases "b = 0")
      case True
      with IH [of i j] Cons.prems al show ?thesis by simp
    next
      case False
      then have g: "grants s (k # ns) = (b, k) # grants s' ns" using al by simp
      with False \<open>b = 0 \<or> 0 < i\<close> Cons.prems(3) obtain i' j' where "i = Suc i'" "j = Suc j'"
        by (metis gr0_implies_Suc less_trans)
      with IH [of i' j'] Cons.prems g show ?thesis by simp
    qed
  next
    case False
    then have g: "grants s (k # ns) = (b, k) # grants s' ns" using al by simp
    obtain j' where j': "j = Suc j'" using Cons.prems(3) by (cases j) auto
    obtain c m where c: "grants s' ns ! j' = (c, m)" by fastforce
    with g j' Cons.prems(4) have cm: "grants s (k # ns) ! j = (c, m)" "(c, m) \<in> set (grants s' ns)"
      using nth_mem [of j' "grants s' ns"] by simp_all
    have "{c ..< c + m} \<subseteq> units s'"
      using grants_free [OF ok' _ cm(2)] Cons.prems(2) by simp
    moreover have "units s' = units s - {b ..< b + k}"
      using alloc_grants Cons.prems(1,2) al False by simp
    ultimately have "{b ..< b + k} \<inter> {c ..< c + m} = {}" by blast
    moreover have "grants s (k # ns) ! i = (b, k)" using g False by (simp del: grants.simps)
    ultimately show ?thesis by (simp only: cm(1) prod.case)
  qed
qed simp

end

text \<open>\<open>rmalloc\<close> and \<open>rmfree\<close> provide it, on every map but the swap map.\<close>

definition rm_ok :: "rmap \<Rightarrow> bool" where
  "rm_ok mp \<longleftrightarrow> rm_wf mp \<and> rm_room mp \<and> m_id mp \<noteq> Swapmap"

lemma rmalloc_total: "m_id mp \<noteq> Swapmap \<Longrightarrow> 0 < n \<Longrightarrow> \<exists>a mp'. rmalloc mp n = Some (a, mp')"
  by (cases "dropWhile (\<lambda>b. m_size b < n) (m_ents mp)")
    (auto simp: rmalloc_def rmalloc_loop_first_fit simp del: dropWhile_eq_Nil_conv)

lemma rmalloc_ok:
  assumes "rm_ok mp" "0 < n" "rmalloc mp n = Some (a, mp')"
  shows "rm_ok mp'"
proof (cases "a = 0")
  case True
  have "mp' = mp"
  proof (rule rmalloc_cases [OF _ assms(2,3)])
    show "m_id mp \<noteq> Swapmap" using assms(1) by (simp add: rm_ok_def)
    fix l bp r assume "m_ents mp = l @ bp # r" "a = m_addr bp"
    with assms(1) True show "mp' = mp"
      by (auto simp: rm_ok_def rm_wf_def dest: segs_wf_mem [where e = bp])
  qed
  with assms(1) show ?thesis by simp
next
  case False
  with assms rmalloc_units [of mp n a mp'] show ?thesis
    by (metis rm_ok_def rm_room_def le_less_trans rmap.select_convs(1,2) rmap.surjective
        rmap.update_convs(4))
qed

lemma rmalloc_fails:
  assumes "rm_ok mp" "0 < n" "rmalloc mp n = Some (0, mp')"
  shows "mp' = mp" "\<forall>b \<in> set (m_ents mp). m_size b < n"
proof -
  have sw: "m_id mp \<noteq> Swapmap" using assms(1) by (simp add: rm_ok_def)
  have "mp' = mp \<and> (\<forall>b \<in> set (m_ents mp). m_size b < n)"
  proof (rule rmalloc_cases [OF sw assms(2,3)])
    fix l bp r assume "m_ents mp = l @ bp # r" "0 = m_addr bp"
    with assms(1) show ?thesis
      by (auto simp: rm_ok_def rm_wf_def dest: segs_wf_mem [where e = bp])
  qed simp
  then show "mp' = mp" "\<forall>b \<in> set (m_ents mp). m_size b < n" by auto
qed


lemma rm_ok_give_back:
  assumes "rm_ok mp" "0 < n" "rmalloc mp n = Some (a, mp')" "a \<noteq> 0"
  obtains mp'' where "rmfree mp' n a = Some mp''" "m_ents mp'' = m_ents mp" "rm_ok mp''"
proof -
  have ok: "rm_wf mp" "rm_room mp" "m_id mp \<noteq> Swapmap" using assms(1) by (simp_all add: rm_ok_def)
  note al = rmalloc_units [OF ok(1,3) assms(2-4)]
  have ap: "0 < a"
    using al(1) assms(2) segs_units_above ok(1) by (fastforce simp: rm_units_def rm_wf_def)
  obtain l r where cut: "rm_cut mp' a = (l, r)" by fastforce
  note c = rm_cutD [OF al(3) cut]
  have apart: "apart n a l r" using rm_cut_apart [OF al(3) cut assms(2)] al(2) by blast
  have same: "coalesce n a l r = m_ents mp"
  proof (rule segs_canonical)
    show "segs_wf 0 (coalesce n a l r)" by (rule coalesce_wf [OF c(2) apart ap assms(2)])
    show "segs_wf 0 (m_ents mp)" using ok(1) by (simp add: rm_wf_def)
    have "segs_units (coalesce n a l r) = rm_units mp' \<union> {a ..< a + n}"
      using coalesce_units [OF c(2) apart assms(2)] c(1) by (simp add: rm_units_def)
    then show "segs_units (coalesce n a l r) = segs_units (m_ents mp)"
      using al(1,2) by (auto simp: rm_units_def)
  qed
  have m: "m_limit mp' = m_limit mp" "m_id mp' = m_id mp" by (subst al(5), simp)+
  have "rmfree mp' n a = Some (rm_done (mp'\<lparr>m_ents := m_ents mp\<rparr>))"
    using rmfree_eq [OF al(3) cut ap assms(2)] apart ok(2) m
    by (simp add: same rm_overflow_def rm_room_def)
  then show thesis
    using that ok m by (simp add: rm_ok_def rm_defs)
qed

interpretation rm: unit_allocator rmalloc rmfree rm_units rm_ok
proof (unfold_locales, goal_cases)
  case (1 s n a s')
  then show ?case by (rule rmalloc_ok)
next
  case (2 s n a s')
  then show ?case using rmalloc_units [of s n a s'] by (simp add: rm_ok_def)
next
  case (3 s n s')
  then show ?case by (rule rmalloc_fails(1))
next
  case (4 s n)
  then show ?case by (simp add: rmalloc_total rm_ok_def)
next
  case (5 s n a s')
  then obtain s'' where "rmfree s' n a = Some s''" "m_ents s'' = m_ents s" "rm_ok s''"
    by (rule rm_ok_give_back)
  then show ?case by (simp add: rm_units_def)
qed

section \<open>The swap map\<close>

definition swap_first :: "mapent \<Rightarrow> int" where
  "swap_first bp = DMMAX - c_mod (m_addr bp) DMMAX"

lemma swap_first_mod: "0 < m_addr bp \<Longrightarrow> swap_first bp = DMMAX - m_addr bp mod DMMAX"
  by (simp add: swap_first_def c_mod_pos DMMAX_def)

text \<open>Where the loop stops on the swap map, and what it does there.\<close>

definition swap_grant :: "int \<Rightarrow> rmap \<Rightarrow> int \<Rightarrow> rmap \<Rightarrow> mapent list \<Rightarrow> mapent \<Rightarrow> mapent list \<Rightarrow> bool" where
  "swap_grant n mp a mp' k bp r \<longleftrightarrow> n \<le> m_size bp \<and>
     (if swap_first bp < m_size bp
      then n \<le> m_size bp - swap_first bp \<and> a = m_addr bp + swap_first bp \<and>
        (let rest = m_size bp - swap_first bp - n;
             cut = mp\<lparr>m_ents := k @ [bp\<lparr>m_size := swap_first bp\<rparr>] @ r\<rparr>
         in if rest = 0 then mp' = cut else rmfree cut rest (a + n) = Some mp')
      else a = m_addr bp \<and>
        mp' = mp\<lparr>m_ents := k @ (if m_size bp = n then r
                 else bp\<lparr>m_addr := m_addr bp + n, m_size := m_size bp - n\<rparr> # r)\<rparr>)"

lemma rmalloc_loop_swap:
  "m_id mp = Swapmap \<Longrightarrow> rmalloc_loop n mp l bs = Some (a, mp') \<Longrightarrow>
   a = 0 \<and> mp' = mp \<or> (\<exists>k bp r. l @ bs = k @ bp # r \<and> swap_grant n mp a mp' k bp r)"
proof (induction n mp l bs rule: rmalloc_loop.induct)
  case (2 n mp l bp bs)
  show ?case
  proof (cases "m_size bp \<ge> n \<and> \<not> (swap_first bp < m_size bp \<and> m_size bp - swap_first bp < n)")
    case True
    have "l @ bp # bs = l @ bp # bs \<and> swap_grant n mp a mp' l bp bs"
      using True "2.prems"
      by (auto simp: swap_grant_def swap_first_def Let_def split: if_splits)
    then show ?thesis by blast
  next
    case False
    then have "rmalloc_loop n mp (l @ [bp]) bs = Some (a, mp')"
      using "2.prems" by (auto simp: swap_first_def Let_def split: if_splits)
    moreover have "(l @ [bp]) @ bs = l @ bp # bs" by simp
    ultimately show ?thesis
      using False "2.IH" "2.prems"(1) unfolding swap_first_def Let_def by metis
  qed
qed simp

lemma no_crossing:
  "0 < (D::int) \<Longrightarrow> 0 < n \<Longrightarrow> a mod D + n \<le> D \<Longrightarrow> a div D = (a + n - 1) div D"
proof -
  assume h: "0 < D" "0 < n" "a mod D + n \<le> D"
  have "(a + n - 1) div D = ((a mod D + n - 1) + a div D * D) div D"
    by (simp add: algebra_simps)
  also have "\<dots> = (a mod D + n - 1) div D + a div D" using h(1) by simp
  also have "(a mod D + n - 1) div D = 0"
  proof (rule div_pos_pos_trivial)
    show "0 \<le> a mod D + n - 1" using h(1,2) pos_mod_sign [of D a] by linarith
    show "a mod D + n - 1 < D" using h(3) by linarith
  qed
  finally show ?thesis by simp
qed

lemma swap_grant_units:
  assumes "rm_wf mp" "length (m_ents mp) + 1 < m_limit mp" "0 < n"
    "m_ents mp = k @ bp # r" "swap_grant n mp a mp' k bp r"
  shows "{a ..< a + n} \<subseteq> rm_units mp \<and> rm_units mp' = rm_units mp - {a ..< a + n} \<and> rm_wf mp'"
proof -
  define f where "f = swap_first bp"
  have wf: "segs_wf 0 (k @ bp # r)" using assms(1,4) by (simp add: rm_wf_def)
  have w: "segs_wf 0 k" "(if k = [] then 0 else m_end (last k)) < m_addr bp" "0 < m_size bp"
      "segs_wf (m_end bp) r"
    using wf by (auto simp: segs_wf_append)
  have ap: "0 < m_addr bp" using segs_wf_mem [OF wf] by simp
  have f: "0 < f" using ap by (simp add: f_def swap_first_mod DMMAX_def)
  have out: "x \<notin> segs_units k \<and> x \<notin> segs_units r" if "m_addr bp \<le> x" "x < m_end bp" for x
    using segs_wf_disjoint [OF wf] that by simp
  then have apart: "\<forall>x. m_addr bp \<le> x \<and> x < m_end bp \<longrightarrow> x \<notin> segs_units k \<and> x \<notin> segs_units r"
    by blast
  have un: "rm_units mp = segs_units k \<union> {m_addr bp ..< m_end bp} \<union> segs_units r"
    by (simp add: rm_units_def assms(4) Un_assoc)
  have end_bp: "m_end bp = m_addr bp + m_size bp" by (simp add: m_end_def)
  show ?thesis
  proof (cases "f < m_size bp")
    case True
    define cut where "cut = mp\<lparr>m_ents := k @ [bp\<lparr>m_size := f\<rparr>] @ r\<rparr>"
    define rest where "rest = m_size bp - f - n"
    have a: "a = m_addr bp + f" "0 \<le> rest"
      using assms(5) True by (auto simp: swap_grant_def f_def rest_def)
    have mp': "if rest = 0 then mp' = cut else rmfree cut rest (a + n) = Some mp'"
      using assms(5) True
      by (auto simp: swap_grant_def f_def rest_def cut_def Let_def split: if_splits)
    have wc: "rm_wf cut"
      using w f True by (auto simp: rm_wf_def cut_def segs_wf_append m_end_def elim: segs_wf_mono)
    have uc: "rm_units cut = segs_units k \<union> {m_addr bp ..< a} \<union> segs_units r"
      by (auto simp: rm_units_def cut_def m_end_def a(1))
    have sub: "{a ..< a + n} \<subseteq> rm_units mp"
      using a f by (auto simp: un end_bp rest_def)
    show ?thesis
    proof (cases "rest = 0")
      case True
      then have "m_end bp = a + n" by (simp add: end_bp a rest_def)
      moreover have "m_addr bp \<le> a" using a f by simp
      ultimately have "rm_units cut = rm_units mp - {a ..< a + n}"
        unfolding uc un using interval_take [OF apart, where a = a and n = n] assms(3) by simp
      with True mp' wc sub show ?thesis by simp
    next
      case False
      then have e: "m_end bp = a + n + rest" "0 < rest" using a by (simp_all add: end_bp rest_def)
      have "0 < a + n" using a ap f assms(3) by simp
      moreover have "x \<notin> rm_units cut" if "x \<in> {a + n ..< a + n + rest}" for x
        using out [of x] that a f e assms(3) unfolding uc by simp
      then have "{a + n ..< a + n + rest} \<inter> rm_units cut = {}" by blast
      moreover have "length (m_ents cut) + 1 < m_limit cut"
        using assms(2,4) by (simp add: cut_def)
      ultimately obtain mp2 where "rmfree cut rest (a + n) = Some mp2" "rm_wf mp2"
          "rm_units mp2 = rm_units cut \<union> {a + n ..< a + n + rest}"
        using rmfree_units [OF wc _ e(2)] by metis
      moreover have "rm_units cut \<union> {a + n ..< a + n + rest} = rm_units mp - {a ..< a + n}"
        unfolding uc un using interval_take [OF apart, where a = a and n = n] a f e assms(3)
        by (simp add: Un_assoc) (simp add: Un_left_commute Un_commute)
      ultimately show ?thesis using mp' False sub by simp
    qed
  next
    case False
    then have a: "a = m_addr bp" "n \<le> m_size bp" and
      mp': "mp' = mp\<lparr>m_ents := k @ (if m_size bp = n then r
             else bp\<lparr>m_addr := m_addr bp + n, m_size := m_size bp - n\<rparr> # r)\<rparr>"
      using assms(5) by (auto simp: swap_grant_def f_def)
    have "segs_wf (if k = [] then 0 else m_end (last k)) (bp # r)" using w by simp
    from segs_wf_shrink_head [OF this assms(3) a(2)] w(1) have "rm_wf mp'"
      unfolding mp' rm_wf_def by (simp add: segs_wf_append del: segs_wf.simps)
    moreover have "rm_units mp' = rm_units mp - {a ..< a + n}"
    proof -
      have "rm_units mp - {a ..< a + n} =
          segs_units k \<union> {m_addr bp ..< a} \<union> {a + n ..< m_end bp} \<union> segs_units r"
        unfolding un by (rule interval_take [OF apart]) (use a assms(3) end_bp in auto)
      moreover have "rm_units mp' = \<dots>" using a by (auto simp: mp' rm_units_def m_end_def)
      ultimately show ?thesis by simp
    qed
    moreover have "{a ..< a + n} \<subseteq> rm_units mp" using a by (auto simp: un end_bp)
    ultimately show ?thesis by simp
  qed
qed

section \<open>Properties\<close>

text \<open>
  C14: first fit.  On a map other than the swap map a request is refused only when no run of that
  many free units exists anywhere in the map, and then the map is unchanged; otherwise the lowest
  such run is granted, exactly its units leave the map, and the map stays well formed.
\<close>

theorem rmalloc_first_fit:
  assumes "rm_ok mp" "0 < n" "rmalloc mp n = Some (a, mp')"
  shows "if a = 0 then mp' = mp \<and> (\<forall>b. \<not> {b ..< b + n} \<subseteq> rm_units mp)
         else {a ..< a + n} \<subseteq> rm_units mp \<and> rm_units mp' = rm_units mp - {a ..< a + n} \<and>
              rm_ok mp' \<and> (\<forall>b. {b ..< b + n} \<subseteq> rm_units mp \<longrightarrow> a \<le> b)"
proof -
  have wf: "segs_wf 0 (m_ents mp)" "m_id mp \<noteq> Swapmap"
    using assms(1) by (simp_all add: rm_ok_def rm_wf_def)
  have run: "\<exists>e \<in> set (m_ents mp). m_addr e \<le> b \<and> n \<le> m_size e" if "{b ..< b + n} \<subseteq> rm_units mp" for b
    using segs_run_in_one [OF wf(1) assms(2)] that by (force simp: rm_units_def m_end_def)
  show ?thesis
  proof (cases "a = 0")
    case True
    have "\<not> {b ..< b + n} \<subseteq> rm_units mp" for b
      using run [of b] rmalloc_fails(2) [OF assms(1,2)] assms(3) True by fastforce
    with True rmalloc_fails(1) [OF assms(1,2)] assms(3) show ?thesis by simp
  next
    case False
    have "a \<le> b" if b: "{b ..< b + n} \<subseteq> rm_units mp" for b
    proof (rule rmalloc_cases [OF wf(2) assms(2,3)])
      fix l bp r assume ents: "m_ents mp = l @ bp # r" "\<forall>c \<in> set l. m_size c < n" "a = m_addr bp"
      from run [OF b] ents(1,2) obtain e where e: "e = bp \<or> e \<in> set r" "m_addr e \<le> b"
        by fastforce
      have "segs_wf (m_end bp) r" "0 < m_size bp" using wf(1) ents(1) by (auto simp: segs_wf_append)
      with e ents(3) show "a \<le> b" by (auto simp: m_end_def dest: segs_wf_mem)
    qed (use False in simp)
    moreover have "rm_wf mp" using assms(1) by (simp add: rm_ok_def)
    ultimately show ?thesis
      using False rmalloc_ok [OF assms] rmalloc_units(1,2) [OF _ wf(2) assms(2,3) False] by simp
  qed
qed


theorem rmalloc_first_fit_witness:
  "rmalloc (rminit Othermap 100 1 ''mb'' 8) 10 = Some (1, rminit Othermap 90 11 ''mb'' 8) \<and>
   {1 ..< 11} \<subseteq> rm_units (rminit Othermap 100 1 ''mb'' 8)"
proof -
  have al: "rmalloc (rminit Othermap 100 1 ''mb'' 8) 10 = Some (1, rminit Othermap 90 11 ''mb'' 8)"
    by (simp add: rmalloc_def rminit_def Let_def)
  have "rm_ok (rminit Othermap 100 1 ''mb'' 8)"
    by (simp add: rm_ok_def rm_defs rminit_def)
  from rmalloc_first_fit [OF this _ al] al show ?thesis by simp
qed

text \<open>
  C15: giving back what was just granted restores the table of segments exactly, entry by entry,
  whether the grant took a whole segment or the head of one.
\<close>

theorem rmfree_undoes_rmalloc:
  assumes "rm_ok mp" "0 < n" "rmalloc mp n = Some (a, mp')" "a \<noteq> 0"
  shows "\<exists>mp''. rmfree mp' n a = Some mp'' \<and> m_ents mp'' = m_ents mp \<and> rm_ok mp''"
  by (rule rm_ok_give_back [OF assms]) blast

theorem rmfree_undoes_rmalloc_witness:
  "\<exists>mp''. rmfree (rminit Othermap 90 11 ''mb'' 8) 10 1 = Some mp'' \<and>
          m_ents mp'' = [\<lparr>m_size = 100, m_addr = 1\<rparr>]"
proof -
  have al: "rmalloc (rminit Othermap 100 1 ''mb'' 8) 10 = Some (1, rminit Othermap 90 11 ''mb'' 8)"
    by (simp add: rmalloc_def rminit_def Let_def)
  have "rm_ok (rminit Othermap 100 1 ''mb'' 8)"
    by (simp add: rm_ok_def rm_defs rminit_def)
  from rmfree_undoes_rmalloc [OF this _ al] show ?thesis by (auto simp: rminit_def)
qed




text \<open>
  interleaving.  Space from the swap map never straddles a \<open>DMMAX\<close> boundary, so a grant lies
  on one drum; and when the map has a spare slot for the split it makes, exactly the granted units
  leave the map.
\<close>

theorem rmalloc_swap_interleaved:
  assumes "rm_wf mp" "m_id mp = Swapmap" "length (m_ents mp) + 1 < m_limit mp"
    "rmalloc mp n = Some (a, mp')" "a \<noteq> 0"
  shows "a div DMMAX = (a + n - 1) div DMMAX \<and> {a ..< a + n} \<subseteq> rm_units mp \<and>
         rm_units mp' = rm_units mp - {a ..< a + n} \<and> rm_wf mp'"
proof -
  have n: "0 < n" "n \<le> DMMAX" and loop: "rmalloc_loop n mp [] (m_ents mp) = Some (a, mp')"
    using assms(2,4) by (auto simp: rmalloc_def split: if_splits)
  obtain k bp r where g: "m_ents mp = k @ bp # r" "swap_grant n mp a mp' k bp r"
    using rmalloc_loop_swap [OF assms(2) loop] assms(5) by auto
  have ap: "0 < m_addr bp" using segs_wf_mem [of 0 "m_ents mp" bp] assms(1) g(1) by (simp add: rm_wf_def)
  note first = swap_first_mod [OF ap]
  have "a mod DMMAX + n \<le> DMMAX"
  proof (cases "swap_first bp < m_size bp")
    case True
    then have "a = m_addr bp + (DMMAX - m_addr bp mod DMMAX)"
      using g(2) first by (simp add: swap_grant_def)
    then have "a = (m_addr bp div DMMAX + 1) * DMMAX"
      by (simp add: distrib_right minus_mod_eq_div_mult)
    then have "a mod DMMAX = 0" by simp
    with n show ?thesis by simp
  next
    case False
    with g(2) first show ?thesis by (auto simp: swap_grant_def)
  qed
  then have "a div DMMAX = (a + n - 1) div DMMAX"
    using n by (intro no_crossing) (simp_all add: DMMAX_def)
  with swap_grant_units [OF assms(1,3) n(1) g] show ?thesis by simp
qed

theorem rmalloc_swap_interleaved_witness:
  "rmalloc (rminit Swapmap 3000 1000 ''swap'' 8) 512 =
     Some (1024, (rminit Swapmap 3000 1000 ''swap'' 8)\<lparr>m_ents :=
       [\<lparr>m_size = 24, m_addr = 1000\<rparr>, \<lparr>m_size = 2464, m_addr = 1536\<rparr>]\<rparr>) \<and>
   (1024::int) div DMMAX = (1024 + 512 - 1) div DMMAX"
proof -
  have al: "rmalloc (rminit Swapmap 3000 1000 ''swap'' 8) 512 =
     Some (1024, (rminit Swapmap 3000 1000 ''swap'' 8)\<lparr>m_ents :=
       [\<lparr>m_size = 24, m_addr = 1000\<rparr>, \<lparr>m_size = 2464, m_addr = 1536\<rparr>]\<rparr>)"
    by (simp add: rmalloc_def rminit_def Let_def DMMAX_def c_mod_pos rmfree_def m_end_def
        rm_overflow_def rm_done_def)
  have "rm_wf (rminit Swapmap 3000 1000 ''swap'' 8)"
    "m_id (rminit Swapmap 3000 1000 ''swap'' 8) = Swapmap"
    "length (m_ents (rminit Swapmap 3000 1000 ''swap'' 8)) + 1 < m_limit (rminit Swapmap 3000 1000 ''swap'' 8)"
    by (simp_all add: rm_defs rminit_def)
  from rmalloc_swap_interleaved [OF this al] al show ?thesis by simp
qed


section \<open>rmget and overflow\<close>

lemma rmget_cases:
  assumes "rm_wf mp" "m_id mp \<noteq> Swapmap" "0 < n" "rmget mp n addr = Some (a, mp')"
  obtains (none) "a = 0" "mp' = mp" "addr \<notin> rm_units mp"
  | (some) l bp r where "m_ents mp = l @ bp # r" "m_addr bp \<le> addr" "addr < m_end bp"
      "rmget_at mp n addr l bp r = (a, mp')"
proof -
  define out where "out = (\<lambda>b. \<not> (m_addr b \<le> addr \<and> m_end b > addr))"
  show thesis
  proof (cases "dropWhile out (m_ents mp)")
    case Nil
    then have "\<forall>b \<in> set (m_ents mp). out b" by (simp add: dropWhile_eq_Nil_conv)
    moreover have "\<exists>b \<in> set es. m_addr b \<le> x \<and> x < m_end b" if "x \<in> segs_units es" for x es
      using that by (induction es) auto
    ultimately have "addr \<notin> rm_units mp" by (auto simp: rm_units_def out_def)
    moreover have "rmget mp n addr = Some (0, mp)"
      unfolding rmget_def Let_def out_def [symmetric] Nil using assms(2,3) by simp
    ultimately show thesis using none assms(4) by simp
  next
    case (Cons bp r)
    have "m_ents mp = takeWhile out (m_ents mp) @ bp # r"
      using Cons by (metis takeWhile_dropWhile_id)
    moreover have "\<not> out bp" using Cons by (metis hd_dropWhile list.distinct(1) list.sel(1))
    moreover have "rmget_at mp n addr (takeWhile out (m_ents mp)) bp r = (a, mp')"
      using Cons assms by (simp add: rmget_def Let_def out_def)
    ultimately show thesis using some by (auto simp: out_def)
  qed
qed

text \<open>
  \<open>rmget\<close> grants the very units asked for, exactly when they are all free and the table can
  take the segment the split may need; the granted units leave the map and it stays well formed.
\<close>

theorem rmget_grants:
  assumes "rm_wf mp" "m_id mp \<noteq> Swapmap" "0 < n" "rmget mp n addr = Some (a, mp')"
  shows "if a = 0 then mp' = mp \<and> (length (m_ents mp) \<noteq> m_limit mp \<longrightarrow> \<not> {addr ..< addr + n} \<subseteq> rm_units mp)
         else a = addr \<and> {addr ..< addr + n} \<subseteq> rm_units mp \<and>
              rm_units mp' = rm_units mp - {addr ..< addr + n} \<and> rm_wf mp'"
proof (rule rmget_cases [OF assms])
  assume h: "a = 0" "mp' = mp" "addr \<notin> rm_units mp"
  have "addr \<in> {addr ..< addr + n}" using assms(3) by simp
  with h(3) have "\<not> {addr ..< addr + n} \<subseteq> rm_units mp" by blast
  with h(1,2) show ?thesis by simp
next
  fix l bp r
  assume h: "m_ents mp = l @ bp # r" "m_addr bp \<le> addr" "addr < m_end bp"
    "rmget_at mp n addr l bp r = (a, mp')"
  have wf: "segs_wf 0 (l @ bp # r)" using assms(1) h(1) by (simp add: rm_wf_def)
  have w: "segs_wf 0 l" "(if l = [] then 0 else m_end (last l)) < m_addr bp" "0 < m_size bp"
      "segs_wf (m_end bp) r"
    using wf by (auto simp: segs_wf_append)
  have ap: "0 < addr" using segs_wf_mem [OF wf, of bp] h(2) by simp
  have out: "x \<notin> segs_units l \<and> x \<notin> segs_units r" if "m_addr bp \<le> x" "x < m_end bp" for x
    using segs_wf_disjoint [OF wf] that by simp
  then have apart: "\<forall>x. m_addr bp \<le> x \<and> x < m_end bp \<longrightarrow> x \<notin> segs_units l \<and> x \<notin> segs_units r"
    by blast
  have un: "rm_units mp = segs_units l \<union> {m_addr bp ..< m_end bp} \<union> segs_units r"
    by (simp add: rm_units_def h(1) Un_assoc)
  show ?thesis
  proof (cases "a = 0")
    case True
    then have "mp' = mp" "m_end bp < addr + n \<or> length (m_ents mp) = m_limit mp"
      using h(4) ap by (auto simp: rmget_at_def split: if_splits)
    moreover have "\<not> {addr ..< addr + n} \<subseteq> rm_units mp" if "m_end bp < addr + n"
    proof
      assume "{addr ..< addr + n} \<subseteq> rm_units mp"
      then have "m_end bp \<in> rm_units mp" using that h(3) by auto
      then show False
        using w h(2,3) by (auto simp: un dest: segs_units_above segs_units_below split: if_splits)
    qed
    ultimately show ?thesis using True by auto
  next
    case False
    then have fit: "addr + n \<le> m_end bp" and a: "a = addr"
      using h(4) by (auto simp: rmget_at_def split: if_splits)
    have sub: "{addr ..< addr + n} \<subseteq> rm_units mp" using fit h(2) by (auto simp: un)
    have "rm_units mp - {addr ..< addr + n} =
        segs_units l \<union> {m_addr bp ..< addr} \<union> {addr + n ..< m_end bp} \<union> segs_units r"
      unfolding un by (rule interval_take [OF apart h(2) fit]) (use assms(3) in auto)
    moreover have "rm_units mp' = \<dots>"
      using h(4) False by (auto simp: rmget_at_def rm_units_def m_end_def split: if_splits)
    ultimately have "rm_units mp' = rm_units mp - {addr ..< addr + n}" by simp
    moreover have "rm_wf mp'"
      using h(4) False w fit h(2,3) assms(3)
      by (auto simp: rmget_at_def rm_wf_def segs_wf_append m_end_def
          intro!: segs_wf_mono [OF w(4) [unfolded m_end_def]] split: if_splits)
    ultimately show ?thesis using False a sub by simp
  qed
qed

theorem rmget_grants_witness:
  "\<exists>mp'. rmget (rminit Kernelmap 90 11 ''km'' 8) 5 20 = Some (20, mp') \<and>
         rm_units mp' = {11 ..< 101} - {20 ..< 25}"
proof -
  have ok: "rm_wf (rminit Kernelmap 90 11 ''km'' 8)" "m_id (rminit Kernelmap 90 11 ''km'' 8) \<noteq> Swapmap"
    by (simp_all add: rm_defs rminit_def)
  obtain mp' where g: "rmget (rminit Kernelmap 90 11 ''km'' 8) 5 20 = Some (20, mp')"
    by (simp add: rmget_def rminit_def Let_def m_end_def rmget_at_def)
  have "rm_units (rminit Kernelmap 90 11 ''km'' 8) = {11 ..< 101}"
    by (simp add: rm_units_def rminit_def m_end_def)
  with rmget_grants [OF ok _ g] g show ?thesis by auto
qed

text \<open>
  the table-full test of \<open>rmget\<close> is one slot late.  A split of a middle segment is refused
  only when the delimiter already sits past the table, so with exactly one slot left for the
  delimiter \<open>rmget\<close> goes ahead and the delimiter is written outside the array; in every other
  case the table keeps room.
\<close>

theorem rmget_overruns_table:
  assumes "rm_wf mp" "rm_room mp" "m_id mp \<noteq> Swapmap" "0 < n" "rmget mp n addr = Some (a, mp')"
  shows "\<not> rm_room mp' \<longleftrightarrow>
     a \<noteq> 0 \<and> length (m_ents mp) + 1 = m_limit mp \<and>
     (\<exists>bp \<in> set (m_ents mp). m_addr bp < addr \<and> addr + n < m_end bp)"
proof (rule rmget_cases [OF assms(1,3-5)])
  assume "a = 0" "mp' = mp"
  with assms(2) show ?thesis by simp
next
  fix l bp r
  assume h: "m_ents mp = l @ bp # r" "m_addr bp \<le> addr" "addr < m_end bp"
    "rmget_at mp n addr l bp r = (a, mp')"
  have wf: "segs_wf 0 (l @ bp # r)" using assms(1) h(1) by (simp add: rm_wf_def)
  then have ap: "0 < m_addr bp" by (auto dest: segs_wf_mem)
  have only: "e = bp" if "e \<in> set (m_ents mp)" "m_addr e < addr" "addr + n < m_end e" for e
  proof (rule ccontr)
    assume "e \<noteq> bp"
    then have "e \<in> set l \<or> e \<in> set r" using that(1) h(1) by auto
    then have "addr \<in> segs_units l \<or> addr \<in> segs_units r"
      using segs_in_units [of e _ addr] that(2,3) assms(4) by auto
    then show False using segs_wf_disjoint [OF wf, of addr] h(2,3) by simp
  qed
  have mem: "bp \<in> set (m_ents mp)" using h(1) by simp
  have mid: "(\<exists>e \<in> set (m_ents mp). m_addr e < addr \<and> addr + n < m_end e) \<longleftrightarrow>
      m_addr bp < addr \<and> addr + n < m_end bp"
    using only mem by blast
  have len: "length (m_ents mp) = length l + length r + 1" using h(1) by simp
  show ?thesis
    unfolding mid using h(2-4) ap assms(2) len
    by (auto simp: rmget_at_def rm_room_def split: if_splits)
qed

theorem rmget_overruns_table_witness:
  "rm_room (rminit Kernelmap 90 11 ''km'' 3) \<and>
   \<not> rm_room (snd (the (rmget (rminit Kernelmap 90 11 ''km'' 3) 5 20)))"
proof -
  have ok: "rm_wf (rminit Kernelmap 90 11 ''km'' 3)" "rm_room (rminit Kernelmap 90 11 ''km'' 3)"
    "m_id (rminit Kernelmap 90 11 ''km'' 3) \<noteq> Swapmap"
    by (simp_all add: rm_defs rminit_def)
  obtain mp' where g: "rmget (rminit Kernelmap 90 11 ''km'' 3) 5 20 = Some (20, mp')"
    by (simp add: rmget_def rminit_def Let_def m_end_def rmget_at_def)
  have "\<not> rm_room mp'"
    using rmget_overruns_table [OF ok _ g] by (simp add: rminit_def m_end_def)
  with g ok show ?thesis by simp
qed

end
