(* ===== verification/Clist.thy ===== *)
theory Clist
  imports Kern_Prelude
begin

text \<open>
  The character lists of sys/sys/tty_subr.c and sys/h/clist.h, in an explicit store.  A cblock is
  32 bytes, aligned: a link of 4 bytes and \<open>CBSIZE\<close> = 28 characters.  Pointers are addresses and 0
  is NULL; \<open>c_next\<close> gives the link of the cblock at a base address and \<open>c_info\<close> the byte at an
  address.  The interrupt level calls are left out: each routine is one step.  The second half
  relates a clist to the queue of bytes it stands for.
\<close>

section \<open>The code\<close>

record cstore =
  c_next :: "nat \<Rightarrow> nat"
  c_info :: "nat \<Rightarrow> byte"
  cfreelist :: nat
  cfreecount :: int
  cwaiting :: bool
  cwakeups :: nat

record clist =
  c_cc :: int
  c_cf :: nat
  c_cl :: nat

definition CBSIZE :: int where "CBSIZE = 28"

text \<open>\<open>(int)p & ~CROUND\<close> and \<open>(int)p & CROUND\<close>.\<close>

definition cbase :: "nat \<Rightarrow> nat" where
  "cbase p = p - p mod 32"

definition cround :: "nat \<Rightarrow> nat" where
  "cround p = p mod 32"

definition cb_info :: "nat \<Rightarrow> nat" where
  "cb_info bp = bp + 4"

text \<open>
  \<open>cinit\<close> of sys/sys/init_main.c: the array of \<open>nclist\<close> cblocks at \<open>cfree\<close>, aligned upwards, becomes
  the free list.
\<close>

function cinit_loop :: "nat \<Rightarrow> nat \<Rightarrow> cstore \<Rightarrow> cstore" where
  "cinit_loop cp lim s =
     (if cp < lim
      then cinit_loop (cp + 32) lim
             (s\<lparr>c_next := (c_next s)(cp := cfreelist s), cfreelist := cp,
                cfreecount := cfreecount s + CBSIZE\<rparr>)
      else s)"
  by pat_completeness auto
termination
  by (relation "measure (\<lambda>(cp, lim, s). lim - cp)") auto

declare cinit_loop.simps [simp del]

definition cinit :: "nat \<Rightarrow> nat \<Rightarrow> cstore \<Rightarrow> cstore" where
  "cinit cfree nclist s = cinit_loop (cbase (cfree + 31)) (cfree + 32 * (nclist - 1)) s"

text \<open>The statements by which every routine puts a cblock back on the free list.\<close>

definition cb_release :: "nat \<Rightarrow> cstore \<Rightarrow> cstore" where
  "cb_release bp s =
     s\<lparr>c_next := (c_next s)(bp := cfreelist s), cfreelist := bp,
       cfreecount := cfreecount s + CBSIZE,
       cwakeups := (if cwaiting s then Suc (cwakeups s) else cwakeups s),
       cwaiting := False\<rparr>"

definition getc :: "cstore \<Rightarrow> clist \<Rightarrow> int \<times> cstore \<times> clist" where
  "getc s p =
     (if c_cc p \<le> 0 then (-1, s, \<lparr>c_cc = 0, c_cf = 0, c_cl = 0\<rparr>)
      else
        let c = uint (c_info s (c_cf p));
            cf = c_cf p + 1;
            cc = c_cc p - 1
        in if cc \<le> 0 then
             (c, cb_release (cbase (cf - 1)) s, \<lparr>c_cc = cc, c_cf = 0, c_cl = 0\<rparr>)
           else if cround cf = 0 then
             let bp = cf - 32
             in (c, cb_release bp s, p\<lparr>c_cc := cc, c_cf := cb_info (c_next s bp)\<rparr>)
           else (c, s, p\<lparr>c_cc := cc, c_cf := cf\<rparr>))"

text \<open>\<open>q_to_b\<close>: the bytes copied out are the result, their number the returned count.\<close>

fun q_to_b_loop :: "nat \<Rightarrow> cstore \<Rightarrow> clist \<Rightarrow> byte list \<times> cstore \<times> clist" where
  "q_to_b_loop 0 s q = ([], s, q)"
| "q_to_b_loop (Suc cc) s q =
     (let b = c_info s (c_cf q);
          cf = c_cf q + 1;
          qcc = c_cc q - 1
      in if qcc \<le> 0 then
           ([b], cb_release (cbase (cf - 1)) s, \<lparr>c_cc = qcc, c_cf = 0, c_cl = 0\<rparr>)
         else
           let (s', q') =
                 (if cround cf = 0
                  then (cb_release (cf - 32) s, q\<lparr>c_cc := qcc, c_cf := cb_info (c_next s (cf - 32))\<rparr>)
                  else (s, q\<lparr>c_cc := qcc, c_cf := cf\<rparr>));
               (bs, s'', q'') = q_to_b_loop cc s' q'
           in (b # bs, s'', q''))"

definition q_to_b :: "cstore \<Rightarrow> clist \<Rightarrow> int \<Rightarrow> byte list \<times> cstore \<times> clist" where
  "q_to_b s q cc =
     (if cc \<le> 0 then ([], s, q)
      else if c_cc q \<le> 0 then ([], s, \<lparr>c_cc = 0, c_cf = 0, c_cl = 0\<rparr>)
      else q_to_b_loop (nat cc) s q)"

text \<open>\<open>ndqb\<close>: contiguous characters from \<open>c_cf\<close>, up to the first with a bit of \<open>flag\<close>.\<close>

definition ndqb :: "cstore \<Rightarrow> clist \<Rightarrow> byte \<Rightarrow> int" where
  "ndqb s q flag =
     (if c_cc q \<le> 0 then - c_cc q
      else
        let cc0 = int (cbase (c_cf q + 28)) - int (c_cf q);
            cc = (if c_cc q < cc0 then c_cc q else cc0)
        in if flag \<noteq> 0
           then int (length (takeWhile (\<lambda>i. and (c_info s (c_cf q + i)) flag = 0) [0 ..< nat cc]))
           else cc)"

text \<open>
  \<open>ndflush\<close>: the loop of the source has no bound of its own.
\<close>

partial_function (option) ndflush_loop :: "cstore \<Rightarrow> clist \<Rightarrow> int \<Rightarrow> (cstore \<times> clist) option" where
  "ndflush_loop s q cc =
     (if cc > 0 \<and> c_cc q \<noteq> 0 then
        let bp = cbase (c_cf q);
            e = (if bp = cbase (c_cl q - 1) then c_cl q else bp + 32);
            rem = int e - int (c_cf q)
        in if cc \<ge> rem then
             ndflush_loop (cb_release bp s)
               (q\<lparr>c_cc := c_cc q - rem, c_cf := cb_info (c_next s bp)\<rparr>) (cc - rem)
           else
             let q' = q\<lparr>c_cc := c_cc q - cc, c_cf := nat (int (c_cf q) + cc)\<rparr>
             in Some (if c_cc q' \<le> 0 then cb_release bp s else s, q')
      else Some (s, q))"

definition ndflush :: "cstore \<Rightarrow> clist \<Rightarrow> int \<Rightarrow> (cstore \<times> clist) option" where
  "ndflush s q cc =
     (if c_cc q \<le> 0 then Some (s, q)
      else map_option (\<lambda>(s', q'). (s', if c_cc q' \<le> 0 then \<lparr>c_cc = 0, c_cf = 0, c_cl = 0\<rparr> else q'))
             (ndflush_loop s q cc))"

text \<open>Taking the head of the free list, as \<open>putc\<close> and \<open>b_to_q\<close> do.\<close>

definition cb_take :: "cstore \<Rightarrow> cstore" where
  "cb_take s = s\<lparr>c_next := (c_next s)(cfreelist s := 0), cfreelist := c_next s (cfreelist s),
                 cfreecount := cfreecount s - CBSIZE\<rparr>"

definition cb_link :: "nat \<Rightarrow> cstore \<Rightarrow> cstore" where
  "cb_link bp s = s\<lparr>c_next := (c_next s)(bp := cfreelist s)\<rparr>"

definition putc :: "byte \<Rightarrow> cstore \<Rightarrow> clist \<Rightarrow> int \<times> cstore \<times> clist" where
  "putc c s p =
     (let store = (\<lambda>cp s p. (0, s\<lparr>c_info := (c_info s)(cp := c)\<rparr>,
                              p\<lparr>c_cc := c_cc p + 1, c_cl := cp + 1\<rparr>))
      in if c_cl p = 0 \<or> c_cc p < 0 then
           (if cfreelist s = 0 then (-1, s, p)
            else store (cb_info (cfreelist s)) (cb_take s) (p\<lparr>c_cf := cb_info (cfreelist s)\<rparr>))
         else if cround (c_cl p) = 0 then
           (let s' = cb_link (c_cl p - 32) s
            in if cfreelist s = 0 then (-1, s', p)
               else store (cb_info (cfreelist s)) (cb_take s') p)
         else store (c_cl p) s p)"

text \<open>\<open>b_to_q\<close>: the loop returns the store, \<open>cq\<close> and the bytes not transferred.\<close>

fun b_to_q_loop :: "byte list \<Rightarrow> cstore \<Rightarrow> nat \<Rightarrow> cstore \<times> nat \<times> byte list" where
  "b_to_q_loop [] s cq = (s, cq, [])"
| "b_to_q_loop (c # cs) s cq =
     (if cround cq = 0 then
        let s' = cb_link (cq - 32) s
        in if cfreelist s = 0 then (s', cq, c # cs)
           else let cq' = cb_info (cfreelist s)
                in b_to_q_loop cs ((cb_take s')\<lparr>c_info := (c_info s')(cq' := c)\<rparr>) (cq' + 1)
      else b_to_q_loop cs (s\<lparr>c_info := (c_info s)(cq := c)\<rparr>) (cq + 1))"

definition b_to_q :: "byte list \<Rightarrow> cstore \<Rightarrow> clist \<Rightarrow> int \<times> cstore \<times> clist" where
  "b_to_q cs s q =
     (if cs = [] then (0, s, q)
      else
        let done = (\<lambda>q (s, cq, left). (int (length left), s,
                      q\<lparr>c_cl := cq, c_cc := c_cc q + int (length cs) - int (length left)\<rparr>))
        in if c_cl q = 0 \<or> c_cc q < 0 then
             (if cfreelist s = 0 then done q (s, c_cl q, cs)
              else done (q\<lparr>c_cf := cb_info (cfreelist s)\<rparr>)
                        (b_to_q_loop cs (cb_take s) (cb_info (cfreelist s))))
           else done q (b_to_q_loop cs s (c_cl q)))"

definition nextc :: "cstore \<Rightarrow> clist \<Rightarrow> nat \<Rightarrow> nat" where
  "nextc s p cp =
     (if c_cc p \<noteq> 0 \<and> cp + 1 \<noteq> c_cl p
      then (if cround (cp + 1) = 0 then cb_info (c_next s (cp + 1 - 32)) else cp + 1)
      else 0)"

text \<open>\<open>unputc\<close>: the walk to the block before the last, and the routine.\<close>

partial_function (option) find_prev :: "cstore \<Rightarrow> nat \<Rightarrow> nat \<Rightarrow> nat option" where
  "find_prev s bp target =
     (if c_next s bp \<noteq> target then find_prev s (c_next s bp) target else Some bp)"

definition unputc :: "cstore \<Rightarrow> clist \<Rightarrow> (int \<times> cstore \<times> clist) option" where
  "unputc s p =
     (if c_cc p \<le> 0 then Some (-1, s, p)
      else
        let cl = c_cl p - 1;
            c = sint (c_info s cl);
            cc = c_cc p - 1
        in if cc \<le> 0 then
             Some (c, s\<lparr>c_next := (c_next s)(cbase cl := cfreelist s), cfreelist := cbase cl,
                        cfreecount := cfreecount s + CBSIZE\<rparr>,
                   \<lparr>c_cc = cc, c_cf = 0, c_cl = 0\<rparr>)
           else if cround cl = 4 then
             map_option (\<lambda>obp.
               let bp = c_next s obp
               in (c, s\<lparr>c_next := (c_next s)(bp := cfreelist s, obp := 0), cfreelist := bp,
                        cfreecount := cfreecount s + CBSIZE\<rparr>,
                   p\<lparr>c_cc := cc, c_cl := obp + 32\<rparr>))
               (find_prev s (cbase (c_cf p)) (cbase cl))
           else Some (c, s, p\<lparr>c_cc := cc, c_cl := cl\<rparr>))"

text \<open>\<open>catq\<close>: the loop runs until \<open>getc\<close> reports an empty queue; what \<open>putc\<close> cannot store is lost.\<close>

function catq :: "cstore \<Rightarrow> clist \<Rightarrow> clist \<Rightarrow> cstore \<times> clist \<times> clist" where
  "catq s from to =
     (let (c, s', from') = getc s from
      in if c \<ge> 0
         then let (r, s'', to') = putc (word_of_int c) s' to in catq s'' from' to'
         else (s', from', to))"
  by pat_completeness auto
termination
  by (relation "measure (\<lambda>(s, from, to). nat (c_cc from))")
    (auto simp: getc_def Let_def split: if_splits)

declare catq.simps [simp del]

text \<open>\<open>getw\<close> and \<open>putw\<close>: two characters, low byte first, as the VAX stores a short.\<close>

definition getw :: "cstore \<Rightarrow> clist \<Rightarrow> int \<times> cstore \<times> clist" where
  "getw s p =
     (if c_cc p < 2 then (-1, s, p)
      else
        let (c0, s1, p1) = getc s p;
            (c1, s2, p2) = getc s1 p1
        in (s16 (c0 + 256 * c1), s2, p2))"

definition putw :: "int \<Rightarrow> cstore \<Rightarrow> clist \<Rightarrow> int \<times> cstore \<times> clist" where
  "putw c s p =
     (if cfreelist s = 0 then (-1, s, p)
      else
        let (_, s1, p1) = putc (word_of_int c) s p;
            (_, s2, p2) = putc (word_of_int (c div 256)) s1 p1
        in (0, s2, p2))"


section \<open>The queue a clist stands for\<close>

text \<open>The bytes reached from a pointer by following the cblocks.\<close>

definition cnextp :: "cstore \<Rightarrow> nat \<Rightarrow> nat" where
  "cnextp s p = (if cround (p + 1) = 0 then cb_info (c_next s (p + 1 - 32)) else p + 1)"

fun cbytes :: "nat \<Rightarrow> cstore \<Rightarrow> nat \<Rightarrow> byte list" where
  "cbytes 0 s p = []"
| "cbytes (Suc n) s p = c_info s p # cbytes n s (cnextp s p)"

definition contents :: "cstore \<Rightarrow> clist \<Rightarrow> byte list" where
  "contents s p = cbytes (nat (c_cc p)) s (c_cf p)"

text \<open>
  The invariant: a chain of distinct cblocks, the pointers inside its first and last one, the count
  equal to the characters between them; and a free list of the remaining blocks.
\<close>

definition cblock :: "nat \<Rightarrow> bool" where
  "cblock b \<longleftrightarrow> 0 < b \<and> b mod 32 = 0"

fun chain :: "cstore \<Rightarrow> nat \<Rightarrow> nat list \<Rightarrow> nat \<Rightarrow> bool" where
  "chain s cf [] cl = False"
| "chain s cf [b] cl = (cblock b \<and> b + 4 \<le> cf \<and> cf < cl \<and> cl \<le> b + 32)"
| "chain s cf (b # b' # bs) cl =
     (cblock b \<and> b + 4 \<le> cf \<and> cf < b + 32 \<and> c_next s b = b' \<and> chain s (b' + 4) (b' # bs) cl)"

fun caddrs :: "nat \<Rightarrow> nat list \<Rightarrow> nat \<Rightarrow> nat list" where
  "caddrs cf [] cl = []"
| "caddrs cf [b] cl = [cf ..< cl]"
| "caddrs cf (b # b' # bs) cl = [cf ..< b + 32] @ caddrs (b' + 4) (b' # bs) cl"

fun flist :: "cstore \<Rightarrow> nat \<Rightarrow> nat list \<Rightarrow> bool" where
  "flist s p [] = (p = 0)"
| "flist s p (b # fs) = (p = b \<and> cblock b \<and> flist s (c_next s b) fs)"

definition clq :: "cstore \<Rightarrow> clist \<Rightarrow> nat list \<Rightarrow> bool" where
  "clq s p bs \<longleftrightarrow>
     (if bs = [] then p = \<lparr>c_cc = 0, c_cf = 0, c_cl = 0\<rparr>
      else chain s (c_cf p) bs (c_cl p) \<and> c_cc p = int (length (caddrs (c_cf p) bs (c_cl p))))"

definition owns :: "cstore \<Rightarrow> clist \<Rightarrow> nat list \<Rightarrow> nat list \<Rightarrow> bool" where
  "owns s p bs fs \<longleftrightarrow>
     clq s p bs \<and> flist s (cfreelist s) fs \<and> distinct (bs @ fs) \<and>
     cfreecount s = CBSIZE * int (length fs)"

text \<open>What a routine leaves alone: every cblock outside \<open>B\<close>.\<close>

definition frame :: "nat set \<Rightarrow> cstore \<Rightarrow> cstore \<Rightarrow> bool" where
  "frame B s s' \<longleftrightarrow> (\<forall>b. b \<notin> B \<longrightarrow> c_next s' b = c_next s b) \<and>
                     (\<forall>a. cbase a \<notin> B \<longrightarrow> c_info s' a = c_info s a)"

text \<open>Address arithmetic inside a block.\<close>

named_theorems caddr \<open>where an address lies in its cblock\<close>

lemma block_mod: "cblock b \<Longrightarrow> b \<le> a \<Longrightarrow> a < b + 32 \<Longrightarrow> a mod 32 = a - b"
proof -
  assume h: "cblock b" "b \<le> a" "a < b + 32"
  then obtain r where r: "a = b + r" "r < 32" by (metis add_less_cancel_left le_iff_add)
  have "b mod 32 = 0" using h(1) by (simp add: cblock_def)
  then have "(b + r) mod 32 = r" using r(2) by (metis add_0 mod_add_left_eq mod_less)
  with r show ?thesis by simp
qed

lemma cbase_in [caddr]: "cblock b \<Longrightarrow> b \<le> a \<Longrightarrow> a < b + 32 \<Longrightarrow> cbase a = b"
  by (simp add: cbase_def block_mod)

lemma cround_in [caddr]: "cblock b \<Longrightarrow> b \<le> a \<Longrightarrow> a < b + 32 \<Longrightarrow> cround a = a - b"
  by (simp add: cround_def block_mod)

lemma cround_end [caddr]: "cblock b \<Longrightarrow> cround (b + 32) = 0" "cblock b \<Longrightarrow> cround (32 + b) = 0"
  by (simp_all add: cround_def cblock_def)

lemma chain_hd: "chain s cf bs cl \<Longrightarrow>
    bs \<noteq> [] \<and> cblock (hd bs) \<and> hd bs + 4 \<le> cf \<and> cf < hd bs + 32 \<and> cbase cf = hd bs"
  by (cases "(s, cf, bs, cl)" rule: chain.cases) (auto intro: cbase_in)

lemma chain_last: "chain s cf bs cl \<Longrightarrow>
    cblock (last bs) \<and> last bs + 4 < cl \<and> cl \<le> last bs + 32 \<and> cbase (cl - 1) = last bs"
proof (induction s cf bs cl rule: chain.induct)
  case (2 s cf b cl)
  then have "b \<le> cl - 1" "cl - 1 < b + 32" by auto
  with 2 cbase_in [of b "cl - 1"] show ?case by simp
qed auto

lemma chain_blocks: "chain s cf bs cl \<Longrightarrow> b \<in> set bs \<Longrightarrow> cblock b"
  by (induction s cf bs cl rule: chain.induct) auto

lemma caddrs_Cons: "chain s cf bs cl \<Longrightarrow> \<exists>as. caddrs cf bs cl = cf # as"
  by (cases "(s, cf, bs, cl)" rule: chain.cases) (auto simp: upt_conv_Cons)

lemma caddrs_in: "chain s cf bs cl \<Longrightarrow> a \<in> set (caddrs cf bs cl) \<Longrightarrow> cbase a \<in> set bs"
proof (induction s cf bs cl rule: chain.induct)
  case (2 s cf b cl)
  then show ?case using cbase_in [of b a] by auto
next
  case (3 s cf b b' bs cl)
  then show ?case using cbase_in [of b a] by auto
qed simp

lemma chain_cong:
  "(\<And>b. b \<in> set bs \<Longrightarrow> c_next s' b = c_next s b) \<Longrightarrow> chain s' cf bs cl = chain s cf bs cl"
  by (induction s cf bs cl rule: chain.induct) auto

lemma flist_cong:
  "(\<And>b. b \<in> set fs \<Longrightarrow> c_next s' b = c_next s b) \<Longrightarrow> flist s' p fs = flist s p fs"
  by (induction fs arbitrary: p) auto

lemma caddrs_tail:
  assumes "chain s cf bs cl" "cf + 1 < cl \<or> tl bs \<noteq> []"
  shows "caddrs cf bs cl = cf # caddrs (cnextp s cf) (if cround (cf + 1) = 0 then tl bs else bs) cl"
    and "chain s (cnextp s cf) (if cround (cf + 1) = 0 then tl bs else bs) cl"
proof -
  have "caddrs cf bs cl = cf # caddrs (cnextp s cf) (if cround (cf + 1) = 0 then tl bs else bs) cl \<and>
    chain s (cnextp s cf) (if cround (cf + 1) = 0 then tl bs else bs) cl"
    using assms
  proof (cases "(s, cf, bs, cl)" rule: chain.cases)
    case (2 s' cf' b cl')
    with assms show ?thesis
      by (auto simp: cnextp_def upt_conv_Cons cround_in [of b])
  next
    case (3 s' cf' b b' bs' cl')
    show ?thesis
    proof (cases "cf + 1 = b + 32")
      case True
      with 3 assms show ?thesis
        by (auto simp: cnextp_def upt_conv_Cons cround_end cb_info_def)
    next
      case False
      with 3 assms show ?thesis
        by (auto simp: cnextp_def upt_conv_Cons cround_in [of b])
    qed
  qed simp
  then show "caddrs cf bs cl = cf # caddrs (cnextp s cf) (if cround (cf + 1) = 0 then tl bs else bs) cl"
    and "chain s (cnextp s cf) (if cround (cf + 1) = 0 then tl bs else bs) cl"
    by auto
qed

lemma chain_single:
  assumes "chain s cf bs cl" "length (caddrs cf bs cl) = 1"
  shows "bs = [hd bs]" "cl = cf + 1"
proof -
  have "tl bs = [] \<and> cl = cf + 1"
  proof (rule ccontr)
    assume "\<not> (tl bs = [] \<and> cl = cf + 1)"
    then have "cf + 1 < cl \<or> tl bs \<noteq> []"
      using assms(1) by (cases "(s, cf, bs, cl)" rule: chain.cases) auto
    from caddrs_tail [OF assms(1) this] caddrs_Cons assms(2) show False by fastforce
  qed
  then show "bs = [hd bs]" "cl = cf + 1" using chain_hd [OF assms(1)] by (cases bs; simp)+
qed

lemma cbytes_caddrs: "chain s cf bs cl \<Longrightarrow> n = length (caddrs cf bs cl) \<Longrightarrow>
    cbytes n s cf = map (c_info s) (caddrs cf bs cl)"
proof (induction n arbitrary: cf bs)
  case (Suc n)
  show ?case
  proof (cases "n = 0")
    case True
    with Suc.prems caddrs_Cons [OF Suc.prems(1)] show ?thesis by auto
  next
    case False
    then have "cf + 1 < cl \<or> tl bs \<noteq> []"
      using Suc.prems by (cases "(s, cf, bs, cl)" rule: chain.cases) auto
    note t = caddrs_tail [OF Suc.prems(1) this]
    with Suc.IH [OF t(2)] Suc.prems(2) show ?thesis by simp
  qed
qed simp


lemma clq_contents:
  "clq s p bs \<Longrightarrow> contents s p = map (c_info s) (caddrs (c_cf p) bs (c_cl p))"
  by (auto simp: clq_def contents_def cbytes_caddrs split: if_splits)

lemma clq_length: "clq s p bs \<Longrightarrow> c_cc p = int (length (contents s p))"
  by (simp add: clq_contents) (auto simp: clq_def split: if_splits)

lemma owns_length: "owns s p bs fs \<Longrightarrow> c_cc p = int (length (contents s p))"
  by (auto simp: owns_def intro: clq_length)

lemma clq_empty_iff: "clq s p bs \<Longrightarrow> contents s p = [] \<longleftrightarrow> bs = []"
  by (cases "bs = []") (auto simp: clq_contents, auto simp: clq_def dest: caddrs_Cons)

lemma owns_empty_iff: "owns s p bs fs \<Longrightarrow> contents s p = [] \<longleftrightarrow> bs = []"
  by (rule clq_empty_iff) (simp add: owns_def)

text \<open>A block that moves to the free list.\<close>

lemma cb_release_simps [simp]:
  "cfreelist (cb_release b s) = b" "c_info (cb_release b s) = c_info s"
  "cfreecount (cb_release b s) = cfreecount s + CBSIZE"
  "c_next (cb_release b s) = (c_next s)(b := cfreelist s)"
  by (simp_all add: cb_release_def)

lemma frame_release: "b \<in> B \<Longrightarrow> frame B s (cb_release b s)"
  by (simp add: frame_def)

lemma owns_release:
  assumes "owns s p bs fs" "bs = b # bs'" "clq s p' bs'"
  shows "owns (cb_release b s) p' bs' (b # fs)"
proof -
  have d: "distinct (bs @ fs)" "cblock b" "flist s (cfreelist s) fs"
    using assms(1,2) chain_blocks by (auto simp: owns_def clq_def split: if_splits)
  have "chain (cb_release b s) cf bs' cl = chain s cf bs' cl" for cf cl
    using d(1) assms(2) by (intro chain_cong) auto
  then have "clq (cb_release b s) p' bs'" using assms(3) by (simp add: clq_def)
  moreover have "flist (cb_release b s) (cfreelist s) fs"
    using d assms(2) by (subst flist_cong [where s = s]) auto
  ultimately show ?thesis
    using assms(1,2) d by (simp add: owns_def algebra_simps)
qed

lemma caddrs_distinct_off:
  assumes "chain s cf bs cl" "b \<notin> set bs" "cbase a = b"
  shows "map ((c_info s)(a := x)) (caddrs cf bs cl) = map (c_info s) (caddrs cf bs cl)"
  using assms caddrs_in by fastforce

section \<open>One character at a time\<close>

definition step_ok :: "cstore \<Rightarrow> nat list \<Rightarrow> nat list \<Rightarrow> cstore \<Rightarrow> clist \<Rightarrow> bool" where
  "step_ok s bs fs s' p' \<longleftrightarrow>
     (\<exists>bs' fs'. owns s' p' bs' fs' \<and> set bs' \<union> set fs' = set bs \<union> set fs) \<and>
     frame (set bs \<union> set fs) s s'"

lemma step_okI:
  "owns s' p' bs' fs' \<Longrightarrow> set bs' \<union> set fs' = set bs \<union> set fs \<Longrightarrow>
   frame (set bs \<union> set fs) s s' \<Longrightarrow> step_ok s bs fs s' p'"
  unfolding step_ok_def by blast

lemma frame_refl [simp]: "frame B s s"
  by (simp add: frame_def)

lemma frame_trans: "frame B s s' \<Longrightarrow> frame B s' s'' \<Longrightarrow> frame B s s''"
  by (simp add: frame_def)

lemma getc_empty: "owns s p [] fs \<Longrightarrow> getc s p = (-1, s, p)"
  by (simp add: owns_def clq_def getc_def)

lemma getc_head:
  assumes "owns s p bs fs" "contents s p = b # cs"
  obtains s' p' where "getc s p = (uint b, s', p')" "contents s' p' = cs" "step_ok s bs fs s' p'"
proof -
  let ?cf = "c_cf p" and ?cl = "c_cl p"
  have ne: "bs \<noteq> []" using owns_empty_iff [OF assms(1)] assms(2) by simp
  have clq: "clq s p bs" using assms(1) by (simp add: owns_def)
  then have ch: "chain s ?cf bs ?cl" and cc: "c_cc p = int (length (caddrs ?cf bs ?cl))"
    using ne by (simp_all add: clq_def)
  have con: "contents s p = map (c_info s) (caddrs ?cf bs ?cl)" by (rule clq_contents [OF clq])
  have b: "c_info s ?cf = b" using caddrs_Cons [OF ch] con assms(2) by auto
  have pos: "c_cc p > 0" using cc con assms(2) by (cases "caddrs ?cf bs ?cl") auto
  obtain h t where bs: "bs = h # t" using ne by (cases bs) auto
  have hd: "cbase ?cf = h" "cblock h" "h \<le> ?cf" "?cf < h + 32"
    using chain_hd [OF ch] bs by auto
  have len: "length (caddrs ?cf bs ?cl) = Suc (length cs)" using con assms(2) by (metis length_map length_Cons)
  show thesis
  proof (cases "cs = []")
    case True
    then have t: "t = []" using chain_single(1) [OF ch] len bs by simp
    let ?p = "\<lparr>c_cc = 0, c_cf = 0, c_cl = 0\<rparr>"
    have g: "getc s p = (uint b, cb_release h s, ?p)"
      using pos cc len hd(1) True by (simp add: getc_def b)
    have o: "owns (cb_release h s) ?p [] (h # fs)"
      using owns_release [OF assms(1), of h "[]" ?p] bs t by (simp add: clq_def)
    have "contents (cb_release h s) ?p = cs" using owns_empty_iff [OF o] True by simp
    moreover have "step_ok s bs fs (cb_release h s) ?p"
      by (rule step_okI [OF o]) (simp_all add: bs t frame_release)
    ultimately show thesis using that g by blast
  next
    case False
    then have more: "c_cc p - 1 > 0" using cc len by simp
    then have "?cf + 1 < ?cl \<or> tl bs \<noteq> []"
      using cc by (cases "(s, ?cf, bs, ?cl)" rule: chain.cases) auto
    note t = caddrs_tail [OF ch this]
    show thesis
    proof (cases "cround (?cf + 1) = 0")
      case True
      have at_end: "?cf + 1 = h + 32"
        using True hd cround_in [of h "?cf + 1"] by (cases "?cf + 1 = h + 32") auto
      have nx: "cnextp s ?cf = cb_info (c_next s h)" using True at_end by (simp add: cnextp_def)
      let ?p = "p\<lparr>c_cc := c_cc p - 1, c_cf := cnextp s ?cf\<rparr>"
      have g: "getc s p = (uint b, cb_release h s, ?p)"
        using pos more True at_end b nx by (simp add: getc_def Let_def)
      have tl: "clq s ?p (tl bs)"
        using t True cc chain_hd [OF t(2)] by (auto simp: clq_def)
      have o: "owns (cb_release h s) ?p t (h # fs)"
        by (rule owns_release [OF assms(1) bs]) (use tl bs in simp)
      have "contents (cb_release h s) ?p = map (c_info s) (caddrs (c_cf ?p) t (c_cl ?p))"
        using clq_contents [of "cb_release h s" ?p t] o by (simp add: owns_def)
      also have "\<dots> = cs" using con t(1) True assms(2) bs by simp
      finally have "contents (cb_release h s) ?p = cs" .
      moreover have "step_ok s bs fs (cb_release h s) ?p"
        by (rule step_okI [OF o]) (auto simp: bs intro: frame_release)
      ultimately show thesis using that g by blast
    next
      case False
      let ?p = "p\<lparr>c_cc := c_cc p - 1, c_cf := ?cf + 1\<rparr>"
      have nx: "cnextp s ?cf = ?cf + 1" using False by (simp add: cnextp_def)
      have g: "getc s p = (uint b, s, ?p)"
        using pos more False by (simp add: getc_def Let_def b)
      have tl: "clq s ?p bs" using t False cc ne nx by (auto simp: clq_def)
      have "contents s ?p = cs" using clq_contents [OF tl] con t(1) False assms(2) nx by simp
      moreover have "step_ok s bs fs s ?p"
        using assms(1) tl by (intro step_okI) (auto simp: owns_def)
      ultimately show thesis using that g by blast
    qed
  qed
qed


text \<open>Appending at the end of a chain, inside its last block or in a fresh one.\<close>

lemma chain_snoc:
  "chain s cf bs cl \<Longrightarrow> cl < last bs + 32 \<Longrightarrow>
   chain s cf bs (cl + 1) \<and> caddrs cf bs (cl + 1) = caddrs cf bs cl @ [cl]"
  by (induction s cf bs cl rule: chain.induct) auto

lemma chain_grow:
  "chain s cf bs cl \<Longrightarrow> cl = last bs + 32 \<Longrightarrow> cblock n \<Longrightarrow> c_next s' (last bs) = n \<Longrightarrow>
   (\<And>b. b \<in> set (butlast bs) \<Longrightarrow> c_next s' b = c_next s b) \<Longrightarrow>
   chain s' cf (bs @ [n]) (n + 5) \<and> caddrs cf (bs @ [n]) (n + 5) = caddrs cf bs cl @ [n + 4]"
  by (induction s cf bs cl rule: chain.induct) (auto simp: upt_conv_Cons)

lemma flist_head:
  assumes "flist s (cfreelist s) fs" "cfreelist s \<noteq> 0"
  obtains fs' where "fs = cfreelist s # fs'" "cblock (cfreelist s)"
    "flist s (c_next s (cfreelist s)) fs'"
  using assms by (cases fs) auto

lemma flist_NULL: "flist s (cfreelist s) fs \<Longrightarrow> cfreelist s = 0 \<longleftrightarrow> fs = []"
  by (cases fs) (auto simp: cblock_def)

lemma cl_last_round: "chain s cf bs cl \<Longrightarrow> cround cl = 0 \<longleftrightarrow> cl = last bs + 32"
  using chain_last [of s cf bs cl] cround_in [of "last bs" cl] cround_end [of "last bs"]
  by (cases "cl = last bs + 32") auto

lemma cl_fresh:
  "chain s cf bs cl \<Longrightarrow> distinct bs \<Longrightarrow> cl < last bs + 32 \<Longrightarrow> cl \<notin> set (caddrs cf bs cl)"
proof (induction s cf bs cl rule: chain.induct)
  case (3 s cf b b' bs cl)
  have tl: "chain s (b' + 4) (b' # bs) cl" using "3.prems" by simp
  have l: "cblock (last (b' # bs))" "last (b' # bs) + 4 < cl" "cl < last (b' # bs) + 32"
    using chain_last [OF tl] "3.prems"(3) by auto
  then have "cbase cl = last (b' # bs)" by (intro cbase_in) auto
  then have "cbase cl \<noteq> b" using "3.prems"(2) by (auto split: if_splits)
  then have "cl \<notin> set [cf ..< b + 32]"
    using cbase_in [of b cl] "3.prems"(1) by auto
  with "3.IH" [OF tl] "3.prems" show ?case by simp
qed auto

text \<open>\<open>putc\<close> fails only when it needs a block and there is none; then nothing observable changes.\<close>

lemma putc_append:
  assumes "owns s p bs fs"
  obtains (stored) s' p' where "putc c s p = (0, s', p')" "contents s' p' = contents s p @ [c]"
      "step_ok s bs fs s' p'"
  | (full) s' where "putc c s p = (-1, s', p)" "contents s' p = contents s p" "step_ok s bs fs s' p"
      "fs = []" "bs = [] \<or> c_cl p = last bs + 32"
proof -
  have clq: "clq s p bs" and fl: "flist s (cfreelist s) fs" and d: "distinct (bs @ fs)"
    and fc: "cfreecount s = CBSIZE * int (length fs)"
    using assms by (simp_all add: owns_def)
  show thesis
  proof (cases "bs = []")
    case True
    then have p: "p = \<lparr>c_cc = 0, c_cf = 0, c_cl = 0\<rparr>" using clq by (simp add: clq_def)
    show thesis
    proof (cases "fs = []")
      case True
      then have "putc c s p = (-1, s, p)" using fl p by (simp add: putc_def flist_NULL)
      moreover have "step_ok s bs fs s p" by (rule step_okI [OF assms]) simp_all
      ultimately show thesis using full True \<open>bs = []\<close> by blast
    next
      case False
      then have nz: "cfreelist s \<noteq> 0" using fl flist_NULL by simp
      obtain fs' where fs: "fs = cfreelist s # fs'" "cblock (cfreelist s)"
          "flist s (c_next s (cfreelist s)) fs'"
        by (rule flist_head [OF fl nz])
      let ?n = "cfreelist s"
      let ?s = "(cb_take s)\<lparr>c_info := (c_info s)(?n + 4 := c)\<rparr>"
      let ?p = "\<lparr>c_cc = 1, c_cf = ?n + 4, c_cl = ?n + 5\<rparr>"
      have g: "putc c s p = (0, ?s, ?p)"
        using p nz by (simp add: putc_def Let_def cb_info_def cb_take_def)
      have clq': "clq ?s ?p [?n]" using fs(2) by (simp add: clq_def)
      have fl': "flist ?s (c_next s ?n) fs'"
        using fs d by (subst flist_cong [where s = s]) (auto simp: cb_take_def)
      have o: "owns ?s ?p [?n] fs'"
        using clq' fl' d fs fc by (simp add: owns_def cb_take_def algebra_simps)
      have "contents ?s ?p = contents s p @ [c]"
        using clq_contents [OF clq'] p by (simp add: contents_def cb_take_def)
      moreover have "step_ok s bs fs ?s ?p"
        using fs cbase_in [OF fs(2), of "?n + 4"]
        by (intro step_okI [OF o]) (auto simp: \<open>bs = []\<close> frame_def cb_take_def)
      ultimately show thesis using stored g by blast
    qed
  next
    case ne: False
    then have ch: "chain s (c_cf p) bs (c_cl p)"
      and cc: "c_cc p = int (length (caddrs (c_cf p) bs (c_cl p)))" using clq by (simp_all add: clq_def)
    have con: "contents s p = map (c_info s) (caddrs (c_cf p) bs (c_cl p))" by (rule clq_contents [OF clq])
    have cl: "cblock (last bs)" "last bs + 4 < c_cl p" "c_cl p \<le> last bs + 32"
      using chain_last [OF ch] by auto
    have lst: "last bs \<in> set bs" using ne by simp
    show thesis
    proof (cases "c_cl p = last bs + 32")
      case False
      let ?s = "s\<lparr>c_info := (c_info s)(c_cl p := c)\<rparr>"
      let ?p = "p\<lparr>c_cc := c_cc p + 1, c_cl := c_cl p + 1\<rparr>"
      have g: "putc c s p = (0, ?s, ?p)"
        using cl cl_last_round [OF ch] False cc by (simp add: putc_def Let_def cb_take_def cb_link_def)
      have sn: "chain s (c_cf p) bs (c_cl p + 1)"
          "caddrs (c_cf p) bs (c_cl p + 1) = caddrs (c_cf p) bs (c_cl p) @ [c_cl p]"
        using chain_snoc [OF ch] False cl by auto
      have clq': "clq ?s ?p bs"
        using sn cc ne chain_cong [of bs ?s s "c_cf p" "c_cl p + 1"] by (simp add: clq_def)
      have fresh: "c_cl p \<notin> set (caddrs (c_cf p) bs (c_cl p))"
        using cl_fresh [OF ch] d False cl by simp
      have o: "owns ?s ?p bs fs"
        using clq' fl d fc flist_cong [of fs ?s s] by (simp add: owns_def)
      have "contents ?s ?p = contents s p @ [c]"
        using clq_contents [OF clq'] sn(2) con fresh by (auto simp: map_fun_upd)
      moreover have "step_ok s bs fs ?s ?p"
        using cbase_in [OF cl(1), of "c_cl p"] cl False lst
        by (intro step_okI [OF o]) (auto simp: frame_def)
      ultimately show thesis using stored g by blast
    next
      case True
      let ?l = "last bs"
      have rnd: "cround (c_cl p) = 0" "c_cl p - 32 = ?l" using cl_last_round [OF ch] True by auto
      have nn: "c_cl p \<noteq> 0" "\<not> c_cc p < 0" using cl(2) cc by auto
      have butl: "?l \<notin> set (butlast bs)" using d ne
        by (metis append_butlast_last_id distinct_append disjoint_insert(2) list.simps(15) not_distinct_conv_prefix)
      show thesis
      proof (cases "fs = []")
        case True
        let ?s = "cb_link ?l s"
        have nf: "cfreelist s = 0" using fl True flist_NULL by simp
        have g: "putc c s p = (-1, ?s, p)" using rnd nn nf by (simp add: putc_def Let_def cb_take_def cb_link_def)
        have chq: "chain ?s cf b cle = chain s cf b cle" if "set b \<subseteq> set bs" "?l \<notin> set (butlast b)" for cf b cle
          using that
        proof (induction s cf b cle rule: chain.induct)
        qed (auto simp: cb_link_def)
        have clq': "clq ?s p bs" using chq [of bs] butl clq by (simp add: clq_def)
        have o: "owns ?s p bs fs"
          using clq' True nf d fc by (simp add: owns_def cb_link_def)
        have "contents ?s p = contents s p"
          using clq_contents [OF clq'] con by (simp add: cb_link_def)
        moreover have "step_ok s bs fs ?s p"
          using lst by (intro step_okI [OF o]) (auto simp: frame_def cb_link_def)
        ultimately show thesis using full g True \<open>c_cl p = last bs + 32\<close> by blast
      next
        case False
        then have nz: "cfreelist s \<noteq> 0" using fl flist_NULL by simp
        obtain fs' where fs: "fs = cfreelist s # fs'" "cblock (cfreelist s)"
            "flist s (c_next s (cfreelist s)) fs'"
          by (rule flist_head [OF fl nz])
        let ?n = "cfreelist s"
        let ?s = "(cb_take (cb_link ?l s))\<lparr>c_info := (c_info s)(?n + 4 := c)\<rparr>"
        let ?p = "p\<lparr>c_cc := c_cc p + 1, c_cl := ?n + 5\<rparr>"
        have g: "putc c s p = (0, ?s, ?p)"
          using rnd nn nz by (simp add: putc_def Let_def cb_info_def cb_take_def cb_link_def)
        have dn: "?n \<notin> set bs" "?n \<noteq> ?l" "?l \<notin> set fs'" "?n \<notin> set fs'" using d fs(1) lst by auto
        have gr: "chain ?s (c_cf p) (bs @ [?n]) (?n + 5)"
            "caddrs (c_cf p) (bs @ [?n]) (?n + 5) = caddrs (c_cf p) bs (c_cl p) @ [?n + 4]"
        proof -
          have "c_next ?s b = c_next s b" if "b \<in> set (butlast bs)" for b
            using that butl dn in_set_butlastD [of b bs] by (auto simp: cb_take_def cb_link_def)
          with chain_grow [OF ch True fs(2), of ?s] dn
          show "chain ?s (c_cf p) (bs @ [?n]) (?n + 5)"
            "caddrs (c_cf p) (bs @ [?n]) (?n + 5) = caddrs (c_cf p) bs (c_cl p) @ [?n + 4]"
            by (auto simp: cb_take_def cb_link_def)
        qed
        have clq': "clq ?s ?p (bs @ [?n])" using gr cc by (simp add: clq_def)
        have fl': "flist ?s (cfreelist ?s) fs'"
          using fs dn by (subst flist_cong [where s = s]) (auto simp: cb_take_def cb_link_def)
        have o: "owns ?s ?p (bs @ [?n]) fs'"
          using clq' fl' d fs fc by (simp add: owns_def cb_take_def cb_link_def algebra_simps)
        have "cbase (?n + 4) = ?n" using fs(2) by (intro cbase_in) auto
        then have "map (c_info ?s) (caddrs (c_cf p) bs (c_cl p)) = contents s p"
          using caddrs_distinct_off [OF ch dn(1), of "?n + 4" c] con by (simp add: cb_take_def cb_link_def)
        then have "contents ?s ?p = contents s p @ [c]"
          using clq_contents [OF clq'] gr(2) by simp
        moreover have "step_ok s bs fs ?s ?p"
          using fs(1) \<open>cbase (?n + 4) = ?n\<close> lst
          by (intro step_okI [OF o]) (auto simp: frame_def cb_take_def cb_link_def)
        ultimately show thesis using stored g by blast
      qed
    qed
  qed
qed


section \<open>The queue contract\<close>

text \<open>
  What the terminal drivers rely on: bytes come out in the order they went in, \<open>get\<close> reports an
  empty queue by -1, and a refused \<open>put\<close> changes nothing.
\<close>

locale byte_fifo =
  fixes get :: "'s \<Rightarrow> int \<times> 's"
    and put :: "byte \<Rightarrow> 's \<Rightarrow> int \<times> 's"
    and bytes :: "'s \<Rightarrow> byte list"
    and ok :: "'s \<Rightarrow> bool"
  assumes get_nil: "ok s \<Longrightarrow> bytes s = [] \<Longrightarrow> get s = (-1, s)"
    and get_cons: "ok s \<Longrightarrow> bytes s = b # bs \<Longrightarrow> \<exists>s'. get s = (uint b, s') \<and> ok s' \<and> bytes s' = bs"
    and put: "ok s \<Longrightarrow> \<exists>r s'. put c s = (r, s') \<and> ok s' \<and>
      (r = 0 \<and> bytes s' = bytes s @ [c] \<or> r = -1 \<and> bytes s' = bytes s)"
begin

fun drain :: "nat \<Rightarrow> 's \<Rightarrow> byte list \<times> 's" where
  "drain 0 s = ([], s)"
| "drain (Suc n) s =
     (let (c, s') = get s
      in if c < 0 then ([], s')
         else let (bs, s'') = drain n s' in (word_of_int c # bs, s''))"

lemma drain_bytes:
  "ok s \<Longrightarrow> \<exists>s'. drain n s = (take n (bytes s), s') \<and> ok s' \<and> bytes s' = drop n (bytes s)"
proof (induction n arbitrary: s)
  case (Suc n)
  show ?case
  proof (cases "bytes s")
    case Nil
    with get_nil [OF Suc.prems] Suc.prems show ?thesis by simp
  next
    case (Cons b bs)
    then obtain s' where g: "get s = (uint b, s')" "ok s'" "bytes s' = bs"
      using get_cons [OF Suc.prems] by blast
    from Suc.IH [OF g(2)] obtain s'' where
      "drain n s' = (take n bs, s'')" "ok s''" "bytes s'' = drop n bs"
      using g(3) by auto
    with g(1) Cons show ?thesis by (simp add: not_less)
  qed
qed simp

text \<open>Two puts that are not refused, then two gets.\<close>

lemma put_put_get_get:
  assumes "ok s" "bytes s = []" "put a s = (0, s1)" "put b s1 = (0, s2)"
  obtains s3 s4 where "get s2 = (uint a, s3)" "get s3 = (uint b, s4)" "ok s4" "bytes s4 = []"
proof -
  have 1: "ok s1" "bytes s1 = [a]" using put [OF assms(1), of a] assms(2,3) by auto
  have 2: "ok s2" "bytes s2 = [a, b]" using put [OF 1(1), of b] 1(2) assms(4) by auto
  obtain s3 where 3: "get s2 = (uint a, s3)" "ok s3" "bytes s3 = [b]"
    using get_cons [OF 2] by blast
  obtain s4 where "get s3 = (uint b, s4)" "ok s4" "bytes s4 = []"
    using get_cons [OF 3(2,3)] by blast
  with 3(1) that show thesis by blast
qed

end

definition cl_ok :: "cstore \<times> clist \<Rightarrow> bool" where
  "cl_ok sp \<longleftrightarrow> (\<exists>bs fs. owns (fst sp) (snd sp) bs fs)"

definition cl_bytes :: "cstore \<times> clist \<Rightarrow> byte list" where
  "cl_bytes sp = contents (fst sp) (snd sp)"

definition cl_get :: "cstore \<times> clist \<Rightarrow> int \<times> cstore \<times> clist" where
  "cl_get sp = getc (fst sp) (snd sp)"

definition cl_put :: "byte \<Rightarrow> cstore \<times> clist \<Rightarrow> int \<times> cstore \<times> clist" where
  "cl_put c sp = putc c (fst sp) (snd sp)"

lemma step_ok_cl_ok: "step_ok s bs fs s' p' \<Longrightarrow> cl_ok (s', p')"
  by (auto simp: step_ok_def cl_ok_def)

lemma owns_cl_ok: "owns s p bs fs \<Longrightarrow> cl_ok (s, p)"
  by (auto simp: cl_ok_def)

interpretation cl: byte_fifo cl_get cl_put cl_bytes cl_ok
proof (unfold_locales, goal_cases)
  case (1 sp)
  then obtain bs fs where o: "owns (fst sp) (snd sp) bs fs" by (auto simp: cl_ok_def)
  with 1(2) owns_empty_iff [OF o] have "bs = []" by (simp add: cl_bytes_def)
  with o getc_empty show ?case by (simp add: cl_get_def)
next
  case (2 sp b cs)
  then obtain bs fs where o: "owns (fst sp) (snd sp) bs fs" by (auto simp: cl_ok_def)
  obtain s' p' where "getc (fst sp) (snd sp) = (uint b, s', p')" "contents s' p' = cs"
      "step_ok (fst sp) bs fs s' p'"
    using getc_head [OF o] 2(2) by (metis cl_bytes_def)
  then show ?case by (auto simp: cl_get_def cl_bytes_def dest: step_ok_cl_ok)
next
  case (3 sp c)
  then obtain bs fs where o: "owns (fst sp) (snd sp) bs fs" by (auto simp: cl_ok_def)
  show ?case
    by (rule putc_append [OF o, of c]) (auto simp: cl_put_def cl_bytes_def dest: step_ok_cl_ok)
qed

section \<open>Whole buffers\<close>

lemma step_ok_trans:
  assumes "step_ok s bs fs s' p'" "\<And>bs' fs'. owns s' p' bs' fs' \<Longrightarrow> step_ok s' bs' fs' s'' p''"
  shows "step_ok s bs fs s'' p''"
proof -
  obtain bs' fs' where o: "owns s' p' bs' fs'" "set bs' \<union> set fs' = set bs \<union> set fs"
    and f: "frame (set bs \<union> set fs) s s'"
    using assms(1) by (auto simp: step_ok_def)
  from assms(2) [OF o(1)] o(2) f show ?thesis
    unfolding step_ok_def by (metis frame_trans)
qed

text \<open>One round of \<open>q_to_b\<close> is one \<open>getc\<close>, one round of \<open>b_to_q\<close> one \<open>putc\<close>.\<close>

lemma q_to_b_loop_getc:
  "c_cc q > 0 \<Longrightarrow> q_to_b_loop (Suc n) s q =
     (let (c, s', q') = getc s q
      in if c_cc q' \<le> 0 then ([word_of_int c], s', q')
         else let (bs, s'', q'') = q_to_b_loop n s' q' in (word_of_int c # bs, s'', q''))"
  by (simp add: getc_def Let_def)

lemma q_to_b_loop_bytes:
  "owns s q bs fs \<Longrightarrow> contents s q \<noteq> [] \<Longrightarrow>
   \<exists>s' q'. q_to_b_loop n s q = (take n (contents s q), s', q') \<and>
     contents s' q' = drop n (contents s q) \<and> step_ok s bs fs s' q'"
proof (induction n arbitrary: s q bs fs)
  case 0
  then show ?case by (auto intro: step_okI)
next
  case (Suc n)
  obtain b cs where con: "contents s q = b # cs" using Suc.prems(2) by (cases "contents s q") auto
  obtain s' q' where g: "getc s q = (uint b, s', q')" "contents s' q' = cs" "step_ok s bs fs s' q'"
    by (rule getc_head [OF Suc.prems(1) con])
  have pos: "c_cc q > 0" using owns_length [OF Suc.prems(1)] con by simp
  obtain bs' fs' where o: "owns s' q' bs' fs'" using g(3) by (auto simp: step_ok_def)
  have cc': "c_cc q' = int (length cs)" using owns_length [OF o] g(2) by simp
  show ?case
  proof (cases "cs = []")
    case True
    with cc' g pos con show ?thesis by (simp add: q_to_b_loop_getc del: q_to_b_loop.simps)
  next
    case False
    from Suc.IH [OF o] False g(2) obtain s'' q'' where
      r: "q_to_b_loop n s' q' = (take n cs, s'', q'')" "contents s'' q'' = drop n cs" by auto
    have "step_ok s bs fs s'' q''"
      by (rule step_ok_trans [OF g(3)]) (use Suc.IH False g(2) r(1) in fastforce)
    with r cc' g pos con False show ?thesis
      by (simp add: q_to_b_loop_getc del: q_to_b_loop.simps)
  qed
qed

lemma b_to_q_loop_putc:
  "0 < c_cl q \<Longrightarrow> 0 \<le> c_cc q \<Longrightarrow> b_to_q_loop (c # cs) s (c_cl q) =
     (let (r, s', q') = putc c s q
      in if r = 0 then b_to_q_loop cs s' (c_cl q') else (s', c_cl q, c # cs))"
  by (simp add: putc_def Let_def cb_take_def cb_link_def)

lemma clq_ends: "owns s q bs fs \<Longrightarrow> contents s q \<noteq> [] \<Longrightarrow> 0 < c_cl q \<and> 0 \<le> c_cc q"
  using owns_length [of s q bs fs] owns_empty_iff [of s q bs fs] chain_last [of s "c_cf q" bs "c_cl q"]
  by (auto simp: owns_def clq_def split: if_splits)

lemma putc_keeps_cf: "0 < c_cl q \<Longrightarrow> 0 \<le> c_cc q \<Longrightarrow> putc c s q = (0, s', q') \<Longrightarrow>
    q' = q\<lparr>c_cc := c_cc q + 1, c_cl := c_cl q'\<rparr>"
  by (auto simp: putc_def Let_def cb_take_def cb_link_def split: if_splits)

lemma putc_refused: "putc c s q = (-1, s', q') \<Longrightarrow> cfreelist s' = 0 \<and> cfreelist s = 0"
  by (auto simp: putc_def Let_def cb_take_def cb_link_def split: if_splits)

lemma b_to_q_loop_bytes:
  "owns s q bs fs \<Longrightarrow> contents s q \<noteq> [] \<Longrightarrow>
   \<exists>s' cq k. b_to_q_loop cs s (c_cl q) = (s', cq, drop k cs) \<and> k \<le> length cs \<and>
     contents s' (q\<lparr>c_cc := c_cc q + int k, c_cl := cq\<rparr>) = contents s q @ take k cs \<and>
     step_ok s bs fs s' (q\<lparr>c_cc := c_cc q + int k, c_cl := cq\<rparr>) \<and>
     (k < length cs \<longrightarrow> cfreelist s' = 0)"
proof (induction cs arbitrary: s q bs fs)
  case Nil
  then show ?case by (auto intro: step_okI)
next
  case (Cons c cs)
  have e: "0 < c_cl q" "0 \<le> c_cc q" using clq_ends [OF Cons.prems] by auto
  note loop = b_to_q_loop_putc [OF e]
  show ?case
  proof (rule putc_append [OF Cons.prems(1), of c])
    fix s' q'
    assume p: "putc c s q = (0, s', q')" "contents s' q' = contents s q @ [c]" "step_ok s bs fs s' q'"
    have q': "q' = q\<lparr>c_cc := c_cc q + 1, c_cl := c_cl q'\<rparr>" by (rule putc_keeps_cf [OF e p(1)])
    obtain bs' fs' where o: "owns s' q' bs' fs'" using p(3) by (auto simp: step_ok_def)
    have ne: "contents s' q' \<noteq> []" using p(2) by simp
    obtain s'' cq k where r: "b_to_q_loop cs s' (c_cl q') = (s'', cq, drop k cs)" "k \<le> length cs"
        "contents s'' (q'\<lparr>c_cc := c_cc q' + int k, c_cl := cq\<rparr>) = contents s' q' @ take k cs"
        "k < length cs \<longrightarrow> cfreelist s'' = 0"
      using Cons.IH [OF o ne] by blast
    have eq: "q'\<lparr>c_cc := c_cc q' + int k, c_cl := cq\<rparr> =
        q\<lparr>c_cc := c_cc q + int (Suc k), c_cl := cq\<rparr>"
      by (subst q', subst q') simp
    have "step_ok s bs fs s'' (q'\<lparr>c_cc := c_cc q' + int k, c_cl := cq\<rparr>)"
    proof (rule step_ok_trans [OF p(3)])
      fix bs2 fs2
      assume o2: "owns s' q' bs2 fs2"
      obtain s2 cq2 k2 where r2: "b_to_q_loop cs s' (c_cl q') = (s2, cq2, drop k2 cs)" "k2 \<le> length cs"
          "step_ok s' bs2 fs2 s2 (q'\<lparr>c_cc := c_cc q' + int k2, c_cl := cq2\<rparr>)"
        using Cons.IH [OF o2 ne] by blast
      have "drop k2 cs = drop k cs" using r(1) r2(1) by simp
      then have "k2 = k" using r(2) r2(2) by (metis diff_diff_cancel length_drop)
      with r(1) r2 show "step_ok s' bs2 fs2 s'' (q'\<lparr>c_cc := c_cc q' + int k, c_cl := cq\<rparr>)" by simp
    qed
    then show ?case using r p(1,2) loop eq
      by (intro exI [of _ s''] exI [of _ cq] exI [of _ "Suc k"]) simp
  next
    fix s'
    assume p: "putc c s q = (-1, s', q)" "contents s' q = contents s q" "step_ok s bs fs s' q"
    then show ?case using loop putc_refused [OF p(1)]
      by (intro exI [of _ s'] exI [of _ "c_cl q"] exI [of _ 0]) simp
  qed
qed

lemma step_ok_refl: "owns s q bs fs \<Longrightarrow> step_ok s bs fs s q"
  by (rule step_okI) simp_all

text \<open>The whole of \<open>b_to_q\<close>: a first block when the queue is empty, then the loop.\<close>

lemma b_to_q_first:
  assumes "owns s q [] fs" "cfreelist s \<noteq> 0" "putc c s q = (0, s1, q1)"
  shows "b_to_q (c # cs) s q =
     (let (s', cq, left) = b_to_q_loop cs s1 (c_cl q1)
      in (int (length left), s', q1\<lparr>c_cl := cq, c_cc := c_cc q1 + int (length cs) - int (length left)\<rparr>))"
proof -
  have q: "q = \<lparr>c_cc = 0, c_cf = 0, c_cl = 0\<rparr>" using assms(1) by (simp add: owns_def clq_def)
  have "flist s (cfreelist s) fs" using assms(1) by (simp add: owns_def)
  then have b: "cblock (cfreelist s)" using assms(2) flist_head by blast
  have r: "cround (cb_info (cfreelist s)) \<noteq> 0"
    using cround_in [OF b, of "cb_info (cfreelist s)"] by (simp add: cb_info_def)
  show ?thesis
    using assms(2,3) q r by (auto simp: b_to_q_def putc_def Let_def cb_take_def split: prod.splits)
qed

lemma b_to_q_bytes:
  assumes o: "owns s q bs fs"
  obtains s' q' k where "b_to_q cs s q = (int (length cs - k), s', q')" "k \<le> length cs"
    "contents s' q' = contents s q @ take k cs" "step_ok s bs fs s' q'"
    "k < length cs \<longrightarrow> cfreelist s' = 0"
proof (cases "bs = []")
  case True
  have q: "q = \<lparr>c_cc = 0, c_cf = 0, c_cl = 0\<rparr>" using o True by (simp add: owns_def clq_def)
  show thesis
  proof (cases cs)
    case Nil
    with that [of 0 s q] step_ok_refl [OF o] show thesis by (simp add: b_to_q_def)
  next
    case (Cons c cs')
    show thesis
    proof (rule putc_append [OF o, of c])
      fix s1 q1
      assume p: "putc c s q = (0, s1, q1)" "contents s1 q1 = contents s q @ [c]" "step_ok s bs fs s1 q1"
      have nz: "cfreelist s \<noteq> 0" using p(1) q by (auto simp: putc_def split: if_splits)
      obtain bs1 fs1 where o1: "owns s1 q1 bs1 fs1" using p(3) by (auto simp: step_ok_def)
      have ne: "contents s1 q1 \<noteq> []" using p(2) by simp
      obtain s' cq k where r: "b_to_q_loop cs' s1 (c_cl q1) = (s', cq, drop k cs')" "k \<le> length cs'"
          "contents s' (q1\<lparr>c_cc := c_cc q1 + int k, c_cl := cq\<rparr>) = contents s1 q1 @ take k cs'"
          "k < length cs' \<longrightarrow> cfreelist s' = 0"
        using b_to_q_loop_bytes [OF o1 ne] by blast
      have st: "step_ok s bs fs s' (q1\<lparr>c_cc := c_cc q1 + int k, c_cl := cq\<rparr>)"
      proof (rule step_ok_trans [OF p(3)])
        fix bs2 fs2
        assume o2: "owns s1 q1 bs2 fs2"
        obtain s2 cq2 k2 where r2: "b_to_q_loop cs' s1 (c_cl q1) = (s2, cq2, drop k2 cs')" "k2 \<le> length cs'"
            "step_ok s1 bs2 fs2 s2 (q1\<lparr>c_cc := c_cc q1 + int k2, c_cl := cq2\<rparr>)"
          using b_to_q_loop_bytes [OF o2 ne] by blast
        have "drop k2 cs' = drop k cs'" using r(1) r2(1) by simp
        then have "k2 = k" using r(2) r2(2) by (metis diff_diff_cancel length_drop)
        with r(1) r2 show "step_ok s1 bs2 fs2 s' (q1\<lparr>c_cc := c_cc q1 + int k, c_cl := cq\<rparr>)" by simp
      qed
      have "b_to_q cs s q = (int (length cs - Suc k), s', q1\<lparr>c_cc := c_cc q1 + int k, c_cl := cq\<rparr>)"
        using b_to_q_first [OF _ nz p(1), of fs cs'] o True r(1,2) Cons by (simp add: of_nat_diff)
      with that [of "Suc k"] r p(2) st Cons show thesis by simp
    next
      fix s'
      assume p: "putc c s q = (-1, s', q)" "contents s' q = contents s q" "step_ok s bs fs s' q" "fs = []"
      have f: "cfreelist s = 0" using putc_refused [OF p(1)] by simp
      have "b_to_q cs s q = (int (length cs), s, q)" using Cons q f by (simp add: b_to_q_def)
      with that [of 0 s q] step_ok_refl [OF o] f show thesis by simp
    qed
  qed
next
  case False
  then have ne: "contents s q \<noteq> []" using owns_empty_iff [OF o] by simp
  obtain s' cq k where r: "b_to_q_loop cs s (c_cl q) = (s', cq, drop k cs)" "k \<le> length cs"
     "contents s' (q\<lparr>c_cc := c_cc q + int k, c_cl := cq\<rparr>) = contents s q @ take k cs"
     "step_ok s bs fs s' (q\<lparr>c_cc := c_cc q + int k, c_cl := cq\<rparr>)" "k < length cs \<longrightarrow> cfreelist s' = 0"
    using b_to_q_loop_bytes [OF o ne] by blast
  have "b_to_q cs s q = (int (length cs - k), s', q\<lparr>c_cc := c_cc q + int k, c_cl := cq\<rparr>)"
  proof (cases "cs = []")
    case True
    with r show ?thesis by (simp add: b_to_q_def)
  next
    case False
    with r clq_ends [OF o ne] show ?thesis by (simp add: b_to_q_def Let_def of_nat_diff)
  qed
  with that r show thesis by blast
qed

text \<open>Taking the last character back.\<close>

lemma chain_back_block:
  "chain s cf bs cl \<Longrightarrow> tl bs \<noteq> [] \<Longrightarrow> cl = last bs + 5 \<Longrightarrow>
   chain s cf (butlast bs) (last (butlast bs) + 32) \<and>
   caddrs cf bs cl = caddrs cf (butlast bs) (last (butlast bs) + 32) @ [cl - 1] \<and>
   c_next s (last (butlast bs)) = last bs"
proof (induction s cf bs cl rule: chain.induct)
  case (3 s cf b b' bs cl)
  show ?case
  proof (cases bs)
    case Nil
    with 3 show ?thesis by (auto simp: upt_conv_Cons)
  next
    case (Cons b'' bs')
    with 3 show ?thesis by (cases bs') auto
  qed
qed auto

lemma chain_back_char:
  "chain s cf bs cl \<Longrightarrow> (if tl bs = [] then cf + 1 < cl else last bs + 5 < cl) \<Longrightarrow>
   chain s cf bs (cl - 1) \<and> caddrs cf bs cl = caddrs cf bs (cl - 1) @ [cl - 1]"
proof (induction s cf bs cl rule: chain.induct)
  case (2 s cf b cl)
  then obtain k where "cl = Suc k" "cf < k" by (cases cl) auto
  with 2 show ?case by auto
next
  case (3 s cf b b' bs cl)
  then show ?case by (auto split: if_splits)
qed auto

lemma find_prev_chain:
  "chain s cf bs cl \<Longrightarrow> tl bs \<noteq> [] \<Longrightarrow> distinct bs \<Longrightarrow>
   find_prev s (hd bs) (last bs) = Some (last (butlast bs))"
proof (induction s cf bs cl rule: chain.induct)
  case (3 s cf b b' bs cl)
  show ?case
  proof (cases "bs = []")
    case True
    with 3 show ?thesis by (subst find_prev.simps) simp
  next
    case False
    then have "last bs \<in> set bs" by simp
    moreover have "b' \<notin> set bs" using 3 by simp
    ultimately have "last bs \<noteq> b'" by metis
    with 3 False show ?thesis by (subst find_prev.simps) simp
  qed
qed auto

lemma chain_cong_butlast:
  "(\<And>b. b \<in> set (butlast bs) \<Longrightarrow> c_next s' b = c_next s b) \<Longrightarrow> chain s' cf bs cl = chain s cf bs cl"
  by (induction s cf bs cl rule: chain.induct) auto

lemma butlast_last_off: "distinct xs \<Longrightarrow> last xs \<notin> set (butlast xs)"
  by (induction xs) (auto split: if_splits)

lemma caddrs_last: "chain s cf bs cl \<Longrightarrow> \<exists>as. caddrs cf bs cl = as @ [cl - 1]"
proof (induction s cf bs cl rule: chain.induct)
  case (2 s cf b cl)
  then obtain k where "cl = Suc k" "cf \<le> k" by (cases cl) auto
  then show ?case by simp
next
  case (3 s cf b b' bs cl)
  then show ?case by auto
qed simp

lemma owns_release_last:
  assumes "owns s p bs fs" "bs = bs' @ [b]" "clq s' p' bs'"
    "s' = s\<lparr>c_next := (c_next s)(b := cfreelist s, d := x), cfreelist := b, cfreecount := cfreecount s + CBSIZE\<rparr>"
    "d \<in> set bs' \<or> d = b \<and> x = cfreelist s"
  shows "owns s' p' bs' (b # fs)"
proof -
  have d: "distinct (bs @ fs)" "cblock b"
    using assms(1,2) chain_last [of s "c_cf p" bs "c_cl p"] by (auto simp: owns_def clq_def)
  have "d \<notin> set fs" using d(1) assms(2,5) by auto
  then have "flist s' (cfreelist s) fs"
    using assms(1,2,4) d by (subst flist_cong [where s = s]) (auto simp: owns_def)
  moreover have "d \<noteq> b \<or> x = cfreelist s" using d(1) assms(2,5) by auto
  ultimately show ?thesis
    using assms d by (auto simp: owns_def algebra_simps)
qed

lemma unputc_last:
  assumes o: "owns s p bs fs" and con: "contents s p = cs @ [b]"
  obtains s' p' where "unputc s p = Some (sint b, s', p')" "contents s' p' = cs" "step_ok s bs fs s' p'"
proof -
  have clq: "clq s p bs" and d: "distinct (bs @ fs)" using o by (simp_all add: owns_def)
  have ne: "bs \<noteq> []" using con owns_empty_iff [OF o] by auto
  then have ch: "chain s (c_cf p) bs (c_cl p)"
    and cc: "c_cc p = int (length (caddrs (c_cf p) bs (c_cl p)))" using clq by (simp_all add: clq_def)
  obtain as where as: "caddrs (c_cf p) bs (c_cl p) = as @ [c_cl p - 1]" using caddrs_last [OF ch] by blast
  have b: "c_info s (c_cl p - 1) = b" "map (c_info s) as = cs" using con clq_contents [OF clq] as by auto
  have len: "c_cc p = int (length cs) + 1" using cc as b(2) by auto
  note lst = chain_last [OF ch]
  have cr: "cround (c_cl p - 1) = c_cl p - 1 - last bs" using lst by (intro cround_in) auto
  show thesis
  proof (cases "cs = []")
    case True
    then have "length (caddrs (c_cf p) bs (c_cl p)) = 1" using as b(2) by simp
    then have bs: "bs = [hd bs]" using chain_single [OF ch] by blast
    then have cb: "cbase (c_cl p - 1) = hd bs" using lst by (metis last.simps)
    let ?b = "hd bs"
    let ?s = "s\<lparr>c_next := (c_next s)(?b := cfreelist s, ?b := cfreelist s), cfreelist := ?b,
                cfreecount := cfreecount s + CBSIZE\<rparr>"
    let ?p = "\<lparr>c_cc = 0, c_cf = 0, c_cl = 0\<rparr>"
    have "owns ?s ?p [] (?b # fs)"
      by (rule owns_release_last [OF o _ _ refl]) (use bs in \<open>simp_all add: clq_def\<close>)
    then have "step_ok s bs fs ?s ?p"
    proof (rule step_okI)
      show "set [] \<union> set (?b # fs) = set bs \<union> set fs" using arg_cong [OF bs, of set] by auto
      show "frame (set bs \<union> set fs) s ?s" using hd_in_set [OF ne] by (auto simp: frame_def)
    qed
    moreover have "unputc s p = Some (sint b, ?s, ?p)"
      using len b(1) True cb by (simp add: unputc_def Let_def)
    ultimately show thesis using that True by (simp add: contents_def)
  next
    case False
    show thesis
    proof (cases "c_cl p = last bs + 5")
      case True
      have tl: "tl bs \<noteq> []"
      proof
        assume "tl bs = []"
        then have "bs = [last bs]" using ne by (cases bs) auto
        then have c1: "chain s (c_cf p) [last bs] (c_cl p)" "caddrs (c_cf p) [last bs] (c_cl p) = as @ [c_cl p - 1]"
          using ch as by metis+
        then have "c_cf p = last bs + 4" using True by simp
        then have "as = []" using c1(2) True by (simp add: upt_conv_Cons)
        then show False using b(2) \<open>cs \<noteq> []\<close> by simp
      qed
      note bk = chain_back_block [OF ch tl True]
      have bbs: "bs = butlast bs @ [last bs]" using ne by simp
      have obp: "last (butlast bs) \<in> set (butlast bs)" using tl by (cases bs) (auto intro: last_in_set)
      let ?o = "last (butlast bs)" and ?b = "last bs"
      let ?s = "s\<lparr>c_next := (c_next s)(?b := cfreelist s, ?o := 0), cfreelist := ?b,
                cfreecount := cfreecount s + CBSIZE\<rparr>"
      let ?p = "p\<lparr>c_cc := c_cc p - 1, c_cl := ?o + 32\<rparr>"
      have ca: "caddrs (c_cf p) (butlast bs) (?o + 32) = as" using bk as by simp
      have hdb: "cbase (c_cf p) = hd bs" using chain_hd [OF ch] by simp
      have fp: "find_prev s (hd bs) ?b = Some ?o" using find_prev_chain [OF ch tl] d by simp
      have cbl: "cbase (c_cl p - 1) = ?b" using lst by simp
      have u: "unputc s p = Some (sint b, ?s, ?p)"
        using len b(1) False True cr hdb fp cbl bk by (simp add: unputc_def Let_def)
      have nb: "?b \<notin> set (butlast bs)" using d butlast_last_off [of bs] by simp
      have "c_next ?s x = c_next s x" if "x \<in> set (butlast (butlast bs))" for x
        using that nb d in_set_butlastD [of x "butlast bs"] butlast_last_off [of "butlast bs"] distinct_butlast [of bs] by auto
      then have ch': "chain ?s (c_cf p) (butlast bs) (?o + 32)"
        using bk chain_cong_butlast [of "butlast bs" ?s s "c_cf p" "?o + 32"] by simp
      have ne': "butlast bs \<noteq> []" using tl by (cases bs) auto
      have clq': "clq ?s ?p (butlast bs)" using ch' ne' cc as ca by (simp add: clq_def)
      have "owns ?s ?p (butlast bs) (?b # fs)"
        by (rule owns_release_last [OF o bbs clq' refl]) (use obp in simp)
      then have "step_ok s bs fs ?s ?p"
      proof (rule step_okI)
        show "set (butlast bs) \<union> set (?b # fs) = set bs \<union> set fs"
          using arg_cong [OF bbs, of set] by auto
        show "frame (set bs \<union> set fs) s ?s"
          using ne in_set_butlastD [OF obp] by (auto simp: frame_def)
      qed
      moreover have "contents ?s ?p = cs" using clq_contents [OF clq'] ca b(2) by simp
      ultimately show thesis using that u by blast
    next
      case F5: False
      have nx: "if tl bs = [] then c_cf p + 1 < c_cl p else last bs + 5 < c_cl p"
      proof (cases "tl bs = []")
        case True
        then have "bs = [last bs]" using ne by (cases bs) auto
        then have "chain s (c_cf p) [last bs] (c_cl p)" "caddrs (c_cf p) [last bs] (c_cl p) = as @ [c_cl p - 1]"
          using ch as by metis+
        then show ?thesis using b(2) \<open>cs \<noteq> []\<close> True
          by (cases "c_cl p = c_cf p + 1") (auto simp: upt_conv_Cons)
      next
        case False
        with lst F5 show ?thesis by auto
      qed
      note bk = chain_back_char [OF ch nx]
      let ?p = "p\<lparr>c_cc := c_cc p - 1, c_cl := c_cl p - 1\<rparr>"
      have "cround (c_cl p - 1) \<noteq> 4" using cr lst F5 by auto
      then have u: "unputc s p = Some (sint b, s, ?p)"
        using len b(1) False by (simp add: unputc_def Let_def)
      have clq': "clq s ?p bs" using bk cc ne by (simp add: clq_def)
      then have "owns s ?p bs fs" using o by (simp add: owns_def)
      then have "step_ok s bs fs s ?p" by (intro step_okI) simp_all
      moreover have "contents s ?p = cs" using clq_contents [OF clq'] bk as b(2) by simp
      ultimately show thesis using that u by blast
    qed
  qed
qed

section \<open>The free list at boot\<close>

lemma cinit_loop_flist:
  assumes "flist s (cfreelist s) fs" "distinct fs" "cfreecount s = CBSIZE * int (length fs)"
    "cblock cp" "\<forall>b \<in> set fs. b < cp"
  shows "\<exists>fs'. owns (cinit_loop cp lim s) \<lparr>c_cc = 0, c_cf = 0, c_cl = 0\<rparr> [] fs' \<and>
           length fs' = length fs + (lim + 31 - cp) div 32 \<and>
           set fs' \<subseteq> set fs \<union> {cp ..< lim} \<and> c_info (cinit_loop cp lim s) = c_info s"
  using assms
proof (induction cp lim s arbitrary: fs rule: cinit_loop.induct)
  case (1 cp lim s)
  show ?case
  proof (cases "cp < lim")
    case False
    then have "(lim + 31 - cp) div 32 = 0" by simp
    with False 1(2-4) show ?thesis
      by (subst cinit_loop.simps, intro exI [of _ fs])
        (auto simp: owns_def clq_def cinit_loop.simps)
  next
    case True
    let ?s = "s\<lparr>c_next := (c_next s)(cp := cfreelist s), cfreelist := cp,
                cfreecount := cfreecount s + CBSIZE\<rparr>"
    have "cp \<notin> set fs" using 1(6) by auto
    then have fl: "flist ?s (cfreelist s) fs" using 1(2) by (subst flist_cong [where s = s]) auto
    have cb: "cblock (cp + 32)" using 1(5) by (simp add: cblock_def)
    have lt: "\<forall>b \<in> set (cp # fs). b < cp + 32" using 1(6) by auto
    have ih: "\<exists>fs'. owns (cinit_loop (cp + 32) lim ?s) \<lparr>c_cc = 0, c_cf = 0, c_cl = 0\<rparr> [] fs' \<and>
           length fs' = length (cp # fs) + (lim + 31 - (cp + 32)) div 32 \<and>
           set fs' \<subseteq> set (cp # fs) \<union> {cp + 32 ..< lim} \<and> c_info (cinit_loop (cp + 32) lim ?s) = c_info ?s"
      by (rule 1(1) [OF True])
        (use fl 1(3-5) cb lt \<open>cp \<notin> set fs\<close> in \<open>auto simp: algebra_simps\<close>)
    have e: "lim + 31 - cp = (lim + 31 - (cp + 32)) + 32" using True by simp
    then have "(lim + 31 - cp) div 32 = Suc ((lim + 31 - (cp + 32)) div 32)" by simp
    moreover have "cinit_loop cp lim s = cinit_loop (cp + 32) lim ?s"
      using True by (subst cinit_loop.simps) simp
    moreover have "set (cp # fs) \<union> {cp + 32 ..< lim} \<subseteq> set fs \<union> {cp ..< lim}" using True by auto
    ultimately show ?thesis using ih by fastforce
  qed
qed

lemma cinit_blocks:
  assumes "cfreelist s = 0" "cfreecount s = 0" "0 < cfree" "0 < n"
  shows "\<exists>fs. owns (cinit cfree n s) \<lparr>c_cc = 0, c_cf = 0, c_cl = 0\<rparr> [] fs \<and> length fs = n - 1 \<and>
           (\<forall>b \<in> set fs. cfree \<le> b \<and> b + 32 \<le> cfree + 32 * n)"
proof -
  let ?cp = "cbase (cfree + 31)" and ?lim = "cfree + 32 * (n - 1)"
  have q: "?cp = 32 * ((cfree + 31) div 32)" by (simp add: cbase_def minus_mod_eq_mult_div)
  have "32 * ((cfree + 31) div 32) + (cfree + 31) mod 32 = cfree + 31" by simp
  moreover have "(cfree + 31) mod 32 < 32" by simp
  ultimately have cp: "cfree \<le> ?cp" "?cp < cfree + 32" "?cp mod 32 = 0" using q by (linarith, linarith, simp)
  then have cb: "cblock ?cp" using assms(3) by (simp add: cblock_def)
  obtain fs where fs: "owns (cinit_loop ?cp ?lim s) \<lparr>c_cc = 0, c_cf = 0, c_cl = 0\<rparr> [] fs"
      "length fs = (?lim + 31 - ?cp) div 32" "set fs \<subseteq> {?cp ..< ?lim}"
    using cinit_loop_flist [of s "[]" ?cp ?lim] assms cb by auto
  obtain d where d: "?cp = cfree + d" "d < 32" using cp by (metis le_iff_add add_less_cancel_left)
  have "?lim + 31 - ?cp = 31 - d + (n - 1) * 32" using d by simp
  then have "(?lim + 31 - ?cp) div 32 = (31 - d) div 32 + (n - 1)" by simp
  then have "length fs = n - 1" using fs(2) by simp
  moreover have "cfree \<le> b \<and> b + 32 \<le> cfree + 32 * n" if "b \<in> set fs" for b
  proof -
    have b: "?cp \<le> b" "b < ?lim" using that fs(3) by auto
    then show ?thesis using cp assms(4) by (cases n) auto
  qed
  ultimately show ?thesis using fs(1) by (auto simp: cinit_def)
qed

section \<open>Two queues in one store\<close>

lemma frame_clq:
  assumes "frame B s s'" "clq s r rs" "set rs \<inter> B = {}"
  shows "clq s' r rs" "contents s' r = contents s r"
proof -
  have n: "c_next s' b = c_next s b" if "b \<in> set rs" for b using that assms(1,3) by (auto simp: frame_def)
  show c: "clq s' r rs" using assms(2) chain_cong [of rs s' s, OF n] by (simp add: clq_def)
  have i: "c_info s' a = c_info s a" if "a \<in> set (caddrs (c_cf r) rs (c_cl r))" for a
  proof (cases "rs = []")
    case False
    then have "chain s (c_cf r) rs (c_cl r)" using assms(2) by (simp add: clq_def)
    from caddrs_in [OF this that] show ?thesis using assms(1,3) by (auto simp: frame_def)
  qed (use that in simp)
  show "contents s' r = contents s r"
    using clq_contents [OF c] clq_contents [OF assms(2)] i by simp
qed

text \<open>The characters taken from a first block, and those a last block can still hold.\<close>

definition cskip :: "clist \<Rightarrow> nat" where
  "cskip p = (if c_cf p = 0 then 0 else cround (c_cf p) - 4)"

definition croom :: "clist \<Rightarrow> nat" where
  "croom p = (if c_cl p = 0 then 0 else 31 - cround (c_cl p - 1))"

lemma chain_sizes: "chain s cf bs cl \<Longrightarrow>
    length (caddrs cf bs cl) + (cf - (hd bs + 4)) + (last bs + 32 - cl) = 28 * length bs"
  by (induction s cf bs cl rule: chain.induct) auto

lemma chain_skip_room:
  assumes "chain s (c_cf p) bs (c_cl p)"
  shows "cskip p = c_cf p - (hd bs + 4)" "croom p = last bs + 32 - c_cl p"
proof -
  have h: "cblock (hd bs)" "hd bs + 4 \<le> c_cf p" "c_cf p < hd bs + 32" using chain_hd [OF assms] by auto
  have l: "cblock (last bs)" "last bs + 4 < c_cl p" "c_cl p \<le> last bs + 32" using chain_last [OF assms] by auto
  show "cskip p = c_cf p - (hd bs + 4)" using h cround_in [OF h(1), of "c_cf p"] by (simp add: cskip_def)
  have "cround (c_cl p - 1) = c_cl p - 1 - last bs" using l by (intro cround_in) auto
  then show "croom p = last bs + 32 - c_cl p" using l by (simp add: croom_def)
qed

lemma clq_sizes: "clq s p bs \<Longrightarrow> length (contents s p) + cskip p + croom p = 28 * length bs"
  using chain_sizes [of s "c_cf p" bs "c_cl p"] chain_skip_room [of s p bs] clq_contents [of s p bs]
  by (auto simp: clq_def cskip_def croom_def contents_def split: if_splits)

lemma clq_skip_less: "clq s p bs \<Longrightarrow> cskip p < 28"
proof (cases "bs = []")
  case False
  assume "clq s p bs"
  then have ch: "chain s (c_cf p) bs (c_cl p)" using False by (simp add: clq_def)
  have "hd bs + 4 \<le> c_cf p" "c_cf p < hd bs + 32" using chain_hd [OF ch] by auto
  then show ?thesis using chain_skip_room(1) [OF ch] by linarith
qed (simp add: clq_def cskip_def)

lemma getc_room: "getc s p = (c, s', p') \<Longrightarrow> croom p' \<le> croom p"
  by (auto simp: getc_def Let_def croom_def split: if_splits)

lemma putc_cf: "putc c s p = (r, s', p') \<Longrightarrow>
    p' = p \<or> c_cf p' = c_cf p \<or> (cfreelist s \<noteq> 0 \<and> c_cf p' = cb_info (cfreelist s))"
  unfolding putc_def Let_def
  by (cases "c_cl p = 0 \<or> c_cc p < 0"; cases "cfreelist s = 0"; cases "cround (c_cl p) = 0") auto

lemma putc_skip: "owns s p bs fs \<Longrightarrow> putc c s p = (r, s', p') \<Longrightarrow> cskip p' \<le> cskip p"
proof -
  assume o: "owns s p bs fs" and p: "putc c s p = (r, s', p')"
  have "p' = p \<or> c_cf p' = c_cf p \<or> (cfreelist s \<noteq> 0 \<and> c_cf p' = cb_info (cfreelist s))"
    using putc_cf [OF p] by metis
  then have "cskip p' = cskip p \<or> (cfreelist s \<noteq> 0 \<and> c_cf p' = cb_info (cfreelist s))"
    unfolding cskip_def by metis
  moreover have "cround (cb_info (cfreelist s)) = 4" if "cfreelist s \<noteq> 0"
  proof -
    have "flist s (cfreelist s) fs" using o by (simp add: owns_def)
    then have "cblock (cfreelist s)" using that flist_head by blast
    from cround_in [OF this, of "cb_info (cfreelist s)"] show ?thesis by (simp add: cb_info_def)
  qed
  ultimately show ?thesis by (metis cskip_def diff_self_eq_0 le0 order_refl)
qed

lemma owns_switch:
  assumes "owns s p bs fs" "clq s r rs" "set rs \<inter> (set bs \<union> set fs) = {}" "distinct rs"
  shows "owns s r rs fs"
  using assms by (auto simp: owns_def)

lemma owns_clq: "owns s p bs fs \<Longrightarrow> clq s p bs" "owns s p bs fs \<Longrightarrow> distinct (bs @ fs)"
  by (simp_all add: owns_def)

lemma step_blocks:
  assumes "step_ok s bs fs s' p'" "owns s p bs fs"
  obtains bs' fs' where "owns s' p' bs' fs'" "set bs' \<union> set fs' = set bs \<union> set fs"
    "length bs' + length fs' = length bs + length fs" "frame (set bs \<union> set fs) s s'"
proof -
  obtain bs' fs' where o: "owns s' p' bs' fs'" "set bs' \<union> set fs' = set bs \<union> set fs"
      "frame (set bs \<union> set fs) s s'"
    using assms(1) by (auto simp: step_ok_def)
  have "length (bs' @ fs') = card (set (bs' @ fs'))"
    using owns_clq(2) [OF o(1)] by (metis distinct_card)
  also have "\<dots> = card (set (bs @ fs))" using o(2) by simp
  also have "\<dots> = length (bs @ fs)" using owns_clq(2) [OF assms(2)] by (metis distinct_card)
  finally show thesis using that o by simp
qed

lemma putc_full_sizes:
  assumes "owns s1 f1 bs1 []" "clq s1 t ts" "ts = [] \<or> c_cl t = last ts + 32"
  shows "28 * (length bs1 + length ts) = length (contents s1 f1) + cskip f1 + croom f1 +
           length (contents s1 t) + cskip t"
proof -
  have "croom t = 0"
  proof (cases "ts = []")
    case True
    then show ?thesis using assms(2) by (simp add: clq_def croom_def)
  next
    case False
    then have "chain s1 (c_cf t) ts (c_cl t)" using assms(2) by (simp add: clq_def)
    from chain_skip_room(2) [OF this] assms(3) False show ?thesis by simp
  qed
  with clq_sizes [OF assms(2)] clq_sizes [OF owns_clq(1) [OF assms(1)]] show ?thesis by simp
qed

lemma catq_moves:
  assumes "owns s f bs fs" "clq s t ts" "distinct ts" "set ts \<inter> (set bs \<union> set fs) = {}"
    "length (contents s f) + length (contents s t) + cskip t + croom f + 28
       \<le> 28 * (length bs + length ts + length fs)"
  shows "\<exists>s' f' t' ts' fs'. catq s f t = (s', f', t') \<and> contents s' f' = [] \<and>
           contents s' t' = contents s t @ contents s f \<and> owns s' t' ts' fs'"
  using assms
proof (induction "contents s f" arbitrary: s f t bs ts fs)
  case Nil
  then have "bs = []" using owns_empty_iff [OF Nil(2)] by simp
  with Nil(2) getc_empty have "getc s f = (-1, s, f)" by simp
  then have "catq s f t = (s, f, t)" by (subst catq.simps) simp
  moreover have "owns s t ts fs" by (rule owns_switch [OF Nil(2,3,5,4)])
  ultimately show ?case using Nil(1) by auto
next
  case (Cons b cs)
  obtain s1 f1 where g: "getc s f = (uint b, s1, f1)" "contents s1 f1 = cs" "step_ok s bs fs s1 f1"
    by (rule getc_head [OF Cons(3) Cons(2) [symmetric]])
  obtain bs1 fs1 where o1: "owns s1 f1 bs1 fs1" "set bs1 \<union> set fs1 = set bs \<union> set fs"
      "length bs1 + length fs1 = length bs + length fs" "frame (set bs \<union> set fs) s s1"
    by (rule step_blocks [OF g(3) Cons(3)])
  note t1 = frame_clq [OF o1(4) Cons(4,6)]
  have dis1: "set ts \<inter> (set bs1 \<union> set fs1) = {}" using o1(2) Cons(6) by simp
  have ot: "owns s1 t ts fs1" by (rule owns_switch [OF o1(1) t1(1) dis1 Cons(5)])
  have rf: "croom f1 \<le> croom f" using getc_room [OF g(1)] .
  have len: "length (contents s f) = Suc (length cs)" using Cons(2) by (metis length_Cons)
  show ?case
  proof (rule putc_append [OF ot, of b])
    fix s2 t2
    assume p: "putc b s1 t = (0, s2, t2)" "contents s2 t2 = contents s1 t @ [b]" "step_ok s1 ts fs1 s2 t2"
    obtain ts2 fs2 where o2: "owns s2 t2 ts2 fs2" "set ts2 \<union> set fs2 = set ts \<union> set fs1"
        "length ts2 + length fs2 = length ts + length fs1" "frame (set ts \<union> set fs1) s1 s2"
      by (rule step_blocks [OF p(3) ot])
    have d1: "set bs1 \<inter> (set ts \<union> set fs1) = {}" using dis1 owns_clq(2) [OF o1(1)] by auto
    note f2 = frame_clq [OF o2(4) owns_clq(1) [OF o1(1)] d1]
    have d2: "set bs1 \<inter> (set ts2 \<union> set fs2) = {}" using d1 o2(2) by simp
    have of2: "owns s2 f1 bs1 fs2"
      by (rule owns_switch [OF o2(1) f2(1) d2]) (use owns_clq(2) [OF o1(1)] in simp)
    have dts: "distinct ts2" "set ts2 \<inter> (set bs1 \<union> set fs2) = {}"
      using owns_clq(2) [OF o2(1)] d2 by auto
    have sk: "cskip t2 \<le> cskip t" by (rule putc_skip [OF ot p(1)])
    have inv: "length (contents s2 f1) + length (contents s2 t2) + cskip t2 + croom f1 + 28
        \<le> 28 * (length bs1 + length ts2 + length fs2)"
      using Cons(7) len f2(2) g(2) p(2) t1(2) sk rf o1(3) o2(3) by simp
    have "cs = contents s2 f1" using f2(2) g(2) by simp
    from Cons(1) [OF this of2 owns_clq(1) [OF o2(1)] dts inv] obtain s' f' t' ts' fs' where
      r: "catq s2 f1 t2 = (s', f', t')" "contents s' f' = []"
        "contents s' t' = contents s2 t2 @ contents s2 f1" "owns s' t' ts' fs'" by blast
    have "catq s f t = catq s2 f1 t2" using g(1) p(1) by (subst catq.simps) simp
    moreover have "contents s2 t2 @ contents s2 f1 = contents s t @ contents s f"
      using p(2) t1(2) f2(2) g(2) Cons(2) by simp
    ultimately show ?thesis using r by auto
  next
    assume full: "fs1 = []" "ts = [] \<or> c_cl t = last ts + 32"
    have "28 * (length bs1 + length ts) = length cs + cskip f1 + croom f1 + length (contents s t) + cskip t"
      using putc_full_sizes [OF _ t1(1) full(2), of f1 bs1] o1(1) full(1) g(2) t1(2) by simp
    moreover have "cskip f1 < 28" by (rule clq_skip_less [OF owns_clq(1) [OF o1(1)]])
    ultimately have False using Cons(7) len rf o1(3) full(1) by simp
    then show ?thesis ..
  qed
qed

text \<open>Words.\<close>

lemma getw_getc:
  "getc s p = (uint a, s1, p1) \<Longrightarrow> getc s1 p1 = (uint b, s2, p2) \<Longrightarrow> 2 \<le> c_cc p \<Longrightarrow>
   getw s p = (s16 (uint a + 256 * uint b), s2, p2)"
  by (simp add: getw_def)

lemma word_bytes: "s16 (uint (word_of_int c :: byte) + 256 * uint (word_of_int (c div 256) :: byte)) = s16 c"
proof -
  have "c mod 256 + 256 * (c div 256 mod 256) = c mod 65536"
    using mod_mult2_eq' [of c 256 256] by simp
  moreover have "s16 (c mod 65536) = s16 c" by (simp add: s16_def mod_add_left_eq)
  ultimately show ?thesis by (simp add: uint_word_of_int)
qed

section \<open>Properties\<close>

text \<open>A store of four cblocks at address 32 with one queue, for the concrete instances.\<close>

definition cboot :: cstore where
  "cboot = cinit 32 4 \<lparr>c_next = (\<lambda>_. 0), c_info = (\<lambda>_. 0), cfreelist = 0, cfreecount = 0,
                        cwaiting = False, cwakeups = 0\<rparr>"

definition cempty :: clist where
  "cempty = \<lparr>c_cc = 0, c_cf = 0, c_cl = 0\<rparr>"

definition cdemo :: "cstore \<times> clist" where
  "cdemo = snd (b_to_q [97, 98, 255] cboot cempty)"

lemma cboot_owns: "owns cboot cempty [] [96, 64, 32]"
  by (simp add: cboot_def cinit_def cbase_def cinit_loop.simps owns_def clq_def cempty_def cblock_def CBSIZE_def)

lemma cdemo_owns: "owns (fst cdemo) (snd cdemo) [96] [64, 32]"
  by (simp add: cdemo_def b_to_q_def cboot_def cinit_def cbase_def cinit_loop.simps owns_def clq_def
      cempty_def cblock_def cb_take_def cb_info_def cround_def Let_def CBSIZE_def eval_nat_numeral(3) [symmetric])

lemma cdemo_snd: "snd cdemo = \<lparr>c_cc = 3, c_cf = 100, c_cl = 103\<rparr>"
  "c_info (fst cdemo) 100 = 97" "c_info (fst cdemo) 101 = 98" "c_info (fst cdemo) 102 = 255"
  by (simp_all add: cdemo_def b_to_q_def cboot_def cinit_def cbase_def cinit_loop.simps
      cempty_def cb_take_def cb_info_def cround_def Let_def CBSIZE_def)

lemma cdemo_contents: "contents (fst cdemo) (snd cdemo) = [97, 98, 255]"
  using clq_contents [OF owns_clq(1) [OF cdemo_owns]] by (simp add: cdemo_snd upt_conv_Cons)

text \<open>a clist is a queue of bytes.  On a well-formed queue \<open>putc\<close> either returns 0 and has
  appended the character, or returns -1, and then the last cblock is full, no cblock is free and the
  queue is as before.  Either way the cblocks of the queue and the free list are well-formed again, and
  no other cblock was touched.\<close>

theorem putc_appends:
  assumes "owns s p bs fs"
  shows "\<exists>r s' p'. putc c s p = (r, s', p') \<and> step_ok s bs fs s' p' \<and>
    (r = 0 \<and> contents s' p' = contents s p @ [c] \<or>
     r = -1 \<and> p' = p \<and> contents s' p' = contents s p \<and> fs = [] \<and> (bs = [] \<or> c_cl p = last bs + 32))"
  by (rule putc_append [OF assms, of c]) auto

theorem putc_appends_witness:
  "\<exists>r s' p'. putc 99 (fst cdemo) (snd cdemo) = (r, s', p') \<and> step_ok (fst cdemo) [96] [64, 32] s' p' \<and>
    (r = 0 \<and> contents s' p' = [97, 98, 255] @ [99] \<or>
     r = -1 \<and> p' = snd cdemo \<and> contents s' p' = [97, 98, 255] \<and> [64, 32 :: nat] = [] \<and>
       ([96 :: nat] = [] \<or> c_cl (snd cdemo) = last [96] + 32))"
  using putc_appends [OF cdemo_owns, of 99] unfolding cdemo_contents .

text \<open>\<open>getc\<close> returns the first character of the queue, unsigned, and removes it, giving cblocks
  back to the free list as they empty; on an empty queue it returns -1 and changes nothing.\<close>

theorem getc_takes_first:
  assumes "owns s p bs fs"
  shows "case contents s p of
           [] \<Rightarrow> getc s p = (-1, s, p)
         | b # cs \<Rightarrow> \<exists>s' p'. getc s p = (uint b, s', p') \<and> contents s' p' = cs \<and> step_ok s bs fs s' p'"
proof (cases "contents s p")
  case Nil
  with assms owns_empty_iff [OF assms] getc_empty show ?thesis by simp
next
  case (Cons b cs)
  show ?thesis by (rule getc_head [OF assms Cons]) (simp add: Cons)
qed

theorem getc_takes_first_witness:
  "\<exists>s' p'. getc (fst cdemo) (snd cdemo) = (97, s', p') \<and> contents s' p' = [98, 255] \<and>
     step_ok (fst cdemo) [96] [64, 32] s' p'"
  using getc_takes_first [OF cdemo_owns] by (simp add: cdemo_contents)

text \<open>C10: \<open>q_to_b\<close> moves the first \<open>cc\<close> characters of the queue to the buffer, or all of them when
  there are fewer, in order, and leaves the rest.\<close>

lemma q_to_b_takes_prefix:
  assumes "owns s q bs fs"
  shows "\<exists>s' q'. q_to_b s q cc = (take (nat cc) (contents s q), s', q') \<and>
           contents s' q' = drop (nat cc) (contents s q) \<and> step_ok s bs fs s' q'"
proof (cases "contents s q = []")
  case True
  then have "bs = []" using owns_empty_iff [OF assms] by simp
  then have "q = \<lparr>c_cc = 0, c_cf = 0, c_cl = 0\<rparr>" using owns_clq [OF assms] by (simp add: clq_def)
  then show ?thesis using True step_ok_refl [OF assms] by (auto simp: q_to_b_def)
next
  case False
  then have "0 < c_cc q" using owns_length [OF assms] by simp
  with q_to_b_loop_bytes [OF assms False, of "nat cc"] step_ok_refl [OF assms]
  show ?thesis by (auto simp: q_to_b_def)
qed

text \<open>\<open>b_to_q\<close> appends a prefix of the buffer and returns how many characters it could not
  transfer; that number is positive only when the free list is exhausted.\<close>

theorem b_to_q_appends:
  assumes "owns s q bs fs"
  shows "\<exists>s' q' k. b_to_q cs s q = (int (length cs - k), s', q') \<and> k \<le> length cs \<and>
           contents s' q' = contents s q @ take k cs \<and> step_ok s bs fs s' q' \<and>
           (k < length cs \<longrightarrow> cfreelist s' = 0)"
  by (rule b_to_q_bytes [OF assms, of cs]) blast

theorem b_to_q_appends_witness:
  "\<exists>s' q' k. b_to_q [1, 2] (fst cdemo) (snd cdemo) = (int (length [1 :: byte, 2] - k), s', q') \<and>
     k \<le> length [1 :: byte, 2] \<and> contents s' q' = [97, 98, 255] @ take k [1, 2] \<and>
     step_ok (fst cdemo) [96] [64, 32] s' q' \<and> (k < length [1 :: byte, 2] \<longrightarrow> cfreelist s' = 0)"
  using b_to_q_appends [OF cdemo_owns, of "[1, 2]"] unfolding cdemo_contents .

text \<open>\<open>unputc\<close> terminates on a well-formed queue, removes the last character and returns it, sign
  extended: a character 0377 comes back as -1, the value that also means an empty queue.\<close>

theorem unputc_takes_last:
  assumes "owns s p bs fs" "contents s p \<noteq> []"
  shows "\<exists>s' p'. unputc s p = Some (sint (last (contents s p)), s', p') \<and>
           contents s' p' = butlast (contents s p) \<and> step_ok s bs fs s' p'"
proof -
  have "contents s p = butlast (contents s p) @ [last (contents s p)]" using assms(2) by simp
  from unputc_last [OF assms(1) this] show ?thesis by blast
qed

theorem unputc_takes_last_witness:
  "\<exists>s' p'. unputc (fst cdemo) (snd cdemo) = Some (-1, s', p') \<and>
     contents s' p' = [97, 98] \<and> step_ok (fst cdemo) [96] [64, 32] s' p'"
  using unputc_takes_last [OF cdemo_owns] by (simp add: cdemo_contents)

text \<open>\<open>catq\<close> loses no character when a cblock is free at the start: although it ignores what
  \<open>putc\<close> returns, every cblock it needs is one that \<open>getc\<close> has just freed, and the whole of the one
  queue ends up behind the other.\<close>

theorem catq_loses_nothing:
  assumes "owns s f bs fs" "clq s t ts" "distinct ts" "set ts \<inter> (set bs \<union> set fs) = {}" "fs \<noteq> []"
  shows "\<exists>s' f' t' ts' fs'. catq s f t = (s', f', t') \<and> contents s' f' = [] \<and>
           contents s' t' = contents s t @ contents s f \<and> owns s' t' ts' fs'"
proof (rule catq_moves [OF assms(1-4)])
  have "1 \<le> length fs" using assms(5) by (cases fs) auto
  then show "length (contents s f) + length (contents s t) + cskip t + croom f + 28
      \<le> 28 * (length bs + length ts + length fs)"
    using clq_sizes [OF owns_clq(1) [OF assms(1)]] clq_sizes [OF assms(2)] by simp
qed

theorem catq_loses_nothing_witness:
  "\<exists>s' f' t' ts' fs'. catq (fst cdemo) (snd cdemo) cempty = (s', f', t') \<and> contents s' f' = [] \<and>
     contents s' t' = [97, 98, 255] \<and> owns s' t' ts' fs'"
  using catq_loses_nothing [OF cdemo_owns, of cempty "[]"] cdemo_contents
  by (simp add: clq_def cempty_def contents_def)

text \<open>\<open>cinit\<close> turns the array of \<open>nclist\<close> cblocks into a free list of \<open>nclist - 1\<close> aligned,
  distinct cblocks, all inside the array wherever it starts, with a count that agrees.\<close>

theorem cinit_builds_free_list:
  assumes "cfreelist s = 0" "cfreecount s = 0" "0 < cfree" "0 < n"
  shows "\<exists>fs. owns (cinit cfree n s) cempty [] fs \<and> length fs = n - 1 \<and>
           (\<forall>b \<in> set fs. cfree \<le> b \<and> b + 32 \<le> cfree + 32 * n)"
  unfolding cempty_def by (rule cinit_blocks [OF assms])

theorem cinit_builds_free_list_witness:
  "\<exists>fs. owns (cinit 50 4 \<lparr>c_next = (\<lambda>_. 0), c_info = (\<lambda>_. 0), cfreelist = 0, cfreecount = 0,
            cwaiting = False, cwakeups = 0\<rparr>) cempty [] fs \<and> length fs = 4 - 1 \<and>
     (\<forall>b \<in> set fs. 50 \<le> b \<and> b + 32 \<le> 50 + 32 * 4)"
  by (rule cinit_builds_free_list) simp_all

text \<open>A short that \<open>putw\<close> stored in an empty queue without being refused comes back from
  \<open>getw\<close>, whatever its sign.\<close>

lemma getw_putw:
  assumes "owns s cempty [] fs" "putw c s cempty = (0, s2, p2)" "fs \<noteq> []"
  shows "\<exists>s4 p4. getw s2 p2 = (s16 c, s4, p4) \<and> contents s4 p4 = []"
proof -
  let ?a = "word_of_int c :: byte" and ?b = "word_of_int (c div 256) :: byte"
  have fl: "flist s (cfreelist s) fs" using assms(1) by (simp add: owns_def)
  then have nz: "cfreelist s \<noteq> 0" using assms(3) flist_NULL by blast
  obtain r1 s1 p1 where p1: "putc ?a s cempty = (r1, s1, p1)" by (metis surj_pair)
  obtain r2 s2' p2' where p2: "putc ?b s1 p1 = (r2, s2', p2')" by (metis surj_pair)
  have r1: "r1 = 0" using p1 nz by (simp add: putc_def cempty_def Let_def)
  have cr: "cround (cb_info (cfreelist s) + 1) = 5"
    using flist_head [OF fl nz] cround_in [of "cfreelist s" "cb_info (cfreelist s) + 1"]
    by (force simp: cb_info_def)
  have r2: "r2 = 0" using p1 p2 nz cr by (auto simp: putc_def cempty_def Let_def cb_info_def split: if_splits)
  have eq: "s2' = s2" "p2' = p2" using assms(2) nz p1 p2 by (simp_all add: putw_def)
  have ok: "cl_ok (s, cempty)" "cl_bytes (s, cempty) = []"
    using assms(1) owns_cl_ok by (auto simp: cl_bytes_def contents_def cempty_def)
  have puts: "cl_put ?a (s, cempty) = (0, s1, p1)" "cl_put ?b (s1, p1) = (0, s2, p2)"
    using p1 p2 r1 r2 eq by (simp_all add: cl_put_def)
  obtain x3 x4 where g: "cl_get (s2, p2) = (uint ?a, x3)" "cl_get x3 = (uint ?b, x4)" "cl_bytes x4 = []"
    by (rule cl.put_put_get_get [OF ok puts])
  obtain s3 p3 s4 p4 where x: "x3 = (s3, p3)" "x4 = (s4, p4)" by (metis surj_pair)
  have "c_cc p2 = 2" using p1 p2 r1 r2 eq nz by (auto simp: putc_def cempty_def Let_def split: if_splits)
  with g x have "getw s2 p2 = (s16 (uint ?a + 256 * uint ?b), s4, p4)"
    by (intro getw_getc) (simp_all add: cl_get_def)
  with word_bytes [of c] g(3) x show ?thesis by (simp add: cl_bytes_def)
qed

end
