(* ===== verification/Timeval.thy ===== *)
theory Timeval
  imports Kern_Prelude
begin

text \<open>
  The timevals and interval timers of sys/h/time.h and the second half of sys/sys/kern_time.c:
  normalisation, addition and subtraction, the check of a proposed timer value, and the decrement of
  a virtual timer.  Fields are 32 bit longs; \<open>usecs\<close> is the time a timeval stands for.
\<close>

section \<open>The code\<close>

record timeval =
  tv_sec :: int
  tv_usec :: int

record itimerval =
  it_interval :: timeval
  it_value :: timeval

definition timerisset :: "timeval \<Rightarrow> bool" where
  "timerisset tv \<longleftrightarrow> tv_sec tv \<noteq> 0 \<or> tv_usec tv \<noteq> 0"

definition timercmp_less :: "timeval \<Rightarrow> timeval \<Rightarrow> bool" where
  "timercmp_less t u \<longleftrightarrow> tv_sec t < tv_sec u \<or> tv_sec t = tv_sec u \<and> tv_usec t < tv_usec u"

definition timerclear :: timeval where
  "timerclear = \<lparr>tv_sec = 0, tv_usec = 0\<rparr>"

definition timevalfix :: "timeval \<Rightarrow> timeval" where
  "timevalfix t1 =
     (let t2 = (if tv_usec t1 < 0
                then \<lparr>tv_sec = s32 (tv_sec t1 - 1), tv_usec = s32 (tv_usec t1 + 1000000)\<rparr> else t1)
      in if tv_usec t2 \<ge> 1000000
         then \<lparr>tv_sec = s32 (tv_sec t2 + 1), tv_usec = s32 (tv_usec t2 - 1000000)\<rparr> else t2)"

definition timevaladd :: "timeval \<Rightarrow> timeval \<Rightarrow> timeval" where
  "timevaladd t1 t2 =
     timevalfix \<lparr>tv_sec = s32 (tv_sec t1 + tv_sec t2), tv_usec = s32 (tv_usec t1 + tv_usec t2)\<rparr>"

definition timevalsub :: "timeval \<Rightarrow> timeval \<Rightarrow> timeval" where
  "timevalsub t1 t2 =
     timevalfix \<lparr>tv_sec = s32 (tv_sec t1 - tv_sec t2), tv_usec = s32 (tv_usec t1 - tv_usec t2)\<rparr>"

text \<open>\<open>bumptime\<close> of sys/sys/kern_clock.c.\<close>

definition bumptime :: "timeval \<Rightarrow> int \<Rightarrow> timeval" where
  "bumptime tp usec =
     (let t = tp\<lparr>tv_usec := s32 (tv_usec tp + usec)\<rparr>
      in if tv_usec t \<ge> 1000000
         then \<lparr>tv_sec = s32 (tv_sec t + 1), tv_usec = tv_usec t - 1000000\<rparr> else t)"

text \<open>\<open>itimerfix\<close>: \<open>None\<close> is the return of \<open>EINVAL\<close>.\<close>

definition itimerfix :: "int \<Rightarrow> timeval \<Rightarrow> timeval option" where
  "itimerfix tick tv =
     (if tv_sec tv < 0 \<or> tv_sec tv > 100000000 \<or> tv_usec tv < 0 \<or> tv_usec tv \<ge> 1000000 then None
      else if tv_sec tv = 0 \<and> tv_usec tv < tick then Some (tv\<lparr>tv_usec := tick\<rparr>)
      else Some tv)"

text \<open>\<open>itimerdecr\<close>, with its \<open>expire\<close> label as a definition of its own.\<close>

definition itimer_expire :: "itimerval \<Rightarrow> int \<Rightarrow> int \<times> itimerval" where
  "itimer_expire itp usec =
     (if timerisset (it_interval itp) then
        let v = (it_interval itp)\<lparr>tv_usec := s32 (tv_usec (it_interval itp) - usec)\<rparr>;
            v' = (if tv_usec v < 0
                  then \<lparr>tv_sec = s32 (tv_sec v - 1), tv_usec = s32 (tv_usec v + 1000000)\<rparr> else v)
        in (0, itp\<lparr>it_value := v'\<rparr>)
      else (0, itp\<lparr>it_value := (it_value itp)\<lparr>tv_usec := 0\<rparr>\<rparr>))"

definition itimerdecr :: "itimerval \<Rightarrow> int \<Rightarrow> int \<times> itimerval" where
  "itimerdecr itp usec =
     (if tv_usec (it_value itp) < usec \<and> tv_sec (it_value itp) = 0
      then itimer_expire itp (s32 (usec - tv_usec (it_value itp)))
      else
        let v = (if tv_usec (it_value itp) < usec
                 then \<lparr>tv_sec = s32 (tv_sec (it_value itp) - 1),
                       tv_usec = s32 (tv_usec (it_value itp) + 1000000)\<rparr>
                 else it_value itp);
            itp' = itp\<lparr>it_value := v\<lparr>tv_usec := s32 (tv_usec v - usec)\<rparr>\<rparr>
        in if timerisset (it_value itp') then (1, itp') else itimer_expire itp' 0)"

section \<open>Time as a number\<close>

definition usecs :: "timeval \<Rightarrow> int" where
  "usecs tv = tv_sec tv * 1000000 + tv_usec tv"

definition tv_norm :: "timeval \<Rightarrow> bool" where
  "tv_norm tv \<longleftrightarrow> 0 \<le> tv_usec tv \<and> tv_usec tv < 1000000 \<and> -2147483648 \<le> tv_sec tv \<and> tv_sec tv < 2147483648"

lemmas tv_defs = usecs_def tv_norm_def timerisset_def timercmp_less_def timerclear_def

lemma tv_normD: "tv_norm t \<Longrightarrow> 0 \<le> tv_usec t" "tv_norm t \<Longrightarrow> tv_usec t < 1000000"
  "tv_norm t \<Longrightarrow> -2147483648 \<le> tv_sec t" "tv_norm t \<Longrightarrow> tv_sec t < 2147483648"
  by (simp_all add: tv_norm_def)

lemma timercmp_usecs: "tv_norm t \<Longrightarrow> tv_norm u \<Longrightarrow> timercmp_less t u \<longleftrightarrow> usecs t < usecs u"
  by (auto simp: tv_defs)

lemma timerisset_usecs: "tv_norm t \<Longrightarrow> timerisset t \<longleftrightarrow> usecs t \<noteq> 0"
  by (cases "tv_sec t < 0"; cases "tv_sec t = 0") (auto simp: tv_defs)

lemma usecs_inj: "tv_norm t \<Longrightarrow> tv_norm u \<Longrightarrow> usecs t = usecs u \<Longrightarrow> t = u"
proof -
  assume h: "tv_norm t" "tv_norm u" "usecs t = usecs u"
  have "tv_sec t = tv_sec u" 
    using h by (cases "tv_sec t" "tv_sec u" rule: linorder_cases) (auto simp: tv_norm_def usecs_def)
  with h(3) show ?thesis by (simp add: usecs_def)
qed

lemma timevalfix_usecs:
  assumes "-1000000 \<le> tv_usec t" "tv_usec t < 2000000" "-2147483647 \<le> tv_sec t" "tv_sec t < 2147483647"
  shows "tv_norm (timevalfix t) \<and> usecs (timevalfix t) = usecs t"
  using assms by (simp add: timevalfix_def Let_def tv_defs cint)

lemma timevaladd_usecs:
  assumes "tv_norm a" "tv_norm b" "-2147483647 \<le> tv_sec a + tv_sec b" "tv_sec a + tv_sec b < 2147483647"
  shows "tv_norm (timevaladd a b)" "usecs (timevaladd a b) = usecs a + usecs b"
proof -
  let ?t = "\<lparr>tv_sec = s32 (tv_sec a + tv_sec b), tv_usec = s32 (tv_usec a + tv_usec b)\<rparr>"
  have "tv_norm (timevalfix ?t) \<and> usecs (timevalfix ?t) = usecs ?t"
    by (rule timevalfix_usecs) (use assms in \<open>simp_all add: tv_norm_def cint\<close>)
  moreover have "usecs ?t = usecs a + usecs b" using assms by (simp add: tv_norm_def usecs_def cint)
  ultimately show "tv_norm (timevaladd a b)" "usecs (timevaladd a b) = usecs a + usecs b"
    by (simp_all add: timevaladd_def)
qed

lemma timevalsub_usecs:
  assumes "tv_norm a" "tv_norm b" "-2147483647 \<le> tv_sec a - tv_sec b" "tv_sec a - tv_sec b < 2147483647"
  shows "tv_norm (timevalsub a b)" "usecs (timevalsub a b) = usecs a - usecs b"
proof -
  let ?t = "\<lparr>tv_sec = s32 (tv_sec a - tv_sec b), tv_usec = s32 (tv_usec a - tv_usec b)\<rparr>"
  have "tv_norm (timevalfix ?t) \<and> usecs (timevalfix ?t) = usecs ?t"
    by (rule timevalfix_usecs) (use assms in \<open>simp_all add: tv_norm_def cint\<close>)
  moreover have "usecs ?t = usecs a - usecs b" using assms by (simp add: tv_norm_def usecs_def cint)
  ultimately show "tv_norm (timevalsub a b)" "usecs (timevalsub a b) = usecs a - usecs b"
    by (simp_all add: timevalsub_def)
qed

lemma bumptime_usecs:
  assumes "tv_norm t" "0 \<le> d" "d < 1000000" "tv_sec t < 2147483647"
  shows "tv_norm (bumptime t d)" "usecs (bumptime t d) = usecs t + d"
  using assms by (simp_all add: bumptime_def Let_def tv_defs cint)

text \<open>One decrement: the time left goes down by \<open>usec\<close>, or the interval is reloaded less the overrun.\<close>

lemma itimer_expire_usecs:
  assumes "tv_norm (it_interval it)" "0 \<le> d" "d < 1000000" "0 \<le> tv_sec (it_interval it)"
    "usecs (it_interval it) > d"
  shows "\<exists>it'. itimer_expire it d = (0, it') \<and> it_interval it' = it_interval it \<and>
           tv_norm (it_value it') \<and> usecs (it_value it') = usecs (it_interval it) - d"
  using assms by (simp add: itimer_expire_def Let_def tv_defs cint)

lemma itimerdecr_usecs:
  assumes "tv_norm (it_value it)" "tv_norm (it_interval it)" "0 < d" "d < 1000000"
    "0 < usecs (it_value it)" "d \<le> usecs (it_interval it)"
  shows "\<exists>r it'. itimerdecr it d = (r, it') \<and> it_interval it' = it_interval it \<and> tv_norm (it_value it') \<and>
     (if usecs (it_value it) > d then r = 1 \<and> usecs (it_value it') = usecs (it_value it) - d
      else r = 0 \<and> usecs (it_value it') = usecs (it_value it) - d + usecs (it_interval it))"
proof -
  let ?v = "it_value it"
  have s: "0 \<le> tv_sec ?v" "0 \<le> tv_sec (it_interval it)" using assms by (auto simp: tv_defs)
  show ?thesis
  proof (cases "usecs ?v > d")
    case True
    then have "\<not> (tv_usec ?v \<le> d \<and> tv_sec ?v = 0)" by (auto simp: usecs_def)
    with True show ?thesis using assms s by (auto simp: itimerdecr_def Let_def tv_defs cint)
  next
    case False
    then have z: "tv_sec ?v = 0" "tv_usec ?v \<le> d" using assms s by (auto simp: tv_defs)
    show ?thesis
    proof (cases "tv_usec ?v < d")
      case True
      let ?d = "d - tv_usec ?v"
      have pos: "0 < tv_usec ?v" using assms z by (auto simp: tv_defs)
      obtain it' where "itimer_expire it ?d = (0, it')" "it_interval it' = it_interval it"
          "tv_norm (it_value it')" "usecs (it_value it') = usecs (it_interval it) - ?d"
        using itimer_expire_usecs [OF assms(2), of ?d] assms s pos True by auto
      then show ?thesis using True z False assms(1,3,4) by (simp add: itimerdecr_def cint tv_defs)
    next
      case False
      let ?it = "it\<lparr>it_value := ?v\<lparr>tv_usec := 0\<rparr>\<rparr>"
      obtain it' where "itimer_expire ?it 0 = (0, it')" "it_interval it' = it_interval it"
          "tv_norm (it_value it')" "usecs (it_value it') = usecs (it_interval it)"
        using itimer_expire_usecs [of ?it 0] assms s by auto
      then show ?thesis using False z \<open>\<not> usecs ?v > d\<close> by (simp add: itimerdecr_def Let_def tv_defs cint)
    qed
  qed
qed

text \<open>Ticks of the clock, counting the expiries.\<close>

fun itimer_run :: "nat \<Rightarrow> itimerval \<Rightarrow> int \<Rightarrow> nat \<times> itimerval" where
  "itimer_run 0 it d = (0, it)"
| "itimer_run (Suc n) it d =
     (let (r, it') = itimerdecr it d;
          (e, it'') = itimer_run n it' d
      in ((if r = 0 then Suc e else e), it''))"

section \<open>Properties\<close>

text \<open>a periodic virtual timer does not drift.  Over any number of ticks, the time left plus the
  time elapsed is the first setting plus one interval for every expiry, and the time left never exceeds
  what the timer can hold: an expiry later than its due time shortens the next interval by the delay.\<close>

theorem itimerdecr_no_drift:
  assumes "tv_norm (it_value it)" "tv_norm (it_interval it)" "0 < d" "d < 1000000"
    "0 < usecs (it_value it)" "d \<le> usecs (it_interval it)"
  shows "\<exists>e it'. itimer_run n it d = (e, it') \<and> it_interval it' = it_interval it \<and>
     usecs (it_value it') = usecs (it_value it) - int n * d + int e * usecs (it_interval it) \<and>
     0 < usecs (it_value it') \<and>
     usecs (it_value it') \<le> max (usecs (it_value it)) (usecs (it_interval it))"
  using assms
proof (induction n arbitrary: it)
  case (Suc n)
  obtain r it1 where d: "itimerdecr it d = (r, it1)" "it_interval it1 = it_interval it" "tv_norm (it_value it1)"
    and u: "if usecs (it_value it) > d then r = 1 \<and> usecs (it_value it1) = usecs (it_value it) - d
      else r = 0 \<and> usecs (it_value it1) = usecs (it_value it) - d + usecs (it_interval it)"
    using itimerdecr_usecs [OF Suc.prems] by blast
  have pos: "0 < usecs (it_value it1)" using u Suc.prems by (auto split: if_splits)
  obtain e it2 where "itimer_run n it1 d = (e, it2)" "it_interval it2 = it_interval it1"
     "usecs (it_value it2) = usecs (it_value it1) - int n * d + int e * usecs (it_interval it1)"
     "0 < usecs (it_value it2)" "usecs (it_value it2) \<le> max (usecs (it_value it1)) (usecs (it_interval it1))"
    using Suc.IH [of it1] d Suc.prems pos by auto
  with d u Suc.prems(3) show ?case by (auto simp: algebra_simps split: if_splits)
qed simp

theorem itimerdecr_no_drift_witness:
  "\<exists>e it'. itimer_run 7 \<lparr>it_interval = \<lparr>tv_sec = 0, tv_usec = 25000\<rparr>, it_value = \<lparr>tv_sec = 0, tv_usec = 15000\<rparr>\<rparr> 10000
       = (e, it') \<and>
     usecs (it_value it') = 15000 - 70000 + int e * 25000 \<and> 0 < usecs (it_value it')"
  using itimerdecr_no_drift [of "\<lparr>it_interval = \<lparr>tv_sec = 0, tv_usec = 25000\<rparr>, it_value = \<lparr>tv_sec = 0, tv_usec = 15000\<rparr>\<rparr>"
      10000 7]
  by (simp add: tv_norm_def usecs_def del: itimer_run.simps) blast

end
