(* ===== verification/Callout.thy ===== *)
theory Callout
  imports Timeval "HOL-Library.Multiset"
begin

text \<open>
  The timeout queue of sys/sys/kern_clock.c and sys/h/callout.h: \<open>timeout\<close>, \<open>untimeout\<close>, the decrement at
  every clock tick, the loop of \<open>softclock\<close>, and \<open>hzto\<close>.  The chain from \<open>calltodo.c_next\<close> is a list,
  and so is the chain from \<open>callfree\<close>.  A positive \<open>c_time\<close> counts from the entry before it, so every
  count is bounded by an argument of \<open>timeout\<close> and none wraps.  The second half gives the queue the
  absolute due times it encodes.
\<close>

section \<open>The code\<close>

text \<open>The routines called back: the expiry of a real timer, and any other.\<close>

datatype cfunc = Realitexpire | Cfunc nat

record callout =
  c_time :: int
  c_arg :: nat
  c_func :: cfunc

record callq =
  calltodo :: "callout list"
  callfree :: "callout list"

fun timeout_ins :: "callout \<Rightarrow> int \<Rightarrow> callout list \<Rightarrow> callout list" where
  "timeout_ins pnew t [] = [pnew\<lparr>c_time := t\<rparr>]"
| "timeout_ins pnew t (p2 # rest) =
     (if c_time p2 < t
      then p2 # timeout_ins pnew (if c_time p2 > 0 then t - c_time p2 else t) rest
      else pnew\<lparr>c_time := t\<rparr> # p2\<lparr>c_time := c_time p2 - t\<rparr> # rest)"

text \<open>\<open>None\<close> is the panic for an overflow of the table.\<close>

definition timeout :: "cfunc \<Rightarrow> nat \<Rightarrow> int \<Rightarrow> callq \<Rightarrow> callq option" where
  "timeout f arg tim q =
     (case callfree q of
        [] \<Rightarrow> None
      | pnew # free \<Rightarrow>
          Some (q\<lparr>callfree := free,
                  calltodo := timeout_ins (pnew\<lparr>c_arg := arg, c_func := f\<rparr>) tim (calltodo q)\<rparr>))"

text \<open>The walk of \<open>untimeout\<close> gives the queue and, when an entry was taken out, that entry.\<close>

fun untimeout_del :: "cfunc \<Rightarrow> nat \<Rightarrow> callout list \<Rightarrow> callout list \<times> callout option" where
  "untimeout_del f arg [] = ([], None)"
| "untimeout_del f arg (p2 # rest) =
     (if c_func p2 = f \<and> c_arg p2 = arg
      then (case rest of
              [] \<Rightarrow> []
            | n # ns \<Rightarrow> (if c_time p2 > 0 then n\<lparr>c_time := c_time n + c_time p2\<rparr> else n) # ns, Some p2)
      else let (rest', r) = untimeout_del f arg rest in (p2 # rest', r))"

definition untimeout :: "cfunc \<Rightarrow> nat \<Rightarrow> callq \<Rightarrow> callq" where
  "untimeout f arg q =
     (let (todo, r) = untimeout_del f arg (calltodo q)
      in case r of None \<Rightarrow> q | Some p2 \<Rightarrow> q\<lparr>calltodo := todo, callfree := p2 # callfree q\<rparr>)"

text \<open>What \<open>hardclock\<close> does to the queue.\<close>

fun callout_tick :: "callout list \<Rightarrow> callout list" where
  "callout_tick [] = []"
| "callout_tick (p1 # rest) =
     (if c_time p1 \<le> 0 then p1\<lparr>c_time := c_time p1 - 1\<rparr> # callout_tick rest
      else p1\<lparr>c_time := c_time p1 - 1\<rparr> # rest)"

text \<open>
  The loop of \<open>softclock\<close>.  The routines called are an argument: they may change the queue and the rest
  \<open>w\<close> of the system, and \<open>None\<close> is a panic of theirs.  The list is that of the entries called, in order.
\<close>

partial_function (option) softclock_loop ::
    "(callout \<Rightarrow> callq \<Rightarrow> 'w \<Rightarrow> (callq \<times> 'w) option) \<Rightarrow> callq \<Rightarrow> 'w \<Rightarrow> (callout list \<times> callq \<times> 'w) option" where
  "softclock_loop call q w =
     (case calltodo q of
        [] \<Rightarrow> Some ([], q, w)
      | p1 # rest \<Rightarrow>
          if c_time p1 > 0 then Some ([], q, w)
          else Option.bind (call p1 (q\<lparr>calltodo := rest, callfree := p1 # callfree q\<rparr>) w) (\<lambda>(q', w').
               Option.bind (softclock_loop call q' w') (\<lambda>(cs, q'', w'').
               Some (p1 # cs, q'', w''))))"

text \<open>\<open>hzto\<close>: ticks until a time; \<open>now\<close> is the global \<open>time\<close>.\<close>

definition hzto :: "int \<Rightarrow> int \<Rightarrow> timeval \<Rightarrow> timeval \<Rightarrow> int" where
  "hzto hz tick now tv =
     (let sec = s32 (tv_sec tv - tv_sec now)
      in if sec \<le> c_div 2147483647 1000 - 1000 then
           c_div (s32 (s32 (s32 (tv_sec tv - tv_sec now) * 1000) +
                       c_div (s32 (tv_usec tv - tv_usec now)) 1000))
                 (c_div tick 1000)
         else if sec \<le> c_div 2147483647 hz then s32 (sec * hz)
         else 2147483647)"

section \<open>Due times\<close>

type_synonym due = "(cfunc \<times> nat) \<times> int"

fun dues :: "int \<Rightarrow> callout list \<Rightarrow> due list" where
  "dues a [] = []"
| "dues a (c # cs) =
     (let t = (if c_time c > 0 then a + c_time c else if a = 0 then c_time c else a)
      in ((c_func c, c_arg c), t) # dues (max 0 t) cs)"

text \<open>Behind the first entry that is not yet due, all counts are increments.\<close>

fun delta_ok :: "callout list \<Rightarrow> bool" where
  "delta_ok [] = True"
| "delta_ok (c # cs) = (if c_time c > 0 then \<forall>x \<in> set cs. 0 \<le> c_time x else delta_ok cs)"

lemma delta_ok_nonneg: "\<forall>x \<in> set cs. 0 \<le> c_time x \<Longrightarrow> delta_ok cs"
  by (induction cs) auto

lemma delta_ok_tl: "delta_ok (c # cs) \<Longrightarrow> delta_ok cs"
  using delta_ok_nonneg by (auto split: if_splits)

lemma timeout_ins_dues:
  "0 < t \<or> a = 0 \<and> t = 0 \<Longrightarrow> 0 \<le> a \<Longrightarrow> delta_ok cs \<Longrightarrow> (0 < a \<Longrightarrow> \<forall>x \<in> set cs. 0 \<le> c_time x) \<Longrightarrow>
   dues a (timeout_ins new t cs) =
     takeWhile (\<lambda>x. snd x < a + t) (dues a cs) @ ((c_func new, c_arg new), a + t) #
     dropWhile (\<lambda>x. snd x < a + t) (dues a cs)"
proof (induction cs arbitrary: a t)
  case (Cons c cs)
  show ?case
  proof (cases "c_time c < t")
    case False
    with Cons.prems show ?thesis by (auto simp: Let_def max_def)
  next
    case True
    show ?thesis
    proof (cases "0 < c_time c")
      case pos: True
      then have nn: "\<forall>x \<in> set cs. 0 \<le> c_time x" using Cons.prems(3) by simp
      have "dues (a + c_time c) (timeout_ins new (t - c_time c) cs) =
          takeWhile (\<lambda>x. snd x < a + t) (dues (a + c_time c) cs) @ ((c_func new, c_arg new), a + t) #
          dropWhile (\<lambda>x. snd x < a + t) (dues (a + c_time c) cs)"
        using Cons.IH [of "t - c_time c" "a + c_time c"] True pos nn delta_ok_nonneg Cons.prems(2) by simp
      with True pos Cons.prems(2) show ?thesis by (simp add: Let_def max_def)
    next
      case nonpos: False
      have "a = 0 \<or> c_time c = 0" using Cons.prems nonpos by force
      then show ?thesis using Cons.IH [of t a] True nonpos Cons.prems delta_ok_tl [of c cs]
        by (auto simp: Let_def max_def)
    qed
  qed
qed auto

lemma timeout_ins_set: "x \<in> set (timeout_ins new t cs) \<Longrightarrow> \<forall>y \<in> set cs. 0 \<le> c_time y \<Longrightarrow> 0 \<le> t \<Longrightarrow> 0 \<le> c_time x"
  by (induction cs arbitrary: t) (auto split: if_splits)

lemma timeout_ins_ok: "0 \<le> t \<Longrightarrow> delta_ok cs \<Longrightarrow> delta_ok (timeout_ins new t cs)"
proof (induction cs arbitrary: t)
  case (Cons c cs)
  show ?case
  proof (cases "c_time c < t")
    case False
    with Cons.prems show ?thesis by (auto split: if_splits)
  next
    case True
    show ?thesis
    proof (cases "0 < c_time c")
      case pos: True
      then have "\<forall>y \<in> set cs. 0 \<le> c_time y" using Cons.prems(2) by simp
      with True pos timeout_ins_set [of _ new "t - c_time c" cs] show ?thesis by auto
    next
      case False
      with True Cons show ?thesis by (auto split: if_splits)
    qed
  qed
qed simp

text \<open>Dues after a delay of the first entry, and after its removal.\<close>

lemma dues_raise: "0 < d \<Longrightarrow> 0 \<le> a \<Longrightarrow> \<forall>x \<in> set cs. 0 \<le> c_time x \<Longrightarrow>
   dues a (case cs of [] \<Rightarrow> [] | n # ns \<Rightarrow> n\<lparr>c_time := c_time n + d\<rparr> # ns) = dues (a + d) cs"
  by (cases cs) (auto simp: Let_def max_def ac_simps)

fun del_due :: "cfunc \<times> nat \<Rightarrow> due list \<Rightarrow> due list" where
  "del_due k [] = []"
| "del_due k (x # xs) = (if fst x = k then xs else x # del_due k xs)"

lemma untimeout_dues:
  "0 \<le> a \<Longrightarrow> delta_ok cs \<Longrightarrow> (0 < a \<Longrightarrow> \<forall>x \<in> set cs. 0 \<le> c_time x) \<Longrightarrow>
   dues a (fst (untimeout_del f arg cs)) = del_due (f, arg) (dues a cs)"
proof (induction cs arbitrary: a)
  case (Cons c cs)
  show ?case
  proof (cases "c_func c = f \<and> c_arg c = arg")
    case True
    show ?thesis
    proof (cases "0 < c_time c")
      case pos: True
      with Cons.prems dues_raise [of "c_time c" a cs] True show ?thesis
        by (cases cs) (simp_all add: Let_def max_def add.commute)
    next
      case False
      then have "max 0 (if a = 0 then c_time c else a) = a" using Cons.prems by (auto simp: max_def)
      with False True show ?thesis by (cases cs) (auto simp: Let_def)
    qed
  next
    case False
    let ?t = "if c_time c > 0 then a + c_time c else if a = 0 then c_time c else a"
    have "dues (max 0 ?t) (fst (untimeout_del f arg cs)) = del_due (f, arg) (dues (max 0 ?t) cs)"
      by (rule Cons.IH) (use Cons.prems delta_ok_tl [of c cs] in \<open>auto simp: max_def split: if_splits\<close>)
    with False show ?thesis by (auto simp: Let_def split: prod.split)
  qed
qed simp

lemma untimeout_set:
  "x \<in> set (fst (untimeout_del f arg cs)) \<Longrightarrow> \<forall>y \<in> set cs. 0 \<le> c_time y \<Longrightarrow> 0 \<le> c_time x"
  by (induction cs) (auto split: if_splits list.splits prod.splits)

lemma untimeout_ok: "delta_ok cs \<Longrightarrow> delta_ok (fst (untimeout_del f arg cs))"
proof (induction cs)
  case (Cons c cs)
  show ?case
  proof (cases "c_func c = f \<and> c_arg c = arg")
    case True
    with Cons.prems show ?thesis by (auto intro: delta_ok_nonneg split: list.split if_splits)
  next
    case False
    with Cons.prems Cons.IH untimeout_set [of _ f arg cs] delta_ok_tl [of c cs] show ?thesis
      by (auto split: prod.split if_splits)
  qed
qed simp

lemma untimeout_del_None: "snd (untimeout_del f arg cs) = None \<Longrightarrow> fst (untimeout_del f arg cs) = cs"
  by (induction cs) (auto split: prod.splits if_splits)

lemma dues_back: "1 \<le> a \<Longrightarrow> \<forall>x \<in> set cs. 0 \<le> c_time x \<Longrightarrow>
    dues (a - 1) cs = map (\<lambda>x. (fst x, snd x - 1)) (dues a cs)"
proof (induction cs arbitrary: a)
  case (Cons c cs)
  have e: "a - 1 + c_time c = a + c_time c - 1" by simp
  from Cons.prems show ?case
    using Cons.IH [of "a + c_time c"] Cons.IH [of a] unfolding dues.simps Let_def e
    by (auto simp: max_def)
qed simp

lemma callout_tick_dues: "delta_ok cs \<Longrightarrow>
    dues 0 (callout_tick cs) = map (\<lambda>x. (fst x, snd x - 1)) (dues 0 cs)"
proof (induction cs)
  case (Cons c cs)
  then show ?case using dues_back [of "c_time c" cs] by (auto simp: Let_def max_def)
qed simp

lemma callout_tick_ok: "delta_ok cs \<Longrightarrow> delta_ok (callout_tick cs)"
  by (induction cs) (auto intro: delta_ok_nonneg)

section \<open>The timer queue contract\<close>

text \<open>
  The queue as its users see it: the pending entries in order, each with the ticks until it is due.
\<close>

definition pending :: "callq \<Rightarrow> due list" where
  "pending q = dues 0 (calltodo q)"

definition callq_ok :: "callq \<Rightarrow> bool" where
  "callq_ok q \<longleftrightarrow> delta_ok (calltodo q) \<and> sorted (map snd (pending q))"

definition callq_tick :: "callq \<Rightarrow> callq" where
  "callq_tick q = q\<lparr>calltodo := callout_tick (calltodo q)\<rparr>"

definition add_due :: "(cfunc \<times> nat) \<times> int \<Rightarrow> due list \<Rightarrow> due list" where
  "add_due x xs = takeWhile (\<lambda>y. snd y < snd x) xs @ x # dropWhile (\<lambda>y. snd y < snd x) xs"

lemma add_due_sorted: "sorted (map snd xs) \<Longrightarrow> sorted (map snd (add_due x xs))"
  unfolding add_due_def by (induction xs) (auto simp: takeWhile_tail dest: set_takeWhileD set_dropWhileD)

lemma add_due_mset: "mset (add_due x xs) = add_mset x (mset xs)"
proof -
  have "mset xs = mset (takeWhile (\<lambda>y. snd y < snd x) xs) + mset (dropWhile (\<lambda>y. snd y < snd x) xs)"
    by (metis mset_append takeWhile_dropWhile_id)
  then show ?thesis by (simp add: add_due_def)
qed

lemma del_due_sorted: "sorted (map snd xs) \<Longrightarrow> sorted (map snd (del_due k xs))"
proof (induction xs)
  case (Cons x xs)
  have "set (del_due k xs) \<subseteq> set xs" for xs by (induction xs) auto
  with Cons show ?case by fastforce
qed simp

lemma del_due_none: "k \<notin> fst ` set xs \<Longrightarrow> del_due k xs = xs"
  by (induction xs) auto

lemma timeout_pending:
  assumes "callq_ok q" "0 \<le> t" "callfree q \<noteq> []"
  shows "\<exists>q'. timeout f arg t q = Some q' \<and> callq_ok q' \<and> pending q' = add_due ((f, arg), t) (pending q) \<and>
           length (callfree q') = length (callfree q) - 1"
proof -
  obtain pnew free where fr: "callfree q = pnew # free" using assms(3) by (cases "callfree q") auto
  let ?new = "pnew\<lparr>c_arg := arg, c_func := f\<rparr>"
  let ?q = "q\<lparr>callfree := free, calltodo := timeout_ins ?new t (calltodo q)\<rparr>"
  have "pending ?q = add_due ((f, arg), t) (pending q)"
    using timeout_ins_dues [of t 0 "calltodo q" ?new] assms(1,2)
    by (cases "t = 0") (auto simp: pending_def add_due_def callq_ok_def)
  moreover from this have "callq_ok ?q"
    using assms(1,2) timeout_ins_ok [of t "calltodo q" ?new] add_due_sorted by (simp add: callq_ok_def)
  ultimately show ?thesis using fr by (simp add: timeout_def)
qed

lemma untimeout_pending:
  assumes "callq_ok q"
  shows "callq_ok (untimeout f arg q)" "pending (untimeout f arg q) = del_due (f, arg) (pending q)"
proof -
  obtain todo r where d: "untimeout_del f arg (calltodo q) = (todo, r)" by fastforce
  have p: "pending (untimeout f arg q) = dues 0 todo" "calltodo (untimeout f arg q) = todo"
    using d untimeout_del_None [of f arg "calltodo q"]
    by (auto simp: untimeout_def pending_def split: option.split)
  have "dues 0 todo = del_due (f, arg) (pending q)"
    using untimeout_dues [of 0 "calltodo q" f arg] assms d by (simp add: pending_def callq_ok_def)
  moreover have "delta_ok todo" using untimeout_ok [of "calltodo q" f arg] assms d by (simp add: callq_ok_def)
  ultimately show "callq_ok (untimeout f arg q)" "pending (untimeout f arg q) = del_due (f, arg) (pending q)"
    using p del_due_sorted assms by (simp_all add: callq_ok_def)
qed

lemma callq_tick_pending:
  assumes "callq_ok q"
  shows "callq_ok (callq_tick q)" "pending (callq_tick q) = map (\<lambda>x. (fst x, snd x - 1)) (pending q)"
proof -
  show p: "pending (callq_tick q) = map (\<lambda>x. (fst x, snd x - 1)) (pending q)"
    using assms callout_tick_dues by (simp add: pending_def callq_tick_def callq_ok_def)
  have "map snd (map (\<lambda>x. (fst x, snd x - 1)) (pending q)) = map (\<lambda>t. t - 1) (map snd (pending q))"
    by simp
  moreover have "sorted (map (\<lambda>t. t - 1) ts)" if "sorted ts" for ts :: "int list"
    using that by (induction ts) auto
  ultimately show "callq_ok (callq_tick q)"
    using assms callout_tick_ok p unfolding callq_ok_def by (metis callq_tick_def callq.select_convs(1) callq.surjective callq.update_convs(1))
qed

locale timer_queue =
  fixes add :: "'k \<Rightarrow> int \<Rightarrow> 'q \<Rightarrow> 'q option"
    and del :: "'k \<Rightarrow> 'q \<Rightarrow> 'q"
    and tick :: "'q \<Rightarrow> 'q"
    and todo :: "'q \<Rightarrow> ('k \<times> int) list"
    and ok :: "'q \<Rightarrow> bool"
  assumes add: "ok q \<Longrightarrow> 0 \<le> t \<Longrightarrow> add k t q = Some q' \<Longrightarrow>
      ok q' \<and> mset (todo q') = add_mset (k, t) (mset (todo q))"
    and del: "ok q \<Longrightarrow> ok (del k q) \<and>
      (\<forall>k' t. k' \<noteq> k \<longrightarrow> ((k', t) \<in> set (todo (del k q)) \<longleftrightarrow> (k', t) \<in> set (todo q)))"
    and del_one: "ok q \<Longrightarrow> distinct (map fst (todo q)) \<Longrightarrow>
      distinct (map fst (todo (del k q))) \<and> k \<notin> fst ` set (todo (del k q))"
    and tick: "ok q \<Longrightarrow> ok (tick q) \<and> todo (tick q) = map (\<lambda>x. (fst x, snd x - 1)) (todo q)"
begin

lemma ticks: "ok q \<Longrightarrow> ok ((tick ^^ n) q) \<and> todo ((tick ^^ n) q) = map (\<lambda>x. (fst x, snd x - int n)) (todo q)"
  by (induction n) (auto simp: tick)

text \<open>An entry comes due after exactly its number of ticks, whatever else is queued.\<close>

lemma due_after: "ok q \<Longrightarrow> 0 \<le> t \<Longrightarrow> add k t q = Some q' \<Longrightarrow> (k, t - int n) \<in> set (todo ((tick ^^ n) q'))"
proof -
  assume h: "ok q" "0 \<le> t" "add k t q = Some q'"
  note a = add [OF h]
  have "(k, t) \<in> set (todo q')" using a by (metis set_mset_mset union_single_eq_member)
  with ticks [of q' n] a show ?thesis by force
qed

lemma rearm_one: "ok q \<Longrightarrow> distinct (map fst (todo q)) \<Longrightarrow> 0 \<le> t \<Longrightarrow> add k t (del k q) = Some q' \<Longrightarrow>
    ok q' \<and> distinct (map fst (todo q')) \<and> (\<forall>u. (k, u) \<in> set (todo q') \<longleftrightarrow> u = t)"
proof -
  assume h: "ok q" "distinct (map fst (todo q))" "0 \<le> t" "add k t (del k q) = Some q'"
  have d: "distinct (map fst (todo (del k q)))" "k \<notin> fst ` set (todo (del k q))"
    using del_one [OF h(1,2)] by auto
  have a: "ok q'" "mset (todo q') = add_mset (k, t) (mset (todo (del k q)))"
    using add [OF _ h(3,4)] del [OF h(1)] by auto
  then have "mset (todo q') = mset ((k, t) # todo (del k q))" by simp
  then have s: "set (todo q') = insert (k, t) (set (todo (del k q)))"
    and m: "mset (map fst (todo q')) = mset (map fst ((k, t) # todo (del k q)))"
    by (metis list.set(2) set_mset_mset, metis mset_map)
  have "distinct (map fst (todo q'))" using d mset_eq_imp_distinct_iff [OF m] by simp
  moreover have "(k, u) \<in> set (todo q') \<longleftrightarrow> u = t" for u
    using s d(2) by (force simp: image_iff)
  ultimately show ?thesis using a(1) by simp
qed

end

definition cq_add :: "cfunc \<times> nat \<Rightarrow> int \<Rightarrow> callq \<Rightarrow> callq option" where
  "cq_add k t q = timeout (fst k) (snd k) t q"

definition cq_del :: "cfunc \<times> nat \<Rightarrow> callq \<Rightarrow> callq" where
  "cq_del k q = untimeout (fst k) (snd k) q"

lemma del_due_set: "k' \<noteq> k \<Longrightarrow> (k', t) \<in> set (del_due k xs) \<longleftrightarrow> (k', t) \<in> set xs"
  by (induction xs) auto

lemma del_due_distinct: "distinct (map fst xs) \<Longrightarrow>
    distinct (map fst (del_due k xs)) \<and> k \<notin> fst ` set (del_due k xs) \<and> set (del_due k xs) \<subseteq> set xs"
  by (induction xs) auto

interpretation tq: timer_queue cq_add cq_del callq_tick pending callq_ok
proof (unfold_locales, goal_cases)
  case (1 q t k q')
  then have "callfree q \<noteq> []" by (auto simp: cq_add_def timeout_def)
  from timeout_pending [OF 1(1,2) this, of "fst k" "snd k"] 1(3) show ?case
    by (auto simp: cq_add_def add_due_mset)
next
  case (2 q k)
  then show ?case using untimeout_pending [of q "fst k" "snd k"] del_due_set by (simp add: cq_del_def)
next
  case (3 q k)
  then show ?case using untimeout_pending [of q "fst k" "snd k"] del_due_distinct
    by (simp add: cq_del_def)
next
  case (4 q)
  then show ?case using callq_tick_pending by simp
qed

text \<open>With a negative count \<open>timeout\<close> disturbs the queue: when nothing is overdue, every entry
  already pending is put off by that many ticks.\<close>

lemma timeout_negative:
  assumes "t < 0" "callfree q \<noteq> []" "\<forall>c \<in> set (calltodo q). 0 < c_time c"
  shows "\<exists>q'. timeout f arg t q = Some q' \<and>
     pending q' = ((f, arg), t) # map (\<lambda>x. (fst x, snd x - t)) (pending q)"
proof -
  obtain pnew free where fr: "callfree q = pnew # free" using assms(2) by (cases "callfree q") auto
  have up: "dues (a - t) cs = map (\<lambda>x. (fst x, snd x - t)) (dues a cs)"
    if "0 < a" "\<forall>c \<in> set cs. 0 < c_time c" for a cs
    using that
  proof (induction cs arbitrary: a)
    case (Cons c cs)
    have e: "a - t + c_time c = a + c_time c - t" by simp
    from Cons.prems Cons.IH [of "a + c_time c"] assms(1) show ?case
      unfolding dues.simps Let_def e by (auto simp: max_def)
  qed simp
  show ?thesis
  proof (cases "calltodo q")
    case Nil
    with fr assms(1) show ?thesis by (simp add: timeout_def pending_def)
  next
    case (Cons c cs)
    with fr assms up [of "c_time c" cs] show ?thesis
      by (auto simp: timeout_def pending_def Let_def max_def)
  qed
qed

section \<open>Expiry in order\<close>

text \<open>The entries that are due: those \<open>softclock\<close> will call.\<close>

definition due_part :: "callq \<Rightarrow> callout list" where
  "due_part q = takeWhile (\<lambda>c. c_time c \<le> 0) (calltodo q)"

lemma timeout_due_part: "0 < t \<Longrightarrow> timeout f arg t q = Some q' \<Longrightarrow> due_part q' = due_part q"
proof -
  have ins: "takeWhile (\<lambda>c. c_time c \<le> 0) (timeout_ins new t cs) = takeWhile (\<lambda>c. c_time c \<le> 0) cs"
    if "0 < t" for new t cs
    using that by (induction cs arbitrary: t) auto
  assume "0 < t" "timeout f arg t q = Some q'"
  then show ?thesis by (auto simp: timeout_def due_part_def ins split: list.splits)
qed

lemma softclock_loop_due:
  assumes call: "\<And>c q w. \<exists>q' w'. call c q w = Some (q', w') \<and> due_part q' = due_part q"
  shows "due_part q = cs \<Longrightarrow> \<exists>q' w'. softclock_loop call q w = Some (cs, q', w') \<and> due_part q' = []"
proof (induction cs arbitrary: q w)
  case Nil
  then have "softclock_loop call q w = Some ([], q, w)"
    by (subst softclock_loop.simps) (auto simp: due_part_def split: list.splits if_splits)
  with Nil show ?case by simp
next
  case (Cons c cs)
  then obtain rest where q: "calltodo q = c # rest" "c_time c \<le> 0"
      "takeWhile (\<lambda>c. c_time c \<le> 0) rest = cs"
    by (cases "calltodo q") (auto simp: due_part_def split: if_splits)
  let ?q = "q\<lparr>calltodo := rest, callfree := c # callfree q\<rparr>"
  obtain q1 w1 where c: "call c ?q w = Some (q1, w1)" "due_part q1 = cs"
    using call [of c ?q w] q(3) by (auto simp: due_part_def)
  obtain q2 w2 where "softclock_loop call q1 w1 = Some (cs, q2, w2)" "due_part q2 = []"
    using Cons.IH [OF c(2)] by blast
  with c q show ?case by (subst softclock_loop.simps) auto
qed

section \<open>Properties\<close>

text \<open>A table of three callouts, one free, for the concrete instances.\<close>

definition callq_demo :: callq where
  "callq_demo = \<lparr>calltodo = [\<lparr>c_time = -1, c_arg = 7, c_func = Cfunc 0\<rparr>, \<lparr>c_time = 4, c_arg = 8, c_func = Cfunc 1\<rparr>,
                             \<lparr>c_time = 3, c_arg = 9, c_func = Cfunc 1\<rparr>],
                 callfree = [\<lparr>c_time = 0, c_arg = 0, c_func = Cfunc 0\<rparr>]\<rparr>"

lemma callq_demo_ok: "callq_ok callq_demo"
  and callq_demo_pending: "pending callq_demo = [((Cfunc 0, 7), -1), ((Cfunc 1, 8), 4), ((Cfunc 1, 9), 7)]"
  by (simp_all add: callq_demo_def callq_ok_def pending_def)

text \<open>\<open>timeout\<close> with a count that is not negative and a free table entry queues the call with that
  many ticks to go, before the entries due at the same time or later; the due time of no other entry
  moves, and the queue stays ordered.\<close>

theorem timeout_keeps_due_times:
  assumes "callq_ok q" "0 \<le> t" "callfree q \<noteq> []"
  shows "\<exists>q'. timeout f arg t q = Some q' \<and> callq_ok q' \<and>
     pending q' = takeWhile (\<lambda>y. snd y < t) (pending q) @ ((f, arg), t) # dropWhile (\<lambda>y. snd y < t) (pending q)"
  using timeout_pending [OF assms, of f arg] by (auto simp: add_due_def)

theorem timeout_keeps_due_times_witness:
  "\<exists>q'. timeout Realitexpire 3 5 callq_demo = Some q' \<and> callq_ok q' \<and>
     pending q' = [((Cfunc 0, 7), -1), ((Cfunc 1, 8), 4), ((Realitexpire, 3), 5), ((Cfunc 1, 9), 7)]"
  using timeout_keeps_due_times [OF callq_demo_ok, of 5 Realitexpire 3]
  unfolding callq_demo_pending by (simp add: callq_demo_def)

text \<open>C33: a queued call falls due after exactly its number of clock ticks, whatever else was pending;
  \<open>untimeout\<close> before that removes it and moves the due time of no other entry.\<close>

theorem timeout_ticks_untimeout:
  assumes "callq_ok q" "0 \<le> t" "timeout f arg t q = Some q'" "distinct (map fst (pending q'))"
  shows "((f, arg), t - int n) \<in> set (pending ((callq_tick ^^ n) q')) \<and>
     (\<forall>k u. (k, u) \<in> set (pending (untimeout f arg ((callq_tick ^^ n) q'))) \<longleftrightarrow>
        k \<noteq> (f, arg) \<and> (k, u + int n) \<in> set (pending q))"
proof
  have add: "cq_add (f, arg) t q = Some q'" using assms(3) by (simp add: cq_add_def)
  show "((f, arg), t - int n) \<in> set (pending ((callq_tick ^^ n) q'))"
    by (rule tq.due_after [OF assms(1,2) add])
  have ok: "callq_ok q'" "mset (pending q') = add_mset ((f, arg), t) (mset (pending q))"
    using tq.add [OF assms(1,2) add] by auto
  have s: "set (pending q') = insert ((f, arg), t) (set (pending q))"
    using ok(2) by (metis set_mset_add_mset_insert set_mset_mset)
  note tk = tq.ticks [OF ok(1), of n]
  have dis: "distinct (map fst (pending ((callq_tick ^^ n) q')))" using assms(4) tk by (simp add: comp_def)
  have del: "untimeout f arg ((callq_tick ^^ n) q') = cq_del (f, arg) ((callq_tick ^^ n) q')"
    by (simp add: cq_del_def)
  show "\<forall>k u. (k, u) \<in> set (pending (untimeout f arg ((callq_tick ^^ n) q'))) \<longleftrightarrow>
        k \<noteq> (f, arg) \<and> (k, u + int n) \<in> set (pending q)"
  proof (intro allI)
    fix k u
    show "(k, u) \<in> set (pending (untimeout f arg ((callq_tick ^^ n) q'))) \<longleftrightarrow>
        k \<noteq> (f, arg) \<and> (k, u + int n) \<in> set (pending q)"
    proof (cases "k = (f, arg)")
      case True
      then show ?thesis unfolding del using tq.del_one [OF _ dis] tk by (force simp: image_iff)
    next
      case False
      then have "(k, u) \<in> set (pending (untimeout f arg ((callq_tick ^^ n) q'))) \<longleftrightarrow>
          (k, u) \<in> set (pending ((callq_tick ^^ n) q'))"
        unfolding del using tq.del tk by blast
      also have "\<dots> \<longleftrightarrow> (k, u + int n) \<in> set (pending q')"
        using tk by (auto simp: image_iff intro: rev_bexI [of "(k, u + int n)"])
      finally show ?thesis using s False by auto
    qed
  qed
qed

theorem timeout_ticks_untimeout_witness:
  "\<exists>q'. timeout Realitexpire 3 5 callq_demo = Some q' \<and>
     ((Realitexpire, 3), 5 - int 2) \<in> set (pending ((callq_tick ^^ 2) q'))"
proof -
  obtain q' where q: "timeout Realitexpire 3 5 callq_demo = Some q'"
    "pending q' = [((Cfunc 0, 7), -1), ((Cfunc 1, 8), 4), ((Realitexpire, 3), 5), ((Cfunc 1, 9), 7)]"
    by (simp add: timeout_def callq_demo_def pending_def)
  then show ?thesis
    using timeout_ticks_untimeout [OF callq_demo_ok _ q(1), of 2] by auto
qed

text \<open>\<open>softclock\<close> calls exactly the entries that are due, each once and in order, and returns with
  none left, provided that the routines called neither panic nor queue a call for the present.\<close>

theorem softclock_runs_due:
  assumes "\<And>c q w. \<exists>q' w'. call c q w = Some (q', w') \<and> due_part q' = due_part q"
  shows "\<exists>q' w'. softclock_loop call q w = Some (due_part q, q', w') \<and> due_part q' = []"
  by (rule softclock_loop_due [OF assms refl])

theorem softclock_runs_due_witness:
  "\<exists>q' w'. softclock_loop (\<lambda>c q w. Some (case timeout (c_func c) (c_arg c) 5 q of None \<Rightarrow> q | Some q' \<Rightarrow> q', Suc w))
      callq_demo (0 :: nat) = Some ([\<lparr>c_time = -1, c_arg = 7, c_func = Cfunc 0\<rparr>], q', w') \<and> due_part q' = []"
proof -
  have "due_part callq_demo = [\<lparr>c_time = -1, c_arg = 7, c_func = Cfunc 0\<rparr>]"
    by (simp add: due_part_def callq_demo_def)
  moreover have "\<exists>q' w'. Some (case timeout (c_func c) (c_arg c) 5 q of None \<Rightarrow> q | Some q' \<Rightarrow> q', Suc w) =
      Some (q', w') \<and> due_part q' = due_part q" for c q and w :: nat
    by (auto split: option.split dest: timeout_due_part [rotated])
  ultimately show ?thesis
    using softclock_runs_due [of "\<lambda>c q w. Some (case timeout (c_func c) (c_arg c) 5 q of None \<Rightarrow> q | Some q' \<Rightarrow> q', Suc w)"
        callq_demo 0] by auto
qed

end
