(* ===== verification/Clock.thy ===== *)
theory Clock
  imports Callout
begin

text \<open>
  The clock system calls of sys/sys/kern_time.c and the clock interrupts of sys/sys/kern_clock.c, on the
  timeout queue of theory Callout.  The state holds the globals of sys/h/kernel.h and the parts of the u.
  area and of the process table these routines use.  \<open>psignal\<close> appears as the list of signals posted.
  User memory is an argument: what \<open>copyin\<close> found (\<open>None\<close> for a fault) and whether \<open>copyout\<close> succeeds.
  \<open>None\<close> as a result is the panic of \<open>timeout\<close>, or a loop that does not end.
\<close>

section \<open>The state\<close>

datatype errno = EINVAL | EFAULT | EPERM

datatype signal = SIGALRM | SIGVTALRM | SIGPROF | SIGXCPU

record rusage =
  ru_utime :: timeval
  ru_stime :: timeval
  ru_maxrss :: int
  ru_ixrss :: int
  ru_idrss :: int
  ru_isrss :: int

record timezone =
  tz_minuteswest :: int
  tz_dsttime :: int

text \<open>What the clock reads and writes of the current process.\<close>

record cproc =
  p_nice :: int
  p_rssize :: int
  p_maxrss :: int
  p_textp :: "int option"
  p_cpticks :: int
  p_cpu :: "8 word"
  p_pri :: int
  p_usrpri :: int
  p_sowupc :: bool

record clk =
  time :: timeval
  boottime :: timeval
  tz :: timezone
  hz :: int
  tick :: int
  callq :: callq
  p_realtimer :: "nat \<Rightarrow> itimerval"
  posted :: "(nat \<times> signal) list"
  u_procp :: nat
  u_proc :: cproc
  u_uid :: int
  u_error :: "errno option"
  u_rval :: int
  u_timer :: "nat \<Rightarrow> itimerval"
  u_ru :: rusage
  cpu_cur :: int
  cpu_max :: int
  pr_scale :: int
  noproc :: bool
  freemem :: int
  desfree :: int
  curpri :: int
  runrun :: int
  cp_time :: "nat \<Rightarrow> int"
  dk_busy :: int
  dk_time :: "nat \<Rightarrow> int"
  softclock_set :: bool
  copied :: "itimerval list"

definition SIGpost :: "signal \<Rightarrow> clk \<Rightarrow> clk" where
  "SIGpost sg k = k\<lparr>posted := posted k @ [(u_procp k, sg)]\<rparr>"

section \<open>Time of day\<close>

definition suser :: "clk \<Rightarrow> bool \<times> clk" where
  "suser k = (if u_uid k = 0 then (True, k) else (False, k\<lparr>u_error := Some EPERM\<rparr>))"

definition setthetime :: "timeval \<Rightarrow> clk \<Rightarrow> clk" where
  "setthetime tv k =
     (let (ok, k') = suser k
      in if \<not> ok then k'
         else k'\<lparr>boottime := (boottime k')\<lparr>tv_sec := s32 (tv_sec (boottime k') + s32 (tv_sec tv - tv_sec (time k')))\<rparr>,
                 time := tv\<rparr>)"

text \<open>\<open>gettimeofday\<close> gives the timeval and the timezone copied out.\<close>

definition gettimeofday :: "bool \<Rightarrow> bool option \<Rightarrow> clk \<Rightarrow> timeval option \<times> timezone option \<times> clk" where
  "gettimeofday tp_ok tzp k =
     (if \<not> tp_ok then (None, None, k\<lparr>u_error := Some EFAULT\<rparr>)
      else case tzp of
             None \<Rightarrow> (Some (time k), None, k\<lparr>u_error := None\<rparr>)
           | Some True \<Rightarrow> (Some (time k), Some (tz k), k\<lparr>u_error := None\<rparr>)
           | Some False \<Rightarrow> (Some (time k), None, k\<lparr>u_error := Some EFAULT\<rparr>))"

text \<open>\<open>settimeofday\<close> copies the time zone in, and does not store it.\<close>

definition settimeofday :: "timeval option \<Rightarrow> timezone option option \<Rightarrow> clk \<Rightarrow> clk" where
  "settimeofday tv tzp k =
     (case tv of
        None \<Rightarrow> k\<lparr>u_error := Some EFAULT\<rparr>
      | Some atv \<Rightarrow>
          let k1 = setthetime atv (k\<lparr>u_error := None\<rparr>)
          in case tzp of
               None \<Rightarrow> k1
             | Some atz \<Rightarrow>
                 let (ok, k2) = suser k1
                 in if ok then k2\<lparr>u_error := (if atz = None then Some EFAULT else None)\<rparr> else k2)"

definition otime :: "clk \<Rightarrow> clk" where
  "otime k = k\<lparr>u_rval := tv_sec (time k)\<rparr>"

definition ostime :: "int \<Rightarrow> clk \<Rightarrow> clk" where
  "ostime t k = setthetime \<lparr>tv_sec = t, tv_usec = 0\<rparr> k"

text \<open>The fields of the old timeb: seconds, milliseconds, time zone and daylight saving flag.\<close>

definition oftime :: "bool \<Rightarrow> clk \<Rightarrow> (int \<times> int \<times> int \<times> int) option \<times> clk" where
  "oftime tp_ok k =
     (if tp_ok
      then (Some (tv_sec (time k), u16 (c_div (tv_usec (time k)) 1000), s16 (tz_minuteswest (tz k)),
                  s16 (tz_dsttime (tz k))), k\<lparr>u_error := None\<rparr>)
      else (None, k\<lparr>u_error := Some EFAULT\<rparr>))"

section \<open>Interval timers\<close>

definition getitimer :: "nat \<Rightarrow> bool \<Rightarrow> clk \<Rightarrow> clk" where
  "getitimer which ok k =
     (if which > 2 then k\<lparr>u_error := Some EINVAL\<rparr>
      else
        let aitv = (if which = 0 then
                      let a = p_realtimer k (u_procp k)
                      in if timerisset (it_value a)
                         then (if timercmp_less (it_value a) (time k) then a\<lparr>it_value := timerclear\<rparr>
                               else a\<lparr>it_value := timevalsub (it_value a) (time k)\<rparr>)
                         else a
                    else u_timer k which)
        in if ok then k\<lparr>copied := copied k @ [aitv], u_error := None\<rparr>
           else k\<lparr>u_error := Some EFAULT\<rparr>)"

text \<open>\<open>timeout(realitexpire, p, hzto(\&tv))\<close>, the statement that arms a real timer.\<close>

definition arm :: "nat \<Rightarrow> timeval \<Rightarrow> clk \<Rightarrow> clk option" where
  "arm p tv k =
     map_option (\<lambda>q. k\<lparr>callq := q\<rparr>) (timeout Realitexpire p (hzto (hz k) (tick k) (time k) tv) (callq k))"

definition setitimer :: "nat \<Rightarrow> itimerval option \<Rightarrow> bool option \<Rightarrow> clk \<Rightarrow> clk option" where
  "setitimer which itv oitv k =
     (if which > 2 then Some (k\<lparr>u_error := Some EINVAL\<rparr>)
      else case itv of
        None \<Rightarrow> Some (k\<lparr>u_error := Some EFAULT\<rparr>)
      | Some aitv \<Rightarrow>
          let k1 = k\<lparr>u_error := None\<rparr>;
              k2 = (case oitv of None \<Rightarrow> k1 | Some ok \<Rightarrow> getitimer which ok k1);
              p = u_procp k2
          in case (itimerfix (tick k2) (it_value aitv), itimerfix (tick k2) (it_interval aitv)) of
               (Some v, Some i) \<Rightarrow>
                 if which = 0 then
                   let k3 = k2\<lparr>callq := untimeout Realitexpire p (callq k2)\<rparr>;
                       v' = (if timerisset v then timevaladd v (time k3) else v)
                   in map_option (\<lambda>k4. k4\<lparr>p_realtimer := (p_realtimer k4)(p := \<lparr>it_interval = i, it_value = v'\<rparr>)\<rparr>)
                        (if timerisset v then arm p v' k3 else Some k3)
                 else Some (k2\<lparr>u_timer := (u_timer k2)(which := \<lparr>it_interval = i, it_value = v\<rparr>)\<rparr>)
             | _ \<Rightarrow> Some (k2\<lparr>u_error := Some EINVAL\<rparr>))"

text \<open>The loop of \<open>realitexpire\<close>: the next time to go off that is later than now.\<close>

partial_function (option) realit_next :: "timeval \<Rightarrow> timeval \<Rightarrow> timeval \<Rightarrow> timeval option" where
  "realit_next now i v =
     (let v' = timevaladd v i in if timercmp_less now v' then Some v' else realit_next now i v')"

definition realitexpire :: "nat \<Rightarrow> clk \<Rightarrow> clk option" where
  "realitexpire p k =
     (let k1 = k\<lparr>posted := posted k @ [(p, SIGALRM)]\<rparr>;
          it = p_realtimer k p
      in if \<not> timerisset (it_interval it)
         then Some (k1\<lparr>p_realtimer := (p_realtimer k1)(p := it\<lparr>it_value := timerclear\<rparr>)\<rparr>)
         else Option.bind (realit_next (time k1) (it_interval it) (it_value it)) (\<lambda>v.
                arm p v (k1\<lparr>p_realtimer := (p_realtimer k1)(p := it\<lparr>it_value := v\<rparr>)\<rparr>)))"

definition oalarm :: "int \<Rightarrow> clk \<Rightarrow> clk option" where
  "oalarm deltat k =
     (let p = u_procp k;
          it = (p_realtimer k p)\<lparr>it_interval := timerclear\<rparr>;
          left = (if timerisset (it_value it) \<and> timercmp_less (time k) (it_value it)
                  then s32 (tv_sec (it_value it) - tv_sec (time k)) else 0);
          k1 = k\<lparr>callq := untimeout Realitexpire p (callq k), u_rval := left\<rparr>
      in if deltat = 0
         then Some (k1\<lparr>p_realtimer := (p_realtimer k1)(p := it\<lparr>it_value := timerclear\<rparr>)\<rparr>)
         else let v = (time k1)\<lparr>tv_sec := s32 (tv_sec (time k1) + deltat)\<rparr>
              in arm p v (k1\<lparr>p_realtimer := (p_realtimer k1)(p := it\<lparr>it_value := v\<rparr>)\<rparr>))"

section \<open>The clock interrupt\<close>

text \<open>\<open>setpri\<close> of sys/sys/kern_synch.c: the priority from the cpu usage and the nice value.\<close>

definition setpri :: "clk \<Rightarrow> int \<times> clk" where
  "setpri k =
     (let pp = u_proc k;
          a = uint (p_cpu pp) div 4 + (50 + 2 * (p_nice pp - 20));
          b = (if p_rssize pp > p_maxrss pp \<and> freemem k < desfree k then a + 8 else a);
          c = (if b > 127 then 127 else b);
          k' = (if c < curpri k then k\<lparr>runrun := runrun k + 1\<rparr> else k)
      in (c, k'\<lparr>u_proc := (u_proc k')\<lparr>p_usrpri := c\<rparr>\<rparr>))"

definition gatherstats :: "bool \<Rightarrow> bool \<Rightarrow> clk \<Rightarrow> clk" where
  "gatherstats usermode basepri k =
     (let cpstate = (if usermode then (if p_nice (u_proc k) > 20 then 1 else 0)
                     else if noproc k \<and> basepri then 3 else 2 :: nat)
      in k\<lparr>cp_time := (cp_time k)(cpstate := cp_time k cpstate + 1),
           dk_time := (\<lambda>s. if s < 4 \<and> dk_busy k div 2 ^ s mod 2 = 1 then dk_time k s + 1 else dk_time k s)\<rparr>)"

text \<open>A timer of the u. area that runs in the time being charged.\<close>

definition utimer_tick :: "nat \<Rightarrow> signal \<Rightarrow> clk \<Rightarrow> clk" where
  "utimer_tick which sg k =
     (if timerisset (it_value (u_timer k which))
      then let (r, it) = itimerdecr (u_timer k which) (tick k);
               k' = k\<lparr>u_timer := (u_timer k)(which := it)\<rparr>
           in if r = 0 then SIGpost sg k' else k'
      else k)"

text \<open>\<open>hardclock\<close> in its parts: the mode the cpu was in, the charges to the process, its priority.\<close>

definition hc_mode :: "bool \<Rightarrow> bool \<Rightarrow> clk \<Rightarrow> nat \<times> clk" where
  "hc_mode usermode basepri k =
     (if usermode then
        let k1 = k\<lparr>u_ru := (u_ru k)\<lparr>ru_utime := bumptime (ru_utime (u_ru k)) (tick k)\<rparr>\<rparr>
        in (if p_nice (u_proc k) > 20 then 1 else 0, utimer_tick 1 SIGVTALRM k1)
      else if noproc k then (if basepri then 3 else 2, k)
      else (2, k\<lparr>u_ru := (u_ru k)\<lparr>ru_stime := bumptime (ru_stime (u_ru k)) (tick k)\<rparr>\<rparr>))"

definition hc_charge :: "nat \<Rightarrow> clk \<Rightarrow> clk" where
  "hc_charge cpstate k =
     (if \<not> noproc k \<and> cpstate \<noteq> 3 then
        let k1 = (if tv_sec (ru_utime (u_ru k)) + tv_sec (ru_stime (u_ru k)) + 1 > cpu_cur k
                  then let k' = SIGpost SIGXCPU k
                       in if cpu_cur k' < cpu_max k' then k'\<lparr>cpu_cur := cpu_cur k' + 5\<rparr> else k'
                  else k);
            k2 = utimer_tick 2 SIGPROF k1;
            s = p_rssize (u_proc k2);
            ru = (u_ru k2)\<lparr>ru_idrss := s32 (ru_idrss (u_ru k2) + s)\<rparr>;
            (s', ru') = (case p_textp (u_proc k2) of
                           None \<Rightarrow> (s, ru)
                         | Some xrss \<Rightarrow> (s + xrss, ru\<lparr>ru_ixrss := s32 (ru_ixrss ru + xrss)\<rparr>));
            ru'' = (if s' > ru_maxrss ru' then ru'\<lparr>ru_maxrss := s'\<rparr> else ru')
        in k2\<lparr>u_ru := ru''\<rparr>
      else k)"

definition hc_priority :: "clk \<Rightarrow> clk" where
  "hc_priority k =
     (if \<not> noproc k then
        let p = u_proc k;
            cpu = (if p_cpu p + 1 = 0 then p_cpu p else p_cpu p + 1);
            k1 = k\<lparr>u_proc := p\<lparr>p_cpticks := s16 (p_cpticks p + 1), p_cpu := cpu\<rparr>\<rparr>
        in if and cpu 3 = 0 then
             let (_, k2) = setpri k1
             in if p_pri (u_proc k2) \<ge> 50
                then k2\<lparr>u_proc := (u_proc k2)\<lparr>p_pri := p_usrpri (u_proc k2)\<rparr>\<rparr> else k2
           else k1
      else k)"

definition hardclock :: "bool \<Rightarrow> bool \<Rightarrow> clk \<Rightarrow> clk" where
  "hardclock usermode basepri k =
     (let k1 = k\<lparr>callq := callq_tick (callq k)\<rparr>;
          (cpstate, k2) = hc_mode usermode basepri k1;
          k3 = gatherstats usermode basepri (hc_priority (hc_charge cpstate k2))
      in k3\<lparr>time := bumptime (time k3) (tick k3), softclock_set := True\<rparr>)"

text \<open>
  \<open>softclock\<close>: a real timer's expiry is the routine above, any other is the argument \<open>other\<close>; then the
  profiling tick.
\<close>

definition softcall :: "(callout \<Rightarrow> callq \<Rightarrow> clk \<Rightarrow> (callq \<times> clk) option) \<Rightarrow>
    callout \<Rightarrow> callq \<Rightarrow> clk \<Rightarrow> (callq \<times> clk) option" where
  "softcall other c q k =
     (case c_func c of
        Realitexpire \<Rightarrow> map_option (\<lambda>k'. (callq k', k')) (realitexpire (c_arg c) (k\<lparr>callq := q\<rparr>))
      | Cfunc _ \<Rightarrow> other c q k)"

definition softclock :: "(callout \<Rightarrow> callq \<Rightarrow> clk \<Rightarrow> (callq \<times> clk) option) \<Rightarrow> bool \<Rightarrow> clk \<Rightarrow> clk option" where
  "softclock other usermode k =
     map_option (\<lambda>(_, q, k').
         let k2 = k'\<lparr>callq := q\<rparr>
         in if usermode \<and> pr_scale k2 \<noteq> 0 then k2\<lparr>u_proc := (u_proc k2)\<lparr>p_sowupc := True\<rparr>\<rparr> else k2)
       (softclock_loop (softcall other) (callq k) k)"

section \<open>Ticks until a time\<close>

lemma div_near: "0 < (b :: int) \<Longrightarrow> x div b * b \<le> x \<and> x - (b - 1) \<le> x div b * b"
  using pos_mod_bound [of b x] pos_mod_sign [of b x] div_mult_mod_eq [of x b] by linarith

lemma c_div_neg: "a < 0 \<Longrightarrow> 0 < b \<Longrightarrow> c_div a b = - ((- a) div b)"
  by (simp add: c_div_def)

lemma c_div_bounds: "0 < b \<Longrightarrow> c_div a b * b \<le> a + (b - 1)" "0 < b \<Longrightarrow> a - (b - 1) \<le> c_div a b * b"
proof -
  have "c_div a b * b \<le> a + (b - 1) \<and> a - (b - 1) \<le> c_div a b * b" if b: "0 < b"
  proof (cases "0 \<le> a")
    case True
    then show ?thesis using div_near [OF b, of a] b by (simp add: c_div_pos)
  next
    case False
    have "c_div a b * b = - ((- a) div b * b)" using False b by (simp add: c_div_neg)
    then show ?thesis using div_near [OF b, of "- a"] by linarith
  qed
  then show "0 < b \<Longrightarrow> c_div a b * b \<le> a + (b - 1)" "0 < b \<Longrightarrow> a - (b - 1) \<le> c_div a b * b"
    by auto
qed

lemma hzto_near:
  assumes "tv_norm tv" "tv_norm now" "0 \<le> tv_sec now" "usecs now \<le> usecs tv" "1000 \<le> tk"
    "tv_sec tv - tv_sec now \<le> 2146483"
  shows "\<exists>ms. hzto hv tk now tv = ms div (tk div 1000) \<and> 0 \<le> ms \<and> ms < 2147483647 \<and>
           ms * 1000 \<le> usecs tv - usecs now + 999 \<and> usecs tv - usecs now - 999 \<le> ms * 1000"
proof -
  let ?s = "tv_sec tv - tv_sec now" and ?u = "tv_usec tv - tv_usec now"
  let ?q = "c_div ?u 1000"
  have n: "0 \<le> tv_usec tv" "tv_usec tv < 1000000" "0 \<le> tv_usec now" "tv_usec now < 1000000"
    using assms(1,2) by (auto simp: tv_norm_def)
  have u: "usecs tv - usecs now = ?s * 1000000 + ?u" by (simp add: usecs_def algebra_simps)
  have s0: "0 \<le> ?s"
  proof (rule ccontr)
    assume "\<not> 0 \<le> ?s"
    then have "?s * 1000000 \<le> -1000000" by simp
    with u assms(4) n show False by linarith
  qed
  have q: "?q * 1000 \<le> ?u + 999" "?u - 999 \<le> ?q * 1000"
    using c_div_bounds [of 1000 ?u] by auto
  have qr: "-1000 \<le> ?q" "?q \<le> 1000" using q n by linarith+
  have ms0: "0 \<le> ?s * 1000 + ?q"
  proof (cases "?s = 0")
    case True
    then have "0 \<le> ?u" using u assms(4) by simp
    then show ?thesis using True by (simp add: c_div_pos)
  next
    case False
    with s0 have "1 \<le> ?s" by simp
    then have "1 * 1000 \<le> ?s * 1000" by (intro mult_right_mono) auto
    with qr(1) show ?thesis by simp
  qed
  have d: "c_div 2147483647 1000 - 1000 = 2146483" "c_div tk 1000 = tk div 1000"
    using assms(5) by (simp_all add: c_div_pos)
  have h: "hzto hv tk now tv = c_div (?s * 1000 + ?q) (tk div 1000)"
    using s0 assms(6) n qr d by (simp add: hzto_def Let_def cint)
  have t: "0 < tk div 1000" using assms(5) by simp
  have "hzto hv tk now tv = (?s * 1000 + ?q) div (tk div 1000)"
    unfolding h using ms0 t by (rule c_div_pos)
  moreover have "(?s * 1000 + ?q) * 1000 \<le> usecs tv - usecs now + 999"
    "usecs tv - usecs now - 999 \<le> (?s * 1000 + ?q) * 1000"
    unfolding u using q by (simp_all add: algebra_simps)
  moreover have "?s * 1000 + ?q < 2147483647"
  proof -
    have "?s * 1000 \<le> 2146483 * 1000" using assms(6) by (intro mult_right_mono) auto
    with qr(2) show ?thesis by simp
  qed
  ultimately show ?thesis using ms0 by blast
qed

lemma hzto_range:
  assumes "tv_norm tv" "tv_norm now" "0 \<le> tv_sec now" "usecs now \<le> usecs tv" "1000 \<le> tk" "0 < hv"
  shows "0 \<le> hzto hv tk now tv" "hzto hv tk now tv \<le> 2147483647"
proof -
  have "0 \<le> hzto hv tk now tv \<and> hzto hv tk now tv \<le> 2147483647"
  proof (cases "tv_sec tv - tv_sec now \<le> 2146483")
    case True
    obtain ms where ms: "hzto hv tk now tv = ms div (tk div 1000)" "0 \<le> ms" "ms < 2147483647"
      using hzto_near [OF assms(1-5) True] by blast
    have t: "0 < tk div 1000" using assms(5) by simp
    have r0: "0 \<le> ms div (tk div 1000)" using ms(2) t by (simp add: pos_imp_zdiv_nonneg_iff)
    have "ms div (tk div 1000) * 1 \<le> ms div (tk div 1000) * (tk div 1000)"
      using r0 t by (intro mult_left_mono) auto
    then have "ms div (tk div 1000) \<le> ms" using div_near [OF t, of ms] by linarith
    moreover note r0
    ultimately show ?thesis using ms by simp
  next
    case False
    let ?s = "tv_sec tv - tv_sec now"
    have w: "s32 ?s = ?s" using False assms(1,3) by (simp add: tv_norm_def cint)
    show ?thesis
    proof (cases "?s \<le> 2147483647 div hv")
      case True
      then have "?s * hv \<le> 2147483647 div hv * hv" using assms(6) by (simp add: mult_right_mono)
      also have "\<dots> \<le> 2147483647"
        using assms(6) pos_mod_sign [of hv 2147483647] div_mult_mod_eq [of 2147483647 hv] by linarith
      finally have r: "?s * hv \<le> 2147483647" .
      have r0: "0 \<le> ?s * hv" using False assms(6) by simp
      have "hzto hv tk now tv = s32 (?s * hv)"
        using False True w assms(6) by (simp add: hzto_def Let_def c_div_pos)
      with r r0 show ?thesis by (simp add: cint)
    next
      case no: False
      then show ?thesis using False w assms(6) by (simp add: hzto_def Let_def c_div_pos)
    qed
  qed
  then show "0 \<le> hzto hv tk now tv" "hzto hv tk now tv \<le> 2147483647" by auto
qed

section \<open>The real timer\<close>

lemma realit_next_step:
  "realit_next now i v = (let v' = timevaladd v i in if timercmp_less now v' then Some v' else realit_next now i v')"
  by (rule realit_next.simps)

lemma realit_next_terminates:
  assumes "tv_norm now" "tv_norm i" "tv_norm v" "0 < usecs i" "0 \<le> tv_sec i" "tv_sec i \<le> 100000000" "0 \<le> tv_sec v"
    "tv_sec v \<le> tv_sec now" "tv_sec now < 2000000000"
  shows "\<exists>v' n. realit_next now i v = Some v' \<and> tv_norm v' \<and> 1 \<le> n \<and> usecs v' = usecs v + int n * usecs i \<and>
           usecs now < usecs v' \<and> (n = 1 \<or> usecs v' \<le> usecs now + usecs i) \<and> 0 \<le> tv_sec v'"
  using assms(3,7,8)
proof (induction "nat (usecs now - usecs v + 1000000)" arbitrary: v rule: less_induct)
  case less
  let ?v = "timevaladd v i"
  have n: "tv_norm ?v" "usecs ?v = usecs v + usecs i"
    using timevaladd_usecs [OF less(2) assms(2)] less(3,4) assms(5,6,9) by auto
  have s0: "0 \<le> tv_sec ?v"
  proof (rule ccontr)
    assume "\<not> 0 \<le> tv_sec ?v"
    then have "usecs ?v < 0" using n(1) by (auto simp: tv_norm_def usecs_def)
    moreover have "0 \<le> usecs v" using less(2,3) by (auto simp: tv_norm_def usecs_def)
    ultimately show False using n(2) assms(4) by simp
  qed
  show ?case
  proof (cases "timercmp_less now ?v")
    case True
    then have lt: "usecs now < usecs ?v" using timercmp_usecs [OF assms(1) n(1)] by simp
    have "realit_next now i v = Some ?v" using True by (subst realit_next_step) (simp add: Let_def)
    with n lt s0 show ?thesis by (intro exI [of _ ?v] exI [of _ 1]) simp
  next
    case False
    then have ge: "usecs ?v \<le> usecs now" using timercmp_usecs [OF assms(1) n(1)] by simp
    have le: "tv_sec ?v \<le> tv_sec now"
    proof (rule ccontr)
      assume "\<not> tv_sec ?v \<le> tv_sec now"
      then have "usecs now < usecs ?v" using n(1) assms(1) by (auto simp: tv_norm_def usecs_def)
      with ge show False by simp
    qed
    have dec: "nat (usecs now - usecs ?v + 1000000) < nat (usecs now - usecs v + 1000000)"
      using ge n(2) assms(4) by simp
    obtain v' n' where r: "realit_next now i ?v = Some v'" "tv_norm v'" "1 \<le> n'"
        "usecs v' = usecs ?v + int n' * usecs i" "usecs now < usecs v'"
        "n' = 1 \<or> usecs v' \<le> usecs now + usecs i" "0 \<le> tv_sec v'"
      using less(1) [OF dec n(1) s0 le] by blast
    have "realit_next now i v = Some v'" using False r(1) by (subst realit_next_step) (simp add: Let_def)
    moreover have "usecs v' = usecs v + int (Suc n') * usecs i" using r(4) n(2) by (simp add: algebra_simps)
    moreover have "usecs v' \<le> usecs now + usecs i" using r(4,6) ge by auto
    ultimately show ?thesis using r by (intro exI [of _ v'] exI [of _ "Suc n'"]) simp
  qed
qed

lemma arm_rearm:
  assumes "callq_ok q" "distinct (map fst (pending q))" "callfree (untimeout Realitexpire p q) \<noteq> []"
    "0 \<le> hzto (hz k) (tick k) (time k) v"
  shows "\<exists>q'. arm p v (k\<lparr>callq := untimeout Realitexpire p q\<rparr>) = Some (k\<lparr>callq := q'\<rparr>) \<and> callq_ok q' \<and>
     distinct (map fst (pending q')) \<and>
     (\<forall>u. ((Realitexpire, p), u) \<in> set (pending q') \<longleftrightarrow> u = hzto (hz k) (tick k) (time k) v)"
proof -
  let ?t = "hzto (hz k) (tick k) (time k) v"
  have ok: "callq_ok (untimeout Realitexpire p q)" by (rule untimeout_pending(1) [OF assms(1)])
  obtain q' where q: "timeout Realitexpire p ?t (untimeout Realitexpire p q) = Some q'"
    using timeout_pending [OF ok assms(4,3), of Realitexpire p] by auto
  then have "cq_add (Realitexpire, p) ?t (cq_del (Realitexpire, p) q) = Some q'"
    by (simp add: cq_add_def cq_del_def)
  from tq.rearm_one [OF assms(1,2,4) this] q show ?thesis by (auto simp: arm_def)
qed

section \<open>What a tick leaves alone\<close>

named_theorems hc_frame \<open>fields a part of the clock interrupt does not touch\<close>

lemma SIGpost_frame [hc_frame]:
  "time (SIGpost sg k) = time k" "callq (SIGpost sg k) = callq k" "tick (SIGpost sg k) = tick k"
  "cp_time (SIGpost sg k) = cp_time k" "u_ru (SIGpost sg k) = u_ru k" "noproc (SIGpost sg k) = noproc k"
  "u_proc (SIGpost sg k) = u_proc k"
  by (simp_all add: SIGpost_def)

lemma utimer_tick_frame [hc_frame]:
  "time (utimer_tick w sg k) = time k" "callq (utimer_tick w sg k) = callq k" "tick (utimer_tick w sg k) = tick k"
  "cp_time (utimer_tick w sg k) = cp_time k" "u_ru (utimer_tick w sg k) = u_ru k"
  "noproc (utimer_tick w sg k) = noproc k" "u_proc (utimer_tick w sg k) = u_proc k"
  by (simp_all add: utimer_tick_def Let_def hc_frame split: prod.split)

lemma hc_mode_frame [hc_frame]:
  "time (snd (hc_mode u b k)) = time k" "callq (snd (hc_mode u b k)) = callq k" "tick (snd (hc_mode u b k)) = tick k"
  "cp_time (snd (hc_mode u b k)) = cp_time k" "noproc (snd (hc_mode u b k)) = noproc k"
  "u_proc (snd (hc_mode u b k)) = u_proc k"
  by (simp_all add: hc_mode_def Let_def hc_frame)

lemma hc_charge_frame [hc_frame]:
  "time (hc_charge s k) = time k" "callq (hc_charge s k) = callq k" "tick (hc_charge s k) = tick k"
  "cp_time (hc_charge s k) = cp_time k" "ru_utime (u_ru (hc_charge s k)) = ru_utime (u_ru k)"
  "ru_stime (u_ru (hc_charge s k)) = ru_stime (u_ru k)" "noproc (hc_charge s k) = noproc k"
  "u_proc (hc_charge s k) = u_proc k"
  by (simp_all add: hc_charge_def Let_def hc_frame split: prod.split option.split)

lemma setpri_frame [hc_frame]:
  "time (snd (setpri k)) = time k" "callq (snd (setpri k)) = callq k" "tick (snd (setpri k)) = tick k"
  "cp_time (snd (setpri k)) = cp_time k" "u_ru (snd (setpri k)) = u_ru k" "noproc (snd (setpri k)) = noproc k"
  "p_nice (u_proc (snd (setpri k))) = p_nice (u_proc k)"
  by (simp_all add: setpri_def Let_def)

lemma hc_priority_frame [hc_frame]:
  "time (hc_priority k) = time k" "callq (hc_priority k) = callq k" "tick (hc_priority k) = tick k"
  "cp_time (hc_priority k) = cp_time k" "u_ru (hc_priority k) = u_ru k" "noproc (hc_priority k) = noproc k"
  "p_nice (u_proc (hc_priority k)) = p_nice (u_proc k)"
  by (simp_all add: hc_priority_def Let_def hc_frame split_beta)

lemma gatherstats_frame [hc_frame]:
  "time (gatherstats u b k) = time k" "callq (gatherstats u b k) = callq k" "tick (gatherstats u b k) = tick k"
  "u_ru (gatherstats u b k) = u_ru k"
  by (simp_all add: gatherstats_def Let_def)

lemma hardclock_time: "time (hardclock u b k) = bumptime (time k) (tick k)"
  and hardclock_callq: "callq (hardclock u b k) = callq_tick (callq k)"
  by (simp_all add: hardclock_def Let_def hc_frame split_beta)

lemma hardclock_ru:
  "ru_utime (u_ru (hardclock u b k)) = (if u then bumptime (ru_utime (u_ru k)) (tick k) else ru_utime (u_ru k))"
  "ru_stime (u_ru (hardclock u b k)) =
     (if \<not> u \<and> \<not> noproc k then bumptime (ru_stime (u_ru k)) (tick k) else ru_stime (u_ru k))"
  by (simp_all add: hardclock_def Let_def hc_frame split_beta) (simp_all add: hc_mode_def Let_def hc_frame)

lemma hardclock_cp:
  "cp_time (hardclock u b k) =
     (let s = (if u then (if p_nice (u_proc k) > 20 then 1 else 0) else if noproc k \<and> b then 3 else 2)
      in (cp_time k)(s := cp_time k s + 1))"
  by (simp add: hardclock_def Let_def hc_frame split_beta gatherstats_def)

lemma untimeout_pos: "\<forall>c \<in> set cs. 0 < c_time c \<Longrightarrow> \<forall>c \<in> set (fst (untimeout_del f arg cs)). 0 < c_time c"
proof (induction cs)
  case (Cons c cs)
  show ?case
  proof (cases "c_func c = f \<and> c_arg c = arg")
    case True
    with Cons.prems show ?thesis by (cases cs) auto
  next
    case False
    then have "fst (untimeout_del f arg (c # cs)) = c # fst (untimeout_del f arg cs)" by (auto simp: split_beta)
    with Cons show ?thesis by simp
  qed
qed simp

section \<open>Properties\<close>

definition proc_demo :: cproc where
  "proc_demo = \<lparr>p_nice = 20, p_rssize = 10, p_maxrss = 100, p_textp = Some 4, p_cpticks = 0, p_cpu = 3,
                p_pri = 50, p_usrpri = 50, p_sowupc = False\<rparr>"

definition clk_demo :: clk where
  "clk_demo = \<lparr>time = \<lparr>tv_sec = 1000, tv_usec = 995000\<rparr>, boottime = \<lparr>tv_sec = 0, tv_usec = 0\<rparr>,
     tz = \<lparr>tz_minuteswest = 480, tz_dsttime = 1\<rparr>, hz = 100, tick = 10000, callq = callq_demo,
     p_realtimer = (\<lambda>_. \<lparr>it_interval = \<lparr>tv_sec = 0, tv_usec = 500000\<rparr>, it_value = \<lparr>tv_sec = 999, tv_usec = 0\<rparr>\<rparr>),
     posted = [], u_procp = 3, u_proc = proc_demo, u_uid = 0, u_error = None, u_rval = 0,
     u_timer = (\<lambda>_. \<lparr>it_interval = timerclear, it_value = timerclear\<rparr>),
     u_ru = \<lparr>ru_utime = timerclear, ru_stime = timerclear, ru_maxrss = 0, ru_ixrss = 0, ru_idrss = 0, ru_isrss = 0\<rparr>,
     cpu_cur = 1000, cpu_max = 1000, pr_scale = 0, noproc = False, freemem = 100, desfree = 10, curpri = 60, runrun = 0,
     cp_time = (\<lambda>_. 0), dk_busy = 0, dk_time = (\<lambda>_. 0), softclock_set = False, copied = []\<rparr>"

lemmas clk_demo_defs = clk_demo_def proc_demo_def callq_demo_def tv_norm_def usecs_def timerisset_def timerclear_def

text \<open>C34: \<open>realitexpire\<close> returns, posts exactly one SIGALRM however late it is called, and arms the timer
  for the first time after the present that is a whole number of intervals after the time that expired:
  periodic real time signals do not drift, and late ones are compressed into one.\<close>

theorem realitexpire_no_drift:
  assumes "tv_norm (time k)" "tv_sec (time k) < 2000000000" "it = p_realtimer k p"
    "tv_norm (it_value it)" "0 \<le> tv_sec (it_value it)" "tv_sec (it_value it) \<le> tv_sec (time k)"
    "tv_norm (it_interval it)" "timerisset (it_interval it)" "0 \<le> tv_sec (it_interval it)"
    "tv_sec (it_interval it) \<le> 100000000"
    "callq_ok (callq k)" "callfree (callq k) \<noteq> []" "1000 \<le> tick k" "0 < hz k"
  shows "\<exists>k' v n. realitexpire p k = Some k' \<and> p_realtimer k' p = it\<lparr>it_value := v\<rparr> \<and>
     1 \<le> n \<and> usecs v = usecs (it_value it) + int n * usecs (it_interval it) \<and> usecs (time k) < usecs v \<and>
     (n = 1 \<or> usecs v \<le> usecs (time k) + usecs (it_interval it)) \<and>
     posted k' = posted k @ [(p, SIGALRM)] \<and>
     ((Realitexpire, p), hzto (hz k) (tick k) (time k) v) \<in> set (pending (callq k'))"
proof -
  have pos: "0 < usecs (it_interval it)" using assms(7-9) by (auto simp: tv_norm_def usecs_def timerisset_def)
  obtain v n where r: "realit_next (time k) (it_interval it) (it_value it) = Some v" "tv_norm v" "1 \<le> n"
      "usecs v = usecs (it_value it) + int n * usecs (it_interval it)" "usecs (time k) < usecs v"
      "n = 1 \<or> usecs v \<le> usecs (time k) + usecs (it_interval it)" "0 \<le> tv_sec v"
    using realit_next_terminates [OF assms(1,7,4) pos assms(9,10,5,6,2)] by blast
  let ?t = "hzto (hz k) (tick k) (time k) v"
  have "0 \<le> tv_sec (time k)" using assms(5,6) by simp
  then have "0 \<le> ?t" using hzto_range(1) [OF r(2) assms(1) _ _ assms(13,14)] r(5) by simp
  then obtain q where q: "timeout Realitexpire p ?t (callq k) = Some q" "callq_ok q"
      "pending q = add_due ((Realitexpire, p), ?t) (pending (callq k))"
    using timeout_pending [OF assms(11) _ assms(12)] by blast
  have "realitexpire p k = Some (k\<lparr>posted := posted k @ [(p, SIGALRM)],
      p_realtimer := (p_realtimer k)(p := it\<lparr>it_value := v\<rparr>), callq := q\<rparr>)"
    using assms(3,8) r(1) q(1) by (simp add: realitexpire_def Let_def arm_def)
  moreover have "((Realitexpire, p), ?t) \<in> set (pending q)" using q(3) by (simp add: add_due_def)
  ultimately show ?thesis using r by (intro exI conjI) (assumption | simp)+
qed

theorem realitexpire_no_drift_witness:
  "\<exists>k' v n. realitexpire 3 clk_demo = Some k' \<and> p_realtimer k' 3 = (p_realtimer clk_demo 3)\<lparr>it_value := v\<rparr> \<and>
     1 \<le> n \<and> usecs v = 999000000 + int n * 500000 \<and> 1000995000 < usecs v \<and>
     (n = 1 \<or> usecs v \<le> 1000995000 + 500000) \<and> posted k' = [(3, SIGALRM)] \<and>
     ((Realitexpire, 3), hzto 100 10000 (time clk_demo) v) \<in> set (pending (callq k'))"
  using realitexpire_no_drift [of clk_demo "p_realtimer clk_demo 3" 3] callq_demo_ok
  by (simp add: clk_demo_defs)

text \<open>\<open>setitimer\<close> cannot turn the real timer off.  Every setting it accepts, the all-zero one
  included, leaves the timer armed with a nonzero interval: exactly one expiry is pending, at the
  computed number of ticks, because \<open>itimerfix\<close> rounds a zero up to one tick.\<close>

theorem setitimer_never_disarms:
  assumes "itimerfix (tick k) (it_value a) = Some v" "itimerfix (tick k) (it_interval a) = Some i"
    "callq_ok (callq k)" "distinct (map fst (pending (callq k)))"
    "callfree (untimeout Realitexpire (u_procp k) (callq k)) \<noteq> []"
    "tv_norm (time k)" "0 \<le> tv_sec (time k)" "tv_sec (time k) < 2000000000"
    "1000 \<le> tick k" "tick k < 1000000" "0 < hz k"
  shows "\<exists>k' v'. setitimer 0 (Some a) oitv k = Some k' \<and>
     p_realtimer k' (u_procp k) = \<lparr>it_interval = i, it_value = v'\<rparr> \<and>
     usecs v' = usecs (time k) + usecs v \<and> tick k \<le> usecs i \<and> tick k \<le> usecs v \<and>
     (\<forall>u. ((Realitexpire, u_procp k), u) \<in> set (pending (callq k')) \<longleftrightarrow> u = hzto (hz k) (tick k) (time k) v')"
proof -
  have fix_ok: "tv_norm w \<and> 0 \<le> tv_sec w \<and> tv_sec w \<le> 100000000 \<and> tick k \<le> usecs w"
    if "itimerfix (tick k) x = Some w" for x w
    using that assms(9,10) by (auto simp: itimerfix_def tv_norm_def usecs_def split: if_splits)
  have v: "tv_norm v" "0 \<le> tv_sec v" "tv_sec v \<le> 100000000" "tick k \<le> usecs v" using fix_ok [OF assms(1)] by auto
  have i: "tick k \<le> usecs i" using fix_ok [OF assms(2)] by auto
  have set: "timerisset v" using v(4) assms(9) by (auto simp: timerisset_def usecs_def)
  let ?v = "timevaladd v (time k)"
  have a: "tv_norm ?v" "usecs ?v = usecs v + usecs (time k)"
    using timevaladd_usecs [OF v(1) assms(6)] v(2,3) assms(7,8) by auto
  have h: "0 \<le> hzto (hz k) (tick k) (time k) ?v"
    using hzto_range(1) [OF a(1) assms(6,7) _ assms(9,11)] a(2) v(4) assms(9) by simp
  define k2 where "k2 = (case oitv of None \<Rightarrow> k\<lparr>u_error := None\<rparr> | Some ok \<Rightarrow> getitimer 0 ok (k\<lparr>u_error := None\<rparr>))"
  have k2: "tick k2 = tick k" "hz k2 = hz k" "time k2 = time k" "callq k2 = callq k" "u_procp k2 = u_procp k"
    by (simp_all add: k2_def getitimer_def Let_def split: option.split)
  have hz: "0 \<le> hzto (hz k2) (tick k2) (time k2) ?v" using h k2 by simp
  obtain q' where q: "arm (u_procp k) ?v (k2\<lparr>callq := untimeout Realitexpire (u_procp k) (callq k)\<rparr>) =
        Some (k2\<lparr>callq := q'\<rparr>)"
      "\<forall>u. ((Realitexpire, u_procp k), u) \<in> set (pending q') \<longleftrightarrow> u = hzto (hz k2) (tick k2) (time k2) ?v"
    using arm_rearm [OF assms(3-5) hz] by blast
  have "setitimer 0 (Some a) oitv k =
      Some (k2\<lparr>callq := q', p_realtimer := (p_realtimer k2)(u_procp k := \<lparr>it_interval = i, it_value = ?v\<rparr>)\<rparr>)"
    using assms(1,2) set q(1) k2 unfolding setitimer_def k2_def [symmetric]
    by (simp add: Let_def k2_def [symmetric])
  then show ?thesis using q(2) k2 a(2) i v(4) by auto
qed

theorem setitimer_never_disarms_witness:
  "\<exists>k' v'. setitimer 0 (Some \<lparr>it_interval = timerclear, it_value = timerclear\<rparr>) None clk_demo = Some k' \<and>
     p_realtimer k' 3 = \<lparr>it_interval = \<lparr>tv_sec = 0, tv_usec = 10000\<rparr>, it_value = v'\<rparr> \<and>
     usecs v' = 1000995000 + 10000 \<and>
     (\<forall>u. ((Realitexpire, 3), u) \<in> set (pending (callq k')) \<longleftrightarrow> u = hzto 100 10000 (time clk_demo) v')"
  using setitimer_never_disarms [of clk_demo "\<lparr>it_interval = timerclear, it_value = timerclear\<rparr>"
      "\<lparr>tv_sec = 0, tv_usec = 10000\<rparr>" "\<lparr>tv_sec = 0, tv_usec = 10000\<rparr>" None] callq_demo_ok callq_demo_pending
  by (simp add: clk_demo_defs itimerfix_def untimeout_def)

text \<open>\<open>hzto\<close> of a time that has not passed never overflows and lies between 0 and the largest int;
  within the 24 days it computes exactly, its ticks of \<open>tick / 1000\<close> milliseconds end less than a
  millisecond after the time and the next one ends after it.\<close>

theorem hzto_bounds:
  assumes "tv_norm tv" "tv_norm now" "0 \<le> tv_sec now" "usecs now \<le> usecs tv" "1000 \<le> tk" "0 < hv"
    "h = hzto hv tk now tv" "m = tk div 1000 * 1000"
  shows "0 \<le> h \<and> h \<le> 2147483647 \<and>
     (tv_sec tv - tv_sec now \<le> 2146483 \<longrightarrow>
        h * m \<le> usecs tv - usecs now + 999 \<and> usecs tv - usecs now < (h + 1) * m + 999)"
proof (intro conjI impI)
  show "0 \<le> h" "h \<le> 2147483647" using hzto_range [OF assms(1-6)] assms(7) by auto
next
  assume "tv_sec tv - tv_sec now \<le> 2146483"
  from hzto_near [OF assms(1-5) this, of hv] obtain ms where
    ms: "h = ms div (tk div 1000)" "ms * 1000 \<le> usecs tv - usecs now + 999" "usecs tv - usecs now - 999 \<le> ms * 1000"
    using assms(7) by blast
  have t: "0 < tk div 1000" using assms(5) by simp
  have lo: "h * (tk div 1000) \<le> ms" using div_near [OF t, of ms] ms(1) by simp
  have "ms - (tk div 1000 - 1) \<le> h * (tk div 1000)" using div_near [OF t, of ms] ms(1) by simp
  then have hi: "ms < (h + 1) * (tk div 1000)" by (simp add: algebra_simps)
  have "h * (tk div 1000) * 1000 \<le> ms * 1000" using lo by simp
  then show "h * m \<le> usecs tv - usecs now + 999" using ms(2) assms(8) by simp
  have "ms * 1000 + 1000 \<le> (h + 1) * (tk div 1000) * 1000" using hi by simp
  then have "ms * 1000 + 1000 \<le> (h + 1) * m" using assms(8) by (simp add: algebra_simps)
  then show "usecs tv - usecs now < (h + 1) * m + 999" using ms(3) by linarith
qed

theorem hzto_bounds_witness:
  "hzto 60 16666 \<lparr>tv_sec = 10, tv_usec = 900000\<rparr> \<lparr>tv_sec = 12, tv_usec = 100000\<rparr> = 75 \<and>
   75 * 16000 \<le> (1200000 :: int) + 999 \<and> (1200000 :: int) < (75 + 1) * 16000 + 999"
  using hzto_bounds [of "\<lparr>tv_sec = 12, tv_usec = 100000\<rparr>" "\<lparr>tv_sec = 10, tv_usec = 900000\<rparr>" 16666 60 75 16000]
  by (simp add: tv_norm_def usecs_def hzto_def c_div_def s32_def Let_def)

text \<open>the old alarm system call lets a process put off every timeout of the kernel: with a negative
  argument of \<open>-d\<close> seconds, and nothing overdue, all pending calls are delayed by as many ticks.\<close>

theorem oalarm_delays_others:
  assumes "0 < d" "d < 2000000" "0 \<le> tv_sec (time k)" "tv_norm (time k)" "1000 \<le> tick k" "tick k < 1000000"
    "\<forall>c \<in> set (calltodo (callq k)). 0 < c_time c" "callq_ok (callq k)"
    "callfree (untimeout Realitexpire (u_procp k) (callq k)) \<noteq> []"
    "n = d * 1000 div (tick k div 1000)"
  shows "0 < n \<and> (\<exists>k'. oalarm (- d) k = Some k' \<and>
     pending (callq k') = ((Realitexpire, u_procp k), - n) #
       map (\<lambda>x. (fst x, snd x + n)) (del_due (Realitexpire, u_procp k) (pending (callq k))))"
proof -
  let ?q = "untimeout Realitexpire (u_procp k) (callq k)"
  let ?v = "(time k)\<lparr>tv_sec := tv_sec (time k) - d\<rparr>"
  have t: "0 < tick k div 1000" using assms(5) by simp
  have hz: "hzto (hz k) (tick k) (time k) ?v = - n"
    using assms(1-5,10) by (simp add: hzto_def Let_def cint tv_norm_def c_div_pos c_div_neg)
  have "tick k div 1000 * 1 \<le> d * 1000" using assms(1,6) by linarith
  then have "1 \<le> d * 1000 div (tick k div 1000)" using t by (simp add: pos_imp_zdiv_pos_iff int_one_le_iff_zero_less)
  then have n: "0 < n" using assms(10) by simp
  have pos: "\<forall>c \<in> set (calltodo ?q). 0 < c_time c"
    using assms(7) untimeout_pos [of "calltodo (callq k)" Realitexpire "u_procp k"]
    by (auto simp: untimeout_def split: prod.split option.split)
  obtain q' where q: "timeout Realitexpire (u_procp k) (- n) ?q = Some q'"
      "pending q' = ((Realitexpire, u_procp k), - n) # map (\<lambda>x. (fst x, snd x - - n)) (pending ?q)"
    using timeout_negative [OF _ assms(9) pos, of "- n" Realitexpire "u_procp k"] n by auto
  have "s32 (tv_sec (time k) + - d) = tv_sec (time k) - d" using assms(1-4) by (simp add: cint tv_norm_def)
  then have "\<exists>k'. oalarm (- d) k = Some k' \<and> callq k' = q'"
    using q(1) hz assms(1) by (simp add: oalarm_def Let_def arm_def)
  then show ?thesis using q(2) n untimeout_pending(2) [OF assms(8)] by auto
qed

theorem oalarm_delays_others_witness:
  "\<exists>k'. oalarm (- 3) (clk_demo\<lparr>callq := (callq_tick callq_demo)\<lparr>calltodo :=
          [\<lparr>c_time = 1, c_arg = 8, c_func = Cfunc 1\<rparr>]\<rparr>\<rparr>) = Some k' \<and>
     pending (callq k') = [((Realitexpire, 3), -300), ((Cfunc 1, 8), 301)]"
  using oalarm_delays_others [of 3 "clk_demo\<lparr>callq := (callq_tick callq_demo)\<lparr>calltodo :=
          [\<lparr>c_time = 1, c_arg = 8, c_func = Cfunc 1\<rparr>]\<rparr>\<rparr>" 300]
  by (simp add: clk_demo_defs callq_tick_def callq_ok_def pending_def untimeout_def)

text \<open>C35: one clock interrupt advances the time of day by exactly a tick, brings every pending timeout one
  tick nearer, charges a tick of cpu time to the user or the system side of the current process, or to
  neither when none runs, and counts in exactly one of the four cpu states.\<close>

theorem hardclock_accounts:
  assumes "callq_ok (callq k)" "tv_norm (time k)" "tv_sec (time k) < 2147483647" "0 \<le> tick k" "tick k < 1000000"
    "tv_norm (ru_utime (u_ru k))" "tv_sec (ru_utime (u_ru k)) < 2147483647"
    "tv_norm (ru_stime (u_ru k))" "tv_sec (ru_stime (u_ru k)) < 2147483647"
  shows "usecs (time (hardclock um bp k)) = usecs (time k) + tick k \<and>
     pending (callq (hardclock um bp k)) = map (\<lambda>x. (fst x, snd x - 1)) (pending (callq k)) \<and>
     usecs (ru_utime (u_ru (hardclock um bp k))) + usecs (ru_stime (u_ru (hardclock um bp k))) =
       usecs (ru_utime (u_ru k)) + usecs (ru_stime (u_ru k)) + (if um \<or> \<not> noproc k then tick k else 0) \<and>
     (\<exists>s < 4. cp_time (hardclock um bp k) = (cp_time k)(s := cp_time k s + 1))"
proof (intro conjI)
  show "usecs (time (hardclock um bp k)) = usecs (time k) + tick k"
    unfolding hardclock_time by (rule bumptime_usecs(2) [OF assms(2,4,5,3)])
  show "pending (callq (hardclock um bp k)) = map (\<lambda>x. (fst x, snd x - 1)) (pending (callq k))"
    unfolding hardclock_callq by (rule callq_tick_pending(2) [OF assms(1)])
  show "usecs (ru_utime (u_ru (hardclock um bp k))) + usecs (ru_stime (u_ru (hardclock um bp k))) =
       usecs (ru_utime (u_ru k)) + usecs (ru_stime (u_ru k)) + (if um \<or> \<not> noproc k then tick k else 0)"
    unfolding hardclock_ru using bumptime_usecs(2) [OF assms(6,4,5,7)] bumptime_usecs(2) [OF assms(8,4,5,9)] by simp
  show "\<exists>s < 4. cp_time (hardclock um bp k) = (cp_time k)(s := cp_time k s + 1)"
    unfolding hardclock_cp Let_def by (rule exI, rule conjI [OF _ refl]) simp
qed

theorem hardclock_accounts_witness:
  "usecs (time (hardclock True True clk_demo)) = 1000995000 + 10000 \<and>
     pending (callq (hardclock True True clk_demo)) = [((Cfunc 0, 7), -2), ((Cfunc 1, 8), 3), ((Cfunc 1, 9), 6)]"
  using hardclock_accounts [of clk_demo True True] callq_demo_ok callq_demo_pending
  by (simp add: clk_demo_defs)

end
