(* ===== verification/Mbuf.thy ===== *)
theory Mbuf
  imports Resource_Map
begin

text \<open>
  The network buffers of sys/sys/uipc_mbuf.c and the macros of sys/h/mbuf.h.  A chain linked by
  \<open>m_next\<close> is the list of its mbufs and NULL is the empty list; the free list is a list too, so an mbuf
  taken from it still holds its old bytes.  \<open>m_act\<close> is 0 or, as the mark a socket buffer puts at the end
  of a record, 1.  \<open>m_off\<close> either lies inside the mbuf or reaches into a
  cluster, which the code tells apart by comparing it with \<open>MSIZE\<close> or \<open>MMAXOFF\<close>: the constructors
  \<open>Moff\<close> and \<open>Mcl\<close>.  Clusters can be shared, so their bytes and reference counts are in the pool.
\<close>

section \<open>The code\<close>

definition MLEN :: int where "MLEN = 112"
definition MMINOFF :: int where "MMINOFF = 12"
definition MMAXOFF :: int where "MMAXOFF = 124"
definition CLBYTES :: int where "CLBYTES = 1024"
definition M_COPYALL :: int where "M_COPYALL = 1000000000"

datatype moff = Moff int | Mcl nat int

record mbuf =
  m_off :: moff
  m_len :: int
  m_type :: nat
  m_dat :: "byte list"
  m_act :: nat

record mpool =
  mfree :: "mbuf list"
  mclfree :: "nat list"
  mclrefcnt :: "nat \<Rightarrow> 8 word"
  cl_dat :: "nat \<Rightarrow> byte list"
  mbmap :: rmap
  vm_free :: int
  m_mbufs :: int
  m_mbfree :: int
  m_clusters :: int
  m_clfree :: int
  m_drops :: int
  m_mtypes :: "nat \<Rightarrow> int"

text \<open>\<open>m_off += n\<close>, and the tests of the macros on where the data is.\<close>

fun moff_add :: "moff \<Rightarrow> int \<Rightarrow> moff" where
  "moff_add (Moff d) n = Moff (d + n)"
| "moff_add (Mcl c d) n = Mcl c (d + n)"

fun moff_ge :: "moff \<Rightarrow> int \<Rightarrow> bool" where
  "moff_ge (Moff d) x = (d \<ge> x)"
| "moff_ge (Mcl c d) x = True"

text \<open>The bytes at \<open>mtod(m)\<close>, and \<open>bcopy\<close> to a position of an mbuf's own storage.\<close>

fun mbytes_at :: "(nat \<Rightarrow> byte list) \<Rightarrow> mbuf \<Rightarrow> moff \<Rightarrow> byte list" where
  "mbytes_at cl m (Moff d) = drop (nat (d - MMINOFF)) (m_dat m)"
| "mbytes_at cl m (Mcl c d) = drop (nat d) (cl c)"

definition mbytes :: "(nat \<Rightarrow> byte list) \<Rightarrow> mbuf \<Rightarrow> byte list" where
  "mbytes cl m = take (nat (m_len m)) (mbytes_at cl m (m_off m))"

definition bcopy_in :: "byte list \<Rightarrow> nat \<Rightarrow> byte list \<Rightarrow> byte list" where
  "bcopy_in bs pos d = take pos d @ bs @ drop (pos + length bs) d"

text \<open>\<open>MFREE\<close>: \<open>None\<close> is the panic for an mbuf that is already free.\<close>

definition cl_unref :: "nat \<Rightarrow> mpool \<Rightarrow> mpool" where
  "cl_unref c p =
     (let r = mclrefcnt p c - 1;
          p' = p\<lparr>mclrefcnt := (mclrefcnt p)(c := r)\<rparr>
      in if r = 0 then p'\<lparr>mclfree := c # mclfree p', m_clfree := s16 (m_clfree p' + 1)\<rparr> else p')"

definition MFREE :: "mbuf \<Rightarrow> mpool \<Rightarrow> mpool option" where
  "MFREE m p =
     (if m_type m = 0 then None
      else
        let p1 = p\<lparr>m_mtypes := (m_mtypes p)(m_type m := s16 (m_mtypes p (m_type m) - 1))\<rparr>;
            p2 = (case m_off m of Mcl c _ \<Rightarrow> cl_unref c p1 | Moff _ \<Rightarrow> p1)
        in Some (p2\<lparr>mfree := m\<lparr>m_type := 0, m_off := Moff 0, m_act := 0\<rparr> # mfree p2,
                    m_mbfree := s16 (m_mbfree p2 + 1)\<rparr>))"

fun m_freem :: "mbuf list \<Rightarrow> mpool \<Rightarrow> mpool option" where
  "m_freem [] p = Some p"
| "m_freem (m # n) p = Option.bind (MFREE m p) (m_freem n)"

text \<open>\<open>m_free\<close>: the mbuf is freed and its successors returned.\<close>

definition m_free :: "mbuf list \<Rightarrow> mpool \<Rightarrow> (mbuf list \<times> mpool) option" where
  "m_free ms p = (case ms of [] \<Rightarrow> None | m # n \<Rightarrow> map_option (\<lambda>p'. (n, p')) (MFREE m p))"

text \<open>\<open>MCLGET\<close>: a cluster from the free list, NULL when there is none.\<close>

definition MCLGET :: "mpool \<Rightarrow> nat option \<times> mpool" where
  "MCLGET p =
     (case mclfree p of
        [] \<Rightarrow> (None, p)
      | c # cs \<Rightarrow> (Some c, p\<lparr>mclrefcnt := (mclrefcnt p)(c := mclrefcnt p c + 1),
                             m_clfree := s16 (m_clfree p - 1), mclfree := cs\<rparr>))"

text \<open>
  \<open>memall\<close> of sys/sys/vm_mem.c as far as this component sees it: it panics on half a cluster, fails
  when memory is short, and takes the pages otherwise.
\<close>

definition memall :: "int \<Rightarrow> mpool \<Rightarrow> (bool \<times> mpool) option" where
  "memall sz p =
     (if c_mod sz CLSIZE \<noteq> 0 then None
      else if sz > vm_free p then Some (False, p)
      else Some (True, p\<lparr>vm_free := vm_free p - sz\<rparr>))"

text \<open>The loops of \<open>m_clalloc\<close>: new clusters, and new mbufs, of zeroed memory here.\<close>

fun add_clusters :: "nat \<Rightarrow> nat \<Rightarrow> mpool \<Rightarrow> mpool" where
  "add_clusters 0 c p = p"
| "add_clusters (Suc i) c p =
     add_clusters i (Suc c) (p\<lparr>mclfree := c # mclfree p, m_clfree := s16 (m_clfree p + 1)\<rparr>)"

fun add_mbufs :: "nat \<Rightarrow> mpool \<Rightarrow> mpool option" where
  "add_mbufs 0 p = Some p"
| "add_mbufs (Suc i) p =
     Option.bind (MFREE \<lparr>m_off = Moff 0, m_len = 0, m_type = 1, m_dat = replicate 112 0, m_act = 0\<rparr>
            (p\<lparr>m_mtypes := (m_mtypes p)(1 := s16 (m_mtypes p 1 + 1)), m_mbufs := s16 (m_mbufs p + 1)\<rparr>))
       (add_mbufs i)"

datatype mpg = MPG_MBUFS | MPG_CLUSTERS | MPG_SPACE

definition m_clalloc :: "int \<Rightarrow> mpg \<Rightarrow> mpool \<Rightarrow> (bool \<times> mpool) option" where
  "m_clalloc ncl how p =
     (let npg = ncl * CLSIZE
      in Option.bind (rmalloc (mbmap p) npg) (\<lambda>(mbx, mp).
         let p1 = p\<lparr>mbmap := mp\<rparr>
         in if mbx = 0 then Some (False, p1)
            else Option.bind (memall npg p1) (\<lambda>(ok, p2).
              if \<not> ok then map_option (\<lambda>mp'. (False, p2\<lparr>mbmap := mp'\<rparr>)) (rmfree (mbmap p2) npg mbx)
              else case how of
                MPG_CLUSTERS \<Rightarrow>
                  let p3 = add_clusters (nat ncl) (nat (c_div mbx CLSIZE)) p2
                  in Some (True, p3\<lparr>m_clusters := s16 (m_clusters p3 + ncl)\<rparr>)
              | MPG_MBUFS \<Rightarrow>
                  map_option (\<lambda>p3. (True, p3)) (add_mbufs (nat (c_div (ncl * CLBYTES) 128)) p2)
              | MPG_SPACE \<Rightarrow> Some (True, p2))))"

definition mbinit :: "mpool \<Rightarrow> mpool option" where
  "mbinit p =
     Option.bind (m_clalloc (c_div 4096 CLBYTES) MPG_MBUFS p) (\<lambda>(ok, p1).
     if \<not> ok then None
     else Option.bind (m_clalloc (c_div (8 * 4096) CLBYTES) MPG_CLUSTERS p1) (\<lambda>(ok, p2).
     if \<not> ok then None else Some p2))"

definition m_expand :: "mpool \<Rightarrow> (bool \<times> mpool) option" where
  "m_expand p = m_clalloc 1 MPG_MBUFS p"

text \<open>\<open>MGET\<close>: the branch on a free mbuf, \<open>m_more\<close>, and the macro.  NULL is \<open>None\<close> inside.\<close>

definition mget_free :: "nat \<Rightarrow> mpool \<Rightarrow> (mbuf option \<times> mpool) option" where
  "mget_free t p =
     (case mfree p of
        [] \<Rightarrow> None
      | m # ms \<Rightarrow>
          if m_type m \<noteq> 0 then None
          else Some (Some (m\<lparr>m_type := t, m_off := Moff MMINOFF\<rparr>),
                     p\<lparr>m_mbfree := s16 (m_mbfree p - 1),
                       m_mtypes := (m_mtypes p)(t := s16 (m_mtypes p t + 1)), mfree := ms\<rparr>))"

definition m_more :: "nat \<Rightarrow> mpool \<Rightarrow> (mbuf option \<times> mpool) option" where
  "m_more t p =
     Option.bind (m_expand p) (\<lambda>(ok, p1).
     if \<not> ok then Some (None, p1\<lparr>m_drops := s16 (m_drops p1 + 1)\<rparr>) else mget_free t p1)"

definition m_get :: "nat \<Rightarrow> mpool \<Rightarrow> (mbuf option \<times> mpool) option" where
  "m_get t p = (if mfree p \<noteq> [] then mget_free t p else m_more t p)"

definition m_getclr :: "nat \<Rightarrow> mpool \<Rightarrow> (mbuf option \<times> mpool) option" where
  "m_getclr t p =
     map_option (\<lambda>(m, p'). (map_option (\<lambda>m. m\<lparr>m_dat := replicate 112 0\<rparr>) m, p')) (m_get t p)"

text \<open>\<open>m_copy\<close>: skipping to the offset, then the loop; \<open>cp\<close> is the copy so far.\<close>

fun m_skip :: "int \<Rightarrow> mbuf list \<Rightarrow> (int \<times> mbuf list) option" where
  "m_skip off [] = (if off > 0 then None else Some (off, []))"
| "m_skip off (m # ms) =
     (if off > 0 then (if off < m_len m then Some (off, m # ms) else m_skip (off - m_len m) ms)
      else Some (off, m # ms))"

fun m_copy_loop :: "mbuf list \<Rightarrow> int \<Rightarrow> int \<Rightarrow> nat \<Rightarrow> mbuf list \<Rightarrow> mpool \<Rightarrow> (mbuf list \<times> mpool) option" where
  "m_copy_loop [] off len t cp p =
     (if len > 0 \<and> len \<noteq> M_COPYALL then None else Some (cp, p))"
| "m_copy_loop (m # ms) off len t cp p =
     (if len > 0 then
        Option.bind (m_get t p) (\<lambda>(n, p1).
        case n of
          None \<Rightarrow> map_option (\<lambda>p2. ([], p2)) (m_freem cp p1)
        | Some n \<Rightarrow>
            let k = s16 (min len (m_len m - off));
                (n', p2) =
                  (case m_off m of
                     Mcl c d \<Rightarrow> (n\<lparr>m_len := k, m_off := Mcl c (d + off)\<rparr>,
                                  p1\<lparr>mclrefcnt := (mclrefcnt p1)(c := mclrefcnt p1 c + 1)\<rparr>)
                   | Moff d \<Rightarrow> (n\<lparr>m_len := k, m_dat := bcopy_in (take (nat k) (mbytes_at (cl_dat p1) m (Moff (d + off))))
                                                          0 (m_dat n)\<rparr>, p1))
            in m_copy_loop ms 0 (if len \<noteq> M_COPYALL then len - k else len) t (cp @ [n']) p2)
      else Some (cp, p))"

definition m_copy :: "mbuf list \<Rightarrow> int \<Rightarrow> int \<Rightarrow> mpool \<Rightarrow> (mbuf list \<times> mpool) option" where
  "m_copy ms off len p =
     (if len = 0 then Some ([], p)
      else if off < 0 \<or> len < 0 then None
      else case ms of
        [] \<Rightarrow> None
      | m # _ \<Rightarrow>
          Option.bind (m_skip off ms) (\<lambda>(off', ms'). m_copy_loop ms' off' len (m_type m) [] p))"

text \<open>\<open>m_cat\<close>: the walk to the last mbuf is \<open>butlast\<close> and \<open>last\<close>.\<close>

fun m_cat_loop :: "mbuf \<Rightarrow> mbuf list \<Rightarrow> mpool \<Rightarrow> (mbuf list \<times> mpool) option" where
  "m_cat_loop m [] p = Some ([m], p)"
| "m_cat_loop m (n # ns) p =
     (if moff_ge (m_off m) MMAXOFF \<or> (case m_off m of Moff d \<Rightarrow> d + m_len m + m_len n > MMAXOFF | Mcl c d \<Rightarrow> True)
      then Some (m # n # ns, p)
      else
        let pos = (case m_off m of Moff d \<Rightarrow> nat (d - MMINOFF + m_len m) | Mcl c d \<Rightarrow> 0);
            m' = m\<lparr>m_dat := bcopy_in (mbytes (cl_dat p) n) pos (m_dat m), m_len := s16 (m_len m + m_len n)\<rparr>
        in Option.bind (MFREE n p) (m_cat_loop m' ns))"

definition m_cat :: "mbuf list \<Rightarrow> mbuf list \<Rightarrow> mpool \<Rightarrow> (mbuf list \<times> mpool) option" where
  "m_cat ms ns p =
     (if ms = [] then None
      else map_option (\<lambda>(r, p'). (butlast ms @ r, p')) (m_cat_loop (last ms) ns p))"

text \<open>\<open>m_adj\<close>, trimming at the head and at the tail.\<close>

fun m_adj_head :: "int \<Rightarrow> mbuf list \<Rightarrow> mbuf list" where
  "m_adj_head len [] = []"
| "m_adj_head len (m # ms) =
     (if len > 0 then
        (if m_len m \<le> len then m\<lparr>m_len := 0\<rparr> # m_adj_head (len - m_len m) ms
         else m\<lparr>m_len := m_len m - len, m_off := moff_add (m_off m) len\<rparr> # ms)
      else m # ms)"

text \<open>
  The inner loop of the other branch stops at the first empty mbuf; \<open>k\<close> counts the mbufs before it.
\<close>

function m_adj_tail :: "int \<Rightarrow> mbuf list \<Rightarrow> mbuf list" where
  "m_adj_tail len ms =
     (let k = length (takeWhile (\<lambda>m. m_len m \<noteq> 0) ms)
      in if len > 0 \<and> k > 0 then
           let n = ms ! (k - 1)
           in if m_len n \<le> len then m_adj_tail (len - m_len n) (ms[k - 1 := n\<lparr>m_len := 0\<rparr>])
              else ms[k - 1 := n\<lparr>m_len := m_len n - len\<rparr>]
         else ms)"
  by pat_completeness auto

lemma takeWhile_update:
  "k < length (takeWhile P xs) \<Longrightarrow> \<not> P y \<Longrightarrow> takeWhile P (xs[k := y]) = take k xs"
proof (induction xs arbitrary: k)
  case (Cons x xs)
  then show ?case by (cases k) (auto split: if_splits)
qed simp

termination m_adj_tail
proof (relation "measure (\<lambda>(len, ms). length (takeWhile (\<lambda>m. m_len m \<noteq> 0) ms))", goal_cases)
  case (2 len ms x xa)
  then have "takeWhile (\<lambda>m. m_len m \<noteq> 0) (ms[x - 1 := xa\<lparr>m_len := 0\<rparr>]) = take (x - 1) ms"
    by (intro takeWhile_update) auto
  with 2 show ?case by (auto simp: min_less_iff_disj)
qed simp

declare m_adj_tail.simps [simp del]

definition m_adj :: "mbuf list \<Rightarrow> int \<Rightarrow> mbuf list" where
  "m_adj mp len =
     (if mp = [] then [] else if len \<ge> 0 then m_adj_head len mp else m_adj_tail (- len) mp)"

text \<open>\<open>m_pullup\<close>: the loop gathers into the new mbuf \<open>m\<close>; then the count still missing.\<close>

fun m_pullup_loop :: "mbuf \<Rightarrow> mbuf list \<Rightarrow> int \<Rightarrow> mpool \<Rightarrow> (mbuf \<times> mbuf list \<times> int \<times> mpool) option" where
  "m_pullup_loop m [] len p = Some (m, [], len, p)"
| "m_pullup_loop m (n # ns) len p =
     (let c0 = min (MLEN - m_len m) len;
          count = (if c0 > m_len n then m_len n else c0);
          m' = m\<lparr>m_dat := bcopy_in (take (nat count) (mbytes_at (cl_dat p) n (m_off n))) (nat (m_len m)) (m_dat m),
                 m_len := s16 (m_len m + count)\<rparr>;
          n' = n\<lparr>m_len := s16 (m_len n - count), m_off := moff_add (m_off n) count\<rparr>
      in if m_len n' \<noteq> 0 then Some (m', n' # ns, len - count, p)
         else Option.bind (MFREE n' p) (m_pullup_loop m' ns (len - count)))"

definition m_pullup :: "mbuf list \<Rightarrow> int \<Rightarrow> mpool \<Rightarrow> (mbuf list \<times> mpool) option" where
  "m_pullup ms len p =
     (let bad = (\<lambda>n p. map_option (\<lambda>p'. ([], p')) (m_freem n p))
      in if len > MLEN then bad ms p
         else case ms of
           [] \<Rightarrow> None
         | n # _ \<Rightarrow>
             Option.bind (m_get (m_type n) p) (\<lambda>(mo, p1).
             case mo of
               None \<Rightarrow> bad ms p1
             | Some m \<Rightarrow>
                 Option.bind (m_pullup_loop (m\<lparr>m_len := 0\<rparr>) ms len p1) (\<lambda>(m', ns, left, p2).
                 if left \<noteq> 0 then Option.bind (MFREE m' p2) (bad ns)
                 else Some (m' # ns, p2))))"

section \<open>The bytes of a chain\<close>

definition mb_ok :: "(nat \<Rightarrow> byte list) \<Rightarrow> mbuf \<Rightarrow> bool" where
  "mb_ok cl m \<longleftrightarrow> 0 \<le> m_len m \<and> length (m_dat m) = 112 \<and> m_type m \<noteq> 0 \<and>
     (case m_off m of
        Moff d \<Rightarrow> 12 \<le> d \<and> d + m_len m \<le> 124
      | Mcl c d \<Rightarrow> 0 \<le> d \<and> d + m_len m \<le> 1024 \<and> length (cl c) = 1024)"

definition chain_data :: "(nat \<Rightarrow> byte list) \<Rightarrow> mbuf list \<Rightarrow> byte list" where
  "chain_data cl ms = concat (map (mbytes cl) ms)"

lemmas mconst = MLEN_def MMINOFF_def MMAXOFF_def CLBYTES_def

lemma chain_data_simps [simp]:
  "chain_data cl [] = []" "chain_data cl (m # ms) = mbytes cl m @ chain_data cl ms"
  "chain_data cl (xs @ ys) = chain_data cl xs @ chain_data cl ys"
  by (simp_all add: chain_data_def)

lemma mb_ok_len: "mb_ok cl m \<Longrightarrow> 0 \<le> m_len m \<and> m_len m \<le> 1024"
  by (auto simp: mb_ok_def split: moff.splits)

lemma mbytes_len [simp]: "mb_ok cl m \<Longrightarrow> length (mbytes cl m) = nat (m_len m)"
  by (cases "m_off m") (auto simp: mb_ok_def mbytes_def mconst)

lemma mbytes_empty: "m_len m \<le> 0 \<Longrightarrow> mbytes cl m = []"
  by (simp add: mbytes_def)

lemma mbytes_skip:
  assumes "mb_ok cl m" "0 \<le> k" "k \<le> m_len m"
  shows "mbytes cl (m\<lparr>m_len := m_len m - k, m_off := moff_add (m_off m) k\<rparr>) = drop (nat k) (mbytes cl m)"
    and "mb_ok cl (m\<lparr>m_len := m_len m - k, m_off := moff_add (m_off m) k\<rparr>)"
proof -
  show "mb_ok cl (m\<lparr>m_len := m_len m - k, m_off := moff_add (m_off m) k\<rparr>)"
    using assms by (cases "m_off m") (auto simp: mb_ok_def)
  have e: "nat (m_len m - k) = nat (m_len m) - nat k" using assms by simp
  show "mbytes cl (m\<lparr>m_len := m_len m - k, m_off := moff_add (m_off m) k\<rparr>) = drop (nat k) (mbytes cl m)"
  proof (cases "m_off m")
    case (Moff d)
    then have "nat (d + k - 12) = nat (d - 12) + nat k" using assms by (auto simp: mb_ok_def)
    with Moff show ?thesis by (simp add: mbytes_def mconst drop_take e add.commute)
  next
    case (Mcl c d)
    then have "nat (d + k) = nat d + nat k" using assms by (auto simp: mb_ok_def)
    with Mcl show ?thesis by (simp add: mbytes_def drop_take e add.commute)
  qed
qed

lemma mbytes_cut:
  assumes "mb_ok cl m" "0 \<le> k" "k \<le> m_len m"
  shows "mbytes cl (m\<lparr>m_len := k\<rparr>) = take (nat k) (mbytes cl m)" "mb_ok cl (m\<lparr>m_len := k\<rparr>)"
  using assms by (auto simp: mbytes_def mb_ok_def min_def split: moff.splits)

lemma bcopy_in_length [simp]: "pos + length bs \<le> length d \<Longrightarrow> length (bcopy_in bs pos d) = length d"
  by (simp add: bcopy_in_def)

lemma bcopy_in_take: "pos + length bs \<le> length d \<Longrightarrow>
    take (pos + length bs) (bcopy_in bs pos d) = take pos d @ bs"
  by (simp add: bcopy_in_def)

text \<open>\<open>m_adj\<close>\<close>

lemma m_adj_head_data:
  "\<forall>m \<in> set ms. mb_ok cl m \<Longrightarrow> 0 \<le> len \<Longrightarrow> chain_data cl (m_adj_head len ms) = drop (nat len) (chain_data cl ms)"
proof (induction ms arbitrary: len)
  case (Cons m ms)
  have ok: "mb_ok cl m" using Cons.prems by simp
  show ?case
  proof (cases "0 < len")
    case pos: True
    show ?thesis
    proof (cases "m_len m \<le> len")
      case True
      have "chain_data cl (m_adj_head (len - m_len m) ms) = drop (nat (len - m_len m)) (chain_data cl ms)"
        using Cons True by simp
      moreover have "nat (len - m_len m) = nat len - nat (m_len m)" using mb_ok_len [OF ok] True by (simp add: nat_diff_distrib)
      moreover have "nat (m_len m) \<le> nat len" using True by simp
      ultimately show ?thesis using True pos ok by (simp add: mbytes_empty)
    next
      case False
      then have "nat len \<le> length (mbytes cl m)" using ok by simp
      with False pos mbytes_skip(1) [OF ok, of len] show ?thesis by simp
    qed
  qed (use Cons.prems in simp)
qed simp

lemma chain_data_update:
  "k < length ms \<Longrightarrow> chain_data cl (ms[k := m]) = chain_data cl (take k ms) @ mbytes cl m @ chain_data cl (drop (Suc k) ms)"
  by (simp add: upd_conv_take_nth_drop)

lemma chain_data_split: "k < length ms \<Longrightarrow>
    chain_data cl ms = chain_data cl (take k ms) @ mbytes cl (ms ! k) @ chain_data cl (drop (Suc k) ms)"
  by (metis chain_data_simps(2,3) id_take_nth_drop)

lemma m_adj_tail_data:
  assumes "\<forall>m \<in> set ms. mb_ok cl m" "0 \<le> len"
  defines "D \<equiv> chain_data cl (takeWhile (\<lambda>m. m_len m \<noteq> 0) ms)"
  shows "chain_data cl (m_adj_tail len ms) =
           take (length D - nat len) D @ chain_data cl (dropWhile (\<lambda>m. m_len m \<noteq> 0) ms)"
  using assms(1,2) unfolding D_def
proof (induction len ms rule: m_adj_tail.induct)
  case (1 len ms)
  let ?P = "\<lambda>m. m_len m \<noteq> 0"
  let ?k = "length (takeWhile ?P ms)"
  show ?case
  proof (cases "len > 0 \<and> ?k > 0")
    case False
    have "chain_data cl ms = chain_data cl (takeWhile ?P ms) @ chain_data cl (dropWhile ?P ms)"
      by (metis chain_data_simps(3) takeWhile_dropWhile_id)
    with False 1(3) show ?thesis by (subst m_adj_tail.simps) (auto simp: Let_def)
  next
    case True
    define j where "j = ?k - 1"
    let ?n = "ms ! j"
    have k0: "0 < ?k" using True by simp
    then have j: "j < length ms" "Suc j = ?k" using length_takeWhile_le [of ?P ms] unfolding j_def by linarith+
    have n: "?n \<in> set ms" "mb_ok cl ?n" using j(1) 1(2) nth_mem [OF j(1)] by auto
    have tk: "takeWhile ?P ms = take j ms @ [?n]"
      using j by (metis takeWhile_eq_take take_Suc_conv_app_nth)
    have dw: "dropWhile ?P ms = drop (Suc j) ms" using j(2) by (metis dropWhile_eq_drop)
    have jl: "j < length (takeWhile ?P ms)" using j(2) by simp
    show ?thesis
    proof (cases "m_len ?n \<le> len")
      case le: True
      let ?ms = "ms[j := ?n\<lparr>m_len := 0\<rparr>]"
      have tw: "takeWhile ?P ?ms = take j ms" by (rule takeWhile_update [OF jl]) simp
      have "length (takeWhile ?P ?ms) = j" using tw j(1) by simp
      then have dwu: "dropWhile ?P ?ms = drop j ?ms" by (metis dropWhile_eq_drop)
      have du: "drop j ?ms = ?n\<lparr>m_len := 0\<rparr> # drop (Suc j) ms"
        using j(1) by (simp add: upd_conv_take_nth_drop)
      have okms: "\<forall>m \<in> set ?ms. mb_ok cl m"
      proof
        fix m assume "m \<in> set ?ms"
        then have "m = ?n\<lparr>m_len := 0\<rparr> \<or> m \<in> set ms" using set_update_subset_insert [of ms j] by blast
        then show "mb_ok cl m" using 1(2) mb_ok_len [OF n(2)] mbytes_cut(2) [OF n(2), of 0] by (elim disjE) simp_all
      qed
      have "chain_data cl (m_adj_tail len ms) = chain_data cl (m_adj_tail (len - m_len ?n) ?ms)"
        using True le by (subst m_adj_tail.simps) (simp add: Let_def j_def)
      also have "\<dots> = take (length (chain_data cl (take j ms)) - nat (len - m_len ?n)) (chain_data cl (take j ms)) @
          chain_data cl (drop (Suc j) ms)"
        using 1(1) [OF refl True refl, folded j_def, OF le okms] le tw dwu du by (simp add: mbytes_empty)
      also have "\<dots> = take (length (chain_data cl (takeWhile ?P ms)) - nat len) (chain_data cl (takeWhile ?P ms)) @
          chain_data cl (dropWhile ?P ms)"
      proof -
        have "nat (len - m_len ?n) = nat len - nat (m_len ?n)" "nat (m_len ?n) \<le> nat len"
          using le mb_ok_len [OF n(2)] by auto
        then show ?thesis using n(2) unfolding tk dw by simp
      qed
      finally show ?thesis .
    next
      case gt: False
      have u: "chain_data cl (m_adj_tail len ms) =
          chain_data cl (take j ms) @ mbytes cl (?n\<lparr>m_len := m_len ?n - len\<rparr>) @ chain_data cl (drop (Suc j) ms)"
        using True gt chain_data_update [OF j(1)] by (subst m_adj_tail.simps) (simp add: Let_def j_def)
      have "mbytes cl (?n\<lparr>m_len := m_len ?n - len\<rparr>) = take (nat (m_len ?n) - nat len) (mbytes cl ?n)"
        using mbytes_cut(1) [OF n(2), of "m_len ?n - len"] gt True by (simp add: nat_diff_distrib)
      then show ?thesis using u gt True n(2) unfolding tk dw by simp
    qed
  qed
qed

section \<open>The pool\<close>

definition pool_ok :: "mpool \<Rightarrow> bool" where
  "pool_ok p \<longleftrightarrow> (\<forall>m \<in> set (mfree p). m_type m = 0 \<and> length (m_dat m) = 112) \<and> rm_ok (mbmap p)"

text \<open>References from a chain to a cluster.\<close>

definition mref :: "nat \<Rightarrow> mbuf \<Rightarrow> nat" where
  "mref c m = (case m_off m of Mcl c' _ \<Rightarrow> (if c' = c then 1 else 0) | Moff _ \<Rightarrow> 0)"

definition refs :: "mbuf list \<Rightarrow> nat \<Rightarrow> nat" where
  "refs ms c = sum_list (map (mref c) ms)"

lemma refs_simps [simp]: "refs [] c = 0" "refs (m # ms) c = mref c m + refs ms c"
  "refs (xs @ ys) c = refs xs c + refs ys c"
  by (simp_all add: refs_def)

text \<open>What no operation on chains changes, apart from counts: the bytes of the clusters.\<close>

definition pool_step :: "mpool \<Rightarrow> mpool \<Rightarrow> bool" where
  "pool_step p p' \<longleftrightarrow> pool_ok p' \<and> cl_dat p' = cl_dat p"

lemma pool_step_refl: "pool_ok p \<Longrightarrow> pool_step p p"
  by (simp add: pool_step_def)

lemma pool_step_trans: "pool_step p p' \<Longrightarrow> pool_step p' p'' \<Longrightarrow> pool_step p p''"
  by (simp add: pool_step_def)

lemma MFREE_step:
  assumes "pool_ok p" "m_type m \<noteq> 0" "length (m_dat m) = 112"
  shows "\<exists>p'. MFREE m p = Some p' \<and> pool_step p p' \<and> mbmap p' = mbmap p \<and>
           length (mfree p') = Suc (length (mfree p)) \<and>
           (\<forall>c. mclrefcnt p' c = mclrefcnt p c - of_nat (mref c m))"
  using assms
  by (cases "m_off m") (auto simp: MFREE_def Let_def pool_step_def pool_ok_def cl_unref_def mref_def)

lemma m_freem_step:
  "pool_ok p \<Longrightarrow> \<forall>m \<in> set ms. m_type m \<noteq> 0 \<and> length (m_dat m) = 112 \<Longrightarrow>
   \<exists>p'. m_freem ms p = Some p' \<and> pool_step p p' \<and> mbmap p' = mbmap p \<and>
      length (mfree p') = length (mfree p) + length ms \<and>
      (\<forall>c. mclrefcnt p' c = mclrefcnt p c - of_nat (refs ms c))"
proof (induction ms arbitrary: p)
  case (Cons m ms)
  obtain p1 where p1: "MFREE m p = Some p1" "pool_step p p1" "mbmap p1 = mbmap p"
      "length (mfree p1) = Suc (length (mfree p))" "\<forall>c. mclrefcnt p1 c = mclrefcnt p c - of_nat (mref c m)"
    using MFREE_step [OF Cons.prems(1)] Cons.prems(2) by fastforce
  obtain p2 where p2: "m_freem ms p1 = Some p2" "pool_step p1 p2" "mbmap p2 = mbmap p1"
      "length (mfree p2) = length (mfree p1) + length ms"
      "\<forall>c. mclrefcnt p2 c = mclrefcnt p1 c - of_nat (refs ms c)"
    using Cons.IH [of p1] p1(2) Cons.prems(2) by (auto simp: pool_step_def)
  have "mclrefcnt p2 c = mclrefcnt p c - of_nat (refs (m # ms) c)" for c
    using p1(5) p2(5) by (simp add: diff_diff_eq)
  then show ?case using p1(1,3,4) p2(1,3,4) pool_step_trans [OF p1(2) p2(2)] by auto
qed (auto intro: pool_step_refl)

lemma mb_ok_freeable: "mb_ok cl m \<Longrightarrow> m_type m \<noteq> 0 \<and> length (m_dat m) = 112"
  by (simp add: mb_ok_def)

lemma add_mbufs_step:
  "pool_ok p \<Longrightarrow> \<exists>p'. add_mbufs i p = Some p' \<and> pool_step p p' \<and> mbmap p' = mbmap p \<and>
     mclrefcnt p' = mclrefcnt p \<and> length (mfree p') = length (mfree p) + i"
proof (induction i arbitrary: p)
  case (Suc i)
  let ?m = "\<lparr>m_off = Moff 0, m_len = 0, m_type = 1, m_dat = replicate 112 0, m_act = 0\<rparr> :: mbuf"
  let ?p = "p\<lparr>m_mtypes := (m_mtypes p)(1 := s16 (m_mtypes p 1 + 1)), m_mbufs := s16 (m_mbufs p + 1)\<rparr>"
  have "pool_ok ?p" using Suc.prems by (simp add: pool_ok_def)
  then obtain p1 where p1: "MFREE ?m ?p = Some p1" "pool_step ?p p1" "mbmap p1 = mbmap ?p"
      "length (mfree p1) = Suc (length (mfree ?p))" "\<forall>c. mclrefcnt p1 c = mclrefcnt ?p c - of_nat (mref c ?m)"
    using MFREE_step [of ?p ?m] by auto
  have rc: "mclrefcnt p1 = mclrefcnt p" using p1(5) by (simp add: mref_def fun_eq_iff)
  have ok: "pool_ok p1" "cl_dat p1 = cl_dat p" using p1(2) by (simp_all add: pool_step_def)
  obtain p2 where "add_mbufs i p1 = Some p2" "pool_step p1 p2" "mbmap p2 = mbmap p1"
      "mclrefcnt p2 = mclrefcnt p1" "length (mfree p2) = length (mfree p1) + i"
    using Suc.IH [OF ok(1)] by blast
  then show ?case using p1 rc ok by (auto simp: pool_step_def)
qed (auto intro: pool_step_refl)

text \<open>
  \<open>m_clalloc\<close> never panics on a sound map; when it fails, the map holds the same free pages as before.
\<close>

lemma m_clalloc_mbufs:
  assumes "pool_ok p" "0 < ncl"
  shows "\<exists>ok p'. m_clalloc ncl MPG_MBUFS p = Some (ok, p') \<and> pool_step p p' \<and> mclrefcnt p' = mclrefcnt p \<and>
     (if ok then length (mfree p') = length (mfree p) + nat (c_div (ncl * CLBYTES) 128)
      else mfree p' = mfree p \<and> rm_units (mbmap p') = rm_units (mbmap p))"
proof -
  have rok: "rm_ok (mbmap p)" using assms(1) by (simp add: pool_ok_def)
  have npg: "0 < ncl * CLSIZE" using assms(2) by (simp add: CLSIZE_def)
  obtain a mp where al: "rmalloc (mbmap p) (ncl * CLSIZE) = Some (a, mp)"
    using rm.alloc_total [OF rok npg] by blast
  have ok1: "rm_ok mp" by (rule rm.alloc_ok [OF rok npg al])
  let ?p1 = "p\<lparr>mbmap := mp\<rparr>"
  show ?thesis
  proof (cases "a = 0")
    case True
    then have "mp = mbmap p" using rm.alloc_fails [OF rok npg] al by simp
    then show ?thesis using al True assms(1) by (auto simp: m_clalloc_def Let_def intro: pool_step_refl)
  next
    case False
    have even: "c_mod (ncl * CLSIZE) CLSIZE = 0" using assms(2) by (simp add: CLSIZE_def c_mod_pos)
    show ?thesis
    proof (cases "ncl * CLSIZE > vm_free p")
      case True
      obtain mp' where gb: "rmfree mp (ncl * CLSIZE) a = Some mp'" "rm_ok mp'" "rm_units mp' = rm_units (mbmap p)"
        using rm.give_back [OF rok npg al False] by blast
      then show ?thesis using al False even True assms(1)
        by (auto simp: m_clalloc_def Let_def memall_def pool_step_def pool_ok_def)
    next
      case no: False
      let ?p2 = "?p1\<lparr>vm_free := vm_free p - ncl * CLSIZE\<rparr>"
      have "pool_ok ?p2" using assms(1) ok1 by (simp add: pool_ok_def)
      then obtain p' where "add_mbufs (nat (c_div (ncl * CLBYTES) 128)) ?p2 = Some p'" "pool_step ?p2 p'"
          "mclrefcnt p' = mclrefcnt p" "length (mfree p') = length (mfree p) + nat (c_div (ncl * CLBYTES) 128)"
        using add_mbufs_step [of ?p2 "nat (c_div (ncl * CLBYTES) 128)"] by auto
      then show ?thesis using al False even no
        by (auto simp: m_clalloc_def Let_def memall_def pool_step_def)
    qed
  qed
qed

lemma mget_free_step:
  assumes "pool_ok p" "mfree p \<noteq> []"
  shows "\<exists>m p'. mget_free t p = Some (Some m, p') \<and> pool_step p p' \<and> mclrefcnt p' = mclrefcnt p \<and>
     length (mfree p') = length (mfree p) - 1 \<and> m_type m = t \<and> m_off m = Moff 12 \<and> length (m_dat m) = 112"
  using assms by (cases "mfree p") (auto simp: mget_free_def pool_step_def pool_ok_def mconst)

lemma m_get_step:
  assumes "pool_ok p"
  shows "\<exists>r p'. m_get t p = Some (r, p') \<and> pool_step p p' \<and> mclrefcnt p' = mclrefcnt p \<and>
     (case r of None \<Rightarrow> mfree p = [] \<and> mfree p' = []
      | Some m \<Rightarrow> m_type m = t \<and> m_off m = Moff 12 \<and> length (m_dat m) = 112)"
proof (cases "mfree p = []")
  case False
  then show ?thesis using mget_free_step [OF assms False, of t] by (auto simp: m_get_def)
next
  case True
  obtain ok p1 where e: "m_expand p = Some (ok, p1)" "pool_step p p1" "mclrefcnt p1 = mclrefcnt p"
      "if ok then length (mfree p1) = length (mfree p) + nat (c_div (1 * CLBYTES) 128) else mfree p1 = mfree p"
    using m_clalloc_mbufs [OF assms, of 1] by (auto simp: m_expand_def split: if_splits)
  show ?thesis
  proof (cases ok)
    case False
    then show ?thesis using e True by (auto simp: m_get_def m_more_def pool_step_def pool_ok_def)
  next
    case ok: True
    have "nat (c_div (1 * CLBYTES) 128) = 8" by (simp add: CLBYTES_def c_div_pos)
    then have "mfree p1 \<noteq> []" using e(4) ok by auto
    moreover have "pool_ok p1" using e(2) by (simp add: pool_step_def)
    ultimately obtain m p' where "mget_free t p1 = Some (Some m, p')" "pool_step p1 p'"
        "mclrefcnt p' = mclrefcnt p1" "m_type m = t" "m_off m = Moff 12" "length (m_dat m) = 112"
      using mget_free_step by blast
    then show ?thesis using e True ok pool_step_trans [OF e(2)] by (auto simp: m_get_def m_more_def)
  qed
qed

section \<open>Copying, joining and gathering\<close>

text \<open>The mbuf one round of \<open>m_copy\<close> makes.\<close>

lemma copy_round_data:
  assumes "mb_ok cl m" "0 \<le> off" "off \<le> m_len m" "0 \<le> k" "k \<le> m_len m - off" "m_off m = Moff d"
    "m_off n = Moff 12" "length (m_dat n) = 112" "m_type n \<noteq> 0"
    "n' = n\<lparr>m_len := k, m_dat := bcopy_in (take (nat k) (mbytes_at cl m (Moff (d + off)))) 0 (m_dat n)\<rparr>"
  shows "mb_ok cl n'" "mbytes cl n' = take (nat k) (drop (nat off) (mbytes cl m))"
proof -
  let ?bs = "take (nat k) (mbytes_at cl m (Moff (d + off)))"
  have d: "12 \<le> d" "d + m_len m \<le> 124" "length (m_dat m) = 112" using assms(1,6) by (auto simp: mb_ok_def)
  have e: "nat (d + off - 12) = nat (d - 12) + nat off" using d assms(2) by simp
  have bs: "?bs = take (nat k) (drop (nat off) (mbytes cl m))"
    using assms(2-6) e by (simp add: mbytes_def mconst drop_take take_take min_def add.commute nat_le_eq_zle)
  have len: "length ?bs = nat k" using bs assms(1-5) by simp
  have le: "nat k \<le> 112" using d assms(2-5) by simp
  show "mb_ok cl n'" using assms(4,7-10) d len le assms(2,3,5) by (simp add: mb_ok_def)
  have "mbytes cl n' = take (nat k) (bcopy_in ?bs 0 (m_dat n))"
    using assms(7,10) by (simp add: mbytes_def mconst)
  also have "\<dots> = ?bs" using bcopy_in_take [of 0 ?bs "m_dat n"] len le assms(8) by simp
  finally show "mbytes cl n' = take (nat k) (drop (nat off) (mbytes cl m))" unfolding bs .
qed

lemma copy_round_shared:
  assumes "mb_ok cl m" "0 \<le> off" "off \<le> m_len m" "0 \<le> k" "k \<le> m_len m - off" "m_off m = Mcl c d"
    "length (m_dat n) = 112" "m_type n \<noteq> 0" "n' = n\<lparr>m_len := k, m_off := Mcl c (d + off)\<rparr>"
  shows "mb_ok cl n'" "mbytes cl n' = take (nat k) (drop (nat off) (mbytes cl m))"
proof -
  have d: "0 \<le> d" "d + m_len m \<le> 1024" "length (cl c) = 1024" using assms(1,6) by (auto simp: mb_ok_def)
  have e: "nat (d + off) = nat d + nat off" using d assms(2) by simp
  show "mb_ok cl n'" using assms d by (simp add: mb_ok_def)
  show "mbytes cl n' = take (nat k) (drop (nat off) (mbytes cl m))"
    using assms(2-6,9) e by (simp add: mbytes_def drop_take take_take min_def add.commute nat_le_eq_zle)
qed

lemma take_drop_app: "n \<le> length xs \<Longrightarrow> take k (drop n (xs @ ys)) =
    take (min k (length xs - n)) (drop n xs) @ take (k - (length xs - n)) ys"
  by (cases "k \<le> length xs - n") (simp_all add: min_def)

text \<open>
  \<open>D\<close> is what is left to copy.  A failure frees the copy made so far.
\<close>

lemma m_copy_loop_data:
  "pool_ok p \<Longrightarrow> \<forall>m \<in> set ms. mb_ok (cl_dat p) m \<Longrightarrow> \<forall>m \<in> set cp. mb_ok (cl_dat p) m \<Longrightarrow> t \<noteq> 0 \<Longrightarrow>
   0 \<le> off \<Longrightarrow> off = 0 \<or> (\<exists>m ms'. ms = m # ms' \<and> off \<le> m_len m) \<Longrightarrow> 0 \<le> len \<Longrightarrow>
   (if len = M_COPYALL then length (chain_data (cl_dat p) ms) \<le> nat M_COPYALL
    else len < M_COPYALL \<and> nat len \<le> length (drop (nat off) (chain_data (cl_dat p) ms))) \<Longrightarrow>
   \<exists>r p'. m_copy_loop ms off len t cp p = Some (r, p') \<and> pool_step p p' \<and>
     (r = [] \<and> mclrefcnt p' = (\<lambda>c. mclrefcnt p c - of_nat (refs cp c)) \<or>
      chain_data (cl_dat p) r = chain_data (cl_dat p) cp @ take (nat len) (drop (nat off) (chain_data (cl_dat p) ms)) \<and>
      (\<forall>m \<in> set r. mb_ok (cl_dat p) m) \<and>
      mclrefcnt p' = (\<lambda>c. mclrefcnt p c + of_nat (refs r c) - of_nat (refs cp c)))"
proof (induction ms arbitrary: off len cp p)
  case Nil
  then have len: "len > 0 \<Longrightarrow> len = M_COPYALL" by (auto split: if_splits)
  have "m_copy_loop [] off len t cp p = Some (cp, p)" using len by auto
  with Nil pool_step_refl [OF Nil(1)] show ?case by auto
next
  case (Cons m ms)
  let ?cl = "cl_dat p"
  have mok: "mb_ok ?cl m" using Cons.prems(2) by simp
  have off: "0 \<le> off" "off \<le> m_len m" using Cons.prems(5,6) mb_ok_len [OF mok] by auto
  show ?case
  proof (cases "len > 0")
    case False
    then have "m_copy_loop (m # ms) off len t cp p = Some (cp, p)" "nat len = 0" by simp_all
    then show ?thesis using Cons.prems(3) pool_step_refl [OF Cons.prems(1)] by auto
  next
    case True
    obtain r p1 where g: "m_get t p = Some (r, p1)" "pool_step p p1" "mclrefcnt p1 = mclrefcnt p"
        "case r of None \<Rightarrow> mfree p = [] \<and> mfree p1 = []
         | Some n \<Rightarrow> m_type n = t \<and> m_off n = Moff 12 \<and> length (m_dat n) = 112"
      using m_get_step [OF Cons.prems(1)] by blast
    have p1: "pool_ok p1" "cl_dat p1 = ?cl" using g(2) by (simp_all add: pool_step_def)
    show ?thesis
    proof (cases r)
      case None
      have "\<forall>m \<in> set cp. m_type m \<noteq> 0 \<and> length (m_dat m) = 112" using Cons.prems(3) mb_ok_freeable by blast
      then obtain p2 where "m_freem cp p1 = Some p2" "pool_step p1 p2"
          "\<forall>c. mclrefcnt p2 c = mclrefcnt p1 c - of_nat (refs cp c)"
        using m_freem_step [OF p1(1)] by blast
      with None g True pool_step_trans [OF g(2)] show ?thesis by (auto simp: fun_eq_iff)
    next
      case (Some n)
      then have n: "m_type n = t" "m_off n = Moff 12" "length (m_dat n) = 112" using g(4) by simp_all
      have n0: "m_type n \<noteq> 0" using n(1) Cons.prems(4) by simp
      define k where "k = min len (m_len m - off)"
      have k: "0 \<le> k" "k \<le> m_len m - off" "k \<le> 1024" using True off mb_ok_len [OF mok] by (auto simp: k_def)
      have s16k: "s16 k = k" using k by (simp add: cint)
      define np where "np = (case m_off m of
           Mcl c d \<Rightarrow> (n\<lparr>m_len := k, m_off := Mcl c (d + off)\<rparr>,
                        p1\<lparr>mclrefcnt := (mclrefcnt p1)(c := mclrefcnt p1 c + 1)\<rparr>)
         | Moff d \<Rightarrow> (n\<lparr>m_len := k, m_dat := bcopy_in (take (nat k) (mbytes_at (cl_dat p1) m (Moff (d + off)))) 0 (m_dat n)\<rparr>, p1))"
      obtain n' p2 where np: "np = (n', p2)" by fastforce
      let ?len = "if len \<noteq> M_COPYALL then len - k else len"
      have loop: "m_copy_loop (m # ms) off len t cp p = m_copy_loop ms 0 ?len t (cp @ [n']) p2"
        using True g(1) Some np unfolding np_def by (simp add: Let_def k_def [symmetric] s16k)
      have n': "mb_ok ?cl n' \<and> mbytes ?cl n' = take (nat k) (drop (nat off) (mbytes ?cl m)) \<and>
          cl_dat p2 = ?cl \<and> pool_ok p2 \<and> mclrefcnt p2 = (\<lambda>c. mclrefcnt p c + of_nat (mref c n'))"
      proof (cases "m_off m")
        case (Moff d)
        then have e: "n' = n\<lparr>m_len := k, m_dat := bcopy_in (take (nat k) (mbytes_at ?cl m (Moff (d + off)))) 0 (m_dat n)\<rparr>"
            "p2 = p1"
          using np p1 by (simp_all add: np_def)
        have "mref c n' = 0" for c using e(1) n(2) by (simp add: mref_def)
        with copy_round_data [OF mok off k(1,2) Moff n(2,3) n0 e(1)] e(2) p1 g(3) show ?thesis by simp
      next
        case (Mcl c d)
        then have e: "n' = n\<lparr>m_len := k, m_off := Mcl c (d + off)\<rparr>"
            "p2 = p1\<lparr>mclrefcnt := (mclrefcnt p1)(c := mclrefcnt p1 c + 1)\<rparr>"
          using np by (simp_all add: np_def)
        have "mref c' n' = (if c = c' then 1 else 0)" for c' using e(1) by (simp add: mref_def)
        with copy_round_shared [OF mok off k(1,2) Mcl n(3) n0 e(1)] e(2) p1 g(3) show ?thesis
          by (auto simp: pool_ok_def fun_eq_iff)
      qed
      have mlen: "length (mbytes ?cl m) = nat (m_len m)" using mok by simp
      have D: "take (nat len) (drop (nat off) (mbytes ?cl m @ chain_data ?cl ms)) =
          mbytes ?cl n' @ take (nat ?len) (chain_data ?cl ms)"
      proof -
        have kk: "nat k = min (nat len) (nat (m_len m) - nat off)" using off True by (auto simp: k_def min_def nat_diff_distrib)
        have rest: "take (nat len - (nat (m_len m) - nat off)) (chain_data ?cl ms) = take (nat ?len) (chain_data ?cl ms)"
        proof (cases "len = M_COPYALL")
          case True
          then have "length (chain_data ?cl ms) + nat (m_len m) \<le> nat len" using Cons.prems(8) mlen by simp
          then show ?thesis using True by simp
        next
          case False
          have "nat len - (nat (m_len m) - nat off) = nat (len - k) \<or> nat len \<le> nat (m_len m) - nat off \<and> nat (len - k) = 0"
            using off \<open>len > 0\<close> by (auto simp: k_def min_def)
          then show ?thesis using False by auto
        qed
        have "nat off \<le> length (mbytes ?cl m)" using mlen off by simp
        note app = take_drop_app [OF this, of "nat len" "chain_data ?cl ms"]
        show ?thesis unfolding app mlen rest kk [symmetric] using n' by (elim conjE) simp
      qed
      have len': "0 \<le> ?len" using True k(1) by (simp add: k_def)
      have len2: "if ?len = M_COPYALL then length (chain_data (cl_dat p2) ms) \<le> nat M_COPYALL
          else ?len < M_COPYALL \<and> nat ?len \<le> length (drop (nat 0) (chain_data (cl_dat p2) ms))"
      proof (cases "len = M_COPYALL")
        case True
        then show ?thesis using Cons.prems(8) n' by simp
      next
        case False
        then have lt: "len < M_COPYALL" "nat len \<le> nat (m_len m) - nat off + length (chain_data ?cl ms)"
          using Cons.prems(8) mlen off by simp_all
        have "nat (len - k) \<le> length (chain_data ?cl ms)" using lt(2) off True by (auto simp: k_def min_def)
        then show ?thesis using False lt(1) k(1) n' by simp
      qed
      have ok2: "\<forall>m \<in> set ms. mb_ok (cl_dat p2) m" "\<forall>m \<in> set (cp @ [n']). mb_ok (cl_dat p2) m"
        using Cons.prems(2,3) n' by simp_all
      have p2: "pool_ok p2" using n' by simp
      obtain r' p' where ih: "m_copy_loop ms 0 ?len t (cp @ [n']) p2 = Some (r', p')" "pool_step p2 p'"
        "r' = [] \<and> mclrefcnt p' = (\<lambda>c. mclrefcnt p2 c - of_nat (refs (cp @ [n']) c)) \<or>
         chain_data (cl_dat p2) r' = chain_data (cl_dat p2) (cp @ [n']) @ take (nat ?len) (drop (nat 0) (chain_data (cl_dat p2) ms)) \<and>
         (\<forall>m \<in> set r'. mb_ok (cl_dat p2) m) \<and>
         mclrefcnt p' = (\<lambda>c. mclrefcnt p2 c + of_nat (refs r' c) - of_nat (refs (cp @ [n']) c))"
        using Cons.IH [OF p2 ok2 Cons.prems(4) order_refl _ len' len2] by blast
      have st: "pool_step p p'" using ih(2) n' by (simp add: pool_step_def)
      show ?thesis
      proof (intro exI conjI)
        show "m_copy_loop (m # ms) off len t cp p = Some (r', p')" using loop ih(1) by simp
        show "pool_step p p'" by (rule st)
        show "r' = [] \<and> mclrefcnt p' = (\<lambda>c. mclrefcnt p c - of_nat (refs cp c)) \<or>
          chain_data ?cl r' = chain_data ?cl cp @ take (nat len) (drop (nat off) (chain_data ?cl (m # ms))) \<and>
          (\<forall>m \<in> set r'. mb_ok ?cl m) \<and>
          mclrefcnt p' = (\<lambda>c. mclrefcnt p c + of_nat (refs r' c) - of_nat (refs cp c))"
          using ih(3) n' D by (auto simp: fun_eq_iff)
      qed
    qed
  qed
qed

text \<open>Appending bytes inside an mbuf that has room, as \<open>m_cat\<close> and \<open>m_pullup\<close> do.\<close>

lemma append_inside:
  assumes "mb_ok cl m" "m_off m = Moff d" "length bs = nat k" "0 \<le> k" "d + m_len m + k \<le> 124"
    "m' = m\<lparr>m_dat := bcopy_in bs (nat (d - 12 + m_len m)) (m_dat m), m_len := s16 (m_len m + k)\<rparr>"
  shows "mb_ok cl m'" "mbytes cl m' = mbytes cl m @ bs" "m_len m' = m_len m + k" "mref c m' = mref c m"
proof -
  have d: "12 \<le> d" "0 \<le> m_len m" "length (m_dat m) = 112" "m_type m \<noteq> 0" using assms(1,2) by (auto simp: mb_ok_def)
  have w: "s16 (m_len m + k) = m_len m + k" using d assms(4,5) by (simp add: cint)
  show l: "m_len m' = m_len m + k" using assms(6) w by simp
  show "mref c m' = mref c m" using assms(6) by (simp add: mref_def)
  let ?a = "nat (d - 12)" and ?l = "nat (m_len m)"
  have pos: "nat (d - 12 + m_len m) = ?a + ?l" using d by simp
  have fit: "?a + ?l + length bs \<le> 112" using d assms(3-5) by simp
  show "mb_ok cl m'" using assms(2,4-6) d fit pos l by (simp add: mb_ok_def)
  have "mbytes cl m' = take (nat (m_len m + k)) (drop ?a (bcopy_in bs (?a + ?l) (m_dat m)))"
    using assms(2,6) w pos by (simp add: mbytes_def mconst)
  also have "\<dots> = drop ?a (take (?a + ?l + length bs) (bcopy_in bs (?a + ?l) (m_dat m)))"
    using d assms(3,4) by (simp add: drop_take nat_add_distrib)
  also have "\<dots> = drop ?a (take (?a + ?l) (m_dat m)) @ bs"
    using bcopy_in_take [of "?a + ?l" bs "m_dat m"] fit d by simp
  also have "drop ?a (take (?a + ?l) (m_dat m)) = mbytes cl m"
    using assms(2) by (simp add: mbytes_def mconst drop_take)
  finally show "mbytes cl m' = mbytes cl m @ bs" .
qed

lemma m_cat_loop_data:
  "pool_ok p \<Longrightarrow> mb_ok (cl_dat p) m \<Longrightarrow> \<forall>n \<in> set ns. mb_ok (cl_dat p) n \<Longrightarrow>
   \<exists>r p'. m_cat_loop m ns p = Some (r, p') \<and> pool_step p p' \<and>
     chain_data (cl_dat p) r = mbytes (cl_dat p) m @ chain_data (cl_dat p) ns \<and> (\<forall>m \<in> set r. mb_ok (cl_dat p) m) \<and>
     (\<forall>c. mclrefcnt p' c + of_nat (refs (m # ns) c) = mclrefcnt p c + of_nat (refs r c))"
proof (induction ns arbitrary: m p)
  case Nil
  then show ?case using pool_step_refl [OF Nil(1)] by simp
next
  case (Cons n ns)
  show ?case
  proof (cases "moff_ge (m_off m) MMAXOFF \<or>
      (case m_off m of Moff d \<Rightarrow> d + m_len m + m_len n > MMAXOFF | Mcl c d \<Rightarrow> True)")
    case True
    then show ?thesis using Cons.prems pool_step_refl [OF Cons.prems(1)] by simp
  next
    case False
    then obtain d where d: "m_off m = Moff d" "d + m_len m + m_len n \<le> 124"
      by (cases "m_off m") (auto simp: mconst)
    have nok: "mb_ok (cl_dat p) n" using Cons.prems(3) by simp
    let ?m = "m\<lparr>m_dat := bcopy_in (mbytes (cl_dat p) n) (nat (d - 12 + m_len m)) (m_dat m), m_len := s16 (m_len m + m_len n)\<rparr>"
    note ap = append_inside [OF Cons.prems(2) d(1) mbytes_len [OF nok] _ d(2) refl]
    have a: "mb_ok (cl_dat p) ?m" "mbytes (cl_dat p) ?m = mbytes (cl_dat p) m @ mbytes (cl_dat p) n"
      "\<And>c. mref c ?m = mref c m"
      using ap mb_ok_len [OF nok] by auto
    obtain p1 where p1: "MFREE n p = Some p1" "pool_step p p1" "\<forall>c. mclrefcnt p1 c = mclrefcnt p c - of_nat (mref c n)"
      using MFREE_step [OF Cons.prems(1)] mb_ok_freeable [OF nok] by blast
    have p1ok: "pool_ok p1" "cl_dat p1 = cl_dat p" using p1(2) by (simp_all add: pool_step_def)
    obtain r p' where r: "m_cat_loop ?m ns p1 = Some (r, p')" "pool_step p1 p'"
      "chain_data (cl_dat p1) r = mbytes (cl_dat p1) ?m @ chain_data (cl_dat p1) ns" "\<forall>m \<in> set r. mb_ok (cl_dat p1) m"
      "\<forall>c. mclrefcnt p' c + of_nat (refs (?m # ns) c) = mclrefcnt p1 c + of_nat (refs r c)"
      using Cons.IH [of p1 ?m] p1ok a(1) Cons.prems(3) by auto
    have "m_cat_loop m (n # ns) p = m_cat_loop ?m ns p1"
      using False d p1(1) by (simp add: mconst Let_def)
    moreover have "mclrefcnt p' c + of_nat (refs (m # n # ns) c) = mclrefcnt p c + of_nat (refs r c)" for c
    proof -
      have "mclrefcnt p' c + of_nat (refs (m # n # ns) c) =
          (mclrefcnt p' c + of_nat (refs (?m # ns) c)) + of_nat (mref c n)"
        using a(3) by (simp add: add.commute add.left_commute)
      also have "\<dots> = mclrefcnt p c + of_nat (refs r c)" using r(5) p1(3) by simp
      finally show ?thesis .
    qed
    ultimately show ?thesis using r(1-4) p1ok a(2) pool_step_trans [OF p1(2) r(2)] by auto
  qed
qed

lemma m_pullup_loop_data:
  "pool_ok p \<Longrightarrow> mb_ok (cl_dat p) m \<Longrightarrow> m_off m = Moff 12 \<Longrightarrow> \<forall>n \<in> set ns. mb_ok (cl_dat p) n \<Longrightarrow>
   0 \<le> len \<Longrightarrow> m_len m + len \<le> 112 \<Longrightarrow>
   \<exists>m' ns' left p'. m_pullup_loop m ns len p = Some (m', ns', left, p') \<and> pool_step p p' \<and>
     mbytes (cl_dat p) m' @ chain_data (cl_dat p) ns' = mbytes (cl_dat p) m @ chain_data (cl_dat p) ns \<and>
     (\<forall>m \<in> set (m' # ns'). mb_ok (cl_dat p) m) \<and> m_off m' = Moff 12 \<and>
     m_len m' = m_len m + len - left \<and> 0 \<le> left \<and> (left = 0 \<or> ns' = []) \<and>
     (\<forall>c. mclrefcnt p' c + of_nat (refs ns c) = mclrefcnt p c + of_nat (refs ns' c))"
proof (induction ns arbitrary: m len p)
  case Nil
  then show ?case using pool_step_refl [OF Nil(1)] by simp
next
  case (Cons n ns)
  have nok: "mb_ok (cl_dat p) n" using Cons.prems(4) by simp
  define c where "c = min len (m_len n)"
  have c: "0 \<le> c" "c \<le> len" "c \<le> m_len n" using Cons.prems(5) mb_ok_len [OF nok] by (auto simp: c_def)
  have cnt: "(if min (MLEN - m_len m) len > m_len n then m_len n else min (MLEN - m_len m) len) = c"
    using Cons.prems(6) by (auto simp: c_def mconst)
  let ?bs = "take (nat c) (mbytes_at (cl_dat p) n (m_off n))"
  have bs: "?bs = take (nat c) (mbytes (cl_dat p) n)" using c by (simp add: mbytes_def min_def)
  have bl: "length ?bs = nat c" unfolding bs using c nok by simp
  let ?m = "m\<lparr>m_dat := bcopy_in ?bs (nat (m_len m)) (m_dat m), m_len := s16 (m_len m + c)\<rparr>"
  let ?n = "n\<lparr>m_len := s16 (m_len n - c), m_off := moff_add (m_off n) c\<rparr>"
  have fit: "12 + m_len m + c \<le> 124" using Cons.prems(6) c by simp
  note ap = append_inside [OF Cons.prems(2,3) bl c(1) fit, of ?m]
  have mok: "mb_ok (cl_dat p) ?m" "mbytes (cl_dat p) ?m = mbytes (cl_dat p) m @ ?bs" "m_len ?m = m_len m + c"
    using ap by simp_all
  have w: "s16 (m_len n - c) = m_len n - c" using c mb_ok_len [OF nok] by (simp add: cint)
  have nn: "mb_ok (cl_dat p) ?n" "mbytes (cl_dat p) ?n = drop (nat c) (mbytes (cl_dat p) n)"
    using mbytes_skip [OF nok c(1,3)] unfolding w by auto
  have nref: "mref x ?n = mref x n" for x by (cases "m_off n") (simp_all add: mref_def)
  have loop: "m_pullup_loop m (n # ns) len p =
      (if m_len ?n \<noteq> 0 then Some (?m, ?n # ns, len - c, p)
       else Option.bind (MFREE ?n p) (m_pullup_loop ?m ns (len - c)))"
    by (simp only: m_pullup_loop.simps Let_def cnt)
  have data: "mbytes (cl_dat p) ?m @ mbytes (cl_dat p) ?n = mbytes (cl_dat p) m @ mbytes (cl_dat p) n"
    by (simp only: mok(2) nn(2), simp only: bs append_assoc append_take_drop_id)
  show ?case
  proof (cases "m_len ?n = 0")
    case False
    then have "c \<noteq> m_len n" using w by simp
    then have "c = len" by (simp add: c_def min_def split: if_splits)
    then show ?thesis
      using False loop Cons.prems(3,4) mok(1,3) nn(1) data pool_step_refl [OF Cons.prems(1)] nref by simp
  next
    case True
    obtain p1 where p1: "MFREE ?n p = Some p1" "pool_step p p1" "\<forall>x. mclrefcnt p1 x = mclrefcnt p x - of_nat (mref x ?n)"
      using MFREE_step [OF Cons.prems(1)] mb_ok_freeable [OF nn(1)] by blast
    have p1ok: "pool_ok p1" "cl_dat p1 = cl_dat p" using p1(2) by (simp_all add: pool_step_def)
    have e: "mbytes (cl_dat p) ?n = []" using True by (simp add: mbytes_empty)
    have pre: "mb_ok (cl_dat p1) ?m" "m_off ?m = Moff 12" "\<forall>n \<in> set ns. mb_ok (cl_dat p1) n" "0 \<le> len - c"
      "m_len ?m + (len - c) \<le> 112"
      using p1ok mok Cons.prems(3,4,6) c by simp_all
    obtain m' ns' left p' where r: "m_pullup_loop ?m ns (len - c) p1 = Some (m', ns', left, p')" "pool_step p1 p'"
      "mbytes (cl_dat p1) m' @ chain_data (cl_dat p1) ns' = mbytes (cl_dat p1) ?m @ chain_data (cl_dat p1) ns"
      "\<forall>m \<in> set (m' # ns'). mb_ok (cl_dat p1) m" "m_off m' = Moff 12"
      "m_len m' = m_len ?m + (len - c) - left" "0 \<le> left" "left = 0 \<or> ns' = []"
      "\<forall>x. mclrefcnt p' x + of_nat (refs ns x) = mclrefcnt p1 x + of_nat (refs ns' x)"
      using Cons.IH [OF p1ok(1) pre] by blast
    have rc: "mclrefcnt p' x + of_nat (refs (n # ns) x) = mclrefcnt p x + of_nat (refs ns' x)" for x
    proof -
      have "mclrefcnt p' x + of_nat (refs (n # ns) x) = (mclrefcnt p' x + of_nat (refs ns x)) + of_nat (mref x n)"
        by (simp add: add.commute add.left_commute)
      also have "\<dots> = mclrefcnt p x + of_nat (refs ns' x)" using r(9) p1(3) nref by simp
      finally show ?thesis .
    qed
    have "mbytes (cl_dat p) m' @ chain_data (cl_dat p) ns' = mbytes (cl_dat p) m @ chain_data (cl_dat p) (n # ns)"
      using r(3) data e p1ok(2) by simp
    then show ?thesis
      using loop True p1(1) r(1,4-8) rc mok(3) p1ok(2) pool_step_trans [OF p1(2) r(2)] by auto
  qed
qed

section \<open>References to clusters\<close>

text \<open>A cluster goes to the free list with its last reference, and not before.\<close>

lemma MFREE_clusters:
  assumes "MFREE m p = Some p'" "mclrefcnt p = (\<lambda>c. of_nat (mref c m + R c))" "\<forall>c. mref c m + R c < 256"
  shows "mclrefcnt p' = (\<lambda>c. of_nat (R c))"
    "set (mclfree p') = set (mclfree p) \<union> {c. 0 < mref c m \<and> R c = 0}"
proof -
  have "mclrefcnt p' = (\<lambda>c. of_nat (R c)) \<and> set (mclfree p') = set (mclfree p) \<union> {c. 0 < mref c m \<and> R c = 0}"
  proof (cases "m_off m")
    case (Moff d)
    then show ?thesis using assms(1,2) by (auto simp: MFREE_def Let_def mref_def split: if_splits)
  next
    case (Mcl c d)
    have ref: "mref x m = (if x = c then 1 else 0)" for x using Mcl by (simp add: mref_def)
    have r: "(of_nat (R c) :: 8 word) = 0 \<longleftrightarrow> R c = 0"
    proof
      assume h: "(of_nat (R c) :: 8 word) = 0"
      have "mref c m + R c < 256" using assms(3) by blast
      then have lt: "R c < 256" by simp
      have "256 dvd R c" using h word_of_nat_eq_0_iff [where 'a = 8, of "R c"] by simp
      with lt show "R c = 0" using nat_dvd_not_less by blast
    qed simp
    show ?thesis using assms(1,2) Mcl ref r
      by (auto simp: MFREE_def Let_def cl_unref_def fun_eq_iff split: if_splits)
  qed
  then show "mclrefcnt p' = (\<lambda>c. of_nat (R c))"
    "set (mclfree p') = set (mclfree p) \<union> {c. 0 < mref c m \<and> R c = 0}" by auto
qed

lemma m_freem_clusters:
  "m_freem ms p = Some p' \<Longrightarrow> mclrefcnt p = (\<lambda>c. of_nat (refs ms c + R c)) \<Longrightarrow> \<forall>c. refs ms c + R c < 256 \<Longrightarrow>
   mclrefcnt p' = (\<lambda>c. of_nat (R c)) \<and>
   set (mclfree p') = set (mclfree p) \<union> {c. 0 < refs ms c \<and> R c = 0}"
proof (induction ms arbitrary: p)
  case (Cons m ms)
  obtain p1 where p1: "MFREE m p = Some p1" "m_freem ms p1 = Some p'"
    using Cons.prems(1) by (auto simp: bind_eq_Some_conv)
  have "mclrefcnt p = (\<lambda>c. of_nat (mref c m + (refs ms c + R c)))" "\<forall>c. mref c m + (refs ms c + R c) < 256"
    using Cons.prems(2,3) by (simp_all add: add.assoc)
  note f = MFREE_clusters [OF p1(1) this]
  have "\<forall>c. refs ms c + R c < 256" using Cons.prems(3) by (metis add.assoc add_lessD1 refs_simps(2) add.commute)
  from Cons.IH [OF p1(2) f(1) this] f(2) show ?case by auto
qed auto

section \<open>Properties\<close>

lemma m_skip_data:
  "\<forall>m \<in> set ms. mb_ok cl m \<Longrightarrow> 0 \<le> off \<Longrightarrow> nat off \<le> length (chain_data cl ms) \<Longrightarrow>
   \<exists>off' ms'. m_skip off ms = Some (off', ms') \<and> drop (nat off') (chain_data cl ms') = drop (nat off) (chain_data cl ms) \<and>
     set ms' \<subseteq> set ms \<and> 0 \<le> off' \<and> (off' = 0 \<or> (\<exists>m r. ms' = m # r \<and> off' \<le> m_len m)) \<and>
     length (chain_data cl ms') \<le> length (chain_data cl ms)"
proof (induction ms arbitrary: off)
  case (Cons m ms)
  have ok: "mb_ok cl m" using Cons.prems(1) by simp
  show ?case
  proof (cases "off > 0 \<and> \<not> off < m_len m")
    case True
    have n: "nat off = nat (off - m_len m) + nat (m_len m)" 
      using True mb_ok_len [OF ok] nat_add_distrib [of "off - m_len m" "m_len m"] by simp
    have "drop (nat off) (chain_data cl (m # ms)) = drop (nat (off - m_len m)) (chain_data cl ms)"
      using ok by (simp add: n)
    moreover have "nat (off - m_len m) \<le> length (chain_data cl ms)" using Cons.prems(3) n ok by simp
    moreover have "0 \<le> off - m_len m" using True by simp
    moreover have ms: "\<forall>m \<in> set ms. mb_ok cl m" using Cons.prems(1) by simp
    moreover obtain off' ms' where "m_skip (off - m_len m) ms = Some (off', ms')"
      "drop (nat off') (chain_data cl ms') = drop (nat (off - m_len m)) (chain_data cl ms)"
      "set ms' \<subseteq> set ms" "0 \<le> off'" "off' = 0 \<or> (\<exists>m r. ms' = m # r \<and> off' \<le> m_len m)"
      "length (chain_data cl ms') \<le> length (chain_data cl ms)"
      using Cons.IH [OF ms] calculation(2,3) by blast
    ultimately show ?thesis using True by (intro exI [of _ off'] exI [of _ ms']) auto
  next
    case False
    then have "m_skip off (m # ms) = Some (off, m # ms)" by auto
    then show ?thesis using False Cons.prems(2) by auto
  qed
qed auto

text \<open>A pool of three free mbufs and one cluster, for the concrete instances.\<close>

definition mdata :: "byte list \<Rightarrow> mbuf" where
  "mdata bs = \<lparr>m_off = Moff 12, m_len = int (length bs), m_type = 1, m_dat = bs @ replicate (112 - length bs) 0, m_act = 0\<rparr>"

definition pool_demo :: mpool where
  "pool_demo = \<lparr>mfree = replicate 3 \<lparr>m_off = Moff 0, m_len = 0, m_type = 0, m_dat = replicate 112 0, m_act = 0\<rparr>,
     mclfree = [], mclrefcnt = (\<lambda>c. if c = 5 then 1 else 0), cl_dat = (\<lambda>_. replicate 1024 7),
     mbmap = rminit Othermap 100 1 ''mb'' 8, vm_free = 0, m_mbufs = 8, m_mbfree = 3, m_clusters = 1, m_clfree = 0,
     m_drops = 0, m_mtypes = (\<lambda>_. 0)\<rparr>"

definition mcluster :: mbuf where
  "mcluster = \<lparr>m_off = Mcl 5 2, m_len = 3, m_type = 1, m_dat = replicate 112 0, m_act = 0\<rparr>"

lemma pool_demo_ok: "pool_ok pool_demo"
  by (simp add: pool_ok_def pool_demo_def rm_ok_def rm_defs rminit_def)

lemma mdata_ok: "length bs \<le> 112 \<Longrightarrow> mb_ok cl (mdata bs)"
  by (simp add: mb_ok_def mdata_def)

lemma mdata_bytes: "mbytes cl (mdata bs) = bs"
  by (simp add: mbytes_def mdata_def mconst)

lemma mcluster_ok: "mb_ok (cl_dat pool_demo) mcluster" "mbytes (cl_dat pool_demo) mcluster = [7, 7, 7]"
proof -
  show "mb_ok (cl_dat pool_demo) mcluster" by (simp add: mb_ok_def mcluster_def pool_demo_def)
  have "take 3 (replicate n (7 :: byte)) = replicate (min 3 n) 7" for n by simp
  then show "mbytes (cl_dat pool_demo) mcluster = [7, 7, 7]"
    by (simp add: mbytes_def mcluster_def pool_demo_def numeral_3_eq_3)
qed

text \<open>C36: \<open>m_copy\<close> never panics on a range inside the chain.  It returns NULL, having taken back every
  mbuf and cluster reference, only when no mbuf can be had; otherwise the new chain carries exactly the
  bytes of the range, and each cluster it shares has gained as many references as the copy holds.\<close>

theorem m_copy_data:
  assumes "pool_ok p" "\<forall>m \<in> set ms. mb_ok (cl_dat p) m" "ms \<noteq> []" "0 \<le> off" "0 < len"
    "if len = M_COPYALL then length (chain_data (cl_dat p) ms) \<le> nat M_COPYALL \<and> nat off \<le> length (chain_data (cl_dat p) ms)
     else len < M_COPYALL \<and> nat off + nat len \<le> length (chain_data (cl_dat p) ms)"
  shows "\<exists>r p'. m_copy ms off len p = Some (r, p') \<and> pool_ok p' \<and> cl_dat p' = cl_dat p \<and>
     (r = [] \<and> mclrefcnt p' = mclrefcnt p \<or>
      chain_data (cl_dat p) r = take (nat len) (drop (nat off) (chain_data (cl_dat p) ms)) \<and>
      (\<forall>m \<in> set r. mb_ok (cl_dat p) m) \<and> mclrefcnt p' = (\<lambda>c. mclrefcnt p c + of_nat (refs r c)))"
proof -
  let ?D = "chain_data (cl_dat p) ms"
  have "nat off \<le> length ?D" using assms(6) by (auto split: if_splits)
  then obtain off' ms' where sk: "m_skip off ms = Some (off', ms')"
      "drop (nat off') (chain_data (cl_dat p) ms') = drop (nat off) ?D" "set ms' \<subseteq> set ms" "0 \<le> off'"
      "off' = 0 \<or> (\<exists>m r. ms' = m # r \<and> off' \<le> m_len m)" "length (chain_data (cl_dat p) ms') \<le> length ?D"
    using m_skip_data [OF assms(2,4)] by blast
  have t: "m_type (hd ms) \<noteq> 0" using assms(2,3) mb_ok_freeable by (metis list.set_sel(1))
  have ok: "\<forall>m \<in> set ms'. mb_ok (cl_dat p) m" "\<forall>m \<in> set []. mb_ok (cl_dat p) m" using sk(3) assms(2) by auto
  have len: "if len = M_COPYALL then length (chain_data (cl_dat p) ms') \<le> nat M_COPYALL
      else len < M_COPYALL \<and> nat len \<le> length (drop (nat off') (chain_data (cl_dat p) ms'))"
    using assms(6) sk(2,6) by (auto split: if_splits)
  have "m_copy ms off len p = m_copy_loop ms' off' len (m_type (hd ms)) [] p"
    using assms(3-5) sk(1) by (cases ms) (auto simp: m_copy_def)
  with m_copy_loop_data [OF assms(1) ok t sk(4,5) _ len] assms(5) sk(2) show ?thesis
    by (auto simp: pool_step_def)
qed

theorem m_copy_data_witness:
  "\<exists>r p'. m_copy [mdata [1, 2], mcluster] 1 3 pool_demo = Some (r, p') \<and>
     (r = [] \<and> mclrefcnt p' = mclrefcnt pool_demo \<or>
      chain_data (cl_dat pool_demo) r = [2, 7, 7] \<and>
      mclrefcnt p' = (\<lambda>c. mclrefcnt pool_demo c + of_nat (refs r c)))"
  using m_copy_data [of pool_demo "[mdata [1, 2], mcluster]" 1 3] pool_demo_ok
  by (auto simp: mdata_ok mdata_bytes mcluster_ok M_COPYALL_def)

text \<open>what \<open>m_adj\<close> does to the bytes of a chain.  A positive length drops that many at the front.  A
  negative one drops them from the end of the part before the first empty mbuf, and keeps what is behind
  it: on a chain without empty mbufs that is the end of the data, otherwise the wrong bytes go.\<close>

theorem m_adj_data:
  assumes "\<forall>m \<in> set ms. mb_ok cl m"
  shows "chain_data cl (m_adj ms len) =
    (if len \<ge> 0 then drop (nat len) (chain_data cl ms)
     else let D = chain_data cl (takeWhile (\<lambda>m. m_len m \<noteq> 0) ms)
          in take (length D - nat (- len)) D @ chain_data cl (dropWhile (\<lambda>m. m_len m \<noteq> 0) ms))"
proof (cases "len \<ge> 0")
  case True
  then show ?thesis using m_adj_head_data [OF assms True] by (simp add: m_adj_def)
next
  case False
  then show ?thesis using m_adj_tail_data [OF assms, of "- len"] by (auto simp: m_adj_def Let_def)
qed

theorem m_adj_data_witness:
  "chain_data (cl_dat pool_demo) (m_adj [mdata [1, 2, 3], mdata [], mdata [4, 5]] (- 2)) = [1, 4, 5] \<and>
   chain_data (cl_dat pool_demo) (m_adj [mdata [1, 2, 3], mdata [4, 5]] (- 3)) = [1, 2] \<and>
   chain_data (cl_dat pool_demo) (m_adj [mdata [1, 2, 3], mdata [4, 5]] 4) = [5]"
proof -
  have l: "m_len (mdata bs) = int (length bs)" for bs by (simp add: mdata_def)
  show ?thesis
    using m_adj_data [of "[mdata [1, 2, 3], mdata [], mdata [4, 5]]" "cl_dat pool_demo" "- 2"]
      m_adj_data [of "[mdata [1, 2, 3], mdata [4, 5]]" "cl_dat pool_demo" "- 3"]
      m_adj_data [of "[mdata [1, 2, 3], mdata [4, 5]]" "cl_dat pool_demo" 4]
    by (simp add: mdata_ok mdata_bytes l)
qed

text \<open>\<open>m_pullup\<close> keeps the bytes of the chain and puts exactly the first \<open>len\<close> of them together in a
  fresh first mbuf.  When it returns NULL the whole chain has been freed; that happens only when \<open>len\<close>
  is more than an mbuf holds, the chain is shorter than \<open>len\<close>, or no mbuf can be had.\<close>

theorem m_pullup_data:
  assumes "pool_ok p" "\<forall>m \<in> set ms. mb_ok (cl_dat p) m" "ms \<noteq> []" "0 \<le> len"
  shows "\<exists>r p'. m_pullup ms len p = Some (r, p') \<and> pool_ok p' \<and> cl_dat p' = cl_dat p \<and>
     (\<forall>c. mclrefcnt p' c + of_nat (refs ms c) = mclrefcnt p c + of_nat (refs r c)) \<and>
     (r = [] \<and> (len > 112 \<or> length (chain_data (cl_dat p) ms) < nat len \<or> mfree p = []) \<or>
      r \<noteq> [] \<and> m_off (hd r) = Moff 12 \<and> m_len (hd r) = len \<and> (\<forall>m \<in> set r. mb_ok (cl_dat p) m) \<and>
      chain_data (cl_dat p) r = chain_data (cl_dat p) ms)"
proof -
  let ?cl = "cl_dat p"
  have fr: "\<forall>m \<in> set xs. m_type m \<noteq> 0 \<and> length (m_dat m) = 112" if "\<forall>m \<in> set xs. mb_ok ?cl m" for xs
    using that mb_ok_freeable by blast
  show ?thesis
  proof (cases "len > 112")
    case True
    obtain p' where "m_freem ms p = Some p'" "pool_step p p'" "\<forall>c. mclrefcnt p' c = mclrefcnt p c - of_nat (refs ms c)"
      using m_freem_step [OF assms(1) fr [OF assms(2)]] by blast
    then show ?thesis using True by (simp add: m_pullup_def Let_def MLEN_def pool_step_def)
  next
    case False
    obtain n ns where ms: "ms = n # ns" using assms(3) by (cases ms) auto
    have t: "m_type n \<noteq> 0" using assms(2) ms mb_ok_freeable by auto
    obtain r p1 where g: "m_get (m_type n) p = Some (r, p1)" "pool_step p p1" "mclrefcnt p1 = mclrefcnt p"
        "case r of None \<Rightarrow> mfree p = [] \<and> mfree p1 = []
         | Some m \<Rightarrow> m_type m = m_type n \<and> m_off m = Moff 12 \<and> length (m_dat m) = 112"
      using m_get_step [OF assms(1)] by blast
    have p1: "pool_ok p1" "cl_dat p1 = ?cl" using g(2) by (simp_all add: pool_step_def)
    show ?thesis
    proof (cases r)
      case None
      obtain p' where "m_freem ms p1 = Some p'" "pool_step p1 p'" "\<forall>c. mclrefcnt p' c = mclrefcnt p1 c - of_nat (refs ms c)"
        using m_freem_step [OF p1(1) fr [OF assms(2)]] by blast
      then show ?thesis using False g None ms p1 by (simp add: m_pullup_def Let_def MLEN_def pool_step_def)
    next
      case (Some m)
      let ?m = "m\<lparr>m_len := 0\<rparr>"
      have m: "mb_ok (cl_dat p1) ?m" "m_off ?m = Moff 12" "m_len ?m + len \<le> 112"
        using Some g(4) t False by (simp_all add: mb_ok_def)
      have ok: "\<forall>m \<in> set ms. mb_ok (cl_dat p1) m" using assms(2) p1(2) by simp
      obtain m' ns' left p2 where l: "m_pullup_loop ?m ms len p1 = Some (m', ns', left, p2)" "pool_step p1 p2"
        "mbytes ?cl m' @ chain_data ?cl ns' = mbytes ?cl ?m @ chain_data ?cl ms"
        "\<forall>m \<in> set (m' # ns'). mb_ok ?cl m" "m_off m' = Moff 12" "m_len m' = m_len ?m + len - left"
        "0 \<le> left" "left = 0 \<or> ns' = []" "\<forall>c. mclrefcnt p2 c + of_nat (refs ms c) = mclrefcnt p1 c + of_nat (refs ns' c)"
        using m_pullup_loop_data [OF p1(1) m(1,2) ok assms(4) m(3)] unfolding p1(2) by blast
      have p2: "pool_ok p2" "cl_dat p2 = ?cl" using l(2) p1 by (simp_all add: pool_step_def)
      have e: "mbytes ?cl ?m = []" by (simp add: mbytes_empty)
      have r0: "mref c m' = 0" for c using l(5) by (simp add: mref_def)
      show ?thesis
      proof (cases "left = 0")
        case True
        then have "m_pullup ms len p = Some (m' # ns', p2)"
          using False g(1) Some ms l(1) by (simp add: m_pullup_def Let_def MLEN_def)
        then show ?thesis using True l g(3) p2 e r0 by simp
      next
        case nz: False
        then have ns: "ns' = []" using l(8) by simp
        have "m_type m' \<noteq> 0 \<and> length (m_dat m') = 112" using l(4) mb_ok_freeable by auto
        then obtain p3 where p3: "MFREE m' p2 = Some p3" "pool_step p2 p3" "\<forall>c. mclrefcnt p3 c = mclrefcnt p2 c - of_nat (mref c m')"
          using MFREE_step [OF p2(1)] by blast
        have "length (chain_data ?cl ms) = length (mbytes ?cl m')" using l(3) ns e by simp
        also have "\<dots> = nat (m_len m')" using l(4) by simp
        also have "\<dots> < nat len" using l(6,7) nz mb_ok_len [of ?cl m'] l(4) by auto
        finally have short: "length (chain_data ?cl ms) < nat len" .
        have "m_pullup ms len p = Some ([], p3)"
          using False g(1) Some ms l(1) nz ns p3(1) by (simp add: m_pullup_def Let_def MLEN_def)
        then show ?thesis using short p3 p2 l(9) ns r0 g(3) by (simp add: pool_step_def)
      qed
    qed
  qed
qed

theorem m_pullup_data_witness:
  "\<exists>r p'. m_pullup [mdata [1], mdata [], mcluster] 3 pool_demo = Some (r, p') \<and> r \<noteq> [] \<and> m_len (hd r) = 3 \<and>
     chain_data (cl_dat pool_demo) r = [1, 7, 7, 7]"
proof -
  have "mfree pool_demo \<noteq> []" by (simp add: pool_demo_def)
  with m_pullup_data [of pool_demo "[mdata [1], mdata [], mcluster]" 3] pool_demo_ok show ?thesis
    by (auto simp: mdata_ok mdata_bytes mcluster_ok)
qed

text \<open>C27: \<open>m_cat\<close> puts the bytes of the second chain behind those of the first, whether it copies them
  into the room of the last mbuf or links the chains, and keeps the reference counts exact.\<close>

lemma m_cat_data:
  assumes "pool_ok p" "\<forall>m \<in> set ms. mb_ok (cl_dat p) m" "ms \<noteq> []" "\<forall>n \<in> set ns. mb_ok (cl_dat p) n"
  shows "\<exists>r p'. m_cat ms ns p = Some (r, p') \<and> pool_ok p' \<and> cl_dat p' = cl_dat p \<and>
     chain_data (cl_dat p) r = chain_data (cl_dat p) ms @ chain_data (cl_dat p) ns \<and> (\<forall>m \<in> set r. mb_ok (cl_dat p) m) \<and>
     (\<forall>c. mclrefcnt p' c + of_nat (refs ms c + refs ns c) = mclrefcnt p c + of_nat (refs r c))"
proof -
  let ?cl = "cl_dat p"
  have ms: "ms = butlast ms @ [last ms]" using assms(3) by simp
  have lst: "mb_ok ?cl (last ms)" using assms(2,3) by simp
  obtain r p' where r: "m_cat_loop (last ms) ns p = Some (r, p')" "pool_step p p'"
     "chain_data ?cl r = mbytes ?cl (last ms) @ chain_data ?cl ns" "\<forall>m \<in> set r. mb_ok ?cl m"
     "\<forall>c. mclrefcnt p' c + of_nat (refs (last ms # ns) c) = mclrefcnt p c + of_nat (refs r c)"
    using m_cat_loop_data [OF assms(1) lst assms(4)] by blast
  have d: "chain_data ?cl ms = chain_data ?cl (butlast ms) @ mbytes ?cl (last ms)"
    by (subst ms) (simp only: chain_data_simps append_Nil2)
  have f: "refs ms c = refs (butlast ms) c + mref c (last ms)" for c
    by (subst ms) (simp only: refs_simps add_0_right)
  have "mclrefcnt p' c + of_nat (refs ms c + refs ns c) = mclrefcnt p c + of_nat (refs (butlast ms @ r) c)" for c
  proof -
    have "mclrefcnt p' c + of_nat (refs ms c + refs ns c) =
        (mclrefcnt p' c + of_nat (refs (last ms # ns) c)) + of_nat (refs (butlast ms) c)"
      unfolding f by (simp add: add.commute add.left_commute)
    also have "\<dots> = mclrefcnt p c + of_nat (refs (butlast ms @ r) c)"
      using r(5) by (simp add: add.commute add.left_commute)
    finally show ?thesis .
  qed
  moreover have "\<forall>m \<in> set (butlast ms @ r). mb_ok ?cl m" using assms(2) r(4) in_set_butlastD by fastforce
  ultimately show ?thesis using assms(3) r(1-3) d by (simp add: m_cat_def pool_step_def)
qed

text \<open>C37: freeing a chain puts a cluster on the free list exactly when the chain held its last reference,
  as long as fewer than 256 references fit the count; a cluster another chain still refers to keeps its
  count.\<close>

theorem m_freem_clusters_safe:
  assumes "pool_ok p" "\<forall>m \<in> set ms. m_type m \<noteq> 0 \<and> length (m_dat m) = 112"
    "mclrefcnt p = (\<lambda>c. of_nat (refs ms c + R c))" "\<forall>c. refs ms c + R c < 256"
  shows "\<exists>p'. m_freem ms p = Some p' \<and> mclrefcnt p' = (\<lambda>c. of_nat (R c)) \<and>
     set (mclfree p') = set (mclfree p) \<union> {c. 0 < refs ms c \<and> R c = 0} \<and>
     length (mfree p') = length (mfree p) + length ms"
proof -
  obtain p' where f: "m_freem ms p = Some p'" "length (mfree p') = length (mfree p) + length ms"
    using m_freem_step [OF assms(1,2)] by blast
  with m_freem_clusters [OF f(1) assms(3,4)] show ?thesis by simp
qed

theorem m_freem_clusters_safe_witness:
  "\<exists>p'. m_freem [mcluster, mdata [1]] pool_demo = Some p' \<and> set (mclfree p') = {5} \<and> length (mfree p') = 5"
proof -
  have r: "refs [mcluster, mdata [1]] c = (if c = 5 then 1 else 0)" for c
    by (simp add: mref_def mcluster_def mdata_def)
  have "mclrefcnt pool_demo = (\<lambda>c. of_nat (refs [mcluster, mdata [1]] c + 0))"
    unfolding r by (simp add: pool_demo_def fun_eq_iff)
  moreover have "\<forall>m \<in> set [mcluster, mdata [1]]. m_type m \<noteq> 0 \<and> length (m_dat m) = 112"
    by (simp add: mcluster_def mdata_def)
  moreover have "\<forall>c. refs [mcluster, mdata [1]] c + 0 < 256" unfolding r by simp
  ultimately obtain p' where p': "m_freem [mcluster, mdata [1]] pool_demo = Some p'"
      "set (mclfree p') = set (mclfree pool_demo) \<union> {c. 0 < refs [mcluster, mdata [1]] c \<and> (0 :: nat) = 0}"
      "length (mfree p') = length (mfree pool_demo) + length [mcluster, mdata [1]]"
    using m_freem_clusters_safe [of pool_demo "[mcluster, mdata [1]]" "\<lambda>_. 0"] pool_demo_ok by blast
  have "set (mclfree p') = {5}" using p'(2) unfolding r by (auto simp: pool_demo_def)
  moreover have "length (mfree p') = 5" using p'(3) by (simp add: pool_demo_def)
  ultimately show ?thesis using p'(1) by blast
qed

end
