(* ===== verification/Sockbuf.thy ===== *)
theory Sockbuf
  imports Mbuf
begin

text \<open>
  The socket buffers of sys/h/socketvar.h and the second half of sys/sys/uipc_socket2.c: an mbuf chain
  with its counts, which are shorts.  Flag words are sets of the flags.  Wakeups are returned as events.
  The contract at the end is what protocols rely on: a socket buffer is a stream of bytes.
\<close>

section \<open>The code\<close>

datatype sbflag = SB_LOCK | SB_WANT | SB_WAIT | SB_SEL | SB_COLL

record sockbuf =
  sb_cc :: int
  sb_hiwat :: int
  sb_mbcnt :: int
  sb_mbmax :: int
  sb_mb :: "mbuf list"
  sb_sel :: "nat option"
  sb_flags :: "sbflag set"

datatype sbev = Selwakeup nat bool | Wakeup_sb | Wakeup_lock

definition sbspace :: "sockbuf \<Rightarrow> int" where
  "sbspace sb = min (sb_hiwat sb - sb_cc sb) (sb_mbmax sb - sb_mbcnt sb)"

definition mbsize :: "mbuf \<Rightarrow> int" where
  "mbsize m = (if moff_ge (m_off m) (MMAXOFF + 1) then 128 + CLBYTES else 128)"

definition sballoc :: "sockbuf \<Rightarrow> mbuf \<Rightarrow> sockbuf" where
  "sballoc sb m = sb\<lparr>sb_cc := s16 (sb_cc sb + m_len m), sb_mbcnt := s16 (sb_mbcnt sb + mbsize m)\<rparr>"

definition sbfree :: "sockbuf \<Rightarrow> mbuf \<Rightarrow> sockbuf" where
  "sbfree sb m = sb\<lparr>sb_cc := s16 (sb_cc sb - m_len m), sb_mbcnt := s16 (sb_mbcnt sb - mbsize m)\<rparr>"

text \<open>\<open>sblock\<close>: whether the lock was had, or the caller sleeps having set \<open>SB_WANT\<close>.\<close>

definition sblock :: "sockbuf \<Rightarrow> bool \<times> sockbuf" where
  "sblock sb = (if SB_LOCK \<in> sb_flags sb then (False, sb\<lparr>sb_flags := insert SB_WANT (sb_flags sb)\<rparr>)
                else (True, sb\<lparr>sb_flags := insert SB_LOCK (sb_flags sb)\<rparr>))"

definition sbunlock :: "sockbuf \<Rightarrow> sockbuf \<times> sbev list" where
  "sbunlock sb =
     (let sb' = sb\<lparr>sb_flags := sb_flags sb - {SB_LOCK}\<rparr>
      in if SB_WANT \<in> sb_flags sb' then (sb'\<lparr>sb_flags := sb_flags sb' - {SB_WANT}\<rparr>, [Wakeup_lock]) else (sb', []))"

text \<open>\<open>waiting\<close>: whether the process already selecting still waits in select.\<close>

definition sbselqueue :: "bool \<Rightarrow> nat \<Rightarrow> sockbuf \<Rightarrow> sockbuf" where
  "sbselqueue waiting procp sb =
     (if sb_sel sb \<noteq> None \<and> waiting then sb\<lparr>sb_flags := insert SB_COLL (sb_flags sb)\<rparr>
      else sb\<lparr>sb_sel := Some procp\<rparr>)"

definition sbwait :: "sockbuf \<Rightarrow> sockbuf" where
  "sbwait sb = sb\<lparr>sb_flags := insert SB_WAIT (sb_flags sb)\<rparr>"

definition sbwakeup :: "sockbuf \<Rightarrow> sockbuf \<times> sbev list" where
  "sbwakeup sb =
     (let (sb1, e1) = (case sb_sel sb of
            None \<Rightarrow> (sb, [])
          | Some pr \<Rightarrow> (sb\<lparr>sb_sel := None, sb_flags := sb_flags sb - {SB_COLL}\<rparr>,
                       [Selwakeup pr (SB_COLL \<in> sb_flags sb)]))
      in if SB_WAIT \<in> sb_flags sb1 then (sb1\<lparr>sb_flags := sb_flags sb1 - {SB_WAIT}\<rparr>, e1 @ [Wakeup_sb])
         else (sb1, e1))"

definition sbreserve :: "int \<Rightarrow> sockbuf \<Rightarrow> bool \<times> sockbuf" where
  "sbreserve cc sb = (True, sb\<lparr>sb_hiwat := s16 cc, sb_mbmax := s16 (cc * 2)\<rparr>)"

text \<open>\<open>sbappend\<close>: the last mbuf \<open>n\<close> takes the bytes of the next one when it has room in itself.\<close>

definition sb_fits :: "sockbuf \<Rightarrow> mbuf \<Rightarrow> bool" where
  "sb_fits sb m \<longleftrightarrow> sb_mb sb \<noteq> [] \<and>
     (case (m_off (last (sb_mb sb)), m_off m) of
        (Moff d, Moff e) \<Rightarrow> d \<le> MMAXOFF \<and> e \<le> MMAXOFF \<and> m_act (last (sb_mb sb)) = 0 \<and> m_act m = 0 \<and>
                            d + m_len (last (sb_mb sb)) + m_len m \<le> MMAXOFF
      | _ \<Rightarrow> False)"

definition sb_merge :: "byte list \<Rightarrow> int \<Rightarrow> mbuf \<Rightarrow> mbuf" where
  "sb_merge bs len n =
     (case m_off n of
        Moff d \<Rightarrow> n\<lparr>m_dat := bcopy_in bs (nat (d - MMINOFF + m_len n)) (m_dat n), m_len := s16 (m_len n + len)\<rparr>
      | Mcl c d \<Rightarrow> n)"

fun sbappend :: "sockbuf \<Rightarrow> mbuf list \<Rightarrow> mpool \<Rightarrow> (sockbuf \<times> mpool) option" where
  "sbappend sb [] p = Some (sb, p)"
| "sbappend sb (m # ms) p =
     (if m_len m = 0 \<and> m_act m = 0 then Option.bind (MFREE m p) (sbappend sb ms)
      else if sb_fits sb m then
        let n' = sb_merge (mbytes (cl_dat p) m) (m_len m) (last (sb_mb sb))
        in Option.bind (MFREE m p)
             (sbappend (sb\<lparr>sb_mb := butlast (sb_mb sb) @ [n'], sb_cc := s16 (sb_cc sb + m_len m)\<rparr>) ms)
      else sbappend ((sballoc sb m)\<lparr>sb_mb := sb_mb sb @ [m]\<rparr>) ms p)"

text \<open>
  \<open>sbappendaddr\<close>: 0 or 1, the buffer, the chain \<open>m0\<close> as the caller still sees it when 0 is returned,
  and the pool.  \<open>asa\<close> is the address as its bytes.
\<close>

definition sbappendaddr :: "byte list \<Rightarrow> mbuf list \<Rightarrow> sockbuf \<Rightarrow> mpool \<Rightarrow> (bool \<times> sockbuf \<times> mbuf list \<times> mpool) option" where
  "sbappendaddr asa m0 sb p =
     (if m0 = [] then None
      else
        let len = 16 + sum_list (map m_len m0);
            m0' = butlast m0 @ [(last m0)\<lparr>m_act := 1\<rparr>]
        in if len > sbspace sb then Some (False, sb, m0', p)
           else Option.bind (m_get 8 p) (\<lambda>(mo, p1).
             case mo of
               None \<Rightarrow> Some (False, sb, m0', p1)
             | Some m \<Rightarrow>
                 let m' = m\<lparr>m_len := 16, m_dat := bcopy_in asa 0 (m_dat m), m_act := 1\<rparr>
                 in Option.bind (sbappend sb [m'] p1) (\<lambda>(sb1, p2).
                    Option.bind (sbappend sb1 m0' p2) (\<lambda>(sb2, p3).
                    Some (True, sb2, [], p3)))))"

text \<open>\<open>sbdrop\<close>: the loop over the chain; \<open>None\<close> is the panic.\<close>

fun sbdrop_loop :: "sockbuf \<Rightarrow> int \<Rightarrow> mbuf list \<Rightarrow> mpool \<Rightarrow> (sockbuf \<times> mpool) option" where
  "sbdrop_loop sb len [] p = (if len > 0 then None else Some (sb\<lparr>sb_mb := []\<rparr>, p))"
| "sbdrop_loop sb len (m # ms) p =
     (if len > 0 then
        if m_len m > len then
          Some (sb\<lparr>sb_cc := s16 (sb_cc sb - len),
                   sb_mb := m\<lparr>m_len := m_len m - len, m_off := moff_add (m_off m) len\<rparr> # ms\<rparr>, p)
        else Option.bind (MFREE m p) (sbdrop_loop (sbfree sb m) (len - m_len m) ms)
      else Some (sb\<lparr>sb_mb := m # ms\<rparr>, p))"

definition sbdrop :: "sockbuf \<Rightarrow> int \<Rightarrow> mpool \<Rightarrow> (sockbuf \<times> mpool) option" where
  "sbdrop sb len p = sbdrop_loop sb len (sb_mb sb) p"

definition sbflush :: "sockbuf \<Rightarrow> mpool \<Rightarrow> (sockbuf \<times> mpool) option" where
  "sbflush sb p =
     (if SB_LOCK \<in> sb_flags sb then None
      else Option.bind (if sb_cc sb \<noteq> 0 then sbdrop sb (sb_cc sb) p else Some (sb, p)) (\<lambda>(sb1, p1).
        if sb_cc sb1 \<noteq> 0 \<or> sb_mbcnt sb1 \<noteq> 0 \<or> sb_mb sb1 \<noteq> [] then None else Some (sb1, p1)))"

definition sbrelease :: "sockbuf \<Rightarrow> mpool \<Rightarrow> (sockbuf \<times> mpool) option" where
  "sbrelease sb p =
     map_option (\<lambda>(sb1, p1). (sb1\<lparr>sb_hiwat := 0, sb_mbmax := 0\<rparr>, p1)) (sbflush sb p)"

section \<open>The bytes and the counts\<close>

definition sb_ok :: "(nat \<Rightarrow> byte list) \<Rightarrow> sockbuf \<Rightarrow> bool" where
  "sb_ok cl sb \<longleftrightarrow> (\<forall>m \<in> set (sb_mb sb). mb_ok cl m) \<and>
     sb_cc sb = s16 (sum_list (map m_len (sb_mb sb))) \<and> sb_mbcnt sb = s16 (sum_list (map mbsize (sb_mb sb)))"

definition sb_data :: "(nat \<Rightarrow> byte list) \<Rightarrow> sockbuf \<Rightarrow> byte list" where
  "sb_data cl sb = chain_data cl (sb_mb sb)"

lemma chain_len: "\<forall>m \<in> set ms. mb_ok cl m \<Longrightarrow> int (length (chain_data cl ms)) = sum_list (map m_len ms)"
  by (induction ms) (auto dest: mb_ok_len)

lemma sb_cc_data: "sb_ok cl sb \<Longrightarrow> sb_cc sb = s16 (int (length (sb_data cl sb)))"
  by (simp add: sb_ok_def sb_data_def chain_len)

lemma mbsize_cong: "m_off m' = m_off m \<Longrightarrow> mbsize m' = mbsize m"
  by (simp add: mbsize_def)

lemma mbsize_moff_add: "mb_ok cl m \<Longrightarrow> 0 \<le> k \<Longrightarrow> k \<le> m_len m \<Longrightarrow>
    mbsize (m\<lparr>m_len := x, m_off := moff_add (m_off m) k\<rparr>) = mbsize m"
  by (cases "m_off m") (auto simp: mbsize_def mb_ok_def mconst)

lemma butlast_last_data: "xs \<noteq> [] \<Longrightarrow> chain_data cl xs = chain_data cl (butlast xs) @ mbytes cl (last xs)"
  by (subst append_butlast_last_id [symmetric], assumption, simp only: chain_data_simps append_Nil2)

lemma sum_butlast_last: "xs \<noteq> [] \<Longrightarrow> sum_list (map f xs) = sum_list (map f (butlast xs)) + (f (last xs) :: int)"
  by (subst append_butlast_last_id [symmetric], assumption, simp only: map_append sum_list.append) simp

lemma sb_merge_data:
  assumes "sb_fits sb m" "mb_ok cl (last (sb_mb sb))" "mb_ok cl m"
  defines "n' \<equiv> sb_merge (mbytes cl m) (m_len m) (last (sb_mb sb))"
  shows "mb_ok cl n'" "mbytes cl n' = mbytes cl (last (sb_mb sb)) @ mbytes cl m"
    "m_len n' = m_len (last (sb_mb sb)) + m_len m" "mbsize n' = mbsize (last (sb_mb sb))"
    "mref c n' = mref c (last (sb_mb sb))" "mref c m = 0"
proof -
  obtain d e where d: "m_off (last (sb_mb sb)) = Moff d" "m_off m = Moff e"
      "d + m_len (last (sb_mb sb)) + m_len m \<le> 124"
    using assms(1) by (auto simp: sb_fits_def mconst split: moff.splits)
  let ?n = "last (sb_mb sb)"
  have n': "n' = ?n\<lparr>m_dat := bcopy_in (mbytes cl m) (nat (d - 12 + m_len ?n)) (m_dat ?n), m_len := s16 (m_len ?n + m_len m)\<rparr>"
    using d by (simp add: n'_def sb_merge_def mconst)
  note a = append_inside [OF assms(2) d(1) mbytes_len [OF assms(3)] _ d(3) n']
  have "0 \<le> m_len m" using mb_ok_len [OF assms(3)] by simp
  note a = a [OF this]
  show "mb_ok cl n'" "mbytes cl n' = mbytes cl ?n @ mbytes cl m" "m_len n' = m_len ?n + m_len m"
    "mref c n' = mref c ?n" using a by auto
  show "mbsize n' = mbsize ?n" using n' by (simp add: mbsize_def)
  show "mref c m = 0" using d(2) by (simp add: mref_def)
qed

lemma sbappend_step:
  "pool_ok p \<Longrightarrow> sb_ok (cl_dat p) sb \<Longrightarrow> \<forall>m \<in> set ms. mb_ok (cl_dat p) m \<Longrightarrow>
   \<exists>sb' p'. sbappend sb ms p = Some (sb', p') \<and> pool_step p p' \<and> sb_ok (cl_dat p) sb' \<and>
     sb_data (cl_dat p) sb' = sb_data (cl_dat p) sb @ chain_data (cl_dat p) ms \<and>
     sb_hiwat sb' = sb_hiwat sb \<and> sb_mbmax sb' = sb_mbmax sb \<and> sb_flags sb' = sb_flags sb \<and> sb_sel sb' = sb_sel sb \<and>
     (\<forall>c. mclrefcnt p' c + of_nat (refs (sb_mb sb) c + refs ms c) = mclrefcnt p c + of_nat (refs (sb_mb sb') c))"
proof (induction ms arbitrary: sb p)
  case Nil
  then show ?case using pool_step_refl [OF Nil(1)] by simp
next
  case (Cons m ms)
  let ?cl = "cl_dat p"
  have mok: "mb_ok ?cl m" "\<forall>m \<in> set ms. mb_ok ?cl m" using Cons.prems(3) by simp_all
  obtain p1 where p1: "MFREE m p = Some p1" "pool_step p p1" "\<forall>c. mclrefcnt p1 c = mclrefcnt p c - of_nat (mref c m)"
    using MFREE_step [OF Cons.prems(1)] mb_ok_freeable [OF mok(1)] by blast
  have p1ok: "pool_ok p1" "cl_dat p1 = ?cl" using p1(2) by (simp_all add: pool_step_def)
  show ?case
  proof (cases "m_len m = 0 \<and> m_act m = 0")
    case True
    then have e: "mbytes ?cl m = []" by (simp add: mbytes_empty)
    obtain sb' p' where r: "sbappend sb ms p1 = Some (sb', p')" "pool_step p1 p'" "sb_ok ?cl sb'"
       "sb_data ?cl sb' = sb_data ?cl sb @ chain_data ?cl ms"
       "sb_hiwat sb' = sb_hiwat sb" "sb_mbmax sb' = sb_mbmax sb" "sb_flags sb' = sb_flags sb" "sb_sel sb' = sb_sel sb"
       "\<forall>c. mclrefcnt p' c + of_nat (refs (sb_mb sb) c + refs ms c) = mclrefcnt p1 c + of_nat (refs (sb_mb sb') c)"
      using Cons.IH [OF p1ok(1)] Cons.prems(2) mok(2) unfolding p1ok(2) by blast
    have "mclrefcnt p' c + of_nat (refs (sb_mb sb) c + refs (m # ms) c) = mclrefcnt p c + of_nat (refs (sb_mb sb') c)" for c
    proof -
      have "mclrefcnt p' c + of_nat (refs (sb_mb sb) c + refs (m # ms) c) =
          (mclrefcnt p' c + of_nat (refs (sb_mb sb) c + refs ms c)) + of_nat (mref c m)"
        by (simp add: add.commute add.left_commute)
      also have "\<dots> = mclrefcnt p c + of_nat (refs (sb_mb sb') c)" using r(9) p1(3) by simp
      finally show ?thesis .
    qed
    then show ?thesis using True e p1(1) r(1,3-8) pool_step_trans [OF p1(2) r(2)] by auto
  next
    case keep: False
    show ?thesis
    proof (cases "sb_fits sb m")
      case True
      have ne: "sb_mb sb \<noteq> []" using True by (simp add: sb_fits_def)
      have lok: "mb_ok ?cl (last (sb_mb sb))" using ne Cons.prems(2) by (simp add: sb_ok_def)
      note mg = sb_merge_data [OF True lok mok(1)]
      let ?n = "sb_merge (mbytes ?cl m) (m_len m) (last (sb_mb sb))"
      let ?sb = "sb\<lparr>sb_mb := butlast (sb_mb sb) @ [?n], sb_cc := s16 (sb_cc sb + m_len m)\<rparr>"
      have sbok: "sb_ok ?cl ?sb"
        using Cons.prems(2) mg(1,3,4) sum_butlast_last [OF ne, of m_len] sum_butlast_last [OF ne, of mbsize]
        by (auto simp: sb_ok_def add.assoc dest: in_set_butlastD)
      have dat: "sb_data ?cl ?sb = sb_data ?cl sb @ mbytes ?cl m"
        using mg(2) butlast_last_data [OF ne, of ?cl] by (simp add: sb_data_def)
      have rf: "refs (sb_mb ?sb) c = refs (sb_mb sb) c" for c
        using mg(5) append_butlast_last_id [OF ne] refs_simps(3) [of "butlast (sb_mb sb)" "[last (sb_mb sb)]" c] by simp
      obtain sb' p' where r: "sbappend ?sb ms p1 = Some (sb', p')" "pool_step p1 p'" "sb_ok ?cl sb'"
         "sb_data ?cl sb' = sb_data ?cl ?sb @ chain_data ?cl ms"
         "sb_hiwat sb' = sb_hiwat ?sb" "sb_mbmax sb' = sb_mbmax ?sb" "sb_flags sb' = sb_flags ?sb" "sb_sel sb' = sb_sel ?sb"
         "\<forall>c. mclrefcnt p' c + of_nat (refs (sb_mb ?sb) c + refs ms c) = mclrefcnt p1 c + of_nat (refs (sb_mb sb') c)"
        using Cons.IH [OF p1ok(1), of ?sb] sbok mok(2) unfolding p1ok(2) by blast
      have "sbappend sb (m # ms) p = sbappend ?sb ms p1"
        using keep True p1(1) by (auto simp: Let_def)
      moreover have "mclrefcnt p' c + of_nat (refs (sb_mb sb) c + refs (m # ms) c) = mclrefcnt p c + of_nat (refs (sb_mb sb') c)" for c
        using r(9) [unfolded rf] p1(3) mg(6) by simp
      ultimately show ?thesis using r dat pool_step_trans [OF p1(2) r(2)] by simp
    next
      case False
      let ?sb = "(sballoc sb m)\<lparr>sb_mb := sb_mb sb @ [m]\<rparr>"
      have sbok: "sb_ok ?cl ?sb" using Cons.prems(2) mok(1) by (auto simp: sb_ok_def sballoc_def)
      have dat: "sb_data ?cl ?sb = sb_data ?cl sb @ mbytes ?cl m" by (simp add: sb_data_def)
      obtain sb' p' where r: "sbappend ?sb ms p = Some (sb', p')" "pool_step p p'" "sb_ok ?cl sb'"
         "sb_data ?cl sb' = sb_data ?cl ?sb @ chain_data ?cl ms"
         "sb_hiwat sb' = sb_hiwat ?sb" "sb_mbmax sb' = sb_mbmax ?sb" "sb_flags sb' = sb_flags ?sb" "sb_sel sb' = sb_sel ?sb"
         "\<forall>c. mclrefcnt p' c + of_nat (refs (sb_mb ?sb) c + refs ms c) = mclrefcnt p c + of_nat (refs (sb_mb sb') c)"
        using Cons.IH [OF Cons.prems(1), of ?sb] sbok mok(2) by blast
      have "sbappend sb (m # ms) p = sbappend ?sb ms p" using keep False by auto
      then show ?thesis using r dat by (simp add: sballoc_def add.assoc)
    qed
  qed
qed

lemma sbdrop_loop_step:
  "pool_ok p \<Longrightarrow> sb_ok (cl_dat p) (sb\<lparr>sb_mb := ms\<rparr>) \<Longrightarrow> nat len \<le> length (chain_data (cl_dat p) ms) \<Longrightarrow>
   \<exists>sb' p'. sbdrop_loop sb len ms p = Some (sb', p') \<and> pool_step p p' \<and> sb_ok (cl_dat p) sb' \<and>
     sb_data (cl_dat p) sb' = drop (nat len) (chain_data (cl_dat p) ms) \<and> set (map m_act (sb_mb sb')) \<subseteq> set (map m_act ms) \<and>
     sb_hiwat sb' = sb_hiwat sb \<and> sb_mbmax sb' = sb_mbmax sb \<and> sb_flags sb' = sb_flags sb \<and> sb_sel sb' = sb_sel sb \<and>
     (\<forall>c. mclrefcnt p' c + of_nat (refs ms c) = mclrefcnt p c + of_nat (refs (sb_mb sb') c))"
proof (induction ms arbitrary: sb len p)
  case Nil
  then show ?case using pool_step_refl [OF Nil(1)] by (auto simp: sb_data_def)
next
  case (Cons m ms)
  let ?cl = "cl_dat p"
  have mok: "mb_ok ?cl m" "\<forall>m \<in> set ms. mb_ok ?cl m" using Cons.prems(2) by (simp_all add: sb_ok_def)
  have sums: "sb_cc sb = s16 (m_len m + sum_list (map m_len ms))" "sb_mbcnt sb = s16 (mbsize m + sum_list (map mbsize ms))"
    using Cons.prems(2) by (simp_all add: sb_ok_def)
  show ?case
  proof (cases "len > 0")
    case False
    then show ?thesis using Cons.prems(2) pool_step_refl [OF Cons.prems(1)] by (simp add: sb_data_def)
  next
    case pos: True
    show ?thesis
    proof (cases "m_len m > len")
      case True
      let ?m = "m\<lparr>m_len := m_len m - len, m_off := moff_add (m_off m) len\<rparr>"
      have k: "0 \<le> len" "len \<le> m_len m" using pos True by simp_all
      have ref: "mref c ?m = mref c m" for c by (cases "m_off m") (simp_all add: mref_def)
      have cnt: "s16 (sb_cc sb - len) = s16 (m_len m - len + sum_list (map m_len ms))" using sums(1) by (simp add: algebra_simps)
      have "nat len \<le> length (mbytes ?cl m)" using mok(1) k by simp
      then show ?thesis
        using pos True mbytes_skip [OF mok(1) k] mok(2) sums(2) cnt mbsize_moff_add [OF mok(1) k] ref
          pool_step_refl [OF Cons.prems(1)]
        by (simp add: sb_ok_def sb_data_def)
    next
      case False
      obtain p1 where p1: "MFREE m p = Some p1" "pool_step p p1" "\<forall>c. mclrefcnt p1 c = mclrefcnt p c - of_nat (mref c m)"
        using MFREE_step [OF Cons.prems(1)] mb_ok_freeable [OF mok(1)] by blast
      have p1ok: "pool_ok p1" "cl_dat p1 = ?cl" using p1(2) by (simp_all add: pool_step_def)
      have sbok: "sb_ok ?cl ((sbfree sb m)\<lparr>sb_mb := ms\<rparr>)"
        using mok(2) sums by (simp add: sb_ok_def sbfree_def algebra_simps)
      have n: "nat len = nat (len - m_len m) + nat (m_len m)"
        using False mb_ok_len [OF mok(1)] nat_add_distrib [of "len - m_len m" "m_len m"] by simp
      have le: "nat (len - m_len m) \<le> length (chain_data ?cl ms)" using Cons.prems(3) n mok(1) by simp
      obtain sb' p' where r: "sbdrop_loop (sbfree sb m) (len - m_len m) ms p1 = Some (sb', p')" "pool_step p1 p'" "sb_ok ?cl sb'"
         "sb_data ?cl sb' = drop (nat (len - m_len m)) (chain_data ?cl ms)" "set (map m_act (sb_mb sb')) \<subseteq> set (map m_act ms)"
         "sb_hiwat sb' = sb_hiwat (sbfree sb m)" "sb_mbmax sb' = sb_mbmax (sbfree sb m)"
         "sb_flags sb' = sb_flags (sbfree sb m)" "sb_sel sb' = sb_sel (sbfree sb m)"
         "\<forall>c. mclrefcnt p' c + of_nat (refs ms c) = mclrefcnt p1 c + of_nat (refs (sb_mb sb') c)"
        using Cons.IH [OF p1ok(1), of "sbfree sb m" "len - m_len m"] sbok le unfolding p1ok(2) by blast
      have "mclrefcnt p' c + of_nat (refs (m # ms) c) = mclrefcnt p c + of_nat (refs (sb_mb sb') c)" for c
      proof -
        have "mclrefcnt p' c + of_nat (refs (m # ms) c) = (mclrefcnt p' c + of_nat (refs ms c)) + of_nat (mref c m)"
          by (simp add: add.commute add.left_commute)
        also have "\<dots> = mclrefcnt p c + of_nat (refs (sb_mb sb') c)" using r(10) p1(3) by simp
        finally show ?thesis .
      qed
      moreover have "drop (nat len) (mbytes ?cl m @ chain_data ?cl ms) = drop (nat (len - m_len m)) (chain_data ?cl ms)"
        using mok(1) n by simp
      moreover have "set (map m_act (sb_mb sb')) \<subseteq> set (map m_act (m # ms))" using r(5) by auto
      ultimately show ?thesis using pos False p1(1) r(1,3,4,6-9) pool_step_trans [OF p1(2) r(2)]
        by (simp add: sbfree_def)
    qed
  qed
qed

section \<open>The contract of a byte stream\<close>

text \<open>
  What the protocols and the socket calls rely on: bytes enter at the end, leave at the front, and any
  run of the two operations moves the stream along, whatever the packing into mbufs.
\<close>

locale byte_stream =
  fixes app :: "'m \<Rightarrow> 's \<Rightarrow> 's option"
    and drp :: "nat \<Rightarrow> 's \<Rightarrow> 's option"
    and stream :: "'s \<Rightarrow> 'b list"
    and carried :: "'m \<Rightarrow> 'b list"
    and ok :: "'s \<Rightarrow> bool"
    and fit :: "'m \<Rightarrow> bool"
  assumes app: "ok s \<Longrightarrow> fit m \<Longrightarrow> \<exists>s'. app m s = Some s' \<and> ok s' \<and> stream s' = stream s @ carried m"
    and drp: "ok s \<Longrightarrow> n \<le> length (stream s) \<Longrightarrow> \<exists>s'. drp n s = Some s' \<and> ok s' \<and> stream s' = drop n (stream s)"
begin

fun run :: "('m + nat) list \<Rightarrow> 's \<Rightarrow> 's option" where
  "run [] s = Some s"
| "run (Inl m # os) s = Option.bind (app m s) (run os)"
| "run (Inr n # os) s = Option.bind (drp n s) (run os)"

text \<open>The bytes put in and the number taken out, and that no prefix of the run takes out too many.\<close>

fun put_in :: "('m + nat) list \<Rightarrow> 'b list" where
  "put_in [] = []"
| "put_in (Inl m # os) = carried m @ put_in os"
| "put_in (Inr n # os) = put_in os"

fun taken :: "('m + nat) list \<Rightarrow> nat" where
  "taken [] = 0"
| "taken (Inl m # os) = taken os"
| "taken (Inr n # os) = n + taken os"

fun feasible :: "nat \<Rightarrow> ('m + nat) list \<Rightarrow> bool" where
  "feasible k [] = True"
| "feasible k (Inl m # os) = (fit m \<and> feasible (k + length (carried m)) os)"
| "feasible k (Inr n # os) = (n \<le> k \<and> feasible (k - n) os)"

lemma run_stream:
  "ok s \<Longrightarrow> feasible (length (stream s)) os \<Longrightarrow>
   \<exists>s'. run os s = Some s' \<and> ok s' \<and> stream s' = drop (taken os) (stream s @ put_in os) \<and>
        taken os \<le> length (stream s) + length (put_in os)"
proof (induction os arbitrary: s)
  case (Cons x os)
  show ?case
  proof (cases x)
    case (Inl m)
    obtain s1 where s1: "app m s = Some s1" "ok s1" "stream s1 = stream s @ carried m"
      using app Cons.prems Inl by auto
    with Cons.IH [OF s1(2)] Cons.prems(2) Inl show ?thesis by auto
  next
    case (Inr n)
    have le: "n \<le> length (stream s)" using Cons.prems(2) Inr by simp
    obtain s1 where s1: "drp n s = Some s1" "ok s1" "stream s1 = drop n (stream s)"
      using drp [OF Cons.prems(1) le] by blast
    obtain s' where r: "run os s1 = Some s'" "ok s'" "stream s' = drop (taken os) (stream s1 @ put_in os)"
       "taken os \<le> length (stream s1) + length (put_in os)"
      using Cons.IH [OF s1(2)] Cons.prems(2) Inr s1(3) by auto
    have "drop (taken os) (drop n (stream s) @ put_in os) = drop (n + taken os) (stream s @ put_in os)"
      using le by (simp add: drop_append add.commute)
    with r s1 Inr le show ?thesis by auto
  qed
qed simp

end

definition sbs_app :: "mbuf list \<Rightarrow> sockbuf \<times> mpool \<Rightarrow> (sockbuf \<times> mpool) option" where
  "sbs_app m s = sbappend (fst s) m (snd s)"

definition sbs_drop :: "nat \<Rightarrow> sockbuf \<times> mpool \<Rightarrow> (sockbuf \<times> mpool) option" where
  "sbs_drop n s = sbdrop (fst s) (int n) (snd s)"

definition sbs_ok :: "(nat \<Rightarrow> byte list) \<Rightarrow> sockbuf \<times> mpool \<Rightarrow> bool" where
  "sbs_ok cl s \<longleftrightarrow> pool_ok (snd s) \<and> cl_dat (snd s) = cl \<and> sb_ok cl (fst s)"

interpretation sbs: byte_stream sbs_app sbs_drop "\<lambda>s. sb_data cl (fst s)" "chain_data cl" "sbs_ok cl"
  "\<lambda>ms. \<forall>m \<in> set ms. mb_ok cl m" for cl
proof (unfold_locales, goal_cases)
  case (1 s m)
  then show ?case using sbappend_step [of "snd s" "fst s" m]
    by (auto simp: sbs_ok_def sbs_app_def pool_step_def)
next
  case (2 s n)
  then show ?case using sbdrop_loop_step [where p = "snd s" and sb = "fst s" and ms = "sb_mb (fst s)" and len = "int n"]
    by (auto simp: sbs_ok_def sbs_drop_def sbdrop_def sb_data_def pool_step_def)
qed

lemma sbdrop_step:
  "pool_ok p \<Longrightarrow> sb_ok (cl_dat p) sb \<Longrightarrow> nat len \<le> length (sb_data (cl_dat p) sb) \<Longrightarrow>
   \<exists>sb' p'. sbdrop sb len p = Some (sb', p') \<and> pool_step p p' \<and> sb_ok (cl_dat p) sb' \<and>
     sb_data (cl_dat p) sb' = drop (nat len) (sb_data (cl_dat p) sb) \<and>
     sb_hiwat sb' = sb_hiwat sb \<and> sb_mbmax sb' = sb_mbmax sb \<and> sb_flags sb' = sb_flags sb \<and> sb_sel sb' = sb_sel sb \<and>
     (\<forall>c. mclrefcnt p' c + of_nat (refs (sb_mb sb) c) = mclrefcnt p c + of_nat (refs (sb_mb sb') c))"
  using sbdrop_loop_step [where p = p and sb = sb and ms = "sb_mb sb" and len = len]
  by (auto simp: sbdrop_def sb_data_def)

text \<open>Flushing a buffer whose mbufs all hold data.\<close>

lemma drop_all_nonempty:
  "sbdrop_loop sb len ms p = Some (sb', p') \<Longrightarrow> \<forall>m \<in> set ms. 0 < m_len m \<Longrightarrow> len = sum_list (map m_len ms) \<Longrightarrow> sb_mb sb' = []"
proof (induction ms arbitrary: sb len p)
  case (Cons m ms)
  have s: "0 \<le> sum_list (map m_len ms)" using Cons.prems(2) by (intro sum_list_nonneg) auto
  with Cons show ?case by (auto simp: bind_eq_Some_conv split: if_splits)
qed (auto split: if_splits)

section \<open>Properties\<close>

definition sb_demo :: sockbuf where
  "sb_demo = \<lparr>sb_cc = 5, sb_hiwat = 2048, sb_mbcnt = 1280, sb_mbmax = 4096, sb_mb = [mdata [1, 2], mcluster], sb_sel = None,
              sb_flags = {}\<rparr>"

lemma sb_demo_ok: "sb_ok (cl_dat pool_demo) sb_demo" "sb_data (cl_dat pool_demo) sb_demo = [1, 2, 7, 7, 7]"
  by (simp_all add: sb_demo_def sb_ok_def mdata_ok mcluster_ok sb_data_def mdata_bytes)
    (simp_all add: mdata_def mcluster_def mbsize_def mconst s16_def)

text \<open>C38: a socket buffer is a stream of bytes.  Any sequence of \<open>sbappend\<close> and \<open>sbdrop\<close> in which no
  drop takes more than is there runs without a panic, and what is left is everything put in, in order,
  without the number of bytes taken out; the counts of the buffer agree with the chain all along.\<close>

theorem sockbuf_is_stream:
  assumes "pool_ok p" "sb_ok (cl_dat p) sb" "sbs.feasible (cl_dat p) (length (sb_data (cl_dat p) sb)) os"
  shows "\<exists>sb' p'. sbs.run os (sb, p) = Some (sb', p') \<and> sb_ok (cl_dat p) sb' \<and>
     sb_cc sb' = s16 (int (length (sb_data (cl_dat p) sb'))) \<and>
     sb_data (cl_dat p) sb' = drop (sbs.taken os) (sb_data (cl_dat p) sb @ sbs.put_in (cl_dat p) os)"
  using sbs.run_stream [of "cl_dat p" "(sb, p)" os] assms sb_cc_data by (fastforce simp: sbs_ok_def)

theorem sockbuf_is_stream_witness:
  "\<exists>sb' p'. sbs.run [Inr 3, Inl [mdata [8], mdata []], Inl [mcluster], Inr 1] (sb_demo, pool_demo) = Some (sb', p') \<and>
     sb_data (cl_dat pool_demo) sb' = [7, 8, 7, 7, 7]"
  using sockbuf_is_stream [OF pool_demo_ok sb_demo_ok(1), of "[Inr 3, Inl [mdata [8], mdata []], Inl [mcluster], Inr 1]"]
  by (auto simp: sb_demo_ok mdata_ok mdata_bytes mcluster_ok)

text \<open>\<open>sbflush\<close> empties a buffer and frees every mbuf when all its mbufs hold data and the counts do
  not wrap; but an empty record, such as a datagram without data that \<open>sbappendaddr\<close> has stored, is not
  removed by dropping the byte count, so flushing the buffer panics.\<close>

theorem sbflush_empty_record:
  assumes "pool_ok p" "sb_ok (cl_dat p) sb" "SB_LOCK \<notin> sb_flags sb" "\<forall>m \<in> set (sb_mb sb). 0 < m_len m"
    "sum_list (map m_len (sb_mb sb)) < 32768" "mb_ok (cl_dat p) e" "m_len e = 0"
  shows "(\<exists>sb' p'. sbflush sb p = Some (sb', p') \<and> sb_mb sb' = [] \<and> sb_cc sb' = 0 \<and> sb_mbcnt sb' = 0) \<and>
     sbflush (sb\<lparr>sb_mb := sb_mb sb @ [e], sb_mbcnt := s16 (sb_mbcnt sb + mbsize e)\<rparr>) p = None"
proof
  let ?cl = "cl_dat p"
  have s0: "0 \<le> sum_list (map m_len (sb_mb sb))" using assms(4) by (intro sum_list_nonneg) auto
  have cc: "sb_cc sb = sum_list (map m_len (sb_mb sb))" using assms(2,5) s0 by (simp add: sb_ok_def cint)
  have ok: "\<forall>m \<in> set (sb_mb sb). mb_ok ?cl m" using assms(2) by (simp add: sb_ok_def)
  have nn: "sb_cc sb = 0 \<longleftrightarrow> sb_mb sb = []"
  proof
    assume z: "sb_cc sb = 0"
    show "sb_mb sb = []"
    proof (cases "sb_mb sb")
      case (Cons m ms)
      have "0 \<le> sum_list (map m_len ms)" using assms(4) Cons by (intro sum_list_nonneg) auto
      then show ?thesis using z cc assms(4) Cons by simp
    qed
  qed (simp add: cc)
  have le: "nat (sb_cc sb) \<le> length (sb_data ?cl sb)" using chain_len [OF ok] cc by (simp add: sb_data_def)
  obtain sb' p' where d: "sbdrop sb (sb_cc sb) p = Some (sb', p')" "sb_ok ?cl sb'"
    using sbdrop_step [OF assms(1,2) le] by blast
  have e: "sb_mb sb' = []" using drop_all_nonempty [OF d(1) [unfolded sbdrop_def] assms(4)] cc by simp
  then have z: "sb_cc sb' = 0" "sb_mbcnt sb' = 0" using d(2) by (simp_all add: sb_ok_def)
  show "\<exists>sb' p'. sbflush sb p = Some (sb', p') \<and> sb_mb sb' = [] \<and> sb_cc sb' = 0 \<and> sb_mbcnt sb' = 0"
  proof (cases "sb_cc sb = 0")
    case True
    then show ?thesis using nn assms(2,3) by (auto simp: sbflush_def sb_ok_def)
  next
    case False
    then show ?thesis using d(1) e z assms(3) by (auto simp: sbflush_def)
  qed
  let ?e = "sb\<lparr>sb_mb := sb_mb sb @ [e], sb_mbcnt := s16 (sb_mbcnt sb + mbsize e)\<rparr>"
  show "sbflush ?e p = None"
  proof (cases "sb_cc sb = 0")
    case True
    then show ?thesis using nn by (simp add: sbflush_def)
  next
    case False
    have keep: "sbdrop_loop s len (ms @ [e]) q = Some (s', q') \<Longrightarrow> \<forall>m \<in> set ms. 0 < m_len m \<Longrightarrow>
        len = sum_list (map m_len ms) \<Longrightarrow> ms \<noteq> [] \<Longrightarrow> sb_mb s' \<noteq> []" for s s' len ms q q'
    proof (induction ms arbitrary: s len q)
      case (Cons m ms)
      have s: "0 \<le> sum_list (map m_len ms)" using Cons.prems(2) by (intro sum_list_nonneg) auto
      have m: "0 < m_len m" using Cons.prems(2) by simp
      show ?case
      proof (cases "ms = []")
        case True
        then show ?thesis using Cons.prems(1,3) m by (auto simp: bind_eq_Some_conv split: if_splits)
      next
        case False
        then show ?thesis using Cons.IH [OF _ _ _ False] Cons.prems s m
          by (auto simp: bind_eq_Some_conv split: if_splits)
      qed
    qed simp
    have "sb_mb sb \<noteq> []" using False nn by simp
    then have "sb_mb s' \<noteq> []" if "sbdrop ?e (sb_cc sb) p = Some (s', q')" for s' q'
      using keep [of ?e "sb_cc sb" "sb_mb sb" p s' q'] that assms(4) cc by (simp add: sbdrop_def)
    then show ?thesis using False assms(3)
      by (cases "sbdrop ?e (sb_cc sb) p") (auto simp: sbflush_def)
  qed
qed

theorem sbflush_empty_record_witness:
  "(\<exists>sb' p'. sbflush sb_demo pool_demo = Some (sb', p') \<and> sb_mb sb' = [] \<and> sb_cc sb' = 0 \<and> sb_mbcnt sb' = 0) \<and>
   sbflush (sb_demo\<lparr>sb_mb := sb_mb sb_demo @ [(mdata [])\<lparr>m_act := 1\<rparr>], sb_mbcnt := s16 (1280 + 128)\<rparr>) pool_demo = None"
proof -
  have "mbsize ((mdata [])\<lparr>m_act := 1\<rparr>) = 128" by (simp add: mdata_def mbsize_def mconst)
  moreover have "mb_ok cl ((mdata [])\<lparr>m_act := 1\<rparr>)" "m_len ((mdata [])\<lparr>m_act := 1\<rparr>) = 0" for cl
    by (simp_all add: mdata_def mb_ok_def)
  moreover have "sb_mbcnt sb_demo = 1280" "SB_LOCK \<notin> sb_flags sb_demo" "\<forall>m \<in> set (sb_mb sb_demo). 0 < m_len m"
    "sum_list (map m_len (sb_mb sb_demo)) < 32768"
    by (simp_all add: sb_demo_def mdata_def mcluster_def)
  ultimately show ?thesis
    using sbflush_empty_record [OF pool_demo_ok sb_demo_ok(1), of "(mdata [])\<lparr>m_act := 1\<rparr>"] by simp
qed

end
