(* ===== verification/Socket.thy ===== *)
theory Socket
  imports Sockbuf
begin

text \<open>
  The sockets of sys/h/socketvar.h, the first half of sys/sys/uipc_socket2.c and the connection calls of
  sys/sys/uipc_socket.c.  Sockets live in a store and refer to each other by address, 0 being NULL; the
  two queues of an accepting socket are the circular lists of the code.  Flag words are sets.  The
  protocol's \<open>pr_usrreq\<close> is called through a pointer, so it is an argument here.  Waking a process up
  appends an event; \<open>None\<close> is a panic or the use of a null pointer.
\<close>

section \<open>The state\<close>

datatype ss = SS_NOFDREF | SS_ISCONNECTED | SS_ISCONNECTING | SS_ISDISCONNECTING | SS_CANTSENDMORE
  | SS_CANTRCVMORE | SS_RCVATMARK | SS_PRIV | SS_NBIO | SS_ASYNC

datatype soopt = SO_DEBUG | SO_ACCEPTCONN | SO_REUSEADDR | SO_KEEPALIVE | SO_DONTROUTE | SO_NEWFDONCONN
  | SO_USELOOPBACK | SO_LINGER

datatype prflag = PR_ATOMIC | PR_ADDR | PR_CONNREQUIRED | PR_WANTRCVD

datatype soerr = ENOBUFS | EISCONN | ENOTCONN | EALREADY | EINPROGRESS | EPROTONOSUPPORT | EPROTOTYPE
  | EADDRINUSE | EADDRNOTAVAIL | EAFNOSUPPORT | EACCES | EOPNOTSUPP | EINVAL_net | ECONNREFUSED | ECONNRESET
  | ETIMEDOUT | ECONNABORTED | EWOULDBLOCK | ENETUNREACH | EHOSTDOWN | EHOSTUNREACH | EMSGSIZE | EPIPE
  | EDESTADDRREQ

datatype prureq = PRU_ATTACH | PRU_DETACH | PRU_BIND | PRU_LISTEN | PRU_CONNECT | PRU_ACCEPT | PRU_DISCONNECT
  | PRU_SHUTDOWN | PRU_RCVD | PRU_SEND | PRU_ABORT | PRU_CONTROL | PRU_SENSE | PRU_RCVOOB | PRU_SENDOOB
  | PRU_SOCKADDR | PRU_SLOWTIMO

record protosw =
  pr_type :: int
  pr_flags :: "prflag set"

record socket =
  so_type :: int
  so_options :: "soopt set"
  so_linger :: int
  so_state :: "ss set"
  so_pcb :: nat
  so_proto :: protosw
  so_head :: nat
  so_q0 :: nat
  so_q0len :: int
  so_q :: nat
  so_qlen :: int
  so_qlimit :: int
  so_rcv :: sockbuf
  so_snd :: sockbuf
  so_timeo :: int
  so_error :: "soerr option"
  so_oobmark :: int
  so_pgrp :: int
  so_mbuf :: mbuf

datatype netev = Wakeup_timeo nat | Ev_rcv nat sbev | Ev_snd nat sbev

record net =
  pool :: mpool
  sockets :: "nat \<Rightarrow> socket option"
  nextaddr :: nat
  wakeups :: "netev list"

definition sb_clear :: sockbuf where
  "sb_clear = \<lparr>sb_cc = 0, sb_hiwat = 0, sb_mbcnt = 0, sb_mbmax = 0, sb_mb = [], sb_sel = None, sb_flags = {}\<rparr>"

text \<open>A socket just cleared by \<open>m_getclr\<close>, in mbuf \<open>m\<close>.\<close>

definition so_clear :: "mbuf \<Rightarrow> socket" where
  "so_clear m = \<lparr>so_type = 0, so_options = {}, so_linger = 0, so_state = {}, so_pcb = 0,
     so_proto = \<lparr>pr_type = 0, pr_flags = {}\<rparr>, so_head = 0, so_q0 = 0, so_q0len = 0, so_q = 0, so_qlen = 0,
     so_qlimit = 0, so_rcv = sb_clear, so_snd = sb_clear, so_timeo = 0, so_error = None, so_oobmark = 0,
     so_pgrp = 0, so_mbuf = m\<rparr>"

definition so_put :: "nat \<Rightarrow> socket \<Rightarrow> 'a net_scheme \<Rightarrow> 'a net_scheme" where
  "so_put so s n = n\<lparr>sockets := (sockets n)(so := Some s)\<rparr>"

definition so_mod :: "nat \<Rightarrow> (socket \<Rightarrow> socket) \<Rightarrow> 'a net_scheme \<Rightarrow> 'a net_scheme option" where
  "so_mod so f n = map_option (\<lambda>s. so_put so (f s) n) (sockets n so)"

definition net_event :: "netev list \<Rightarrow> 'a net_scheme \<Rightarrow> 'a net_scheme" where
  "net_event e n = n\<lparr>wakeups := wakeups n @ e\<rparr>"

section \<open>Select and wakeup\<close>

definition sorwakeup :: "nat \<Rightarrow> 'a net_scheme \<Rightarrow> 'a net_scheme option" where
  "sorwakeup so n =
     map_option (\<lambda>s. let (sb, e) = sbwakeup (so_rcv s)
                     in net_event (map (Ev_rcv so) e) (so_put so (s\<lparr>so_rcv := sb\<rparr>) n)) (sockets n so)"

definition sowwakeup :: "nat \<Rightarrow> 'a net_scheme \<Rightarrow> 'a net_scheme option" where
  "sowwakeup so n =
     map_option (\<lambda>s. let (sb, e) = sbwakeup (so_snd s)
                     in net_event (map (Ev_snd so) e) (so_put so (s\<lparr>so_snd := sb\<rparr>) n)) (sockets n so)"

definition soreadable :: "socket \<Rightarrow> bool" where
  "soreadable s \<longleftrightarrow> sb_cc (so_rcv s) \<noteq> 0 \<or> SS_CANTRCVMORE \<in> so_state s \<or> so_qlen s \<noteq> 0"

definition sowriteable :: "socket \<Rightarrow> bool" where
  "sowriteable s \<longleftrightarrow>
     sbspace (so_snd s) > 0 \<and> (SS_ISCONNECTED \<in> so_state s \<or> PR_CONNREQUIRED \<notin> pr_flags (so_proto s)) \<or>
     SS_CANTSENDMORE \<in> so_state s"

definition sosendallatonce :: "socket \<Rightarrow> bool" where
  "sosendallatonce s \<longleftrightarrow> SS_NBIO \<in> so_state s \<or> PR_ATOMIC \<in> pr_flags (so_proto s)"

text \<open>\<open>soselect\<close> with \<open>rd\<close> for FREAD and not \<open>rd\<close> for FWRITE.\<close>

definition soselect :: "bool \<Rightarrow> nat \<Rightarrow> bool \<Rightarrow> nat \<Rightarrow> 'a net_scheme \<Rightarrow> (bool \<times> 'a net_scheme) option" where
  "soselect waiting procp rd so n =
     map_option (\<lambda>s.
       if rd then (if soreadable s then (True, n)
                   else (False, so_put so (s\<lparr>so_rcv := sbselqueue waiting procp (so_rcv s)\<rparr>) n))
       else (if sowriteable s then (True, n)
             else (False, so_put so (s\<lparr>so_snd := sbselqueue waiting procp (so_snd s)\<rparr>) n))) (sockets n so)"

section \<open>The queues of an accepting socket\<close>

text \<open>The link of a socket in queue 0 (partial connections) or 1 (completed ones).\<close>

definition qlink :: "bool \<Rightarrow> socket \<Rightarrow> nat" where
  "qlink q s = (if q then so_q s else so_q0 s)"

definition set_qlink :: "bool \<Rightarrow> nat \<Rightarrow> socket \<Rightarrow> socket" where
  "set_qlink q x s = (if q then s\<lparr>so_q := x\<rparr> else s\<lparr>so_q0 := x\<rparr>)"

definition add_qlen :: "bool \<Rightarrow> int \<Rightarrow> socket \<Rightarrow> socket" where
  "add_qlen q d s = (if q then s\<lparr>so_qlen := s16 (so_qlen s + d)\<rparr> else s\<lparr>so_q0len := s16 (so_q0len s + d)\<rparr>)"

definition soqinsque :: "nat \<Rightarrow> nat \<Rightarrow> bool \<Rightarrow> 'a net_scheme \<Rightarrow> 'a net_scheme option" where
  "soqinsque head so q n =
     Option.bind (so_mod so (\<lambda>s. s\<lparr>so_head := head\<rparr>) n) (\<lambda>n1.
     Option.bind (so_mod head (add_qlen q 1) n1) (\<lambda>n2.
     Option.bind (sockets n2 head) (\<lambda>h.
     Option.bind (so_mod so (set_qlink q (qlink q h)) n2) (\<lambda>n3.
     so_mod head (set_qlink q so) n3))))"

text \<open>The search of \<open>soqremque\<close> from \<open>prev\<close>: \<open>Some (Some prev)\<close> once the next one is \<open>so\<close>.\<close>

partial_function (option) soq_search :: "'a net_scheme \<Rightarrow> bool \<Rightarrow> nat \<Rightarrow> nat \<Rightarrow> nat \<Rightarrow> nat option option" where
  "soq_search n q head so prev =
     (case sockets n prev of
        None \<Rightarrow> None
      | Some s \<Rightarrow>
          if qlink q s = so then Some (Some prev)
          else if qlink q s = head then Some None
          else soq_search n q head so (qlink q s))"

definition soqremque :: "nat \<Rightarrow> bool \<Rightarrow> 'a net_scheme \<Rightarrow> (bool \<times> 'a net_scheme) option" where
  "soqremque so q n =
     Option.bind (sockets n so) (\<lambda>s.
     Option.bind (soq_search n q (so_head s) so (so_head s)) (\<lambda>r.
     case r of
       None \<Rightarrow> Some (False, n)
     | Some prev \<Rightarrow>
         Option.bind (so_mod prev (set_qlink q (qlink q s)) n) (\<lambda>n1.
         Option.bind (so_mod (so_head s) (add_qlen q (-1)) n1) (\<lambda>n2.
         map_option (\<lambda>n3. (True, n3))
           (so_mod so (\<lambda>x. x\<lparr>so_q0 := 0, so_q := 0, so_head := 0\<rparr>) n2)))))"

section \<open>Connection state\<close>

definition soisconnecting :: "nat \<Rightarrow> 'a net_scheme \<Rightarrow> 'a net_scheme option" where
  "soisconnecting so n =
     map_option (net_event [Wakeup_timeo so])
       (so_mod so (\<lambda>s. s\<lparr>so_state := so_state s - {SS_ISCONNECTED, SS_ISDISCONNECTING} \<union> {SS_ISCONNECTING}\<rparr>) n)"

definition soisconnected :: "nat \<Rightarrow> 'a net_scheme \<Rightarrow> 'a net_scheme option" where
  "soisconnected so n =
     Option.bind (sockets n so) (\<lambda>s.
     let head = so_head s
     in Option.bind (if head = 0 then Some n
          else Option.bind (soqremque so False n) (\<lambda>(ok, n1).
               if \<not> ok then None
               else map_option (net_event [Wakeup_timeo head]) (soqinsque head so True n1))) (\<lambda>n2.
        Option.bind (so_mod so (\<lambda>s. s\<lparr>so_state := so_state s - {SS_ISCONNECTING, SS_ISDISCONNECTING} \<union> {SS_ISCONNECTED}\<rparr>) n2)
          (\<lambda>n3. Option.bind (sorwakeup so (net_event [Wakeup_timeo so] n3)) (sowwakeup so))))"

definition soisdisconnecting :: "nat \<Rightarrow> 'a net_scheme \<Rightarrow> 'a net_scheme option" where
  "soisdisconnecting so n =
     Option.bind (so_mod so (\<lambda>s. s\<lparr>so_state := so_state s - {SS_ISCONNECTING} \<union>
                                     {SS_ISDISCONNECTING, SS_CANTRCVMORE, SS_CANTSENDMORE}\<rparr>) n)
       (\<lambda>n1. Option.bind (sowwakeup so (net_event [Wakeup_timeo so] n1)) (sorwakeup so))"

definition soisdisconnected :: "nat \<Rightarrow> 'a net_scheme \<Rightarrow> 'a net_scheme option" where
  "soisdisconnected so n =
     Option.bind (so_mod so (\<lambda>s. s\<lparr>so_state := so_state s - {SS_ISCONNECTING, SS_ISCONNECTED, SS_ISDISCONNECTING} \<union>
                                     {SS_CANTRCVMORE, SS_CANTSENDMORE}\<rparr>) n)
       (\<lambda>n1. Option.bind (sowwakeup so (net_event [Wakeup_timeo so] n1)) (sorwakeup so))"

definition socantsendmore :: "nat \<Rightarrow> 'a net_scheme \<Rightarrow> 'a net_scheme option" where
  "socantsendmore so n =
     Option.bind (so_mod so (\<lambda>s. s\<lparr>so_state := insert SS_CANTSENDMORE (so_state s)\<rparr>) n) (sowwakeup so)"

definition socantrcvmore :: "nat \<Rightarrow> 'a net_scheme \<Rightarrow> 'a net_scheme option" where
  "socantrcvmore so n =
     Option.bind (so_mod so (\<lambda>s. s\<lparr>so_state := insert SS_CANTRCVMORE (so_state s)\<rparr>) n) (sorwakeup so)"

text \<open>\<open>soreserve\<close>: \<open>None\<close> inside is success.\<close>

definition soreserve :: "nat \<Rightarrow> int \<Rightarrow> int \<Rightarrow> 'a net_scheme \<Rightarrow> (soerr option \<times> 'a net_scheme) option" where
  "soreserve so sndcc rcvcc n =
     map_option (\<lambda>n'. (None, n'))
       (so_mod so (\<lambda>s. s\<lparr>so_snd := snd (sbreserve sndcc (so_snd s)), so_rcv := snd (sbreserve rcvcc (so_rcv s))\<rparr>) n)"

section \<open>Creation and the calls on connections\<close>

type_synonym ('a) usrreq = "nat \<Rightarrow> prureq \<Rightarrow> 'a net_scheme \<Rightarrow> (soerr option \<times> 'a net_scheme) option"

text \<open>\<open>m_getclr\<close> of a socket: \<open>Some 0\<close>'s place is taken by \<open>None\<close> inside.\<close>

definition so_alloc :: "'a net_scheme \<Rightarrow> (nat option \<times> 'a net_scheme) option" where
  "so_alloc n =
     map_option (\<lambda>(mo, p).
       case mo of
         None \<Rightarrow> (None, n\<lparr>pool := p\<rparr>)
       | Some m \<Rightarrow> (Some (nextaddr n), (so_put (nextaddr n) (so_clear m) n)\<lparr>pool := p, nextaddr := nextaddr n + 1\<rparr>))
       (m_getclr 3 (pool n))"

text \<open>\<open>m_free(dtom(so))\<close>\<close>

definition so_dealloc :: "nat \<Rightarrow> 'a net_scheme \<Rightarrow> 'a net_scheme option" where
  "so_dealloc so n =
     Option.bind (sockets n so) (\<lambda>s.
     map_option (\<lambda>p. n\<lparr>pool := p, sockets := (sockets n)(so := None)\<rparr>) (MFREE (so_mbuf s) (pool n)))"

definition sofree :: "nat \<Rightarrow> 'a net_scheme \<Rightarrow> 'a net_scheme option" where
  "sofree so n =
     Option.bind (sockets n so) (\<lambda>s0.
     Option.bind
       (if so_head s0 = 0 then Some n
        else Option.bind (soqremque so False n) (\<lambda>(ok0, n1).
             Option.bind (if ok0 then Some (True, n1) else soqremque so True n1) (\<lambda>(ok1, n2).
             if \<not> ok1 then None else so_mod so (\<lambda>s. s\<lparr>so_head := 0\<rparr>) n2))) (\<lambda>n3.
     Option.bind (sockets n3 so) (\<lambda>s.
     if so_pcb s \<noteq> 0 \<or> SS_NOFDREF \<notin> so_state s then Some n3
     else Option.bind (sbrelease (so_snd s) (pool n3)) (\<lambda>(snd', p1).
          Option.bind (sbrelease (so_rcv s) p1) (\<lambda>(rcv', p2).
          so_dealloc so (so_put so (s\<lparr>so_snd := snd', so_rcv := rcv'\<rparr>) (n3\<lparr>pool := p2\<rparr>)))))))"

text \<open>\<open>socreate\<close>: \<open>prp\<close> is what the lookup of the protocol switch found.\<close>

definition socreate :: "'a usrreq \<Rightarrow> protosw option \<Rightarrow> int \<Rightarrow> int \<Rightarrow> 'a net_scheme \<Rightarrow>
    ((soerr + nat) \<times> 'a net_scheme) option" where
  "socreate usrreq prp type uid n =
     (case prp of
        None \<Rightarrow> Some (Inl EPROTONOSUPPORT, n)
      | Some pr \<Rightarrow>
          if pr_type pr \<noteq> type then Some (Inl EPROTOTYPE, n)
          else Option.bind (so_alloc n) (\<lambda>(r, n1).
            case r of
              None \<Rightarrow> Some (Inl ENOBUFS, n1)
            | Some so \<Rightarrow>
                Option.bind (so_mod so (\<lambda>s. s\<lparr>so_options := {SO_LINGER}, so_state := (if uid = 0 then {SS_PRIV} else {}),
                                              so_type := s16 type, so_proto := pr\<rparr>) n1) (\<lambda>n2.
                Option.bind (usrreq so PRU_ATTACH n2) (\<lambda>(e, n3).
                case e of
                  None \<Rightarrow> Some (Inr so, n3)
                | Some err \<Rightarrow>
                    Option.bind (so_mod so (\<lambda>s. s\<lparr>so_state := insert SS_NOFDREF (so_state s)\<rparr>) n3) (\<lambda>n4.
                    map_option (\<lambda>n5. (Inl err, n5)) (sofree so n4))))))"

text \<open>\<open>sonewconn\<close>: NULL, or the new socket on the queue of partial connections of \<open>head\<close>.\<close>

definition sonewconn :: "'a usrreq \<Rightarrow> nat \<Rightarrow> 'a net_scheme \<Rightarrow> (nat option \<times> 'a net_scheme) option" where
  "sonewconn usrreq head n =
     Option.bind (sockets n head) (\<lambda>h.
     if so_qlen h + so_q0len h > c_div (3 * so_qlimit h) 2 then Some (None, n)
     else Option.bind (so_alloc n) (\<lambda>(r, n1).
       case r of
         None \<Rightarrow> Some (None, n1)
       | Some so \<Rightarrow>
           Option.bind (so_mod so (\<lambda>s. s\<lparr>so_type := so_type h, so_options := so_options h - {SO_ACCEPTCONN},
               so_linger := so_linger h, so_state := insert SS_NOFDREF (so_state h), so_proto := so_proto h,
               so_timeo := so_timeo h, so_pgrp := so_pgrp h\<rparr>) n1) (\<lambda>n2.
           Option.bind (soqinsque head so False n2) (\<lambda>n3.
           Option.bind (usrreq so PRU_ATTACH n3) (\<lambda>(e, n4).
           case e of
             None \<Rightarrow> Some (Some so, n4)
           | Some _ \<Rightarrow>
               Option.bind (soqremque so False n4) (\<lambda>(_, n5).
               map_option (\<lambda>n6. (None, n6)) (so_dealloc so n5)))))))"

definition sobind :: "'a usrreq \<Rightarrow> nat \<Rightarrow> 'a net_scheme \<Rightarrow> (soerr option \<times> 'a net_scheme) option" where
  "sobind usrreq so n = usrreq so PRU_BIND n"

definition solisten :: "'a usrreq \<Rightarrow> nat \<Rightarrow> int \<Rightarrow> 'a net_scheme \<Rightarrow> (soerr option \<times> 'a net_scheme) option" where
  "solisten usrreq so backlog n =
     Option.bind (usrreq so PRU_LISTEN n) (\<lambda>(e, n1).
     case e of
       Some err \<Rightarrow> Some (Some err, n1)
     | None \<Rightarrow>
         map_option (\<lambda>n2. (None, n2))
           (so_mod so (\<lambda>s.
              let s1 = (if so_q s = 0 then s\<lparr>so_q := so, so_q0 := so, so_options := insert SO_ACCEPTCONN (so_options s)\<rparr> else s)
              in s1\<lparr>so_qlimit := min (if backlog < 0 then 0 else backlog) 5,
                    so_options := insert SO_NEWFDONCONN (so_options s1)\<rparr>) n1))"

definition soabort :: "'a usrreq \<Rightarrow> nat \<Rightarrow> 'a net_scheme \<Rightarrow> (soerr option \<times> 'a net_scheme) option" where
  "soabort usrreq so n = usrreq so PRU_ABORT n"

definition soaccept :: "'a usrreq \<Rightarrow> nat \<Rightarrow> 'a net_scheme \<Rightarrow> (soerr option \<times> 'a net_scheme) option" where
  "soaccept usrreq so n =
     Option.bind (sockets n so) (\<lambda>s.
     if SS_NOFDREF \<notin> so_state s then None
     else usrreq so PRU_ACCEPT (so_put so (s\<lparr>so_state := so_state s - {SS_NOFDREF}\<rparr>) n))"

definition soconnect :: "'a usrreq \<Rightarrow> nat \<Rightarrow> 'a net_scheme \<Rightarrow> (soerr option \<times> 'a net_scheme) option" where
  "soconnect usrreq so n =
     Option.bind (sockets n so) (\<lambda>s.
     if so_state s \<inter> {SS_ISCONNECTED, SS_ISCONNECTING} \<noteq> {} then Some (Some EISCONN, n)
     else usrreq so PRU_CONNECT n)"

definition sodisconnect :: "'a usrreq \<Rightarrow> nat \<Rightarrow> 'a net_scheme \<Rightarrow> (soerr option \<times> 'a net_scheme) option" where
  "sodisconnect usrreq so n =
     Option.bind (sockets n so) (\<lambda>s.
     if SS_ISCONNECTED \<notin> so_state s then Some (Some ENOTCONN, n)
     else if SS_ISDISCONNECTING \<in> so_state s then Some (Some EALREADY, n)
     else usrreq so PRU_DISCONNECT n)"

text \<open>
  \<open>soclose\<close>: the loops that abort the queued connections end when the queue is empty; the wait for a
  lingering connection is an outcome of its own, with the state in which the process sleeps.
\<close>

partial_function (option) soabort_all :: "'a usrreq \<Rightarrow> bool \<Rightarrow> nat \<Rightarrow> 'a net_scheme \<Rightarrow> 'a net_scheme option" where
  "soabort_all usrreq q so n =
     Option.bind (sockets n so) (\<lambda>s.
     if qlink q s = so then Some n
     else Option.bind (soabort usrreq (qlink q s) n) (\<lambda>(_, n1). soabort_all usrreq q so n1))"

datatype closeres = Closed | CloseErr soerr | CloseSleep

definition so_discard :: "nat \<Rightarrow> 'a net_scheme \<Rightarrow> (closeres \<times> 'a net_scheme) option" where
  "so_discard so n =
     Option.bind (sockets n so) (\<lambda>s.
     if SS_NOFDREF \<in> so_state s then None
     else map_option (\<lambda>n'. (Closed, n'))
            (sofree so (so_put so (s\<lparr>so_state := insert SS_NOFDREF (so_state s)\<rparr>) n)))"

definition so_drop :: "'a usrreq \<Rightarrow> nat \<Rightarrow> bool \<Rightarrow> 'a net_scheme \<Rightarrow> (closeres \<times> 'a net_scheme) option" where
  "so_drop usrreq so exiting n =
     Option.bind (sockets n so) (\<lambda>s.
     if so_pcb s \<noteq> 0 then
       Option.bind (usrreq so PRU_DETACH n) (\<lambda>(e, n1).
       case e of
         Some err \<Rightarrow> if \<not> exiting then Some (CloseErr err, n1) else so_discard so n1
       | None \<Rightarrow> so_discard so n1)
     else so_discard so n)"

definition soclose :: "'a usrreq \<Rightarrow> nat \<Rightarrow> bool \<Rightarrow> 'a net_scheme \<Rightarrow> (closeres \<times> 'a net_scheme) option" where
  "soclose usrreq so exiting n =
     Option.bind (sockets n so) (\<lambda>s0.
     Option.bind
       (if SO_ACCEPTCONN \<in> so_options s0
        then Option.bind (soabort_all usrreq False so n) (soabort_all usrreq True so) else Some n) (\<lambda>n1.
     Option.bind (sockets n1 so) (\<lambda>s1.
     if so_pcb s1 = 0 then so_discard so n1
     else
       let n2 = (if exiting then so_put so (s1\<lparr>so_options := insert SO_KEEPALIVE (so_options s1)\<rparr>) n1 else n1)
       in if SS_ISCONNECTED \<notin> so_state s1 then so_drop usrreq so exiting n2
          else Option.bind
            (if SS_ISDISCONNECTING \<notin> so_state s1 then sodisconnect usrreq so n2 else Some (None, n2)) (\<lambda>(e, n3).
            case e of
              Some err \<Rightarrow> if exiting then so_drop usrreq so exiting n3 else Some (CloseErr err, n3)
            | None \<Rightarrow>
                Option.bind (sockets n3 so) (\<lambda>s3.
                if SO_LINGER \<in> so_options s3 then
                  (if SS_ISDISCONNECTING \<in> so_state s3 \<and> SS_NBIO \<in> so_state s3 \<and> \<not> exiting
                   then Some (CloseErr EINPROGRESS, n3)
                   else if SS_ISCONNECTED \<in> so_state s3 then Some (CloseSleep, n3)
                   else so_drop usrreq so exiting n3)
                else so_drop usrreq so exiting n3)))))"

section \<open>The queues as lists\<close>

definition links :: "'a net_scheme \<Rightarrow> bool \<Rightarrow> nat \<Rightarrow> nat option" where
  "links n q x = map_option (qlink q) (sockets n x)"

fun qpath :: "(nat \<Rightarrow> nat option) \<Rightarrow> nat \<Rightarrow> nat list \<Rightarrow> nat \<Rightarrow> bool" where
  "qpath L x [] y = (L x = Some y)"
| "qpath L x (z # zs) y = (L x = Some z \<and> qpath L z zs y)"

definition qlen :: "bool \<Rightarrow> socket \<Rightarrow> int" where
  "qlen q s = (if q then so_qlen s else so_q0len s)"

text \<open>Queue \<open>q\<close> of \<open>head\<close> is the circular list through \<open>xs\<close>, newest first.\<close>

definition accept_q :: "'a net_scheme \<Rightarrow> bool \<Rightarrow> nat \<Rightarrow> nat list \<Rightarrow> bool" where
  "accept_q n q head xs \<longleftrightarrow>
     qpath (links n q) head xs head \<and> distinct (head # xs) \<and> 0 \<notin> set (head # xs) \<and>
     (\<forall>x \<in> set xs. \<exists>s. sockets n x = Some s \<and> so_head s = head) \<and>
     (\<exists>h. sockets n head = Some h \<and> qlen q h = s16 (int (length xs)))"

lemma qpath_cong: "(\<And>v. v \<in> set (x # zs) \<Longrightarrow> L' v = L v) \<Longrightarrow> qpath L' x zs y = qpath L x zs y"
  by (induction zs arbitrary: x) auto

lemma qpath_search:
  "qpath (links n q) prev zs head \<Longrightarrow> so \<in> set zs \<Longrightarrow> head \<notin> set zs \<Longrightarrow>
   \<exists>as bs. zs = as @ so # bs \<and> so \<notin> set as \<and> soq_search n q head so prev = Some (Some (last (prev # as)))"
proof (induction zs arbitrary: prev)
  case (Cons z zs)
  obtain s where s: "sockets n prev = Some s" "qlink q s = z" using Cons.prems(1) by (auto simp: links_def)
  show ?case
  proof (cases "z = so")
    case True
    with s have "soq_search n q head so prev = Some (Some prev)" by (subst soq_search.simps) simp
    with True show ?thesis by (intro exI [of _ "[]"] exI [of _ zs]) simp
  next
    case False
    have "z \<noteq> head" using Cons.prems(3) by auto
    obtain as bs where "zs = as @ so # bs" "so \<notin> set as" "soq_search n q head so z = Some (Some (last (z # as)))"
      using Cons.IH [of z] Cons.prems False by auto
    moreover have "soq_search n q head so prev = soq_search n q head so z"
      using s False \<open>z \<noteq> head\<close> by (subst soq_search.simps) simp
    ultimately show ?thesis using False by (intro exI [of _ "z # as"] exI [of _ bs]) simp
  qed
qed simp

lemma qpath_search_none:
  "qpath (links n q) prev zs head \<Longrightarrow> so \<notin> set zs \<Longrightarrow> so \<noteq> head \<Longrightarrow> head \<notin> set zs \<Longrightarrow>
   soq_search n q head so prev = Some None"
proof (induction zs arbitrary: prev)
  case Nil
  then show ?case by (subst soq_search.simps) (auto simp: links_def)
next
  case (Cons z zs)
  obtain s where s: "sockets n prev = Some s" "qlink q s = z" using Cons.prems(1) by (auto simp: links_def)
  have "soq_search n q head so prev = soq_search n q head so z"
    using s Cons.prems by (subst soq_search.simps) auto
  with Cons show ?case by simp
qed

lemma qpath_remove:
  "qpath L x (as @ so # bs) y \<Longrightarrow> distinct (x # as @ so # bs) \<Longrightarrow>
   L' (last (x # as)) = L so \<Longrightarrow> (\<And>v. v \<noteq> last (x # as) \<Longrightarrow> v \<noteq> so \<Longrightarrow> L' v = L v) \<Longrightarrow> qpath L' x (as @ bs) y"
proof (induction as arbitrary: x)
  case Nil
  have "qpath L' x bs y"
  proof (cases bs)
    case Nil
    then show ?thesis using Nil.prems by simp
  next
    case (Cons b bs')
    have "qpath L' b bs' y = qpath L b bs' y"
    proof (rule qpath_cong)
      fix v assume "v \<in> set (b # bs')"
      then have "v \<noteq> last [x]" "v \<noteq> so" using Nil.prems(2) Cons by auto
      then show "L' v = L v" by (rule Nil.prems(4))
    qed
    then show ?thesis using Nil.prems Cons by simp
  qed
  then show ?case by simp
next
  case (Cons a as)
  have "last (a # as) \<in> set (a # as)" by (rule last_in_set) simp
  then have "x \<noteq> last (a # as)" using Cons.prems(2) by (metis append_Cons distinct.simps(2) in_set_conv_decomp list.set_intros(2) Un_iff set_append)
  then have "x \<noteq> last (x # a # as)" "x \<noteq> so" using Cons.prems(2) by auto
  then have "L' x = L x" by (rule Cons.prems(4))
  moreover have "qpath L' a (as @ bs) y" by (rule Cons.IH) (use Cons.prems in auto)
  ultimately show ?case using Cons.prems(1) by simp
qed

lemma so_mod_Some: "sockets n so = Some s \<Longrightarrow> so_mod so f n = Some (so_put so (f s) n)"
  by (simp add: so_mod_def)

lemma sockets_put [simp]: "sockets (so_put so s n) = (sockets n)(so := Some s)"
  by (simp add: so_put_def)

lemma qlink_set [simp]: "qlink q (set_qlink q' x s) = (if q = q' then x else qlink q s)"
  by (auto simp: qlink_def set_qlink_def)

lemma qlink_frame [simp]: "qlink q (add_qlen q' d s) = qlink q s" "qlink q (s\<lparr>so_head := h\<rparr>) = qlink q s"
  by (simp_all add: qlink_def add_qlen_def)

lemma qlen_frame [simp]: "qlen q (set_qlink q' x s) = qlen q s" "qlen q (s\<lparr>so_head := h\<rparr>) = qlen q s"
  "qlen q (add_qlen q' d s) = (if q = q' then s16 (qlen q s + d) else qlen q s)"
  by (auto simp: qlen_def set_qlink_def add_qlen_def)

lemma so_head_frame [simp]: "so_head (set_qlink q x s) = so_head s" "so_head (add_qlen q d s) = so_head s"
  by (simp_all add: set_qlink_def add_qlen_def)

lemma soqinsque_cases:
  assumes "sockets n head = Some h" "sockets n so = Some s" "so \<noteq> head"
  shows "soqinsque head so q n =
     Some (so_put head (set_qlink q so (add_qlen q 1 h))
             (so_put so (set_qlink q (qlink q h) (s\<lparr>so_head := head\<rparr>))
             (so_put head (add_qlen q 1 h) (so_put so (s\<lparr>so_head := head\<rparr>) n))))"
  using assms by (simp add: soqinsque_def so_mod_Some)

lemma soqinsque_list:
  assumes "accept_q n q head xs" "so \<notin> set (head # xs)" "so \<noteq> 0" "sockets n so = Some s"
  shows "\<exists>n'. soqinsque head so q n = Some n' \<and> accept_q n' q head (so # xs) \<and>
     (\<forall>ys. accept_q n (\<not> q) head ys \<longrightarrow> so \<notin> set ys \<longrightarrow> accept_q n' (\<not> q) head ys)"
proof -
  obtain h where h: "sockets n head = Some h" "qlen q h = s16 (int (length xs))"
    using assms(1) by (auto simp: accept_q_def)
  have ne: "so \<noteq> head" "head \<noteq> so" using assms(2) by auto
  let ?n = "so_put head (set_qlink q so (add_qlen q 1 h))
             (so_put so (set_qlink q (qlink q h) (s\<lparr>so_head := head\<rparr>))
             (so_put head (add_qlen q 1 h) (so_put so (s\<lparr>so_head := head\<rparr>) n)))"
  have L: "links ?n q = (links n q)(so := Some (qlink q h), head := Some so)"
    "links ?n (\<not> q) = (links n (\<not> q))(so := Some (qlink (\<not> q) s), head := Some (qlink (\<not> q) h))"
    using ne by (auto simp: links_def fun_eq_iff)
  have "qpath (links ?n q) so xs head"
  proof (cases xs)
    case Nil
    then show ?thesis using assms(1) h L(1) ne by (simp add: accept_q_def links_def)
  next
    case (Cons x xs')
    have "qpath (links ?n q) x xs' head = qpath (links n q) x xs' head"
      by (rule qpath_cong) (use L(1) assms(1,2) Cons in \<open>auto simp: accept_q_def\<close>)
    then show ?thesis using assms(1) h L(1) ne Cons by (auto simp: accept_q_def links_def)
  qed
  then have "qpath (links ?n q) head (so # xs) head" using L(1) by simp
  then have 1: "accept_q ?n q head (so # xs)"
    using assms h ne by (auto simp: accept_q_def add.commute)
  have 2: "accept_q ?n (\<not> q) head ys" if a: "accept_q n (\<not> q) head ys" "so \<notin> set ys" for ys
  proof -
    have "qpath (links ?n (\<not> q)) head ys head = qpath (links n (\<not> q)) head ys head"
      by (rule qpath_cong) (use L(2) a h ne in \<open>auto simp: accept_q_def links_def\<close>)
    then show ?thesis using a h ne by (auto simp: accept_q_def)
  qed
  show ?thesis
    using soqinsque_cases [OF h(1) assms(4) ne(1), of q] 1 2 by blast
qed

lemma soqremque_list:
  assumes "accept_q n q head xs" "so \<in> set xs"
  shows "\<exists>n'. soqremque so q n = Some (True, n') \<and> accept_q n' q head (remove1 so xs) \<and>
     (\<forall>ys. accept_q n (\<not> q) head ys \<longrightarrow> so \<notin> set ys \<longrightarrow> accept_q n' (\<not> q) head ys) \<and>
     (\<exists>s s'. sockets n so = Some s \<and> sockets n' so = Some s' \<and> so_head s' = 0 \<and> so_state s' = so_state s \<and>
        so_rcv s' = so_rcv s \<and> so_snd s' = so_snd s \<and> so_mbuf s' = so_mbuf s) \<and> pool n' = pool n \<and> (\<forall>x. sockets n' x = None \<longleftrightarrow> sockets n x = None)"
proof -
  have q: "qpath (links n q) head xs head" "distinct (head # xs)" "0 \<notin> set (head # xs)" "head \<notin> set xs"
    using assms(1) by (simp_all add: accept_q_def)
  obtain s where s: "sockets n so = Some s" "so_head s = head" using assms by (auto simp: accept_q_def)
  obtain h where h: "sockets n head = Some h" "qlen q h = s16 (int (length xs))"
    using assms(1) by (auto simp: accept_q_def)
  obtain as bs where ab: "xs = as @ so # bs" "so \<notin> set as" "soq_search n q head so head = Some (Some (last (head # as)))"
    using qpath_search [OF q(1) assms(2) q(4)] by blast
  let ?p = "last (head # as)"
  have pso: "?p \<noteq> so" "so \<noteq> head" using ab q(2) by (auto split: if_splits)
  have pin: "?p \<in> set (head # as)" by (metis last_in_set list.distinct(1))
  obtain ps where ps: "sockets n ?p = Some ps" using pin assms(1) h ab(1) by (auto simp: accept_q_def)
  define n1 where "n1 = so_put ?p (set_qlink q (qlink q s) ps) n"
  have m1: "so_mod ?p (set_qlink q (qlink q s)) n = Some n1" using ps by (simp add: so_mod_Some n1_def)
  obtain h1 where h1: "sockets n1 head = Some h1" "qlen q h1 = qlen q h" "qlen (\<not> q) h1 = qlen (\<not> q) h" "so_head h1 = so_head h"
    using h ps by (cases "head = ?p") (auto simp: n1_def)
  define n2 where "n2 = so_put head (add_qlen q (-1) h1) n1"
  have m2: "so_mod head (add_qlen q (-1)) n1 = Some n2" using h1 by (simp add: so_mod_Some n2_def)
  have s2: "sockets n2 so = Some s" using s pso by (auto simp: n1_def n2_def)
  define n3 where "n3 = so_put so (s\<lparr>so_q0 := 0, so_q := 0, so_head := 0\<rparr>) n2"
  have rm: "soqremque so q n = Some (True, n3)"
    using s ab(3) m1 m2 s2 by (simp add: soqremque_def so_mod_Some n3_def)
  have L1: "links n1 q' = (links n q')(?p := Some (if q = q' then qlink q s else qlink q' ps))" for q'
    by (auto simp: links_def fun_eq_iff n1_def)
  have L2: "links n2 q' = links n1 q'" for q' using h1 by (auto simp: links_def fun_eq_iff n2_def)
  have L3: "links n3 q' = (links n2 q')(so := Some 0)" for q'
    by (auto simp: links_def fun_eq_iff n3_def qlink_def)
  have path: "qpath (links n3 q) head (as @ bs) head"
  proof (rule qpath_remove)
    show "qpath (links n q) head (as @ so # bs) head" "distinct (head # as @ so # bs)" using q ab(1) by simp_all
    show "links n3 q ?p = links n q so" using L1 L2 L3 pso s by (simp add: links_def)
    show "\<And>v. v \<noteq> ?p \<Longrightarrow> v \<noteq> so \<Longrightarrow> links n3 q v = links n q v" using L1 L2 L3 by simp
  qed
  have hds: "so_head s' = so_head t" if "sockets n x = Some t" "sockets n3 x = Some s'" "x \<noteq> so" for x t s'
    using that h1 h ps by (auto simp: n1_def n2_def n3_def split: if_splits)
  have dom: "sockets n3 x = None \<longleftrightarrow> sockets n x = None" for x
    using s h ps by (auto simp: n1_def n2_def n3_def)
  have len: "\<exists>h3. sockets n3 head = Some h3 \<and> qlen q h3 = s16 (qlen q h - 1) \<and> qlen (\<not> q) h3 = qlen (\<not> q) h"
    using pso h1 by (auto simp: n3_def n2_def)
  have r1: "remove1 so xs = as @ bs" using ab(1,2) by (simp add: remove1_append)
  have heads: "\<exists>t. sockets n3 x = Some t \<and> so_head t = head"
    if "\<exists>t. sockets n x = Some t \<and> so_head t = head" "x \<noteq> so" for x
    using that dom [of x] hds [of x] by fastforce
  have 1: "accept_q n3 q head (remove1 so xs)"
  proof -
    have "\<forall>x \<in> set (as @ bs). \<exists>t. sockets n3 x = Some t \<and> so_head t = head"
    proof
      fix x assume "x \<in> set (as @ bs)"
      then have "x \<in> set xs" "x \<noteq> so" using ab(1) q(2) by auto
      then show "\<exists>t. sockets n3 x = Some t \<and> so_head t = head"
        using assms(1) by (intro heads) (simp_all add: accept_q_def)
    qed
    then show ?thesis unfolding r1 using path len q ab(1) h(2) by (auto simp: accept_q_def)
  qed
  have 2: "accept_q n3 (\<not> q) head ys" if a: "accept_q n (\<not> q) head ys" "so \<notin> set ys" for ys
  proof -
    have "qpath (links n3 (\<not> q)) head ys head = qpath (links n (\<not> q)) head ys head"
      by (rule qpath_cong) (use L1 L2 L3 ps a pso in \<open>auto simp: links_def\<close>)
    moreover have "\<forall>x \<in> set ys. \<exists>t. sockets n3 x = Some t \<and> so_head t = head"
    proof
      fix x assume "x \<in> set ys"
      then have "\<exists>t. sockets n x = Some t \<and> so_head t = head" "x \<noteq> so" using a by (auto simp: accept_q_def)
      then show "\<exists>t. sockets n3 x = Some t \<and> so_head t = head" by (rule heads)
    qed
    ultimately show ?thesis using a len h(1) by (auto simp: accept_q_def)
  qed
  have "sockets n3 so = Some (s\<lparr>so_q0 := 0, so_q := 0, so_head := 0\<rparr>)" by (simp add: n3_def)
  moreover have "pool n3 = pool n" by (simp add: n3_def n2_def n1_def so_put_def)
  ultimately show ?thesis using rm 1 2 s dom by (intro exI [of _ n3]) simp
qed

lemma soqremque_absent:
  assumes "accept_q n q head xs" "so \<notin> set (head # xs)" "sockets n so = Some s" "so_head s = head"
  shows "soqremque so q n = Some (False, n)"
proof -
  have "soq_search n q head so head = Some None"
    by (rule qpath_search_none [where zs = xs]) (use assms in \<open>auto simp: accept_q_def\<close>)
  with assms(3,4) show ?thesis by (simp add: soqremque_def)
qed

section \<open>What leaves the queues alone\<close>

definition same_q :: "socket \<Rightarrow> socket \<Rightarrow> bool" where
  "same_q s s' \<longleftrightarrow> so_head s' = so_head s \<and> (\<forall>q. qlink q s' = qlink q s \<and> qlen q s' = qlen q s)"

definition queues_kept :: "'a net_scheme \<Rightarrow> 'b net_scheme \<Rightarrow> bool" where
  "queues_kept n n' \<longleftrightarrow> (\<forall>x. rel_option same_q (sockets n x) (sockets n' x))"

lemma same_q_refl [simp]: "same_q s s"
  by (simp add: same_q_def)

lemma queues_kept_refl [simp]: "queues_kept n n"
  by (simp add: queues_kept_def option.rel_refl)

lemma queues_kept_trans: "queues_kept n n' \<Longrightarrow> queues_kept n' n'' \<Longrightarrow> queues_kept n n''"
  unfolding queues_kept_def
proof (intro allI)
  fix x
  assume h: "\<forall>x. rel_option same_q (sockets n x) (sockets n' x)" "\<forall>x. rel_option same_q (sockets n' x) (sockets n'' x)"
  have tr: "same_q a b \<Longrightarrow> same_q b c \<Longrightarrow> same_q a c" for a b c by (simp add: same_q_def)
  show "rel_option same_q (sockets n x) (sockets n'' x)"
    using h [THEN spec, of x] tr
    by (cases "sockets n x"; cases "sockets n' x"; cases "sockets n'' x") auto
qed

lemma queues_kept_mod: "so_mod so f n = Some n' \<Longrightarrow> (\<And>s. same_q s (f s)) \<Longrightarrow> queues_kept n n'"
  by (auto simp: so_mod_def queues_kept_def option.rel_refl)

lemma queues_kept_event [simp]: "queues_kept n (net_event e n') = queues_kept n n'"
  by (simp add: queues_kept_def net_event_def)

lemma accept_q_kept:
  assumes "queues_kept n n'" "accept_q n q head xs"
  shows "accept_q n' q head xs"
proof -
  have r: "rel_option same_q (sockets n x) (sockets n' x)" for x using assms(1) by (simp add: queues_kept_def)
  have "links n' q x = links n q x" for x
    using r [of x] by (cases "sockets n x"; cases "sockets n' x") (auto simp: links_def same_q_def)
  then have p: "qpath (links n' q) head xs head = qpath (links n q) head xs head" by (intro qpath_cong)
  have "\<exists>t. sockets n' x = Some t \<and> so_head t = head" if "\<exists>t. sockets n x = Some t \<and> so_head t = head" for x
    using that r [of x] by (auto simp: option_rel_Some1 same_q_def)
  moreover have "\<exists>h. sockets n' head = Some h \<and> qlen q h = v" if "\<exists>h. sockets n head = Some h \<and> qlen q h = v" for v
    using that r [of head] by (auto simp: option_rel_Some1 same_q_def)
  ultimately show ?thesis using assms(2) p by (auto simp: accept_q_def)
qed

lemma sowakeup_kept:
  assumes "sockets n so = Some s"
  shows "\<exists>n'. sorwakeup so n = Some n' \<and> queues_kept n n' \<and> (\<exists>s'. sockets n' so = Some s' \<and> so_state s' = so_state s)"
    "\<exists>n'. sowwakeup so n = Some n' \<and> queues_kept n n' \<and> (\<exists>s'. sockets n' so = Some s' \<and> so_state s' = so_state s)"
proof -
  have k: "queues_kept n (so_put so s' n)" if "same_q s s'" for s'
    using assms that by (auto simp: queues_kept_def option.rel_refl)
  have e: "sockets (net_event ev m) = sockets m" for ev and m :: "'a net_scheme" by (simp add: net_event_def)
  show "\<exists>n'. sorwakeup so n = Some n' \<and> queues_kept n n' \<and> (\<exists>s'. sockets n' so = Some s' \<and> so_state s' = so_state s)"
    using assms by (auto simp: sorwakeup_def e split: prod.split intro!: k) (simp add: same_q_def qlink_def qlen_def)
  show "\<exists>n'. sowwakeup so n = Some n' \<and> queues_kept n n' \<and> (\<exists>s'. sockets n' so = Some s' \<and> so_state s' = so_state s)"
    using assms by (auto simp: sowwakeup_def e split: prod.split intro!: k) (simp add: same_q_def qlink_def qlen_def)
qed

text \<open>The end of \<open>soisconnected\<close>, after the queues.\<close>

lemma soisconnected_tail:
  assumes "sockets n2 so = Some s"
  shows "\<exists>n'. Option.bind (so_mod so (\<lambda>s. s\<lparr>so_state := so_state s - {SS_ISCONNECTING, SS_ISDISCONNECTING} \<union> {SS_ISCONNECTED}\<rparr>) n2)
          (\<lambda>n3. Option.bind (sorwakeup so (net_event [Wakeup_timeo so] n3)) (sowwakeup so)) = Some n' \<and>
     queues_kept n2 n' \<and>
     (\<exists>s'. sockets n' so = Some s' \<and> so_state s' = so_state s - {SS_ISCONNECTING, SS_ISDISCONNECTING} \<union> {SS_ISCONNECTED})"
proof -
  let ?f = "\<lambda>s. s\<lparr>so_state := so_state s - {SS_ISCONNECTING, SS_ISDISCONNECTING} \<union> {SS_ISCONNECTED}\<rparr>"
  let ?n3 = "so_put so (?f s) n2"
  have m: "so_mod so ?f n2 = Some ?n3" by (rule so_mod_Some [OF assms])
  have k: "queues_kept n2 ?n3" by (rule queues_kept_mod [OF m]) (simp add: same_q_def qlink_def qlen_def)
  have s3: "sockets (net_event [Wakeup_timeo so] ?n3) so = Some (?f s)" by (simp add: net_event_def)
  obtain n4 s4 where 4: "sorwakeup so (net_event [Wakeup_timeo so] ?n3) = Some n4"
      "queues_kept (net_event [Wakeup_timeo so] ?n3) n4" "sockets n4 so = Some s4" "so_state s4 = so_state (?f s)"
    using sowakeup_kept(1) [OF s3] by blast
  obtain n5 where 5: "sowwakeup so n4 = Some n5" "queues_kept n4 n5"
      "\<exists>s'. sockets n5 so = Some s' \<and> so_state s' = so_state s4"
    using sowakeup_kept(2) [OF 4(3)] by blast
  have "queues_kept n2 (net_event [Wakeup_timeo so] ?n3)" using k by simp
  then have "queues_kept n2 n5" using queues_kept_trans 4(2) 5(2) by blast
  then show ?thesis using m 4 5 by auto
qed

section \<open>Properties\<close>

text \<open>An accepting socket 1 with two partial connections 2 and 3 and a completed one 4.\<close>

definition so_demo :: "nat \<Rightarrow> nat \<Rightarrow> nat \<Rightarrow> int \<Rightarrow> int \<Rightarrow> ss set \<Rightarrow> socket" where
  "so_demo hp q0 q l0 l st = (so_clear (mdata []))\<lparr>so_head := hp, so_q0 := q0, so_q := q, so_q0len := l0, so_qlen := l,
     so_qlimit := 5, so_state := st, so_options := {SO_ACCEPTCONN}\<rparr>"

definition net_demo :: net where
  "net_demo = \<lparr>pool = pool_demo, sockets = [1 \<mapsto> so_demo 0 3 4 2 1 {}, 2 \<mapsto> so_demo 1 1 0 0 0 {SS_ISCONNECTING, SS_NOFDREF},
     3 \<mapsto> so_demo 1 2 0 0 0 {SS_ISCONNECTING, SS_NOFDREF}, 4 \<mapsto> so_demo 1 0 1 0 0 {SS_ISCONNECTED, SS_NOFDREF}],
     nextaddr = 5, wakeups = []\<rparr>"

lemma net_demo_q: "accept_q net_demo False 1 [3, 2]" "accept_q net_demo True 1 [4]"
  by (simp_all add: accept_q_def net_demo_def so_demo_def links_def qlink_def qlen_def so_clear_def s16_def)

text \<open>when a partial connection completes, \<open>soisconnected\<close> takes it out of the queue of partial
  connections, wherever it stands, and puts it first on the queue of completed ones; both circular lists
  and their counts stay right.  The connection accepted next is thus the latest, not the oldest.\<close>

theorem soisconnected_queues:
  assumes "accept_q n False head xs" "accept_q n True head ys" "so \<in> set xs" "so \<notin> set ys"
  shows "\<exists>n' s s'. soisconnected so n = Some n' \<and> accept_q n' False head (remove1 so xs) \<and> accept_q n' True head (so # ys) \<and>
     sockets n so = Some s \<and> sockets n' so = Some s' \<and>
     so_state s' = so_state s - {SS_ISCONNECTING, SS_ISDISCONNECTING} \<union> {SS_ISCONNECTED}"
proof -
  obtain n1 s s1 where r: "soqremque so False n = Some (True, n1)" "accept_q n1 False head (remove1 so xs)"
      "\<forall>ys. accept_q n True head ys \<longrightarrow> so \<notin> set ys \<longrightarrow> accept_q n1 True head ys"
      "sockets n so = Some s" "sockets n1 so = Some s1" "so_state s1 = so_state s"
    using soqremque_list [OF assms(1,3)] by auto
  have hd: "so_head s = head" using assms(1,3) r(4) by (auto simp: accept_q_def)
  have so0: "so \<noteq> 0" using assms(1,3) unfolding accept_q_def by (metis list.set_intros(2))
  have so: "so \<noteq> 0" "so \<noteq> head" "head \<noteq> 0" "so \<notin> set (remove1 so xs)"
    using so0 assms(1,3) by (auto simp: accept_q_def)
  have q1: "accept_q n1 True head ys" using r(3) assms(2,4) by blast
  obtain n2 where i: "soqinsque head so True n1 = Some n2" "accept_q n2 True head (so # ys)"
      "\<forall>zs. accept_q n1 False head zs \<longrightarrow> so \<notin> set zs \<longrightarrow> accept_q n2 False head zs"
    using soqinsque_list [OF q1 _ so(1) r(5)] so(2) assms(4) by auto
  have q2: "accept_q n2 False head (remove1 so xs)" using i(3) r(2) so(4) by blast
  obtain h1 where h1: "sockets n1 head = Some h1" using q1 by (auto simp: accept_q_def)
  have s2: "\<exists>s2. sockets n2 so = Some s2 \<and> so_state s2 = so_state s"
    using i(1) soqinsque_cases [OF h1 r(5) so(2), of True] so(2) r(6) by (auto simp: set_qlink_def)
  then obtain s2 where s2: "sockets (net_event [Wakeup_timeo head] n2) so = Some s2" "so_state s2 = so_state s"
    by (auto simp: net_event_def)
  obtain n' s' where t: "Option.bind (so_mod so (\<lambda>s. s\<lparr>so_state := so_state s - {SS_ISCONNECTING, SS_ISDISCONNECTING} \<union> {SS_ISCONNECTED}\<rparr>)
          (net_event [Wakeup_timeo head] n2))
          (\<lambda>n3. Option.bind (sorwakeup so (net_event [Wakeup_timeo so] n3)) (sowwakeup so)) = Some n'"
      "queues_kept (net_event [Wakeup_timeo head] n2) n'" "sockets n' so = Some s'"
      "so_state s' = so_state s2 - {SS_ISCONNECTING, SS_ISDISCONNECTING} \<union> {SS_ISCONNECTED}"
    using soisconnected_tail [OF s2(1)] by blast
  have "soisconnected so n = Some n'"
    using r(1,4) hd so(3) i(1) t(1) by (simp add: soisconnected_def Let_def)
  moreover have "queues_kept n2 n'"
    using queues_kept_trans [OF _ t(2), of n2] by simp
  ultimately show ?thesis using accept_q_kept q2 i(2) r(4) t(3,4) s2(2) by metis
qed

theorem soisconnected_queues_witness:
  "\<exists>n'. soisconnected 2 net_demo = Some n' \<and> accept_q n' False 1 [3] \<and> accept_q n' True 1 [2, 4]"
  using soisconnected_queues [OF net_demo_q, of 2] by auto

text \<open>\<open>sonewconn\<close> refuses once more connections are queued than one and a half times the backlog, so
  the two queues together never hold more than that and one.  A granted connection is first on the queue
  of partial ones; when the protocol cannot attach, the queue is as it was.\<close>

theorem sonewconn_bounded:
  assumes "accept_q n False head xs" "accept_q n True head ys" "pool_ok (pool n)"
    "length xs + length ys < 32768" "sockets n head = Some h" "0 \<le> so_qlimit h" "so_qlimit h < 32768"
    "sockets n (nextaddr n) = None" "nextaddr n \<noteq> 0"
    "\<And>so n1. pool_ok (pool n1) \<Longrightarrow> \<exists>e n2. usrreq so PRU_ATTACH n1 = Some (e, n2) \<and> queues_kept n1 n2 \<and>
        (\<forall>s s'. sockets n1 so = Some s \<longrightarrow> sockets n2 so = Some s' \<longrightarrow> so_mbuf s' = so_mbuf s) \<and> pool_ok (pool n2)"
  shows "\<exists>r n'. sonewconn usrreq head n = Some (r, n') \<and> accept_q n' True head ys \<and>
     (case r of
        None \<Rightarrow> accept_q n' False head xs
      | Some so \<Rightarrow> accept_q n' False head (so # xs) \<and>
          int (length (so # xs)) + int (length ys) \<le> 3 * so_qlimit h div 2 + 1)"
proof -
  have ql: "so_qlen h = int (length ys)" "so_q0len h = int (length xs)"
    using assms(1,2,4,5) by (auto simp: accept_q_def qlen_def cint)
  have hne: "head \<noteq> nextaddr n" using assms(5,8) by auto
  have fresh: "nextaddr n \<notin> set (head # xs)" "nextaddr n \<notin> set ys"
    using assms(1,2,8) hne by (auto simp: accept_q_def)
  show ?thesis
  proof (cases "so_qlen h + so_q0len h > c_div (3 * so_qlimit h) 2")
    case True
    then show ?thesis using assms(1,2,5) by (simp add: sonewconn_def)
  next
    case False
    then have lim: "int (length ys) + int (length xs) \<le> 3 * so_qlimit h div 2"
      using ql assms(6) by (simp add: c_div_pos)
    obtain mo p where g: "m_get 3 (pool n) = Some (mo, p)" "pool_step (pool n) p"
        "case mo of None \<Rightarrow> True | Some m \<Rightarrow> m_type m = 3"
      using m_get_step [OF assms(3), of 3] by (metis (no_types, lifting) option.case_eq_if)
    show ?thesis
    proof (cases mo)
      case None
      then have al: "so_alloc n = Some (None, n\<lparr>pool := p\<rparr>)" using g(1) by (simp add: so_alloc_def m_getclr_def)
      have "queues_kept n (n\<lparr>pool := p\<rparr>)" by (simp add: queues_kept_def option.rel_refl)
      then show ?thesis using al False assms(1,2,5) accept_q_kept by (auto simp: sonewconn_def)
    next
      case (Some m)
      let ?so = "nextaddr n" and ?m = "m\<lparr>m_dat := replicate 112 0\<rparr>"
      let ?n1 = "(so_put ?so (so_clear ?m) n)\<lparr>pool := p, nextaddr := ?so + 1\<rparr>"
      let ?f = "\<lambda>s. s\<lparr>so_type := so_type h, so_options := so_options h - {SO_ACCEPTCONN},
               so_linger := so_linger h, so_state := insert SS_NOFDREF (so_state h), so_proto := so_proto h,
               so_timeo := so_timeo h, so_pgrp := so_pgrp h\<rparr>"
      have al: "so_alloc n = Some (Some ?so, ?n1)" using g(1) Some by (simp add: so_alloc_def m_getclr_def)
      have s1: "sockets ?n1 ?so = Some (so_clear ?m)" by simp
      let ?n2 = "so_put ?so (?f (so_clear ?m)) ?n1"
      have m1: "so_mod ?so ?f ?n1 = Some ?n2" by (rule so_mod_Some [OF s1])
      have away: "accept_q ?n2 q head zs" if "accept_q n q head zs" "?so \<notin> set zs" for q zs
      proof -
        have "qpath (links ?n2 q) head zs head = qpath (links n q) head zs head"
          by (rule qpath_cong) (use that hne in \<open>auto simp: links_def\<close>)
        moreover have "\<forall>x \<in> set zs. \<exists>s. sockets ?n2 x = Some s \<and> so_head s = head"
          using that by (auto simp: accept_q_def)
        ultimately show ?thesis using that hne by (auto simp: accept_q_def)
      qed
      have q2: "accept_q ?n2 False head xs" "accept_q ?n2 True head ys" using away assms(1,2) fresh by auto
      obtain n3 where i: "soqinsque head ?so False ?n2 = Some n3" "accept_q n3 False head (?so # xs)"
          "\<forall>zs. accept_q ?n2 True head zs \<longrightarrow> ?so \<notin> set zs \<longrightarrow> accept_q n3 True head zs"
        using soqinsque_list [OF q2(1) fresh(1) assms(9), of "?f (so_clear ?m)"] by auto
      have q3: "accept_q n3 True head ys" using i(3) q2(2) fresh(2) by blast
    have s3: "\<exists>s3. sockets n3 ?so = Some s3 \<and> so_mbuf s3 = ?m \<and> pool n3 = p"
    proof -
      obtain h2 where h2: "sockets ?n2 head = Some h2" using q2(1) by (auto simp: accept_q_def)
      have "sockets ?n2 ?so = Some (?f (so_clear ?m))" by simp
      from soqinsque_cases [OF h2 this, of False] i(1) hne show ?thesis
        by (auto simp: set_qlink_def so_clear_def so_put_def)
    qed
      have pok: "pool_ok (pool n3)" using s3 g(2) by (auto simp: pool_step_def)
      obtain e n4 where u: "usrreq ?so PRU_ATTACH n3 = Some (e, n4)" "queues_kept n3 n4"
          "\<forall>s s'. sockets n3 ?so = Some s \<longrightarrow> sockets n4 ?so = Some s' \<longrightarrow> so_mbuf s' = so_mbuf s" "pool_ok (pool n4)"
        using assms(10) [OF pok] by blast
      have q4: "accept_q n4 False head (?so # xs)" "accept_q n4 True head ys"
        using accept_q_kept [OF u(2)] i(2) q3 by auto
      show ?thesis
      proof (cases e)
        case None
        then have "sonewconn usrreq head n = Some (Some ?so, n4)"
          using assms(5) False al m1 i(1) u(1) by (simp add: sonewconn_def)
        then show ?thesis using q4 lim by auto
      next
        case (Some err)
        obtain n5 s4 s5 where r: "soqremque ?so False n4 = Some (True, n5)" "accept_q n5 False head (remove1 ?so (?so # xs))"
            "\<forall>zs. accept_q n4 True head zs \<longrightarrow> ?so \<notin> set zs \<longrightarrow> accept_q n5 True head zs"
            "sockets n4 ?so = Some s4" "sockets n5 ?so = Some s5" "so_mbuf s5 = so_mbuf s4" "pool n5 = pool n4"
          using soqremque_list [OF q4(1), of ?so] by auto
        have mb: "so_mbuf s5 = ?m" using s3 u(3) r(4,6) by auto
        have "m_type m = 3" using g(3) \<open>mo = Some m\<close> by simp
        then have mt: "m_type ?m \<noteq> 0" "length (m_dat ?m) = 112" by simp_all
        have "pool_ok (pool n5)" using u(4) r(7) by simp
        then obtain p6 where p6: "MFREE ?m (pool n5) = Some p6" using MFREE_step [OF _ mt] by blast
        let ?n6 = "n5\<lparr>pool := p6, sockets := (sockets n5)(?so := None)\<rparr>"
        have d: "so_dealloc ?so n5 = Some ?n6" using r(5) mb p6 by (simp add: so_dealloc_def)
        have gone: "accept_q ?n6 q head zs" if a: "accept_q n5 q head zs" "?so \<notin> set zs" for q zs
        proof -
          have "qpath (links ?n6 q) head zs head = qpath (links n5 q) head zs head"
            by (rule qpath_cong) (use a hne in \<open>auto simp: links_def\<close>)
          moreover have "\<forall>x \<in> set zs. \<exists>s. sockets ?n6 x = Some s \<and> so_head s = head"
            using a by (auto simp: accept_q_def)
          ultimately show ?thesis using a hne by (auto simp: accept_q_def)
        qed
        have "sonewconn usrreq head n = Some (None, ?n6)"
          using assms(5) False al m1 i(1) u(1) Some r(1) d by (simp add: sonewconn_def)
        moreover have "accept_q ?n6 False head xs" using gone r(2) fresh(1) by simp
        moreover have "accept_q ?n6 True head ys" using gone r(3) q4(2) fresh(2) by blast
        ultimately show ?thesis by auto
      qed
    qed
  qed
qed

theorem sonewconn_bounded_witness:
  "\<exists>r n'. sonewconn (\<lambda>so r n. Some (if so = 7 then Some ENOBUFS else None, n)) 1 net_demo = Some (r, n') \<and> accept_q n' True 1 [4] \<and>
     (case r of None \<Rightarrow> accept_q n' False 1 [3, 2] | Some so \<Rightarrow> accept_q n' False 1 [so, 3, 2] \<and> 4 \<le> (3 * 5 div 2 + 1 :: int))"
proof -
  have s: "sockets net_demo 1 = Some (so_demo 0 3 4 2 1 {})" by (simp add: net_demo_def)
  have p: "pool_ok (pool net_demo)" using pool_demo_ok by (simp add: net_demo_def)
  have f: "sockets net_demo (nextaddr net_demo) = None" "nextaddr net_demo \<noteq> 0" by (simp_all add: net_demo_def)
  have q: "so_qlimit (so_demo 0 3 4 2 1 {}) = 5" by (simp add: so_demo_def)
  have u: "pool_ok (pool n1) \<Longrightarrow> \<exists>e n2. Some (if so = 7 then Some ENOBUFS else None, n1) = Some (e, n2) \<and> queues_kept n1 n2 \<and>
      (\<forall>s s'. sockets n1 so = Some s \<longrightarrow> sockets n2 so = Some s' \<longrightarrow> so_mbuf s' = so_mbuf s) \<and> pool_ok (pool n2)"
    for so and n1 :: net by auto
  show ?thesis
    using sonewconn_bounded [OF net_demo_q p _ s _ _ f u] q by (fastforce split: option.splits)
qed

end
