(* ===== verification/Mbuf_Stock.thy ===== *)
theory Mbuf_Stock
  imports Socket
begin

text \<open>
  The conservation law of mbufs: the number of mbufs that can still be had, free ones and those of the
  pages memory has left, changes by exactly what is taken and given back.  It bounds the loops that
  take an mbuf in every round and shows that error paths leak none.
\<close>

definition stock :: "mpool \<Rightarrow> nat" where
  "stock p = 8 * nat (vm_free p div CLSIZE) + length (mfree p)"

named_theorems stock \<open>the mbufs taken and given back by an operation\<close>

lemma cl_unref_stock [simp]: "stock (cl_unref c p) = stock p" "mfree (cl_unref c p) = mfree p" "vm_free (cl_unref c p) = vm_free p"
  by (simp_all add: stock_def cl_unref_def Let_def)

lemma stock_MFREE [stock]: "MFREE m p = Some p' \<Longrightarrow> stock p' = Suc (stock p)"
  by (auto simp: MFREE_def stock_def cl_unref_def Let_def split: if_splits moff.splits)

lemma stock_m_freem [stock]: "m_freem ms p = Some p' \<Longrightarrow> stock p' = stock p + length ms"
proof (induction ms arbitrary: p)
  case (Cons m ms)
  then obtain p1 where "MFREE m p = Some p1" "m_freem ms p1 = Some p'" by (auto simp: bind_eq_Some_conv)
  then show ?case using Cons.IH stock_MFREE by fastforce
qed simp

lemma stock_add_mbufs: "add_mbufs i p = Some p' \<Longrightarrow> stock p' = stock p + i"
proof (induction i arbitrary: p)
  case (Suc i)
  then obtain p1 where p1: "MFREE \<lparr>m_off = Moff 0, m_len = 0, m_type = 1, m_dat = replicate 112 0, m_act = 0\<rparr>
            (p\<lparr>m_mtypes := (m_mtypes p)(1 := s16 (m_mtypes p 1 + 1)), m_mbufs := s16 (m_mbufs p + 1)\<rparr>) = Some p1"
      "add_mbufs i p1 = Some p'" by (auto simp: bind_eq_Some_conv)
  with Suc.IH stock_MFREE [OF p1(1)] show ?case by (simp add: stock_def)
qed simp

lemma stock_expand: "m_expand p = Some (ok, p') \<Longrightarrow> stock p' = stock p"
proof -
  assume e: "m_expand p = Some (ok, p')"
  have sup: "stock (p\<lparr>mbmap := x\<rparr>) = stock p" for x by (simp add: stock_def)
  have c: "nat (c_div (1 * CLBYTES) 128) = 8" by (simp add: CLBYTES_def c_div_pos)
  obtain mbx mp where a: "rmalloc (mbmap p) (1 * CLSIZE) = Some (mbx, mp)"
    using e by (auto simp: m_expand_def m_clalloc_def Let_def bind_eq_Some_conv)
  show ?thesis
  proof (cases "mbx = 0")
    case True
    then show ?thesis using e a sup by (auto simp: m_expand_def m_clalloc_def Let_def)
  next
    case False
    have ev: "c_mod (1 * CLSIZE) CLSIZE = 0" by (simp add: CLSIZE_def c_mod_pos)
    show ?thesis
    proof (cases "1 * CLSIZE > vm_free p")
      case True
      then show ?thesis using e a False ev sup by (auto simp: m_expand_def m_clalloc_def Let_def memall_def)
    next
      case no: False
      let ?p2 = "p\<lparr>mbmap := mp, vm_free := vm_free p - 1 * CLSIZE\<rparr>"
      have "add_mbufs 8 ?p2 = Some p'"
        using e a False ev no c by (auto simp: m_expand_def m_clalloc_def Let_def memall_def)
      then have s: "stock p' = stock ?p2 + 8" by (rule stock_add_mbufs)
      have v: "2 \<le> vm_free p" using no by (simp add: CLSIZE_def)
      then have "(vm_free p - 2) div 2 = vm_free p div 2 - 1" "1 \<le> vm_free p div 2" by simp_all
      then have "nat ((vm_free p - 2) div 2) + 1 = nat (vm_free p div 2)" by simp
      then show ?thesis using s by (simp add: stock_def CLSIZE_def)
    qed
  qed
qed

lemma stock_mget_free:
  "mget_free t p = Some (r, p') \<Longrightarrow> \<exists>m. r = Some m \<and> Suc (stock p') = stock p"
  by (auto simp: mget_free_def stock_def split: list.splits if_splits)

lemma stock_m_get [stock]:
  "m_get t p = Some (r, p') \<Longrightarrow> stock p = (case r of None \<Rightarrow> stock p' | Some _ \<Rightarrow> Suc (stock p'))"
proof -
  assume g: "m_get t p = Some (r, p')"
  show ?thesis
  proof (cases "mfree p = []")
    case False
    then show ?thesis using g stock_mget_free by (fastforce simp: m_get_def)
  next
    case True
    then obtain ok p1 where e: "m_expand p = Some (ok, p1)"
        "(if \<not> ok then Some (None, p1\<lparr>m_drops := s16 (m_drops p1 + 1)\<rparr>) else mget_free t p1) = Some (r, p')"
      using g by (auto simp: m_get_def m_more_def bind_eq_Some_conv)
    have "stock (p1\<lparr>m_drops := x\<rparr>) = stock p1" for x by (simp add: stock_def)
    then show ?thesis using e(2) stock_expand [OF e(1)] stock_mget_free [of t p1 r p'] by (auto split: if_splits)
  qed
qed

lemma stock_m_copy_loop:
  "m_copy_loop ms off len t cp p = Some (r, p') \<Longrightarrow> stock p' + length r = stock p + length cp"
proof (induction ms arbitrary: off len cp p)
  case (Cons m ms)
  show ?case
  proof (cases "len > 0")
    case True
    then obtain no p1 where g: "m_get t p = Some (no, p1)" using Cons.prems by (auto simp: bind_eq_Some_conv)
    show ?thesis
    proof (cases no)
      case None
      then show ?thesis using Cons.prems True g stock_m_get [OF g] by (auto dest: stock_m_freem)
    next
      case (Some x)
      have "stock (p1\<lparr>mclrefcnt := z\<rparr>) = stock p1" for z by (simp add: stock_def)
      then show ?thesis
        using Cons.prems True g Some stock_m_get [OF g]
        by (cases "m_off m") (auto simp: Let_def dest!: Cons.IH)
    qed
  qed (use Cons.prems in simp)
qed (auto split: if_splits)

lemma stock_m_copy [stock]: "m_copy ms off len p = Some (r, p') \<Longrightarrow> stock p' + length r = stock p"
proof (cases "len = 0 \<or> off < 0 \<or> len < 0 \<or> ms = []")
  case True
  then show "m_copy ms off len p = Some (r, p') \<Longrightarrow> ?thesis" by (cases ms) (auto simp: m_copy_def split: if_splits)
next
  case False
  then obtain m ms1 where ms: "ms = m # ms1" by (cases ms) auto
  assume "m_copy ms off len p = Some (r, p')"
  then obtain off' ms' where "m_copy_loop ms' off' len (m_type m) [] p = Some (r, p')"
    using False ms by (auto simp: m_copy_def bind_eq_Some_conv simp del: m_skip.simps m_copy_loop.simps)
  then show ?thesis using stock_m_copy_loop by fastforce
qed

end
