(* ===== verification/In_Pcb.thy ===== *)
theory In_Pcb
  imports Socket
begin

text \<open>
  The protocol control blocks of sys/netinet/in_pcb.c, the address classes of sys/netinet/in.c and the
  lookups of interfaces of sys/net/if.c.  The blocks of a protocol hang in a circular list from a head,
  where \<open>insque\<close> puts a block first and \<open>remque\<close> takes it out: a list of addresses here, 0 standing for the
  head itself.  Addresses and ports are words in host order, so \<open>htons\<close> and its kin are the identity.
\<close>

section \<open>Addresses and interfaces\<close>

type_synonym in_addr = "32 word"
type_synonym in_port = "16 word"

definition IN_CLASSA :: "in_addr \<Rightarrow> bool" where "IN_CLASSA i \<longleftrightarrow> and i 0x80000000 = 0"
definition IN_CLASSB :: "in_addr \<Rightarrow> bool" where "IN_CLASSB i \<longleftrightarrow> and i 0xc0000000 = 0x80000000"

definition in_netof :: "in_addr \<Rightarrow> in_addr" where
  "in_netof i =
     (if IN_CLASSA i then drop_bit 24 (and i 0xff000000)
      else if IN_CLASSB i then drop_bit 16 (and i 0xffff0000)
      else drop_bit 8 (and i 0xffffff00))"

definition in_lnaof :: "in_addr \<Rightarrow> in_addr" where
  "in_lnaof i =
     (if IN_CLASSA i then and i 0x00ffffff else if IN_CLASSB i then and i 0x0000ffff else and i 0x000000ff)"

definition if_makeaddr :: "in_addr \<Rightarrow> in_addr \<Rightarrow> in_addr" where
  "if_makeaddr net host =
     (if net <s 128 then or (push_bit 24 net) host
      else if net <s 65536 then or (push_bit 16 net) host
      else or (push_bit 8 net) host)"

definition inet_netmatch :: "in_addr \<Rightarrow> in_addr \<Rightarrow> bool" where
  "inet_netmatch a b \<longleftrightarrow> in_netof a = in_netof b"

text \<open>An interface; its addresses carry port 0.\<close>

record ifnet =
  if_net :: in_addr
  if_family :: nat
  if_addr :: in_addr
  if_broadcast :: bool
  if_broadaddr :: in_addr

definition AF_INET :: nat where "AF_INET = 2"

definition if_ifwithaddr :: "nat \<Rightarrow> in_addr \<Rightarrow> ifnet list \<Rightarrow> ifnet option" where
  "if_ifwithaddr family a ifs =
     find (\<lambda>i. if_family i = family \<and> (if_addr i = a \<or> if_broadcast i \<and> if_broadaddr i = a)) ifs"

definition if_ifonnetof :: "in_addr \<Rightarrow> ifnet list \<Rightarrow> ifnet option" where
  "if_ifonnetof net ifs = find (\<lambda>i. if_net i = net) ifs"

definition if_ifwithaf :: "nat \<Rightarrow> ifnet list \<Rightarrow> ifnet option" where
  "if_ifwithaf af ifs = find (\<lambda>i. if_family i = af) ifs"

section \<open>The state\<close>

datatype pcbid = Tcb | Udb

record inpcb =
  inp_head :: pcbid
  inp_faddr :: in_addr
  inp_fport :: in_port
  inp_laddr :: in_addr
  inp_lport :: in_port
  inp_socket :: nat
  inp_ppcb :: nat
  inp_route :: nat
  inp_mbuf :: mbuf

record pcbhead =
  h_pcbs :: "nat list"
  h_lport :: in_port

text \<open>A mbuf that holds an internet address: its \<open>m_len\<close> and the fields of the address.\<close>

record sockaddr_in =
  nam_len :: int
  sin_family :: nat
  sin_port :: in_port
  sin_addr :: in_addr

record inet = net +
  inpcbs :: "nat \<Rightarrow> inpcb option"
  heads :: "pcbid \<Rightarrow> pcbhead"
  ifs :: "ifnet list"
  u_uid :: int
  rtfreed :: "nat list"

definition inp_clear :: "mbuf \<Rightarrow> inpcb" where
  "inp_clear m = \<lparr>inp_head = Tcb, inp_faddr = 0, inp_fport = 0, inp_laddr = 0, inp_lport = 0, inp_socket = 0,
     inp_ppcb = 0, inp_route = 0, inp_mbuf = m\<rparr>"

definition inp_put :: "nat \<Rightarrow> inpcb \<Rightarrow> 'a inet_scheme \<Rightarrow> 'a inet_scheme" where
  "inp_put i p n = n\<lparr>inpcbs := (inpcbs n)(i := Some p)\<rparr>"

definition head_mod :: "pcbid \<Rightarrow> (pcbhead \<Rightarrow> pcbhead) \<Rightarrow> 'a inet_scheme \<Rightarrow> 'a inet_scheme" where
  "head_mod h f n = n\<lparr>heads := (heads n)(h := f (heads n h))\<rparr>"

section \<open>Lookup\<close>

text \<open>The body of the search: \<open>None\<close> for a block that is passed over, else its number of wildcards.\<close>

definition in_wild :: "inpcb \<Rightarrow> in_addr \<Rightarrow> in_port \<Rightarrow> in_addr \<Rightarrow> in_port \<Rightarrow> bool \<Rightarrow> nat option" where
  "in_wild p faddr fport laddr lport wild =
     (if inp_lport p \<noteq> lport then None
      else
        Option.bind
          (if inp_laddr p \<noteq> 0
           then (if laddr = 0 then Some 1 else if inp_laddr p \<noteq> laddr then None else Some 0)
           else (if laddr \<noteq> 0 then Some 1 else Some (0 :: nat))) (\<lambda>w1.
        Option.bind
          (if inp_faddr p \<noteq> 0
           then (if faddr = 0 then Some (w1 + 1)
                 else if inp_faddr p \<noteq> faddr \<or> inp_fport p \<noteq> fport then None else Some w1)
           else (if faddr \<noteq> 0 then Some (w1 + 1) else Some w1)) (\<lambda>w.
        if w \<noteq> 0 \<and> \<not> wild then None else Some w)))"

fun lookup_loop :: "(nat \<Rightarrow> nat option) \<Rightarrow> nat list \<Rightarrow> nat option \<Rightarrow> nat \<Rightarrow> nat option" where
  "lookup_loop W [] best bestw = best"
| "lookup_loop W (i # is) best bestw =
     (case W i of
        None \<Rightarrow> lookup_loop W is best bestw
      | Some w \<Rightarrow> if w < bestw then (if w = 0 then Some i else lookup_loop W is (Some i) w)
                  else lookup_loop W is best bestw)"

text \<open>The number of wildcards of block \<open>i\<close> of the state; a block of the list is always there.\<close>

definition pcb_wild :: "'a inet_scheme \<Rightarrow> in_addr \<Rightarrow> in_port \<Rightarrow> in_addr \<Rightarrow> in_port \<Rightarrow> bool \<Rightarrow> nat \<Rightarrow> nat option" where
  "pcb_wild n faddr fport laddr lport wild i =
     Option.bind (inpcbs n i) (\<lambda>p. in_wild p faddr fport laddr lport wild)"

definition in_pcblookup :: "pcbid \<Rightarrow> in_addr \<Rightarrow> in_port \<Rightarrow> in_addr \<Rightarrow> in_port \<Rightarrow> bool \<Rightarrow> 'a inet_scheme \<Rightarrow> nat option" where
  "in_pcblookup h faddr fport laddr lport wild n =
     lookup_loop (pcb_wild n faddr fport laddr lport wild) (h_pcbs (heads n h)) None 3"

section \<open>Operations on the blocks\<close>

definition in_pcballoc :: "nat \<Rightarrow> pcbid \<Rightarrow> 'a inet_scheme \<Rightarrow> (soerr option \<times> 'a inet_scheme) option" where
  "in_pcballoc so h n =
     Option.bind (m_getclr 3 (pool n)) (\<lambda>(mo, p).
     case mo of
       None \<Rightarrow> Some (Some ENOBUFS, n\<lparr>pool := p\<rparr>)
     | Some m \<Rightarrow>
         let i = nextaddr n;
             n1 = head_mod h (\<lambda>x. x\<lparr>h_pcbs := i # h_pcbs x\<rparr>)
                    (inp_put i ((inp_clear m)\<lparr>inp_head := h, inp_socket := so\<rparr>) (n\<lparr>pool := p, nextaddr := i + 1\<rparr>))
         in map_option (\<lambda>n2. (None, n2)) (so_mod so (\<lambda>s. s\<lparr>so_pcb := i\<rparr>) n1))"

text \<open>The loop that picks a port: the head remembers the last one.\<close>

definition next_port :: "in_port \<Rightarrow> in_port" where
  "next_port p = (if p < 1024 then 1024 else p + 1)"

partial_function (option) port_loop :: "(in_port \<Rightarrow> bool) \<Rightarrow> in_port \<Rightarrow> in_port option" where
  "port_loop used p = (if used (next_port p) then port_loop used (next_port p) else Some (next_port p))"

text \<open>The checks of \<open>in_pcbbind\<close> on a given address: an error, or the port, 0 to pick one.\<close>

definition bind_check :: "inpcb \<Rightarrow> socket \<Rightarrow> sockaddr_in \<Rightarrow> 'a inet_scheme \<Rightarrow> soerr option" where
  "bind_check p so sin n =
     (if nam_len sin \<noteq> 16 then Some EINVAL_net
      else if sin_addr sin \<noteq> 0 \<and> if_ifwithaddr (sin_family sin) (sin_addr sin) (ifs n) = None then Some EADDRNOTAVAIL
      else if sin_port sin \<noteq> 0 then
        (if sin_port sin < 1024 \<and> u_uid n \<noteq> 0 then Some EACCES
         else
           let wild = SO_REUSEADDR \<notin> so_options so \<and>
                      (PR_CONNREQUIRED \<notin> pr_flags (so_proto so) \<or> SO_ACCEPTCONN \<notin> so_options so)
           in if in_pcblookup (inp_head p) 0 0 (sin_addr sin) (sin_port sin) wild n \<noteq> None then Some EADDRINUSE else None)
      else None)"

definition in_pcbbind :: "nat \<Rightarrow> sockaddr_in option \<Rightarrow> 'a inet_scheme \<Rightarrow> (soerr option \<times> 'a inet_scheme) option" where
  "in_pcbbind i nam n =
     Option.bind (inpcbs n i) (\<lambda>p.
     Option.bind (sockets n (inp_socket p)) (\<lambda>so.
     if ifs n = [] then Some (Some EADDRNOTAVAIL, n)
     else if inp_lport p \<noteq> 0 \<or> inp_laddr p \<noteq> 0 then Some (Some EINVAL_net, n)
     else
       case (case nam of None \<Rightarrow> Inr (p, 0) | Some sin \<Rightarrow>
              case bind_check p so sin n of Some e \<Rightarrow> Inl e
              | None \<Rightarrow> Inr (p\<lparr>inp_laddr := sin_addr sin\<rparr>, sin_port sin)) of
         Inl e \<Rightarrow> Some (Some e, n)
       | Inr (p1, lport) \<Rightarrow>
           let n1 = inp_put i p1 n
           in if lport = 0 then
                map_option (\<lambda>port. (None, inp_put i (p1\<lparr>inp_lport := port\<rparr>)
                              (head_mod (inp_head p) (\<lambda>h. h\<lparr>h_lport := port\<rparr>) n1)))
                  (port_loop (\<lambda>q. in_pcblookup (inp_head p) 0 0 (inp_laddr p1) q False n1 \<noteq> None)
                     (h_lport (heads n (inp_head p))))
              else Some (None, inp_put i (p1\<lparr>inp_lport := lport\<rparr>) n1)))"

definition in_pcbconnect :: "nat \<Rightarrow> sockaddr_in \<Rightarrow> 'a inet_scheme \<Rightarrow> (soerr option \<times> 'a inet_scheme) option" where
  "in_pcbconnect i sin n =
     Option.bind (inpcbs n i) (\<lambda>p.
     if nam_len sin \<noteq> 16 then Some (Some EINVAL_net, n)
     else if sin_family sin \<noteq> AF_INET then Some (Some EAFNOSUPPORT, n)
     else if sin_addr sin = 0 \<or> sin_port sin = 0 then Some (Some EADDRNOTAVAIL, n)
     else
       let ifp = (if inp_laddr p = 0
                  then (case if_ifonnetof (in_netof (sin_addr sin)) (ifs n) of
                          Some x \<Rightarrow> Some x | None \<Rightarrow> if_ifwithaf AF_INET (ifs n))
                  else None);
           laddr = (if inp_laddr p \<noteq> 0 then inp_laddr p else case ifp of Some x \<Rightarrow> if_addr x | None \<Rightarrow> 0)
       in if inp_laddr p = 0 \<and> ifp = None then Some (Some EADDRNOTAVAIL, n)
          else if in_pcblookup (inp_head p) (sin_addr sin) (sin_port sin) laddr (inp_lport p) False n \<noteq> None
          then Some (Some EADDRINUSE, n)
          else Some (None, inp_put i (p\<lparr>inp_laddr := laddr, inp_faddr := sin_addr sin, inp_fport := sin_port sin\<rparr>) n))"

definition in_pcbdetach :: "nat \<Rightarrow> 'a inet_scheme \<Rightarrow> 'a inet_scheme option" where
  "in_pcbdetach i n =
     Option.bind (inpcbs n i) (\<lambda>p.
     Option.bind (so_mod (inp_socket p) (\<lambda>s. s\<lparr>so_pcb := 0\<rparr>) n) (\<lambda>n1.
     Option.bind (sofree (inp_socket p) n1) (\<lambda>n2.
     let n3 = (if inp_route p \<noteq> 0 then n2\<lparr>rtfreed := rtfreed n2 @ [inp_route p]\<rparr> else n2);
         n4 = head_mod (inp_head p) (\<lambda>h. h\<lparr>h_pcbs := remove1 i (h_pcbs h)\<rparr>) n3
     in map_option (\<lambda>q. n4\<lparr>pool := q, inpcbs := (inpcbs n4)(i := None)\<rparr>) (MFREE (inp_mbuf p) (pool n4)))))"

definition in_pcbdisconnect :: "nat \<Rightarrow> 'a inet_scheme \<Rightarrow> 'a inet_scheme option" where
  "in_pcbdisconnect i n =
     Option.bind (inpcbs n i) (\<lambda>p.
     Option.bind (sockets n (inp_socket p)) (\<lambda>s.
     let n1 = inp_put i (p\<lparr>inp_faddr := 0, inp_fport := 0\<rparr>) n
     in if SS_NOFDREF \<in> so_state s then in_pcbdetach i n1 else Some n1))"

definition in_setsockaddr :: "nat \<Rightarrow> 'a inet_scheme \<Rightarrow> sockaddr_in option" where
  "in_setsockaddr i n =
     map_option (\<lambda>p. \<lparr>nam_len = 16, sin_family = AF_INET, sin_port = inp_lport p, sin_addr = inp_laddr p\<rparr>) (inpcbs n i)"

text \<open>The block after \<open>i\<close> in the circular list, and the first: 0 is the head.\<close>

definition pcb_first :: "pcbid \<Rightarrow> 'a inet_scheme \<Rightarrow> nat" where
  "pcb_first h n = (case h_pcbs (heads n h) of [] \<Rightarrow> 0 | i # _ \<Rightarrow> i)"

fun next_in :: "nat list \<Rightarrow> nat \<Rightarrow> nat option" where
  "next_in [] i = None"
| "next_in (x # xs) i = (if x = i then Some (case xs of [] \<Rightarrow> 0 | y # _ \<Rightarrow> y) else next_in xs i)"

definition pcb_next :: "pcbid \<Rightarrow> nat \<Rightarrow> 'a inet_scheme \<Rightarrow> nat option" where
  "pcb_next h i n = next_in (h_pcbs (heads n h)) i"

partial_function (option) notify_loop :: "(nat \<Rightarrow> 'a inet_scheme \<Rightarrow> 'a inet_scheme option) \<Rightarrow> pcbid \<Rightarrow> in_addr \<Rightarrow>
    soerr option \<Rightarrow> nat \<Rightarrow> 'a inet_scheme \<Rightarrow> 'a inet_scheme option" where
  "notify_loop abort h dst err i n =
     (if i = 0 then Some n
      else
        Option.bind (inpcbs n i) (\<lambda>p.
        Option.bind (pcb_next h i n) (\<lambda>nxt.
        if inp_faddr p \<noteq> dst \<or> inp_socket p = 0 then notify_loop abort h dst err nxt n
        else
          Option.bind (so_mod (inp_socket p) (\<lambda>s. s\<lparr>so_error := err\<rparr>) n) (\<lambda>n1.
          Option.bind (abort i n1) (\<lambda>n2. notify_loop abort h dst err nxt n2)))))"

definition in_pcbnotify :: "(nat \<Rightarrow> 'a inet_scheme \<Rightarrow> 'a inet_scheme option) \<Rightarrow> pcbid \<Rightarrow> in_addr \<Rightarrow> soerr option \<Rightarrow>
    'a inet_scheme \<Rightarrow> 'a inet_scheme option" where
  "in_pcbnotify abort h dst err n = notify_loop abort h dst err (pcb_first h n) n"

section \<open>The search finds the best match\<close>

lemma in_wild_le: "in_wild p fa fp la lp wild = Some w \<Longrightarrow> w < 3"
  by (auto simp: in_wild_def split: if_splits)

lemma pcb_wild_le: "pcb_wild n fa fp la lp wild i = Some w \<Longrightarrow> w < 3"
  by (auto simp: pcb_wild_def bind_eq_Some_conv intro: in_wild_le)

definition best_of :: "(nat \<Rightarrow> nat option) \<Rightarrow> nat list \<Rightarrow> nat option \<Rightarrow> nat \<Rightarrow> nat option \<Rightarrow> bool" where
  "best_of W is best bw r \<longleftrightarrow>
     (\<forall>j \<in> set is. \<forall>v. W j = Some v \<longrightarrow> bw \<le> v) \<and> r = best \<or>
     (\<exists>i as bs w. r = Some i \<and> is = as @ i # bs \<and> W i = Some w \<and> w < bw \<and>
        (\<forall>j \<in> set as. \<forall>v. W j = Some v \<longrightarrow> w < v) \<and> (\<forall>j \<in> set bs. \<forall>v. W j = Some v \<longrightarrow> w \<le> v))"

lemma best_of_skip:
  assumes "best_of W is best bw r" "\<forall>v. W i = Some v \<longrightarrow> bw \<le> v"
  shows "best_of W (i # is) best bw r"
  using assms(1) unfolding best_of_def
proof (elim disjE exE conjE)
  fix k as bs w
  assume *: "r = Some k" "is = as @ k # bs" "W k = Some w" "w < bw"
    "\<forall>j \<in> set as. \<forall>v. W j = Some v \<longrightarrow> w < v" "\<forall>j \<in> set bs. \<forall>v. W j = Some v \<longrightarrow> w \<le> v"
  have "\<forall>v. W i = Some v \<longrightarrow> w < v" using assms(2) *(4) by (meson order_less_le_trans)
  with * show "(\<forall>j \<in> set (i # is). \<forall>v. W j = Some v \<longrightarrow> bw \<le> v) \<and> r = best \<or>
     (\<exists>k as bs w. r = Some k \<and> i # is = as @ k # bs \<and> W k = Some w \<and> w < bw \<and>
        (\<forall>j \<in> set as. \<forall>v. W j = Some v \<longrightarrow> w < v) \<and> (\<forall>j \<in> set bs. \<forall>v. W j = Some v \<longrightarrow> w \<le> v))"
    by (intro disjI2 exI [of _ k] exI [of _ "i # as"] exI [of _ bs] exI [of _ w]) simp
qed (use assms(2) in simp)

lemma best_of_take:
  assumes "best_of W is (Some i) w r" "W i = Some w" "w < bw"
  shows "best_of W (i # is) best bw r"
  using assms(1) unfolding best_of_def
proof (elim disjE exE conjE)
  assume "\<forall>j \<in> set is. \<forall>v. W j = Some v \<longrightarrow> w \<le> v" "r = Some i"
  then show "(\<forall>j \<in> set (i # is). \<forall>v. W j = Some v \<longrightarrow> bw \<le> v) \<and> r = best \<or>
     (\<exists>k as bs w. r = Some k \<and> i # is = as @ k # bs \<and> W k = Some w \<and> w < bw \<and>
        (\<forall>j \<in> set as. \<forall>v. W j = Some v \<longrightarrow> w < v) \<and> (\<forall>j \<in> set bs. \<forall>v. W j = Some v \<longrightarrow> w \<le> v))"
    using assms(2,3) by (intro disjI2 exI [of _ i] exI [of _ "[]"] exI [of _ "is"] exI [of _ w]) simp
next
  fix k as bs u
  assume "r = Some k" "is = as @ k # bs" "W k = Some u" "u < w"
    "\<forall>j \<in> set as. \<forall>v. W j = Some v \<longrightarrow> u < v" "\<forall>j \<in> set bs. \<forall>v. W j = Some v \<longrightarrow> u \<le> v"
  then show "(\<forall>j \<in> set (i # is). \<forall>v. W j = Some v \<longrightarrow> bw \<le> v) \<and> r = best \<or>
     (\<exists>k as bs w. r = Some k \<and> i # is = as @ k # bs \<and> W k = Some w \<and> w < bw \<and>
        (\<forall>j \<in> set as. \<forall>v. W j = Some v \<longrightarrow> w < v) \<and> (\<forall>j \<in> set bs. \<forall>v. W j = Some v \<longrightarrow> w \<le> v))"
    using assms(2,3) by (intro disjI2 exI [of _ k] exI [of _ "i # as"] exI [of _ bs] exI [of _ u]) auto
qed

lemma lookup_loop_best: "0 < bw \<Longrightarrow> best_of W is best bw (lookup_loop W is best bw)"
proof (induction "is" arbitrary: best bw)
  case Nil
  then show ?case by (simp add: best_of_def)
next
  case (Cons i js)
  show ?case
  proof (cases "\<exists>w. W i = Some w \<and> w < bw")
    case False
    then have "lookup_loop W (i # js) best bw = lookup_loop W js best bw" by (cases "W i") auto
    moreover have "\<forall>v. W i = Some v \<longrightarrow> bw \<le> v" using False by auto
    ultimately show ?thesis using best_of_skip Cons.IH [OF Cons.prems] by simp
  next
    case True
    then obtain w where w: "W i = Some w" "w < bw" by blast
    show ?thesis
    proof (cases "w = 0")
      case True
      with w show ?thesis
        unfolding best_of_def by (intro disjI2 exI [of _ i] exI [of _ "[]"] exI [of _ js] exI [of _ w]) simp
    next
      case False
      then have "lookup_loop W (i # js) best bw = lookup_loop W js (Some i) w" using w by simp
      then show ?thesis using best_of_take [OF Cons.IH [of w "Some i"] w] False by simp
    qed
  qed
qed

lemma in_pcblookup_best_of:
  "best_of (pcb_wild n fa fp la lp wild) (h_pcbs (heads n h)) None 3 (in_pcblookup h fa fp la lp wild n)"
  by (simp add: in_pcblookup_def lookup_loop_best)

text \<open>C39: \<open>in_pcblookup\<close> returns the block with the fewest wildcards, the first of the list among equals, and
  nothing only when no block fits.  For a segment, whose four numbers are all given, the block of the very
  connection is found whenever there is one, wherever it stands behind blocks that merely listen.\<close>

theorem in_pcblookup_best:
  shows "(case in_pcblookup h fa fp la lp wild n of
      None \<Rightarrow> \<forall>j \<in> set (h_pcbs (heads n h)). pcb_wild n fa fp la lp wild j = None
    | Some i \<Rightarrow> \<exists>as bs w. h_pcbs (heads n h) = as @ i # bs \<and> pcb_wild n fa fp la lp wild i = Some w \<and>
        (\<forall>j \<in> set as. \<forall>v. pcb_wild n fa fp la lp wild j = Some v \<longrightarrow> w < v) \<and>
        (\<forall>j \<in> set bs. \<forall>v. pcb_wild n fa fp la lp wild j = Some v \<longrightarrow> w \<le> v)) \<and>
    (\<forall>j \<in> set (h_pcbs (heads n h)). \<forall>q. inpcbs n j = Some q \<longrightarrow> fa \<noteq> 0 \<longrightarrow> la \<noteq> 0 \<longrightarrow>
       inp_faddr q = fa \<longrightarrow> inp_fport q = fp \<longrightarrow> inp_laddr q = la \<longrightarrow> inp_lport q = lp \<longrightarrow>
       (\<exists>i p. in_pcblookup h fa fp la lp wild n = Some i \<and> inpcbs n i = Some p \<and>
          inp_faddr p = fa \<and> inp_fport p = fp \<and> inp_laddr p = la \<and> inp_lport p = lp))"
proof (intro conjI ballI allI impI)
  let ?W = "pcb_wild n fa fp la lp wild" and ?L = "h_pcbs (heads n h)"
  have L: "(\<forall>j \<in> set ?L. \<forall>v. ?W j = Some v \<longrightarrow> 3 \<le> v) \<and> in_pcblookup h fa fp la lp wild n = None \<or>
      (\<exists>i as bs w. in_pcblookup h fa fp la lp wild n = Some i \<and> ?L = as @ i # bs \<and> ?W i = Some w \<and> w < 3 \<and>
          (\<forall>j \<in> set as. \<forall>v. ?W j = Some v \<longrightarrow> w < v) \<and> (\<forall>j \<in> set bs. \<forall>v. ?W j = Some v \<longrightarrow> w \<le> v))"
    using in_pcblookup_best_of [of n fa fp la lp wild h] by (simp only: best_of_def)
  have none: "?W j = None" if "\<forall>v. ?W j = Some v \<longrightarrow> 3 \<le> v" for j
    using that pcb_wild_le [of n fa fp la lp wild j] by (cases "?W j") auto
  show "case in_pcblookup h fa fp la lp wild n of
      None \<Rightarrow> \<forall>j \<in> set ?L. ?W j = None
    | Some i \<Rightarrow> \<exists>as bs w. ?L = as @ i # bs \<and> ?W i = Some w \<and>
        (\<forall>j \<in> set as. \<forall>v. ?W j = Some v \<longrightarrow> w < v) \<and> (\<forall>j \<in> set bs. \<forall>v. ?W j = Some v \<longrightarrow> w \<le> v)"
    using L
  proof (elim disjE exE conjE)
    assume "\<forall>j \<in> set ?L. \<forall>v. ?W j = Some v \<longrightarrow> 3 \<le> v" "in_pcblookup h fa fp la lp wild n = None"
    then show ?thesis using none by simp
  next
    fix i as bs w
    assume "in_pcblookup h fa fp la lp wild n = Some i" "?L = as @ i # bs" "?W i = Some w" "w < 3"
      "\<forall>j \<in> set as. \<forall>v. ?W j = Some v \<longrightarrow> w < v" "\<forall>j \<in> set bs. \<forall>v. ?W j = Some v \<longrightarrow> w \<le> v"
    then show ?thesis by (simp only: option.case) blast
  qed
  fix j q
  assume j: "j \<in> set ?L" "inpcbs n j = Some q" "fa \<noteq> 0" "la \<noteq> 0"
    "inp_faddr q = fa" "inp_fport q = fp" "inp_laddr q = la" "inp_lport q = lp"
  then have wj: "?W j = Some 0" by (simp add: pcb_wild_def in_wild_def)
  have ex: "inp_faddr p = fa \<and> inp_fport p = fp \<and> inp_laddr p = la \<and> inp_lport p = lp"
    if "in_wild p fa fp la lp wild = Some 0" for p
    using that j(3,4) by (auto simp: in_wild_def split: if_splits)
  from L wj j(1) obtain i as bs w where i: "in_pcblookup h fa fp la lp wild n = Some i" "?L = as @ i # bs" "?W i = Some w"
      "\<forall>j \<in> set as. \<forall>v. ?W j = Some v \<longrightarrow> w < v" "\<forall>j \<in> set bs. \<forall>v. ?W j = Some v \<longrightarrow> w \<le> v"
    by fastforce
  then have "w = 0" using wj j(1) by auto
  with i(3) obtain p where "inpcbs n i = Some p" "in_wild p fa fp la lp wild = Some 0"
    by (auto simp: pcb_wild_def bind_eq_Some_conv)
  with i(1) ex show "\<exists>i p. in_pcblookup h fa fp la lp wild n = Some i \<and> inpcbs n i = Some p \<and>
          inp_faddr p = fa \<and> inp_fport p = fp \<and> inp_laddr p = la \<and> inp_lport p = lp"
    by blast
qed

section \<open>The choice of a port\<close>

definition port_pos :: "in_port \<Rightarrow> nat" where
  "port_pos p = (if p < 1024 then 0 else unat p - 1023)"

lemma unat16: "unat (p :: in_port) < 65536"
  by (rule order_less_le_trans [OF unsigned_less]) simp

lemma next_port_pos: "port_pos (next_port p) = (port_pos p + 1) mod 64513" and
  next_port_range: "next_port p = 0 \<or> 1024 \<le> next_port p"
proof -
  have u: "unat p < 65536" by (rule unat16)
  have "port_pos (next_port p) = (port_pos p + 1) mod 64513 \<and> (next_port p = 0 \<or> 1024 \<le> next_port p)"
  proof (cases "p < 1024")
    case True
    then show ?thesis by (simp add: next_port_def port_pos_def)
  next
    case False
    then have lo: "1024 \<le> unat p" by (simp add: word_less_nat_alt)
    show ?thesis
    proof (cases "p = -1")
      case True
      have "unat (- 1 :: in_port) = 65535" by (simp add: unsigned_minus_1_eq_mask mask_eq_exp_minus_1)
      with True show ?thesis by (simp add: next_port_def port_pos_def)
    next
      case np: False
      then have "p + 1 \<noteq> 0" by (metis add.commute add_eq_0_iff)
      then have s: "unat (p + 1) = Suc (unat p)" using unatSuc [of p] by (simp add: add.commute)
      then have "unat p < 65535" using unat16 [of "p + 1"] by simp
      then show ?thesis using False lo s by (simp add: next_port_def port_pos_def word_less_nat_alt word_le_nat_alt)
    qed
  qed
  then show "port_pos (next_port p) = (port_pos p + 1) mod 64513" "next_port p = 0 \<or> 1024 \<le> next_port p" by auto
qed

lemma port_pos_inj: "1024 \<le> q \<Longrightarrow> port_pos p = port_pos q \<Longrightarrow> p = q"
  by (auto simp: port_pos_def word_less_nat_alt word_le_nat_alt word_unat_eq_iff split: if_splits)

lemma port_pos_lt: "port_pos p < 64513"
  using unat16 [of p] by (auto simp: port_pos_def)

lemma port_loop_ends:
  assumes "used 0" "1024 \<le> q" "\<not> used q" "(port_pos p + d) mod 64513 = port_pos q" "0 < d"
  shows "\<exists>r. port_loop used p = Some r \<and> 1024 \<le> r \<and> \<not> used r"
  using assms(4,5)
proof (induction d arbitrary: p)
  case (Suc d)
  note stp = port_loop.simps [of used p]
  show ?case
  proof (cases "used (next_port p)")
    case False
    then show ?thesis using stp next_port_range [of p] assms(1) by auto
  next
    case True
    have "d \<noteq> 0"
    proof
      assume "d = 0"
      with Suc.prems have "port_pos (next_port p) = port_pos q" by (simp add: next_port_pos)
      with True assms(2,3) port_pos_inj show False by blast
    qed
    moreover have "(port_pos (next_port p) + d) mod 64513 = port_pos q"
      using Suc.prems(1) by (simp add: next_port_pos mod_add_left_eq)
    ultimately show ?thesis using Suc.IH stp True by simp
  qed
qed simp

lemma port_loop_result:
  assumes "port_loop used p = Some r"
  shows "\<not> used r \<and> (r = 0 \<or> 1024 \<le> r)"
proof (rule port_loop.raw_induct [where P = "\<lambda>u p r. \<not> u r \<and> (r = 0 \<or> 1024 \<le> r)", OF _ assms])
  fix loop and u :: "in_port \<Rightarrow> bool" and p r
  assume "\<And>u p r. loop u p = Some r \<Longrightarrow> \<not> u r \<and> (r = 0 \<or> 1024 \<le> r)"
    "(if u (next_port p) then loop u (next_port p) else Some (next_port p)) = Some r"
  then show "\<not> u r \<and> (r = 0 \<or> 1024 \<le> r)"
    using next_port_range [of p] by (auto split: if_splits)
qed

lemma port_loop_iff:
  assumes "used 0"
  shows "if \<exists>q. 1024 \<le> q \<and> \<not> used q then \<exists>r. port_loop used p = Some r \<and> 1024 \<le> r \<and> \<not> used r
    else port_loop used p = None"
proof (cases "\<exists>q. 1024 \<le> q \<and> \<not> used q")
  case True
  then obtain q where q: "1024 \<le> q" "\<not> used q" by blast
  define d where "d = port_pos q + 64513 - port_pos p"
  have "0 < d" "(port_pos p + d) mod 64513 = port_pos q" using port_pos_lt [of p] port_pos_lt [of q] by (simp_all add: d_def)
  from port_loop_ends [OF assms q this(2,1)] True show ?thesis by simp
next
  case False
  then show ?thesis using port_loop_result [of used p] assms by (cases "port_loop used p") auto
qed


text \<open>A host with an unbound block 12, a listener 10 on port 25 and a connection 11 on that port.\<close>

definition inet_demo :: inet where
  "inet_demo = \<lparr>pool = pool_demo, sockets = sockets net_demo, nextaddr = 20, wakeups = [],
     inpcbs = [10 \<mapsto> (inp_clear (mdata []))\<lparr>inp_socket := 1, inp_lport := 25\<rparr>,
               11 \<mapsto> (inp_clear (mdata []))\<lparr>inp_socket := 4, inp_lport := 25, inp_laddr := 0x0a000001,
                       inp_faddr := 0x0a000002, inp_fport := 2000\<rparr>,
               12 \<mapsto> (inp_clear (mdata []))\<lparr>inp_socket := 2\<rparr>],
     heads = (\<lambda>_. \<lparr>h_pcbs = [12, 10, 11], h_lport = 65535\<rparr>),
     ifs = [\<lparr>if_net = 10, if_family = 2, if_addr = 0x0a000001, if_broadcast = False, if_broadaddr = 0\<rparr>],
     u_uid = 7, rtfreed = []\<rparr>"

theorem in_pcblookup_best_witness:
  "\<exists>i p. in_pcblookup Tcb 0x0a000002 2000 0x0a000001 25 True inet_demo = Some i \<and> inpcbs inet_demo i = Some p \<and>
     inp_faddr p = 0x0a000002 \<and> inp_fport p = 2000 \<and> inp_laddr p = 0x0a000001 \<and> inp_lport p = 25"
proof -
  have "11 \<in> set (h_pcbs (heads inet_demo Tcb))" "inpcbs inet_demo 11 = Some ((inp_clear (mdata []))\<lparr>inp_socket := 4,
      inp_lport := 25, inp_laddr := 0x0a000001, inp_faddr := 0x0a000002, inp_fport := 2000\<rparr>)"
    by (simp_all add: inet_demo_def)
  from in_pcblookup_best [where h = Tcb and fa = "0x0a000002" and fp = 2000 and la = "0x0a000001" and lp = 25 and
      wild = True and n = inet_demo, THEN conjunct2, rule_format, OF this]
  show ?thesis by simp
qed


end
