(* ===== verification/Tcp_Cb.thy ===== *)
theory Tcp_Cb
  imports In_Pcb Complex_Main
begin

text \<open>
  The data of TCP: sequence numbers (tcp_seq.h), segments (tcp.h, tcpip.h), the states of a connection
  (tcp_fsm.h), its control block (tcp_var.h) and timers (tcp_timer.h).  Sequence numbers are words of
  32 bits; flag words are sets.  The smoothed round trip time, a \<open>float\<close>, is a rational number, and the
  rounding of the float arithmetic is a parameter of what computes it.
\<close>

section \<open>Sequence numbers\<close>

type_synonym tcp_seq = "32 word"

definition SEQ_LT :: "tcp_seq \<Rightarrow> tcp_seq \<Rightarrow> bool" where "SEQ_LT a b \<longleftrightarrow> sint (a - b) < 0"
definition SEQ_LEQ :: "tcp_seq \<Rightarrow> tcp_seq \<Rightarrow> bool" where "SEQ_LEQ a b \<longleftrightarrow> sint (a - b) \<le> 0"
definition SEQ_GT :: "tcp_seq \<Rightarrow> tcp_seq \<Rightarrow> bool" where "SEQ_GT a b \<longleftrightarrow> sint (a - b) > 0"
definition SEQ_GEQ :: "tcp_seq \<Rightarrow> tcp_seq \<Rightarrow> bool" where "SEQ_GEQ a b \<longleftrightarrow> sint (a - b) \<ge> 0"

section \<open>Segments and states\<close>

datatype thflag = TH_FIN | TH_SYN | TH_RST | TH_PUSH | TH_ACK | TH_URG

text \<open>
  A segment: the header in host order, and the chain \<open>ti_m\<close> whose first mbuf holds the header, at
  \<open>ti_hdr\<close>, in front of what its offset and length say.
\<close>

record tcpiphdr =
  ti_len :: int
  ti_src :: in_addr
  ti_dst :: in_addr
  ti_sport :: in_port
  ti_dport :: in_port
  ti_seq :: tcp_seq
  ti_ack :: tcp_seq
  ti_off :: int
  ti_flags :: "thflag set"
  ti_win :: int
  ti_urp :: int
  ti_hdr :: moff
  ti_m :: "mbuf list"

datatype tcps = TCPS_CLOSED | TCPS_LISTEN | TCPS_SYN_SENT | TCPS_SYN_RECEIVED | TCPS_ESTABLISHED
  | TCPS_CLOSE_WAIT | TCPS_FIN_WAIT_1 | TCPS_CLOSING | TCPS_LAST_ACK | TCPS_FIN_WAIT_2 | TCPS_TIME_WAIT

fun tcps_num :: "tcps \<Rightarrow> nat" where
  "tcps_num TCPS_CLOSED = 0"
| "tcps_num TCPS_LISTEN = 1"
| "tcps_num TCPS_SYN_SENT = 2"
| "tcps_num TCPS_SYN_RECEIVED = 3"
| "tcps_num TCPS_ESTABLISHED = 4"
| "tcps_num TCPS_CLOSE_WAIT = 5"
| "tcps_num TCPS_FIN_WAIT_1 = 6"
| "tcps_num TCPS_CLOSING = 7"
| "tcps_num TCPS_LAST_ACK = 8"
| "tcps_num TCPS_FIN_WAIT_2 = 9"
| "tcps_num TCPS_TIME_WAIT = 10"

lemma tcps_num_inj: "tcps_num a = tcps_num b \<Longrightarrow> a = b"
  by (cases a; cases b) simp_all

text \<open>The code compares states as numbers.\<close>

instantiation tcps :: linorder
begin

definition less_eq_tcps :: "tcps \<Rightarrow> tcps \<Rightarrow> bool" where "a \<le> b \<longleftrightarrow> tcps_num a \<le> tcps_num b"
definition less_tcps :: "tcps \<Rightarrow> tcps \<Rightarrow> bool" where "a < b \<longleftrightarrow> tcps_num a < tcps_num b"

instance
  by standard (auto simp: less_eq_tcps_def less_tcps_def tcps_num_inj)

end

definition TCPS_HAVERCVDSYN :: "tcps \<Rightarrow> bool" where "TCPS_HAVERCVDSYN s \<longleftrightarrow> s \<ge> TCPS_SYN_RECEIVED"
definition TCPS_HAVERCVDFIN :: "tcps \<Rightarrow> bool" where "TCPS_HAVERCVDFIN s \<longleftrightarrow> s \<ge> TCPS_TIME_WAIT"

fun tcp_outflags :: "tcps \<Rightarrow> thflag set" where
  "tcp_outflags TCPS_CLOSED = {TH_RST, TH_ACK}"
| "tcp_outflags TCPS_LISTEN = {}"
| "tcp_outflags TCPS_SYN_SENT = {TH_SYN}"
| "tcp_outflags TCPS_SYN_RECEIVED = {TH_SYN, TH_ACK}"
| "tcp_outflags TCPS_ESTABLISHED = {TH_ACK}"
| "tcp_outflags TCPS_CLOSE_WAIT = {TH_ACK}"
| "tcp_outflags TCPS_FIN_WAIT_1 = {TH_FIN, TH_ACK}"
| "tcp_outflags TCPS_CLOSING = {TH_FIN, TH_ACK}"
| "tcp_outflags TCPS_LAST_ACK = {TH_FIN, TH_ACK}"
| "tcp_outflags TCPS_FIN_WAIT_2 = {TH_ACK}"
| "tcp_outflags TCPS_TIME_WAIT = {TH_ACK}"

section \<open>Timers\<close>

datatype tcpt = TCPT_REXMT | TCPT_PERSIST | TCPT_KEEP | TCPT_2MSL

definition TCPTV_MSL :: int where "TCPTV_MSL = 60"
definition TCPTV_KEEP :: int where "TCPTV_KEEP = 90"
definition TCPTV_PERSMIN :: int where "TCPTV_PERSMIN = 10"
definition TCPTV_MAXIDLE :: int where "TCPTV_MAXIDLE = 720"
definition TCPTV_MIN :: int where "TCPTV_MIN = 2"
definition TCPTV_MAX :: int where "TCPTV_MAX = 60"
definition TCP_LINGERTIME :: int where "TCP_LINGERTIME = 120"
definition TCP_MAXRXTSHIFT :: int where "TCP_MAXRXTSHIFT = 10"

lemmas tcptv = TCPTV_MSL_def TCPTV_KEEP_def TCPTV_PERSMIN_def TCPTV_MAXIDLE_def TCPTV_MIN_def TCPTV_MAX_def
  TCP_LINGERTIME_def TCP_MAXRXTSHIFT_def

text \<open>A number converted to an integer by truncation.\<close>

definition c_trunc :: "rat \<Rightarrow> int" where
  "c_trunc x = (if x < 0 then - \<lfloor>- x\<rfloor> else \<lfloor>x\<rfloor>)"

definition TCPT_RANGESET :: "int \<Rightarrow> int \<Rightarrow> int \<Rightarrow> int" where
  "TCPT_RANGESET value tvmin tvmax =
     (let tv = s16 value; tv1 = (if tv < tvmin then tvmin else tv) in if tv1 > tvmax then tvmax else tv1)"

section \<open>The control block\<close>

datatype tf = TF_ACKNOW | TF_DELACK | TF_DONTKEEP | TF_NOOPT

record tcpcb =
  seg_q :: "tcpiphdr list"
  t_state :: tcps
  t_timer :: "tcpt \<Rightarrow> int"
  t_rxtshift :: int
  t_tcpopt :: "mbuf option"
  t_ipopt :: "mbuf option"
  t_maxseg :: int
  t_force :: int
  t_flags :: "tf set"
  t_template :: "(tcpiphdr \<times> mbuf) option"
  t_inpcb :: nat
  snd_una :: tcp_seq
  snd_nxt :: tcp_seq
  snd_up :: tcp_seq
  snd_wl1 :: tcp_seq
  snd_wl2 :: tcp_seq
  iss :: tcp_seq
  snd_wnd :: int
  rcv_wnd :: int
  rcv_nxt :: tcp_seq
  rcv_up :: tcp_seq
  irs :: tcp_seq
  rcv_adv :: tcp_seq
  snd_max :: tcp_seq
  t_idle :: int
  t_rtt :: int
  t_rtseq :: tcp_seq
  t_srtt :: rat
  t_oob :: bool
  t_iobc :: byte
  t_mbuf :: mbuf

definition tcp_rcvseqinit :: "tcpcb \<Rightarrow> tcpcb" where
  "tcp_rcvseqinit tp = tp\<lparr>rcv_nxt := irs tp + 1\<rparr>"

definition tcp_sendseqinit :: "tcpcb \<Rightarrow> tcpcb" where
  "tcp_sendseqinit tp = tp\<lparr>snd_up := iss tp, snd_max := iss tp, snd_nxt := iss tp, snd_una := iss tp\<rparr>"

definition tcp_canceltimers :: "tcpcb \<Rightarrow> tcpcb" where
  "tcp_canceltimers tp = tp\<lparr>t_timer := (\<lambda>_. 0)\<rparr>"

definition set_timer :: "tcpt \<Rightarrow> int \<Rightarrow> tcpcb \<Rightarrow> tcpcb" where
  "set_timer i v tp = tp\<lparr>t_timer := (t_timer tp)(i := v)\<rparr>"

text \<open>A control block just cleared by \<open>m_getclr\<close>.\<close>

definition tcpcb_clear :: "mbuf \<Rightarrow> tcpcb" where
  "tcpcb_clear m = \<lparr>seg_q = [], t_state = TCPS_CLOSED, t_timer = (\<lambda>_. 0), t_rxtshift = 0, t_tcpopt = None,
     t_ipopt = None, t_maxseg = 0, t_force = 0, t_flags = {}, t_template = None, t_inpcb = 0, snd_una = 0,
     snd_nxt = 0, snd_up = 0, snd_wl1 = 0, snd_wl2 = 0, iss = 0, snd_wnd = 0, rcv_wnd = 0, rcv_nxt = 0,
     rcv_up = 0, irs = 0, rcv_adv = 0, snd_max = 0, t_idle = 0, t_rtt = 0, t_rtseq = 0, t_srtt = 0,
     t_oob = False, t_iobc = 0, t_mbuf = m\<rparr>"

section \<open>The state\<close>

text \<open>A packet handed to \<open>ip_output\<close>: the header, the bytes of the options, the chain from the header mbuf.\<close>

record ippkt =
  p_ti :: tcpiphdr
  p_opt :: "byte list"
  p_len :: int
  p_m :: "mbuf list"

record tcpnet = inet +
  tcpcbs :: "nat \<Rightarrow> tcpcb option"
  tcp_iss :: tcp_seq
  tcpexprexmtbackoff :: bool
  tcpnodelack :: bool
  ip_sent :: "ippkt list"
  sigurg :: "nat list"

text \<open>
  What TCP does not define: the rounding of its floats, with \<open>tcp_alpha\<close> and \<open>tcp_beta\<close>, and the answer of
  \<open>ip_output\<close> to a packet, given those sent before.
\<close>

record tcpenv =
  e_rnd :: "rat \<Rightarrow> rat"
  tcp_alpha :: rat
  tcp_beta :: rat
  e_ipout :: "ippkt list \<Rightarrow> ippkt \<Rightarrow> soerr option"

definition tp_put :: "nat \<Rightarrow> tcpcb \<Rightarrow> 'a tcpnet_scheme \<Rightarrow> 'a tcpnet_scheme" where
  "tp_put t tp n = n\<lparr>tcpcbs := (tcpcbs n)(t := Some tp)\<rparr>"

definition tp_mod :: "nat \<Rightarrow> (tcpcb \<Rightarrow> tcpcb) \<Rightarrow> 'a tcpnet_scheme \<Rightarrow> 'a tcpnet_scheme option" where
  "tp_mod t f n = map_option (\<lambda>tp. tp_put t (f tp) n) (tcpcbs n t)"

text \<open>The socket of a control block: \<open>tp->t_inpcb->inp_socket\<close>.\<close>

definition tp_socket :: "nat \<Rightarrow> 'a tcpnet_scheme \<Rightarrow> nat option" where
  "tp_socket t n = Option.bind (tcpcbs n t) (\<lambda>tp. map_option inp_socket (inpcbs n (t_inpcb tp)))"

definition tcp_init :: "'a tcpnet_scheme \<Rightarrow> 'a tcpnet_scheme" where
  "tcp_init n = head_mod Tcb (\<lambda>h. h\<lparr>h_pcbs := []\<rparr>) (n\<lparr>tcp_iss := 1\<rparr>)"

definition ip_output :: "tcpenv \<Rightarrow> ippkt \<Rightarrow> 'a tcpnet_scheme \<Rightarrow> soerr option \<times> 'a tcpnet_scheme" where
  "ip_output E k n = (e_ipout E (ip_sent n) k, n\<lparr>ip_sent := ip_sent n @ [k]\<rparr>)"

section \<open>Lemmas on sequence numbers\<close>

lemma SEQ_neg: "SEQ_LEQ a b \<longleftrightarrow> \<not> SEQ_GT a b" "SEQ_GEQ a b \<longleftrightarrow> \<not> SEQ_LT a b"
  by (auto simp: SEQ_LEQ_def SEQ_GT_def SEQ_GEQ_def SEQ_LT_def)

lemma sint_of_int32: "-2147483648 \<le> x \<Longrightarrow> x < 2147483648 \<Longrightarrow> sint (word_of_int x :: 32 word) = x"
  by (subst signed_of_int) (simp add: signed_take_bit_int_eq_self)

lemma SEQ_LEQ_refl [simp]: "SEQ_LEQ a a" "SEQ_GEQ a a" "\<not> SEQ_LT a a" "\<not> SEQ_GT a a"
  by (simp_all add: SEQ_LEQ_def SEQ_GEQ_def SEQ_LT_def SEQ_GT_def)

lemma RANGESET_range: "tvmin \<le> tvmax \<Longrightarrow> tvmin \<le> TCPT_RANGESET v tvmin tvmax \<and> TCPT_RANGESET v tvmin tvmax \<le> tvmax"
  by (simp add: TCPT_RANGESET_def Let_def)

lemma tp_put_sel [simp]:
  "tcpcbs (tp_put t tp n) = (tcpcbs n)(t := Some tp)" "sockets (tp_put t tp n) = sockets n"
  "inpcbs (tp_put t tp n) = inpcbs n" "pool (tp_put t tp n) = pool n" "ip_sent (tp_put t tp n) = ip_sent n"
  "heads (tp_put t tp n) = heads n"
  by (simp_all add: tp_put_def)

end
