(* ===== verification/Tcp_Output.thy ===== *)
theory Tcp_Output
  imports Tcp_Cb Mbuf_Stock
begin

text \<open>
  Output of TCP: sys/netinet/tcp_output.c, and \<open>tcp_template\<close> and \<open>tcp_respond\<close> of tcp_subr.c.  A packet
  given to \<open>ip_output\<close> is recorded; its mbufs are then no longer TCP's.  Checksums and tracing are left out.
\<close>

section \<open>Deciding whether to send\<close>

text \<open>The offset of the next byte to send, and how many bytes the windows allow: negative past a FIN.\<close>

definition out_off :: "tcpcb \<Rightarrow> int" where
  "out_off tp = sint (snd_nxt tp - snd_una tp)"

definition out_len :: "tcpcb \<Rightarrow> socket \<Rightarrow> int" where
  "out_len tp so = min (sb_cc (so_snd so)) (snd_wnd tp + t_force tp) - out_off tp"

text \<open>The flags of a segment of \<open>len\<close> bytes; the comparison is the one of unsigned longs in the code.\<close>

definition out_flags :: "tcpcb \<Rightarrow> socket \<Rightarrow> int \<Rightarrow> thflag set" where
  "out_flags tp so len =
     (if snd_nxt tp + word_of_int len < snd_una tp + word_of_int (sb_cc (so_snd so))
      then tcp_outflags (t_state tp) - {TH_FIN} else tcp_outflags (t_state tp))"

text \<open>Whether the window opened by 35 percent; the arithmetic of the code is unsigned.\<close>

definition out_window :: "tcpcb \<Rightarrow> socket \<Rightarrow> bool" where
  "out_window tp so =
     (let win = sbspace (so_rcv so)
      in win > 0 \<and>
         (100 * (word_of_int win - (rcv_adv tp - rcv_nxt tp))) div word_of_int (sb_hiwat (so_rcv so)) \<ge> (35 :: 32 word))"

datatype outact = OutNone | OutPersist | OutSend int "thflag set" bool

definition out_decide :: "tcpcb \<Rightarrow> socket \<Rightarrow> outact" where
  "out_decide tp so =
     (if out_len tp so < 0 then OutNone
      else
        let sendalot = (out_len tp so > t_maxseg tp);
            len = (if sendalot then t_maxseg tp else out_len tp so);
            flags = out_flags tp so len
        in if flags \<inter> {TH_SYN, TH_RST, TH_FIN} \<noteq> {} then OutSend len flags sendalot
           else if SEQ_GT (snd_up tp) (snd_una tp) then OutSend len flags sendalot
           else if len \<noteq> 0 \<and> (len = t_maxseg tp \<or> out_off tp + len \<ge> sb_cc (so_snd so) \<or>
                               len * 4 \<ge> snd_wnd tp \<or> t_force tp \<noteq> 0) then OutSend len flags sendalot
           else if TF_ACKNOW \<in> t_flags tp then OutSend len flags sendalot
           else if out_window tp so then OutSend len flags sendalot
           else if snd_wnd tp = 0 \<and> sb_cc (so_snd so) \<noteq> 0 \<and> t_timer tp TCPT_REXMT = 0 \<and> t_timer tp TCPT_PERSIST = 0
           then OutPersist else OutNone)"

definition tcp_setpersist :: "tcpenv \<Rightarrow> tcpcb \<Rightarrow> tcpcb option" where
  "tcp_setpersist E tp =
     (if t_timer tp TCPT_REXMT \<noteq> 0 then None
      else
        let tp1 = set_timer TCPT_PERSIST
                    (TCPT_RANGESET (s32 (c_trunc (tcp_beta E * t_srtt tp)) * 2 ^ nat (t_rxtshift tp)) TCPTV_PERSMIN TCPTV_MAX) tp;
            sh = s16 (t_rxtshift tp + 1)
        in Some (tp1\<lparr>t_rxtshift := (if sh \<ge> TCP_MAXRXTSHIFT then 0 else sh)\<rparr>))"

section \<open>Sending\<close>

text \<open>The options of a segment: those of the connection, or the maximum segment size before it is established.\<close>

definition out_options :: "tcpcb \<Rightarrow> socket \<Rightarrow> (nat \<Rightarrow> byte list) \<Rightarrow> byte list option" where
  "out_options tp so cl =
     (if t_state tp < TCPS_ESTABLISHED then
        (if TF_NOOPT \<in> t_flags tp then None
         else let mss = u16 (min (c_div (sb_hiwat (so_rcv so)) 2) 1024)
              in Some [2, 4, word_of_int (mss div 256), word_of_int (mss mod 256)])
      else map_option (mbytes cl) (t_tcpopt tp))"

definition pad4 :: "byte list \<Rightarrow> byte list" where
  "pad4 bs = bs @ replicate ((4 - length bs mod 4) mod 4) 0"

text \<open>The window advertised, and the urgent pointer.\<close>

definition out_win :: "socket \<Rightarrow> int" where
  "out_win so = (let win = sbspace (so_rcv so) in if win < c_div (sb_hiwat (so_rcv so)) 4 then 0 else win)"

definition out_header :: "tcpiphdr \<Rightarrow> tcpcb \<Rightarrow> socket \<Rightarrow> int \<Rightarrow> int \<Rightarrow> thflag set \<Rightarrow> tcpiphdr" where
  "out_header tmpl tp so len optlen flags =
     tmpl\<lparr>ti_seq := snd_nxt tp, ti_ack := rcv_nxt tp,
          ti_off := (if optlen > 0 then (20 + optlen) div 4 else ti_off tmpl),
          ti_flags := flags \<union> (if SEQ_GT (snd_up tp) (snd_nxt tp) then {TH_URG} else {}) \<union>
                      (if len \<noteq> 0 \<and> out_off tp + len = sb_cc (so_snd so) then {TH_PUSH} else {}),
          ti_win := (if out_win so > 0 then u16 (out_win so) else ti_win tmpl),
          ti_urp := (if SEQ_GT (snd_up tp) (snd_nxt tp) then u16 (uint (snd_up tp - snd_nxt tp)) else ti_urp tmpl),
          ti_len := (if len + optlen \<noteq> 0 then s16 (20 + optlen + len) else ti_len tmpl)\<rparr>"

text \<open>The control block after a segment: the part of \<open>tcp_output\<close> before \<open>ip_output\<close>.\<close>

definition out_advance :: "tcpenv \<Rightarrow> int \<Rightarrow> thflag set \<Rightarrow> tcpcb \<Rightarrow> tcpcb" where
  "out_advance E len flags tp =
     (if t_force tp = 0 then
        let nxt = (if flags \<inter> {TH_SYN, TH_FIN} \<noteq> {} then snd_nxt tp + 1 else snd_nxt tp) + word_of_int len;
            tp1 = tp\<lparr>snd_nxt := nxt, snd_max := (if SEQ_GT nxt (snd_max tp) then nxt else snd_max tp)\<rparr>;
            tp2 = (if SEQ_GT (snd_nxt tp1) (snd_max tp1) \<and> t_rtt tp1 = 0
                   then tp1\<lparr>t_rtt := 1, t_rtseq := snd_nxt tp1 - word_of_int len\<rparr> else tp1);
            tp3 = (if t_timer tp2 TCPT_REXMT = 0 \<and> snd_nxt tp2 \<noteq> snd_una tp2
                   then (set_timer TCPT_REXMT (TCPT_RANGESET (c_trunc (tcp_beta E * t_srtt tp2)) TCPTV_MIN TCPTV_MAX) tp2)
                          \<lparr>t_rtt := 0, t_rxtshift := 0\<rparr>
                   else tp2)
        in set_timer TCPT_PERSIST 0 tp3
      else if SEQ_GT (snd_una tp + 1) (snd_max tp) then tp\<lparr>snd_max := snd_una tp + 1\<rparr> else tp)"

text \<open>The control block after \<open>ip_output\<close> took the segment.\<close>

definition out_sent :: "int \<Rightarrow> tcpcb \<Rightarrow> tcpcb" where
  "out_sent win tp =
     tp\<lparr>rcv_adv := (if win > 0 \<and> SEQ_GT (rcv_nxt tp + word_of_int win) (rcv_adv tp)
                    then rcv_nxt tp + word_of_int win else rcv_adv tp),
        t_flags := t_flags tp - {TF_ACKNOW, TF_DELACK}\<rparr>"

text \<open>The urgent pointer dragged along when it is not ahead.\<close>

definition out_drag :: "tcpcb \<Rightarrow> tcpcb" where
  "out_drag tp = (if SEQ_GT (snd_up tp) (snd_nxt tp) then tp else tp\<lparr>snd_up := snd_una tp\<rparr>)"

text \<open>
  The chain of a segment, from the pool: \<open>None\<close> inside is ENOBUFS, else the header mbuf, the bytes and
  the mbufs of the options, the copy of the data and the length really sent.
\<close>

definition out_chain :: "tcpcb \<Rightarrow> socket \<Rightarrow> int \<Rightarrow> mpool \<Rightarrow>
    ((mbuf \<times> byte list \<times> mbuf list \<times> mbuf list \<times> int) option \<times> mpool) option" where
  "out_chain tp so len p =
     Option.bind (m_get 1 p) (\<lambda>(mo, p1).
     case mo of
       None \<Rightarrow> Some (None, p1)
     | Some m \<Rightarrow>
         Option.bind (if len \<noteq> 0 then m_copy (sb_mb (so_snd so)) (out_off tp) len p1 else Some ([], p1)) (\<lambda>(d, p2).
         let len1 = (if len \<noteq> 0 \<and> d = [] then 0 else len);
             m1 = m\<lparr>m_off := Moff (MMAXOFF - 40), m_len := 40\<rparr>
         in if t_template tp = None then None
            else case out_options tp so (cl_dat p2) of
              None \<Rightarrow> Some (Some (m1, [], [], d, len1), p2)
            | Some opt \<Rightarrow>
                Option.bind (m_get 1 p2) (\<lambda>(oo, p3).
                case oo of
                  None \<Rightarrow> Option.bind (MFREE m1 p3) (\<lambda>p4. map_option (\<lambda>p5. (None, p5)) (m_freem d p4))
                | Some m0 \<Rightarrow>
                    Some (Some (m1, pad4 opt, [m0\<lparr>m_len := int (length (pad4 opt)), m_dat := bcopy_in (pad4 opt) 0 (m_dat m0)\<rparr>], d, len1),
                          p3))))"

definition tcp_send :: "tcpenv \<Rightarrow> nat \<Rightarrow> nat \<Rightarrow> int \<Rightarrow> thflag set \<Rightarrow> 'a tcpnet_scheme \<Rightarrow> (soerr option \<times> 'a tcpnet_scheme) option" where
  "tcp_send E t s len0 flags n =
     Option.bind (tcpcbs n t) (\<lambda>tp.
     Option.bind (sockets n s) (\<lambda>so.
     Option.bind (out_chain tp so len0 (pool n)) (\<lambda>(r, p).
     case r of
       None \<Rightarrow> Some (Some ENOBUFS, n\<lparr>pool := p\<rparr>)
     | Some (m, opt, om, d, len) \<Rightarrow>
         Option.bind (t_template tp) (\<lambda>(tmpl, _).
         let optlen = int (length opt);
             ti = out_header tmpl tp so len optlen flags;
             tp1 = out_advance E len flags (out_drag tp);
             (e, n1) = ip_output E \<lparr>p_ti = ti, p_opt = opt, p_len = 40 + optlen + len, p_m = m # om @ d\<rparr>
                         (tp_put t tp1 (n\<lparr>pool := p\<rparr>))
         in case e of
              Some err \<Rightarrow> Some (Some err, n1)
            | None \<Rightarrow> Some (None, tp_put t (out_sent (out_win so) tp1) n1)))))"

partial_function (option) tcp_output :: "tcpenv \<Rightarrow> nat \<Rightarrow> 'a tcpnet_scheme \<Rightarrow> (soerr option \<times> 'a tcpnet_scheme) option" where
  "tcp_output E t n =
     Option.bind (tcpcbs n t) (\<lambda>tp.
     Option.bind (tp_socket t n) (\<lambda>s.
     Option.bind (sockets n s) (\<lambda>so.
     case out_decide tp so of
       OutNone \<Rightarrow> Some (None, n)
     | OutPersist \<Rightarrow> map_option (\<lambda>tp'. (None, tp_put t tp' n)) (tcp_setpersist E (tp\<lparr>t_rxtshift := 0\<rparr>))
     | OutSend len flags sendalot \<Rightarrow>
         Option.bind (tcp_send E t s len flags n) (\<lambda>(e, n1).
         if e = None \<and> sendalot \<and> t_force tp = 0 then tcp_output E t n1 else Some (e, n1)))))"

section \<open>Templates and responses\<close>

definition tcp_template :: "nat \<Rightarrow> 'a tcpnet_scheme \<Rightarrow> ((tcpiphdr \<times> mbuf) option \<times> 'a tcpnet_scheme) option" where
  "tcp_template t n =
     Option.bind (tcpcbs n t) (\<lambda>tp.
     Option.bind (inpcbs n (t_inpcb tp)) (\<lambda>inp.
     map_option (\<lambda>(mo, p).
       (map_option (\<lambda>m.
          (\<lparr>ti_len = 20, ti_src = inp_laddr inp, ti_dst = inp_faddr inp, ti_sport = inp_lport inp, ti_dport = inp_fport inp,
            ti_seq = 0, ti_ack = 0, ti_off = 5, ti_flags = {}, ti_win = 0, ti_urp = 0,
            ti_hdr = Moff (MMAXOFF - 40), ti_m = []\<rparr>, m\<lparr>m_off := Moff (MMAXOFF - 40), m_len := 40\<rparr>)) mo, n\<lparr>pool := p\<rparr>))
       (m_get 2 (pool n))))"

text \<open>\<open>tcp_respond\<close> to the segment \<open>ti\<close> (\<open>flags\<close> not empty), and with the template (\<open>flags\<close> empty).\<close>

definition resp_win :: "nat option \<Rightarrow> 'a tcpnet_scheme \<Rightarrow> int option" where
  "resp_win tpo n =
     (case tpo of None \<Rightarrow> Some 0
      | Some t \<Rightarrow> Option.bind (tp_socket t n) (\<lambda>s. map_option (\<lambda>so. u16 (sbspace (so_rcv so))) (sockets n s)))"

definition tcp_respond :: "tcpenv \<Rightarrow> nat option \<Rightarrow> tcpiphdr \<Rightarrow> tcp_seq \<Rightarrow> tcp_seq \<Rightarrow> thflag set \<Rightarrow> 'a tcpnet_scheme \<Rightarrow>
    'a tcpnet_scheme option" where
  "tcp_respond E tpo ti ack sq flags n =
     Option.bind (resp_win tpo n) (\<lambda>win.
     if flags = {} then
       Option.bind (m_get 2 (pool n)) (\<lambda>(mo, p).
       case mo of
         None \<Rightarrow> Some (n\<lparr>pool := p\<rparr>)
       | Some m \<Rightarrow>
           Some (snd (ip_output E \<lparr>p_ti = ti\<lparr>ti_len := 21, ti_seq := sq, ti_ack := ack, ti_off := 5, ti_flags := {TH_ACK},
                                             ti_win := win, ti_urp := 0\<rparr>,
                                   p_opt = [], p_len = 41, p_m = [m\<lparr>m_len := 41\<rparr>]\<rparr> (n\<lparr>pool := p\<rparr>))))
     else
       case ti_m ti of
         [] \<Rightarrow> None
       | m # ms \<Rightarrow>
           map_option (\<lambda>p.
             snd (ip_output E \<lparr>p_ti = ti\<lparr>ti_src := ti_dst ti, ti_dst := ti_src ti, ti_sport := ti_dport ti, ti_dport := ti_sport ti,
                                          ti_len := 20, ti_seq := sq, ti_ack := ack, ti_off := 5, ti_flags := flags,
                                          ti_win := win, ti_urp := 0, ti_m := []\<rparr>,
                               p_opt = [], p_len = 40, p_m = [m\<lparr>m_off := ti_hdr ti, m_len := 40\<rparr>]\<rparr> (n\<lparr>pool := p\<rparr>)))
             (m_freem ms (pool n)))"

section \<open>What a segment carries\<close>

lemma seq_add:
  "-2147483648 \<le> sint (a - b) + k \<Longrightarrow> sint (a - b) + k < 2147483648 \<Longrightarrow>
   sint (a + word_of_int k - b :: 32 word) = sint (a - b) + k"
proof -
  assume r: "-2147483648 \<le> sint (a - b) + k" "sint (a - b) + k < 2147483648"
  have e: "a + word_of_int k - b = a - b + word_of_int k" by simp
  have "a - b + word_of_int k = (word_of_int (sint (a - b) + k) :: 32 word)" by (simp add: of_int_sint)
  then show ?thesis using sint_of_int32 [OF r] unfolding e by simp
qed

lemmas seq_add1 = seq_add [of a b 1 for a b, simplified]

lemma out_advance_sel [simp]:
  "snd_una (out_advance E len fl tp) = snd_una tp" "t_maxseg (out_advance E len fl tp) = t_maxseg tp"
  "snd_wnd (out_advance E len fl tp) = snd_wnd tp" "t_force (out_advance E len fl tp) = t_force tp"
  "t_template (out_advance E len fl tp) = t_template tp" "t_tcpopt (out_advance E len fl tp) = t_tcpopt tp"
  "t_inpcb (out_advance E len fl tp) = t_inpcb tp" "t_state (out_advance E len fl tp) = t_state tp"
  "rcv_nxt (out_advance E len fl tp) = rcv_nxt tp"
  by (simp_all add: out_advance_def Let_def set_timer_def)

lemma out_advance_nxt:
  "snd_nxt (out_advance E len fl tp) =
     (if t_force tp = 0 then (if fl \<inter> {TH_SYN, TH_FIN} \<noteq> {} then snd_nxt tp + 1 else snd_nxt tp) + word_of_int len
      else snd_nxt tp)"
  by (simp add: out_advance_def Let_def set_timer_def)

lemma out_drag_sel [simp]:
  "snd_una (out_drag tp) = snd_una tp" "t_maxseg (out_drag tp) = t_maxseg tp"
  "snd_wnd (out_drag tp) = snd_wnd tp" "t_force (out_drag tp) = t_force tp"
  "t_template (out_drag tp) = t_template tp" "t_tcpopt (out_drag tp) = t_tcpopt tp"
  "t_inpcb (out_drag tp) = t_inpcb tp" "t_state (out_drag tp) = t_state tp"
  "snd_nxt (out_drag tp) = snd_nxt tp" "snd_max (out_drag tp) = snd_max tp" "t_rtt (out_drag tp) = t_rtt tp"
  "t_rtseq (out_drag tp) = t_rtseq tp" "rcv_nxt (out_drag tp) = rcv_nxt tp"
  by (simp_all add: out_drag_def)

lemma out_header_sel [simp]: "ti_seq (out_header tmpl tp so len optlen fl) = snd_nxt tp"
  by (simp add: out_header_def)

lemma out_options_len:
  "t_tcpopt tp = None \<Longrightarrow> out_options tp so cl = Some opt \<Longrightarrow> length opt = 4 \<and> pad4 opt = opt"
  by (auto simp: out_options_def pad4_def Let_def split: if_splits)

lemma out_chain_spec:
  assumes "pool_ok p" "\<forall>m \<in> set (sb_mb (so_snd so)). mb_ok (cl_dat p) m" "t_template tp \<noteq> None" "t_tcpopt tp = None"
    "D = sb_data (cl_dat p) (so_snd so)" "0 \<le> out_off tp" "0 \<le> len" "out_off tp + len \<le> int (length D)" "len < M_COPYALL"
  shows "\<exists>r p'. out_chain tp so len p = Some (r, p') \<and> pool_step p p' \<and>
    (case r of
       None \<Rightarrow> stock p' = stock p
     | Some (m, opt, om, d, len1) \<Rightarrow> stock p = stock p' + length (m # om @ d) \<and> (len1 = len \<or> len1 = 0) \<and>
         chain_data (cl_dat p) (m # om @ d) =
           mbytes (cl_dat p) m @ opt @ take (nat len1) (drop (nat (out_off tp)) D) \<and> length (mbytes (cl_dat p) m) = 40)"
proof -
  obtain mo p1 where g: "m_get 1 p = Some (mo, p1)" "pool_step p p1" "case mo of None \<Rightarrow> True
      | Some m \<Rightarrow> m_type m = 1 \<and> m_off m = Moff 12 \<and> length (m_dat m) = 112"
    using m_get_step [OF assms(1), of 1] by (auto split: option.splits)
  note gs = stock_m_get [OF g(1)]
  have p1: "pool_ok p1" "cl_dat p1 = cl_dat p" using g(2) by (simp_all add: pool_step_def)
  show ?thesis
  proof (cases mo)
    case None
    then show ?thesis using g(1,2) gs by (auto simp: out_chain_def)
  next
    case (Some m)
    let ?m1 = "m\<lparr>m_off := Moff (MMAXOFF - 40), m_len := 40\<rparr>"
    have m: "m_type m = 1" "length (m_dat m) = 112" using g(3) Some by auto
    have b40: "length (mbytes (cl_dat p) ?m1) = 40" using m by (simp add: mbytes_def mconst)
    have "\<exists>d p2. (if len \<noteq> 0 then m_copy (sb_mb (so_snd so)) (out_off tp) len p1 else Some ([], p1)) = Some (d, p2) \<and>
        pool_step p1 p2 \<and> stock p2 + length d = stock p1 \<and>
        (d = [] \<or> chain_data (cl_dat p) d = take (nat len) (drop (nat (out_off tp)) D)) \<and> (\<forall>m \<in> set d. mb_ok (cl_dat p) m)"
    proof (cases "len = 0")
      case False
      with assms(7,8,6) have ne: "sb_mb (so_snd so) \<noteq> []" by (auto simp: assms(5) sb_data_def)
      obtain d p2 where d: "m_copy (sb_mb (so_snd so)) (out_off tp) len p1 = Some (d, p2)" "pool_ok p2" "cl_dat p2 = cl_dat p1"
          "d = [] \<or> chain_data (cl_dat p1) d = take (nat len) (drop (nat (out_off tp)) (chain_data (cl_dat p1) (sb_mb (so_snd so)))) \<and>
             (\<forall>m \<in> set d. mb_ok (cl_dat p1) m)"
        using m_copy_data [of p1 "sb_mb (so_snd so)" "out_off tp" len] assms False ne p1 by (fastforce simp: sb_data_def)
      show ?thesis using d False stock_m_copy [OF d(1)] p1(2) by (auto simp: pool_step_def assms(5) sb_data_def)
    qed (use p1 pool_step_refl in auto)
    then obtain d p2 where d: "(if len \<noteq> 0 then m_copy (sb_mb (so_snd so)) (out_off tp) len p1 else Some ([], p1)) = Some (d, p2)"
        "pool_step p1 p2" "stock p2 + length d = stock p1" "\<forall>m \<in> set d. mb_ok (cl_dat p) m"
        "d = [] \<or> chain_data (cl_dat p) d = take (nat len) (drop (nat (out_off tp)) D)" by blast
    define len1 where "len1 = (if len \<noteq> 0 \<and> d = [] then 0 else len)"
    have dd: "chain_data (cl_dat p) d = take (nat len1) (drop (nat (out_off tp)) D)" "len1 = len \<or> len1 = 0"
      using d(5) by (auto simp: len1_def)
    have p2: "pool_ok p2" "cl_dat p2 = cl_dat p" using d(2) p1(2) by (simp_all add: pool_step_def)
    obtain tm where tm: "t_template tp = Some tm" using assms(3) by blast
    show ?thesis
    proof (cases "out_options tp so (cl_dat p)")
      case None
      then show ?thesis using g(1) Some d(1) tm p2 dd b40 gs d(3)
        by (simp add: out_chain_def len1_def [symmetric] pool_step_def)
    next
      case (Some opt)
      have o4: "length opt = 4" "pad4 opt = opt" using out_options_len [OF assms(4) Some] by auto
      obtain oo p3 where o: "m_get 1 p2 = Some (oo, p3)" "pool_step p2 p3" "case oo of None \<Rightarrow> True
          | Some m \<Rightarrow> m_type m = 1 \<and> m_off m = Moff 12 \<and> length (m_dat m) = 112"
        using m_get_step [OF p2(1), of 1] by (auto split: option.splits)
      have p3: "pool_ok p3" "cl_dat p3 = cl_dat p" using o(2) p2(2) by (simp_all add: pool_step_def)
      note os = stock_m_get [OF o(1)]
      show ?thesis
      proof (cases oo)
        case None
        obtain p4 where p4: "MFREE ?m1 p3 = Some p4" "pool_step p3 p4" using MFREE_step [OF p3(1), of ?m1] m by auto
        have ok4: "pool_ok p4" "cl_dat p4 = cl_dat p" using p4(2) p3(2) by (simp_all add: pool_step_def)
        obtain p5 where p5: "m_freem d p4 = Some p5" "pool_step p4 p5"
          using m_freem_step [OF ok4(1), of d] d(4) by (auto simp: mb_ok_def)
        show ?thesis using g(1) \<open>mo = Some m\<close> d(1) tm Some None o(1) p4(1) p5 p2(2) ok4(2) gs d(3) os
            stock_MFREE [OF p4(1)] stock_m_freem [OF p5(1)]
          by (simp add: out_chain_def pool_step_def)
      next
        case (Some m0)
        let ?m0 = "m0\<lparr>m_len := int (length (pad4 opt)), m_dat := bcopy_in (pad4 opt) 0 (m_dat m0)\<rparr>"
        have "mbytes (cl_dat p) ?m0 = opt" using o(3) Some o4 by (auto simp: mbytes_def mconst bcopy_in_def)
        then show ?thesis
          using g(1) \<open>mo = Some m\<close> d(1) tm Some o(1) p3 p2(2) gs d(3) os dd b40 \<open>out_options tp so (cl_dat p) = Some opt\<close> o4
          by (simp add: out_chain_def pool_step_def len1_def [symmetric])
      qed
    qed
  qed
qed

section \<open>The segments of one call\<close>

text \<open>
  A packet carries the bytes of the send buffer at its own sequence number, no more of them than the
  largest segment and the window allow.
\<close>

definition seg_ok :: "tcpcb \<Rightarrow> socket \<Rightarrow> (nat \<Rightarrow> byte list) \<Rightarrow> ippkt \<Rightarrow> bool" where
  "seg_ok tp so cl k \<longleftrightarrow>
     (let off = sint (ti_seq (p_ti k) - snd_una tp); len = p_len k - 40 - int (length (p_opt k))
      in 0 \<le> off \<and> 0 \<le> len \<and> len \<le> t_maxseg tp \<and> off + len \<le> min (sb_cc (so_snd so)) (snd_wnd tp + t_force tp) \<and>
         drop (40 + length (p_opt k)) (chain_data cl (p_m k)) = take (nat len) (drop (nat off) (sb_data cl (so_snd so))))"

text \<open>What a call of \<open>tcp_output\<close> leaves alone in the control block.\<close>

definition out_same :: "tcpcb \<Rightarrow> tcpcb \<Rightarrow> bool" where
  "out_same tp tp' \<longleftrightarrow> snd_una tp' = snd_una tp \<and> t_maxseg tp' = t_maxseg tp \<and> snd_wnd tp' = snd_wnd tp \<and>
     t_force tp' = t_force tp \<and> t_template tp' = t_template tp \<and> t_tcpopt tp' = t_tcpopt tp \<and>
     t_inpcb tp' = t_inpcb tp \<and> t_state tp' = t_state tp"

lemma out_same_trans: "out_same a b \<Longrightarrow> out_same b c \<Longrightarrow> out_same a c"
  by (simp add: out_same_def)

lemma seg_ok_same: "out_same tp tp' \<Longrightarrow> seg_ok tp' so cl k = seg_ok tp so cl k"
  by (simp add: seg_ok_def out_same_def)

lemma out_decide_send:
  assumes "out_decide tp so = OutSend len fl sl" "0 < t_maxseg tp"
  shows "0 \<le> len" "len \<le> t_maxseg tp" "out_off tp + len \<le> min (sb_cc (so_snd so)) (snd_wnd tp + t_force tp)"
    "sl \<longleftrightarrow> out_len tp so > t_maxseg tp" "fl = out_flags tp so len"
proof -
  let ?l = "if out_len tp so > t_maxseg tp then t_maxseg tp else out_len tp so"
  have "\<not> out_len tp so < 0 \<and> len = ?l \<and> fl = out_flags tp so ?l \<and> (sl \<longleftrightarrow> out_len tp so > t_maxseg tp)"
    using assms(1) by (auto simp: out_decide_def Let_def split: if_splits)
  then show "sl \<longleftrightarrow> out_len tp so > t_maxseg tp" "fl = out_flags tp so len" and
    l: "0 \<le> len" "len \<le> t_maxseg tp" and "out_off tp + len \<le> min (sb_cc (so_snd so)) (snd_wnd tp + t_force tp)"
    using assms(2) out_len_def [of tp so] by auto
qed

lemma tcp_send_spec:
  fixes n :: "'a tcpnet_scheme"
  assumes "pool_ok (pool n)" "tcpcbs n t = Some tp" "sockets n s = Some so"
    "\<forall>m \<in> set (sb_mb (so_snd so)). mb_ok (cl_dat (pool n)) m" "sb_cc (so_snd so) = int (length (sb_data (cl_dat (pool n)) (so_snd so)))"
    "sb_cc (so_snd so) < 32768" "t_template tp \<noteq> None" "t_tcpopt tp = None" "0 < t_maxseg tp" "0 \<le> out_off tp"
    "0 \<le> len" "len \<le> t_maxseg tp" "out_off tp + len \<le> min (sb_cc (so_snd so)) (snd_wnd tp + t_force tp)"
  shows "\<exists>e n' ks tp'. tcp_send E t s len fl n = Some (e, n') \<and> ip_sent n' = ip_sent n @ ks \<and>
     (\<forall>k \<in> set ks. seg_ok tp so (cl_dat (pool n)) k) \<and>
     stock (pool n) = stock (pool n') + sum_list (map (\<lambda>k. length (p_m k)) ks) \<and> (e = None \<longrightarrow> stock (pool n') < stock (pool n)) \<and>
     pool_step (pool n) (pool n') \<and> sockets n' = sockets n \<and> inpcbs n' = inpcbs n \<and> tcpcbs n' = (tcpcbs n)(t := Some tp') \<and>
     out_same tp tp' \<and> 0 \<le> out_off tp'"
proof -
  let ?cl = "cl_dat (pool n)" and ?D = "sb_data (cl_dat (pool n)) (so_snd so)"
  have le: "out_off tp + len \<le> int (length ?D)" "len < M_COPYALL" using assms(5,6,10,13) by (auto simp: M_COPYALL_def)
  obtain r p where r: "out_chain tp so len (pool n) = Some (r, p)" "pool_step (pool n) p"
    "case r of
       None \<Rightarrow> stock p = stock (pool n)
     | Some (m, opt, om, d, len1) \<Rightarrow> stock (pool n) = stock p + length (m # om @ d) \<and> (len1 = len \<or> len1 = 0) \<and>
         chain_data ?cl (m # om @ d) =
           mbytes ?cl m @ opt @ take (nat len1) (drop (nat (out_off tp)) ?D) \<and> length (mbytes ?cl m) = 40"
    using out_chain_spec [OF assms(1,4,7,8) refl assms(10,11) le] by blast
  obtain tm where tm: "t_template tp = Some tm" using assms(7) by blast
  show ?thesis
  proof (cases r)
    case None
    have s: "out_same tp tp" "(tcpcbs n)(t := Some tp) = tcpcbs n" using assms(2) by (auto simp: out_same_def)
    have "tcp_send E t s len fl n = Some (Some ENOBUFS, n\<lparr>pool := p\<rparr>)" using assms(2,3) r(1) None by (simp add: tcp_send_def)
    then show ?thesis using r(2,3) None s assms(10) by (intro exI [of _ "Some ENOBUFS"] exI [of _ "n\<lparr>pool := p\<rparr>"] exI [of _ "[]"] exI [of _ tp]) simp
  next
    case (Some x)
    obtain m opt om d len1 where x: "x = (m, opt, om, d, len1)" by (metis prod_cases5)
    have st: "stock (pool n) = stock p + length (m # om @ d)" and l1: "len1 = len \<or> len1 = 0" and
      ch: "chain_data ?cl (m # om @ d) = mbytes ?cl m @ opt @ take (nat len1) (drop (nat (out_off tp)) ?D)" and
      b40: "length (mbytes ?cl m) = 40" using r(3) Some x by auto
    let ?tp1 = "out_advance E len1 fl (out_drag tp)"
    let ?k = "\<lparr>p_ti = out_header (fst tm) tp so len1 (int (length opt)) fl, p_opt = opt, p_len = 40 + int (length opt) + len1, p_m = m # om @ d\<rparr>"
    define tp' where "tp' = (if e_ipout E (ip_sent n) ?k = None then out_sent (out_win so) ?tp1 else ?tp1)"
    have e: "tcp_send E t s len fl n = Some (e_ipout E (ip_sent n) ?k,
        tp_put t tp' ((n\<lparr>pool := p\<rparr>)\<lparr>ip_sent := ip_sent n @ [?k]\<rparr>))"
      using assms(2,3) r(1) Some x tm
      by (cases "e_ipout E (ip_sent n) ?k") (auto simp: tcp_send_def Let_def ip_output_def tp_put_def tp'_def split: prod.splits)
    have same: "out_same tp tp'" by (simp add: out_same_def tp'_def out_sent_def)
    have w: "-2147483648 \<le> out_off tp + len1 \<and> out_off tp + len1 < 2147483647"
      using assms(5,6,10,11,13) l1 by (auto simp: min_def split: if_splits)
    have "0 \<le> out_off ?tp1"
    proof (cases "t_force tp = 0 \<and> fl \<inter> {TH_SYN, TH_FIN} \<noteq> {}")
      case True
      have "sint (snd_nxt tp + word_of_int (len1 + 1) - snd_una tp) = out_off tp + (len1 + 1)"
        using seq_add [of "snd_nxt tp" "snd_una tp" "len1 + 1"] w unfolding out_off_def by simp
      moreover have "snd_nxt ?tp1 = snd_nxt tp + word_of_int (len1 + 1)" using True by (simp add: out_advance_nxt)
      ultimately have "out_off ?tp1 = out_off tp + (len1 + 1)" by (simp only: out_off_def out_advance_sel out_drag_sel)
      then show ?thesis using assms(10,11) l1 by auto
    next
      case False
      have "sint (snd_nxt tp + word_of_int len1 - snd_una tp) = out_off tp + len1"
        using seq_add [of "snd_nxt tp" "snd_una tp" len1] w unfolding out_off_def by simp
      then show ?thesis using False assms(10,11) l1 by (auto simp: out_off_def out_advance_nxt)
    qed
    then have off: "0 \<le> out_off tp'" by (simp add: out_off_def tp'_def out_sent_def)
    have "seg_ok tp so ?cl ?k"
      using assms(10-13) l1 ch b40 by (auto simp: seg_ok_def out_off_def [symmetric])
    then show ?thesis using e st r(2) same off
      by (intro exI [of _ "e_ipout E (ip_sent n) ?k"] exI [of _ "tp_put t tp' ((n\<lparr>pool := p\<rparr>)\<lparr>ip_sent := ip_sent n @ [?k]\<rparr>)"]
            exI [of _ "[?k]"] exI [of _ tp']) (simp add: tp_put_def)
  qed
qed

lemma tcp_setpersist_spec:
  "t_timer tp TCPT_REXMT = 0 \<Longrightarrow> \<exists>tp'. tcp_setpersist E tp = Some tp' \<and> out_same tp tp' \<and>
     10 \<le> t_timer tp' TCPT_PERSIST \<and> t_timer tp' TCPT_PERSIST \<le> 60"
  using RANGESET_range [of TCPTV_PERSMIN TCPTV_MAX "s32 (c_trunc (tcp_beta E * t_srtt tp)) * 2 ^ nat (t_rxtshift tp)"]
  by (auto simp: tcp_setpersist_def Let_def set_timer_def out_same_def tcptv)

lemma tcp_output_total:
  assumes "pool_ok (pool n)" "tcpcbs n t = Some tp" "tp_socket t n = Some s" "sockets n s = Some so"
    "\<forall>m \<in> set (sb_mb (so_snd so)). mb_ok (cl_dat (pool n)) m" "sb_cc (so_snd so) = int (length (sb_data (cl_dat (pool n)) (so_snd so)))"
    "sb_cc (so_snd so) < 32768" "t_template tp \<noteq> None" "t_tcpopt tp = None" "0 < t_maxseg tp" "0 \<le> out_off tp"
  shows "\<exists>e n' ks. tcp_output E t n = Some (e, n') \<and> ip_sent n' = ip_sent n @ ks \<and>
     (\<forall>k \<in> set ks. seg_ok tp so (cl_dat (pool n)) k) \<and>
     stock (pool n) = stock (pool n') + sum_list (map (\<lambda>k. length (p_m k)) ks) \<and> sockets n' = sockets n"
  using assms
proof (induction "stock (pool n)" arbitrary: n tp rule: less_induct)
  case less
  note a = less.prems
  show ?case
  proof (cases "out_decide tp so")
    case OutNone
    then have "tcp_output E t n = Some (None, n)" using a(2-4) tcp_output.simps [of E t n] by simp
    then show ?thesis by (intro exI [of _ None] exI [of _ n] exI [of _ "[]"]) simp
  next
    case OutPersist
    then have "t_timer (tp\<lparr>t_rxtshift := 0\<rparr>) TCPT_REXMT = 0" by (simp add: out_decide_def Let_def split: if_splits)
    then obtain tp' where "tcp_setpersist E (tp\<lparr>t_rxtshift := 0\<rparr>) = Some tp'" using tcp_setpersist_spec by blast
    then have "tcp_output E t n = Some (None, tp_put t tp' n)" using a(2-4) OutPersist tcp_output.simps [of E t n] by simp
    then show ?thesis by (intro exI [of _ None] exI [of _ "tp_put t tp' n"] exI [of _ "[]"]) simp
  next
    case (OutSend len fl sl)
    note d = out_decide_send [OF OutSend a(10)]
    obtain e n1 ks tp1 where s: "tcp_send E t s len fl n = Some (e, n1)" "ip_sent n1 = ip_sent n @ ks"
        "\<forall>k \<in> set ks. seg_ok tp so (cl_dat (pool n)) k"
        "stock (pool n) = stock (pool n1) + sum_list (map (\<lambda>k. length (p_m k)) ks)" "e = None \<longrightarrow> stock (pool n1) < stock (pool n)"
        "pool_step (pool n) (pool n1)" "sockets n1 = sockets n" "inpcbs n1 = inpcbs n" "tcpcbs n1 = (tcpcbs n)(t := Some tp1)"
        "out_same tp tp1" "0 \<le> out_off tp1"
      using tcp_send_spec [OF a(1,2,4-7) a(8-11) d(1-3), of E fl] by blast
    have o: "tcp_output E t n = (if e = None \<and> sl \<and> t_force tp = 0 then tcp_output E t n1 else Some (e, n1))"
      using a(2-4) OutSend s(1) tcp_output.simps [of E t n] by simp
    show ?thesis
    proof (cases "e = None \<and> sl \<and> t_force tp = 0")
      case False
      then show ?thesis using o s by (intro exI [of _ e] exI [of _ n1] exI [of _ ks]) auto
    next
      case True
      have p1: "pool_ok (pool n1)" "cl_dat (pool n1) = cl_dat (pool n)" using s(6) by (simp_all add: pool_step_def)
      have t1: "tcpcbs n1 t = Some tp1" "tp_socket t n1 = Some s" "sockets n1 s = Some so"
        using a(2-4) s(7-10) by (auto simp: tp_socket_def out_same_def)
      have r: "t_template tp1 \<noteq> None" "t_tcpopt tp1 = None" "0 < t_maxseg tp1" using a(8-10) s(10) by (auto simp: out_same_def)
      obtain e' n' ks' where "tcp_output E t n1 = Some (e', n')" "ip_sent n' = ip_sent n1 @ ks'"
          "\<forall>k \<in> set ks'. seg_ok tp1 so (cl_dat (pool n)) k"
          "stock (pool n1) = stock (pool n') + sum_list (map (\<lambda>k. length (p_m k)) ks')" "sockets n' = sockets n1"
        using less.hyps [of n1 tp1] True s(5) p1 t1 r s(11) a(5-7) by fastforce
      then show ?thesis using o True s seg_ok_same [OF s(10)]
        by (intro exI [of _ e'] exI [of _ n'] exI [of _ "ks @ ks'"]) auto
    qed
  qed
qed


text \<open>What sending a segment and starting to persist keep, \<open>tcp_output\<close> keeps.\<close>

lemma tcp_output_induct:
  fixes n n' :: "'a tcpnet_scheme"
  assumes "tcp_output E t n = Some (e, n')" "P n"
    "\<And>m tp tp'. P m \<Longrightarrow> tcpcbs m t = Some tp \<Longrightarrow> tcp_setpersist E (tp\<lparr>t_rxtshift := 0\<rparr>) = Some tp' \<Longrightarrow> P (tp_put t tp' m)"
    "\<And>m s len fl e1 m1. P m \<Longrightarrow> tcp_send E t s len fl m = Some (e1, m1) \<Longrightarrow> P m1"
  shows "P n'"
proof -
  let ?Q = "\<lambda>E' t' n r. E' = E \<longrightarrow> t' = t \<longrightarrow> P n \<longrightarrow> P (snd r)"
  have "?Q E t n (e, n')"
  proof (rule tcp_output.raw_induct [where P = ?Q, OF _ assms(1)], intro impI)
    fix out E' t' and n :: "'a tcpnet_scheme" and r
    assume IH: "\<And>E' t' n r. out E' t' n = Some r \<Longrightarrow> ?Q E' t' n r" and eq: "E' = E" "t' = t" and P: "P n" and
      r: "Option.bind (tcpcbs n t') (\<lambda>tp.
     Option.bind (tp_socket t' n) (\<lambda>s.
     Option.bind (sockets n s) (\<lambda>so.
     case out_decide tp so of
       OutNone \<Rightarrow> Some (None, n)
     | OutPersist \<Rightarrow> map_option (\<lambda>tp'. (None, tp_put t' tp' n)) (tcp_setpersist E' (tp\<lparr>t_rxtshift := 0\<rparr>))
     | OutSend len flags sendalot \<Rightarrow>
         Option.bind (tcp_send E' t' s len flags n) (\<lambda>(e, n1).
         if e = None \<and> sendalot \<and> t_force tp = 0 then out E' t' n1 else Some (e, n1))))) = Some r"
    then obtain tp s so where so: "tcpcbs n t = Some tp" "tp_socket t n = Some s" "sockets n s = Some so"
      by (auto simp: bind_eq_Some_conv)
    show "P (snd r)"
    proof (cases "out_decide tp so")
      case OutNone
      then show ?thesis using r eq so P by auto
    next
      case OutPersist
      then show ?thesis using r eq so assms(3) [OF P so(1)] by auto
    next
      case (OutSend len fl sl)
      then obtain e1 n1 where s: "tcp_send E t s len fl n = Some (e1, n1)"
          "(if e1 = None \<and> sl \<and> t_force tp = 0 then out E t n1 else Some (e1, n1)) = Some r"
        using r eq so by (auto simp: bind_eq_Some_conv)
      have P1: "P n1" by (rule assms(4) [OF P s(1)])
      then show ?thesis using s(2) IH [of E t n1 r] by (auto split: if_splits)
    qed
  qed
  then show ?thesis using assms(2) by simp
qed

text \<open>Round trips are never measured: \<open>tcp_output\<close> compares \<open>snd_nxt\<close> with \<open>snd_max\<close> after raising
  \<open>snd_max\<close> to it, so the test that would start timing a segment is always false.\<close>

lemma tcp_output_never_times:
  fixes n n' :: "'a tcpnet_scheme"
  assumes "tcp_output E t n = Some (e, n')" "tcpcbs n t = Some tp"
  shows "\<exists>tp'. tcpcbs n' t = Some tp' \<and> (t_rtt tp' = t_rtt tp \<or> t_rtt tp' = 0) \<and> t_rtseq tp' = t_rtseq tp"
proof (rule tcp_output_induct [OF assms(1)])
  let ?P = "\<lambda>m :: 'a tcpnet_scheme. \<exists>tp'. tcpcbs m t = Some tp' \<and> (t_rtt tp' = t_rtt tp \<or> t_rtt tp' = 0) \<and> t_rtseq tp' = t_rtseq tp"
  show "?P n" using assms(2) by simp
  fix m tp1 tp2 assume "?P m" "tcpcbs m t = Some tp1" "tcp_setpersist E (tp1\<lparr>t_rxtshift := 0\<rparr>) = Some tp2"
  then show "?P (tp_put t tp2 m)" by (auto simp: tcp_setpersist_def Let_def set_timer_def split: if_splits)
next
  let ?P = "\<lambda>m :: 'a tcpnet_scheme. \<exists>tp'. tcpcbs m t = Some tp' \<and> (t_rtt tp' = t_rtt tp \<or> t_rtt tp' = 0) \<and> t_rtseq tp' = t_rtseq tp"
  have adv: "(t_rtt (out_advance E len fl (out_drag x)) = t_rtt x \<or> t_rtt (out_advance E len fl (out_drag x)) = 0) \<and>
      t_rtseq (out_advance E len fl (out_drag x)) = t_rtseq x" for len fl x
    by (auto simp: out_advance_def Let_def set_timer_def)
  have snd: "\<exists>tp'. tcpcbs m1 t = Some tp' \<and> (t_rtt tp' = t_rtt x \<or> t_rtt tp' = 0) \<and> t_rtseq tp' = t_rtseq x"
    if "tcp_send E t s len fl m = Some (e1, m1)" "tcpcbs m t = Some x" for s len fl e1 x and m m1 :: "'a tcpnet_scheme"
    using that adv
    by (fastforce simp: tcp_send_def Let_def ip_output_def out_sent_def bind_eq_Some_conv split: option.splits prod.splits)
  fix m s len fl e1 m1 assume m: "?P m" and s: "tcp_send E t s len fl m = Some (e1, m1)"
  from m obtain x where x: "tcpcbs m t = Some x" "t_rtt x = t_rtt tp \<or> t_rtt x = 0" "t_rtseq x = t_rtseq tp" by blast
  from snd [OF s x(1)] x(2,3) show "?P m1" by auto
qed

text \<open>where a FIN goes.  In the states that send one, \<open>tcp_output\<close> sets FIN on the segment that ends the
  send buffer, as it should; but it compares sequence numbers as unsigned numbers, so when the data runs
  over the wrap around of the sequence space, every segment that ends before the wrap carries a FIN too.\<close>

theorem tcp_output_fin_position:
  assumes "TH_FIN \<in> tcp_outflags (t_state tp)" "0 \<le> out_off tp" "0 \<le> len" "out_off tp + len \<le> sb_cc (so_snd so)"
    "sb_cc (so_snd so) < 32768"
  shows "TH_FIN \<in> out_flags tp so len \<longleftrightarrow>
    out_off tp + len = sb_cc (so_snd so) \<or>
    uint (snd_una tp) + out_off tp + len < 2 ^ 32 \<and> 2 ^ 32 \<le> uint (snd_una tp) + sb_cc (so_snd so)"
proof -
  let ?u = "uint (snd_una tp)" and ?c = "sb_cc (so_snd so)" and ?e = "out_off tp + len"
  have u: "0 \<le> ?u" "?u < 2 ^ 32" using uint_bounded [of "snd_una tp"] by auto
  have m: "x mod 2 ^ 32 = (if x < 2 ^ 32 then x else x - 2 ^ 32)" if "0 \<le> x" "x < 2 * 2 ^ 32" for x :: int
    using that mod_pos_pos_trivial [of "x - 2 ^ 32" "2 ^ 32"] by (auto simp: mod_pos_pos_trivial mod_diff_right_eq [symmetric])
  have n: "snd_nxt tp + word_of_int len = (word_of_int (?u + ?e) :: 32 word)"
    by (simp add: out_off_def of_int_sint algebra_simps)
  have w: "snd_una tp + word_of_int ?c = (word_of_int (?u + ?c) :: 32 word)" by simp
  have uw: "uint (word_of_int x :: 32 word) = x mod 2 ^ 32" for x by (simp add: unsigned_of_int take_bit_eq_mod)
  have "uint (snd_nxt tp + word_of_int len) = (?u + ?e) mod 2 ^ 32" "uint (snd_una tp + word_of_int ?c) = (?u + ?c) mod 2 ^ 32"
    unfolding n w by (simp_all only: uw)
  then have "snd_nxt tp + word_of_int len < snd_una tp + word_of_int ?c \<longleftrightarrow> (?u + ?e) mod 2 ^ 32 < (?u + ?c) mod 2 ^ 32"
    by (simp only: word_less_def)
  moreover have "(?u + ?e) mod 2 ^ 32 = (if ?u + ?e < 2 ^ 32 then ?u + ?e else ?u + ?e - 2 ^ 32)"
    "(?u + ?c) mod 2 ^ 32 = (if ?u + ?c < 2 ^ 32 then ?u + ?c else ?u + ?c - 2 ^ 32)"
    using assms(2-5) u by (intro m; simp)+
  ultimately show ?thesis using assms u by (auto simp: out_flags_def)
qed

text \<open>A negative largest segment makes every attempt to send fall into the panic of \<open>m_copy\<close>.\<close>

lemma tcp_output_negative_mss:
  assumes "tcpcbs n t = Some tp" "tp_socket t n = Some s" "sockets n s = Some so" "t_maxseg tp < 0" "0 \<le> out_len tp so"
    "pool_ok (pool n)" "mfree (pool n) \<noteq> []"
  shows "tcp_output E t n = None"
proof -
  have "\<exists>fl. out_decide tp so = OutSend (t_maxseg tp) fl True" using assms(4,5) by (auto simp: out_decide_def Let_def)
  then obtain fl where d: "out_decide tp so = OutSend (t_maxseg tp) fl True" by blast
  obtain m p where "m_get 1 (pool n) = Some (Some m, p)" using mget_free_step [OF assms(6,7), of 1] assms(7) by (auto simp: m_get_def)
  then have "out_chain tp so (t_maxseg tp) (pool n) = None" using assms(4) by (simp add: out_chain_def m_copy_def)
  then have "tcp_send E t s (t_maxseg tp) fl n = None" using assms(1,3) by (simp add: tcp_send_def)
  then show ?thesis using d assms(1-3) tcp_output.simps [of E t n] by simp
qed

section \<open>A connection to try them on\<close>

definition tcp_demo_cb :: tcpcb where
  "tcp_demo_cb = (tcpcb_clear (mdata []))\<lparr>t_state := TCPS_ESTABLISHED, t_maxseg := 512, t_inpcb := 11, snd_una := 100, snd_nxt := 100,
     snd_max := 100, snd_up := 100, snd_wnd := 3, rcv_nxt := 900, rcv_adv := 1400, t_template := Some
       (\<lparr>ti_len = 20, ti_src = 0x0a000001, ti_dst = 0x0a000002, ti_sport = 25, ti_dport = 2000, ti_seq = 0, ti_ack = 0, ti_off = 5,
         ti_flags = {}, ti_win = 0, ti_urp = 0, ti_hdr = Moff 84, ti_m = []\<rparr>, mdata [])\<rparr>"

definition tcp_demo_so :: "byte list \<Rightarrow> socket" where
  "tcp_demo_so bs = (so_demo 0 0 0 0 0 {SS_ISCONNECTED})\<lparr>so_pcb := 11, so_options := {},
     so_snd := sb_clear\<lparr>sb_mb := [mdata bs], sb_cc := int (length bs), sb_mbcnt := 128, sb_hiwat := 2048, sb_mbmax := 4096\<rparr>,
     so_rcv := sb_clear\<lparr>sb_hiwat := 2048, sb_mbmax := 4096\<rparr>\<rparr>"

definition tcp_demo :: "tcpcb \<Rightarrow> socket \<Rightarrow> tcpnet" where
  "tcp_demo tp so = \<lparr>pool = pool_demo, sockets = [4 \<mapsto> so], nextaddr = 40, wakeups = [],
     inpcbs = [11 \<mapsto> (inp_clear (mdata []))\<lparr>inp_socket := 4, inp_lport := 25, inp_laddr := 0x0a000001, inp_faddr := 0x0a000002,
        inp_fport := 2000, inp_ppcb := 30\<rparr>],
     heads = (\<lambda>_. \<lparr>h_pcbs = [11], h_lport = 1024\<rparr>), ifs = ifs inet_demo, u_uid = 0, rtfreed = [],
     tcpcbs = [30 \<mapsto> tp], tcp_iss = 1, tcpexprexmtbackoff = False, tcpnodelack = False, ip_sent = [], sigurg = []\<rparr>"

definition env_demo :: tcpenv where
  "env_demo = \<lparr>e_rnd = (\<lambda>x. x), tcp_alpha = 9 / 10, tcp_beta = 2, e_ipout = (\<lambda>_ _. None)\<rparr>"

lemma tcp_demo_cb_sel [simp]:
  "t_inpcb tcp_demo_cb = 11" "t_maxseg tcp_demo_cb = 512" "t_template tcp_demo_cb \<noteq> None" "t_tcpopt tcp_demo_cb = None"
  "out_off tcp_demo_cb = 0" "t_rtt tcp_demo_cb = 0" "t_rtseq tcp_demo_cb = 0"
  by (simp_all add: tcp_demo_cb_def tcpcb_clear_def out_off_def)

lemma tcp_demo_so_ok: "length bs \<le> 112 \<Longrightarrow> \<forall>m \<in> set (sb_mb (so_snd (tcp_demo_so bs))). mb_ok (cl_dat pool_demo) m"
  "sb_cc (so_snd (tcp_demo_so bs)) = int (length (sb_data cl (so_snd (tcp_demo_so bs))))"
  "sb_cc (so_snd (tcp_demo_so bs)) = int (length bs)"
  by (simp_all add: tcp_demo_so_def mdata_ok sb_data_def mdata_bytes)

lemma tcp_demo_sel [simp]:
  "pool (tcp_demo tp so) = pool_demo" "tcpcbs (tcp_demo tp so) = [30 \<mapsto> tp]" "sockets (tcp_demo tp so) = [4 \<mapsto> so]"
  "t_inpcb tp = 11 \<Longrightarrow> tp_socket 30 (tcp_demo tp so) = Some 4" "ip_sent (tcp_demo tp so) = []"
  by (simp_all add: tcp_demo_def tp_socket_def)


theorem tcp_output_fin_position_witness:
  "TH_FIN \<in> out_flags (tcp_demo_cb\<lparr>t_state := TCPS_FIN_WAIT_1, snd_una := - 2, snd_nxt := - 2\<rparr>) (tcp_demo_so [1, 2, 3, 4, 5]) 1"
  using tcp_output_fin_position [of "tcp_demo_cb\<lparr>t_state := TCPS_FIN_WAIT_1, snd_una := - 2, snd_nxt := - 2\<rparr>" 1
      "tcp_demo_so [1, 2, 3, 4, 5]"]
  by (simp add: out_off_def tcp_demo_so_def uint_word_ariths)

end
