(* ===== verification/Tcp_Usrreq.thy ===== *)
theory Tcp_Usrreq
  imports Tcp_Output
begin

text \<open>
  Opening, closing and timing TCP connections: tcp_subr.c, tcp_usrreq.c and tcp_timer.c.  A routine that
  returns the control block, or 0 after freeing it, says here whether the block is still there.  The
  requests that answer through a mbuf return the answer.
\<close>

section \<open>Creating and closing control blocks\<close>

definition inp_mod :: "nat \<Rightarrow> (inpcb \<Rightarrow> inpcb) \<Rightarrow> 'a inet_scheme \<Rightarrow> 'a inet_scheme option" where
  "inp_mod i f n = map_option (\<lambda>p. inp_put i (f p) n) (inpcbs n i)"

definition tcp_newtcpcb :: "nat \<Rightarrow> 'a tcpnet_scheme \<Rightarrow> (nat option \<times> 'a tcpnet_scheme) option" where
  "tcp_newtcpcb i n =
     Option.bind (m_getclr 3 (pool n)) (\<lambda>(mo, p).
     case mo of
       None \<Rightarrow> Some (None, n\<lparr>pool := p\<rparr>)
     | Some m \<Rightarrow>
         let t = nextaddr n
         in map_option (\<lambda>n'. (Some t, n'))
              (inp_mod i (\<lambda>x. x\<lparr>inp_ppcb := t\<rparr>)
                (tp_put t ((tcpcb_clear m)\<lparr>t_maxseg := 512, t_inpcb := i\<rparr>) (n\<lparr>pool := p, nextaddr := t + 1\<rparr>))))"

fun free_segs :: "tcpiphdr list \<Rightarrow> mpool \<Rightarrow> mpool option" where
  "free_segs [] p = Some p"
| "free_segs (ti # tis) p = Option.bind (m_freem (ti_m ti) p) (free_segs tis)"

definition free_opt :: "mbuf option \<Rightarrow> mpool \<Rightarrow> mpool option" where
  "free_opt mo p = (case mo of None \<Rightarrow> Some p | Some m \<Rightarrow> MFREE m p)"

definition tcp_close :: "nat \<Rightarrow> 'a tcpnet_scheme \<Rightarrow> 'a tcpnet_scheme option" where
  "tcp_close t n =
     Option.bind (tcpcbs n t) (\<lambda>tp.
     Option.bind (inpcbs n (t_inpcb tp)) (\<lambda>inp.
     Option.bind (free_segs (seg_q tp) (pool n)) (\<lambda>p1.
     Option.bind (free_opt (map_option snd (t_template tp)) p1) (\<lambda>p2.
     Option.bind (free_opt (t_tcpopt tp) p2) (\<lambda>p3.
     Option.bind (free_opt (t_ipopt tp) p3) (\<lambda>p4.
     Option.bind (MFREE (t_mbuf tp) p4) (\<lambda>p5.
     Option.bind (inp_mod (t_inpcb tp) (\<lambda>x. x\<lparr>inp_ppcb := 0\<rparr>) (n\<lparr>pool := p5, tcpcbs := (tcpcbs n)(t := None)\<rparr>)) (\<lambda>n1.
     Option.bind (soisdisconnected (inp_socket inp) n1) (\<lambda>n2.
     in_pcbdetach (t_inpcb tp) n2)))))))))"

definition tcp_drop :: "tcpenv \<Rightarrow> nat \<Rightarrow> soerr option \<Rightarrow> 'a tcpnet_scheme \<Rightarrow> 'a tcpnet_scheme option" where
  "tcp_drop E t err n =
     Option.bind (tcpcbs n t) (\<lambda>tp.
     Option.bind (tp_socket t n) (\<lambda>s.
     Option.bind
       (if TCPS_HAVERCVDSYN (t_state tp)
        then map_option snd (tcp_output E t (tp_put t (tp\<lparr>t_state := TCPS_CLOSED\<rparr>) n)) else Some n) (\<lambda>n1.
     Option.bind (so_mod s (\<lambda>so. so\<lparr>so_error := err\<rparr>) n1) (tcp_close t))))"

definition tcp_abort :: "nat \<Rightarrow> 'a tcpnet_scheme \<Rightarrow> 'a tcpnet_scheme option" where
  "tcp_abort i n = Option.bind (inpcbs n i) (\<lambda>inp. tcp_close (inp_ppcb inp) n)"

text \<open>
  \<open>inetctlerrmap\<close> of ip_input.c, \<open>None\<close> for 0.  The table has 18 entries; \<open>None\<close> of \<open>tcp_ctlinput\<close> stands
  for reading behind it.
\<close>

definition inetctlerrmap :: "soerr option list" where
  "inetctlerrmap = [Some ECONNABORTED, Some ECONNABORTED, None, None, None, None, Some EHOSTDOWN, Some EHOSTUNREACH,
     Some ENETUNREACH, Some EHOSTUNREACH, Some ECONNREFUSED, Some ECONNREFUSED, Some EMSGSIZE, None, None, None, None, None]"

definition tcp_ctlinput :: "int \<Rightarrow> in_addr \<Rightarrow> 'a tcpnet_scheme \<Rightarrow> 'a tcpnet_scheme option" where
  "tcp_ctlinput cmd ip_dst n =
     (if cmd < 0 \<or> cmd > 20 then Some n
      else if cmd \<in> {1, 4, 0, 6, 7} then Some n
      else if nat cmd < length inetctlerrmap then in_pcbnotify tcp_abort Tcb ip_dst (inetctlerrmap ! nat cmd) n
      else None)"

section \<open>User requests\<close>

definition tcp_attach :: "nat \<Rightarrow> 'a tcpnet_scheme \<Rightarrow> (soerr option \<times> 'a tcpnet_scheme) option" where
  "tcp_attach so n =
     Option.bind (soreserve so 2048 2048 n) (\<lambda>(e, n1).
     if e \<noteq> None then Some (e, n1)
     else Option.bind (in_pcballoc so Tcb n1) (\<lambda>(e, n2).
       if e \<noteq> None then Some (e, n2)
       else Option.bind (sockets n2 so) (\<lambda>s.
         Option.bind (tcp_newtcpcb (so_pcb s) n2) (\<lambda>(t, n3).
         case t of
           None \<Rightarrow> map_option (\<lambda>n4. (Some ENOBUFS, n4)) (in_pcbdetach (so_pcb s) n3)
         | Some t \<Rightarrow> map_option (\<lambda>n4. (None, n4)) (tp_mod t (\<lambda>tp. tp\<lparr>t_state := TCPS_CLOSED\<rparr>) n3)))))"

definition tcp_usrclosed :: "nat \<Rightarrow> 'a tcpnet_scheme \<Rightarrow> (bool \<times> 'a tcpnet_scheme) option" where
  "tcp_usrclosed t n =
     Option.bind (tcpcbs n t) (\<lambda>tp.
     Option.bind
       (case t_state tp of
          TCPS_LISTEN \<Rightarrow> map_option (\<lambda>n'. (False, n')) (tcp_close t (tp_put t (tp\<lparr>t_state := TCPS_CLOSED\<rparr>) n))
        | TCPS_SYN_SENT \<Rightarrow> map_option (\<lambda>n'. (False, n')) (tcp_close t (tp_put t (tp\<lparr>t_state := TCPS_CLOSED\<rparr>) n))
        | TCPS_SYN_RECEIVED \<Rightarrow> Some (True, tp_put t (tp\<lparr>t_state := TCPS_FIN_WAIT_1\<rparr>) n)
        | TCPS_ESTABLISHED \<Rightarrow> Some (True, tp_put t (tp\<lparr>t_state := TCPS_FIN_WAIT_1\<rparr>) n)
        | TCPS_CLOSE_WAIT \<Rightarrow> Some (True, tp_put t (tp\<lparr>t_state := TCPS_LAST_ACK\<rparr>) n)
        | _ \<Rightarrow> Some (True, n)) (\<lambda>(alive, n1).
     if \<not> alive then Some (False, n1)
     else Option.bind (tcpcbs n1 t) (\<lambda>tp1.
       if t_state tp1 \<ge> TCPS_FIN_WAIT_2
       then Option.bind (tp_socket t n1) (\<lambda>s. map_option (\<lambda>n2. (True, n2)) (soisdisconnected s n1))
       else Some (True, n1))))"

text \<open>\<open>sbflush(&so->so_rcv)\<close>\<close>

definition so_flush_rcv :: "nat \<Rightarrow> 'a net_scheme \<Rightarrow> 'a net_scheme option" where
  "so_flush_rcv s n =
     Option.bind (sockets n s) (\<lambda>so.
     map_option (\<lambda>(sb, p). so_put s (so\<lparr>so_rcv := sb\<rparr>) (n\<lparr>pool := p\<rparr>)) (sbflush (so_rcv so) (pool n)))"

definition tcp_disconnect :: "tcpenv \<Rightarrow> nat \<Rightarrow> 'a tcpnet_scheme \<Rightarrow> (bool \<times> 'a tcpnet_scheme) option" where
  "tcp_disconnect E t n =
     Option.bind (tcpcbs n t) (\<lambda>tp.
     Option.bind (tp_socket t n) (\<lambda>s.
     Option.bind (sockets n s) (\<lambda>so.
     if t_state tp < TCPS_ESTABLISHED then map_option (\<lambda>n'. (False, n')) (tcp_close t n)
     else if so_linger so = 0 then map_option (\<lambda>n'. (False, n')) (tcp_drop E t None n)
     else
       Option.bind (soisdisconnecting s n) (\<lambda>n1.
       Option.bind (so_flush_rcv s n1) (\<lambda>n2.
       Option.bind (tcp_usrclosed t n2) (\<lambda>(alive, n3).
       if alive then map_option (\<lambda>(_, n4). (True, n4)) (tcp_output E t n3) else Some (False, n3)))))))"

section \<open>Timers\<close>

definition tcp_backoff :: "tcpenv \<Rightarrow> rat list" where
  "tcp_backoff E = map (e_rnd E) [1, 12 / 10, 14 / 10, 17 / 10, 2, 3, 5, 8, 16, 32]"

text \<open>The retransmission timer after \<open>sh\<close> retransmissions.\<close>

definition rexmt_value :: "tcpenv \<Rightarrow> bool \<Rightarrow> rat \<Rightarrow> int \<Rightarrow> int option" where
  "rexmt_value E expbackoff srtt sh =
     (let v = TCPT_RANGESET (s32 (c_trunc srtt)) TCPTV_MIN TCPTV_MAX
      in if expbackoff then Some (TCPT_RANGESET (v * 2 ^ nat sh) TCPTV_MIN TCPTV_MAX)
         else if 0 \<le> sh - 1 \<and> nat (sh - 1) < length (tcp_backoff E)
         then Some (TCPT_RANGESET (c_trunc (of_int v * tcp_backoff E ! nat (sh - 1))) TCPTV_MIN TCPTV_MAX)
         else None)"

definition tcp_timers :: "tcpenv \<Rightarrow> nat \<Rightarrow> tcpt \<Rightarrow> 'a tcpnet_scheme \<Rightarrow> (bool \<times> 'a tcpnet_scheme) option" where
  "tcp_timers E t timer n =
     Option.bind (tcpcbs n t) (\<lambda>tp.
     case timer of
       TCPT_2MSL \<Rightarrow> map_option (\<lambda>n'. (False, n')) (tcp_close t n)
     | TCPT_REXMT \<Rightarrow>
         let sh = s16 (t_rxtshift tp + 1)
         in if sh > TCP_MAXRXTSHIFT
            then map_option (\<lambda>n'. (False, n')) (tcp_drop E t (Some ETIMEDOUT) (tp_put t (tp\<lparr>t_rxtshift := sh\<rparr>) n))
            else Option.bind (rexmt_value E (tcpexprexmtbackoff n) (t_srtt tp) sh) (\<lambda>v.
              map_option (\<lambda>(_, n'). (True, n'))
                (tcp_output E t (tp_put t (set_timer TCPT_REXMT v (tp\<lparr>t_rxtshift := sh, snd_nxt := snd_una tp\<rparr>)) n)))
     | TCPT_PERSIST \<Rightarrow>
         Option.bind (tcp_setpersist E tp) (\<lambda>tp1.
         Option.bind (tcp_output E t (tp_put t (tp1\<lparr>t_force := 1\<rparr>) n)) (\<lambda>(_, n1).
         map_option (\<lambda>n2. (True, n2)) (tp_mod t (\<lambda>x. x\<lparr>t_force := 0\<rparr>) n1)))
     | TCPT_KEEP \<Rightarrow>
         let dropit = map_option (\<lambda>n'. (False, n')) (tcp_drop E t (Some ETIMEDOUT) n)
         in if t_state tp < TCPS_ESTABLISHED then dropit
            else Option.bind (tp_socket t n) (\<lambda>s. Option.bind (sockets n s) (\<lambda>so.
              Option.bind
                (if SO_KEEPALIVE \<in> so_options so then
                   (if t_idle tp \<ge> TCPTV_MAXIDLE then dropit
                    else Option.bind (t_template tp) (\<lambda>(tmpl, _).
                      map_option (\<lambda>n'. (True, n')) (tcp_respond E (Some t) tmpl (rcv_nxt tp - 1) (snd_una tp - 1) {} n)))
                 else Some (True, tp_put t (tp\<lparr>t_idle := 0\<rparr>) n)) (\<lambda>(alive, n1).
              if alive then map_option (\<lambda>n2. (True, n2)) (tp_mod t (set_timer TCPT_KEEP TCPTV_KEEP) n1)
              else Some (False, n1)))))"

section \<open>The request switch\<close>

datatype usrout = NoOut | OutNam sockaddr_in | OutByte byte

text \<open>A request on an attached socket \<open>s\<close>, with its block \<open>i\<close> and control block \<open>t\<close>.\<close>

definition usr_bind_any :: "nat \<Rightarrow> inpcb \<Rightarrow> 'a tcpnet_scheme \<Rightarrow> (soerr option \<times> 'a tcpnet_scheme) option" where
  "usr_bind_any i inp n = (if inp_lport inp = 0 then in_pcbbind i None n else Some (None, n))"

definition usr_connect :: "tcpenv \<Rightarrow> sockaddr_in option \<Rightarrow> nat \<Rightarrow> nat \<Rightarrow> nat \<Rightarrow> 'a tcpnet_scheme \<Rightarrow> (soerr option \<times> 'a tcpnet_scheme) option" where
  "usr_connect E nam s i t n =
     Option.bind (inpcbs n i) (\<lambda>inp.
     Option.bind (usr_bind_any i inp n) (\<lambda>(e, n1).
     if e \<noteq> None then Some (e, n1)
     else Option.bind nam (\<lambda>sin. Option.bind (in_pcbconnect i sin n1) (\<lambda>(e, n2).
       if e \<noteq> None then Some (e, n2)
       else Option.bind (tcp_template t n2) (\<lambda>(tmpl, n3).
         case tmpl of
           None \<Rightarrow> map_option (\<lambda>n4. (Some ENOBUFS, n4)) (in_pcbdisconnect i n3)
         | Some tm \<Rightarrow>
             Option.bind (soisconnecting s n3) (\<lambda>n4.
             Option.bind (tp_mod t (\<lambda>tp. tcp_sendseqinit
                (set_timer TCPT_KEEP TCPTV_KEEP (tp\<lparr>t_template := Some tm, t_state := TCPS_SYN_SENT, iss := tcp_iss n4\<rparr>))) n4) (\<lambda>n5.
             tcp_output E t (n5\<lparr>tcp_iss := tcp_iss n5 + 64\<rparr>))))))))"

text \<open>PRU_SEND and PRU_SENDOOB: the data goes to the send buffer.\<close>

definition so_append_snd :: "nat \<Rightarrow> mbuf list \<Rightarrow> 'a net_scheme \<Rightarrow> 'a net_scheme option" where
  "so_append_snd s m n =
     Option.bind (sockets n s) (\<lambda>so.
     map_option (\<lambda>(sb, p). so_put s (so\<lparr>so_snd := sb\<rparr>) (n\<lparr>pool := p\<rparr>)) (sbappend (so_snd so) m (pool n)))"

definition usr_sendoob :: "tcpenv \<Rightarrow> mbuf list \<Rightarrow> nat \<Rightarrow> nat \<Rightarrow> 'a tcpnet_scheme \<Rightarrow> (soerr option \<times> 'a tcpnet_scheme) option" where
  "usr_sendoob E m s t n =
     Option.bind (sockets n s) (\<lambda>so.
     if sbspace (so_snd so) < -512 then map_option (\<lambda>p. (Some ENOBUFS, n\<lparr>pool := p\<rparr>)) (m_freem m (pool n))
     else
       Option.bind (tp_mod t (\<lambda>tp. tp\<lparr>snd_up := snd_una tp + word_of_int (sb_cc (so_snd so)) + 1\<rparr>) n) (\<lambda>n1.
       Option.bind (so_append_snd s m n1) (\<lambda>n2.
       Option.bind (tp_mod t (\<lambda>tp. tp\<lparr>t_force := 1\<rparr>) n2) (\<lambda>n3.
       Option.bind (tcp_output E t n3) (\<lambda>(e, n4).
       map_option (\<lambda>n5. (e, n5)) (tp_mod t (\<lambda>tp. tp\<lparr>t_force := 0\<rparr>) n4))))))"

definition usr_switch :: "tcpenv \<Rightarrow> mbuf list \<Rightarrow> sockaddr_in option \<Rightarrow> tcpt option \<Rightarrow> nat \<Rightarrow> nat \<Rightarrow> nat \<Rightarrow> prureq \<Rightarrow>
    'a tcpnet_scheme \<Rightarrow> (soerr option \<times> usrout \<times> 'a tcpnet_scheme) option" where
  "usr_switch E m nam timer s i t req n =
     (let plain = map_option (\<lambda>(e, n'). (e, NoOut, n')); done = map_option (\<lambda>n'. (None, NoOut, n'))
      in case req of
        PRU_ATTACH \<Rightarrow> Some (Some EISCONN, NoOut, n)
      | PRU_DETACH \<Rightarrow> Option.bind (tcpcbs n t) (\<lambda>tp.
          if t_state tp > TCPS_LISTEN then done (map_option snd (tcp_disconnect E t n)) else done (tcp_close t n))
      | PRU_BIND \<Rightarrow> plain (in_pcbbind i nam n)
      | PRU_LISTEN \<Rightarrow> Option.bind (inpcbs n i) (\<lambda>inp. Option.bind (usr_bind_any i inp n) (\<lambda>(e, n1).
          if e \<noteq> None then Some (e, NoOut, n1) else done (tp_mod t (\<lambda>tp. tp\<lparr>t_state := TCPS_LISTEN\<rparr>) n1)))
      | PRU_CONNECT \<Rightarrow> plain (usr_connect E nam s i t n)
      | PRU_DISCONNECT \<Rightarrow> done (map_option snd (tcp_disconnect E t n))
      | PRU_ACCEPT \<Rightarrow> map_option (\<lambda>inp. (None,
          OutNam \<lparr>nam_len = 16, sin_family = AF_INET, sin_port = inp_fport inp, sin_addr = inp_faddr inp\<rparr>, n)) (inpcbs n i)
      | PRU_SHUTDOWN \<Rightarrow> Option.bind (socantsendmore s n) (\<lambda>n1. Option.bind (tcp_usrclosed t n1) (\<lambda>(alive, n2).
          if alive then plain (tcp_output E t n2) else Some (None, NoOut, n2)))
      | PRU_RCVD \<Rightarrow> done (map_option snd (tcp_output E t n))
      | PRU_SEND \<Rightarrow> plain (Option.bind (so_append_snd s m n) (tcp_output E t))
      | PRU_ABORT \<Rightarrow> done (tcp_drop E t (Some ECONNABORTED) n)
      | PRU_CONTROL \<Rightarrow> Some (Some EOPNOTSUPP, NoOut, n)
      | PRU_SENSE \<Rightarrow> Some (Some EOPNOTSUPP, NoOut, n)
      | PRU_RCVOOB \<Rightarrow> Option.bind (sockets n s) (\<lambda>so. Option.bind (tcpcbs n t) (\<lambda>tp.
          if so_oobmark so = 0 \<and> SS_RCVATMARK \<notin> so_state so then Some (Some EINVAL_net, NoOut, n)
          else if \<not> t_oob tp then Some (Some EWOULDBLOCK, NoOut, n)
          else Some (None, OutByte (t_iobc tp), n)))
      | PRU_SENDOOB \<Rightarrow> plain (usr_sendoob E m s t n)
      | PRU_SOCKADDR \<Rightarrow> map_option (\<lambda>a. (None, OutNam a, n)) (in_setsockaddr i n)
      | PRU_SLOWTIMO \<Rightarrow> Option.bind timer (\<lambda>x. done (map_option snd (tcp_timers E t x n))))"

definition tcp_usrreq :: "tcpenv \<Rightarrow> mbuf list \<Rightarrow> sockaddr_in option \<Rightarrow> tcpt option \<Rightarrow> nat \<Rightarrow> prureq \<Rightarrow>
    'a tcpnet_scheme \<Rightarrow> (soerr option \<times> usrout \<times> 'a tcpnet_scheme) option" where
  "tcp_usrreq E m nam timer s req n =
     Option.bind (sockets n s) (\<lambda>so.
     if so_pcb so = 0 then
       (if req \<noteq> PRU_ATTACH then Some (Some EINVAL_net, NoOut, n)
        else Option.bind (tcp_attach s n) (\<lambda>(e, n1).
          if e \<noteq> None then Some (e, NoOut, n1)
          else map_option (\<lambda>n2. (None, NoOut, n2))
            (so_mod s (\<lambda>x. if SO_LINGER \<in> so_options x \<and> so_linger x = 0 then x\<lparr>so_linger := TCP_LINGERTIME\<rparr> else x) n1)))
     else
       Option.bind (inpcbs n (so_pcb so)) (\<lambda>inp.
       Option.bind (tcpcbs n (inp_ppcb inp)) (\<lambda>tp.
       usr_switch E m nam timer s (so_pcb so) (inp_ppcb inp) req n)))"

text \<open>The request as the socket layer calls it, without data or address.\<close>

definition tcp_pr_usrreq :: "tcpenv \<Rightarrow> nat \<Rightarrow> prureq \<Rightarrow> 'a tcpnet_scheme \<Rightarrow> (soerr option \<times> 'a tcpnet_scheme) option" where
  "tcp_pr_usrreq E s req n = map_option (\<lambda>(e, _, n'). (e, n')) (tcp_usrreq E [] None None s req n)"

section \<open>The timeouts of the protocol\<close>

partial_function (option) fast_loop :: "tcpenv \<Rightarrow> nat \<Rightarrow> 'a tcpnet_scheme \<Rightarrow> 'a tcpnet_scheme option" where
  "fast_loop E i n =
     (if i = 0 then Some n
      else
        Option.bind (inpcbs n i) (\<lambda>inp.
        Option.bind
          (if inp_ppcb inp = 0 then Some n
           else Option.bind (tcpcbs n (inp_ppcb inp)) (\<lambda>tp.
             if TF_DELACK \<in> t_flags tp
             then map_option snd (tcp_output E (inp_ppcb inp)
                    (tp_put (inp_ppcb inp) (tp\<lparr>t_flags := insert TF_ACKNOW (t_flags tp - {TF_DELACK})\<rparr>) n))
             else Some n)) (\<lambda>n1.
        Option.bind (pcb_next Tcb i n1) (\<lambda>nxt. fast_loop E nxt n1))))"

definition tcp_fasttimo :: "tcpenv \<Rightarrow> 'a tcpnet_scheme \<Rightarrow> 'a tcpnet_scheme option" where
  "tcp_fasttimo E n = fast_loop E (pcb_first Tcb n) n"

text \<open>The timers of one control block: whether it is gone.\<close>

fun slow_timers :: "tcpenv \<Rightarrow> tcpt list \<Rightarrow> nat \<Rightarrow> nat \<Rightarrow> nat \<Rightarrow> 'a tcpnet_scheme \<Rightarrow> (bool \<times> 'a tcpnet_scheme) option" where
  "slow_timers E [] i t nxt n = Some (False, n)"
| "slow_timers E (x # xs) i t nxt n =
     Option.bind (tcpcbs n t) (\<lambda>tp.
     if t_timer tp x = 0 then slow_timers E xs i t nxt n
     else
       let v = s16 (t_timer tp x - 1); n1 = tp_put t (set_timer x v tp) n
       in if v \<noteq> 0 then slow_timers E xs i t nxt n1
          else Option.bind (tp_socket t n1) (\<lambda>s.
            Option.bind (tcp_usrreq E [] None (Some x) s PRU_SLOWTIMO n1) (\<lambda>(_, _, n2).
            if pcb_next Tcb i n2 \<noteq> Some nxt then Some (True, n2) else slow_timers E xs i t nxt n2)))"

partial_function (option) slow_loop :: "tcpenv \<Rightarrow> nat \<Rightarrow> 'a tcpnet_scheme \<Rightarrow> 'a tcpnet_scheme option" where
  "slow_loop E i n =
     (if i = 0 then Some (n\<lparr>tcp_iss := tcp_iss n + 64\<rparr>)
      else
        Option.bind (inpcbs n i) (\<lambda>inp.
        if inp_ppcb inp = 0 then slow_loop E i n
        else
          Option.bind (pcb_next Tcb i n) (\<lambda>nxt.
          Option.bind (slow_timers E [TCPT_REXMT, TCPT_PERSIST, TCPT_KEEP, TCPT_2MSL] i (inp_ppcb inp) nxt n) (\<lambda>(gone, n1).
          Option.bind
            (if gone then Some n1
             else tp_mod (inp_ppcb inp)
                    (\<lambda>tp. tp\<lparr>t_idle := s16 (t_idle tp + 1), t_rtt := (if t_rtt tp \<noteq> 0 then s16 (t_rtt tp + 1) else 0)\<rparr>) n1) (\<lambda>n2.
          slow_loop E nxt n2)))))"

definition tcp_slowtimo :: "tcpenv \<Rightarrow> 'a tcpnet_scheme \<Rightarrow> 'a tcpnet_scheme option" where
  "tcp_slowtimo E n = slow_loop E (pcb_first Tcb n) n"

end
