(* ===== verification/Tcp_Input.thy ===== *)
theory Tcp_Input
  imports Tcp_Usrreq
begin

text \<open>
  Input of TCP: sys/netinet/tcp_input.c from the lookup of the control block on, its option parser and
  the reassembly queue.  The header is taken as parsed: a segment comes with its fields in host order,
  its data behind the header and its options in an mbuf of their own.  Each stretch of the long routine
  between its labels is a function; a \<open>goto\<close> is the label it returns.
\<close>

section \<open>Options\<close>

text \<open>\<open>cp\<close> is what lies in memory from the next option on, of which \<open>cnt\<close> bytes are options.\<close>

partial_function (option) dooptions_loop :: "byte list \<Rightarrow> int \<Rightarrow> int \<Rightarrow> int option" where
  "dooptions_loop cp cnt mss =
     (if cnt \<le> 0 then Some mss
      else case cp of
        [] \<Rightarrow> None
      | opt # rest \<Rightarrow>
          if opt = 0 then Some mss
          else if opt = 1 then dooptions_loop rest (cnt - 1) mss
          else case rest of
            [] \<Rightarrow> None
          | optlen # rest' \<Rightarrow>
              if opt = 2 \<and> optlen = 4 then
                (case rest' of
                   hi # lo # _ \<Rightarrow> dooptions_loop (drop 4 cp) (cnt - 4) (s16 (256 * uint hi + uint lo))
                 | _ \<Rightarrow> None)
              else dooptions_loop (drop (unat optlen) cp) (cnt - uint optlen) mss)"

definition tcp_dooptions :: "nat \<Rightarrow> mbuf \<Rightarrow> 'a tcpnet_scheme \<Rightarrow> 'a tcpnet_scheme option" where
  "tcp_dooptions t om n =
     Option.bind (tcpcbs n t) (\<lambda>tp.
     Option.bind (dooptions_loop (mbytes_at (cl_dat (pool n)) om (m_off om)) (m_len om) (t_maxseg tp)) (\<lambda>mss.
     map_option (\<lambda>p. tp_put t (tp\<lparr>t_maxseg := mss\<rparr>) (n\<lparr>pool := p\<rparr>)) (MFREE om (pool n))))"

section \<open>Out of band data\<close>

text \<open>The mbuf that holds byte \<open>cnt\<close> gives it up; a cluster changes in place for all who share it.\<close>

definition take_byte :: "mbuf \<Rightarrow> int \<Rightarrow> mpool \<Rightarrow> byte \<times> mbuf \<times> mpool" where
  "take_byte m cnt p =
     (let bs = mbytes_at (cl_dat p) m (m_off m); k = nat cnt; tail = take (nat (m_len m - cnt - 1)) (drop (k + 1) bs);
          m' = m\<lparr>m_len := m_len m - 1\<rparr>
      in case m_off m of
           Moff d \<Rightarrow> (bs ! k, m'\<lparr>m_dat := bcopy_in tail (nat (d - MMINOFF) + k) (m_dat m)\<rparr>, p)
         | Mcl c d \<Rightarrow> (bs ! k, m', p\<lparr>cl_dat := (cl_dat p)(c := bcopy_in tail (nat d + k) (cl_dat p c))\<rparr>))"

fun pull_oob :: "int \<Rightarrow> mbuf list \<Rightarrow> mpool \<Rightarrow> (byte \<times> mbuf list \<times> mpool) option" where
  "pull_oob cnt [] p = None"
| "pull_oob cnt (m # ms) p =
     (if cnt < 0 then None
      else if m_len m > cnt then
        (let (b, m', p') = take_byte m cnt p in Some (b, m' # ms, p'))
      else map_option (\<lambda>(b, ms', p'). (b, m # ms', p')) (pull_oob (cnt - m_len m) ms p))"

definition tcp_pulloutofband :: "nat \<Rightarrow> tcpiphdr \<Rightarrow> 'a tcpnet_scheme \<Rightarrow> (tcpiphdr \<times> 'a tcpnet_scheme) option" where
  "tcp_pulloutofband t ti n =
     Option.bind (pull_oob (ti_urp ti - 1) (ti_m ti) (pool n)) (\<lambda>(b, ms, p).
     map_option (\<lambda>n'. (ti\<lparr>ti_m := ms\<rparr>, n')) (tp_mod t (\<lambda>tp. tp\<lparr>t_iobc := b, t_oob := True\<rparr>) (n\<lparr>pool := p\<rparr>)))"

section \<open>Reassembly\<close>

definition seg_end :: "tcpiphdr \<Rightarrow> tcp_seq" where
  "seg_end ti = ti_seq ti + word_of_int (ti_len ti)"

definition trim_front :: "int \<Rightarrow> tcpiphdr \<Rightarrow> tcpiphdr" where
  "trim_front i ti = ti\<lparr>ti_m := m_adj (ti_m ti) i, ti_len := s16 (ti_len ti - i), ti_seq := ti_seq ti + word_of_int i\<rparr>"

text \<open>The data a preceding segment provides goes: \<open>None\<close> when it provides all of it.\<close>

definition reass_prev :: "tcpiphdr list \<Rightarrow> tcpiphdr \<Rightarrow> tcpiphdr option" where
  "reass_prev pre ti =
     (if pre = [] then Some ti
      else
        let i = sint (seg_end (last pre) - ti_seq ti)
        in if i > 0 then (if i \<ge> ti_len ti then None else Some (trim_front i ti)) else Some ti)"

text \<open>The segments behind are trimmed, or dequeued when covered; those dequeued come second.\<close>

fun reass_next :: "tcpiphdr \<Rightarrow> tcpiphdr list \<Rightarrow> tcpiphdr list \<times> tcpiphdr list" where
  "reass_next ti [] = ([], [])"
| "reass_next ti (q # qs) =
     (let i = sint (seg_end ti - ti_seq q)
      in if i \<le> 0 then (q # qs, [])
         else if i < ti_len q then (trim_front i q # qs, [])
         else let (r, d) = reass_next ti qs in (r, q # d))"

text \<open>The queue with the segment in its place and the segments dropped, \<open>ti\<close> itself perhaps.\<close>

definition reass_insert :: "tcpiphdr list \<Rightarrow> tcpiphdr \<Rightarrow> (tcpiphdr list \<times> tcpiphdr list) option" where
  "reass_insert q ti =
     (let pre = takeWhile (\<lambda>x. \<not> SEQ_GT (ti_seq x) (ti_seq ti)) q; post = dropWhile (\<lambda>x. \<not> SEQ_GT (ti_seq x) (ti_seq ti)) q
      in case reass_prev pre ti of
           None \<Rightarrow> None
         | Some ti' \<Rightarrow> let (r, d) = reass_next ti' post in Some (pre @ ti' # r, d))"

text \<open>The segments that are next in sequence: the loop at the label \<open>present\<close>.\<close>

fun reass_ready :: "tcp_seq \<Rightarrow> tcpiphdr list \<Rightarrow> tcpiphdr list \<times> tcpiphdr list \<times> tcp_seq" where
  "reass_ready nxt [] = ([], [], nxt)"
| "reass_ready nxt (ti # q) =
     (if ti_seq ti = nxt then
        let (r, q', nxt') = reass_ready (nxt + word_of_int (ti_len ti)) q in (ti # r, q', nxt')
      else ([], ti # q, nxt))"

fun deliver :: "bool \<Rightarrow> tcpiphdr list \<Rightarrow> sockbuf \<Rightarrow> mpool \<Rightarrow> (sockbuf \<times> mpool) option" where
  "deliver cant [] sb p = Some (sb, p)"
| "deliver cant (ti # tis) sb p =
     (if cant then Option.bind (m_freem (ti_m ti) p) (deliver cant tis sb)
      else Option.bind (sbappend sb (ti_m ti) p) (\<lambda>(sb', p'). deliver cant tis sb' p'))"

text \<open>\<open>present\<close>: whether the last segment given to the user had a FIN.\<close>

definition reass_present :: "nat \<Rightarrow> 'a tcpnet_scheme \<Rightarrow> (bool \<times> 'a tcpnet_scheme) option" where
  "reass_present t n =
     Option.bind (tcpcbs n t) (\<lambda>tp.
     Option.bind (tp_socket t n) (\<lambda>s.
     Option.bind (sockets n s) (\<lambda>so.
     if \<not> TCPS_HAVERCVDSYN (t_state tp) then Some (False, n)
     else if seg_q tp = [] \<or> ti_seq (hd (seg_q tp)) \<noteq> rcv_nxt tp then Some (False, n)
     else if t_state tp = TCPS_SYN_RECEIVED \<and> ti_len (hd (seg_q tp)) \<noteq> 0 then Some (False, n)
     else
       let (r, q, nxt) = reass_ready (rcv_nxt tp) (seg_q tp)
       in Option.bind (deliver (SS_CANTRCVMORE \<in> so_state so) r (so_rcv so) (pool n)) (\<lambda>(sb, p).
          map_option (\<lambda>n'. (TH_FIN \<in> ti_flags (last r), n'))
            (sorwakeup s (tp_put t (tp\<lparr>seg_q := q, rcv_nxt := nxt\<rparr>) (so_put s (so\<lparr>so_rcv := sb\<rparr>) (n\<lparr>pool := p\<rparr>))))))))"

text \<open>\<open>tcp_reass\<close>; a null segment is \<open>None\<close>.\<close>

definition tcp_reass :: "nat \<Rightarrow> tcpiphdr option \<Rightarrow> 'a tcpnet_scheme \<Rightarrow> (bool \<times> 'a tcpnet_scheme) option" where
  "tcp_reass t tio n =
     (case tio of
        None \<Rightarrow> reass_present t n
      | Some ti \<Rightarrow>
          Option.bind (tcpcbs n t) (\<lambda>tp.
          case reass_insert (seg_q tp) ti of
            None \<Rightarrow> map_option (\<lambda>p. (False, n\<lparr>pool := p\<rparr>)) (m_freem (ti_m ti) (pool n))
          | Some (q, d) \<Rightarrow>
              Option.bind (free_segs d (pool n)) (\<lambda>p.
              reass_present t (tp_put t (tp\<lparr>seg_q := q\<rparr>) (n\<lparr>pool := p\<rparr>)))))"

section \<open>Trimming to the window\<close>

datatype lbl = L_next | L_step6 | L_dropafterack | L_dropwithreset | L_drop

text \<open>What the header says, and the flags in \<open>tiflags\<close>, which the code keeps apart.\<close>

definition trim_tail :: "int \<Rightarrow> thflag set \<Rightarrow> tcpiphdr \<Rightarrow> tcpiphdr" where
  "trim_tail todrop fl ti = ti\<lparr>ti_m := m_adj (ti_m ti) (- todrop), ti_len := s16 (ti_len ti - todrop), ti_flags := ti_flags ti - fl\<rparr>"

text \<open>\<open>trimthenstep6\<close>\<close>

definition in_trim6 :: "tcpcb \<Rightarrow> tcpiphdr \<Rightarrow> tcpcb \<times> tcpiphdr" where
  "in_trim6 tp ti =
     (let ti1 = ti\<lparr>ti_seq := ti_seq ti + 1\<rparr>;
          ti2 = (if ti_len ti1 > rcv_wnd tp
                 then ti1\<lparr>ti_m := m_adj (ti_m ti1) (- (ti_len ti1 - rcv_wnd tp)), ti_len := rcv_wnd tp,
                          ti_flags := ti_flags ti1 - {TH_FIN}\<rparr>
                 else ti1)
      in (tp\<lparr>snd_wl1 := ti_seq ti2 - 1\<rparr>, ti2))"

text \<open>The leading data already received, after a SYN.\<close>

definition in_front :: "tcp_seq \<Rightarrow> tcpiphdr \<Rightarrow> thflag set \<Rightarrow> lbl \<times> tcpiphdr \<times> thflag set" where
  "in_front nxt ti fl =
     (let todrop = sint (nxt - ti_seq ti)
      in if todrop > 0 then
           let (ti1, fl1, todrop1) =
                 (if TH_SYN \<in> fl then
                    (ti\<lparr>ti_flags := ti_flags ti - {TH_SYN}, ti_seq := ti_seq ti + 1,
                        ti_urp := (if ti_urp ti > 1 then ti_urp ti - 1 else ti_urp ti)\<rparr>,
                     fl - {TH_SYN} - (if ti_urp ti > 1 then {} else {TH_URG}), todrop - 1)
                  else (ti, fl, todrop))
           in if todrop1 > ti_len ti1 \<or> todrop1 = ti_len ti1 \<and> TH_FIN \<notin> fl1 then (L_dropafterack, ti1, fl1)
              else
                let ti2 = trim_front todrop1 ti1
                in if ti_urp ti2 > todrop1 then (L_next, ti2\<lparr>ti_urp := ti_urp ti2 - todrop1\<rparr>, fl1)
                   else (L_next, ti2\<lparr>ti_flags := ti_flags ti2 - {TH_URG}, ti_urp := 0\<rparr>, fl1 - {TH_URG})
         else (L_next, ti, fl))"

definition in_back :: "tcpcb \<Rightarrow> tcpiphdr \<Rightarrow> thflag set \<Rightarrow> lbl \<times> tcpiphdr \<times> thflag set" where
  "in_back tp ti fl =
     (let todrop = sint (seg_end ti - (rcv_nxt tp + word_of_int (rcv_wnd tp)))
      in if todrop > 0 then
           (if todrop \<ge> ti_len ti then (L_dropafterack, ti, fl) else (L_next, trim_tail todrop {TH_PUSH, TH_FIN} ti, fl))
         else (L_next, ti, fl))"

definition in_window :: "tcpcb \<Rightarrow> tcpiphdr \<Rightarrow> thflag set \<Rightarrow> lbl \<times> tcpiphdr \<times> thflag set" where
  "in_window tp ti fl =
     (if rcv_wnd tp = 0 then
        (if rcv_nxt tp \<noteq> ti_seq ti then (L_dropafterack, ti, fl)
         else if ti_len ti > 0 then
           (L_next, ti\<lparr>ti_m := m_adj (ti_m ti) (ti_len ti), ti_len := 0, ti_flags := ti_flags ti - {TH_PUSH, TH_FIN}\<rparr>, fl)
         else (L_next, ti, fl))
      else case in_front (rcv_nxt tp) ti fl of
        (L_next, ti1, fl1) \<Rightarrow> in_back tp ti1 fl1
      | r \<Rightarrow> r)"

section \<open>The stretches of \<open>tcp_input\<close>\<close>

text \<open>The local variables: \<open>tp\<close> may be null, \<open>om\<close> is the mbuf of options.\<close>

record inlocals =
  i_ti :: tcpiphdr
  i_fl :: "thflag set"
  i_tlen :: int
  i_tp :: "nat option"
  i_so :: nat
  i_dropsocket :: bool
  i_om :: "mbuf option"

type_synonym 'a instep = "(lbl \<times> inlocals \<times> 'a tcpnet_scheme) option"

text \<open>The labels at the end.\<close>

definition in_abort :: "tcpenv \<Rightarrow> inlocals \<Rightarrow> 'a tcpnet_scheme \<Rightarrow> 'a tcpnet_scheme option" where
  "in_abort E l n = (if i_dropsocket l then map_option snd (soabort (tcp_pr_usrreq E) (i_so l) n) else Some n)"

definition in_drop :: "tcpenv \<Rightarrow> inlocals \<Rightarrow> 'a tcpnet_scheme \<Rightarrow> 'a tcpnet_scheme option" where
  "in_drop E l n =
     Option.bind (free_opt (i_om l) (pool n)) (\<lambda>p.
     Option.bind (m_freem (ti_m (i_ti l)) p) (\<lambda>p'. in_abort E l (n\<lparr>pool := p'\<rparr>)))"

definition in_dropwithreset :: "tcpenv \<Rightarrow> inlocals \<Rightarrow> 'a tcpnet_scheme \<Rightarrow> 'a tcpnet_scheme option" where
  "in_dropwithreset E l n =
     Option.bind (free_opt (i_om l) (pool n)) (\<lambda>p.
     let n1 = n\<lparr>pool := p\<rparr>; l1 = l\<lparr>i_om := None\<rparr>; ti = i_ti l
     in if TH_RST \<in> i_fl l then in_drop E l1 n1
        else Option.bind
          (if TH_ACK \<in> i_fl l then tcp_respond E (i_tp l) ti 0 (ti_ack ti) {TH_RST} n1
           else let ti1 = (if TH_SYN \<in> i_fl l then ti\<lparr>ti_len := s16 (ti_len ti + 1)\<rparr> else ti)
                in tcp_respond E (i_tp l) ti1 (seg_end ti1) 0 {TH_RST, TH_ACK} n1) (in_abort E l1))"

definition in_dropafterack :: "tcpenv \<Rightarrow> inlocals \<Rightarrow> 'a tcpnet_scheme \<Rightarrow> 'a tcpnet_scheme option" where
  "in_dropafterack E l n =
     (if TH_RST \<in> i_fl l \<or> i_tlen l = 0 \<and> i_fl l \<inter> {TH_SYN, TH_FIN} = {} then in_drop E l n
      else Option.bind (i_tp l) (\<lambda>t. Option.bind (tcpcbs n t) (\<lambda>tp.
        tcp_respond E (Some t) (i_ti l) (rcv_nxt tp) (snd_nxt tp) {TH_ACK} n)))"

text \<open>Finding the control block, or making a connection of a listening one.\<close>

definition in_demux :: "tcpenv \<Rightarrow> inlocals \<Rightarrow> 'a tcpnet_scheme \<Rightarrow> 'a instep" where
  "in_demux E l n =
     (let ti = i_ti l
      in case in_pcblookup Tcb (ti_src ti) (ti_sport ti) (ti_dst ti) (ti_dport ti) True n of
           None \<Rightarrow> Some (L_dropwithreset, l, n)
         | Some i \<Rightarrow>
             Option.bind (inpcbs n i) (\<lambda>inp.
             if inp_ppcb inp = 0 then Some (L_dropwithreset, l, n)
             else
               let l1 = l\<lparr>i_tp := Some (inp_ppcb inp), i_so := inp_socket inp\<rparr>
               in Option.bind (sockets n (inp_socket inp)) (\<lambda>so.
                  if SO_ACCEPTCONN \<notin> so_options so then Some (L_next, l1, n)
                  else Option.bind (sonewconn (tcp_pr_usrreq E) (inp_socket inp) n) (\<lambda>(r, n1).
                    case r of
                      None \<Rightarrow> Some (L_drop, l1, n1)
                    | Some s \<Rightarrow>
                        Option.bind (sockets n1 s) (\<lambda>so'.
                        Option.bind (inp_mod (so_pcb so') (\<lambda>x. x\<lparr>inp_laddr := ti_dst ti, inp_lport := ti_dport ti\<rparr>) n1) (\<lambda>n2.
                        Option.bind (inpcbs n2 (so_pcb so')) (\<lambda>inp'.
                        map_option (\<lambda>n3. (L_next, l1\<lparr>i_tp := Some (inp_ppcb inp'), i_so := s, i_dropsocket := True\<rparr>, n3))
                          (tp_mod (inp_ppcb inp') (\<lambda>tp. tp\<lparr>t_state := TCPS_LISTEN\<rparr>) n2))))))))"

text \<open>Idle time, options and receive window.\<close>

definition in_prep :: "nat \<Rightarrow> inlocals \<Rightarrow> 'a tcpnet_scheme \<Rightarrow> (inlocals \<times> 'a tcpnet_scheme) option" where
  "in_prep t l n =
     Option.bind (tp_mod t (\<lambda>tp. set_timer TCPT_KEEP TCPTV_KEEP (tp\<lparr>t_idle := 0\<rparr>)) n) (\<lambda>n1.
     Option.bind (case i_om l of None \<Rightarrow> Some n1 | Some om \<Rightarrow> tcp_dooptions t om n1) (\<lambda>n2.
     Option.bind (sockets n2 (i_so l)) (\<lambda>so.
     let w = s16 (sbspace (so_rcv so))
     in map_option (\<lambda>n3. (l\<lparr>i_om := None\<rparr>, n3)) (tp_mod t (\<lambda>tp. tp\<lparr>rcv_wnd := (if w < 0 then 0 else w)\<rparr>) n2))))"

text \<open>State LISTEN, up to \<open>trimthenstep6\<close>.\<close>

definition in_listen_syn :: "tcpcb \<Rightarrow> (tcpiphdr \<times> mbuf) \<Rightarrow> tcp_seq \<Rightarrow> tcp_seq \<Rightarrow> tcpcb" where
  "in_listen_syn tp tm is sq =
     (let tp1 = tcp_rcvseqinit (tcp_sendseqinit (tp\<lparr>t_template := Some tm, iss := is, irs := sq\<rparr>))
      in set_timer TCPT_KEEP TCPTV_KEEP (tp1\<lparr>t_state := TCPS_SYN_RECEIVED\<rparr>))"

definition in_listen :: "nat \<Rightarrow> inlocals \<Rightarrow> 'a tcpnet_scheme \<Rightarrow> 'a instep" where
  "in_listen t l n =
     (let ti = i_ti l; drop = (\<lambda>n. Some (L_drop, l, n))
      in if TH_RST \<in> i_fl l then drop n
         else if TH_ACK \<in> i_fl l then Some (L_dropwithreset, l, n)
         else if TH_SYN \<notin> i_fl l then drop n
         else
           Option.bind (tcpcbs n t) (\<lambda>tp.
           Option.bind (inpcbs n (t_inpcb tp)) (\<lambda>inp.
           Option.bind (m_get 8 (pool n)) (\<lambda>(amo, p).
           case amo of
             None \<Rightarrow> drop (n\<lparr>pool := p\<rparr>)
           | Some am \<Rightarrow>
               let i = t_inpcb tp; laddr = inp_laddr inp;
                   n1 = inp_put i (if laddr = 0 then inp\<lparr>inp_laddr := ti_dst ti\<rparr> else inp) (n\<lparr>pool := p\<rparr>)
               in Option.bind (in_pcbconnect i \<lparr>nam_len = 16, sin_family = AF_INET, sin_port = ti_sport ti, sin_addr = ti_src ti\<rparr> n1) (\<lambda>(e, n2).
                  if e \<noteq> None then
                    Option.bind (inp_mod i (\<lambda>x. x\<lparr>inp_laddr := laddr\<rparr>) n2) (\<lambda>n3.
                    Option.bind (MFREE am (pool n3)) (\<lambda>p'. drop (n3\<lparr>pool := p'\<rparr>)))
                  else
                    Option.bind (MFREE am (pool n2)) (\<lambda>p'.
                    Option.bind (tcp_template t (n2\<lparr>pool := p'\<rparr>)) (\<lambda>(tmo, n3).
                    case tmo of
                      None \<Rightarrow>
                        Option.bind (in_pcbdisconnect i n3) (\<lambda>n4.
                        Option.bind (inp_mod i (\<lambda>x. x\<lparr>inp_laddr := laddr\<rparr>) n4) (\<lambda>n5.
                        Some (L_drop, l\<lparr>i_tp := None\<rparr>, n5)))
                    | Some tm \<Rightarrow>
                        let (tp2, ti2) = in_trim6 (in_listen_syn tp tm (tcp_iss n3) (ti_seq ti)) ti
                        in Some (L_step6, l\<lparr>i_dropsocket := False, i_ti := ti2\<rparr>, tp_put t tp2 (n3\<lparr>tcp_iss := tcp_iss n3 + 64\<rparr>)))))))))"

text \<open>State SYN_SENT, up to \<open>trimthenstep6\<close>; \<open>tp\<close> once the SYN is accepted.\<close>

definition in_synsent_tp :: "tcpcb \<Rightarrow> tcpiphdr \<Rightarrow> tcpcb" where
  "in_synsent_tp tp ti =
     (let tp1 = tp\<lparr>snd_una := ti_ack ti, snd_nxt := (if SEQ_LT (snd_nxt tp) (ti_ack ti) then ti_ack ti else snd_nxt tp)\<rparr>;
          tp2 = tcp_rcvseqinit (set_timer TCPT_REXMT 0 (tp1\<lparr>irs := ti_seq ti\<rparr>))
      in tp2\<lparr>t_flags := insert TF_ACKNOW (t_flags tp2)\<rparr>)"

definition in_synsent :: "tcpenv \<Rightarrow> nat \<Rightarrow> inlocals \<Rightarrow> 'a tcpnet_scheme \<Rightarrow> 'a instep" where
  "in_synsent E t l n =
     Option.bind (tcpcbs n t) (\<lambda>tp.
     let ti = i_ti l
     in if TH_ACK \<in> i_fl l \<and> (SEQ_LT (ti_ack ti) (iss tp) \<or> SEQ_GT (ti_ack ti) (snd_max tp)) then Some (L_dropwithreset, l, n)
        else if TH_RST \<in> i_fl l then
          (if TH_ACK \<in> i_fl l
           then map_option (\<lambda>n1. (L_drop, l\<lparr>i_tp := None\<rparr>, n1)) (tcp_drop E t (Some ECONNREFUSED) n)
           else Some (L_drop, l, n))
        else if TH_SYN \<notin> i_fl l then Some (L_drop, l, n)
        else
          let tp1 = in_synsent_tp tp ti
          in Option.bind
               (if SEQ_GT (snd_una tp1) (iss tp1) then
                  Option.bind (soisconnected (i_so l) (tp_put t tp1 n)) (\<lambda>n1.
                  Option.bind (tp_mod t (\<lambda>x. x\<lparr>t_state := TCPS_ESTABLISHED\<rparr>) n1) (\<lambda>n2.
                  map_option snd (tcp_reass t None n2)))
                else Some (tp_put t (tp1\<lparr>t_state := TCPS_SYN_RECEIVED\<rparr>) n)) (\<lambda>n3.
             Option.bind (tcpcbs n3 t) (\<lambda>tp3.
             let (tp4, ti4) = in_trim6 tp3 ti
             in Some (L_step6, l\<lparr>i_ti := ti4\<rparr>, tp_put t tp4 n3))))"

text \<open>Data for a user who is gone, RST, a SYN in the window, no ACK.\<close>

definition in_flags :: "tcpenv \<Rightarrow> nat \<Rightarrow> inlocals \<Rightarrow> 'a tcpnet_scheme \<Rightarrow> 'a instep" where
  "in_flags E t l n =
     Option.bind (tcpcbs n t) (\<lambda>tp.
     Option.bind (sockets n (i_so l)) (\<lambda>so.
     let gone = (\<lambda>lb. map_option (\<lambda>n1. (lb, l\<lparr>i_tp := None\<rparr>, n1)))
     in if SS_NOFDREF \<in> so_state so \<and> t_state tp > TCPS_CLOSE_WAIT \<and> ti_len (i_ti l) \<noteq> 0
        then gone L_dropwithreset (tcp_close t n)
        else if TH_RST \<in> i_fl l \<and> t_state tp = TCPS_SYN_RECEIVED then gone L_drop (tcp_drop E t (Some ECONNREFUSED) n)
        else if TH_RST \<in> i_fl l \<and> t_state tp \<in> {TCPS_ESTABLISHED, TCPS_FIN_WAIT_1, TCPS_FIN_WAIT_2, TCPS_CLOSE_WAIT}
        then gone L_drop (tcp_drop E t (Some ECONNRESET) n)
        else if TH_RST \<in> i_fl l \<and> t_state tp \<in> {TCPS_CLOSING, TCPS_LAST_ACK, TCPS_TIME_WAIT} then gone L_drop (tcp_close t n)
        else if TH_SYN \<in> i_fl l then gone L_dropwithreset (tcp_drop E t (Some ECONNRESET) n)
        else if TH_ACK \<notin> i_fl l then Some (L_drop, l, n)
        else Some (L_next, l, n)))"

section \<open>Acknowledgments\<close>

text \<open>The control block when an acknowledgment of new data is in: round trip time and timers.\<close>

definition ack_rtt :: "tcpenv \<Rightarrow> tcp_seq \<Rightarrow> tcpcb \<Rightarrow> tcpcb" where
  "ack_rtt E ack tp =
     (if t_rtt tp \<noteq> 0 \<and> SEQ_GT ack (t_rtseq tp)
      then tp\<lparr>t_srtt := (if t_srtt tp = 0 then of_int (t_rtt tp)
                         else e_rnd E (tcp_alpha E * t_srtt tp + (1 - tcp_alpha E) * of_int (t_rtt tp))), t_rtt := 0\<rparr>
      else tp)"

definition ack_timer :: "tcpenv \<Rightarrow> tcp_seq \<Rightarrow> tcpcb \<Rightarrow> tcpcb" where
  "ack_timer E ack tp =
     (if ack = snd_max tp then set_timer TCPT_REXMT 0 tp
      else (set_timer TCPT_REXMT (TCPT_RANGESET (c_trunc (tcp_beta E * t_srtt tp)) TCPTV_MIN TCPTV_MAX) tp)
             \<lparr>t_rtt := 1, t_rxtshift := 0\<rparr>)"

definition ack_una :: "tcp_seq \<Rightarrow> tcpcb \<Rightarrow> tcpcb" where
  "ack_una ack tp = tp\<lparr>snd_una := ack, snd_nxt := (if SEQ_LT (snd_nxt tp) ack then ack else snd_nxt tp)\<rparr>"

text \<open>
  New data acknowledged: the bytes leave the send buffer.  The window shrinks by \<open>sb_cc\<close> as it is after
  dropping it all, or by \<open>acked\<close>; the result is what is left of \<open>acked\<close>.
\<close>

definition ack_data :: "tcpenv \<Rightarrow> nat \<Rightarrow> nat \<Rightarrow> tcp_seq \<Rightarrow> 'a tcpnet_scheme \<Rightarrow> (int \<times> 'a tcpnet_scheme) option" where
  "ack_data E t s ack n =
     Option.bind (tcpcbs n t) (\<lambda>tp.
     Option.bind (sockets n s) (\<lambda>so.
     let acked = sint (ack - snd_una tp); cc = sb_cc (so_snd so);
         tp1 = ack_timer E ack (ack_rtt E ack tp);
         all = (acked > cc)
     in Option.bind (sbdrop (so_snd so) (if all then cc else acked) (pool n)) (\<lambda>(sb, p).
        let tp2 = tp1\<lparr>snd_wnd := u16 (snd_wnd tp1 - (if all then sb_cc sb else acked))\<rparr>;
            n1 = tp_put t tp2 (so_put s (so\<lparr>so_snd := sb\<rparr>) (n\<lparr>pool := p\<rparr>))
        in Option.bind (if SB_WAIT \<in> sb_flags sb \<or> sb_sel sb \<noteq> None then sowwakeup s n1 else Some n1) (\<lambda>n2.
           map_option (\<lambda>n3. (if all then acked else 0, n3)) (tp_mod t (ack_una ack) n2)))))"

text \<open>The states in which the user has closed, with what is left of \<open>acked\<close>.\<close>

definition ack_fsm :: "nat \<Rightarrow> int \<Rightarrow> inlocals \<Rightarrow> 'a tcpnet_scheme \<Rightarrow> 'a instep" where
  "ack_fsm t acked l n =
     Option.bind (tcpcbs n t) (\<lambda>tp.
     Option.bind (sockets n (i_so l)) (\<lambda>so.
     case t_state tp of
       TCPS_FIN_WAIT_1 \<Rightarrow>
         if acked > 0 then
           Option.bind (if SS_CANTRCVMORE \<in> so_state so then soisdisconnected (i_so l) n else Some n) (\<lambda>n1.
           map_option (\<lambda>n2. (L_next, l, n2)) (tp_mod t (\<lambda>x. x\<lparr>t_state := TCPS_FIN_WAIT_2\<rparr>) n1))
         else Some (L_next, l, n)
     | TCPS_CLOSING \<Rightarrow>
         if acked > 0 then
           Option.bind (tp_mod t (\<lambda>x. set_timer TCPT_2MSL (2 * TCPTV_MSL) (tcp_canceltimers (x\<lparr>t_state := TCPS_TIME_WAIT\<rparr>))) n) (\<lambda>n1.
           map_option (\<lambda>n2. (L_next, l, n2)) (soisdisconnected (i_so l) n1))
         else Some (L_next, l, n)
     | TCPS_LAST_ACK \<Rightarrow>
         if acked > 0 then map_option (\<lambda>n1. (L_drop, l\<lparr>i_tp := None\<rparr>, n1)) (tcp_close t n) else Some (L_drop, l, n)
     | TCPS_TIME_WAIT \<Rightarrow>
         map_option (\<lambda>n1. (L_dropafterack, l, n1)) (tp_mod t (set_timer TCPT_2MSL (2 * TCPTV_MSL)) n)
     | _ \<Rightarrow> Some (L_next, l, n)))"

text \<open>SYN_RECEIVED: the SYN is acknowledged.\<close>

definition ack_syn_tp :: "tcpcb \<Rightarrow> tcpcb" where
  "ack_syn_tp tp =
     (let una = snd_una tp + 1
      in set_timer TCPT_REXMT 0 (tp\<lparr>snd_una := una, snd_nxt := (if SEQ_LT (snd_nxt tp) una then una else snd_nxt tp)\<rparr>))"

definition ack_syn :: "nat \<Rightarrow> inlocals \<Rightarrow> 'a tcpnet_scheme \<Rightarrow> 'a instep" where
  "ack_syn t l n =
     Option.bind (tcpcbs n t) (\<lambda>tp.
     if t_state tp \<noteq> TCPS_SYN_RECEIVED then Some (L_next, l, n)
     else if SEQ_GT (snd_una tp) (ti_ack (i_ti l)) \<or> SEQ_GT (ti_ack (i_ti l)) (snd_max tp) then Some (L_dropwithreset, l, n)
     else
       Option.bind (soisconnected (i_so l) (tp_put t (ack_syn_tp tp) n)) (\<lambda>n1.
       Option.bind (tp_mod t (\<lambda>x. x\<lparr>t_state := TCPS_ESTABLISHED\<rparr>) n1) (\<lambda>n2.
       Option.bind (tcp_reass t None n2) (\<lambda>(_, n3).
       map_option (\<lambda>n4. (L_next, l, n4)) (tp_mod t (\<lambda>x. x\<lparr>snd_wl1 := ti_seq (i_ti l) - 1\<rparr>) n3)))))"

definition ack_rest :: "tcpenv \<Rightarrow> nat \<Rightarrow> inlocals \<Rightarrow> 'a tcpnet_scheme \<Rightarrow> 'a instep" where
  "ack_rest E t l n =
     Option.bind (tcpcbs n t) (\<lambda>tp.
     if t_state tp < TCPS_ESTABLISHED then Some (L_next, l, n)
     else if SEQ_LEQ (ti_ack (i_ti l)) (snd_una tp) then Some (L_next, l, n)
     else if SEQ_GT (ti_ack (i_ti l)) (snd_max tp) then Some (L_dropafterack, l, n)
     else Option.bind (ack_data E t (i_so l) (ti_ack (i_ti l)) n) (\<lambda>(acked, n1). ack_fsm t acked l n1))"

definition in_ack :: "tcpenv \<Rightarrow> nat \<Rightarrow> inlocals \<Rightarrow> 'a tcpnet_scheme \<Rightarrow> 'a instep" where
  "in_ack E t l n =
     Option.bind (ack_syn t l n) (\<lambda>(lb, l1, n1). if lb \<noteq> L_next then Some (lb, l1, n1) else ack_rest E t l1 n1)"

section \<open>\<open>step6\<close>: window, urgent data, text and FIN\<close>

definition step6_wnd :: "tcpiphdr \<Rightarrow> tcpcb \<Rightarrow> tcpcb" where
  "step6_wnd ti tp =
     (if SEQ_LT (snd_wl1 tp) (ti_seq ti) \<or> snd_wl1 tp = ti_seq ti \<and>
           (SEQ_LT (snd_wl2 tp) (ti_ack ti) \<or> snd_wl2 tp = ti_ack ti \<and> ti_win ti > snd_wnd tp)
      then let tp1 = tp\<lparr>snd_wnd := ti_win ti, snd_wl1 := ti_seq ti, snd_wl2 := ti_ack ti\<rparr>
           in if snd_wnd tp1 \<noteq> 0 then set_timer TCPT_PERSIST 0 tp1 else tp1
      else tp)"

definition sohasoutofband :: "nat \<Rightarrow> 'a tcpnet_scheme \<Rightarrow> 'a tcpnet_scheme option" where
  "sohasoutofband s n =
     map_option (\<lambda>so. if so_pgrp so = 0 then n else n\<lparr>sigurg := sigurg n @ [s]\<rparr>) (sockets n s)"

definition step6_urg :: "nat \<Rightarrow> inlocals \<Rightarrow> 'a tcpnet_scheme \<Rightarrow> (inlocals \<times> 'a tcpnet_scheme) option" where
  "step6_urg t l n =
     Option.bind (tcpcbs n t) (\<lambda>tp.
     Option.bind (sockets n (i_so l)) (\<lambda>so.
     let ti = i_ti l; up = ti_seq ti + word_of_int (ti_urp ti)
     in if TH_URG \<in> i_fl l \<and> ti_urp ti \<noteq> 0 \<and> \<not> TCPS_HAVERCVDFIN (t_state tp) then
          Option.bind
            (if SEQ_GT up (rcv_up tp) then
               let mark = s16 (sb_cc (so_rcv so) + sint (up - rcv_nxt tp) - 1);
                   so1 = so\<lparr>so_oobmark := mark, so_state := (if mark = 0 then insert SS_RCVATMARK (so_state so) else so_state so)\<rparr>
               in sohasoutofband (i_so l) (tp_put t (tp\<lparr>rcv_up := up, t_oob := False\<rparr>) (so_put (i_so l) so1 n))
             else Some n) (\<lambda>n1.
          if ti_urp ti \<le> ti_len ti
          then map_option (\<lambda>(ti', n2). (l\<lparr>i_ti := ti'\<rparr>, n2)) (tcp_pulloutofband t ti n1)
          else Some (l, n1))
        else Some (l, n)))"

definition step6_text :: "nat \<Rightarrow> inlocals \<Rightarrow> 'a tcpnet_scheme \<Rightarrow> (inlocals \<times> 'a tcpnet_scheme) option" where
  "step6_text t l n =
     Option.bind (tcpcbs n t) (\<lambda>tp.
     if (ti_len (i_ti l) \<noteq> 0 \<or> TH_FIN \<in> i_fl l) \<and> \<not> TCPS_HAVERCVDFIN (t_state tp) then
       Option.bind (tcp_reass t (Some (i_ti l)) n) (\<lambda>(fin, n1).
       map_option (\<lambda>n2. (l\<lparr>i_fl := (if fin then {TH_FIN} else {})\<rparr>, n2))
         (tp_mod t (\<lambda>x. x\<lparr>t_flags := insert (if tcpnodelack n1 then TF_ACKNOW else TF_DELACK) (t_flags x)\<rparr>) n1))
     else map_option (\<lambda>p. (l\<lparr>i_fl := i_fl l - {TH_FIN}\<rparr>, n\<lparr>pool := p\<rparr>)) (m_freem (ti_m (i_ti l)) (pool n)))"

definition fin_state :: "tcpcb \<Rightarrow> tcpcb" where
  "fin_state tp =
     (case t_state tp of
        TCPS_SYN_RECEIVED \<Rightarrow> tp\<lparr>t_state := TCPS_CLOSE_WAIT\<rparr>
      | TCPS_ESTABLISHED \<Rightarrow> tp\<lparr>t_state := TCPS_CLOSE_WAIT\<rparr>
      | TCPS_FIN_WAIT_1 \<Rightarrow> tp\<lparr>t_state := TCPS_CLOSING\<rparr>
      | TCPS_FIN_WAIT_2 \<Rightarrow> set_timer TCPT_2MSL (2 * TCPTV_MSL) (tcp_canceltimers (tp\<lparr>t_state := TCPS_TIME_WAIT\<rparr>))
      | TCPS_TIME_WAIT \<Rightarrow> set_timer TCPT_2MSL (2 * TCPTV_MSL) tp
      | _ \<Rightarrow> tp)"

definition step6_fin :: "nat \<Rightarrow> inlocals \<Rightarrow> 'a tcpnet_scheme \<Rightarrow> 'a tcpnet_scheme option" where
  "step6_fin t l n =
     (if TH_FIN \<notin> i_fl l then Some n
      else
        Option.bind (tcpcbs n t) (\<lambda>tp.
        Option.bind
          (if TCPS_HAVERCVDFIN (t_state tp) then Some n
           else Option.bind (socantrcvmore (i_so l) n)
                  (tp_mod t (\<lambda>x. x\<lparr>t_flags := insert TF_ACKNOW (t_flags x), rcv_nxt := rcv_nxt x + 1\<rparr>))) (\<lambda>n1.
        Option.bind (tp_mod t fin_state n1) (\<lambda>n2.
        if t_state tp = TCPS_FIN_WAIT_2 then soisdisconnected (i_so l) n2 else Some n2))))"

definition in_step6 :: "tcpenv \<Rightarrow> nat \<Rightarrow> inlocals \<Rightarrow> 'a tcpnet_scheme \<Rightarrow> 'a tcpnet_scheme option" where
  "in_step6 E t l n =
     Option.bind (tp_mod t (step6_wnd (i_ti l)) n) (\<lambda>n1.
     Option.bind (step6_urg t l n1) (\<lambda>(l2, n2).
     Option.bind (step6_text t l2 n2) (\<lambda>(l3, n3).
     Option.bind (step6_fin t l3 n3) (\<lambda>n4. map_option snd (tcp_output E t n4)))))"

section \<open>The whole routine\<close>

text \<open>The states other than LISTEN and SYN_SENT, up to \<open>step6\<close>.\<close>

definition in_other :: "tcpenv \<Rightarrow> nat \<Rightarrow> inlocals \<Rightarrow> 'a tcpnet_scheme \<Rightarrow> 'a instep" where
  "in_other E t l n =
     Option.bind (tcpcbs n t) (\<lambda>tp.
     case in_window tp (i_ti l) (i_fl l) of
       (lb, ti, fl) \<Rightarrow>
         let l1 = l\<lparr>i_ti := ti, i_fl := fl\<rparr>
         in if lb \<noteq> L_next then Some (lb, l1, n)
            else Option.bind (in_flags E t l1 n) (\<lambda>(lb, l2, n2).
              if lb \<noteq> L_next then Some (lb, l2, n2) else in_ack E t l2 n2))"

definition in_process :: "tcpenv \<Rightarrow> nat \<Rightarrow> inlocals \<Rightarrow> 'a tcpnet_scheme \<Rightarrow> 'a instep" where
  "in_process E t l n =
     Option.bind (tcpcbs n t) (\<lambda>tp.
     case t_state tp of
       TCPS_LISTEN \<Rightarrow> in_listen t l n
     | TCPS_SYN_SENT \<Rightarrow> in_synsent E t l n
     | _ \<Rightarrow> in_other E t l n)"

definition in_finish :: "tcpenv \<Rightarrow> lbl \<times> inlocals \<times> 'a tcpnet_scheme \<Rightarrow> 'a tcpnet_scheme option" where
  "in_finish E r =
     (case r of (lb, l, n) \<Rightarrow>
        case lb of
          L_drop \<Rightarrow> in_drop E l n
        | L_dropwithreset \<Rightarrow> in_dropwithreset E l n
        | L_dropafterack \<Rightarrow> in_dropafterack E l n
        | _ \<Rightarrow> Option.bind (i_tp l) (\<lambda>t. in_step6 E t l n))"

text \<open>A segment with its options; \<open>ti_len\<close> is the length of its data.\<close>

definition tcp_input :: "tcpenv \<Rightarrow> tcpiphdr \<Rightarrow> mbuf option \<Rightarrow> 'a tcpnet_scheme \<Rightarrow> 'a tcpnet_scheme option" where
  "tcp_input E ti om n =
     (let l = \<lparr>i_ti = ti, i_fl = ti_flags ti, i_tlen = ti_len ti, i_tp = None, i_so = 0, i_dropsocket = False, i_om = om\<rparr>
      in Option.bind (in_demux E l n) (\<lambda>(lb, l1, n1).
         if lb \<noteq> L_next then in_finish E (lb, l1, n1)
         else Option.bind (i_tp l1) (\<lambda>t.
           Option.bind (in_prep t l1 n1) (\<lambda>(l2, n2).
           Option.bind (in_process E t l2 n2) (in_finish E)))))"

end
