(* ===== verification/Tcp_Options.thy ===== *)
theory Tcp_Options
  imports Tcp_Input
begin

text \<open>
  The option parser of tcp_input.c against the format of TCP options, and against what \<open>tcp_output\<close> writes.
\<close>

section \<open>The format\<close>

datatype tcpopt = Nop | Mss "16 word" | Other byte "byte list"

fun opt_bytes :: "tcpopt \<Rightarrow> byte list" where
  "opt_bytes Nop = [1]"
| "opt_bytes (Mss w) = [2, 4, word_of_int (uint w div 256), word_of_int (uint w mod 256)]"
| "opt_bytes (Other k d) = k # of_nat (length d + 2) # d"

fun opt_wf :: "tcpopt \<Rightarrow> bool" where
  "opt_wf Nop = True"
| "opt_wf (Mss w) = True"
| "opt_wf (Other k d) = (k \<noteq> 0 \<and> k \<noteq> 1 \<and> length d < 254 \<and> (k = 2 \<longrightarrow> length d \<noteq> 2))"

definition opts_bytes :: "tcpopt list \<Rightarrow> byte list" where
  "opts_bytes os = concat (map opt_bytes os)"

lemma opts_bytes_simps [simp]: "opts_bytes [] = []" "opts_bytes (x # os) = opt_bytes x @ opts_bytes os"
  by (simp_all add: opts_bytes_def)

text \<open>The last maximum segment size counts, kept in a short.\<close>

fun opt_mss :: "int \<Rightarrow> tcpopt \<Rightarrow> int" where
  "opt_mss mss (Mss w) = sint w"
| "opt_mss mss _ = mss"

section \<open>The parser\<close>

lemma uint_byte: "0 \<le> x \<Longrightarrow> x < 256 \<Longrightarrow> uint (word_of_int x :: byte) = x"
  by (simp add: unsigned_of_int take_bit_int_eq_self)

lemma s16_signed: "s16 x = signed_take_bit 15 x"
  by (simp add: s16_def signed_take_bit_eq_take_bit_shift take_bit_eq_mod)

lemma mss_bytes: "s16 (256 * uint (word_of_int (uint w div 256) :: byte) + uint (word_of_int (uint w mod 256) :: byte)) = sint w"
  for w :: "16 word"
proof -
  have w: "0 \<le> uint w" "uint w < 65536" using uint_bounded [of w] by auto
  then have "0 \<le> uint w div 256" "uint w div 256 < 256" by linarith+
  then have "256 * uint (word_of_int (uint w div 256) :: byte) + uint (word_of_int (uint w mod 256) :: byte) = uint w"
    by (simp add: uint_byte)
  then show ?thesis by (simp add: s16_signed sint_uint)
qed

lemma dooptions_loop_opt:
  assumes "opt_wf x" "0 < cnt"
  shows "dooptions_loop (opt_bytes x @ r) cnt mss = dooptions_loop r (cnt - int (length (opt_bytes x))) (opt_mss mss x)"
proof (cases x)
  case Nop
  then show ?thesis using assms by (simp add: dooptions_loop.simps [of "1 # r"])
next
  case (Mss w)
  then show ?thesis using assms by (simp add: dooptions_loop.simps [of "2 # _"] mss_bytes)
next
  case (Other k d)
  have u: "unat (of_nat (length d + 2) :: byte) = length d + 2"
    using assms Other by (simp add: unsigned_of_nat take_bit_nat_eq_self del: of_nat_add of_nat_Suc)
  then have v: "uint (of_nat (length d + 2) :: byte) = int (length d) + 2" by (metis of_nat_add of_nat_numeral uint_nat)
  have "(of_nat (length d + 2) :: byte) = 4 \<Longrightarrow> length d = 2" using u(1) by simp
  then show ?thesis using assms Other u v by (auto simp: dooptions_loop.simps [of "k # _"] add.commute)
qed

lemma opt_bytes_length: "0 < length (opt_bytes x)"
  by (cases x) auto

text \<open>C23: the option parser.  On any sequence of well formed options, unknown ones included, that ends with its
  count or with the end-of-list option, the loop terminates, whatever lies behind, and leaves in
  \<open>t_maxseg\<close> the last maximum segment size, or the old value when there is none.\<close>

theorem dooptions_reads:
  assumes "\<forall>x \<in> set os. opt_wf x"
    "cnt = int (length (opts_bytes os)) \<or> int (length (opts_bytes os)) < cnt \<and> (\<exists>r. rest = 0 # r)"
  shows "dooptions_loop (opts_bytes os @ rest) cnt mss = Some (foldl opt_mss mss os)"
  using assms
proof (induction os arbitrary: cnt mss)
  case Nil
  then show ?case by (auto simp: dooptions_loop.simps [of rest] dooptions_loop.simps [of "0 # _"])
next
  case (Cons x os)
  have pos: "0 < cnt" using Cons.prems(2) opt_bytes_length [of x] unfolding opts_bytes_simps length_append of_nat_add by linarith
  have "dooptions_loop (opts_bytes (x # os) @ rest) cnt mss
      = dooptions_loop (opts_bytes os @ rest) (cnt - int (length (opt_bytes x))) (opt_mss mss x)"
    using dooptions_loop_opt [of x cnt "opts_bytes os @ rest" mss] Cons.prems(1) pos by simp
  also have "\<dots> = Some (foldl opt_mss (opt_mss mss x) os)"
    by (rule Cons.IH) (use Cons.prems in auto)
  finally show ?case by simp
qed

theorem dooptions_reads_witness:
  "dooptions_loop [1, 8, 4, 9, 9, 2, 4, 2, 0, 0, 77] 11 512 = Some 512"
  using dooptions_reads [of "[Nop, Other 8 [9, 9], Mss 512]" 11 "[0, 77]" 512] by (simp add: sint_uint)

text \<open>What one side writes while the connection is not established, the other side reads.\<close>

lemma dooptions_out_options:
  assumes "out_options tp so cl = Some bs" "t_state tp < TCPS_ESTABLISHED"
  shows "dooptions_loop (pad4 bs @ rest) (int (length (pad4 bs))) mss
    = Some (s16 (min (c_div (sb_hiwat (so_rcv so)) 2) 1024))"
proof -
  define m where "m = min (c_div (sb_hiwat (so_rcv so)) 2) 1024"
  have u: "u16 m = uint (word_of_int m :: 16 word)" by (simp add: u16_def unsigned_of_int take_bit_eq_mod)
  have "bs = opts_bytes [Mss (word_of_int m)]"
    using assms by (auto simp: out_options_def Let_def u split: if_splits simp flip: m_def)
  moreover have "pad4 (opts_bytes [Mss w]) = opts_bytes [Mss w]" for w by (simp add: pad4_def)
  ultimately show ?thesis
    using dooptions_reads [of "[Mss (word_of_int m)]" "int (length (pad4 bs))" rest mss] by (simp add: s16_signed signed_of_int flip: m_def)
qed

text \<open>An option of length zero makes the loop run forever: \<open>cnt\<close> and \<open>cp\<close> stand still.\<close>

lemma dooptions_zero_length:
  assumes "k \<noteq> 0" "k \<noteq> 1" "0 < cnt"
  shows "dooptions_loop (k # 0 # r) cnt mss = None"
proof -
  have "\<not> (cp = k # 0 # r \<and> 0 < c)" if "dooptions_loop cp c m = Some y" for cp c m y
  proof (rule dooptions_loop.raw_induct [where P = "\<lambda>cp c m y. \<not> (cp = k # 0 # r \<and> 0 < c)", OF _ that], intro notI)
    fix L cp c m y
    assume IH: "\<And>cp c m y. L cp c m = Some y \<Longrightarrow> \<not> (cp = k # 0 # r \<and> 0 < c)" and
      e: "(if c \<le> 0 then Some m
         else case cp of
           [] \<Rightarrow> None
         | opt # rest \<Rightarrow>
             if opt = 0 then Some m
             else if opt = 1 then L rest (c - 1) m
             else case rest of
               [] \<Rightarrow> None
             | optlen # rest' \<Rightarrow>
                 if opt = 2 \<and> optlen = 4 then
                   (case rest' of
                      hi # lo # _ \<Rightarrow> L (drop 4 cp) (c - 4) (s16 (256 * uint hi + uint lo))
                    | _ \<Rightarrow> None)
                 else L (drop (unat optlen) cp) (c - uint optlen) m) = Some y" and c: "cp = k # 0 # r \<and> 0 < c"
    then have "L (k # 0 # r) c m = Some y" using assms by simp
    from IH [OF this] c show False by simp
  qed
  then show ?thesis using assms(3) by (cases "dooptions_loop (k # 0 # r) cnt mss") auto
qed

end
