(* ===== verification/Tcp_Ack.thy ===== *)
theory Tcp_Ack
  imports Tcp_Input
begin

text \<open>
  What an acknowledgment does to the send side of a connection, and the retransmission timer.
\<close>

section \<open>Acknowledged data\<close>

text \<open>The send sequence numbers: \<open>una\<close>, \<open>nxt\<close> and \<open>max\<close> in this order.\<close>

definition snd_ok :: "tcpcb \<Rightarrow> bool" where
  "snd_ok tp \<longleftrightarrow> 0 \<le> sint (snd_nxt tp - snd_una tp) \<and> sint (snd_nxt tp - snd_una tp) \<le> sint (snd_max tp - snd_una tp)"

lemma sint32_bounds: "- 2147483648 \<le> sint (x :: 32 word)" "sint x < 2147483648"
  using sint_greater_eq [of x] sint_less [of x] by auto

lemma ack_una_ok:
  assumes "snd_ok tp" "0 < sint (ack - snd_una tp)" "sint (ack - snd_una tp) \<le> sint (snd_max tp - snd_una tp)"
  shows "snd_ok (ack_una ack tp)"
proof -
  let ?a = "ack - snd_una tp" and ?x = "snd_nxt tp - snd_una tp" and ?m = "snd_max tp - snd_una tp"
  have b: "sint ?m < 2147483648" by (rule sint32_bounds)
  have d: "sint (u - ack) = sint (u - snd_una tp) - sint ?a" if "0 \<le> sint (u - snd_una tp)" for u
  proof -
    have "u - ack = (u - snd_una tp) - ?a" by simp
    also have "\<dots> = (word_of_int (sint (u - snd_una tp) - sint ?a) :: 32 word)" by (simp add: of_int_sint)
    finally have e: "sint (u - ack) = sint (word_of_int (sint (u - snd_una tp) - sint ?a) :: 32 word)" by (rule arg_cong)
    show ?thesis unfolding e using that assms b sint32_bounds [of "u - snd_una tp"] sint32_bounds [of ?a]
      by (intro sint_of_int32) linarith+
  qed
  have "0 \<le> sint ?x" "sint ?x \<le> sint ?m" using assms(1) by (simp_all add: snd_ok_def)
  then show ?thesis using d [of "snd_nxt tp"] d [of "snd_max tp"] assms(2,3)
    by (auto simp: snd_ok_def ack_una_def SEQ_LT_def)
qed

lemma ack_timer_sel [simp]:
  "snd_una (ack_timer E a tp) = snd_una tp" "snd_nxt (ack_timer E a tp) = snd_nxt tp" "snd_max (ack_timer E a tp) = snd_max tp"
  "snd_una (ack_rtt E a tp) = snd_una tp" "snd_nxt (ack_rtt E a tp) = snd_nxt tp" "snd_max (ack_rtt E a tp) = snd_max tp"
  "snd_wnd (ack_timer E a tp) = snd_wnd tp" "snd_wnd (ack_rtt E a tp) = snd_wnd tp"
  by (simp_all add: ack_timer_def ack_rtt_def set_timer_def)

lemma sbwakeup_data: "sbwakeup sb = (sb', e) \<Longrightarrow> sb_mb sb' = sb_mb sb \<and> sb_cc sb' = sb_cc sb"
  by (auto simp: sbwakeup_def Let_def split: option.splits if_splits)

lemma sowwakeup_snd:
  fixes n :: "'a tcpnet_scheme"
  assumes "sockets n s = Some so"
  shows "\<exists>n' so'. sowwakeup s n = Some n' \<and> tcpcbs n' = tcpcbs n \<and> pool n' = pool n \<and> sockets n' = (sockets n)(s := Some so') \<and>
     sb_mb (so_snd so') = sb_mb (so_snd so) \<and> sb_cc (so_snd so') = sb_cc (so_snd so)"
  using assms sbwakeup_data [of "so_snd so"]
  by (cases "sbwakeup (so_snd so)") (auto simp: sowwakeup_def net_event_def so_put_def)

text \<open>C10: new data acknowledged.  The bytes acknowledged, and no others, leave the send buffer; what is left of
  the count is positive exactly when the acknowledgment covers more than the data, that is our FIN.  The
  send sequence numbers stay in order with \<open>snd_una\<close> at the acknowledgment, and the retransmission timer is
  off when all is acknowledged and otherwise restarted between its bounds.\<close>

theorem ack_data_drops:
  assumes "pool_ok (pool n)" "tcpcbs n t = Some tp" "sockets n s = Some so" "sb_ok (cl_dat (pool n)) (so_snd so)"
    "sb_cc (so_snd so) = int (length (sb_data (cl_dat (pool n)) (so_snd so)))" "snd_ok tp"
    "0 < sint (ack - snd_una tp)" "sint (ack - snd_una tp) \<le> sint (snd_max tp - snd_una tp)"
  shows "\<exists>r n' tp' so'. ack_data E t s ack n = Some (r, n') \<and> tcpcbs n' t = Some tp' \<and> sockets n' s = Some so' \<and>
     sb_data (cl_dat (pool n)) (so_snd so') = drop (nat (sint (ack - snd_una tp))) (sb_data (cl_dat (pool n)) (so_snd so)) \<and>
     (0 < r \<longleftrightarrow> sb_cc (so_snd so) < sint (ack - snd_una tp)) \<and> snd_una tp' = ack \<and> snd_max tp' = snd_max tp \<and> snd_ok tp' \<and>
     (if ack = snd_max tp then t_timer tp' TCPT_REXMT = 0 else 2 \<le> t_timer tp' TCPT_REXMT \<and> t_timer tp' TCPT_REXMT \<le> 60)"
proof -
  let ?cl = "cl_dat (pool n)" and ?D = "sb_data (cl_dat (pool n)) (so_snd so)"
  let ?a = "sint (ack - snd_una tp)" and ?cc = "sb_cc (so_snd so)"
  define len where "len = (if ?a > ?cc then ?cc else ?a)"
  have "nat len \<le> length ?D" using assms(5) by (auto simp: len_def)
  then obtain sb p where sb: "sbdrop (so_snd so) len (pool n) = Some (sb, p)" "sb_data ?cl sb = drop (nat len) ?D"
      "sb_flags sb = sb_flags (so_snd so)" using sbdrop_step [OF assms(1,4)] by blast
  have data: "sb_data ?cl sb = drop (nat ?a) ?D" using sb(2) assms(5) by (auto simp: len_def)
  define tp2 where "tp2 = (let x = ack_timer E ack (ack_rtt E ack tp) in x\<lparr>snd_wnd := u16 (snd_wnd x - (if ?a > ?cc then sb_cc sb else ?a))\<rparr>)"
  let ?n1 = "tp_put t tp2 (so_put s (so\<lparr>so_snd := sb\<rparr>) (n\<lparr>pool := p\<rparr>))"
  have "\<exists>n2 so2. (if SB_WAIT \<in> sb_flags sb \<or> sb_sel sb \<noteq> None then sowwakeup s ?n1 else Some ?n1) = Some n2 \<and>
      tcpcbs n2 = tcpcbs ?n1 \<and> sockets n2 s = Some so2 \<and> sb_mb (so_snd so2) = sb_mb sb"
    using sowwakeup_snd [of ?n1 s "so\<lparr>so_snd := sb\<rparr>"] by (auto simp: so_put_def)
  then obtain n2 so2 where n2: "(if SB_WAIT \<in> sb_flags sb \<or> sb_sel sb \<noteq> None then sowwakeup s ?n1 else Some ?n1) = Some n2"
      "tcpcbs n2 = tcpcbs ?n1" "sockets n2 s = Some so2" "sb_mb (so_snd so2) = sb_mb sb" by blast
  have e: "ack_data E t s ack n = Some (if ?a > ?cc then ?a else 0, tp_put t (ack_una ack tp2) n2)"
  proof -
    have "tp_mod t (ack_una ack) n2 = Some (tp_put t (ack_una ack tp2) n2)" using n2(2) by (simp add: tp_mod_def)
    then show ?thesis
      by (simp only: ack_data_def Let_def assms(2,3) Option.bind.simps sb(1) [unfolded len_def] prod.case
          n2(1) [unfolded tp2_def Let_def] option.map tp2_def)
  qed
  have sel: "snd_una tp2 = snd_una tp" "snd_nxt tp2 = snd_nxt tp" "snd_max tp2 = snd_max tp"
    by (simp_all add: tp2_def Let_def)
  have ok: "snd_ok (ack_una ack tp2)" by (rule ack_una_ok) (use assms(6-8) sel in \<open>simp_all add: snd_ok_def\<close>)
  have tm: "t_timer (ack_una ack tp2) TCPT_REXMT = t_timer (ack_timer E ack (ack_rtt E ack tp)) TCPT_REXMT"
    by (simp add: ack_una_def tp2_def Let_def)
  have "if ack = snd_max tp then t_timer (ack_una ack tp2) TCPT_REXMT = 0
      else 2 \<le> t_timer (ack_una ack tp2) TCPT_REXMT \<and> t_timer (ack_una ack tp2) TCPT_REXMT \<le> 60"
    using RANGESET_range [of TCPTV_MIN TCPTV_MAX] unfolding tm by (simp add: ack_timer_def set_timer_def tcptv ack_rtt_def)
  then show ?thesis using e n2(3,4) data ok sel(3) assms(7)
    by (intro exI [of _ "if ?a > ?cc then ?a else 0"] exI [of _ "tp_put t (ack_una ack tp2) n2"] exI [of _ "ack_una ack tp2"] exI [of _ so2])
      (auto simp: ack_una_def sb_data_def)
qed

theorem ack_data_drops_witness:
  "\<exists>r n' so'. ack_data env_demo 30 4 103 (tcp_demo (tcp_demo_cb\<lparr>snd_nxt := 105, snd_max := 105\<rparr>) (tcp_demo_so [1, 2, 3, 4, 5])) = Some (r, n') \<and>
     sockets n' 4 = Some so' \<and> sb_data (cl_dat pool_demo) (so_snd so') = [4, 5] \<and> \<not> 0 < r"
proof -
  let ?tp = "tcp_demo_cb\<lparr>snd_nxt := 105, snd_max := 105\<rparr>" and ?so = "tcp_demo_so [1, 2, 3, 4, 5]"
  have o: "snd_ok ?tp" "snd_una ?tp = 100" by (simp_all add: snd_ok_def tcp_demo_cb_def)
  have l: "m_len (mdata [1, 2, 3, 4, 5]) = 5" "mbsize (mdata [1, 2, 3, 4, 5]) = 128" by (simp_all add: mdata_def mbsize_def mconst)
  have b: "sb_ok (cl_dat pool_demo) (so_snd ?so)"
    using mdata_ok [of "[1, 2, 3, 4, 5]"] l by (simp add: tcp_demo_so_def sb_ok_def s16_def)
  have d: "sb_data (cl_dat pool_demo) (so_snd ?so) = [1, 2, 3, 4, 5]" "sb_cc (so_snd ?so) = 5"
    by (simp_all add: tcp_demo_so_def sb_data_def mdata_bytes)
  show ?thesis
    using ack_data_drops [of "tcp_demo ?tp ?so" 30 ?tp 4 ?so 103 env_demo] pool_demo_ok o b d by auto
qed

section \<open>The retransmission timer\<close>



end
