(* ===== verification/Tcp_Stream.thy ===== *)
theory Tcp_Stream
  imports Tcp_Input
begin

text \<open>
  The reassembly queue delivers the stream of the peer.  The stream is a function \<open>S\<close> from positions to
  bytes; the position of a sequence number is its signed distance from a base \<open>b\<close>, such as the initial
  sequence number, and everything stays within \<open>2 ^ 30\<close> of the base.
\<close>

section \<open>Positions\<close>

definition pos :: "tcp_seq \<Rightarrow> tcp_seq \<Rightarrow> int" where
  "pos b x = sint (x - b)"

definition near :: "int \<Rightarrow> bool" where
  "near p \<longleftrightarrow> - (2 ^ 30) \<le> p \<and> p < 2 ^ 30"

lemma pos_diff: "near (pos b x) \<Longrightarrow> near (pos b y) \<Longrightarrow> sint (x - y) = pos b x - pos b y"
proof -
  assume r: "near (pos b x)" "near (pos b y)"
  have "x - y = (x - b) - (y - b)" by simp
  also have "\<dots> = (word_of_int (pos b x - pos b y) :: 32 word)" by (simp add: pos_def of_int_sint)
  finally have e: "x - y = (word_of_int (pos b x - pos b y) :: 32 word)" .
  show ?thesis unfolding e by (rule sint_of_int32) (use r in \<open>auto simp: near_def\<close>)
qed

lemma pos_add: "near (pos b x) \<Longrightarrow> near (pos b x + k) \<Longrightarrow> pos b (x + word_of_int k) = pos b x + k"
  unfolding pos_def by (intro seq_add) (auto simp: near_def)

lemma pos_eq: "near (pos b x) \<Longrightarrow> near (pos b y) \<Longrightarrow> x = y \<longleftrightarrow> pos b x = pos b y"
  using pos_diff [of b x y] by (auto simp: signed_eq_0_iff)

section \<open>Segments of the stream\<close>

definition stream :: "(int \<Rightarrow> byte) \<Rightarrow> int \<Rightarrow> int \<Rightarrow> byte list" where
  "stream S p q = map S [p..q - 1]"

lemma stream_app: "p \<le> q \<Longrightarrow> q \<le> r \<Longrightarrow> stream S p r = stream S p q @ stream S q r"
proof -
  assume "p \<le> q" "q \<le> r"
  then have "[p..r - 1] = [p..q - 1] @ [q..r - 1]"
    by (metis (no_types, opaque_lifting) diff_add_cancel upto_split1 upto_empty append_Nil append_Nil2 diff_ge_0_iff_ge
        order_le_less upto_split2 zle_diff1_eq less_irrefl not_less)
  then show ?thesis by (simp add: stream_def)
qed

lemma stream_empty [simp]: "stream S p p = []"
  by (simp add: stream_def)

lemma stream_drop: "0 \<le> k \<Longrightarrow> k \<le> n \<Longrightarrow> drop (nat k) (stream S p (p + n)) = stream S (p + k) (p + n)"
  using stream_app [of p "p + k" "p + n" S] by (simp add: stream_def)

definition sseg :: "(nat \<Rightarrow> byte list) \<Rightarrow> (int \<Rightarrow> byte) \<Rightarrow> tcp_seq \<Rightarrow> tcpiphdr \<Rightarrow> bool" where
  "sseg cl S b ti \<longleftrightarrow> 0 \<le> ti_len ti \<and> ti_len ti < 32768 \<and> near (pos b (ti_seq ti)) \<and> near (pos b (ti_seq ti) + ti_len ti) \<and>
     (\<forall>m \<in> set (ti_m ti). mb_ok cl m) \<and>
     chain_data cl (ti_m ti) = stream S (pos b (ti_seq ti)) (pos b (ti_seq ti) + ti_len ti)"

definition spos :: "tcp_seq \<Rightarrow> tcpiphdr \<Rightarrow> int" where "spos b ti = pos b (ti_seq ti)"
definition send :: "tcp_seq \<Rightarrow> tcpiphdr \<Rightarrow> int" where "send b ti = pos b (ti_seq ti) + ti_len ti"

text \<open>The positions a segment or a queue covers.\<close>

definition covers :: "tcp_seq \<Rightarrow> tcpiphdr \<Rightarrow> int set" where
  "covers b ti = {spos b ti..<send b ti}"

definition cov :: "tcp_seq \<Rightarrow> tcpiphdr list \<Rightarrow> int set" where
  "cov b q = (\<Union>ti \<in> set q. covers b ti)"

lemma cov_simps [simp]: "cov b [] = {}" "cov b (ti # q) = covers b ti \<union> cov b q" "cov b (xs @ ys) = cov b xs \<union> cov b ys"
  by (auto simp: cov_def)

text \<open>The queue: segments of the stream, in order and without overlap.\<close>

definition squeue :: "(nat \<Rightarrow> byte list) \<Rightarrow> (int \<Rightarrow> byte) \<Rightarrow> tcp_seq \<Rightarrow> tcpiphdr list \<Rightarrow> bool" where
  "squeue cl S b q \<longleftrightarrow> (\<forall>ti \<in> set q. sseg cl S b ti) \<and> sorted_wrt (\<lambda>x y. send b x \<le> spos b y) q"

lemma sseg_end: "sseg cl S b ti \<Longrightarrow> pos b (seg_end ti) = send b ti \<and> near (send b ti) \<and> near (spos b ti) \<and> spos b ti \<le> send b ti"
  by (simp add: sseg_def seg_end_def send_def spos_def pos_add)

lemma m_adj_head_ok: "\<forall>m \<in> set ms. mb_ok cl m \<Longrightarrow> 0 \<le> len \<Longrightarrow> \<forall>m \<in> set (m_adj_head len ms). mb_ok cl m"
proof (induction ms arbitrary: len)
  case (Cons m ms)
  have ok: "mb_ok cl m" using Cons.prems by simp
  then have e: "mb_ok cl (m\<lparr>m_len := 0\<rparr>)" by (cases "m_off m") (auto simp: mb_ok_def)
  have "\<forall>x \<in> set (m_adj_head (len - m_len m) ms). mb_ok cl x" if "m_len m \<le> len"
    using Cons.IH [of "len - m_len m"] Cons.prems that by simp
  then show ?case using Cons.prems e mbytes_skip(2) [OF ok] mb_ok_len [OF ok] by auto
qed simp

lemma trim_front_sseg:
  assumes "sseg cl S b ti" "0 \<le> i" "i \<le> ti_len ti"
  shows "sseg cl S b (trim_front i ti)" "spos b (trim_front i ti) = spos b ti + i" "send b (trim_front i ti) = send b ti"
proof -
  have r: "near (pos b (ti_seq ti) + i)" using assms by (auto simp: sseg_def near_def)
  have p: "pos b (ti_seq ti + word_of_int i) = pos b (ti_seq ti) + i" using assms(1) r by (intro pos_add) (auto simp: sseg_def)
  have w: "s16 (ti_len ti - i) = ti_len ti - i" using assms by (simp add: sseg_def cint)
  have "m_adj (ti_m ti) i = m_adj_head i (ti_m ti)" using assms(2) by (cases "ti_m ti") (simp_all add: m_adj_def)
  then have d: "chain_data cl (m_adj (ti_m ti) i) = stream S (pos b (ti_seq ti) + i) (pos b (ti_seq ti) + ti_len ti)"
    "\<forall>m \<in> set (m_adj (ti_m ti) i). mb_ok cl m"
    using assms m_adj_head_data [of "ti_m ti" cl i] m_adj_head_ok [of "ti_m ti" cl i] by (auto simp: sseg_def stream_drop)
  show "sseg cl S b (trim_front i ti)" using assms d r p w by (simp add: sseg_def trim_front_def)
  show "spos b (trim_front i ti) = spos b ti + i" "send b (trim_front i ti) = send b ti"
    using p w by (simp_all add: spos_def send_def trim_front_def)
qed

section \<open>Insertion\<close>

lemma reass_next_spec:
  assumes "sseg cl S b ti" "squeue cl S b qs" "\<forall>q \<in> set qs. spos b ti \<le> spos b q" "reass_next ti qs = (r, d)"
  shows "squeue cl S b r \<and> (\<forall>q \<in> set r. send b ti \<le> spos b q) \<and>
     covers b ti \<union> cov b r = covers b ti \<union> cov b qs \<and> (\<forall>q \<in> set d. sseg cl S b q)"
  using assms(2-4)
proof (induction qs arbitrary: r d)
  case (Cons q qs)
  have q: "sseg cl S b q" "\<forall>x \<in> set qs. send b q \<le> spos b x" "squeue cl S b qs" using Cons.prems(1) by (auto simp: squeue_def)
  have i: "sint (seg_end ti - ti_seq q) = send b ti - spos b q"
    using pos_diff [of b "seg_end ti" "ti_seq q"] sseg_end [OF assms(1)] sseg_end [OF q(1)] by (simp add: spos_def)
  have e: "spos b q \<le> send b q" "send b q = spos b q + ti_len q" using sseg_end [OF q(1)] by (auto simp: spos_def send_def)
  show ?case
  proof (cases "send b ti \<le> spos b q")
    case True
    then have "r = q # qs" "d = []" using Cons.prems(3) i by auto
    then show ?thesis using Cons.prems(1) q(2) True e by force
  next
    case gt: False
    show ?thesis
    proof (cases "send b ti - spos b q < ti_len q")
      case True
      let ?i = "send b ti - spos b q"
      have rd: "r = trim_front ?i q # qs" "d = []" using Cons.prems(3) i gt True by auto
      have t: "sseg cl S b (trim_front ?i q)" "spos b (trim_front ?i q) = send b ti" "send b (trim_front ?i q) = send b q"
        using trim_front_sseg [OF q(1), of ?i] gt True by auto
      have "covers b ti \<union> covers b (trim_front ?i q) = covers b ti \<union> covers b q"
        using t(2,3) gt Cons.prems(2) True e by (auto simp: covers_def)
      then show ?thesis using rd t q gt True e by (force simp: squeue_def)
    next
      case False
      obtain r' d' where r': "reass_next ti qs = (r', d')" by fastforce
      then have rd: "r = r'" "d = q # d'" using Cons.prems(3) i gt False by auto
      have "covers b q \<subseteq> covers b ti" using False e gt Cons.prems(2) by (auto simp: covers_def)
      then show ?thesis using Cons.IH [OF q(3) _ r'] Cons.prems(2) rd q(1) by auto
    qed
  qed
qed auto

lemma reass_insert_spec:
  assumes "squeue cl S b q" "sseg cl S b ti"
  shows "case reass_insert q ti of
      None \<Rightarrow> covers b ti \<subseteq> cov b q
    | Some (q', d) \<Rightarrow> squeue cl S b q' \<and> cov b q' = cov b q \<union> covers b ti \<and> (\<forall>x \<in> set d. sseg cl S b x) \<and>
        (\<forall>x \<in> set q'. \<exists>y \<in> insert ti (set q). spos b y \<le> spos b x)"
proof -
  let ?P = "\<lambda>x. \<not> SEQ_GT (ti_seq x) (ti_seq ti)"
  define pre post where "pre = takeWhile ?P q" and "post = dropWhile ?P q"
  have q: "q = pre @ post" by (simp add: pre_def post_def)
  have ss: "sseg cl S b x" if "x \<in> set q" for x using assms(1) that by (simp add: squeue_def)
  have gt: "SEQ_GT (ti_seq x) (ti_seq ti) \<longleftrightarrow> spos b x > spos b ti" if "x \<in> set q" for x
    using pos_diff [of b "ti_seq x" "ti_seq ti"] sseg_end [OF ss [OF that]] sseg_end [OF assms(2)]
    by (simp add: SEQ_GT_def spos_def)
  have pre: "squeue cl S b pre" "squeue cl S b post" "\<forall>x \<in> set pre. \<forall>y \<in> set post. send b x \<le> spos b y"
    using assms(1) unfolding q by (auto simp: squeue_def sorted_wrt_append)
  have prele: "spos b x \<le> spos b ti" if "x \<in> set pre" for x
    using that gt [of x] unfolding pre_def by (auto dest: set_takeWhileD)
  have postgt: "spos b ti < spos b x" if "x \<in> set post" for x
  proof -
    from that obtain y ys where post: "post = y # ys" by (cases post) auto
    have y: "y \<in> set q" using q post by simp
    have "SEQ_GT (ti_seq y) (ti_seq ti)" using hd_dropWhile [of ?P q] post unfolding post_def by auto
    then have "spos b ti < spos b y" using gt [OF y] by simp
    moreover have "x = y \<or> send b y \<le> spos b x" using pre(2) that post by (auto simp: squeue_def)
    ultimately show ?thesis using sseg_end [OF ss [OF y]] by auto
  qed
  have covle: "covers b ti \<subseteq> cov b q" if "pre \<noteq> []" "send b ti \<le> send b (last pre)"
  proof -
    have l: "last pre \<in> set pre" using that(1) by simp
    then have "covers b ti \<subseteq> covers b (last pre)" using prele [OF l] that(2) by (auto simp: covers_def)
    then show ?thesis using l q by (auto simp: cov_def)
  qed
  have ends: "send b x \<le> send b (last pre)" if "x \<in> set pre" for x
  proof -
    have "x = last pre \<or> send b x \<le> spos b (last pre)"
      using that pre(1) by (cases pre rule: rev_cases) (auto simp: squeue_def sorted_wrt_append)
    moreover have "last pre \<in> set q" using that q by (cases pre rule: rev_cases) auto
    ultimately show ?thesis using sseg_end [OF ss] by fastforce
  qed
  have i: "sint (seg_end (last pre) - ti_seq ti) = send b (last pre) - spos b ti" if "pre \<noteq> []"
  proof -
    have "last pre \<in> set q" using that q by (cases pre rule: rev_cases) auto
    then show ?thesis using pos_diff [of b "seg_end (last pre)" "ti_seq ti"] sseg_end [OF ss] sseg_end [OF assms(2)]
      by (simp add: spos_def)
  qed
  have len: "send b ti = spos b ti + ti_len ti" by (simp add: spos_def send_def)
  show ?thesis
  proof (cases "reass_prev pre ti")
    case None
    then have "pre \<noteq> []" "send b (last pre) - spos b ti \<ge> ti_len ti" using i by (auto simp: reass_prev_def Let_def split: if_splits)
    then have "covers b ti \<subseteq> cov b q" using covle len by simp
    then show ?thesis using None by (simp add: reass_insert_def pre_def Let_def)
  next
    case (Some ti')
    have t: "sseg cl S b ti' \<and> spos b ti \<le> spos b ti' \<and> send b ti' = send b ti \<and> (\<forall>x \<in> set pre. send b x \<le> spos b ti') \<and>
        (\<forall>x \<in> set post. spos b ti' \<le> spos b x) \<and> (\<forall>k. spos b ti \<le> k \<longrightarrow> k < spos b ti' \<longrightarrow> k \<in> cov b q)"
    proof (cases "pre = [] \<or> send b (last pre) - spos b ti \<le> 0")
      case True
      then have "ti' = ti" using Some i by (cases "pre = []") (simp_all add: reass_prev_def Let_def)
      then show ?thesis using True assms(2) ends postgt by (cases "pre = []") (force simp: less_imp_le)+
    next
      case False
      let ?i = "send b (last pre) - spos b ti"
      have ti': "ti' = trim_front ?i ti" "?i < ti_len ti" using False Some i by (auto simp: reass_prev_def Let_def split: if_splits)
      note tf = trim_front_sseg [OF assms(2), of ?i]
      have l: "last pre \<in> set pre" using False by auto
      have "covers b (last pre) \<subseteq> cov b q" using l q by (auto simp: cov_def)
      then have "\<forall>k. spos b ti \<le> k \<longrightarrow> k < send b (last pre) \<longrightarrow> k \<in> cov b q"
        using prele [OF l] by (auto simp: covers_def)
      then show ?thesis using tf ti' False ends pre(3) l by auto
    qed
    obtain r d where r: "reass_next ti' post = (r, d)" by fastforce
    have n: "squeue cl S b r" "\<forall>x \<in> set r. send b ti' \<le> spos b x" "covers b ti' \<union> cov b r = covers b ti' \<union> cov b post"
        "\<forall>x \<in> set d. sseg cl S b x"
      using reass_next_spec [OF _ pre(2) _ r, of] t by auto
    have res: "reass_insert q ti = Some (pre @ ti' # r, d)"
      using Some r by (simp add: reass_insert_def pre_def post_def Let_def)
    have "squeue cl S b (pre @ ti' # r)"
      using pre(1) n(1,2) t sseg_end [of cl S b ti'] by (fastforce simp: squeue_def sorted_wrt_append)
    moreover have "cov b (pre @ ti' # r) = cov b q \<union> covers b ti"
    proof -
      have "cov b (pre @ ti' # r) = cov b pre \<union> (covers b ti' \<union> cov b post)" using n(3) by auto
      also have "\<dots> = cov b q \<union> covers b ti'" using q by auto
      also have "\<dots> = cov b q \<union> covers b ti" using t by (force simp: covers_def)
      finally show ?thesis .
    qed
    moreover have "\<exists>y \<in> insert ti (set q). spos b y \<le> spos b x" if "x \<in> set (pre @ ti' # r)" for x
    proof -
      have "x \<in> set pre \<or> spos b ti \<le> spos b x"
        using that t n(2) sseg_end [of cl S b ti'] by fastforce
      then show ?thesis using q by auto
    qed
    ultimately show ?thesis using res n(4) by simp
  qed
qed

section \<open>Delivery\<close>

lemma reass_ready_spec:
  assumes "squeue cl S b q" "near (pos b nxt)" "\<forall>x \<in> set q. pos b nxt \<le> spos b x" "reass_ready nxt q = (r, q', nxt')"
  shows "q = r @ q' \<and> concat (map (\<lambda>x. chain_data cl (ti_m x)) r) = stream S (pos b nxt) (pos b nxt') \<and>
    pos b nxt \<le> pos b nxt' \<and> near (pos b nxt') \<and> (\<forall>x \<in> set q'. pos b nxt' < spos b x)"
  using assms
proof (induction nxt q arbitrary: r q' nxt' rule: reass_ready.induct)
  case (2 nxt ti q)
  have ti: "sseg cl S b ti" "squeue cl S b q" "\<forall>x \<in> set q. send b ti \<le> spos b x" using 2(2) by (auto simp: squeue_def)
  note e = sseg_end [OF ti(1)]
  show ?case
  proof (cases "ti_seq ti = nxt")
    case True
    have p: "pos b (nxt + word_of_int (ti_len ti)) = send b ti" using e True by (simp add: seg_end_def)
    obtain r1 where r1: "reass_ready (nxt + word_of_int (ti_len ti)) q = (r1, q', nxt')" "r = ti # r1"
      using 2(5) True by (auto simp: Let_def split: prod.splits)
    have IH: "q = r1 @ q'" "concat (map (\<lambda>x. chain_data cl (ti_m x)) r1) = stream S (send b ti) (pos b nxt')"
      "send b ti \<le> pos b nxt'" "near (pos b nxt')" "\<forall>x \<in> set q'. pos b nxt' < spos b x"
      using 2(1) [OF True ti(2) _ _ r1(1)] e ti(3) unfolding p by auto
    have "chain_data cl (ti_m ti) = stream S (pos b nxt) (send b ti)" using ti(1) True by (simp add: sseg_def send_def)
    moreover have "pos b nxt \<le> send b ti" using e True by (simp add: spos_def)
    ultimately show ?thesis using IH r1(2) stream_app [of "pos b nxt" "send b ti" "pos b nxt'" S] by simp
  next
    case False
    then have "r = []" "q' = ti # q" "nxt' = nxt" using 2(5) by auto
    moreover have "pos b nxt < spos b ti"
      using False pos_eq [of b "ti_seq ti" nxt] 2(3,4) e by (fastforce simp: spos_def order_le_less)
    moreover have "pos b nxt < spos b x" if "x \<in> set q" for x using that ti(3) e \<open>pos b nxt < spos b ti\<close> by force
    ultimately show ?thesis using 2(3) by auto
  qed
qed auto

lemma reass_ready_ends:
  assumes "squeue cl S b q" "near (pos b nxt)" "\<forall>x \<in> set q. pos b nxt \<le> spos b x" "reass_ready nxt q = (r, q', nxt')"
  shows "\<forall>x \<in> set r. send b x \<le> pos b nxt'"
  using assms
proof (induction nxt q arbitrary: r q' nxt' rule: reass_ready.induct)
  case (2 nxt ti q)
  have ti: "sseg cl S b ti" "squeue cl S b q" "\<forall>x \<in> set q. send b ti \<le> spos b x" using 2(2) by (auto simp: squeue_def)
  show ?case
  proof (cases "ti_seq ti = nxt")
    case True
    have p: "pos b (nxt + word_of_int (ti_len ti)) = send b ti" "near (send b ti)"
      using sseg_end [OF ti(1)] True by (auto simp: seg_end_def)
    obtain r1 where r1: "reass_ready (nxt + word_of_int (ti_len ti)) q = (r1, q', nxt')" "r = ti # r1"
      using 2(5) True by (auto simp: Let_def split: prod.splits)
    have "\<forall>x \<in> set r1. send b x \<le> pos b nxt'" using 2(1) [OF True ti(2) _ _ r1(1)] p ti(3) by auto
    moreover have "send b ti \<le> pos b nxt'" using reass_ready_spec [OF ti(2) _ _ r1(1)] p ti(3) by auto
    ultimately show ?thesis using r1(2) by simp
  qed (use 2(5) in auto)
qed auto

lemma deliver_spec:
  "pool_ok p \<Longrightarrow> sb_ok (cl_dat p) sb \<Longrightarrow> \<forall>ti \<in> set r. \<forall>m \<in> set (ti_m ti). mb_ok (cl_dat p) m \<Longrightarrow>
   \<exists>sb' p'. deliver False r sb p = Some (sb', p') \<and> pool_step p p' \<and> sb_ok (cl_dat p) sb' \<and>
     sb_data (cl_dat p) sb' = sb_data (cl_dat p) sb @ concat (map (\<lambda>x. chain_data (cl_dat p) (ti_m x)) r)"
proof (induction r arbitrary: sb p)
  case Nil
  then show ?case using pool_step_refl by auto
next
  case (Cons ti r)
  obtain sb1 p1 where 1: "sbappend sb (ti_m ti) p = Some (sb1, p1)" "pool_step p p1" "sb_ok (cl_dat p) sb1"
      "sb_data (cl_dat p) sb1 = sb_data (cl_dat p) sb @ chain_data (cl_dat p) (ti_m ti)"
    using sbappend_step [OF Cons.prems(1,2), of "ti_m ti"] Cons.prems(3) by auto
  have p1: "pool_ok p1" "cl_dat p1 = cl_dat p" using 1(2) by (simp_all add: pool_step_def)
  obtain sb2 p2 where 2: "deliver False r sb1 p1 = Some (sb2, p2)" "pool_step p1 p2" "sb_ok (cl_dat p1) sb2"
      "sb_data (cl_dat p1) sb2 = sb_data (cl_dat p1) sb1 @ concat (map (\<lambda>x. chain_data (cl_dat p1) (ti_m x)) r)"
    using Cons.IH [of p1 sb1] p1 1(3) Cons.prems(3) by auto
  show ?case using 1 2 p1 pool_step_trans [OF 1(2) 2(2)] by auto
qed

lemma free_segs_spec:
  "pool_ok p \<Longrightarrow> \<forall>ti \<in> set d. \<forall>m \<in> set (ti_m ti). mb_ok (cl_dat p) m \<Longrightarrow> \<exists>p'. free_segs d p = Some p' \<and> pool_step p p'"
proof (induction d arbitrary: p)
  case Nil
  then show ?case using pool_step_refl by auto
next
  case (Cons ti d)
  obtain p1 where 1: "m_freem (ti_m ti) p = Some p1" "pool_step p p1"
    using m_freem_step [OF Cons.prems(1), of "ti_m ti"] Cons.prems(2) by (auto simp: mb_ok_def)
  then obtain p2 where "free_segs d p1 = Some p2" "pool_step p1 p2"
    using Cons.IH [of p1] Cons.prems(2) by (auto simp: pool_step_def)
  then show ?case using 1 pool_step_trans by fastforce
qed

lemma sorwakeup_sel:
  fixes n :: "'a tcpnet_scheme"
  assumes "sockets n s = Some so"
  shows "\<exists>n' so'. sorwakeup s n = Some n' \<and> sockets n' = (sockets n)(s := Some so') \<and> pool n' = pool n \<and> tcpcbs n' = tcpcbs n \<and>
    inpcbs n' = inpcbs n \<and> sb_data cl (so_rcv so') = sb_data cl (so_rcv so) \<and> so_state so' = so_state so"
  using assms
  by (auto simp: sorwakeup_def net_event_def so_put_def sbwakeup_def sb_data_def Let_def split: prod.splits option.splits if_splits)

text \<open>What the queue and the buffer hold after the segments that are next in sequence went to the user.\<close>

lemma reass_present_spec:
  fixes n :: "'a tcpnet_scheme"
  assumes "tcpcbs n t = Some tp" "tp_socket t n = Some s" "sockets n s = Some so" "pool_ok (pool n)"
    "sb_ok (cl_dat (pool n)) (so_rcv so)" "t_state tp \<ge> TCPS_ESTABLISHED" "SS_CANTRCVMORE \<notin> so_state so"
    "squeue (cl_dat (pool n)) S b (seg_q tp)" "near (pos b (rcv_nxt tp))" "\<forall>x \<in> set (seg_q tp). pos b (rcv_nxt tp) \<le> spos b x"
  shows "\<exists>fin n' tp' so'. reass_present t n = Some (fin, n') \<and> tcpcbs n' t = Some tp' \<and> sockets n' s = Some so' \<and>
     pos b (rcv_nxt tp) \<le> pos b (rcv_nxt tp') \<and>
     sb_data (cl_dat (pool n)) (so_rcv so') =
       sb_data (cl_dat (pool n)) (so_rcv so) @ stream S (pos b (rcv_nxt tp)) (pos b (rcv_nxt tp')) \<and>
     squeue (cl_dat (pool n)) S b (seg_q tp') \<and> (\<forall>x \<in> set (seg_q tp'). pos b (rcv_nxt tp') < spos b x) \<and>
     cov b (seg_q tp') \<union> {pos b (rcv_nxt tp)..<pos b (rcv_nxt tp')} = cov b (seg_q tp) \<union> {pos b (rcv_nxt tp)..<pos b (rcv_nxt tp')}"
proof -
  let ?cl = "cl_dat (pool n)" and ?p = "pos b (rcv_nxt tp)"
  have st: "TCPS_HAVERCVDSYN (t_state tp)" "t_state tp \<noteq> TCPS_SYN_RECEIVED"
    using assms(6) by (auto simp: TCPS_HAVERCVDSYN_def less_eq_tcps_def)
  show ?thesis
  proof (cases "seg_q tp = [] \<or> ti_seq (hd (seg_q tp)) \<noteq> rcv_nxt tp")
    case True
    have "?p < spos b x" if x: "x \<in> set (seg_q tp)" for x
    proof -
      obtain y ys where q: "seg_q tp = y # ys" using x by (cases "seg_q tp") auto
      have y: "sseg ?cl S b y" using assms(8) q by (simp add: squeue_def)
      have "?p \<noteq> spos b y" using True q pos_eq [of b "ti_seq y" "rcv_nxt tp"] assms(9) y by (auto simp: spos_def sseg_def)
      then have "?p < spos b y" using assms(10) q by force
      moreover have "x = y \<or> send b y \<le> spos b x" using x q assms(8) by (auto simp: squeue_def)
      ultimately show ?thesis using sseg_end [OF y] by auto
    qed
    then show ?thesis using assms st True by (intro exI [of _ False] exI [of _ n] exI [of _ tp] exI [of _ so]) (auto simp: reass_present_def)
  next
    case False
    obtain r q' nxt' where r: "reass_ready (rcv_nxt tp) (seg_q tp) = (r, q', nxt')" by (metis prod_cases3)
    note rr = reass_ready_spec [OF assms(8-10) r]
    have "\<forall>ti \<in> set r. \<forall>m \<in> set (ti_m ti). mb_ok ?cl m" using rr assms(8) by (auto simp: squeue_def sseg_def)
    then obtain sb p where d: "deliver False r (so_rcv so) (pool n) = Some (sb, p)" "pool_step (pool n) p" "sb_ok ?cl sb"
        "sb_data ?cl sb = sb_data ?cl (so_rcv so) @ concat (map (\<lambda>x. chain_data ?cl (ti_m x)) r)"
      using deliver_spec [OF assms(4,5)] by blast
    let ?n = "tp_put t (tp\<lparr>seg_q := q', rcv_nxt := nxt'\<rparr>) (so_put s (so\<lparr>so_rcv := sb\<rparr>) (n\<lparr>pool := p\<rparr>))"
    have "sockets ?n s = Some (so\<lparr>so_rcv := sb\<rparr>)" by (simp add: so_put_def)
    then obtain n' so' where w: "sorwakeup s ?n = Some n'" "sockets n' = (sockets ?n)(s := Some so')" "tcpcbs n' = tcpcbs ?n"
        "sb_data ?cl (so_rcv so') = sb_data ?cl sb"
      using sorwakeup_sel [of ?n s "so\<lparr>so_rcv := sb\<rparr>" ?cl] by auto
    have e: "reass_present t n = Some (TH_FIN \<in> ti_flags (last r), n')"
      using assms(1-3,7) st False r d(1) w(1) by (simp add: reass_present_def)
    have cv: "cov b q' \<union> {?p..<pos b nxt'} = cov b (seg_q tp) \<union> {?p..<pos b nxt'}"
    proof -
      have "covers b x \<subseteq> {?p..<pos b nxt'}" if "x \<in> set r" for x
      proof -
        have "send b x \<le> pos b nxt'" using reass_ready_ends [OF assms(8-10) r] that by blast
        then show ?thesis using that rr assms(10) by (auto simp: covers_def)
      qed
      then have "cov b r \<subseteq> {?p..<pos b nxt'}" by (auto simp: cov_def)
      then show ?thesis using rr by auto
    qed
    have "squeue ?cl S b q'" using assms(8) rr by (auto simp: squeue_def sorted_wrt_append)
    then show ?thesis
      using e w rr d(4) cv
      by (intro exI [of _ "TH_FIN \<in> ti_flags (last r)"] exI [of _ n'] exI [of _ "tp\<lparr>seg_q := q', rcv_nxt := nxt'\<rparr>"] exI [of _ so']) simp
  qed
qed

section \<open>The property\<close>

text \<open>C2: reassembly gives the user the stream of the peer.  Whatever segments of it arrive, in whatever
  order, overlapping or repeated, \<open>tcp_reass\<close> appends to the receive buffer exactly the bytes from the
  old to the new \<open>rcv_nxt\<close>; the queue keeps the rest in order without overlap, loses no byte that arrived,
  and holds nothing that could be delivered already.\<close>

theorem tcp_reass_stream:
  assumes "tcpcbs n t = Some tp" "tp_socket t n = Some s" "sockets n s = Some so" "pool_ok (pool n)"
    "sb_ok (cl_dat (pool n)) (so_rcv so)" "t_state tp \<ge> TCPS_ESTABLISHED" "SS_CANTRCVMORE \<notin> so_state so"
    "squeue (cl_dat (pool n)) S b (seg_q tp)" "near (pos b (rcv_nxt tp))" "\<forall>x \<in> set (seg_q tp). pos b (rcv_nxt tp) < spos b x"
    "sseg (cl_dat (pool n)) S b ti" "pos b (rcv_nxt tp) \<le> spos b ti"
  shows "\<exists>fin n' tp' so'. tcp_reass t (Some ti) n = Some (fin, n') \<and> tcpcbs n' t = Some tp' \<and> sockets n' s = Some so' \<and>
     pos b (rcv_nxt tp) \<le> pos b (rcv_nxt tp') \<and>
     sb_data (cl_dat (pool n)) (so_rcv so') =
       sb_data (cl_dat (pool n)) (so_rcv so) @ stream S (pos b (rcv_nxt tp)) (pos b (rcv_nxt tp')) \<and>
     squeue (cl_dat (pool n)) S b (seg_q tp') \<and> (\<forall>x \<in> set (seg_q tp'). pos b (rcv_nxt tp') < spos b x) \<and>
     cov b (seg_q tp) \<union> covers b ti \<subseteq> cov b (seg_q tp') \<union> {pos b (rcv_nxt tp)..<pos b (rcv_nxt tp')}"
proof -
  let ?cl = "cl_dat (pool n)"
  have mb: "\<forall>m \<in> set (ti_m ti). mb_ok ?cl m" using assms(11) by (simp add: sseg_def)
  note ri = reass_insert_spec [OF assms(8,11)]
  show ?thesis
  proof (cases "reass_insert (seg_q tp) ti")
    case None
    then have c: "covers b ti \<subseteq> cov b (seg_q tp)" using ri by simp
    obtain p where "m_freem (ti_m ti) (pool n) = Some p" using m_freem_step [OF assms(4), of "ti_m ti"] mb by (auto simp: mb_ok_def)
    then have "tcp_reass t (Some ti) n = Some (False, n\<lparr>pool := p\<rparr>)" using None assms(1) by (simp add: tcp_reass_def)
    then show ?thesis using assms c
      by (intro exI [of _ False] exI [of _ "n\<lparr>pool := p\<rparr>"] exI [of _ tp] exI [of _ so]) auto
  next
    case (Some qd)
    obtain q d where qd: "qd = (q, d)" by fastforce
    have i: "squeue ?cl S b q" "cov b q = cov b (seg_q tp) \<union> covers b ti" "\<forall>x \<in> set d. sseg ?cl S b x"
        "\<forall>x \<in> set q. \<exists>y \<in> insert ti (set (seg_q tp)). spos b y \<le> spos b x"
      using ri Some qd by auto
    obtain p where p: "free_segs d (pool n) = Some p" "pool_step (pool n) p"
      using free_segs_spec [OF assms(4), of d] i(3) by (auto simp: sseg_def)
    have pk: "pool_ok p" "cl_dat p = ?cl" using p(2) by (simp_all add: pool_step_def)
    let ?n = "tp_put t (tp\<lparr>seg_q := q\<rparr>) (n\<lparr>pool := p\<rparr>)"
    have e: "tcp_reass t (Some ti) n = reass_present t ?n" using Some qd assms(1) p(1) by (simp add: tcp_reass_def)
    have le: "\<forall>x \<in> set q. pos b (rcv_nxt tp) \<le> spos b x" using i(4) assms(10,12) by force
    have "tcpcbs ?n t = Some (tp\<lparr>seg_q := q\<rparr>)" "tp_socket t ?n = Some s" "sockets ?n s = Some so"
      using assms(1-3) by (auto simp: tp_socket_def)
    from reass_present_spec [OF this, of S b] pk assms(5-7,9) i(1) le
    obtain fin n' tp' so' where
      "reass_present t ?n = Some (fin, n')" "tcpcbs n' t = Some tp'" "sockets n' s = Some so'"
      "pos b (rcv_nxt tp) \<le> pos b (rcv_nxt tp')"
      "sb_data ?cl (so_rcv so') = sb_data ?cl (so_rcv so) @ stream S (pos b (rcv_nxt tp)) (pos b (rcv_nxt tp'))"
      "squeue ?cl S b (seg_q tp')" "\<forall>x \<in> set (seg_q tp'). pos b (rcv_nxt tp') < spos b x"
      "cov b (seg_q tp') \<union> {pos b (rcv_nxt tp)..<pos b (rcv_nxt tp')} = cov b q \<union> {pos b (rcv_nxt tp)..<pos b (rcv_nxt tp')}"
      by auto
    then show ?thesis unfolding e using i(2)
      by (intro exI [of _ fin] exI [of _ n'] exI [of _ tp'] exI [of _ so']) blast
  qed
qed

theorem tcp_reass_stream_witness:
  "\<exists>fin n' tp' so'. tcp_reass 30 (Some ((fst (the (t_template tcp_demo_cb)))\<lparr>ti_seq := 900, ti_len := 3, ti_m := [mdata [5, 6, 7]]\<rparr>))
       (tcp_demo tcp_demo_cb (tcp_demo_so [])) = Some (fin, n') \<and> tcpcbs n' 30 = Some tp' \<and> sockets n' 4 = Some so' \<and>
     sb_data (cl_dat pool_demo) (so_rcv so') = stream (\<lambda>k. word_of_int (k + 5)) 0 (pos 900 (rcv_nxt tp'))"
proof -
  let ?ti = "(fst (the (t_template tcp_demo_cb)))\<lparr>ti_seq := 900, ti_len := 3, ti_m := [mdata [5, 6, 7]]\<rparr>"
  let ?S = "\<lambda>k. word_of_int (k + 5) :: byte"
  have m: "mb_ok (cl_dat pool_demo) (mdata [5, 6, 7])" by (simp add: mdata_ok)
  have "[0..2] = [0, 1, 2 :: int]" by (simp add: upto.simps)
  then have st: "stream ?S 0 3 = [5, 6, 7]" by (simp add: stream_def)
  have seg: "sseg (cl_dat pool_demo) ?S 900 ?ti" using m st by (simp add: sseg_def pos_def near_def mdata_bytes)
  have tp: "rcv_nxt tcp_demo_cb = 900" "seg_q tcp_demo_cb = []" "t_state tcp_demo_cb = TCPS_ESTABLISHED"
    by (simp_all add: tcp_demo_cb_def tcpcb_clear_def)
  have so: "sb_ok (cl_dat pool_demo) (so_rcv (tcp_demo_so []))" "SS_CANTRCVMORE \<notin> so_state (tcp_demo_so [])"
     "sb_data (cl_dat pool_demo) (so_rcv (tcp_demo_so [])) = []"
    by (simp_all add: tcp_demo_so_def so_demo_def sb_clear_def sb_ok_def sb_data_def)
  have "sb_data cl sb = [] @ xs \<Longrightarrow> sb_data cl sb = xs" for cl sb xs by simp
  show ?thesis
    using tcp_reass_stream [of "tcp_demo tcp_demo_cb (tcp_demo_so [])" 30 tcp_demo_cb 4 "tcp_demo_so []" ?S 900 ?ti]
      pool_demo_ok so seg tp
    by (auto simp: squeue_def near_def pos_def spos_def)
qed

end
