(* ===== verification/Tcp_Window.thy ===== *)
theory Tcp_Window
  imports Tcp_Stream
begin

text \<open>
  The window test of tcp_input.c: what of a segment survives the trimming to the receive window, in terms of
  the stream of \<open>Tcp_Stream\<close>.
\<close>

lemma m_adj_tail_ok: "\<forall>m \<in> set ms. mb_ok cl m \<Longrightarrow> \<forall>m \<in> set (m_adj_tail len ms). mb_ok cl m"
proof (induction len ms rule: m_adj_tail.induct)
  case (1 len ms)
  let ?k = "length (takeWhile (\<lambda>m. m_len m \<noteq> 0) ms)"
  show ?case
  proof (cases "len > 0 \<and> ?k > 0")
    case False
    then have "m_adj_tail len ms = ms" by (subst m_adj_tail.simps) (auto simp: Let_def)
    then show ?thesis using "1.prems" by simp
  next
    case True
    let ?n = "ms ! (?k - 1)"
    have "?k - 1 < length ms" using True length_takeWhile_le [of "\<lambda>m. m_len m \<noteq> 0" ms] by linarith
    then have n: "mb_ok cl ?n" using "1.prems" by simp
    have cut: "\<forall>m \<in> set (ms[?k - 1 := ?n\<lparr>m_len := l\<rparr>]). mb_ok cl m" if "0 \<le> l" "l \<le> m_len ?n" for l
      using "1.prems" mbytes_cut(2) [OF n, of l] that set_update_subset_insert [of ms "?k - 1"] by blast
    show ?thesis
    proof (cases "m_len ?n \<le> len")
      case le: True
      have "0 \<le> m_len ?n" using n by (simp add: mb_ok_def)
      then have c: "\<forall>m \<in> set (ms[?k - 1 := ?n\<lparr>m_len := 0\<rparr>]). mb_ok cl m" by (intro cut) auto
      have "m_adj_tail len ms = m_adj_tail (len - m_len ?n) (ms[?k - 1 := ?n\<lparr>m_len := 0\<rparr>])"
        using True le by (subst m_adj_tail.simps) (simp only: Let_def if_True if_P)
      then show ?thesis using "1.IH" [OF refl True refl le c] by simp
    next
      case False
      then have "\<forall>m \<in> set (ms[?k - 1 := ?n\<lparr>m_len := m_len ?n - len\<rparr>]). mb_ok cl m" using True by (intro cut) auto
      moreover have "m_adj_tail len ms = ms[?k - 1 := ?n\<lparr>m_len := m_len ?n - len\<rparr>]"
        using True False by (subst m_adj_tail.simps) (simp only: Let_def if_True if_False if_P)
      ultimately show ?thesis by simp
    qed
  qed
qed

lemma takeWhile_all: "\<forall>x \<in> set xs. P x \<Longrightarrow> takeWhile P xs = xs \<and> dropWhile P xs = []"
  by (simp add: takeWhile_eq_all_conv)

lemma stream_take: "p \<le> q \<Longrightarrow> q \<le> r \<Longrightarrow> take (nat (q - p)) (stream S p r) = stream S p q"
  by (subst stream_app [of p q r]) (auto simp: stream_def)

lemma stream_length: "p \<le> q \<Longrightarrow> length (stream S p q) = nat (q - p)"
  by (simp add: stream_def)

lemma trim_tail_sseg:
  assumes "sseg cl S b ti" "0 < i" "i < ti_len ti" "\<forall>m \<in> set (ti_m ti). m_len m \<noteq> 0"
  shows "sseg cl S b (trim_tail i F ti)"
proof -
  let ?p = "pos b (ti_seq ti)"
  have ok: "\<forall>m \<in> set (ti_m ti). mb_ok cl m" using assms(1) by (simp add: sseg_def)
  have c: "chain_data cl (ti_m ti) = stream S ?p (?p + ti_len ti)" using assms(1) by (simp add: sseg_def)
  have "m_adj (ti_m ti) (- i) = m_adj_tail i (ti_m ti)" using assms(2) c assms(3)
    by (cases "ti_m ti") (auto simp: m_adj_def m_adj_tail.simps [of _ "[]"])
  moreover have "chain_data cl (m_adj_tail i (ti_m ti)) = stream S ?p (?p + (ti_len ti - i))"
    using m_adj_tail_data [OF ok, of i] takeWhile_all [OF assms(4)] c assms(2,3)
      stream_take [of ?p "?p + (ti_len ti - i)" "?p + ti_len ti" S]
    by (simp add: stream_length nat_diff_distrib)
  ultimately have "chain_data cl (m_adj (ti_m ti) (- i)) = stream S ?p (?p + (ti_len ti - i))"
      "\<forall>m \<in> set (m_adj (ti_m ti) (- i)). mb_ok cl m"
    using m_adj_tail_ok [OF ok] by auto
  moreover have "s16 (ti_len ti - i) = ti_len ti - i" using assms by (simp add: sseg_def cint)
  moreover have "near (?p + (ti_len ti - i))" using assms by (auto simp: sseg_def near_def)
  ultimately show ?thesis using assms by (simp add: sseg_def trim_tail_def)
qed

text \<open>An empty first mbuf, such as the one whose header has been taken off, keeps the tail from being cut.\<close>

lemma trim_tail_empty:
  assumes "ti_m ti = m # ms" "m_len m = 0" "0 < i"
  shows "ti_m (trim_tail i F ti) = ti_m ti"
  using assms by (simp add: trim_tail_def m_adj_def) (subst m_adj_tail.simps, simp)

lemma trim_span:
  assumes "0 \<le> ti_len ti" "ti_len ti < 32768" "0 < i" "i < ti_len ti"
  shows "spos b (trim_tail i F ti) = spos b ti" "send b (trim_tail i F ti) = send b ti - i"
  using assms by (simp_all add: spos_def send_def trim_tail_def cint)

section \<open>The trimmed segment\<close>

lemma in_front_spec:
  assumes "sseg cl S b ti" "TH_SYN \<notin> fl" "near (pos b nxt)" "in_front nxt ti fl = (lb, ti', fl')"
  shows "lb = L_next \<or> lb = L_dropafterack"
    "lb = L_dropafterack \<Longrightarrow> send b ti \<le> pos b nxt"
    "lb = L_next \<Longrightarrow> sseg cl S b ti' \<and> spos b ti' = max (spos b ti) (pos b nxt) \<and> send b ti' = send b ti \<and>
       (pos b nxt \<le> spos b ti \<longrightarrow> ti' = ti)"
proof -
  let ?d = "sint (nxt - ti_seq ti)"
  have d: "?d = pos b nxt - spos b ti" using pos_diff [of b nxt "ti_seq ti"] assms(1,3) by (simp add: sseg_def spos_def)
  have cong: "sseg cl S b (x\<lparr>ti_urp := u\<rparr>) = sseg cl S b x" "sseg cl S b (x\<lparr>ti_flags := f\<rparr>) = sseg cl S b x"
     "spos b (x\<lparr>ti_urp := u\<rparr>) = spos b x" "spos b (x\<lparr>ti_flags := f\<rparr>) = spos b x"
     "send b (x\<lparr>ti_urp := u\<rparr>) = send b x" "send b (x\<lparr>ti_flags := f\<rparr>) = send b x" for x f u
    by (simp_all add: sseg_def spos_def send_def)
  have "(lb = L_next \<or> lb = L_dropafterack) \<and> (lb = L_dropafterack \<longrightarrow> send b ti \<le> pos b nxt) \<and>
    (lb = L_next \<longrightarrow> sseg cl S b ti' \<and> spos b ti' = max (spos b ti) (pos b nxt) \<and> send b ti' = send b ti \<and>
       (pos b nxt \<le> spos b ti \<longrightarrow> ti' = ti))"
  proof (cases "?d > 0")
    case False
    then show ?thesis using assms d by (auto simp: in_front_def)
  next
    case True
    show ?thesis
    proof (cases "?d > ti_len ti \<or> ?d = ti_len ti \<and> TH_FIN \<notin> fl")
      case out: True
      then have "lb = L_dropafterack" using assms(2,4) True by (auto simp: in_front_def Let_def)
      then show ?thesis using out d by (auto simp: send_def spos_def)
    next
      case False
      then have le: "0 \<le> ?d" "?d \<le> ti_len ti" using True by auto
      have "lb = L_next \<and> (ti' = (trim_front ?d ti)\<lparr>ti_urp := ti_urp (trim_front ?d ti) - ?d\<rparr> \<or>
           ti' = (trim_front ?d ti)\<lparr>ti_flags := ti_flags (trim_front ?d ti) - {TH_URG}, ti_urp := 0\<rparr>)"
        using assms(2,4) True False by (auto simp: in_front_def Let_def split: if_splits)
      then show ?thesis using trim_front_sseg [OF assms(1) le] d True by (auto simp: cong)
    qed
  qed
  then show "lb = L_next \<or> lb = L_dropafterack"
    "lb = L_dropafterack \<Longrightarrow> send b ti \<le> pos b nxt"
    "lb = L_next \<Longrightarrow> sseg cl S b ti' \<and> spos b ti' = max (spos b ti) (pos b nxt) \<and> send b ti' = send b ti \<and>
       (pos b nxt \<le> spos b ti \<longrightarrow> ti' = ti)"
    by auto
qed

lemma in_back_spec:
  assumes "sseg cl S b ti" "near (pos b (rcv_nxt tp))" "near (pos b (rcv_nxt tp) + rcv_wnd tp)" "in_back tp ti fl = (lb, ti', fl')"
  defines "e \<equiv> pos b (rcv_nxt tp) + rcv_wnd tp"
  shows "lb = L_next \<or> lb = L_dropafterack"
    "lb = L_dropafterack \<Longrightarrow> e \<le> spos b ti"
    "lb = L_next \<Longrightarrow> spos b ti' = spos b ti \<and> send b ti' = min (send b ti) e \<and>
       (send b ti \<le> e \<or> (\<forall>m \<in> set (ti_m ti). m_len m \<noteq> 0) \<longrightarrow> sseg cl S b ti') \<and>
       (\<forall>m ms. ti_m ti = m # ms \<and> m_len m = 0 \<longrightarrow> ti_m ti' = ti_m ti)"
proof -
  let ?d = "sint (seg_end ti - (rcv_nxt tp + word_of_int (rcv_wnd tp)))"
  note se = sseg_end [OF assms(1)]
  have "pos b (rcv_nxt tp + word_of_int (rcv_wnd tp)) = e" using pos_add [OF assms(2,3)] by (simp add: e_def)
  then have d: "?d = send b ti - e" using pos_diff [of b "seg_end ti" "rcv_nxt tp + word_of_int (rcv_wnd tp)"] se assms(3)
    by (simp add: e_def)
  have tl: "ti_len ti = send b ti - spos b ti" by (simp add: send_def spos_def)
  have "(lb = L_next \<or> lb = L_dropafterack) \<and> (lb = L_dropafterack \<longrightarrow> e \<le> spos b ti) \<and>
    (lb = L_next \<longrightarrow> spos b ti' = spos b ti \<and> send b ti' = min (send b ti) e \<and>
       (send b ti \<le> e \<or> (\<forall>m \<in> set (ti_m ti). m_len m \<noteq> 0) \<longrightarrow> sseg cl S b ti') \<and>
       (\<forall>m ms. ti_m ti = m # ms \<and> m_len m = 0 \<longrightarrow> ti_m ti' = ti_m ti))"
  proof (cases "?d > 0")
    case False
    then show ?thesis using assms(1,4) d by (auto simp: in_back_def)
  next
    case True
    show ?thesis
    proof (cases "?d \<ge> ti_len ti")
      case drop: True
      then show ?thesis using assms(4) True d tl by (auto simp: in_back_def)
    next
      case False
      have r: "0 \<le> ti_len ti" "ti_len ti < 32768" using assms(1) by (simp_all add: sseg_def)
      have "lb = L_next \<and> ti' = trim_tail ?d {TH_PUSH, TH_FIN} ti" using assms(4) True False by (auto simp: in_back_def Let_def)
      then show ?thesis
        using trim_tail_sseg [OF assms(1), of ?d "{TH_PUSH, TH_FIN}"] trim_span [OF r, of ?d b "{TH_PUSH, TH_FIN}"]
          trim_tail_empty [of ti _ _ ?d "{TH_PUSH, TH_FIN}"] True False d by auto
    qed
  qed
  then show "lb = L_next \<or> lb = L_dropafterack"
    "lb = L_dropafterack \<Longrightarrow> e \<le> spos b ti"
    "lb = L_next \<Longrightarrow> spos b ti' = spos b ti \<and> send b ti' = min (send b ti) e \<and>
       (send b ti \<le> e \<or> (\<forall>m \<in> set (ti_m ti). m_len m \<noteq> 0) \<longrightarrow> sseg cl S b ti') \<and>
       (\<forall>m ms. ti_m ti = m # ms \<and> m_len m = 0 \<longrightarrow> ti_m ti' = ti_m ti)"
    by auto
qed

text \<open>C11: trimming to the receive window.  A segment without SYN is passed on exactly with the positions it
  shares with the window, as its sequence number and length say, and is answered and dropped only when
  there are none.  Its data agree with these positions unless it sticks out of the window at the end and
  has an empty mbuf or sticks out at the front too; with an empty first mbuf nothing is cut from its data,
  so that more bytes are queued than its length says.\<close>

theorem in_window_trims:
  assumes "sseg cl S b ti" "TH_SYN \<notin> fl" "0 \<le> rcv_wnd tp" "near (pos b (rcv_nxt tp))"
    "near (pos b (rcv_nxt tp) + rcv_wnd tp)" "in_window tp ti fl = (lb, ti', fl')"
  defines "w \<equiv> {pos b (rcv_nxt tp)..<pos b (rcv_nxt tp) + rcv_wnd tp}"
  shows "lb = L_dropafterack \<and> covers b ti \<inter> w = {} \<or>
    lb = L_next \<and> covers b ti' = covers b ti \<inter> w \<and>
      (send b ti \<le> pos b (rcv_nxt tp) + rcv_wnd tp \<or> pos b (rcv_nxt tp) \<le> spos b ti \<and> (\<forall>m \<in> set (ti_m ti). m_len m \<noteq> 0)
        \<longrightarrow> sseg cl S b ti') \<and>
      (rcv_wnd tp \<noteq> 0 \<and> pos b (rcv_nxt tp) \<le> spos b ti \<and> (\<exists>m ms. ti_m ti = m # ms \<and> m_len m = 0) \<longrightarrow> ti_m ti' = ti_m ti)"
proof (cases "rcv_wnd tp = 0")
  case True
  have w: "w = {}" using True by (simp add: w_def)
  show ?thesis
  proof (cases "rcv_nxt tp = ti_seq ti")
    case False
    then show ?thesis using assms(6) True w by (simp add: in_window_def)
  next
    case eq: True
    show ?thesis
    proof (cases "ti_len ti > 0")
      case False
      then show ?thesis using assms(1,6) True eq w by (auto simp: in_window_def covers_def send_def spos_def)
    next
      case len: True
      then have ti': "lb = L_next" "ti' = ti\<lparr>ti_m := m_adj (ti_m ti) (ti_len ti), ti_len := 0, ti_flags := ti_flags ti - {TH_PUSH, TH_FIN}\<rparr>"
        using assms(6) True eq by (auto simp: in_window_def)
      have "m_adj (ti_m ti) (ti_len ti) = m_adj_head (ti_len ti) (ti_m ti)" using len by (cases "ti_m ti") (simp_all add: m_adj_def)
      moreover have "chain_data cl (m_adj_head (ti_len ti) (ti_m ti)) = []"
        using m_adj_head_data [of "ti_m ti" cl "ti_len ti"] assms(1) len by (simp add: sseg_def stream_length)
      ultimately have "sseg cl S b ti'" using assms(1) m_adj_head_ok [of "ti_m ti" cl "ti_len ti"] len ti'(2)
        by (simp add: sseg_def stream_def)
      then show ?thesis using ti' True w by (simp add: covers_def send_def spos_def)
    qed
  qed
next
  case False
  obtain lb1 ti1 fl1 where f: "in_front (rcv_nxt tp) ti fl = (lb1, ti1, fl1)" by (metis prod_cases3)
  note F = in_front_spec [OF assms(1,2,4) f]
  show ?thesis
  proof (cases "lb1 = L_next")
    case l1: False
    then have "lb1 = L_dropafterack" using F(1) by simp
    moreover then have "lb = lb1" using assms(6) False f by (simp add: in_window_def)
    ultimately show ?thesis using F(2) by (auto simp: covers_def w_def)
  next
    case True
    then have bk: "in_back tp ti1 fl1 = (lb, ti', fl')" using assms(6) False f by (simp add: in_window_def)
    note G = F(3) [OF True]
    note B = in_back_spec [OF conjunct1 [OF G] assms(4,5) bk]
    show ?thesis
    proof (cases "lb = L_next")
      case l1: False
      then have "lb = L_dropafterack" using B(1) by simp
      then show ?thesis using B(2) G by (auto simp: covers_def w_def)
    next
      case l2: True
      note H = B(3) [OF l2]
      have "covers b ti' = covers b ti \<inter> w" using G H by (auto simp: covers_def w_def)
      then show ?thesis using G H l2 by auto
    qed
  qed
qed

theorem in_window_trims_witness:
  "\<exists>ti'. in_window (tcp_demo_cb\<lparr>rcv_wnd := 2\<rparr>)
       ((fst (the (t_template tcp_demo_cb)))\<lparr>ti_seq := 900, ti_len := 3, ti_m := [mdata [5, 6, 7]]\<rparr>) {} = (L_next, ti', {}) \<and>
     covers 900 ti' = {0..<2} \<and> chain_data (cl_dat pool_demo) (ti_m ti') = [5, 6]"
proof -
  let ?ti = "(fst (the (t_template tcp_demo_cb)))\<lparr>ti_seq := 900, ti_len := 3, ti_m := [mdata [5, 6, 7]]\<rparr>"
  let ?S = "\<lambda>k. word_of_int (k + 5) :: byte" and ?tp = "tcp_demo_cb\<lparr>rcv_wnd := 2\<rparr>"
  have m: "mb_ok (cl_dat pool_demo) (mdata [5, 6, 7])" "m_len (mdata [5, 6, 7]) = 3" by (simp add: mdata_ok) (simp add: mdata_def)
  have u: "[0..2] = [0, 1, 2 :: int]" "[0..1] = [0, 1 :: int]" by (simp_all add: upto.simps)
  then have st: "stream ?S 0 3 = [5, 6, 7]" "stream ?S 0 2 = [5, 6]" by (simp_all add: stream_def)
  have seg: "sseg (cl_dat pool_demo) ?S 900 ?ti" using m st by (simp add: sseg_def pos_def near_def mdata_bytes)
  have tp: "rcv_nxt ?tp = 900" by (simp add: tcp_demo_cb_def)
  have r: "\<exists>ti'. in_window ?tp ?ti {} = (L_next, ti', {}) \<and> ti_seq ti' = 900"
    by (simp add: in_window_def tp in_front_def in_back_def seg_end_def trim_tail_def)
  then obtain ti' where w: "in_window ?tp ?ti {} = (L_next, ti', {})" "ti_seq ti' = 900" by blast
  have p: "pos 900 900 = 0" by (simp add: pos_def)
  have c: "covers 900 ti' = {0..<2}" "sseg (cl_dat pool_demo) ?S 900 ti'"
    using in_window_trims [OF seg _ _ _ _ w(1)] m tp p by (auto simp: near_def covers_def spos_def send_def)
  have "ti_len ti' = 2" using c(1) w(2) p by (cases "0 < ti_len ti'") (simp_all add: covers_def spos_def send_def atLeastLessThan_eq_iff)
  then show ?thesis using c w p st by (auto simp: sseg_def)
qed

end
