(* ===== verification/Tcp_Fsm.thy ===== *)
theory Tcp_Fsm
  imports Tcp_Input
begin

text \<open>
  The states of a connection: which of them a segment may change into which.  A frame argument shows first
  that the socket layer and the blocks below leave the control blocks alone, then what each stretch of
  \<open>tcp_input\<close> does to the state of a given block.
\<close>

section \<open>The socket layer leaves TCP alone\<close>

named_theorems net_frame \<open>operations that leave the extension of the socket state alone\<close>
named_theorems inet_frame \<open>operations that leave the extension of the internet state alone\<close>

lemma more_so_put [simp]: "net.more (so_put s x n) = net.more n"
  by (simp add: so_put_def)

lemma more_net_event [simp]: "net.more (net_event e n) = net.more n"
  by (simp add: net_event_def)

lemma more_so_mod [net_frame]: "so_mod s f n = Some n' \<Longrightarrow> net.more n' = net.more n"
  by (auto simp: so_mod_def)

lemma more_sorwakeup [net_frame]: "sorwakeup s n = Some n' \<Longrightarrow> net.more n' = net.more n"
  by (auto simp: sorwakeup_def case_prod_beta Let_def)

lemma more_sowwakeup [net_frame]: "sowwakeup s n = Some n' \<Longrightarrow> net.more n' = net.more n"
  by (auto simp: sowwakeup_def case_prod_beta Let_def)

lemma more_soqinsque [net_frame]: "soqinsque h s q n = Some n' \<Longrightarrow> net.more n' = net.more n"
  by (auto simp: soqinsque_def bind_eq_Some_conv dest!: more_so_mod)

lemma more_soqremque [net_frame]: "soqremque s q n = Some (ok, n') \<Longrightarrow> net.more n' = net.more n"
  by (auto simp: soqremque_def bind_eq_Some_conv dest!: more_so_mod split: option.splits)

lemma more_soisconnecting [net_frame]: "soisconnecting s n = Some n' \<Longrightarrow> net.more n' = net.more n"
  by (auto simp: soisconnecting_def dest!: more_so_mod)

lemma more_soisconnected [net_frame]: "soisconnected s n = Some n' \<Longrightarrow> net.more n' = net.more n"
  by (auto simp: soisconnected_def Let_def bind_eq_Some_conv
      dest!: more_so_mod more_sorwakeup more_sowwakeup more_soqinsque more_soqremque split: if_splits prod.splits)

lemma more_soisdisconnecting [net_frame]: "soisdisconnecting s n = Some n' \<Longrightarrow> net.more n' = net.more n"
  by (auto simp: soisdisconnecting_def bind_eq_Some_conv dest!: more_so_mod more_sorwakeup more_sowwakeup)

lemma more_soisdisconnected [net_frame]: "soisdisconnected s n = Some n' \<Longrightarrow> net.more n' = net.more n"
  by (auto simp: soisdisconnected_def bind_eq_Some_conv dest!: more_so_mod more_sorwakeup more_sowwakeup)

lemma more_socantrcvmore [net_frame]: "socantrcvmore s n = Some n' \<Longrightarrow> net.more n' = net.more n"
  by (auto simp: socantrcvmore_def bind_eq_Some_conv dest!: more_so_mod more_sorwakeup)

lemma more_socantsendmore [net_frame]: "socantsendmore s n = Some n' \<Longrightarrow> net.more n' = net.more n"
  by (auto simp: socantsendmore_def bind_eq_Some_conv dest!: more_so_mod more_sowwakeup)

lemma more_so_dealloc [net_frame]: "so_dealloc s n = Some n' \<Longrightarrow> net.more n' = net.more n"
  by (auto simp: so_dealloc_def bind_eq_Some_conv)

lemma more_sofree [net_frame]: "sofree s n = Some n' \<Longrightarrow> net.more n' = net.more n"
proof -
  assume f: "sofree s n = Some n'"
  then obtain s0 n3 x where n3: "sockets n s = Some s0" "(if so_head s0 = 0 then Some n
        else Option.bind (soqremque s False n) (\<lambda>(ok0, n1).
             Option.bind (if ok0 then Some (True, n1) else soqremque s True n1) (\<lambda>(ok1, n2).
             if \<not> ok1 then None else so_mod s (\<lambda>s. s\<lparr>so_head := 0\<rparr>) n2))) = Some n3"
    and x: "sockets n3 s = Some x" "(if so_pcb x \<noteq> 0 \<or> SS_NOFDREF \<notin> so_state x then Some n3
     else Option.bind (sbrelease (so_snd x) (pool n3)) (\<lambda>(snd', p1).
          Option.bind (sbrelease (so_rcv x) p1) (\<lambda>(rcv', p2).
          so_dealloc s (so_put s (x\<lparr>so_snd := snd', so_rcv := rcv'\<rparr>) (n3\<lparr>pool := p2\<rparr>))))) = Some n'"
    unfolding sofree_def by (auto simp only: bind_eq_Some_conv)
  have "net.more n3 = net.more n"
    using n3(2) by (auto simp: bind_eq_Some_conv dest!: more_soqremque more_so_mod split: if_splits)
  moreover have "net.more n' = net.more n3"
    using x(2) by (auto simp: bind_eq_Some_conv dest!: more_so_dealloc split: if_splits)
  ultimately show ?thesis by simp
qed

lemma more_so_alloc [net_frame]: "so_alloc n = Some (r, n') \<Longrightarrow> net.more n' = net.more n"
  by (auto simp: so_alloc_def split: option.splits)

lemma more_soreserve [net_frame]: "soreserve s a c n = Some (e, n') \<Longrightarrow> net.more n' = net.more n"
  by (auto simp: soreserve_def dest!: more_so_mod)

text \<open>And so do the blocks, for what TCP adds to the state.\<close>

lemma imore_net: "net.more n' = net.more n \<Longrightarrow> inet.more n' = inet.more n" for n n' :: "'a inet_scheme"
  by (cases n; cases n') simp

lemma imore_puts [simp]: "inet.more (inp_put i p n) = inet.more n" "inet.more (head_mod h f n) = inet.more n"
  "inet.more (n\<lparr>pool := q\<rparr>) = inet.more n" "inet.more (n\<lparr>nextaddr := k\<rparr>) = inet.more n"
  by (cases n; simp add: inp_put_def head_mod_def)+

lemma imore_inp_mod [inet_frame]: "inp_mod i f n = Some n' \<Longrightarrow> inet.more n' = inet.more n"
  by (auto simp: inp_mod_def)

lemma imore_in_pcballoc [inet_frame]: "in_pcballoc s h n = Some (e, n') \<Longrightarrow> inet.more n' = inet.more n"
  by (auto simp: in_pcballoc_def bind_eq_Some_conv Let_def dest!: more_so_mod [THEN imore_net] split: option.splits)

lemma imore_in_pcbbind [inet_frame]: "in_pcbbind i nam n = Some (e, n') \<Longrightarrow> inet.more n' = inet.more n"
  by (auto simp: in_pcbbind_def bind_eq_Some_conv Let_def split: option.splits if_splits sum.splits)

lemma imore_in_pcbconnect [inet_frame]: "in_pcbconnect i nam n = Some (e, n') \<Longrightarrow> inet.more n' = inet.more n"
  by (auto simp: in_pcbconnect_def bind_eq_Some_conv Let_def split: if_splits)

lemma imore_in_pcbdetach [inet_frame]: "in_pcbdetach i n = Some n' \<Longrightarrow> inet.more n' = inet.more n"
proof -
  assume d: "in_pcbdetach i n = Some n'"
  then obtain p n1 n2 q where "inpcbs n i = Some p" "so_mod (inp_socket p) (\<lambda>s. s\<lparr>so_pcb := 0\<rparr>) n = Some n1" "sofree (inp_socket p) n1 = Some n2"
      and n': "n' = (let n3 = (if inp_route p \<noteq> 0 then n2\<lparr>rtfreed := rtfreed n2 @ [inp_route p]\<rparr> else n2);
         n4 = head_mod (inp_head p) (\<lambda>h. h\<lparr>h_pcbs := remove1 i (h_pcbs h)\<rparr>) n3
       in n4\<lparr>pool := q, inpcbs := (inpcbs n4)(i := None)\<rparr>)"
    by (auto simp: in_pcbdetach_def bind_eq_Some_conv Let_def)
  then have "inet.more n2 = inet.more n" by (auto dest!: more_so_mod [THEN imore_net] more_sofree [THEN imore_net])
  then show ?thesis unfolding n' by (cases n2) (simp add: Let_def head_mod_def)
qed

lemma imore_in_pcbdisconnect [inet_frame]: "in_pcbdisconnect i n = Some n' \<Longrightarrow> inet.more n' = inet.more n"
  by (auto simp: in_pcbdisconnect_def bind_eq_Some_conv Let_def dest!: imore_in_pcbdetach split: if_splits)

lemma tcpcbs_more: "inet.more n' = inet.more n \<Longrightarrow> tcpcbs n' = tcpcbs n" for n n' :: "'a tcpnet_scheme"
  by (cases n; cases n') simp

lemma tcpcbs_net: "net.more n' = net.more n \<Longrightarrow> tcpcbs n' = tcpcbs n" for n n' :: "'a tcpnet_scheme"
  by (rule tcpcbs_more, rule imore_net)

lemmas tcp_frame = net_frame [THEN tcpcbs_net] inet_frame [THEN tcpcbs_more]

section \<open>States of control blocks\<close>

definition st_at :: "nat \<Rightarrow> 'a tcpnet_scheme \<Rightarrow> tcps option" where
  "st_at t n = map_option t_state (tcpcbs n t)"

lemma st_at_cong: "tcpcbs n' = tcpcbs n \<Longrightarrow> st_at t n' = st_at t n"
  by (simp add: st_at_def)

lemma st_at_put [simp]: "st_at t (tp_put t' tp n) = (if t = t' then Some (t_state tp) else st_at t n)"
  by (simp add: st_at_def)

lemma st_at_upd [simp]: "st_at t (n\<lparr>pool := p\<rparr>) = st_at t n" "st_at t (n\<lparr>tcp_iss := sq\<rparr>) = st_at t n"
  "st_at t (n\<lparr>ip_sent := k\<rparr>) = st_at t n" "st_at t (so_put s x n) = st_at t n" "st_at t (n\<lparr>sigurg := u\<rparr>) = st_at t n"
  "st_at t (inp_put i ip n) = st_at t n" "st_at t (n\<lparr>nextaddr := k'\<rparr>) = st_at t n"
  by (simp_all add: st_at_def so_put_def inp_put_def)

lemma st_at_mod: "tp_mod t' f n = Some n' \<Longrightarrow> (\<And>tp. t_state (f tp) = t_state tp) \<Longrightarrow> st_at t n' = st_at t n"
  by (auto simp: tp_mod_def st_at_def)

lemma st_at_set_timer [simp]: "t_state (set_timer i v tp) = t_state tp" "t_inpcb (set_timer i v tp) = t_inpcb tp"
  by (simp_all add: set_timer_def)

text \<open>
  \<open>goes A t n n'\<close>: a control block at \<open>t\<close> in \<open>n'\<close> was there in \<open>n\<close>, and its state changed along \<open>A\<close>.
\<close>

definition goes :: "(tcps \<Rightarrow> tcps \<Rightarrow> bool) \<Rightarrow> nat \<Rightarrow> 'a tcpnet_scheme \<Rightarrow> 'a tcpnet_scheme \<Rightarrow> bool" where
  "goes A t n n' \<longleftrightarrow> (\<forall>s'. st_at t n' = Some s' \<longrightarrow> (\<exists>s. st_at t n = Some s \<and> A s s'))"

abbreviation stays :: "nat \<Rightarrow> 'a tcpnet_scheme \<Rightarrow> 'a tcpnet_scheme \<Rightarrow> bool" where
  "stays \<equiv> goes (=)"

lemma goes_trans: "goes A t n m \<Longrightarrow> goes B t m n' \<Longrightarrow> goes (A OO B) t n n'"
  unfolding goes_def by blast

lemma stays_goes: "stays t n m \<Longrightarrow> goes A t m n' \<Longrightarrow> goes A t n n'"
  unfolding goes_def by blast

lemma goes_stays: "goes A t n m \<Longrightarrow> stays t m n' \<Longrightarrow> goes A t n n'"
  unfolding goes_def by blast

lemma goes_mono: "goes A t n n' \<Longrightarrow> A \<le> B \<Longrightarrow> goes B t n n'"
  unfolding goes_def by blast

lemma stays_refl [simp]: "stays t n n"
  by (simp add: goes_def)

lemma stays_eq: "st_at t n' = st_at t n \<Longrightarrow> stays t n n'"
  by (simp add: goes_def)

lemma goes_upd [simp]:
  "goes A t n (m\<lparr>pool := p\<rparr>) = goes A t n m" "goes A t (n\<lparr>pool := p\<rparr>) m = goes A t n m"
  "goes A t n (m\<lparr>tcp_iss := sq\<rparr>) = goes A t n m" "goes A t (n\<lparr>tcp_iss := sq\<rparr>) m = goes A t n m"
  "goes A t n (m\<lparr>ip_sent := k\<rparr>) = goes A t n m" "goes A t n (so_put s x m) = goes A t n m" "goes A t (so_put s x n) m = goes A t n m"
  "goes A t n (m\<lparr>sigurg := u\<rparr>) = goes A t n m"
  "goes A t n (inp_put i ip m) = goes A t n m" "goes A t (inp_put i ip n) m = goes A t n m"
  by (simp_all add: goes_def)

lemma stays_mod: "tp_mod u f n = Some n' \<Longrightarrow> (\<And>tp. t_state (f tp) = t_state tp) \<Longrightarrow> stays t n n'"
  by (rule stays_eq, rule st_at_mod)

lemma goes_tp_put [simp]:
  "goes A t n (tp_put u tp m) \<longleftrightarrow> (if t = u then \<exists>s. st_at t n = Some s \<and> A s (t_state tp) else goes A t n m)"
  by (simp add: goes_def)

lemma st_at_Some [simp]: "tcpcbs n t = Some tp \<Longrightarrow> st_at t n = Some (t_state tp)"
  by (simp add: st_at_def)

lemma stays_put1: "tcpcbs n u = Some tp0 \<Longrightarrow> t_state tp = t_state tp0 \<Longrightarrow> stays t n (tp_put u tp n)"
  by (auto simp: goes_def st_at_def)

lemma goes_put: "tcpcbs n u = Some tp0 \<Longrightarrow> (A (t_state tp0) (t_state tp)) \<Longrightarrow> reflp A \<Longrightarrow> goes A t n (tp_put u tp n)"
  by (auto simp: goes_def st_at_def reflp_def)

lemma stays_frame: "tcpcbs n' = tcpcbs n \<Longrightarrow> stays t n n'"
  by (rule stays_eq, rule st_at_cong)

lemmas tcp_stays = tcp_frame [THEN stays_frame]

section \<open>Output, responses and reassembly change no state\<close>

lemma t_state_out [simp]:
  "t_state (out_advance E len fl tp) = t_state tp" "t_state (out_drag tp) = t_state tp" "t_state (out_sent w tp) = t_state tp"
  by (simp_all add: out_advance_def out_drag_def out_sent_def Let_def set_timer_def)

lemma tcp_send_stays: "tcp_send E u s len fl n = Some (e, n') \<Longrightarrow> stays t n n'"
  by (auto simp: tcp_send_def Let_def ip_output_def bind_eq_Some_conv split: option.splits prod.splits if_splits)

lemma tcp_setpersist_state: "tcp_setpersist E tp = Some tp' \<Longrightarrow> t_state tp' = t_state tp"
  by (auto simp: tcp_setpersist_def Let_def split: if_splits)

lemma tcp_output_stays:
  fixes n n' :: "'a tcpnet_scheme"
  assumes "tcp_output E u n = Some (e, n')"
  shows "stays t n n'"
proof (rule tcp_output_induct [where P = "stays t n", OF assms])
  show "stays t n n" by simp
next
  fix m :: "'a tcpnet_scheme" and tp tp'
  assume a: "stays t n m" "tcpcbs m u = Some tp" "tcp_setpersist E (tp\<lparr>t_rxtshift := 0\<rparr>) = Some tp'"
  have "t_state tp' = t_state tp" using tcp_setpersist_state [OF a(3)] by simp
  then show "stays t n (tp_put u tp' m)" by (rule stays_goes [OF a(1) stays_put1 [OF a(2)]])
next
  fix m m1 :: "'a tcpnet_scheme" and s len fl e1 assume "stays t n m" "tcp_send E u s len fl m = Some (e1, m1)"
  then show "stays t n m1" by - (rule stays_goes, assumption, rule tcp_send_stays)
qed

lemma tcp_respond_stays:
  assumes "tcp_respond E tpo ti ack sq fl n = Some n'"
  shows "stays t n n'"
proof -
  from assms have "\<exists>p ks. n' = n\<lparr>pool := p, ip_sent := ks\<rparr> \<or> n' = n\<lparr>pool := p\<rparr>"
    unfolding tcp_respond_def ip_output_def bind_eq_Some_conv
    by (cases "fl = {}"; cases "ti_m ti") (auto simp: bind_eq_Some_conv split: option.splits)
  then show ?thesis by (elim exE disjE) simp_all
qed

lemma tcp_template_stays: "tcp_template u n = Some (r, n') \<Longrightarrow> stays t n n'"
  by (auto simp: tcp_template_def bind_eq_Some_conv)

lemma tcp_dooptions_stays: "tcp_dooptions u om n = Some n' \<Longrightarrow> stays t n n'"
  by (auto simp: tcp_dooptions_def bind_eq_Some_conv)

lemma reass_present_stays:
  assumes "reass_present u n = Some (f, n')"
  shows "stays t n n'"
proof -
  obtain tp s so where o: "tcpcbs n u = Some tp" "tp_socket u n = Some s" "sockets n s = Some so"
    using assms by (auto simp: reass_present_def bind_eq_Some_conv)
  have thru: "stays t n n'" if "sorwakeup s m = Some n'" "stays t n m" for m
    by (rule stays_goes [OF that(2) stays_frame [OF more_sorwakeup [THEN tcpcbs_net, OF that(1)]]])
  show ?thesis using assms o
    by (auto simp: reass_present_def bind_eq_Some_conv Let_def split: if_splits prod.splits elim!: thru)
qed

lemma tcp_reass_stays:
  assumes "tcp_reass u tio n = Some (f, n')"
  shows "stays t n n'"
proof (cases tio)
  case None
  then show ?thesis using assms reass_present_stays by (auto simp: tcp_reass_def)
next
  case (Some ti)
  then obtain tp where o: "tcpcbs n u = Some tp" using assms by (auto simp: tcp_reass_def bind_eq_Some_conv)
  have thru: "stays t n n'" if "reass_present u m = Some (f, n')" "stays t n m" for m
    by (rule stays_goes [OF that(2) reass_present_stays [OF that(1)]])
  show ?thesis using assms o Some
    by (auto simp: tcp_reass_def bind_eq_Some_conv split: option.splits prod.splits elim!: thru)
qed

lemma tcp_pulloutofband_stays:
  assumes "tcp_pulloutofband u ti n = Some (ti', n')"
  shows "stays t n n'"
proof -
  obtain b p where "tp_mod u (\<lambda>tp. tp\<lparr>t_iobc := b, t_oob := True\<rparr>) (n\<lparr>pool := p\<rparr>) = Some n'"
    using assms by (auto simp: tcp_pulloutofband_def bind_eq_Some_conv)
  from stays_mod [OF this] show ?thesis by simp
qed

section \<open>Closing a connection, and making a new one\<close>

lemma tcp_close_tcpcbs:
  fixes n n' :: "'a tcpnet_scheme"
  assumes "tcp_close u n = Some n'"
  shows "tcpcbs n' = (tcpcbs n)(u := None)"
proof -
  obtain i f p n1 n2 s where c: "inp_mod i f (n\<lparr>pool := p, tcpcbs := (tcpcbs n)(u := None)\<rparr>) = Some n1"
      "soisdisconnected s n1 = Some n2" "in_pcbdetach i n2 = Some n'"
    using assms by (auto simp: tcp_close_def bind_eq_Some_conv)
  show ?thesis
    using c(1) [THEN imore_inp_mod [THEN tcpcbs_more]] c(2) [THEN more_soisdisconnected [THEN tcpcbs_net]]
      c(3) [THEN imore_in_pcbdetach [THEN tcpcbs_more]] by simp
qed

lemma tcp_close_stays: "tcp_close u n = Some n' \<Longrightarrow> stays t n n'"
  by (drule tcp_close_tcpcbs) (simp add: goes_def st_at_def)

lemma tcp_drop_stays:
  assumes "tcp_drop E u err n = Some n'"
  shows "stays t n n'"
proof -
  obtain tp s n1 n2 where d: "tcpcbs n u = Some tp"
      "(if TCPS_HAVERCVDSYN (t_state tp)
        then map_option snd (tcp_output E u (tp_put u (tp\<lparr>t_state := TCPS_CLOSED\<rparr>) n)) else Some n) = Some n1"
      "so_mod s (\<lambda>so. so\<lparr>so_error := err\<rparr>) n1 = Some n2" "tcp_close u n2 = Some n'"
    using assms by (auto simp: tcp_drop_def bind_eq_Some_conv)
  have "t \<noteq> u \<Longrightarrow> stays t n n1"
    using d(2) by (auto split: if_splits dest!: tcp_output_stays [where t = t]
        intro!: stays_goes [of t n "tp_put u (tp\<lparr>t_state := TCPS_CLOSED\<rparr>) n" "(=)" n1])
  moreover have "stays t n1 n'"
    by (rule stays_goes [OF stays_frame [OF more_so_mod [THEN tcpcbs_net, OF d(3)]] tcp_close_stays [OF d(4)]])
  moreover have "st_at u n' = None" using tcp_close_tcpcbs [OF d(4)] by (simp add: st_at_def)
  ultimately show ?thesis by (cases "t = u") (auto simp: goes_def)
qed

lemma tcp_abort_stays: "tcp_pr_usrreq E s PRU_ABORT n = Some (e, n') \<Longrightarrow> stays t n n'"
  by (auto simp: tcp_pr_usrreq_def tcp_usrreq_def usr_switch_def bind_eq_Some_conv Let_def split: if_splits
      intro: tcp_drop_stays)

text \<open>A new connection gets addresses that were not in use.\<close>

lemma nextaddr_so_mod: "so_mod s f n = Some n' \<Longrightarrow> nextaddr n' = nextaddr n"
  by (auto simp: so_mod_def so_put_def)

lemma nextaddr_soqinsque: "soqinsque h s q n = Some n' \<Longrightarrow> nextaddr n' = nextaddr n"
  by (auto simp: soqinsque_def bind_eq_Some_conv dest!: nextaddr_so_mod split: if_splits)

lemma nextaddr_soreserve: "soreserve s a c n = Some (e, n') \<Longrightarrow> nextaddr n' = nextaddr n"
  by (auto simp: soreserve_def dest!: nextaddr_so_mod)

lemma nextaddr_so_alloc: "so_alloc n = Some (r, n') \<Longrightarrow> nextaddr n \<le> nextaddr n'"
  by (auto simp: so_alloc_def split: option.splits)

lemma tcp_newtcpcb_new:
  fixes n n' :: "'a tcpnet_scheme"
  assumes "tcp_newtcpcb i n = Some (r, n')"
  shows "u < nextaddr n \<Longrightarrow> stays u n n'"
    "r = Some t \<Longrightarrow> t = nextaddr n \<and> (\<exists>inp. inpcbs n' i = Some inp \<and> inp_ppcb inp = t) \<and> sockets n' = sockets n"
proof -
  obtain mo p where m: "m_getclr 3 (pool n) = Some (mo, p)" using assms by (auto simp: tcp_newtcpcb_def bind_eq_Some_conv)
  show "u < nextaddr n \<Longrightarrow> stays u n n'"
    using assms m by (auto simp: tcp_newtcpcb_def Let_def inp_mod_def goes_def st_at_def inp_put_def split: option.splits)
  show "r = Some t \<Longrightarrow> t = nextaddr n \<and> (\<exists>inp. inpcbs n' i = Some inp \<and> inp_ppcb inp = t) \<and> sockets n' = sockets n"
    using assms m by (auto simp: tcp_newtcpcb_def Let_def inp_mod_def inp_put_def split: option.splits)
qed

lemma tcp_attach_new:
  fixes n n' :: "'a tcpnet_scheme"
  assumes "tcp_attach s n = Some (e, n')" "u < nextaddr n"
  shows "stays u n n'"
    "e = None \<Longrightarrow> \<exists>so inp. sockets n' s = Some so \<and> inpcbs n' (so_pcb so) = Some inp \<and> nextaddr n \<le> inp_ppcb inp"
proof -
  obtain e1 n1 where r: "soreserve s 2048 2048 n = Some (e1, n1)"
      "(if e1 \<noteq> None then Some (e1, n1)
     else Option.bind (in_pcballoc s Tcb n1) (\<lambda>(e, n2).
       if e \<noteq> None then Some (e, n2)
       else Option.bind (sockets n2 s) (\<lambda>so.
         Option.bind (tcp_newtcpcb (so_pcb so) n2) (\<lambda>(t, n3).
         case t of
           None \<Rightarrow> map_option (\<lambda>n4. (Some ENOBUFS, n4)) (in_pcbdetach (so_pcb so) n3)
         | Some t \<Rightarrow> map_option (\<lambda>n4. (None, n4)) (tp_mod t (\<lambda>tp. tp\<lparr>t_state := TCPS_CLOSED\<rparr>) n3))))) = Some (e, n')"
    using assms(1) by (auto simp: tcp_attach_def bind_eq_Some_conv)
  have a1: "stays u n n1" "nextaddr n1 = nextaddr n"
    using stays_frame [OF more_soreserve [THEN tcpcbs_net, OF r(1)]] nextaddr_soreserve [OF r(1)] by auto
  have "stays u n n' \<and> (e = None \<longrightarrow> (\<exists>so inp. sockets n' s = Some so \<and> inpcbs n' (so_pcb so) = Some inp \<and> nextaddr n \<le> inp_ppcb inp))"
  proof (cases "e1 = None")
    case False
    then show ?thesis using r(2) a1 by auto
  next
    case True
    then obtain e2 n2 where p: "in_pcballoc s Tcb n1 = Some (e2, n2)"
        "(if e2 \<noteq> None then Some (e2, n2)
       else Option.bind (sockets n2 s) (\<lambda>so.
         Option.bind (tcp_newtcpcb (so_pcb so) n2) (\<lambda>(t, n3).
         case t of
           None \<Rightarrow> map_option (\<lambda>n4. (Some ENOBUFS, n4)) (in_pcbdetach (so_pcb so) n3)
         | Some t \<Rightarrow> map_option (\<lambda>n4. (None, n4)) (tp_mod t (\<lambda>tp. tp\<lparr>t_state := TCPS_CLOSED\<rparr>) n3)))) = Some (e, n')"
      using r(2) by (auto simp: bind_eq_Some_conv)
    have a2: "stays u n n2" "nextaddr n \<le> nextaddr n2"
      using p(1) a1 stays_frame [OF imore_in_pcballoc [THEN tcpcbs_more, OF p(1)], of u]
      by (auto intro: stays_goes simp: in_pcballoc_def bind_eq_Some_conv Let_def head_mod_def inp_put_def
          dest!: nextaddr_so_mod split: option.splits)
    show ?thesis
    proof (cases "e2 = None")
      case False
      then show ?thesis using p(2) a2 by auto
    next
      case True
      then obtain so t n3 where q: "sockets n2 s = Some so" "tcp_newtcpcb (so_pcb so) n2 = Some (t, n3)"
          "(case t of
           None \<Rightarrow> map_option (\<lambda>n4. (Some ENOBUFS, n4)) (in_pcbdetach (so_pcb so) n3)
         | Some t \<Rightarrow> map_option (\<lambda>n4. (None, n4)) (tp_mod t (\<lambda>tp. tp\<lparr>t_state := TCPS_CLOSED\<rparr>) n3)) = Some (e, n')"
        using p(2) by (auto simp: bind_eq_Some_conv)
      have a3: "stays u n n3" using stays_goes [OF a2(1) tcp_newtcpcb_new(1) [OF q(2)]] a2(2) assms(2) by simp
      show ?thesis
      proof (cases t)
        case None
        then show ?thesis using q(3) a3 by (auto intro: stays_goes [OF _ stays_frame] dest!: imore_in_pcbdetach [THEN tcpcbs_more])
      next
        case (Some t')
        note w = tcp_newtcpcb_new(2) [OF q(2) Some]
        have "u \<noteq> t'" using w a2(2) assms(2) by auto
        then have "stays u n n'" using q(3) Some a3 by (auto simp: tp_mod_def)
        moreover have "sockets n' = sockets n3" "inpcbs n' = inpcbs n3" using q(3) Some by (auto simp: tp_mod_def)
        ultimately show ?thesis using w a2(2) q(1) by auto
      qed
    qed
  qed
  then show "stays u n n'" "e = None \<Longrightarrow> \<exists>so inp. sockets n' s = Some so \<and> inpcbs n' (so_pcb so) = Some inp \<and> nextaddr n \<le> inp_ppcb inp"
    by auto
qed

lemma tcp_pr_attach_new:
  fixes n n' :: "'a tcpnet_scheme"
  assumes "tcp_pr_usrreq E s PRU_ATTACH n = Some (e, n')" "u < nextaddr n"
  shows "stays u n n'"
    "e = None \<Longrightarrow> \<exists>so inp. sockets n' s = Some so \<and> inpcbs n' (so_pcb so) = Some inp \<and> nextaddr n \<le> inp_ppcb inp"
proof -
  obtain so where so: "sockets n s = Some so" using assms(1) by (auto simp: tcp_pr_usrreq_def tcp_usrreq_def bind_eq_Some_conv)
  have "stays u n n' \<and> (e = None \<longrightarrow> (\<exists>so inp. sockets n' s = Some so \<and> inpcbs n' (so_pcb so) = Some inp \<and> nextaddr n \<le> inp_ppcb inp))"
  proof (cases "so_pcb so = 0")
    case False
    then show ?thesis using assms(1) so by (auto simp: tcp_pr_usrreq_def tcp_usrreq_def usr_switch_def bind_eq_Some_conv Let_def)
  next
    case True
    then obtain e1 n1 where a: "tcp_attach s n = Some (e1, n1)"
       "(if e1 \<noteq> None then Some (e1, n1) else map_option (\<lambda>n2. (None, n2))
           (so_mod s (\<lambda>x. if SO_LINGER \<in> so_options x \<and> so_linger x = 0 then x\<lparr>so_linger := TCP_LINGERTIME\<rparr> else x) n1)) = Some (e, n')"
      using assms(1) so by (auto simp: tcp_pr_usrreq_def tcp_usrreq_def bind_eq_Some_conv split: if_splits)
    note w = tcp_attach_new [OF a(1) assms(2)]
    have "stays u n n'" using a(2) w(1) by (auto split: if_splits simp: so_mod_def)
    moreover have "inpcbs n' = inpcbs n1" using a(2) by (auto split: if_splits simp: so_mod_def so_put_def)
    ultimately show ?thesis using a(2) w(2) by (auto split: if_splits simp: so_mod_def so_put_def)
  qed
  then show "stays u n n'" "e = None \<Longrightarrow> \<exists>so inp. sockets n' s = Some so \<and> inpcbs n' (so_pcb so) = Some inp \<and> nextaddr n \<le> inp_ppcb inp"
    by auto
qed

lemma sonewconn_new:
  fixes n n' :: "'a tcpnet_scheme"
  assumes "sonewconn (tcp_pr_usrreq E) h n = Some (r, n')" "u < nextaddr n"
  shows "stays u n n'"
    "r = Some s \<Longrightarrow> \<exists>so inp. sockets n' s = Some so \<and> inpcbs n' (so_pcb so) = Some inp \<and> nextaddr n \<le> inp_ppcb inp"
proof -
  have "stays u n n' \<and> (r = Some s \<longrightarrow> (\<exists>so inp. sockets n' s = Some so \<and> inpcbs n' (so_pcb so) = Some inp \<and> nextaddr n \<le> inp_ppcb inp))"
  proof -
    obtain ho where ho: "sockets n h = Some ho" using assms(1) by (auto simp: sonewconn_def bind_eq_Some_conv)
    show ?thesis
    proof (cases "so_qlen ho + so_q0len ho > c_div (3 * so_qlimit ho) 2")
      case True
      then show ?thesis using assms(1) ho by (auto simp: sonewconn_def)
    next
      case False
      then obtain r1 n1 where a: "so_alloc n = Some (r1, n1)" using assms(1) ho by (auto simp: sonewconn_def bind_eq_Some_conv)
      have s1: "stays u n n1" "u < nextaddr n1" "nextaddr n \<le> nextaddr n1"
        using stays_frame [OF more_so_alloc [THEN tcpcbs_net, OF a]] nextaddr_so_alloc [OF a] assms(2) by auto
      show ?thesis
      proof (cases r1)
        case None
        then show ?thesis using assms(1) ho False a s1 by (auto simp: sonewconn_def)
      next
        case (Some so)
        obtain f n2 n3 e n4 where b: "so_mod so f n1 = Some n2" "soqinsque h so False n2 = Some n3"
            "tcp_pr_usrreq E so PRU_ATTACH n3 = Some (e, n4)"
            "(case e of None \<Rightarrow> Some (Some so, n4) | Some _ \<Rightarrow> Option.bind (soqremque so False n4) (\<lambda>(_, n5).
                map_option (\<lambda>n6. (None, n6)) (so_dealloc so n5))) = Some (r, n')"
          using assms(1) ho False a Some by (auto simp: sonewconn_def bind_eq_Some_conv)
        have n3: "nextaddr n3 = nextaddr n1" "tcpcbs n3 = tcpcbs n1"
          using nextaddr_so_mod [OF b(1)] nextaddr_soqinsque [OF b(2)] more_so_mod [THEN tcpcbs_net, OF b(1)]
            more_soqinsque [THEN tcpcbs_net, OF b(2)] by auto
        have u3: "u < nextaddr n3" using s1 n3 by simp
        note w = tcp_pr_attach_new [OF b(3) u3]
        have s4: "stays u n n4" using stays_goes [OF stays_goes [OF s1(1) stays_frame [OF n3(2)]] w(1)] .
        show ?thesis
        proof (cases e)
          case None
          then show ?thesis using b(4) s4 w(2) n3(1) s1(3) by fastforce
        next
          case (Some err)
          then obtain ok n5 where "soqremque so False n4 = Some (ok, n5)" "r = None" "so_dealloc so n5 = Some n'"
            using b(4) by (auto simp: bind_eq_Some_conv)
          then have "tcpcbs n' = tcpcbs n4" "r = None"
            by (auto dest!: more_soqremque [THEN tcpcbs_net] more_so_dealloc [THEN tcpcbs_net])
          then show ?thesis using stays_goes [OF s4 stays_frame] by simp
        qed
      qed
    qed
  qed
  then show "stays u n n'" "r = Some s \<Longrightarrow> \<exists>so inp. sockets n' s = Some so \<and> inpcbs n' (so_pcb so) = Some inp \<and> nextaddr n \<le> inp_ppcb inp"
    by auto
qed

section \<open>The arcs\<close>

text \<open>
  What the control bits of a segment may do, and what a FIN in sequence may do.  A reset makes no
  transition: it closes the connection or is ignored.
\<close>

inductive seg_arc :: "thflag set \<Rightarrow> tcps \<Rightarrow> tcps \<Rightarrow> bool" for F where
  "TH_RST \<notin> F \<Longrightarrow> TH_SYN \<in> F \<Longrightarrow> TH_ACK \<notin> F \<Longrightarrow> seg_arc F TCPS_LISTEN TCPS_SYN_RECEIVED"
| "TH_RST \<notin> F \<Longrightarrow> TH_SYN \<in> F \<Longrightarrow> seg_arc F TCPS_SYN_SENT TCPS_SYN_RECEIVED"
| "TH_RST \<notin> F \<Longrightarrow> TH_SYN \<in> F \<Longrightarrow> seg_arc F TCPS_SYN_SENT TCPS_ESTABLISHED"
| "TH_RST \<notin> F \<Longrightarrow> TH_ACK \<in> F \<Longrightarrow> seg_arc F TCPS_SYN_RECEIVED TCPS_ESTABLISHED"
| "TH_RST \<notin> F \<Longrightarrow> TH_ACK \<in> F \<Longrightarrow> seg_arc F TCPS_FIN_WAIT_1 TCPS_FIN_WAIT_2"
| "TH_RST \<notin> F \<Longrightarrow> TH_ACK \<in> F \<Longrightarrow> seg_arc F TCPS_CLOSING TCPS_TIME_WAIT"

inductive fin_arc :: "thflag set \<Rightarrow> tcps \<Rightarrow> tcps \<Rightarrow> bool" for F where
  "TH_RST \<notin> F \<Longrightarrow> TH_SYN \<in> F \<Longrightarrow> fin_arc F TCPS_SYN_RECEIVED TCPS_CLOSE_WAIT"
| "TH_RST \<notin> F \<Longrightarrow> fin_arc F TCPS_ESTABLISHED TCPS_CLOSE_WAIT"
| "TH_RST \<notin> F \<Longrightarrow> fin_arc F TCPS_FIN_WAIT_1 TCPS_CLOSING"
| "TH_RST \<notin> F \<Longrightarrow> fin_arc F TCPS_FIN_WAIT_2 TCPS_TIME_WAIT"

inductive_simps seg_arc_to_syn: "seg_arc F s TCPS_SYN_RECEIVED"
inductive_simps seg_arc_iff: "seg_arc F s s'"
inductive_cases fin_arcE: "fin_arc F s s'"

lemma goes_reflcl: "stays t n n' \<Longrightarrow> goes A\<^sup>=\<^sup>= t n n'"
  by (rule goes_mono) auto

text \<open>What reaches \<open>step6\<close>.\<close>

definition step6_ok :: "thflag set \<Rightarrow> nat \<Rightarrow> 'a tcpnet_scheme \<Rightarrow> bool" where
  "step6_ok F t n \<longleftrightarrow> (\<forall>s. st_at t n = Some s \<longrightarrow> (s = TCPS_CLOSED \<or> TH_RST \<notin> F) \<and> (s = TCPS_SYN_RECEIVED \<longrightarrow> TH_SYN \<in> F))"

lemma step6_ok_goes: "step6_ok F t n \<Longrightarrow> stays t n n' \<Longrightarrow> step6_ok F t n'"
  unfolding step6_ok_def goes_def by blast

section \<open>The stretches of the input routine\<close>

lemma in_abort_stays: "in_abort E l n = Some n' \<Longrightarrow> stays t n n'"
  by (auto simp: in_abort_def soabort_def split: if_splits intro: tcp_abort_stays)

lemma in_drop_stays: "in_drop E l n = Some n' \<Longrightarrow> stays t n n'"
  by (auto simp: in_drop_def bind_eq_Some_conv dest!: in_abort_stays [where t = t])

lemma in_dropwithreset_stays:
  assumes "in_dropwithreset E l n = Some n'"
  shows "stays t n n'"
proof -
  have thru: "stays t n n'" if "tcp_respond E tpo ti ack sq fl (n\<lparr>pool := p\<rparr>) = Some m" "in_abort E l1 m = Some n'" for tpo ti ack sq fl p m l1
    using stays_goes [OF tcp_respond_stays [OF that(1)] in_abort_stays [OF that(2)]] by simp
  have drop: "stays t n n'" if "in_drop E l1 (n\<lparr>pool := p\<rparr>) = Some n'" for l1 p
    using in_drop_stays [OF that] by simp
  show ?thesis using assms
    by (auto simp: in_dropwithreset_def bind_eq_Some_conv Let_def split: if_splits elim: thru drop)
qed

lemma in_dropafterack_stays: "in_dropafterack E l n = Some n' \<Longrightarrow> stays t n n'"
  by (auto simp: in_dropafterack_def bind_eq_Some_conv split: if_splits intro: in_drop_stays tcp_respond_stays)

lemma in_demux_stays:
  fixes n n' :: "'a tcpnet_scheme"
  assumes "in_demux E l n = Some (lb, l', n')" "u < nextaddr n"
  shows "stays u n n' \<and> i_fl l' = i_fl l"
proof (cases "in_pcblookup Tcb (ti_src (i_ti l)) (ti_sport (i_ti l)) (ti_dst (i_ti l)) (ti_dport (i_ti l)) True n")
  case None
  then show ?thesis using assms(1) by (auto simp: in_demux_def Let_def)
next
  case (Some i)
  then obtain inp where i: "inpcbs n i = Some inp" using assms(1) by (auto simp: in_demux_def Let_def bind_eq_Some_conv)
  show ?thesis
  proof (cases "inp_ppcb inp = 0")
    case True
    then show ?thesis using assms(1) Some i by (auto simp: in_demux_def Let_def)
  next
    case False
    then obtain so where so: "sockets n (inp_socket inp) = Some so" using assms(1) Some i by (auto simp: in_demux_def Let_def bind_eq_Some_conv)
    show ?thesis
    proof (cases "SO_ACCEPTCONN \<in> so_options so")
      case False
      then show ?thesis using assms(1) Some i so \<open>inp_ppcb inp \<noteq> 0\<close> by (auto simp: in_demux_def Let_def)
    next
      case True
      then obtain r n1 where r: "sonewconn (tcp_pr_usrreq E) (inp_socket inp) n = Some (r, n1)"
        using assms(1) Some i so False by (auto simp: in_demux_def Let_def bind_eq_Some_conv)
      note w = sonewconn_new [OF r assms(2)]
      show ?thesis
      proof (cases r)
        case None
        then show ?thesis using assms(1) Some i so False True r w(1) by (auto simp: in_demux_def Let_def)
      next
        case (Some s)
        from w(2) [OF this] obtain so' inp' where s: "sockets n1 s = Some so'" "inpcbs n1 (so_pcb so') = Some inp'" "nextaddr n \<le> inp_ppcb inp'"
          by blast
        then have "u \<noteq> inp_ppcb inp'" using assms(2) by auto
        then show ?thesis
          using assms(1) \<open>in_pcblookup _ _ _ _ _ _ _ = _\<close> i so False True r Some s w(1)
          by (auto simp: in_demux_def Let_def bind_eq_Some_conv inp_mod_def tp_mod_def inp_put_def goes_def st_at_def)
      qed
    qed
  qed
qed

lemma in_prep_stays:
  assumes "in_prep t l n = Some (l', n')"
  shows "stays u n n' \<and> i_fl l' = i_fl l"
proof -
  obtain n1 n2 w where p: "tp_mod t (\<lambda>tp. set_timer TCPT_KEEP TCPTV_KEEP (tp\<lparr>t_idle := 0\<rparr>)) n = Some n1"
      "(case i_om l of None \<Rightarrow> Some n1 | Some om \<Rightarrow> tcp_dooptions t om n1) = Some n2"
      "tp_mod t (\<lambda>tp. tp\<lparr>rcv_wnd := w\<rparr>) n2 = Some n'" "l' = l\<lparr>i_om := None\<rparr>"
    using assms by (auto simp: in_prep_def bind_eq_Some_conv Let_def)
  have "stays u n1 n2" using p(2) by (auto split: option.splits intro: tcp_dooptions_stays)
  then show ?thesis
    using stays_goes [OF stays_mod [OF p(1)] stays_goes [OF _ stays_mod [OF p(3)]]] p(4) by simp
qed

lemma in_window_flags:
  "in_window tp ti fl = (lb, ti', fl') \<Longrightarrow> fl' \<subseteq> fl \<and> fl \<subseteq> fl' \<union> {TH_SYN, TH_URG}"
proof -
  have f: "fl' \<subseteq> fl \<and> fl \<subseteq> fl' \<union> {TH_SYN, TH_URG}" if "in_front nxt ti fl = (lb, ti', fl')" for nxt lb ti' fl'
    using that by (auto simp: in_front_def Let_def split: if_splits prod.splits)
  have b: "fl' = fl" if "in_back tp ti fl = (lb, ti', fl')" for ti fl lb ti' fl'
    using that by (auto simp: in_back_def Let_def split: if_splits)
  assume "in_window tp ti fl = (lb, ti', fl')"
  then show ?thesis by (auto simp: in_window_def split: if_splits prod.splits lbl.splits dest!: f b)
qed

lemma stays_inp_mod: "inp_mod i f n = Some n' \<Longrightarrow> stays t n n'"
  by (rule stays_frame) (rule imore_inp_mod [THEN tcpcbs_more])

lemma stays_in_pcbconnect: "in_pcbconnect i nam n = Some (e, n') \<Longrightarrow> stays t n n'"
  by (rule stays_frame) (rule imore_in_pcbconnect [THEN tcpcbs_more])

lemma stays_in_pcbdisconnect: "in_pcbdisconnect i n = Some n' \<Longrightarrow> stays t n n'"
  by (rule stays_frame) (rule imore_in_pcbdisconnect [THEN tcpcbs_more])

lemma stays_soisconnected: "soisconnected i n = Some n' \<Longrightarrow> stays t n n'"
  by (rule stays_frame) (rule more_soisconnected [THEN tcpcbs_net])

lemma stays_soisdisconnected: "soisdisconnected i n = Some n' \<Longrightarrow> stays t n n'"
  by (rule stays_frame) (rule more_soisdisconnected [THEN tcpcbs_net])

lemma t_state_segment [simp]:
  "t_state (fst (in_trim6 tp ti)) = t_state tp" "t_state (in_listen_syn tp tm is sq) = TCPS_SYN_RECEIVED"
  "t_state (in_synsent_tp tp ti) = t_state tp" "t_state (ack_rtt E a tp) = t_state tp" "t_state (ack_timer E a tp) = t_state tp"
  "t_state (ack_una a tp) = t_state tp" "t_state (ack_syn_tp tp) = t_state tp" "t_state (step6_wnd ti tp) = t_state tp"
  "t_state (tcp_canceltimers tp) = t_state tp"
  by (simp_all add: in_trim6_def in_listen_syn_def in_synsent_tp_def ack_rtt_def ack_timer_def ack_una_def ack_syn_tp_def
      step6_wnd_def tcp_rcvseqinit_def tcp_sendseqinit_def set_timer_def tcp_canceltimers_def Let_def)

text \<open>A label other than \<open>L_next\<close> and \<open>L_step6\<close> ends the segment without a transition of its own.\<close>

lemma in_listen_goes:
  fixes n n' :: "'a tcpnet_scheme"
  assumes "in_listen t l n = Some (lb, l', n')" "st_at t n = Some TCPS_LISTEN"
  shows "goes (seg_arc (i_fl l))\<^sup>=\<^sup>= u n n'"
    "lb \<in> {L_next, L_step6} \<Longrightarrow> i_tp l' = i_tp l \<and> step6_ok (i_fl l) t n'"
proof -
  have "goes (seg_arc (i_fl l))\<^sup>=\<^sup>= u n n' \<and> (lb \<in> {L_next, L_step6} \<longrightarrow> i_tp l' = i_tp l \<and> step6_ok (i_fl l) t n')"
  proof (cases "TH_RST \<in> i_fl l \<or> TH_ACK \<in> i_fl l \<or> TH_SYN \<notin> i_fl l")
    case True
    then have "n' = n \<and> lb \<in> {L_drop, L_dropwithreset}" using assms(1) by (auto simp: in_listen_def Let_def split: if_splits)
    then show ?thesis using goes_reflcl [OF stays_refl, of "seg_arc (i_fl l)" u n] by auto
  next
    case False
    then obtain tp inp amo p where a: "tcpcbs n t = Some tp" "inpcbs n (t_inpcb tp) = Some inp" "m_get 8 (pool n) = Some (amo, p)"
      using assms(1) by (auto simp: in_listen_def Let_def bind_eq_Some_conv)
    show ?thesis
    proof (cases amo)
      case None
      then have "n' = n\<lparr>pool := p\<rparr> \<and> lb = L_drop" using assms(1) False a by (auto simp: in_listen_def Let_def)
      then show ?thesis using goes_reflcl [OF stays_refl, of "seg_arc (i_fl l)" u n] by simp
    next
      case (Some am)
      let ?i = "t_inpcb tp" and ?laddr = "inp_laddr inp"
      obtain e n2 where c: "in_pcbconnect ?i \<lparr>nam_len = 16, sin_family = AF_INET, sin_port = ti_sport (i_ti l), sin_addr = ti_src (i_ti l)\<rparr>
            (inp_put ?i (if ?laddr = 0 then inp\<lparr>inp_laddr := ti_dst (i_ti l)\<rparr> else inp) (n\<lparr>pool := p\<rparr>)) = Some (e, n2)"
        using assms(1) False a Some by (auto simp: in_listen_def Let_def bind_eq_Some_conv)
      have s2: "stays u n n2" for u using stays_in_pcbconnect [OF c, of u] by simp
      show ?thesis
      proof (cases "e = None")
        case e: False
        then obtain n3 p' where d: "inp_mod ?i (\<lambda>x. x\<lparr>inp_laddr := ?laddr\<rparr>) n2 = Some n3" "n' = n3\<lparr>pool := p'\<rparr>" "lb = L_drop"
          using assms(1) False a Some c by (auto simp: in_listen_def Let_def bind_eq_Some_conv)
        then show ?thesis using goes_reflcl [OF stays_goes [OF s2 stays_inp_mod [OF d(1)]], of "seg_arc (i_fl l)" u] by simp
      next
        case e: True
        then obtain p' tmo n3 where d: "MFREE am (pool n2) = Some p'" "tcp_template t (n2\<lparr>pool := p'\<rparr>) = Some (tmo, n3)"
          using assms(1) False a Some c by (auto simp: in_listen_def Let_def bind_eq_Some_conv)
        have s3: "stays u n n3" for u using stays_goes [OF s2 tcp_template_stays [OF d(2), simplified]] by simp
        show ?thesis
        proof (cases tmo)
          case None
          then obtain n4 where g: "in_pcbdisconnect ?i n3 = Some n4" "inp_mod ?i (\<lambda>x. x\<lparr>inp_laddr := ?laddr\<rparr>) n4 = Some n'" "lb = L_drop"
            using assms(1) False a Some c d e by (auto simp: in_listen_def Let_def bind_eq_Some_conv)
          then show ?thesis
            using goes_reflcl [OF stays_goes [OF s3 stays_goes [OF stays_in_pcbdisconnect [OF g(1)] stays_inp_mod [OF g(2)]]], of "seg_arc (i_fl l)" u]
            by simp
        next
          case tm: (Some tm)
          define tp2 where "tp2 = fst (in_trim6 (in_listen_syn tp tm (tcp_iss n3) (ti_seq (i_ti l))) (i_ti l))"
          have n': "n' = tp_put t tp2 (n3\<lparr>tcp_iss := tcp_iss n3 + 64\<rparr>)" "lb = L_step6" "i_tp l' = i_tp l"
            using assms(1) False a Some c d e tm by (auto simp: in_listen_def Let_def tp2_def split: prod.splits)
          have "t_state tp2 = TCPS_SYN_RECEIVED" by (simp add: tp2_def)
          then show ?thesis
            using False assms(2) goes_reflcl [OF s3, of "seg_arc (i_fl l)" u] unfolding n'
            by (auto simp: step6_ok_def intro: seg_arc.intros)
        qed
      qed
    qed
  qed
  then show "goes (seg_arc (i_fl l))\<^sup>=\<^sup>= u n n'" "lb \<in> {L_next, L_step6} \<Longrightarrow> i_tp l' = i_tp l \<and> step6_ok (i_fl l) t n'"
    by auto
qed

lemma in_synsent_goes:
  fixes n n' :: "'a tcpnet_scheme"
  assumes "in_synsent E t l n = Some (lb, l', n')" "st_at t n = Some TCPS_SYN_SENT"
  shows "goes (seg_arc (i_fl l))\<^sup>=\<^sup>= u n n'"
    "lb \<in> {L_next, L_step6} \<Longrightarrow> i_tp l' = i_tp l \<and> step6_ok (i_fl l) t n'"
proof -
  obtain tp where tp: "tcpcbs n t = Some tp" "t_state tp = TCPS_SYN_SENT" using assms(2) by (auto simp: st_at_def)
  let ?bad = "TH_ACK \<in> i_fl l \<and> (SEQ_LT (ti_ack (i_ti l)) (iss tp) \<or> SEQ_GT (ti_ack (i_ti l)) (snd_max tp))"
  have "goes (seg_arc (i_fl l))\<^sup>=\<^sup>= u n n' \<and> (lb \<in> {L_next, L_step6} \<longrightarrow> i_tp l' = i_tp l \<and> step6_ok (i_fl l) t n')"
  proof (cases "?bad \<or> TH_RST \<in> i_fl l \<or> TH_SYN \<notin> i_fl l")
    case True
    then have "lb \<in> {L_drop, L_dropwithreset}" "n' = n \<or> tcp_drop E t (Some ECONNREFUSED) n = Some n'"
      using assms(1) tp by (auto simp: in_synsent_def Let_def split: if_splits)
    then show ?thesis using goes_reflcl [OF stays_refl, of "seg_arc (i_fl l)" u n] goes_reflcl [OF tcp_drop_stays, of E t "Some ECONNREFUSED" n n' "seg_arc (i_fl l)" u] by auto
  next
    case False
    let ?tp1 = "in_synsent_tp tp (i_ti l)"
    let ?c = "if SEQ_GT (snd_una ?tp1) (iss ?tp1) then
                  Option.bind (soisconnected (i_so l) (tp_put t ?tp1 n)) (\<lambda>n1.
                  Option.bind (tp_mod t (\<lambda>x. x\<lparr>t_state := TCPS_ESTABLISHED\<rparr>) n1) (\<lambda>n2.
                  map_option snd (tcp_reass t None n2)))
                else Some (tp_put t (?tp1\<lparr>t_state := TCPS_SYN_RECEIVED\<rparr>) n)"
    have "Option.bind ?c (\<lambda>n3. Option.bind (tcpcbs n3 t) (\<lambda>tp3.
        Some (L_step6, l\<lparr>i_ti := snd (in_trim6 tp3 (i_ti l))\<rparr>, tp_put t (fst (in_trim6 tp3 (i_ti l))) n3))) = Some (lb, l', n')"
    proof -
      from False have b: "\<not> ?bad" "TH_RST \<notin> i_fl l" "\<not> TH_SYN \<notin> i_fl l" by blast+
      show ?thesis using assms(1)
        by (simp only: in_synsent_def Let_def tp(1) Option.bind.simps if_not_P [OF b(1)] if_not_P [OF b(2)] if_not_P [OF b(3)] case_prod_beta)
    qed
    then obtain n3 where c: "?c = Some n3"
        and tp3: "\<exists>tp3. tcpcbs n3 t = Some tp3 \<and> n' = tp_put t (fst (in_trim6 tp3 (i_ti l))) n3" and lb: "lb = L_step6" "i_tp l' = i_tp l"
      unfolding bind_eq_Some_conv by auto
    have "goes (seg_arc (i_fl l))\<^sup>=\<^sup>= u n n3"
    proof (cases "SEQ_GT (snd_una ?tp1) (iss ?tp1)")
      case True
      then obtain n1 n2 f where d: "soisconnected (i_so l) (tp_put t ?tp1 n) = Some n1"
          "tp_mod t (\<lambda>x. x\<lparr>t_state := TCPS_ESTABLISHED\<rparr>) n1 = Some n2" "tcp_reass t None n2 = Some (f, n3)"
        using c by (auto simp: bind_eq_Some_conv)
      have "stays u n n1" for u
        using stays_goes [OF _ stays_soisconnected [OF d(1)], of u n] tp by simp
      then have "goes (seg_arc (i_fl l))\<^sup>=\<^sup>= u n n1" by (rule goes_reflcl)
      then have "goes (seg_arc (i_fl l))\<^sup>=\<^sup>= u n n2"
        using d(2) False assms(2) by (auto simp: tp_mod_def intro: seg_arc.intros)
      then show ?thesis by (rule goes_stays) (rule tcp_reass_stays [OF d(3)])
    next
      case nSEQ: False
      then show ?thesis using c tp False goes_reflcl [OF stays_refl, of "seg_arc (i_fl l)" u n] by (auto intro: seg_arc.intros)
    qed
    then have "goes (seg_arc (i_fl l))\<^sup>=\<^sup>= u n n'" using tp3 by (auto intro: goes_stays [OF _ stays_put1])
    then show ?thesis using lb False by (simp add: step6_ok_def)
  qed
  then show "goes (seg_arc (i_fl l))\<^sup>=\<^sup>= u n n'" "lb \<in> {L_next, L_step6} \<Longrightarrow> i_tp l' = i_tp l \<and> step6_ok (i_fl l) t n'"
    by auto
qed

lemma in_flags_goes:
  assumes "in_flags E t l n = Some (lb, l', n')"
  shows "stays u n n'" "lb \<in> {L_next, L_step6} \<Longrightarrow>
    lb = L_next \<and> n' = n \<and> l' = l \<and> TH_ACK \<in> i_fl l \<and> (\<forall>s. st_at t n = Some s \<longrightarrow> s \<in> {TCPS_CLOSED, TCPS_LISTEN, TCPS_SYN_SENT} \<or> TH_RST \<notin> i_fl l)"
proof -
  obtain tp so where o: "tcpcbs n t = Some tp" "sockets n (i_so l) = Some so" using assms by (auto simp: in_flags_def bind_eq_Some_conv)
  have cl: "tcp_close t n = Some n' \<Longrightarrow> stays u n n'" by (rule tcp_close_stays)
  have dr: "tcp_drop E t err n = Some n' \<Longrightarrow> stays u n n'" for err by (rule tcp_drop_stays)
  show "stays u n n'" using assms o
    by (simp add: in_flags_def Let_def split: if_splits) (use cl dr in auto)
  show "lb \<in> {L_next, L_step6} \<Longrightarrow>
    lb = L_next \<and> n' = n \<and> l' = l \<and> TH_ACK \<in> i_fl l \<and> (\<forall>s. st_at t n = Some s \<longrightarrow> s \<in> {TCPS_CLOSED, TCPS_LISTEN, TCPS_SYN_SENT} \<or> TH_RST \<notin> i_fl l)"
    using assms o by (cases "t_state tp") (auto simp: in_flags_def Let_def split: if_splits)
qed

lemma ack_data_stays:
  assumes "ack_data E t s a n = Some (r, n')"
  shows "stays u n n'"
proof -
  obtain tp so where o: "tcpcbs n t = Some tp" "sockets n s = Some so" using assms by (auto simp: ack_data_def bind_eq_Some_conv)
  let ?all = "sint (a - snd_una tp) > sb_cc (so_snd so)"
  obtain sb p where sd: "sbdrop (so_snd so) (if ?all then sb_cc (so_snd so) else sint (a - snd_una tp)) (pool n) = Some (sb, p)"
    using assms o by (auto simp: ack_data_def Let_def bind_eq_Some_conv)
  define tp2 where "tp2 = (let x = ack_timer E a (ack_rtt E a tp)
     in x\<lparr>snd_wnd := u16 (snd_wnd x - (if ?all then sb_cc sb else sint (a - snd_una tp)))\<rparr>)"
  let ?w = "if SB_WAIT \<in> sb_flags sb \<or> sb_sel sb \<noteq> None then sowwakeup s (tp_put t tp2 (so_put s (so\<lparr>so_snd := sb\<rparr>) (n\<lparr>pool := p\<rparr>)))
     else Some (tp_put t tp2 (so_put s (so\<lparr>so_snd := sb\<rparr>) (n\<lparr>pool := p\<rparr>)))"
  have "Option.bind ?w (\<lambda>n2. map_option (\<lambda>n3. (if ?all then sint (a - snd_una tp) else 0, n3)) (tp_mod t (ack_una a) n2)) = Some (r, n')"
    using assms by (simp only: ack_data_def Let_def o Option.bind.simps sd prod.case tp2_def)
  then obtain n2 where d: "t_state tp2 = t_state tp" "?w = Some n2" "tp_mod t (ack_una a) n2 = Some n'"
    unfolding bind_eq_Some_conv by (auto simp: tp2_def Let_def)
  have w: "sowwakeup s m = Some n2 \<Longrightarrow> stays u m n2" for m
    by (rule stays_frame) (rule more_sowwakeup [THEN tcpcbs_net])
  have "stays u n (tp_put t tp2 (so_put s (so\<lparr>so_snd := sb\<rparr>) (n\<lparr>pool := p\<rparr>)))" using d(1) o by simp
  moreover have "stays u (tp_put t tp2 (so_put s (so\<lparr>so_snd := sb\<rparr>) (n\<lparr>pool := p\<rparr>))) n2"
    using d(2) w by (metis option.inject stays_refl)
  moreover have "stays u n2 n'" by (rule stays_mod [OF d(3)]) simp
  ultimately show ?thesis by (blast intro: stays_goes)
qed

text \<open>The arcs of an acknowledgment in the closing states.\<close>

definition acks :: "tcps \<Rightarrow> tcps \<Rightarrow> bool" where
  "acks s s' \<longleftrightarrow> s' = s \<or> s = TCPS_FIN_WAIT_1 \<and> s' = TCPS_FIN_WAIT_2 \<or> s = TCPS_CLOSING \<and> s' = TCPS_TIME_WAIT"

lemma stays_acks: "stays t n n' \<Longrightarrow> goes acks t n n'"
  by (auto simp: goes_def acks_def)

lemma tp_mod_acks: "tp_mod t f n = Some n' \<Longrightarrow> st_at t n = Some s \<Longrightarrow> (\<And>tp. acks s (t_state (f tp))) \<Longrightarrow> goes acks u n n'"
  using stays_acks [OF stays_refl, of u n] by (auto simp: tp_mod_def)

lemma ack_fsm_goes:
  fixes n n' :: "'a tcpnet_scheme"
  assumes "ack_fsm t k l n = Some (lb, l', n')"
  shows "goes acks u n n'" "lb \<in> {L_next, L_step6} \<Longrightarrow> lb = L_next \<and> l' = l"
proof -
  obtain tp so where o: "tcpcbs n t = Some tp" "sockets n (i_so l) = Some so" using assms by (auto simp: ack_fsm_def bind_eq_Some_conv)
  have st: "st_at t n = Some (t_state tp)" using o by simp
  have same: "n' = n \<Longrightarrow> goes acks u n n'" by (simp add: stays_acks)
  have cl: "tcp_close t n = Some n' \<Longrightarrow> goes acks u n n'" by (rule stays_acks) (rule tcp_close_stays)
  have tw: "tp_mod t (set_timer i v) n = Some n' \<Longrightarrow> goes acks u n n'" for i v by (rule stays_acks) (rule stays_mod, assumption, simp)
  have fw1: "goes acks u n n'" if "t_state tp = TCPS_FIN_WAIT_1" "soisdisconnected (i_so l) n = Some m \<or> m = n"
      "tp_mod t (\<lambda>x. x\<lparr>t_state := TCPS_FIN_WAIT_2\<rparr>) m = Some n'" for m
  proof -
    have s: "stays u n m" for u using that(2) by (auto intro: stays_soisdisconnected)
    have "st_at t m = Some TCPS_FIN_WAIT_1" using that s [of t] st by (auto simp: goes_def tp_mod_def)
    then have "goes acks u m n'" by (rule tp_mod_acks [OF that(3)]) (simp add: acks_def)
    then show ?thesis by (rule stays_goes [OF s])
  qed
  have cg: "goes acks u n n'" if "t_state tp = TCPS_CLOSING" "soisdisconnected (i_so l) m = Some n'"
      "tp_mod t (\<lambda>x. set_timer i v (tcp_canceltimers (x\<lparr>t_state := TCPS_TIME_WAIT\<rparr>))) n = Some m" for m i v
  proof -
    have "goes acks u n m" using st that(1) by (intro tp_mod_acks [OF that(3)]) (auto simp: acks_def)
    then show ?thesis by (rule goes_stays) (rule stays_soisdisconnected [OF that(2)])
  qed
  show "goes acks u n n'" using assms o same cl tw fw1 cg
    by (cases "t_state tp") (auto simp: ack_fsm_def bind_eq_Some_conv split: if_splits)
  show "lb \<in> {L_next, L_step6} \<Longrightarrow> lb = L_next \<and> l' = l" using assms o
    by (cases "t_state tp") (auto simp: ack_fsm_def bind_eq_Some_conv split: if_splits)
qed

lemma ack_rest_goes:
  fixes n n' :: "'a tcpnet_scheme"
  assumes "ack_rest E t l n = Some (lb, l', n')"
  shows "goes acks u n n'" "lb \<in> {L_next, L_step6} \<Longrightarrow> lb = L_next \<and> l' = l"
    "st_at t n = Some s \<Longrightarrow> s < TCPS_ESTABLISHED \<Longrightarrow> n' = n"
proof -
  obtain tp where o: "tcpcbs n t = Some tp" using assms by (auto simp: ack_rest_def bind_eq_Some_conv)
  have thru: "goes acks u n n'" if "ack_data E t so a n = Some (k, m)" "ack_fsm t k l m = Some (lb, l', n')" for so a k m
    by (rule stays_goes [OF ack_data_stays [OF that(1)] ack_fsm_goes(1) [OF that(2)]])
  show "goes acks u n n'" using assms o thru stays_acks [OF stays_refl, of u n]
    by (auto simp: ack_rest_def bind_eq_Some_conv split: if_splits)
  show "lb \<in> {L_next, L_step6} \<Longrightarrow> lb = L_next \<and> l' = l" using assms o
    by (auto simp: ack_rest_def bind_eq_Some_conv split: if_splits dest: ack_fsm_goes(2))
  show "st_at t n = Some s \<Longrightarrow> s < TCPS_ESTABLISHED \<Longrightarrow> n' = n" using assms o
    by (auto simp: ack_rest_def bind_eq_Some_conv split: if_splits)
qed

lemma ack_syn_goes:
  fixes n n' :: "'a tcpnet_scheme"
  assumes "ack_syn t l n = Some (lb, l', n')" "TH_RST \<notin> F" "TH_ACK \<in> F"
  shows "goes (seg_arc F)\<^sup>=\<^sup>= u n n'" "lb \<in> {L_next, L_step6} \<Longrightarrow> lb = L_next \<and> l' = l \<and> st_at t n' \<noteq> Some TCPS_SYN_RECEIVED"
proof -
  obtain tp where o: "tcpcbs n t = Some tp" using assms by (auto simp: ack_syn_def bind_eq_Some_conv)
  have "goes (seg_arc F)\<^sup>=\<^sup>= u n n' \<and> (lb \<in> {L_next, L_step6} \<longrightarrow> lb = L_next \<and> l' = l \<and> st_at t n' \<noteq> Some TCPS_SYN_RECEIVED)"
  proof (cases "t_state tp \<noteq> TCPS_SYN_RECEIVED \<or> SEQ_GT (snd_una tp) (ti_ack (i_ti l)) \<or> SEQ_GT (ti_ack (i_ti l)) (snd_max tp)")
    case True
    then have "n' = n \<and> (lb \<in> {L_next, L_step6} \<longrightarrow> lb = L_next \<and> l' = l \<and> t_state tp \<noteq> TCPS_SYN_RECEIVED)"
      using assms(1) o by (auto simp: ack_syn_def split: if_splits)
    then show ?thesis using goes_reflcl [OF stays_refl, of "seg_arc F" u n] o by auto
  next
    case False
    then obtain n1 n2 f n3 where d: "soisconnected (i_so l) (tp_put t (ack_syn_tp tp) n) = Some n1"
        "tp_mod t (\<lambda>x. x\<lparr>t_state := TCPS_ESTABLISHED\<rparr>) n1 = Some n2" "tcp_reass t None n2 = Some (f, n3)"
        "tp_mod t (\<lambda>x. x\<lparr>snd_wl1 := ti_seq (i_ti l) - 1\<rparr>) n3 = Some n'" "lb = L_next" "l' = l"
      using assms(1) o by (auto simp: ack_syn_def bind_eq_Some_conv)
    have s1: "stays u n n1" for u using stays_goes [OF _ stays_soisconnected [OF d(1)], of u n] o by simp
    have s2: "stays u n2 n'" for u
      by (rule stays_goes [OF tcp_reass_stays [OF d(3)] stays_mod [OF d(4)]]) simp
    have "goes (seg_arc F)\<^sup>=\<^sup>= u n n2"
      using d(2) False o assms(2,3) goes_reflcl [OF s1, of "seg_arc F" u] by (auto simp: tp_mod_def intro: seg_arc.intros)
    then have "goes (seg_arc F)\<^sup>=\<^sup>= u n n'" by (rule goes_stays [OF _ s2])
    moreover have "st_at t n2 = Some TCPS_ESTABLISHED" using d(2) by (auto simp: tp_mod_def)
    then have "st_at t n' \<noteq> Some TCPS_SYN_RECEIVED" using s2 [of t] by (auto simp: goes_def)
    ultimately show ?thesis using d by simp
  qed
  then show "goes (seg_arc F)\<^sup>=\<^sup>= u n n'" "lb \<in> {L_next, L_step6} \<Longrightarrow> lb = L_next \<and> l' = l \<and> st_at t n' \<noteq> Some TCPS_SYN_RECEIVED"
    by auto
qed

lemma seg_arc_acks: "TH_RST \<notin> F \<Longrightarrow> TH_ACK \<in> F \<Longrightarrow> (seg_arc F)\<^sup>=\<^sup>= OO acks \<le> (seg_arc F)\<^sup>=\<^sup>="
  by (auto simp: acks_def seg_arc_iff)

lemma in_ack_goes:
  fixes n n' :: "'a tcpnet_scheme"
  assumes "in_ack E t l n = Some (lb, l', n')" "TH_RST \<notin> F" "TH_ACK \<in> F"
  shows "goes (seg_arc F)\<^sup>=\<^sup>= u n n'" "lb \<in> {L_next, L_step6} \<Longrightarrow> l' = l \<and> step6_ok F t n'"
proof -
  obtain lb1 l1 n1 where a: "ack_syn t l n = Some (lb1, l1, n1)"
    "(if lb1 \<noteq> L_next then Some (lb1, l1, n1) else ack_rest E t l1 n1) = Some (lb, l', n')"
    using assms(1) by (auto simp: in_ack_def bind_eq_Some_conv)
  note g = ack_syn_goes [OF a(1) assms(2,3)]
  have "goes (seg_arc F)\<^sup>=\<^sup>= u n n' \<and> (lb \<in> {L_next, L_step6} \<longrightarrow> l' = l \<and> step6_ok F t n')"
  proof (cases "lb1 = L_next")
    case False
    then show ?thesis using a(2) g by auto
  next
    case True
    then have r: "ack_rest E t l1 n1 = Some (lb, l', n')" using a(2) by simp
    note h = ack_rest_goes [OF r]
    have "goes (seg_arc F)\<^sup>=\<^sup>= u n n'" by (rule goes_mono [OF goes_trans [OF g(1) h(1)] seg_arc_acks [OF assms(2,3)]])
    moreover have "l1 = l" "st_at t n1 \<noteq> Some TCPS_SYN_RECEIVED" using g(2) True by auto
    then have "step6_ok F t n'" using h(1) [of t] assms(2) by (auto simp: step6_ok_def goes_def acks_def)
    ultimately show ?thesis using h(2) \<open>l1 = l\<close> by auto
  qed
  then show "goes (seg_arc F)\<^sup>=\<^sup>= u n n'" "lb \<in> {L_next, L_step6} \<Longrightarrow> l' = l \<and> step6_ok F t n'" by auto
qed

lemma in_other_goes:
  fixes n n' :: "'a tcpnet_scheme"
  assumes "in_other E t l n = Some (lb, l', n')" "st_at t n = Some s0" "s0 \<notin> {TCPS_LISTEN, TCPS_SYN_SENT}"
  shows "goes (seg_arc (i_fl l))\<^sup>=\<^sup>= u n n'"
    "lb \<in> {L_next, L_step6} \<Longrightarrow> i_tp l' = i_tp l \<and> step6_ok (i_fl l) t n'"
proof -
  obtain tp where tp: "tcpcbs n t = Some tp" "t_state tp = s0" using assms(2) by (auto simp: st_at_def)
  obtain lb1 ti fl where w: "in_window tp (i_ti l) (i_fl l) = (lb1, ti, fl)" by (metis prod_cases3)
  let ?l1 = "l\<lparr>i_ti := ti, i_fl := fl\<rparr>"
  have fl: "fl \<subseteq> i_fl l" "TH_RST \<notin> fl \<Longrightarrow> TH_RST \<notin> i_fl l" using in_window_flags [OF w] by auto
  have refl: "goes (seg_arc (i_fl l))\<^sup>=\<^sup>= u n n" for u by (rule goes_reflcl) simp
  have "goes (seg_arc (i_fl l))\<^sup>=\<^sup>= u n n' \<and> (lb \<in> {L_next, L_step6} \<longrightarrow> i_tp l' = i_tp l \<and> step6_ok (i_fl l) t n')"
  proof (cases "lb1 = L_next")
    case False
    moreover have "lb1 \<noteq> L_step6" using w
      by (auto simp: in_window_def in_front_def in_back_def Let_def split: if_splits prod.splits lbl.splits)
    ultimately show ?thesis using assms(1) tp w refl by (auto simp: in_other_def)
  next
    case True
    then obtain lb2 l2 n2 where f: "in_flags E t ?l1 n = Some (lb2, l2, n2)"
        "(if lb2 \<noteq> L_next then Some (lb2, l2, n2) else in_ack E t l2 n2) = Some (lb, l', n')"
      using assms(1) tp w by (auto simp: in_other_def bind_eq_Some_conv)
    note g = in_flags_goes [OF f(1)]
    show ?thesis
    proof (cases "lb2 = L_next")
      case False
      then show ?thesis using f(2) g(1) [of u, THEN goes_reflcl, of "seg_arc (i_fl l)"] g(2) by auto
    next
      case True
      then have n2: "n2 = n" "l2 = ?l1" "TH_ACK \<in> fl" "s0 = TCPS_CLOSED \<or> TH_RST \<notin> fl"
        using g(2) tp assms(3) by auto
      then have a: "in_ack E t ?l1 n = Some (lb, l', n')" using f(2) True by simp
      show ?thesis
      proof (cases "TH_RST \<in> fl")
        case False
        then show ?thesis using in_ack_goes [OF a, of "i_fl l"] fl n2(3) by auto
      next
        case True
        then have c: "s0 = TCPS_CLOSED" using n2 by simp
        then have "lb = L_next" "n' = n" "l' = ?l1" using a tp
          by (auto simp: in_ack_def ack_syn_def ack_rest_def less_tcps_def tcps_num.simps)
        then show ?thesis using refl c tp by (simp add: step6_ok_def)
      qed
    qed
  qed
  then show "goes (seg_arc (i_fl l))\<^sup>=\<^sup>= u n n'" "lb \<in> {L_next, L_step6} \<Longrightarrow> i_tp l' = i_tp l \<and> step6_ok (i_fl l) t n'"
    by auto
qed

lemma in_process_goes:
  fixes n n' :: "'a tcpnet_scheme"
  assumes "in_process E t l n = Some (lb, l', n')"
  shows "goes (seg_arc (i_fl l))\<^sup>=\<^sup>= u n n'"
    "lb \<in> {L_next, L_step6} \<Longrightarrow> i_tp l' = i_tp l \<and> step6_ok (i_fl l) t n'"
proof -
  obtain tp where tp: "tcpcbs n t = Some tp" using assms by (auto simp: in_process_def bind_eq_Some_conv)
  then have st: "st_at t n = Some (t_state tp)" by simp
  have "goes (seg_arc (i_fl l))\<^sup>=\<^sup>= u n n' \<and> (lb \<in> {L_next, L_step6} \<longrightarrow> i_tp l' = i_tp l \<and> step6_ok (i_fl l) t n')"
    using assms tp st in_listen_goes [of t l n lb l' n'] in_synsent_goes [of E t l n lb l' n'] in_other_goes [of E t l n lb l' n' "t_state tp"]
    by (cases "t_state tp") (auto simp: in_process_def)
  then show "goes (seg_arc (i_fl l))\<^sup>=\<^sup>= u n n'" "lb \<in> {L_next, L_step6} \<Longrightarrow> i_tp l' = i_tp l \<and> step6_ok (i_fl l) t n'"
    by auto
qed

section \<open>\<open>step6\<close> and the end\<close>

lemma fin_state_arc: "t_state x = s \<Longrightarrow> s = TCPS_CLOSED \<or> TH_RST \<notin> F \<Longrightarrow> (s = TCPS_SYN_RECEIVED \<Longrightarrow> TH_SYN \<in> F) \<Longrightarrow>
   s = t_state (fin_state x) \<or> fin_arc F s (t_state (fin_state x))"
  by (cases s) (auto simp: fin_state_def intro: fin_arc.intros)

lemma step6_fin_goes:
  fixes n n' :: "'a tcpnet_scheme"
  assumes "step6_fin t l n = Some n'" "step6_ok F t n"
  shows "goes (fin_arc F)\<^sup>=\<^sup>= u n n'"
proof (cases "TH_FIN \<in> i_fl l")
  case False
  then show ?thesis using assms(1) goes_reflcl [OF stays_refl] by (simp add: step6_fin_def)
next
  case True
  then obtain tp n1 n2 where f: "tcpcbs n t = Some tp"
      "(if TCPS_HAVERCVDFIN (t_state tp) then Some n
           else Option.bind (socantrcvmore (i_so l) n)
                  (tp_mod t (\<lambda>x. x\<lparr>t_flags := insert TF_ACKNOW (t_flags x), rcv_nxt := rcv_nxt x + 1\<rparr>))) = Some n1"
      "tp_mod t fin_state n1 = Some n2" "(if t_state tp = TCPS_FIN_WAIT_2 then soisdisconnected (i_so l) n2 else Some n2) = Some n'"
    using assms(1) by (auto simp: step6_fin_def bind_eq_Some_conv)
  have s1: "stays u n n1" for u
  proof (cases "TCPS_HAVERCVDFIN (t_state tp)")
    case True
    then show ?thesis using f(2) by simp
  next
    case False
    then obtain m where m: "socantrcvmore (i_so l) n = Some m"
        "tp_mod t (\<lambda>x. x\<lparr>t_flags := insert TF_ACKNOW (t_flags x), rcv_nxt := rcv_nxt x + 1\<rparr>) m = Some n1"
      using f(2) by (auto simp: bind_eq_Some_conv)
    show ?thesis
      by (rule stays_goes [OF stays_frame [OF more_socantrcvmore [THEN tcpcbs_net, OF m(1)]] stays_mod [OF m(2)]]) simp
  qed
  have s3: "stays u n2 n'" for u using f(4) by (auto split: if_splits intro: stays_soisdisconnected)
  obtain x where x: "tcpcbs n1 t = Some x" "n2 = tp_put t (fin_state x) n1" using f(3) by (auto simp: tp_mod_def)
  have tx: "t_state x = t_state tp" using s1 [of t] x(1) f(1) by (auto simp: goes_def)
  have "goes (fin_arc F)\<^sup>=\<^sup>= u n n2"
    using goes_reflcl [OF s1, of "fin_arc F" u] fin_state_arc [OF tx, of F] assms(2) f(1) unfolding x(2) step6_ok_def by auto
  then show ?thesis by (rule goes_stays [OF _ s3])
qed

lemma step6_urg_stays:
  assumes "step6_urg t l n = Some (l', n')"
  shows "stays u n n'"
proof -
  obtain tp so where o: "tcpcbs n t = Some tp" "sockets n (i_so l) = Some so" using assms by (auto simp: step6_urg_def bind_eq_Some_conv)
  let ?ti = "i_ti l"
  let ?up = "ti_seq ?ti + word_of_int (ti_urp ?ti)"
  show ?thesis
  proof (cases "TH_URG \<in> i_fl l \<and> ti_urp ?ti \<noteq> 0 \<and> \<not> TCPS_HAVERCVDFIN (t_state tp)")
    case False
    then show ?thesis using assms o by (auto simp: step6_urg_def Let_def)
  next
    case True
    then obtain n1 where a: "(if SEQ_GT ?up (rcv_up tp) then
               let mark = s16 (sb_cc (so_rcv so) + sint (?up - rcv_nxt tp) - 1);
                   so1 = so\<lparr>so_oobmark := mark, so_state := (if mark = 0 then insert SS_RCVATMARK (so_state so) else so_state so)\<rparr>
               in sohasoutofband (i_so l) (tp_put t (tp\<lparr>rcv_up := ?up, t_oob := False\<rparr>) (so_put (i_so l) so1 n))
             else Some n) = Some n1"
        "(if ti_urp ?ti \<le> ti_len ?ti then map_option (\<lambda>(ti', n2). (l\<lparr>i_ti := ti'\<rparr>, n2)) (tcp_pulloutofband t ?ti n1)
          else Some (l, n1)) = Some (l', n')"
      using assms o by (auto simp: step6_urg_def Let_def bind_eq_Some_conv)
    have "stays u n n1" using a(1) o by (auto simp: sohasoutofband_def Let_def split: if_splits)
    moreover have "stays u n1 n'" using a(2) by (auto split: if_splits intro: tcp_pulloutofband_stays)
    ultimately show ?thesis by (rule stays_goes)
  qed
qed

lemma step6_text_stays:
  assumes "step6_text t l n = Some (l', n')"
  shows "stays u n n'"
proof -
  have thru: "stays u n n'" if "tcp_reass t tio n = Some (f, m)"
      "tp_mod t (\<lambda>x. x\<lparr>t_flags := g (t_flags x)\<rparr>) m = Some n'" for tio f m g
    by (rule stays_goes [OF tcp_reass_stays [OF that(1)] stays_mod [OF that(2)]]) simp
  show ?thesis using assms by (auto simp: step6_text_def bind_eq_Some_conv split: if_splits elim: thru)
qed

lemma in_step6_goes:
  fixes n n' :: "'a tcpnet_scheme"
  assumes "in_step6 E t l n = Some n'" "step6_ok F t n"
  shows "goes (fin_arc F)\<^sup>=\<^sup>= u n n'"
proof -
  obtain n1 l2 n2 l3 n3 n4 e where s: "tp_mod t (step6_wnd (i_ti l)) n = Some n1" "step6_urg t l n1 = Some (l2, n2)"
      "step6_text t l2 n2 = Some (l3, n3)" "step6_fin t l3 n3 = Some n4" "tcp_output E t n4 = Some (e, n')"
    using assms(1) by (auto simp: in_step6_def bind_eq_Some_conv)
  have s3: "stays u n n3" for u
    by (rule stays_goes [OF stays_mod [OF s(1)] stays_goes [OF step6_urg_stays [OF s(2)] step6_text_stays [OF s(3)]]]) simp
  have "goes (fin_arc F)\<^sup>=\<^sup>= u n n4"
    by (rule stays_goes [OF s3 step6_fin_goes [OF s(4) step6_ok_goes [OF assms(2) s3]]])
  then show ?thesis by (rule goes_stays [OF _ tcp_output_stays [OF s(5)]])
qed

lemma in_finish_goes:
  fixes n n' :: "'a tcpnet_scheme"
  assumes "in_finish E (lb, l, n) = Some n'" "lb \<in> {L_next, L_step6} \<Longrightarrow> i_tp l = Some t \<and> step6_ok F t n"
  shows "goes (fin_arc F)\<^sup>=\<^sup>= u n n'"
proof (cases lb)
  case L_drop
  then have "in_drop E l n = Some n'" using assms(1) by (simp add: in_finish_def)
  then show ?thesis by (rule goes_reflcl [OF in_drop_stays])
next
  case L_dropwithreset
  then have "in_dropwithreset E l n = Some n'" using assms(1) by (simp add: in_finish_def)
  then show ?thesis by (rule goes_reflcl [OF in_dropwithreset_stays])
next
  case L_dropafterack
  then have "in_dropafterack E l n = Some n'" using assms(1) by (simp add: in_finish_def)
  then show ?thesis by (rule goes_reflcl [OF in_dropafterack_stays])
next
  case L_next
  then have "in_step6 E t l n = Some n'" "step6_ok F t n" using assms by (auto simp: in_finish_def)
  then show ?thesis by (rule in_step6_goes)
next
  case L_step6
  then have "in_step6 E t l n = Some n'" "step6_ok F t n" using assms by (auto simp: in_finish_def)
  then show ?thesis by (rule in_step6_goes)
qed

lemma tcp_input_goes:
  fixes n n' :: "'a tcpnet_scheme"
  assumes "tcp_input E ti om n = Some n'" "u < nextaddr n"
  shows "goes ((seg_arc (ti_flags ti))\<^sup>=\<^sup>= OO (fin_arc (ti_flags ti))\<^sup>=\<^sup>=) u n n'"
proof -
  let ?l = "\<lparr>i_ti = ti, i_fl = ti_flags ti, i_tlen = ti_len ti, i_tp = None, i_so = 0, i_dropsocket = False, i_om = om\<rparr>"
  obtain lb1 l1 n1 where d: "in_demux E ?l n = Some (lb1, l1, n1)"
      "(if lb1 \<noteq> L_next then in_finish E (lb1, l1, n1)
         else Option.bind (i_tp l1) (\<lambda>t.
           Option.bind (in_prep t l1 n1) (\<lambda>(l2, n2).
           Option.bind (in_process E t l2 n2) (in_finish E)))) = Some n'"
    using assms(1) by (auto simp: tcp_input_def Let_def bind_eq_Some_conv)
  have s1: "stays u n n1" "i_fl l1 = ti_flags ti" using in_demux_stays [OF d(1) assms(2)] by auto
  show ?thesis
  proof (cases "lb1 = L_next")
    case False
    moreover have "lb1 \<noteq> L_step6" using d(1) False
      by (auto simp: in_demux_def Let_def bind_eq_Some_conv split: option.splits if_splits)
    ultimately have "goes (fin_arc (ti_flags ti))\<^sup>=\<^sup>= u n1 n'" using d(2) by (intro in_finish_goes [of E lb1 l1 n1]) auto
    then show ?thesis by (rule stays_goes [OF s1(1) goes_mono]) auto
  next
    case True
    then obtain t l2 n2 lb3 l3 n3 where p: "i_tp l1 = Some t" "in_prep t l1 n1 = Some (l2, n2)"
        "in_process E t l2 n2 = Some (lb3, l3, n3)" "in_finish E (lb3, l3, n3) = Some n'"
      using d(2) by (auto simp: bind_eq_Some_conv)
    have s2: "stays u n1 n2" "i_fl l2 = ti_flags ti" "i_tp l2 = Some t"
      using in_prep_stays [OF p(2)] s1(2) p(1,2) by (auto simp: in_prep_def bind_eq_Some_conv Let_def)
    note g = in_process_goes [OF p(3), unfolded s2(2)]
    have "goes (fin_arc (ti_flags ti))\<^sup>=\<^sup>= u n3 n'"
      using g(2) s2(3) by (intro in_finish_goes [OF p(4), of t]) auto
    then show ?thesis by (rule stays_goes [OF s1(1) stays_goes [OF s2(1) goes_trans [OF g(1)]]])
  qed
qed

text \<open>C1: the connection state machine.  Whatever segment arrives, the state of every connection that survives
  it has changed at most along one arc that the control bits of the segment allow, and then at most along
  the arc of a FIN in sequence; so a connection opens only by SYN, leaves SYN_RECEIVED for ESTABLISHED and
  the closing states only by an acknowledgment, and a segment with RST changes no state.\<close>

theorem tcp_input_fsm:
  assumes "tcp_input E ti om n = Some n'" "t < nextaddr n" "tcpcbs n t = Some tp" "tcpcbs n' t = Some tp'"
  shows "\<exists>m. (m = t_state tp \<or> seg_arc (ti_flags ti) (t_state tp) m) \<and>
             (t_state tp' = m \<or> fin_arc (ti_flags ti) m (t_state tp'))"
  using tcp_input_goes [OF assms(1,2)] assms(3,4) by (auto simp: goes_def)

definition fsm_demo :: tcpnet where
  "fsm_demo = tcp_demo (tcp_demo_cb\<lparr>t_state := TCPS_CLOSING, snd_nxt := 101, snd_max := 101, rcv_adv := 2948\<rparr>)
     ((tcp_demo_so [])\<lparr>so_snd := sb_clear\<rparr>)"

definition fsm_ack :: tcpiphdr where
  "fsm_ack = \<lparr>ti_len = 0, ti_src = 0x0a000002, ti_dst = 0x0a000001, ti_sport = 2000, ti_dport = 25, ti_seq = 900, ti_ack = 101, ti_off = 5,
         ti_flags = {TH_ACK}, ti_win = 0, ti_urp = 0, ti_hdr = Moff 84, ti_m = [mdata []]\<rparr>"

text \<open>The acknowledgment of our FIN in CLOSING.\<close>

lemma fsm_demo_run:
  "\<exists>n' tp'. tcp_input env_demo fsm_ack None fsm_demo = Some n' \<and> tcpcbs n' 30 = Some tp' \<and> t_state tp' = TCPS_TIME_WAIT"
proof -
  obtain p where p: "MFREE (mdata []) pool_demo = Some p"
    using m_freem_step [of pool_demo "[mdata []]"] pool_demo_ok mdata_ok [of "[]"] by (auto simp: bind_eq_Some_conv mb_ok_def)
  show ?thesis
    apply (simp add: tcp_input_def in_demux_def fsm_demo_def tcp_demo_def tcp_demo_cb_def tcp_demo_so_def so_demo_def sb_clear_def
        so_clear_def tcpcb_clear_def fsm_ack_def inp_clear_def env_demo_def in_pcblookup_def pcb_wild_def in_wild_def Let_def
        in_prep_def tp_mod_def tp_put_def set_timer_def sbspace_def in_process_def s16_def in_other_def in_window_def in_front_def
        in_back_def seg_end_def in_flags_def in_ack_def ack_syn_def ack_rest_def ack_data_def ack_rtt_def ack_timer_def ack_una_def
        SEQ_LEQ_def SEQ_GT_def SEQ_LT_def less_tcps_def sbdrop_def so_put_def u16_def ack_fsm_def tcp_canceltimers_def
        soisdisconnected_def so_mod_def sorwakeup_def sowwakeup_def sbwakeup_def net_event_def in_finish_def in_step6_def
        step6_wnd_def step6_urg_def step6_text_def step6_fin_def p)
    apply (simp add: tcp_output.simps [of _ 30] tp_socket_def out_decide_def out_off_def out_flags_def out_len_def Let_def
        out_window_def sbspace_def SEQ_GT_def SEQ_LT_def SEQ_GEQ_def SEQ_LEQ_def)
    done
qed

theorem tcp_input_fsm_witness:
  "\<exists>n' tp'. tcp_input env_demo fsm_ack None fsm_demo = Some n' \<and> tcpcbs n' 30 = Some tp' \<and> t_state tp' = TCPS_TIME_WAIT \<and>
     (\<exists>m. (m = TCPS_CLOSING \<or> seg_arc {TH_ACK} TCPS_CLOSING m) \<and> (TCPS_TIME_WAIT = m \<or> fin_arc {TH_ACK} m TCPS_TIME_WAIT))"
proof -
  obtain n' tp' where r: "tcp_input env_demo fsm_ack None fsm_demo = Some n'" "tcpcbs n' 30 = Some tp'" "t_state tp' = TCPS_TIME_WAIT"
    using fsm_demo_run by blast
  have d: "30 < nextaddr fsm_demo" "tcpcbs fsm_demo 30 = Some (tcp_demo_cb\<lparr>t_state := TCPS_CLOSING, snd_nxt := 101, snd_max := 101, rcv_adv := 2948\<rparr>)"
    by (simp_all add: fsm_demo_def) (simp add: tcp_demo_def)
  have "ti_flags fsm_ack = {TH_ACK}" by (simp add: fsm_ack_def)
  then show ?thesis using tcp_input_fsm [OF r(1) d r(2)] r by auto
qed

end
