(* ===== verification/Tcp_Usr_Fsm.thy ===== *)
theory Tcp_Usr_Fsm
  imports Tcp_Fsm
begin

text \<open>
  The transitions of user requests and timers, after those of segments in \<open>Tcp_Fsm\<close>.
\<close>

section \<open>User requests\<close>

text \<open>
  What the requests of a user do to the state.  PRU_LISTEN and PRU_CONNECT do not look at the state they
  overwrite; that they come in a sensible order is left to the socket layer.
\<close>

inductive usr_arc :: "prureq \<Rightarrow> tcps \<Rightarrow> tcps \<Rightarrow> bool" for req where
  "req = PRU_LISTEN \<Longrightarrow> usr_arc req s TCPS_LISTEN"
| "req = PRU_CONNECT \<Longrightarrow> usr_arc req s TCPS_SYN_SENT"
| "req \<in> {PRU_DETACH, PRU_DISCONNECT, PRU_SHUTDOWN} \<Longrightarrow> usr_arc req TCPS_SYN_RECEIVED TCPS_FIN_WAIT_1"
| "req \<in> {PRU_DETACH, PRU_DISCONNECT, PRU_SHUTDOWN} \<Longrightarrow> usr_arc req TCPS_ESTABLISHED TCPS_FIN_WAIT_1"
| "req \<in> {PRU_DETACH, PRU_DISCONNECT, PRU_SHUTDOWN} \<Longrightarrow> usr_arc req TCPS_CLOSE_WAIT TCPS_LAST_ACK"

lemma tcp_close_put_stays:
  assumes "tcp_close u (tp_put u tp n) = Some n'"
  shows "stays t n n'"
  using tcp_close_tcpcbs [OF assms] by (simp add: goes_def st_at_def)

lemma tcp_usrclosed_goes:
  fixes n n' :: "'a tcpnet_scheme"
  assumes "tcp_usrclosed u n = Some (alive, n')" "req \<in> {PRU_DETACH, PRU_DISCONNECT, PRU_SHUTDOWN}"
  shows "goes (usr_arc req)\<^sup>=\<^sup>= t n n'"
proof -
  obtain tp al n1 where c: "tcpcbs n u = Some tp"
      "(case t_state tp of
          TCPS_LISTEN \<Rightarrow> map_option (\<lambda>n'. (False, n')) (tcp_close u (tp_put u (tp\<lparr>t_state := TCPS_CLOSED\<rparr>) n))
        | TCPS_SYN_SENT \<Rightarrow> map_option (\<lambda>n'. (False, n')) (tcp_close u (tp_put u (tp\<lparr>t_state := TCPS_CLOSED\<rparr>) n))
        | TCPS_SYN_RECEIVED \<Rightarrow> Some (True, tp_put u (tp\<lparr>t_state := TCPS_FIN_WAIT_1\<rparr>) n)
        | TCPS_ESTABLISHED \<Rightarrow> Some (True, tp_put u (tp\<lparr>t_state := TCPS_FIN_WAIT_1\<rparr>) n)
        | TCPS_CLOSE_WAIT \<Rightarrow> Some (True, tp_put u (tp\<lparr>t_state := TCPS_LAST_ACK\<rparr>) n)
        | _ \<Rightarrow> Some (True, n)) = Some (al, n1)"
      "(if \<not> al then Some (False, n1)
     else Option.bind (tcpcbs n1 u) (\<lambda>tp1.
       if t_state tp1 \<ge> TCPS_FIN_WAIT_2
       then Option.bind (tp_socket u n1) (\<lambda>s. map_option (\<lambda>n2. (True, n2)) (soisdisconnected s n1))
       else Some (True, n1))) = Some (alive, n')"
    using assms(1) by (auto simp: tcp_usrclosed_def bind_eq_Some_conv)
  have r: "goes (usr_arc req)\<^sup>=\<^sup>= t n n" by (rule goes_reflcl) simp
  have cl: "tcp_close u (tp_put u (tp\<lparr>t_state := TCPS_CLOSED\<rparr>) n) = Some m \<Longrightarrow> goes (usr_arc req)\<^sup>=\<^sup>= t n m" for m
    by (rule goes_reflcl) (rule tcp_close_put_stays)
  have "goes (usr_arc req)\<^sup>=\<^sup>= t n n1"
    using c(1,2) assms(2) r cl by (cases "t_state tp") (auto simp: usr_arc.simps)
  moreover have "stays t n1 n'"
    using c(3) by (auto simp: bind_eq_Some_conv split: if_splits intro: stays_soisdisconnected)
  ultimately show ?thesis by (rule goes_stays)
qed

lemma tcp_disconnect_goes:
  fixes n n' :: "'a tcpnet_scheme"
  assumes "tcp_disconnect E u n = Some (alive, n')" "req \<in> {PRU_DETACH, PRU_DISCONNECT, PRU_SHUTDOWN}"
  shows "goes (usr_arc req)\<^sup>=\<^sup>= t n n'"
proof -
  obtain tp s so where o: "tcpcbs n u = Some tp" "tp_socket u n = Some s" "sockets n s = Some so"
    using assms(1) by (auto simp: tcp_disconnect_def bind_eq_Some_conv)
  consider "tcp_close u n = Some n'" | "tcp_drop E u None n = Some n'" |
    n1 n2 al n3 where "soisdisconnecting s n = Some n1" "so_flush_rcv s n1 = Some n2" "tcp_usrclosed u n2 = Some (al, n3)"
      "(if al then map_option (\<lambda>(_, n4). (True, n4)) (tcp_output E u n3) else Some (False, n3)) = Some (alive, n')"
    using assms(1) o by (auto simp: tcp_disconnect_def bind_eq_Some_conv split: if_splits)
  then show ?thesis
  proof cases
    case 1
    then show ?thesis by (rule goes_reflcl [OF tcp_close_stays])
  next
    case 2
    then show ?thesis by (rule goes_reflcl [OF tcp_drop_stays])
  next
    case 3
    have "stays t n n1" by (rule stays_frame) (rule more_soisdisconnecting [THEN tcpcbs_net, OF 3(1)])
    moreover have "stays t n1 n2" using 3(2) by (auto simp: so_flush_rcv_def bind_eq_Some_conv)
    ultimately have "goes (usr_arc req)\<^sup>=\<^sup>= t n n3"
      using tcp_usrclosed_goes [OF 3(3) assms(2), of t] by (blast intro: stays_goes)
    moreover have "stays t n3 n'" using 3(4) by (auto split: if_splits intro: tcp_output_stays)
    ultimately show ?thesis by (rule goes_stays)
  qed
qed

lemma so_append_snd_stays: "so_append_snd s m n = Some n' \<Longrightarrow> stays t n n'"
  by (auto simp: so_append_snd_def bind_eq_Some_conv)

lemma usr_sendoob_stays:
  assumes "usr_sendoob E m s u n = Some (e, n')"
  shows "stays t n n'"
proof -
  obtain so where so: "sockets n s = Some so" using assms by (auto simp: usr_sendoob_def bind_eq_Some_conv)
  show ?thesis
  proof (cases "sbspace (so_snd so) < -512")
    case True
    then show ?thesis using assms so by (auto simp: usr_sendoob_def)
  next
    case False
    then obtain n1 n2 n3 n4 where
      a: "tp_mod u (\<lambda>tp. tp\<lparr>snd_up := snd_una tp + word_of_int (sb_cc (so_snd so)) + 1\<rparr>) n = Some n1" "so_append_snd s m n1 = Some n2"
        "tp_mod u (\<lambda>tp. tp\<lparr>t_force := 1\<rparr>) n2 = Some n3" "tcp_output E u n3 = Some (e, n4)" "tp_mod u (\<lambda>tp. tp\<lparr>t_force := 0\<rparr>) n4 = Some n'"
      using assms so by (auto simp: usr_sendoob_def bind_eq_Some_conv)
    show ?thesis
      by (rule stays_goes [OF stays_mod [OF a(1)] stays_goes [OF so_append_snd_stays [OF a(2)]
             stays_goes [OF stays_mod [OF a(3)] stays_goes [OF tcp_output_stays [OF a(4)] stays_mod [OF a(5)]]]]]) simp_all
  qed
qed

lemma tcp_timers_stays:
  fixes n n' :: "'a tcpnet_scheme"
  assumes "tcp_timers E u timer n = Some (alive, n')"
  shows "stays t n n'"
proof -
  obtain tp where tp: "tcpcbs n u = Some tp" using assms by (auto simp: tcp_timers_def bind_eq_Some_conv)
  have out: "stays t n n'" if "tcp_output E u (tp_put u tp' n) = Some (e, n')" "t_state tp' = t_state tp" for tp' e
    by (rule stays_goes [OF stays_put1 [OF tp that(2)] tcp_output_stays [OF that(1)]])
  have drop: "tcp_drop E u err m = Some n' \<Longrightarrow> stays t m n'" for err m by (rule tcp_drop_stays)
  show ?thesis
  proof (cases timer)
    case TCPT_REXMT
    have dr: "stays t n n'" if "tcp_drop E u err (tp_put u (tp\<lparr>t_rxtshift := sh\<rparr>) n) = Some n'" for err sh
      by (rule stays_goes [OF stays_put1 [OF tp] drop [OF that]]) simp
    show ?thesis using assms tp TCPT_REXMT
      by (auto simp: tcp_timers_def Let_def bind_eq_Some_conv split: if_splits elim: dr elim!: out)
  next
    case TCPT_PERSIST
    then obtain tp1 e n1 where p: "tcp_setpersist E tp = Some tp1" "tcp_output E u (tp_put u (tp1\<lparr>t_force := 1\<rparr>) n) = Some (e, n1)"
        "tp_mod u (\<lambda>x. x\<lparr>t_force := 0\<rparr>) n1 = Some n'"
      using assms tp by (auto simp: tcp_timers_def bind_eq_Some_conv)
    have "t_state tp1 = t_state tp" by (rule tcp_setpersist_state [OF p(1)])
    then show ?thesis
      by (intro stays_goes [OF stays_put1 [OF tp] stays_goes [OF tcp_output_stays [OF p(2)] stays_mod [OF p(3)]]]) simp_all
  next
    case TCPT_KEEP
    have kp: "stays t n n'" if "tcp_respond E (Some u) tmpl a sq {} n = Some m" "tp_mod u (set_timer i v) m = Some n'" for tmpl a sq i v m
      by (rule stays_goes [OF tcp_respond_stays [OF that(1)] stays_mod [OF that(2)]]) simp
    have id: "stays t n n'" if "tp_mod u (set_timer i v) (tp_put u (tp\<lparr>t_idle := 0\<rparr>) n) = Some n'" for i v
      by (rule stays_goes [OF stays_put1 [OF tp] stays_mod [OF that]]) simp_all
    show ?thesis using assms tp TCPT_KEEP
      by (auto simp: tcp_timers_def Let_def bind_eq_Some_conv split: if_splits elim: drop kp id)
  next
    case TCPT_2MSL
    then show ?thesis using assms tp by (auto simp: tcp_timers_def intro: tcp_close_stays)
  qed
qed

lemma usr_connect_goes:
  fixes n n' :: "'a tcpnet_scheme"
  assumes "usr_connect E nam s i u n = Some (e, n')"
  shows "goes (usr_arc PRU_CONNECT)\<^sup>=\<^sup>= t n n'"
proof -
  obtain inp e1 n1 where a: "inpcbs n i = Some inp" "usr_bind_any i inp n = Some (e1, n1)"
    using assms by (auto simp: usr_connect_def bind_eq_Some_conv)
  have s1: "stays t n n1" using a(2)
    by (auto simp: usr_bind_any_def split: if_splits intro: stays_frame imore_in_pcbbind [THEN tcpcbs_more])
  show ?thesis
  proof (cases "e1 = None")
    case False
    then show ?thesis using assms a s1 by (auto simp: usr_connect_def intro: goes_reflcl)
  next
    case True
    then obtain sin e2 n2 where b: "nam = Some sin" "in_pcbconnect i sin n1 = Some (e2, n2)"
      using assms a by (auto simp: usr_connect_def bind_eq_Some_conv)
    have s2: "stays t n n2" by (rule stays_goes [OF s1 stays_in_pcbconnect [OF b(2)]])
    show ?thesis
    proof (cases "e2 = None")
      case False
      then show ?thesis using assms a b True s2 by (auto simp: usr_connect_def intro: goes_reflcl)
    next
      case e2: True
      then obtain tmpl n3 where c: "tcp_template u n2 = Some (tmpl, n3)"
        using assms a b True by (auto simp: usr_connect_def bind_eq_Some_conv)
      have s3: "stays t n n3" by (rule stays_goes [OF s2 tcp_template_stays [OF c]])
      show ?thesis
      proof (cases tmpl)
        case None
        then have "in_pcbdisconnect i n3 = Some n'" using assms a b True e2 c by (auto simp: usr_connect_def)
        then show ?thesis by (rule goes_reflcl [OF stays_goes [OF s3 stays_in_pcbdisconnect]])
      next
        case (Some tm)
        then obtain n4 n5 where d: "soisconnecting s n3 = Some n4" "tp_mod u (\<lambda>tp. tcp_sendseqinit
                (set_timer TCPT_KEEP TCPTV_KEEP (tp\<lparr>t_template := Some tm, t_state := TCPS_SYN_SENT, iss := tcp_iss n4\<rparr>))) n4 = Some n5"
            "tcp_output E u (n5\<lparr>tcp_iss := tcp_iss n5 + 64\<rparr>) = Some (e, n')"
          using assms a b True e2 c by (auto simp: usr_connect_def bind_eq_Some_conv)
        have s4: "stays t n n4" by (rule stays_goes [OF s3 stays_frame [OF more_soisconnecting [THEN tcpcbs_net, OF d(1)]]])
        have "goes (usr_arc PRU_CONNECT)\<^sup>=\<^sup>= t n4 n5"
          using d(2) goes_reflcl [OF stays_refl, of "usr_arc PRU_CONNECT" t n4]
          by (auto simp: tp_mod_def tcp_sendseqinit_def intro: usr_arc.intros)
        then have "goes (usr_arc PRU_CONNECT)\<^sup>=\<^sup>= t n n5" by (rule stays_goes [OF s4])
        then show ?thesis using tcp_output_stays [OF d(3), of t] by (auto elim: goes_stays)
      qed
    qed
  qed
qed

lemma usr_bind_any_stays: "usr_bind_any i inp n = Some (e, n') \<Longrightarrow> stays t n n'"
  by (auto simp: usr_bind_any_def split: if_splits intro: stays_frame imore_in_pcbbind [THEN tcpcbs_more])

lemma usr_switch_goes:
  fixes n n' :: "'a tcpnet_scheme"
  assumes "usr_switch E m nam timer s i u req n = Some (e, out, n')"
  shows "goes (usr_arc req)\<^sup>=\<^sup>= t n n'"
proof -
  show ?thesis
  proof (cases req)
    case PRU_DETACH
    then show ?thesis using assms
      by (auto simp: usr_switch_def Let_def bind_eq_Some_conv split: if_splits
          intro: goes_reflcl [OF tcp_close_stays] tcp_disconnect_goes [where req = PRU_DETACH])
  next
    case PRU_BIND
    then show ?thesis using assms
      by (auto simp: usr_switch_def Let_def intro: goes_reflcl [OF stays_frame [OF imore_in_pcbbind [THEN tcpcbs_more]]])
  next
    case PRU_LISTEN
    then obtain inp e1 n1 where b: "inpcbs n i = Some inp" "usr_bind_any i inp n = Some (e1, n1)"
        "e1 \<noteq> None \<and> n' = n1 \<or> tp_mod u (\<lambda>tp. tp\<lparr>t_state := TCPS_LISTEN\<rparr>) n1 = Some n'"
      using assms by (auto simp: usr_switch_def Let_def bind_eq_Some_conv split: if_splits)
    have s1: "stays t n n1" by (rule usr_bind_any_stays [OF b(2)])
    have "goes (usr_arc req)\<^sup>=\<^sup>= t n1 n'"
      using b(3) PRU_LISTEN goes_reflcl [OF stays_refl, of "usr_arc req" t n1] by (auto simp: tp_mod_def st_at_def usr_arc.simps)
    then show ?thesis by (rule stays_goes [OF s1])
  next
    case PRU_CONNECT
    then show ?thesis using assms by (auto simp: usr_switch_def Let_def intro: usr_connect_goes)
  next
    case PRU_DISCONNECT
    then show ?thesis using assms
      by (auto simp: usr_switch_def Let_def intro: tcp_disconnect_goes [where req = PRU_DISCONNECT])
  next
    case PRU_SHUTDOWN
    then obtain n1 al n2 where b: "socantsendmore s n = Some n1" "tcp_usrclosed u n1 = Some (al, n2)"
        "n' = n2 \<or> (\<exists>e. tcp_output E u n2 = Some (e, n'))"
      using assms by (auto simp: usr_switch_def Let_def bind_eq_Some_conv split: if_splits)
    have "stays t n n1" by (rule stays_frame) (rule more_socantsendmore [THEN tcpcbs_net, OF b(1)])
    then have "goes (usr_arc req)\<^sup>=\<^sup>= t n n2"
      by (rule stays_goes) (rule tcp_usrclosed_goes [OF b(2)], simp add: PRU_SHUTDOWN)
    moreover have "stays t n2 n'" using b(3) tcp_output_stays by auto
    ultimately show ?thesis by (rule goes_stays)
  next
    case PRU_SEND
    then obtain n1 e where "so_append_snd s m n = Some n1" "tcp_output E u n1 = Some (e, n')"
      using assms by (auto simp: usr_switch_def Let_def bind_eq_Some_conv)
    then show ?thesis by (intro goes_reflcl) (rule stays_goes [OF so_append_snd_stays tcp_output_stays])
  qed (use assms in \<open>auto simp: usr_switch_def Let_def bind_eq_Some_conv split: if_splits
         intro!: goes_reflcl intro: tcp_output_stays tcp_drop_stays usr_sendoob_stays tcp_timers_stays\<close>)
qed

text \<open>C22: what a user, or a timer, may do to a connection.  Whatever the request and on whatever socket, the
  state of every connection that survives it is unchanged or has moved along one arc of that request: to
  LISTEN or SYN_SENT by the requests of that name, and on a close, a disconnection or a shutdown to
  FIN_WAIT_1 from SYN_RECEIVED and ESTABLISHED, to LAST_ACK from CLOSE_WAIT; the timers only close.\<close>

theorem tcp_usrreq_fsm:
  assumes "tcp_usrreq E m nam timer s req n = Some (e, out, n')" "t < nextaddr n"
    "tcpcbs n t = Some tp" "tcpcbs n' t = Some tp'"
  shows "t_state tp' = t_state tp \<or> usr_arc req (t_state tp) (t_state tp')"
proof -
  obtain so where so: "sockets n s = Some so" using assms(1) by (auto simp: tcp_usrreq_def bind_eq_Some_conv)
  have "goes (usr_arc req)\<^sup>=\<^sup>= t n n'"
  proof (cases "so_pcb so = 0")
    case True
    show ?thesis
    proof (cases "req = PRU_ATTACH")
      case False
      then show ?thesis using assms(1) so True by (auto simp: tcp_usrreq_def intro: goes_reflcl)
    next
      case at: True
      then obtain e1 n1 where a: "tcp_attach s n = Some (e1, n1)"
         "n' = n1 \<or> (\<exists>f. so_mod s f n1 = Some n')"
        using assms(1) so True by (auto simp: tcp_usrreq_def bind_eq_Some_conv split: if_splits)
      then show ?thesis using tcp_attach_new(1) [OF a(1) assms(2)]
        by (auto simp: so_mod_def intro: goes_reflcl)
    qed
  next
    case False
    then obtain inp :: inpcb where "usr_switch E m nam timer s (so_pcb so) (inp_ppcb inp) req n = Some (e, out, n')"
      using assms(1) so by (auto simp: tcp_usrreq_def bind_eq_Some_conv)
    then show ?thesis by (rule usr_switch_goes)
  qed
  then show ?thesis using assms(3,4) by (auto simp: goes_def)
qed

theorem tcp_usrreq_fsm_witness:
  "\<exists>e out n' tp'. tcp_usrreq env_demo [] None None 4 PRU_SHUTDOWN fsm_demo = Some (e, out, n') \<and> tcpcbs n' 30 = Some tp' \<and>
     (t_state tp' = TCPS_CLOSING \<or> usr_arc PRU_SHUTDOWN TCPS_CLOSING (t_state tp'))"
proof -
  let ?tp = "tcp_demo_cb\<lparr>t_state := TCPS_CLOSING, snd_nxt := 101, snd_max := 101, rcv_adv := 2948\<rparr>"
  have "\<exists>e out n' tp'. tcp_usrreq env_demo [] None None 4 PRU_SHUTDOWN fsm_demo = Some (e, out, n') \<and> tcpcbs n' 30 = Some tp'"
    apply (simp add: tcp_usrreq_def usr_switch_def fsm_demo_def tcp_demo_def tcp_demo_cb_def tcp_demo_so_def so_demo_def sb_clear_def
        so_clear_def tcpcb_clear_def inp_clear_def env_demo_def Let_def so_put_def socantsendmore_def so_mod_def sowwakeup_def
        sbwakeup_def net_event_def tcp_usrclosed_def less_eq_tcps_def)
    apply (simp add: tcp_output.simps [of _ 30] tp_socket_def out_decide_def out_off_def out_flags_def out_len_def Let_def
        out_window_def sbspace_def SEQ_GT_def SEQ_LT_def SEQ_GEQ_def SEQ_LEQ_def)
    done
  then obtain e out n' tp' where r: "tcp_usrreq env_demo [] None None 4 PRU_SHUTDOWN fsm_demo = Some (e, out, n')" "tcpcbs n' 30 = Some tp'"
    by blast
  have d: "30 < nextaddr fsm_demo" "tcpcbs fsm_demo 30 = Some ?tp"
    by (simp_all add: fsm_demo_def) (simp add: tcp_demo_def)
  show ?thesis using tcp_usrreq_fsm [OF r(1) d r(2)] r by auto
qed

end
