(* ===== verification/Frag_Runs.thy ===== *)
theory Frag_Runs
  imports Main
begin

text \<open>
  Free fragments of a block as the lengths of its maximal runs of free fragments: the abstract view of the
  map which the summary \<open>cg_frsum\<close> of a cylinder group counts.  A block is a list of bits, true for free.
\<close>

fun runs_from :: "nat \<Rightarrow> bool list \<Rightarrow> nat list" where
  "runs_from n [] = (if n = 0 then [] else [n])"
| "runs_from n (True # bs) = runs_from (Suc n) bs"
| "runs_from n (False # bs) = (if n = 0 then runs_from 0 bs else n # runs_from 0 bs)"

definition runs :: "bool list \<Rightarrow> nat list" where
  "runs = runs_from 0"

text \<open>A run of length \<open>L\<close> that starts at \<open>s\<close> and that no free fragment extends.\<close>

definition maxrun :: "bool list \<Rightarrow> nat \<Rightarrow> nat \<Rightarrow> bool" where
  "maxrun bl s L \<longleftrightarrow> 0 < L \<and> s + L \<le> length bl \<and> (\<forall>j < L. bl ! (s + j)) \<and> (s = 0 \<or> \<not> bl ! (s - 1)) \<and>
     (s + L = length bl \<or> \<not> bl ! (s + L))"

lemma maxrun_in:
  assumes "maxrun bl s L" "s \<le> i" "i < s + L"
  shows "bl ! i"
proof -
  have "bl ! (s + (i - s))" using assms unfolding maxrun_def by (metis add_less_cancel_left le_add_diff_inverse)
  then show ?thesis using assms(2) by simp
qed

lemma maxrun_next:
  assumes "maxrun bl s L" "maxrun bl t K" "s \<le> t"
  shows "t = s \<or> s + L < t"
proof (rule ccontr)
  assume a: "\<not> (t = s \<or> s + L < t)"
  then have "s \<le> t - 1" "t - 1 < s + L" using assms(3) by auto
  then have "bl ! (t - 1)" by (rule maxrun_in [OF assms(1)])
  then show False using assms(2) a assms(3) by (auto simp: maxrun_def)
qed

section \<open>Runs of parts\<close>

lemma runs_from_replicate: "runs_from n (replicate k True @ bs) = runs_from (n + k) bs"
  by (induction k arbitrary: n) auto

lemma runs_from_False: "runs_from n (xs @ False # ys) = runs_from n xs @ runs_from 0 ys"
  by (induction n xs rule: runs_from.induct) auto

lemma runs_Nil [simp]: "runs [] = []"
  by (simp add: runs_def)

lemma runs_replicate: "runs (replicate k True) = (if k = 0 then [] else [k])"
  using runs_from_replicate [of 0 k "[]"] by (simp add: runs_def)

lemma runs_used: "runs (replicate k False @ bs) = runs bs"
  by (induction k) (auto simp: runs_def)

lemma runs_mid:
  assumes "xs = [] \<or> \<not> last xs" "ys = [] \<or> \<not> hd ys"
  shows "runs (xs @ replicate k True @ ys) = runs xs @ (if k = 0 then [] else [k]) @ runs ys"
proof -
  have y: "runs_from k ys = (if k = 0 then [] else [k]) @ runs ys" for k using assms(2) by (cases ys) (auto simp: runs_def)
  show ?thesis
  proof (cases "xs = []")
    case True
    have "runs (replicate k True @ ys) = runs_from k ys" unfolding runs_def runs_from_replicate by simp
    then show ?thesis by (simp add: True y)
  next
    case False
    then have "xs = butlast xs @ [False]" using assms(1) append_butlast_last_id [of xs] by simp
    then obtain zs where xs: "xs = zs @ [False]" by blast
    have "runs xs = runs zs" unfolding xs runs_def runs_from_False by simp
    moreover have "runs (xs @ replicate k True @ ys) = runs zs @ runs_from k ys"
      unfolding xs runs_def append_assoc append_Cons append_Nil runs_from_False runs_from_replicate by simp
    ultimately show ?thesis by (simp add: y)
  qed
qed

lemma maxrun_split:
  assumes "maxrun bl s L"
  shows "bl = take s bl @ replicate L True @ drop (s + L) bl" "take s bl = [] \<or> \<not> last (take s bl)"
    "drop (s + L) bl = [] \<or> \<not> hd (drop (s + L) bl)"
proof -
  have l: "s + L \<le> length bl" and t: "\<forall>j < L. bl ! (s + j)" and e: "s = 0 \<or> \<not> bl ! (s - 1)"
    and f: "s + L = length bl \<or> \<not> bl ! (s + L)" using assms by (simp_all add: maxrun_def)
  have "take L (drop s bl) = replicate L True" by (rule nth_equalityI) (use l t in simp_all)
  then show "bl = take s bl @ replicate L True @ drop (s + L) bl"
    using append_take_drop_id [of L "drop s bl"] append_take_drop_id [of s bl] by (simp add: add.commute)
  show "take s bl = [] \<or> \<not> last (take s bl)" using e l by (cases "s = 0 \<or> bl = []") (auto simp: last_conv_nth min_absorb2)
  show "drop (s + L) bl = [] \<or> \<not> hd (drop (s + L) bl)" using f l by (cases "s + L = length bl") (simp_all add: hd_drop_conv_nth)
qed

lemma runs_split:
  assumes "maxrun bl s L"
  shows "runs bl = runs (take s bl) @ [L] @ runs (drop (s + L) bl)"
  using runs_mid [OF maxrun_split(2,3) [OF assms], of L] assms unfolding maxrun_split(1) [OF assms, symmetric]
  by (simp add: maxrun_def)

text \<open>Taking the first \<open>d\<close> fragments of a run.\<close>

definition cut_run :: "bool list \<Rightarrow> nat \<Rightarrow> nat \<Rightarrow> nat \<Rightarrow> bool list" where
  "cut_run bl s L d = take s bl @ replicate d False @ replicate (L - d) True @ drop (s + L) bl"

lemma runs_cut:
  assumes "maxrun bl s L" "d \<le> L" "0 < d"
  shows "runs (cut_run bl s L d) = runs (take s bl) @ (if d = L then [] else [L - d]) @ runs (drop (s + L) bl)"
proof -
  have "take s bl @ replicate d False = take s bl @ [False] @ replicate (d - 1) False"
    using assms(3) by (cases d) auto
  then have "runs (cut_run bl s L d) = runs (take s bl) @ runs (replicate (d - 1) False @ replicate (L - d) True @ drop (s + L) bl)"
    using runs_from_False [of 0 "take s bl"] by (simp add: cut_run_def runs_def)
  then show ?thesis using runs_mid [of "[]"] maxrun_split(3) [OF assms(1)] assms(2) by (simp add: runs_used)
qed

lemma cut_run_nth:
  assumes "maxrun bl s L" "d \<le> L" "i < length bl"
  shows "cut_run bl s L d ! i \<longleftrightarrow> bl ! i \<and> \<not> (s \<le> i \<and> i < s + d)"
proof -
  have l: "s + L \<le> length bl" "\<forall>j < L. bl ! (s + j)" using assms(1) by (auto simp: maxrun_def)
  then have "s \<le> i \<Longrightarrow> i < s + L \<Longrightarrow> bl ! i" by (metis add_less_cancel_left le_add_diff_inverse)
  then show ?thesis using l assms(2,3) by (auto simp: cut_run_def nth_append min_def)
qed

lemma length_cut_run: "maxrun bl s L \<Longrightarrow> d \<le> L \<Longrightarrow> length (cut_run bl s L d) = length bl"
  by (simp add: cut_run_def maxrun_def)

section \<open>Counting\<close>

lemma sum_runs_from: "sum_list (runs_from n bl) = n + length (filter id bl)"
  by (induction n bl rule: runs_from.induct) auto

lemma sum_runs: "sum_list (runs bl) = length (filter id bl)"
  by (simp add: runs_def sum_runs_from)

lemma maxrun_True: "replicate n True @ True # bs = replicate (Suc n) True @ bs"
  by (simp add: replicate_app_Cons_same)

lemma maxrun_False:
  "maxrun (replicate n True @ False # bs) s L \<longleftrightarrow> (s = 0 \<and> L = n \<and> 0 < n) \<or> (n < s \<and> maxrun bs (s - Suc n) L)"
proof (cases "n < s")
  case True
  then obtain t where s: "s = Suc (n + t)" by (metis less_imp_Suc_add)
  have "(replicate n True @ False # bs) ! (s + j) = bs ! (t + j)" for j by (simp add: s nth_append)
  moreover have "(replicate n True @ False # bs) ! (s - 1) \<longleftrightarrow> t \<noteq> 0 \<and> bs ! (t - 1)"
    by (cases t) (simp_all add: s nth_append)
  ultimately show ?thesis by (simp add: s maxrun_def)
next
  case False
  have lo: "i < n \<Longrightarrow> (replicate n True @ False # bs) ! i" for i by (simp add: nth_append)
  have no: "\<not> (replicate n True @ False # bs) ! n" by (simp add: nth_append)
  show ?thesis
  proof
    assume m: "maxrun (replicate n True @ False # bs) s L"
    have "s + L \<le> n"
    proof (rule ccontr)
      assume "\<not> s + L \<le> n"
      then have "n - s < L" "s + (n - s) = n" using False by simp_all
      then show False using m no by (metis maxrun_def)
    qed
    moreover have "s = 0"
    proof (rule ccontr)
      assume "s \<noteq> 0"
      then have "s - 1 < n" using False by simp
      then show False using m lo \<open>s \<noteq> 0\<close> by (simp add: maxrun_def)
    qed
    moreover have "\<not> L < n" using m lo [of L] \<open>s = 0\<close> by (auto simp: maxrun_def)
    ultimately show "(s = 0 \<and> L = n \<and> 0 < n) \<or> (n < s \<and> maxrun bs (s - Suc n) L)" using m by (auto simp: maxrun_def)
  next
    assume "(s = 0 \<and> L = n \<and> 0 < n) \<or> (n < s \<and> maxrun bs (s - Suc n) L)"
    then show "maxrun (replicate n True @ False # bs) s L" using False lo no by (auto simp: maxrun_def)
  qed
qed

text \<open>The count of a length in the list of runs is the number of places where such a run starts.\<close>

lemma count_runs_from:
  "0 < L \<Longrightarrow> count_list (runs_from n bl) L = card {s. maxrun (replicate n True @ bl) s L}"
proof (induction n bl rule: runs_from.induct)
  case (1 n)
  have "{s. maxrun (replicate n True) s L} = (if L = n \<and> 0 < n then {0} else {})" (is "?A = ?B")
    by (auto simp: maxrun_def)
  then show ?case using 1 by simp
next
  case (2 n bs)
  then show ?case by (simp add: maxrun_True del: replicate.simps)
next
  case (3 n bs)
  let ?B = "{t. maxrun bs t L}"
  have f: "finite ?B" by (rule finite_subset [of _ "{..length bs}"]) (auto simp: maxrun_def)
  have "{s. maxrun (replicate n True @ False # bs) s L} = (if L = n then {0} else {}) \<union> (\<lambda>t. Suc n + t) ` ?B"
    (is "?A = ?C")
  proof (rule set_eqI)
    fix s
    have "(\<exists>t. maxrun bs t L \<and> s = Suc n + t) \<longleftrightarrow> n < s \<and> maxrun bs (s - Suc n) L"
      by (metis Suc_le_eq add_diff_cancel_left' le_add1 le_add_diff_inverse)
    then show "s \<in> ?A \<longleftrightarrow> s \<in> ?C" using 3(3) by (simp add: maxrun_False image_iff)
  qed
  moreover have "card ((\<lambda>t. Suc n + t) ` ?B) = card ?B" by (rule card_image) (simp add: inj_on_def)
  moreover have "0 \<notin> (\<lambda>t. Suc n + t) ` ?B" by auto
  ultimately have "card {s. maxrun (replicate n True @ False # bs) s L} = (if L = n then 1 else 0) + card ?B"
    using f by (auto simp: card_insert_if)
  then show ?case using 3 by auto
qed

lemma count_runs: "0 < L \<Longrightarrow> count_list (runs bl) L = card {s. maxrun bl s L}"
  using count_runs_from [of L 0 bl] by (simp add: runs_def)

lemma runs_maxrun: "0 < L \<Longrightarrow> L \<in> set (runs bl) \<longleftrightarrow> (\<exists>s. maxrun bl s L)"
proof -
  assume L: "0 < L"
  have "finite {s. maxrun bl s L}" by (rule finite_subset [of _ "{..length bl}"]) (auto simp: maxrun_def)
  then show ?thesis 
    using count_runs [OF L, of bl] count_list_0_iff [of "runs bl" L] card_0_eq [of "{s. maxrun bl s L}"] by auto
qed

end
