(* ===== verification/Ufs_Subr.thy ===== *)
theory Ufs_Subr
  imports Kern_Prelude
begin

text \<open>
  The bit maps of the file system: sys/ufs_subr.c, ufs_tables.c and the macros of h/param.h and h/fs.h.  A
  map is a function from byte indices to bytes; bit 1 means free in the map of fragments.  A block is
  \<open>frag\<close> fragments, an aligned group of bits inside one byte; \<open>frag\<close> is 1, 2, 4 or 8.
\<close>

unbundle bit_operations_syntax

section \<open>Bits\<close>

type_synonym bitmap = "nat \<Rightarrow> byte"

definition isset :: "bitmap \<Rightarrow> nat \<Rightarrow> bool" where
  "isset a i \<longleftrightarrow> a (i div 8) AND push_bit (i mod 8) 1 \<noteq> 0"

definition isclr :: "bitmap \<Rightarrow> nat \<Rightarrow> bool" where
  "isclr a i \<longleftrightarrow> a (i div 8) AND push_bit (i mod 8) 1 = 0"

definition setbit :: "bitmap \<Rightarrow> nat \<Rightarrow> bitmap" where
  "setbit a i = a(i div 8 := a (i div 8) OR push_bit (i mod 8) 1)"

definition clrbit :: "bitmap \<Rightarrow> nat \<Rightarrow> bitmap" where
  "clrbit a i = a(i div 8 := a (i div 8) AND NOT (push_bit (i mod 8) 1))"

definition howmany :: "nat \<Rightarrow> nat \<Rightarrow> nat" where
  "howmany x y = (x + (y - 1)) div y"

definition roundup :: "nat \<Rightarrow> nat \<Rightarrow> nat" where
  "roundup x y = ((x + (y - 1)) div y) * y"

section \<open>Blocks\<close>

text \<open>Block operations, with the panic on another number of fragments.\<close>

definition isblock :: "nat \<Rightarrow> bitmap \<Rightarrow> nat \<Rightarrow> bool option" where
  "isblock frag cp h =
     (if frag = 8 then Some (cp h = 0xff)
      else if frag = 4 then let mask = push_bit (if odd h then 4 else 0) 0x0f in Some (cp (h div 2) AND mask = mask)
      else if frag = 2 then let mask = push_bit (2 * (h mod 4)) 0x03 in Some (cp (h div 4) AND mask = mask)
      else if frag = 1 then let mask = push_bit (h mod 8) 0x01 in Some (cp (h div 8) AND mask = mask)
      else None)"

definition clrblock :: "nat \<Rightarrow> bitmap \<Rightarrow> nat \<Rightarrow> bitmap option" where
  "clrblock frag cp h =
     (if frag = 8 then Some (cp(h := 0))
      else if frag = 4 then Some (cp(h div 2 := cp (h div 2) AND NOT (push_bit (if odd h then 4 else 0) 0x0f)))
      else if frag = 2 then Some (cp(h div 4 := cp (h div 4) AND NOT (push_bit (2 * (h mod 4)) 0x03)))
      else if frag = 1 then Some (cp(h div 8 := cp (h div 8) AND NOT (push_bit (h mod 8) 0x01)))
      else None)"

definition setblock :: "nat \<Rightarrow> bitmap \<Rightarrow> nat \<Rightarrow> bitmap option" where
  "setblock frag cp h =
     (if frag = 8 then Some (cp(h := 0xff))
      else if frag = 4 then Some (cp(h div 2 := cp (h div 2) OR push_bit (if odd h then 4 else 0) 0x0f))
      else if frag = 2 then Some (cp(h div 4 := cp (h div 4) OR push_bit (2 * (h mod 4)) 0x03))
      else if frag = 1 then Some (cp(h div 8 := cp (h div 8) OR push_bit (h mod 8) 0x01))
      else None)"

definition blkmap :: "nat \<Rightarrow> bitmap \<Rightarrow> nat \<Rightarrow> nat" where
  "blkmap frag cp loc = drop_bit (loc mod 8) (unat (cp (loc div 8))) AND drop_bit (8 - frag) 0xff"

section \<open>The tables\<close>

definition around :: "nat list" where
  "around = [0x3, 0x7, 0xf, 0x1f, 0x3f, 0x7f, 0xff, 0x1ff, 0x3ff]"

definition inside :: "nat list" where
  "inside = [0x0, 0x2, 0x6, 0xe, 0x1e, 0x3e, 0x7e, 0xfe, 0x1fe]"

definition fragtbl124 :: "nat list" where
  "fragtbl124 =
    [0x00, 0x16, 0x16, 0x2a, 0x16, 0x16, 0x26, 0x4e, 0x16, 0x16, 0x16, 0x3e, 0x2a, 0x3e, 0x4e, 0x8a,
     0x16, 0x16, 0x16, 0x3e, 0x16, 0x16, 0x36, 0x5e, 0x16, 0x16, 0x16, 0x3e, 0x3e, 0x3e, 0x5e, 0x9e,
     0x16, 0x16, 0x16, 0x3e, 0x16, 0x16, 0x36, 0x5e, 0x16, 0x16, 0x16, 0x3e, 0x3e, 0x3e, 0x5e, 0x9e,
     0x2a, 0x3e, 0x3e, 0x2a, 0x3e, 0x3e, 0x2e, 0x6e, 0x3e, 0x3e, 0x3e, 0x3e, 0x2a, 0x3e, 0x6e, 0xaa,
     0x16, 0x16, 0x16, 0x3e, 0x16, 0x16, 0x36, 0x5e, 0x16, 0x16, 0x16, 0x3e, 0x3e, 0x3e, 0x5e, 0x9e,
     0x16, 0x16, 0x16, 0x3e, 0x16, 0x16, 0x36, 0x5e, 0x16, 0x16, 0x16, 0x3e, 0x3e, 0x3e, 0x5e, 0x9e,
     0x26, 0x36, 0x36, 0x2e, 0x36, 0x36, 0x26, 0x6e, 0x36, 0x36, 0x36, 0x3e, 0x2e, 0x3e, 0x6e, 0xae,
     0x4e, 0x5e, 0x5e, 0x6e, 0x5e, 0x5e, 0x6e, 0x4e, 0x5e, 0x5e, 0x5e, 0x7e, 0x6e, 0x7e, 0x4e, 0xce,
     0x16, 0x16, 0x16, 0x3e, 0x16, 0x16, 0x36, 0x5e, 0x16, 0x16, 0x16, 0x3e, 0x3e, 0x3e, 0x5e, 0x9e,
     0x16, 0x16, 0x16, 0x3e, 0x16, 0x16, 0x36, 0x5e, 0x16, 0x16, 0x16, 0x3e, 0x3e, 0x3e, 0x5e, 0x9e,
     0x16, 0x16, 0x16, 0x3e, 0x16, 0x16, 0x36, 0x5e, 0x16, 0x16, 0x16, 0x3e, 0x3e, 0x3e, 0x5e, 0x9e,
     0x3e, 0x3e, 0x3e, 0x3e, 0x3e, 0x3e, 0x3e, 0x7e, 0x3e, 0x3e, 0x3e, 0x3e, 0x3e, 0x3e, 0x7e, 0xbe,
     0x2a, 0x3e, 0x3e, 0x2a, 0x3e, 0x3e, 0x2e, 0x6e, 0x3e, 0x3e, 0x3e, 0x3e, 0x2a, 0x3e, 0x6e, 0xaa,
     0x3e, 0x3e, 0x3e, 0x3e, 0x3e, 0x3e, 0x3e, 0x7e, 0x3e, 0x3e, 0x3e, 0x3e, 0x3e, 0x3e, 0x7e, 0xbe,
     0x4e, 0x5e, 0x5e, 0x6e, 0x5e, 0x5e, 0x6e, 0x4e, 0x5e, 0x5e, 0x5e, 0x7e, 0x6e, 0x7e, 0x4e, 0xce,
     0x8a, 0x9e, 0x9e, 0xaa, 0x9e, 0x9e, 0xae, 0xce, 0x9e, 0x9e, 0x9e, 0xbe, 0xaa, 0xbe, 0xce, 0x8a]"

definition fragtbl8 :: "nat list" where
  "fragtbl8 =
    [0x00, 0x01, 0x01, 0x02, 0x01, 0x01, 0x02, 0x04, 0x01, 0x01, 0x01, 0x03, 0x02, 0x03, 0x04, 0x08,
     0x01, 0x01, 0x01, 0x03, 0x01, 0x01, 0x03, 0x05, 0x02, 0x03, 0x03, 0x02, 0x04, 0x05, 0x08, 0x10,
     0x01, 0x01, 0x01, 0x03, 0x01, 0x01, 0x03, 0x05, 0x01, 0x01, 0x01, 0x03, 0x03, 0x03, 0x05, 0x09,
     0x02, 0x03, 0x03, 0x02, 0x03, 0x03, 0x02, 0x06, 0x04, 0x05, 0x05, 0x06, 0x08, 0x09, 0x10, 0x20,
     0x01, 0x01, 0x01, 0x03, 0x01, 0x01, 0x03, 0x05, 0x01, 0x01, 0x01, 0x03, 0x03, 0x03, 0x05, 0x09,
     0x01, 0x01, 0x01, 0x03, 0x01, 0x01, 0x03, 0x05, 0x03, 0x03, 0x03, 0x03, 0x05, 0x05, 0x09, 0x11,
     0x02, 0x03, 0x03, 0x02, 0x03, 0x03, 0x02, 0x06, 0x03, 0x03, 0x03, 0x03, 0x02, 0x03, 0x06, 0x0a,
     0x04, 0x05, 0x05, 0x06, 0x05, 0x05, 0x06, 0x04, 0x08, 0x09, 0x09, 0x0a, 0x10, 0x11, 0x20, 0x40,
     0x01, 0x01, 0x01, 0x03, 0x01, 0x01, 0x03, 0x05, 0x01, 0x01, 0x01, 0x03, 0x03, 0x03, 0x05, 0x09,
     0x01, 0x01, 0x01, 0x03, 0x01, 0x01, 0x03, 0x05, 0x03, 0x03, 0x03, 0x03, 0x05, 0x05, 0x09, 0x11,
     0x01, 0x01, 0x01, 0x03, 0x01, 0x01, 0x03, 0x05, 0x01, 0x01, 0x01, 0x03, 0x03, 0x03, 0x05, 0x09,
     0x03, 0x03, 0x03, 0x03, 0x03, 0x03, 0x03, 0x07, 0x05, 0x05, 0x05, 0x07, 0x09, 0x09, 0x11, 0x21,
     0x02, 0x03, 0x03, 0x02, 0x03, 0x03, 0x02, 0x06, 0x03, 0x03, 0x03, 0x03, 0x02, 0x03, 0x06, 0x0a,
     0x03, 0x03, 0x03, 0x03, 0x03, 0x03, 0x03, 0x07, 0x02, 0x03, 0x03, 0x02, 0x06, 0x07, 0x0a, 0x12,
     0x04, 0x05, 0x05, 0x06, 0x05, 0x05, 0x06, 0x04, 0x05, 0x05, 0x05, 0x07, 0x06, 0x07, 0x04, 0x0c,
     0x08, 0x09, 0x09, 0x0a, 0x09, 0x09, 0x0a, 0x0c, 0x10, 0x11, 0x11, 0x12, 0x20, 0x21, 0x40, 0x80]"

text \<open>The null entries of the table of tables are \<open>None\<close>.\<close>

definition fragtbl :: "nat \<Rightarrow> nat list option" where
  "fragtbl frag = (if frag \<in> {1, 2, 4} then Some fragtbl124 else if frag = 8 then Some fragtbl8 else None)"

section \<open>Fragment accounting\<close>

text \<open>The inner loop of \<open>fragacct\<close>: how often \<open>cnt\<close> is added.\<close>

function fragacct_pos :: "nat \<Rightarrow> nat \<Rightarrow> nat \<Rightarrow> nat \<Rightarrow> nat \<Rightarrow> nat \<Rightarrow> nat" where
  "fragacct_pos frag fragmap siz pos field subfield =
     (if pos \<le> frag then
        (if fragmap AND field = subfield
         then Suc (fragacct_pos frag fragmap siz (pos + siz + 1) (push_bit (siz + 1) field) (push_bit (siz + 1) subfield))
         else fragacct_pos frag fragmap siz (pos + 1) (push_bit 1 field) (push_bit 1 subfield))
      else 0)"
  by pat_completeness auto
termination by (relation "measure (\<lambda>(frag, fragmap, siz, pos, field, subfield). Suc frag - pos)") auto

declare fragacct_pos.simps [simp del]

definition fragacct_step :: "nat \<Rightarrow> nat \<Rightarrow> nat \<Rightarrow> int \<Rightarrow> nat \<Rightarrow> (nat \<Rightarrow> int) \<Rightarrow> (nat \<Rightarrow> int)" where
  "fragacct_step frag inblk fragmap cnt siz fl =
     (if inblk AND push_bit (siz + frag mod 8) 1 = 0 then fl
      else fl(siz := fl siz + int (fragacct_pos frag fragmap siz siz (around ! siz) (inside ! siz)) * cnt))"

definition fragacct :: "nat \<Rightarrow> nat \<Rightarrow> (nat \<Rightarrow> int) \<Rightarrow> int \<Rightarrow> (nat \<Rightarrow> int) option" where
  "fragacct frag fragmap fraglist cnt =
     map_option (\<lambda>tbl.
       fold (fragacct_step frag (push_bit 1 (tbl ! fragmap)) (push_bit 1 fragmap) cnt) [1..<frag] fraglist) (fragtbl frag)"

section \<open>Bits as a set\<close>

lemma isset_bit: "isset a i = bit (a (i div 8)) (i mod 8)"
  by (simp add: isset_def bit_iff_and_push_bit_not_eq_0)

lemma isclr_isset: "isclr a i = (\<not> isset a i)"
  by (simp add: isclr_def isset_def)

lemma bit_byte: "bit (2 ^ k :: byte) n \<longleftrightarrow> n = k \<and> k < 8"
  by (auto simp: bit_exp_iff)

lemma index_eq: "i div 8 = j div 8 \<Longrightarrow> i mod 8 = j mod 8 \<Longrightarrow> i = (j :: nat)"
  by (metis div_mult_mod_eq)

lemma isset_setbit [simp]: "isset (setbit a i) j \<longleftrightarrow> j = i \<or> isset a j"
proof (cases "j div 8 = i div 8")
  case True
  then have "j mod 8 = i mod 8 \<longleftrightarrow> j = i" using index_eq by metis
  then show ?thesis using True by (simp add: isset_bit setbit_def bit_or_iff bit_byte) blast
next
  case False
  then show ?thesis by (auto simp: isset_bit setbit_def)
qed

lemma isset_clrbit [simp]: "isset (clrbit a i) j \<longleftrightarrow> j \<noteq> i \<and> isset a j"
proof (cases "j div 8 = i div 8")
  case True
  then have "j mod 8 = i mod 8 \<longleftrightarrow> j = i" using index_eq by metis
  then show ?thesis using True by (simp add: isset_bit clrbit_def bit_and_iff bit_not_iff bit_byte) blast
next
  case False
  then show ?thesis by (auto simp: isset_bit clrbit_def)
qed

text \<open>The bits of block \<open>h\<close>, as a list.\<close>

definition blk :: "bitmap \<Rightarrow> nat \<Rightarrow> nat \<Rightarrow> bool list" where
  "blk a frag h = map (\<lambda>j. isset a (h * frag + j)) [0..<frag]"

lemma length_blk [simp]: "length (blk a frag h) = frag"
  by (simp add: blk_def)

lemma nth_blk [simp]: "j < frag \<Longrightarrow> blk a frag h ! j = isset a (h * frag + j)"
  by (simp add: blk_def)

definition frag_ok :: "nat \<Rightarrow> bool" where
  "frag_ok frag \<longleftrightarrow> frag \<in> {1, 2, 4, 8}"

text \<open>Where in the map a block lies.\<close>

lemma blk_pos:
  assumes "frag_ok frag" "j < frag"
  shows "(h * frag + j) div 8 = h div (8 div frag)" "(h * frag + j) mod 8 = frag * (h mod (8 div frag)) + j"
proof -
  let ?per = "8 div frag"
  have e: "frag * ?per = 8" using assms(1) by (auto simp: frag_ok_def)
  have "(frag * h + j) div frag = h" "(frag * h + j) mod frag = j" using assms(2) by simp_all
  then have "(frag * h + j) div (frag * ?per) = h div ?per" "(frag * h + j) mod (frag * ?per) = frag * (h mod ?per) + j"
    by (simp_all only: div_mult2_eq mod_mult2_eq)
  then show "(h * frag + j) div 8 = h div ?per" "(h * frag + j) mod 8 = frag * (h mod ?per) + j"
    unfolding e by (simp_all only: mult.commute [of h])
qed

lemma blk_off: "frag_ok frag \<Longrightarrow> frag * (h mod (8 div frag)) + frag \<le> 8"
proof -
  assume f: "frag_ok frag"
  then have "h mod (8 div frag) + 1 \<le> 8 div frag" by (auto simp: frag_ok_def intro: Suc_leI)
  from mult_le_mono2 [OF this, of frag] show ?thesis using f by (auto simp: frag_ok_def)
qed

definition bits_at :: "nat \<Rightarrow> nat \<Rightarrow> byte" where
  "bits_at s k = push_bit s (mask k)"

lemma bit_bits_at: "s + k \<le> 8 \<Longrightarrow> bit (bits_at s k) n \<longleftrightarrow> s \<le> n \<and> n < s + k"
  by (auto simp: bits_at_def bit_push_bit_iff bit_mask_iff)

lemma bits_at_lit:
  "push_bit s 0x0f = bits_at s 4" "push_bit s 0x03 = bits_at s 2" "2 ^ s = bits_at s (Suc 0)" "(0xff :: byte) = bits_at 0 8"
  by (simp_all add: bits_at_def mask_eq_exp_minus_1)

lemma and_bits_at: "s + k \<le> 8 \<Longrightarrow> b AND bits_at s k = bits_at s k \<longleftrightarrow> (\<forall>j < k. bit b (s + j))"
proof -
  assume k: "s + k \<le> 8"
  have "b AND bits_at s k = bits_at s k \<longleftrightarrow> (\<forall>n. s \<le> n \<and> n < s + k \<longrightarrow> bit b n)"
  proof -
    have "n < s + k \<Longrightarrow> n < 8" for n using k by simp
    then show ?thesis by (simp add: bit_eq_iff bit_and_iff bit_bits_at [OF k]) blast
  qed
  also have "\<dots> \<longleftrightarrow> (\<forall>j < k. bit b (s + j))" by (metis add_less_cancel_left le_add1 le_add_diff_inverse)
  finally show ?thesis .
qed

text \<open>The three block operations in one form, for all sizes of blocks.\<close>

lemma block_ops:
  assumes "frag_ok frag"
  defines "s \<equiv> \<lambda>h. frag * (h mod (8 div frag))" and "d \<equiv> \<lambda>h. h div (8 div frag)"
  shows "isblock frag cp h = Some (cp (d h) AND bits_at (s h) frag = bits_at (s h) frag)"
    "clrblock frag cp h = Some (cp(d h := cp (d h) AND NOT (bits_at (s h) frag)))"
    "setblock frag cp h = Some (cp(d h := cp (d h) OR bits_at (s h) frag))"
proof -
  have f: "frag = 1 \<or> frag = 2 \<or> frag = 4 \<or> frag = 8" using assms(1) by (auto simp: frag_ok_def)
  have full: "b AND bits_at 0 8 = b" "b OR bits_at 0 8 = bits_at 0 8" "b AND NOT (bits_at 0 8) = 0" for b :: byte
    by (auto simp: bit_eq_iff bit_and_iff bit_or_iff bit_not_iff bit_bits_at)
  have odd: "(if odd h then 4 else 0) = 4 * (h mod 2)" for h :: nat by presburger
  show "isblock frag cp h = Some (cp (d h) AND bits_at (s h) frag = bits_at (s h) frag)"
    using f by (elim disjE) (simp_all add: isblock_def Let_def bits_at_lit s_def d_def full odd)
  show "clrblock frag cp h = Some (cp(d h := cp (d h) AND NOT (bits_at (s h) frag)))"
    using f by (elim disjE) (simp_all add: clrblock_def bits_at_lit s_def d_def full odd)
  show "setblock frag cp h = Some (cp(d h := cp (d h) OR bits_at (s h) frag))"
    using f by (elim disjE) (simp_all add: setblock_def bits_at_lit s_def d_def full odd)
qed

text \<open>A block of the map is all or nothing for the block operations.\<close>

lemma isblock_blk: "frag_ok frag \<Longrightarrow> isblock frag a h = Some (blk a frag h = replicate frag True)"
proof -
  assume f: "frag_ok frag"
  have "blk a frag h = replicate frag True \<longleftrightarrow> (\<forall>j < frag. isset a (h * frag + j))" by (simp add: list_eq_iff_nth_eq)
  also have "\<dots> \<longleftrightarrow> (\<forall>j < frag. bit (a (h div (8 div frag))) (frag * (h mod (8 div frag)) + j))"
    using f by (simp add: isset_bit blk_pos)
  finally show ?thesis using f by (simp add: block_ops and_bits_at blk_off)
qed

lemma block_index:
  assumes "frag_ok frag"
  shows "i div frag = h \<longleftrightarrow>
    i div 8 = h div (8 div frag) \<and> frag * (h mod (8 div frag)) \<le> i mod 8 \<and> i mod 8 < frag * (h mod (8 div frag)) + frag"
    (is "_ \<longleftrightarrow> ?in")
proof
  have p: "0 < frag" using assms by (auto simp: frag_ok_def)
  assume h: "i div frag = h"
  have "i = h * frag + i mod frag" using div_mult_mod_eq [of i frag] unfolding h by simp
  then show ?in using blk_pos [OF assms mod_less_divisor [OF p], of h i] mod_less_divisor [OF p, of i] by simp
next
  have p: "0 < frag" and e: "frag * (8 div frag) = 8" using assms by (auto simp: frag_ok_def)
  assume a: ?in
  let ?j = "i mod 8 - frag * (h mod (8 div frag))"
  have "i = 8 * (h div (8 div frag)) + (frag * (h mod (8 div frag)) + ?j)" using a mult_div_mod_eq [of 8 i] by simp
  also have "\<dots> = frag * ((8 div frag) * (h div (8 div frag)) + h mod (8 div frag)) + ?j"
    unfolding distrib_left mult.assoc [symmetric] e by simp
  also have "\<dots> = frag * h + ?j" by simp
  finally have "i = frag * h + ?j" .
  moreover have "?j < frag" using a p by auto
  ultimately show "i div frag = h" by (metis add.commute add_0 div_less div_mult_self2 p less_irrefl)
qed

lemma clrblock_isset:
  assumes "frag_ok frag"
  shows "\<exists>a'. clrblock frag a h = Some a' \<and> (\<forall>i. isset a' i \<longleftrightarrow> isset a i \<and> i div frag \<noteq> h)"
  using block_index [OF assms, of _ h] bit_bits_at [OF blk_off [OF assms, of h]]
  by (auto simp: block_ops [OF assms] isset_bit bit_and_iff bit_not_iff)

lemma setblock_isset:
  assumes "frag_ok frag"
  shows "\<exists>a'. setblock frag a h = Some a' \<and> (\<forall>i. isset a' i \<longleftrightarrow> isset a i \<or> i div frag = h)"
  using block_index [OF assms, of _ h] bit_bits_at [OF blk_off [OF assms, of h]]
  by (auto simp: block_ops [OF assms] isset_bit bit_or_iff)

text \<open>\<open>blkmap\<close> reads the bits of a block as a number.\<close>

lemma bit_blkmap:
  assumes "frag_ok frag" "loc = h * frag"
  shows "bit (blkmap frag a loc) n \<longleftrightarrow> n < frag \<and> isset a (loc + n)"
proof -
  have m: "drop_bit (8 - frag) (0xff :: nat) = mask frag"
    using assms(1) by (auto simp: frag_ok_def mask_eq_exp_minus_1 drop_bit_eq_div)
  have loc: "loc div 8 = h div (8 div frag)" "loc mod 8 = frag * (h mod (8 div frag))"
    using blk_pos [OF assms(1), of 0 h] assms by (auto simp: frag_ok_def)
  have "n < frag \<Longrightarrow> isset a (loc + n) = bit (a (h div (8 div frag))) (frag * (h mod (8 div frag)) + n)"
    using assms(2) blk_pos [OF assms(1), of n h] by (simp add: isset_bit)
  then show ?thesis
    by (auto simp: blkmap_def m loc bit_and_iff bit_mask_iff bit_drop_bit_eq bit_unsigned_iff add.commute)
qed

lemma length_around: "siz \<le> 8 \<Longrightarrow> around ! siz = mask (siz + 2) \<and> inside ! siz = 2 * mask siz"
proof -
  assume "siz \<le> 8"
  then have "siz \<in> {0, 1, 2, 3, 4, 5, 6, 7, 8}" by auto
  then show ?thesis by (elim insertE) (simp_all add: around_def inside_def mask_eq_exp_minus_1)
qed

section \<open>Property\<close>

text \<open>
  The byte operations on blocks are the operations on sets of fragments: for 1, 2, 4 or 8 fragments to a
  block, \<open>isblock\<close> tells whether all fragments of block \<open>h\<close> are free, \<open>setblock\<close> adds exactly these to the map and
  \<open>clrblock\<close> removes exactly these; for any other number each of the three panics.
\<close>

theorem block_ops_on_bits:
  "if frag \<in> {1, 2, 4, 8}
   then isblock frag a h = Some (\<forall>j \<in> {..<frag}. isset a (h * frag + j)) \<and>
     (\<exists>a'. setblock frag a h = Some a' \<and> (\<forall>i. isset a' i \<longleftrightarrow> isset a i \<or> i div frag = h)) \<and>
     (\<exists>a'. clrblock frag a h = Some a' \<and> (\<forall>i. isset a' i \<longleftrightarrow> isset a i \<and> i div frag \<noteq> h))
   else isblock frag a h = None \<and> setblock frag a h = None \<and> clrblock frag a h = None"
proof (cases "frag \<in> {1, 2, 4, 8}")
  case True
  then have ok: "frag_ok frag" by (simp add: frag_ok_def)
  have "blk a frag h = replicate frag True \<longleftrightarrow> (\<forall>j \<in> {..<frag}. isset a (h * frag + j))" by (auto simp: list_eq_iff_nth_eq)
  then show ?thesis unfolding if_P [OF True] using isblock_blk [OF ok] setblock_isset [OF ok] clrblock_isset [OF ok] by simp
qed (simp add: isblock_def setblock_def clrblock_def)

theorem block_ops_on_bits_witness:
  "isblock 2 (\<lambda>_. 12) 1 = Some (\<forall>j \<in> {..<2}. isset (\<lambda>_. 12) (1 * 2 + j)) \<and> isblock 2 (\<lambda>_. 12) 1 = Some True \<and> isblock 3 (\<lambda>_. 12) 1 = None"
  using block_ops_on_bits [of 2 "\<lambda>_. 12" 1] block_ops_on_bits [of 3 "\<lambda>_. 12" 1] by (simp add: isblock_def)

end
