(* ===== verification/Ufs_Frag.thy ===== *)
theory Ufs_Frag
  imports Ufs_Subr Frag_Runs
begin

text \<open>
  The tables of ufs_tables.c and the fragment accounting of ufs_subr.c against the runs of free fragments:
  every entry of the tables is the set of lengths of the runs of the blocks of a byte, and \<open>fragacct\<close>
  counts the runs.
\<close>

unbundle bit_operations_syntax

section \<open>Bytes as lists of bits\<close>

definition bits_of :: "nat \<Rightarrow> nat \<Rightarrow> bool list" where
  "bits_of n m = map (bit m) [0..<n]"

fun bit_lists :: "nat \<Rightarrow> bool list list" where
  "bit_lists 0 = [[]]"
| "bit_lists (Suc n) = map (\<lambda>b. b @ [False]) (bit_lists n) @ map (\<lambda>b. b @ [True]) (bit_lists n)"

lemma length_bit_lists: "length (bit_lists n) = 2 ^ n"
  by (induction n) auto

lemma nth_bit_lists: "m < 2 ^ n \<Longrightarrow> bit_lists n ! m = bits_of n m"
proof (induction n arbitrary: m)
  case 0
  then show ?case by (simp add: bits_of_def)
next
  case (Suc n)
  show ?case
  proof (cases "m < 2 ^ n")
    case True
    then have "\<not> bit m n" by (simp add: bit_iff_odd)
    then show ?thesis using Suc.IH [OF True] True by (simp add: nth_append length_bit_lists bits_of_def)
  next
    case False
    then obtain k where m: "m = 2 ^ n + k" and k: "k < 2 ^ n" using Suc.prems by (metis le_Suc_ex linorder_not_less mult_2 nat_add_left_cancel_less power_Suc)
    have "bit m i = bit k i" if "i < n" for i
      using that bit_take_bit_iff [of n "2 ^ n + k" i] bit_take_bit_iff [of n k i] by (simp add: m take_bit_eq_mod)
    moreover have "(2 ^ n + k) div 2 ^ n = 1" using k by (simp add: div_add_self1)
    then have "bit m n" by (simp add: m bit_iff_odd)
    ultimately show ?thesis using Suc.IH [OF k] m k by (simp add: nth_append length_bit_lists bits_of_def)
  qed
qed

fun chunks :: "nat \<Rightarrow> bool list \<Rightarrow> bool list list" where
  "chunks n [] = []"
| "chunks n (b # bs) = (if n = 0 then [] else take n (b # bs) # chunks n (drop n (b # bs)))"

text \<open>The entry that the table ought to have.\<close>

fun size_bits :: "nat \<Rightarrow> nat list \<Rightarrow> nat" where
  "size_bits d [] = 0"
| "size_bits d (s # ss) = push_bit (s - 1 + d) 1 OR size_bits d ss"

definition tbl8_entry :: "bool list \<Rightarrow> nat" where
  "tbl8_entry bs = size_bits 0 (runs bs)"

definition tbl124_entry :: "bool list \<Rightarrow> nat" where
  "tbl124_entry bs = size_bits 1 (concat (map runs (chunks 1 bs))) OR size_bits 2 (concat (map runs (chunks 2 bs))) OR
     size_bits 4 (concat (map runs (chunks 4 bs)))"

text \<open>The bytes in the order of the tables.\<close>

definition table_order :: "bool list list" where
  "table_order = bit_lists (Suc (Suc (Suc (Suc (Suc (Suc (Suc (Suc 0))))))))"

lemma table_order: "length table_order = 256" "m < 256 \<Longrightarrow> table_order ! m = bits_of 8 m"
proof -
  have e: "Suc (Suc (Suc (Suc (Suc (Suc (Suc (Suc 0))))))) = 8" by simp
  show "length table_order = 256" unfolding table_order_def e length_bit_lists by simp
  show "m < 256 \<Longrightarrow> table_order ! m = bits_of 8 m" unfolding table_order_def e using nth_bit_lists [of m 8] by simp
qed

lemma fragtbl8_entries: "fragtbl8 = map tbl8_entry table_order"
  by (simp add: fragtbl8_def tbl8_entry_def runs_def table_order_def)

lemma fragtbl124_entries: "fragtbl124 = map tbl124_entry table_order"
  by (simp add: fragtbl124_def tbl124_entry_def runs_def table_order_def)

text \<open>What an entry says: which lengths the runs of the blocks have.\<close>

lemma bit_size_bits: "\<forall>s \<in> set ss. 0 < s \<Longrightarrow> bit (size_bits d ss) n \<longleftrightarrow> (\<exists>s \<in> set ss. n = s - 1 + d)"
  by (induction ss) (auto simp: bit_or_iff bit_exp_iff)

lemma runs_from_pos: "s \<in> set (runs_from n bs) \<Longrightarrow> 0 < s \<and> s \<le> n + length bs"
  by (induction n bs rule: runs_from.induct) (auto split: if_splits)

lemma runs_pos: "s \<in> set (runs bs) \<Longrightarrow> 0 < s \<and> s \<le> length bs"
  using runs_from_pos [of s 0] by (simp add: runs_def)

lemma in_chunks: "c \<in> set (chunks n bs) \<Longrightarrow> length c \<le> n"
  by (induction n bs rule: chunks.induct) (auto split: if_splits)

lemma bit_chunk_sizes:
  "bit (size_bits d (concat (map runs (chunks n bs)))) k \<longleftrightarrow> (\<exists>c \<in> set (chunks n bs). \<exists>s \<in> set (runs c). k = s - 1 + d)"
proof -
  have "\<forall>s \<in> set (concat (map runs (chunks n bs))). 0 < s" using runs_pos by auto
  from bit_size_bits [OF this] show ?thesis by auto
qed

lemma chunk_sizes_range: "bit (size_bits d (concat (map runs (chunks n bs)))) k \<Longrightarrow> d \<le> k \<and> k < n + d"
  using runs_pos in_chunks unfolding bit_chunk_sizes by fastforce

lemma chunk_sizes_runs:
  assumes "0 < siz"
  shows "bit (size_bits d (concat (map runs (chunks n bs)))) (siz - 1 + d) \<longleftrightarrow> (\<exists>c \<in> set (chunks n bs). siz \<in> set (runs c))"
proof -
  have "siz - 1 + d = s - 1 + d \<longleftrightarrow> s = siz" if "s \<in> set (runs c)" for s c using runs_pos [OF that] assms by auto
  then show ?thesis unfolding bit_chunk_sizes by blast
qed

lemma chunks_whole: "bs \<noteq> [] \<Longrightarrow> chunks (length bs) bs = [bs]"
  by (cases bs) simp_all

lemma fragtbl_runs:
  assumes "frag_ok frag" "m < 256" "0 < siz" "siz \<le> frag" "fragtbl frag = Some tbl"
  shows "bit (tbl ! m) (siz - 1 + frag mod 8) \<longleftrightarrow> (\<exists>c \<in> set (chunks frag (bits_of 8 m)). siz \<in> set (runs c))"
proof -
  define bs where "bs = bits_of 8 m"
  have l: "length bs = 8" by (simp add: bs_def bits_of_def)
  have m: "m < length table_order" "table_order ! m = bs" using table_order assms(2) by (simp_all add: bs_def)
  show ?thesis
  proof (cases "frag = 8")
    case True
    have "chunks 8 bs = [bs]" using chunks_whole [of bs] l by (cases bs) auto
    moreover have "tbl ! m = tbl8_entry bs"
      using assms(5) m True by (auto simp: fragtbl_def fragtbl8_entries)
    ultimately have "tbl ! m = size_bits 0 (concat (map runs (chunks 8 bs)))" by (simp add: tbl8_entry_def)
    then show ?thesis using True chunk_sizes_runs [OF assms(3), of 0 8 bs] by (simp add: bs_def)
  next
    case False
    then have f: "frag = 1 \<or> frag = 2 \<or> frag = 4" using assms(1) by (auto simp: frag_ok_def)
    then have t: "tbl ! m = tbl124_entry bs"
      using assms(5) m by (auto simp: fragtbl_def fragtbl124_entries)
    let ?R = "\<lambda>n k. bit (size_bits n (concat (map runs (chunks n bs)))) k"
    have n: "\<not> ?R n (siz - 1 + frag)" if "n \<in> {1, 2, 4}" "n \<noteq> frag" for n
      using that f assms(3,4) chunk_sizes_range [of n n bs "siz - 1 + frag"] by auto
    have "bit (tbl ! m) (siz - 1 + frag) \<longleftrightarrow> ?R frag (siz - 1 + frag)"
      unfolding t tbl124_entry_def bit_or_iff using f n [of 1] n [of 2] n [of 4] by (elim disjE) simp_all
    moreover have "frag mod 8 = frag" using f by auto
    ultimately show ?thesis using chunk_sizes_runs [OF assms(3), of frag frag bs] by (simp add: bs_def)
  qed
qed

section \<open>Looking for a run\<close>

text \<open>\<open>bl\<close> is the block that the number \<open>m\<close> holds.\<close>

definition holds :: "nat \<Rightarrow> bool list \<Rightarrow> bool" where
  "holds m bl \<longleftrightarrow> (\<forall>i. bit m i \<longleftrightarrow> i < length bl \<and> bl ! i)"

lemma holds_blkmap: "frag_ok frag \<Longrightarrow> holds (blkmap frag a (h * frag)) (blk a frag h)"
  by (auto simp: holds_def bit_blkmap [OF _ refl])

lemma holds_less:
  assumes "holds m bl"
  shows "m < 2 ^ length bl"
proof -
  have "take_bit (length bl) m = m" using assms by (auto simp: bit_eq_iff bit_take_bit_iff holds_def)
  then show ?thesis by (simp add: take_bit_nat_eq_self_iff)
qed

lemma holds_bits_of: "holds m bl \<Longrightarrow> bits_of (length bl) m = bl"
  by (rule nth_equalityI) (simp_all add: holds_def bits_of_def)

lemma bit_shl1: "bit (push_bit 1 m) n \<longleftrightarrow> 1 \<le> n \<and> bit m (n - 1)" for m :: nat
  using bit_double_iff [of m n] by (auto simp: mult.commute)

lemma match_iff:
  assumes "holds m bl" "0 < siz" "siz \<le> 8" "s + siz \<le> length bl"
  shows "push_bit 1 m AND push_bit s (around ! siz) = push_bit s (inside ! siz) \<longleftrightarrow> maxrun bl s siz"
proof -
  have b: "bit m i \<longleftrightarrow> i < length bl \<and> bl ! i" for i using assms(1) by (simp add: holds_def)
  have l: "bit (push_bit 1 m AND push_bit s (around ! siz)) n \<longleftrightarrow> 1 \<le> n \<and> bit m (n - 1) \<and> s \<le> n \<and> n < s + siz + 2" for n
    unfolding bit_and_iff bit_shl1 using length_around [OF assms(3)] by (auto simp: bit_push_bit_iff bit_mask_iff)
  have r: "bit (push_bit s (inside ! siz)) n \<longleftrightarrow> s + 1 \<le> n \<and> n < s + siz + 1" for n
    using length_around [OF assms(3)] by (auto simp: bit_push_bit_iff bit_mask_iff bit_double_iff)
  show ?thesis
  proof
    assume e: "push_bit 1 m AND push_bit s (around ! siz) = push_bit s (inside ! siz)"
    have q: "1 \<le> n \<and> bit m (n - 1) \<longleftrightarrow> s + 1 \<le> n \<and> n < s + siz + 1" if "s \<le> n" "n < s + siz + 2" for n
      using l [of n] r [of n] that unfolding e by simp
    have "bl ! (s + j)" if "j < siz" for j using q [of "s + j + 1"] that b [of "s + j"] by simp
    moreover have "s = 0 \<or> \<not> bl ! (s - 1)" using q [of s] b [of "s - 1"] assms(4) by auto
    moreover have "s + siz = length bl \<or> \<not> bl ! (s + siz)" using q [of "s + siz + 1"] b [of "s + siz"] assms(4) by auto
    ultimately show "maxrun bl s siz" using assms(2,4) by (simp add: maxrun_def)
  next
    assume m: "maxrun bl s siz"
    have "1 \<le> n \<and> bit m (n - 1) \<and> s \<le> n \<and> n < s + siz + 2 \<longleftrightarrow> s + 1 \<le> n \<and> n < s + siz + 1" for n
    proof -
      consider "n < s" | "n = s" | "s < n" "n < s + siz + 1" | "n = s + siz + 1" | "s + siz + 1 < n" by linarith
      then show ?thesis
      proof cases
        case 3
        then have "bl ! (n - 1)" by (intro maxrun_in [OF m]) simp_all
        then show ?thesis using 3 b [of "n - 1"] assms(4) by simp
      qed (use m b [of "n - 1"] in \<open>auto simp: maxrun_def\<close>)
    qed
    then show "push_bit 1 m AND push_bit s (around ! siz) = push_bit s (inside ! siz)" by (intro bit_eqI) (simp only: l r)
  qed
qed

section \<open>Fragment accounting counts runs\<close>

lemma fragacct_pos_count:
  assumes "holds m bl" "length bl = frag" "0 < siz" "siz \<le> 8" "siz \<le> pos"
  shows "fragacct_pos frag (push_bit 1 m) siz pos (push_bit (pos - siz) (around ! siz)) (push_bit (pos - siz) (inside ! siz)) =
    card {s. pos - siz \<le> s \<and> maxrun bl s siz}"
  using assms(5)
proof (induction "Suc frag - pos" arbitrary: pos rule: less_induct)
  case less
  let ?A = "\<lambda>p. {s. p - siz \<le> s \<and> maxrun bl s siz}"
  have fin: "finite (?A p)" for p by (rule finite_subset [of _ "{..length bl}"]) (auto simp: maxrun_def)
  show ?case
  proof (cases "pos \<le> frag")
    case False
    then have "?A pos = {}" using assms(2) less.prems by (auto simp: maxrun_def)
    then show ?thesis using False by (simp only: fragacct_pos.simps [of _ _ _ pos] if_False card.empty)
  next
    case True
    let ?m = "push_bit 1 m AND push_bit (pos - siz) (around ! siz) = push_bit (pos - siz) (inside ! siz)"
    have mm: "?m \<longleftrightarrow> maxrun bl (pos - siz) siz" using match_iff [OF assms(1,3,4)] True assms(2) less.prems by simp
    have IH: "fragacct_pos frag (push_bit 1 m) siz p (push_bit (p - siz) (around ! siz)) (push_bit (p - siz) (inside ! siz)) = card (?A p)"
      if "pos < p" for p using less.hyps [of p] that True less.prems by simp
    show ?thesis
    proof (cases ?m)
      case m: True
      have "s = pos - siz \<or> pos + siz + 1 - siz \<le> s" if "pos - siz \<le> s" "maxrun bl s siz" for s
        using maxrun_next [OF m [unfolded mm] that(2,1)] less.prems by auto
      then have ins: "?A pos = insert (pos - siz) (?A (pos + siz + 1))" using m [unfolded mm] by auto
      have "pos - siz \<notin> ?A (pos + siz + 1)" using assms(3) less.prems by auto
      then have "card (?A pos) = Suc (card (?A (pos + siz + 1)))" unfolding ins by (rule card_insert_disjoint [OF fin])
      moreover have "pos + siz + 1 - siz = (pos - siz) + (siz + 1)" using less.prems by simp
      ultimately show ?thesis using IH [of "pos + siz + 1"] m True
        by (simp add: fragacct_pos.simps [of _ _ _ pos] push_bit_push_bit add.commute)
    next
      case m: False
      have "?A pos = ?A (pos + 1)" using m [unfolded mm] less.prems by (auto simp: Suc_le_eq order_le_less)
      moreover have "pos + 1 - siz = (pos - siz) + 1" using less.prems by simp
      ultimately show ?thesis using IH [of "pos + 1"] m True
        by (simp add: fragacct_pos.simps [of _ _ _ pos] push_bit_push_bit add.commute)
    qed
  qed
qed

text \<open>The chunks of a list.\<close>

lemma set_chunks:
  assumes "0 < n"
  shows "set (chunks n bs) = (\<lambda>k. take n (drop (k * n) bs)) ` {k. k * n < length bs}"
  using assms
proof (induction n bs rule: chunks.induct)
  case (1 n)
  then show ?case by simp
next
  case (2 n b bs)
  let ?bs = "b # bs"
  show ?case
  proof (cases "n = 0")
    case True
    then show ?thesis using 2 by simp
  next
    case False
    let ?f = "\<lambda>k. take n (drop (k * n) ?bs)"
    have "{k. k * n < length ?bs} = insert 0 (Suc ` {k. k * n < length (drop n ?bs)})" (is "?A = ?B")
    proof (rule set_eqI)
      fix k
      show "k \<in> ?A \<longleftrightarrow> k \<in> ?B" by (cases k) (auto simp: image_iff)
    qed
    moreover have "?f ` (Suc ` X) = (\<lambda>k. take n (drop (k * n) (drop n ?bs))) ` X" for X
      by (simp add: image_image add.commute)
    ultimately show ?thesis using 2 False by (simp only: chunks.simps if_False list.set image_insert) simp
  qed
qed

lemma bits_of_drop: "h * n + n \<le> k \<Longrightarrow> take n (drop (h * n) (bits_of k m)) = map (\<lambda>j. bit m (h * n + j)) [0..<n]"
  by (rule nth_equalityI) (auto simp: bits_of_def)

lemma byte_chunks:
  assumes "frag_ok frag"
  shows "set (chunks frag (bits_of 8 (unat (a i)))) = blk a frag ` {h. h div (8 div frag) = i}"
proof -
  let ?per = "8 div frag"
  have p: "0 < frag" "0 < ?per" "frag * ?per = 8" using assms by (auto simp: frag_ok_def)
  have c: "take frag (drop (k * frag) (bits_of 8 (unat (a i)))) = blk a frag (i * ?per + k)" if "k < ?per" for k
  proof -
    have h: "(i * ?per + k) div ?per = i" "(i * ?per + k) mod ?per = k" using that p by simp_all
    have "Suc k * frag \<le> ?per * frag" using that by (intro mult_le_mono1) simp
    then have "k * frag + frag \<le> 8" using p(3) by (simp add: mult.commute)
    then have "take frag (drop (k * frag) (bits_of 8 (unat (a i)))) = map (\<lambda>j. bit (unat (a i)) (k * frag + j)) [0..<frag]"
      by (rule bits_of_drop)
    also have "\<dots> = blk a frag (i * ?per + k)" unfolding blk_def
    proof (rule map_cong [OF refl])
      fix j assume "j \<in> set [0..<frag]"
      then show "bit (unat (a i)) (k * frag + j) = isset a ((i * ?per + k) * frag + j)"
        using blk_pos [OF assms, of j "i * ?per + k"] h \<open>k * frag + frag \<le> 8\<close>
        by (simp add: isset_bit bit_unsigned_iff mult.commute)
    qed
    finally show ?thesis .
  qed
  have k: "k * frag < length (bits_of 8 (unat (a i))) \<longleftrightarrow> k < ?per" for k
  proof -
    have "k * frag < ?per * frag \<longleftrightarrow> k < ?per" using p(1) by simp
    then show ?thesis using p(3) by (simp add: bits_of_def mult.commute)
  qed
  have "set (chunks frag (bits_of 8 (unat (a i)))) = (\<lambda>k. blk a frag (i * ?per + k)) ` {k. k < ?per}"
    unfolding set_chunks [OF p(1)] k by (rule image_cong [OF refl]) (simp add: c)
  also have "\<dots> = blk a frag ` ((\<lambda>k. i * ?per + k) ` {k. k < ?per})" by (simp add: image_image)
  also have "(\<lambda>k. i * ?per + k) ` {k. k < ?per} = {h. h div ?per = i}" (is "?A = ?B")
  proof
    show "?A \<subseteq> ?B" using p(2) by auto
    show "?B \<subseteq> ?A"
    proof
      fix h assume "h \<in> ?B"
      then have "h = i * ?per + h mod ?per" using div_mult_mod_eq [of h ?per] by simp
      moreover have "h mod ?per < ?per" using p(2) by simp
      ultimately show "h \<in> ?A" by blast
    qed
  qed
  finally show ?thesis .
qed

lemma block_chunks:
  assumes "holds m bl" "frag_ok (length bl)" "0 < siz"
  shows "(\<exists>c \<in> set (chunks (length bl) (bits_of 8 m)). siz \<in> set (runs c)) \<longleftrightarrow> siz \<in> set (runs bl)"
proof -
  let ?n = "length bl"
  have n: "0 < ?n" "?n \<le> 8" using assms(2) by (auto simp: frag_ok_def)
  have b: "bit m i \<longleftrightarrow> i < ?n \<and> bl ! i" for i using assms(1) by (simp add: holds_def)
  have first: "take ?n (drop (0 * ?n) (bits_of 8 m)) = bl"
    using bits_of_drop [of 0 ?n 8 m] n by (auto intro: nth_equalityI simp: b)
  have rest: "runs (take ?n (drop (k * ?n) (bits_of 8 m))) = []" if "k \<noteq> 0" for k
  proof -
    have "?n \<le> k * ?n" using that by (cases k) simp_all
    then have "\<not> k * ?n + i < ?n" for i by linarith
    then have "take ?n (drop (k * ?n) (bits_of 8 m)) = replicate (min ?n (8 - k * ?n)) False"
      by (intro nth_equalityI) (auto simp: bits_of_def b)
    then show ?thesis using runs_used [of _ "[]"] by simp
  qed
  have mem: "siz \<in> set (runs (take ?n (drop (k * ?n) (bits_of 8 m)))) \<longleftrightarrow> k = 0 \<and> siz \<in> set (runs bl)" for k
    using first rest [of k] by (cases "k = 0") simp_all
  have "0 * ?n < length (bits_of 8 m)" by (simp add: bits_of_def)
  then show ?thesis unfolding set_chunks [OF n(1)] by (simp only: bex_simps mem) blast
qed

text \<open>Adding \<open>cnt\<close> for every run of a block.\<close>

lemma fragacct_step_count:
  assumes "holds m bl" "length bl = frag" "frag_ok frag" "0 < siz" "siz < frag" "fragtbl frag = Some tbl"
  shows "fragacct_step frag (push_bit 1 (tbl ! m)) (push_bit 1 m) cnt siz fl =
    fl(siz := fl siz + int (count_list (runs bl) siz) * cnt)"
proof -
  have "m < 2 ^ frag" using holds_less [OF assms(1)] assms(2) by simp
  also have "\<dots> \<le> 2 ^ 8" using assms(3) by (intro power_increasing) (auto simp: frag_ok_def)
  finally have m: "m < 256" by simp
  have b: "bit (push_bit 1 (tbl ! m)) (siz + frag mod 8) \<longleftrightarrow> siz \<in> set (runs bl)"
    using fragtbl_runs [OF assms(3) m assms(4) less_imp_le [OF assms(5)] assms(6)] block_chunks [OF assms(1)] assms(2,3,4)
    unfolding bit_shl1 by simp
  then have z: "push_bit 1 (tbl ! m) AND push_bit (siz + frag mod 8) 1 = 0 \<longleftrightarrow> count_list (runs bl) siz = 0"
    unfolding count_list_0_iff by (metis bit_iff_and_push_bit_not_eq_0)
  have "fragacct_pos frag (push_bit 1 m) siz siz (around ! siz) (inside ! siz) = count_list (runs bl) siz"
    using fragacct_pos_count [OF assms(1,2,4), of siz] assms(3,4,5) by (auto simp: count_runs frag_ok_def)
  then show ?thesis using z by (auto simp: fragacct_step_def)
qed

theorem fragacct_counts:
  assumes "holds m bl" "frag_ok (length bl)"
  shows "fragacct (length bl) m fl cnt =
    Some (\<lambda>s. if 0 < s \<and> s < length bl then fl s + int (count_list (runs bl) s) * cnt else fl s)"
proof -
  obtain tbl where t: "fragtbl (length bl) = Some tbl" using assms(2) by (auto simp: fragtbl_def frag_ok_def)
  let ?step = "fragacct_step (length bl) (push_bit 1 (tbl ! m)) (push_bit 1 m) cnt"
  have "fold ?step [1..<k] fl = (\<lambda>s. if 0 < s \<and> s < k then fl s + int (count_list (runs bl) s) * cnt else fl s)"
    if "0 < k" "k \<le> length bl" for k
    using that
  proof (induction k)
    case (Suc k)
    show ?case
    proof (cases "k = 0")
      case True
      then show ?thesis by (auto simp: fun_eq_iff)
    next
      case False
      then show ?thesis using Suc fragacct_step_count [OF assms(1) refl assms(2) _ _ t, of k cnt] by (auto simp: fun_eq_iff)
    qed
  qed simp
  moreover have "0 < length bl" using assms(2) by (auto simp: frag_ok_def)
  ultimately show ?thesis by (simp only: fragacct_def t option.map le_refl)
qed

section \<open>Property\<close>

text \<open>
  C18: \<open>fragacct\<close>, with its tables of bits, adds \<open>cnt\<close> to the count of every size below a block for each maximal run of
  free fragments of that size in the block, and changes no other count.
\<close>

theorem fragacct_exact:
  assumes "frag \<in> {1, 2, 4, 8}"
  shows "fragacct frag (blkmap frag a (h * frag)) fl cnt =
    Some (\<lambda>s. if 0 < s \<and> s < frag then fl s + int (card {p. maxrun (blk a frag h) p s}) * cnt else fl s)"
proof -
  have "frag_ok frag" using assms by (simp add: frag_ok_def)
  from fragacct_counts [OF holds_blkmap [OF this], unfolded length_blk, OF this, of a h fl cnt] show ?thesis
    by (auto simp: count_runs fun_eq_iff)
qed

theorem fragacct_exact_witness:
  "fragacct 8 (blkmap 8 (\<lambda>_. 0x37) (0 * 8)) (\<lambda>_. 0) 1 =
    Some (\<lambda>s. if 0 < s \<and> s < 8 then 0 + int (card {p. maxrun (blk (\<lambda>_. 0x37) 8 0) p s}) * 1 else 0)"
  using fragacct_exact [of 8 "\<lambda>_. 0x37" 0 "\<lambda>_. 0" 1] by simp

end
