(* ===== verification/Ufs_Cg.thy ===== *)
theory Ufs_Cg
  imports Ufs_Frag
begin

text \<open>
  A cylinder group of the file system: h/fs.h and the part of sys/ufs_alloc.c that works on one group
  (\<open>mapsearch\<close> and \<open>alloccgblk\<close>).  Block numbers and sizes are \<open>nat\<close>, the counters \<open>int\<close>, arrays are
  functions.  The invariant \<open>cg_ok\<close> says that the summary information counts what the map of free fragments
  holds.
\<close>

unbundle bit_operations_syntax

section \<open>Records\<close>

record csum =
  cs_ndir :: int
  cs_nbfree :: int
  cs_nifree :: int
  cs_nffree :: int

record fs =
  fs_size :: nat
  fs_dsize :: nat
  fs_ncg :: nat
  fs_bsize :: nat
  fs_fsize :: nat
  fs_frag :: nat
  fs_minfree :: nat
  fs_rotdelay :: nat
  fs_rps :: nat
  fs_fmask :: int
  fs_fshift :: nat
  fs_maxcontig :: nat
  fs_maxbpg :: nat
  fs_fragshift :: nat
  fs_csmask :: int
  fs_csshift :: nat
  fs_nspf :: nat
  fs_nsect :: nat
  fs_spc :: nat
  fs_ipg :: nat
  fs_fpg :: nat
  fs_cstotal :: csum
  fs_fmod :: byte
  fs_cgrotor :: nat
  fs_csp :: "nat \<Rightarrow> nat \<Rightarrow> csum"
  fs_cpc :: nat
  fs_postbl :: "nat \<Rightarrow> nat \<Rightarrow> int"
  fs_rotbl :: "nat \<Rightarrow> nat"

record cg =
  cg_time :: int
  cg_cgx :: nat
  cg_cs :: csum
  cg_rotor :: nat
  cg_frotor :: nat
  cg_irotor :: nat
  cg_frsum :: "nat \<Rightarrow> int"
  cg_btot :: "nat \<Rightarrow> int"
  cg_b :: "nat \<Rightarrow> nat \<Rightarrow> int"
  cg_iused :: bitmap
  cg_magic :: nat
  cg_free :: bitmap

section \<open>Macros\<close>

definition NRPOS :: nat where
  "NRPOS = 8"

text \<open>What is left of a super block of 8192 bytes after a \<open>struct fs\<close> of 1380.\<close>

definition MAXBPC :: nat where
  "MAXBPC = 6812"

definition CG_MAGIC :: nat where
  "CG_MAGIC = 0x090255"

definition fs_cs :: "fs \<Rightarrow> nat \<Rightarrow> csum" where
  "fs_cs fs i = fs_csp fs (drop_bit (fs_csshift fs) i) (nat (int i AND NOT (fs_csmask fs)))"

text \<open>Adding to a counter of the whole file system and of the summary of group \<open>i\<close>.\<close>

definition fs_count :: "(csum \<Rightarrow> csum) \<Rightarrow> nat \<Rightarrow> fs \<Rightarrow> fs" where
  "fs_count f i fs = fs\<lparr>fs_cstotal := f (fs_cstotal fs),
     fs_csp := (fs_csp fs)(drop_bit (fs_csshift fs) i :=
       (fs_csp fs (drop_bit (fs_csshift fs) i))(nat (int i AND NOT (fs_csmask fs)) := f (fs_cs fs i)))\<rparr>"

definition itog :: "fs \<Rightarrow> nat \<Rightarrow> nat" where
  "itog fs x = x div fs_ipg fs"

definition dtog :: "fs \<Rightarrow> nat \<Rightarrow> nat" where
  "dtog fs d = d div fs_fpg fs"

definition dtogd :: "fs \<Rightarrow> nat \<Rightarrow> nat" where
  "dtogd fs d = d mod fs_fpg fs"

definition cbtocylno :: "fs \<Rightarrow> nat \<Rightarrow> nat" where
  "cbtocylno fs bno = bno * fs_nspf fs div fs_spc fs"

definition cbtorpos :: "fs \<Rightarrow> nat \<Rightarrow> nat" where
  "cbtorpos fs bno = bno * fs_nspf fs mod fs_nsect fs * NRPOS div fs_nsect fs"

definition fragoff :: "fs \<Rightarrow> nat \<Rightarrow> nat" where
  "fragoff fs loc = nat (int loc AND NOT (fs_fmask fs))"

definition numfrags :: "fs \<Rightarrow> nat \<Rightarrow> nat" where
  "numfrags fs loc = drop_bit (fs_fshift fs) loc"

definition NSPB :: "fs \<Rightarrow> nat" where
  "NSPB fs = push_bit (fs_fragshift fs) (fs_nspf fs)"

section \<open>Searching the map\<close>

text \<open>
  \<open>scanc\<close> is an instruction of the VAX (vax/asm.sed): it looks for the first byte whose table entry has a bit
  of the mask and leaves the number of bytes that remain, that byte included, or 0.
\<close>

fun scanc :: "nat \<Rightarrow> bitmap \<Rightarrow> nat \<Rightarrow> nat list \<Rightarrow> nat \<Rightarrow> nat" where
  "scanc 0 cp start tbl msk = 0"
| "scanc (Suc len) cp start tbl msk =
     (if tbl ! unat (cp start) AND msk \<noteq> 0 then Suc len else scanc len cp (Suc start) tbl msk)"

text \<open>The loop on the positions in one block.\<close>

definition mapsearch_blk :: "nat \<Rightarrow> nat \<Rightarrow> nat \<Rightarrow> nat option" where
  "mapsearch_blk frag m allocsiz =
     find (\<lambda>pos. push_bit 1 m AND push_bit pos (around ! allocsiz) = push_bit pos (inside ! allocsiz))
       [0..<Suc (frag - allocsiz)]"

function mapsearch_byte :: "nat \<Rightarrow> bitmap \<Rightarrow> nat \<Rightarrow> nat \<Rightarrow> nat \<Rightarrow> nat option" where
  "mapsearch_byte frag cp allocsiz bno i =
     (if bno < i \<and> 0 < frag then
        (case mapsearch_blk frag (blkmap frag cp bno) allocsiz of
           Some pos \<Rightarrow> Some (bno + pos)
         | None \<Rightarrow> mapsearch_byte frag cp allocsiz (bno + frag) i)
      else None)"
  by pat_completeness auto
termination by (relation "measure (\<lambda>(frag, cp, allocsiz, bno, i). i - bno)") auto

declare mapsearch_byte.simps [simp del]

text \<open>The value is -1 when no byte has what is asked for; a byte without it is a panic.\<close>

definition mapsearch :: "fs \<Rightarrow> cg \<Rightarrow> nat \<Rightarrow> nat \<Rightarrow> (int \<times> cg) option" where
  "mapsearch fs cgp bpref allocsiz =
     do {
       tbl \<leftarrow> fragtbl (fs_frag fs);
       let start = (if bpref \<noteq> 0 then dtogd fs bpref div 8 else cg_frotor cgp div 8);
       let msk = push_bit (allocsiz - 1 + fs_frag fs mod 8) 1;
       let len = howmany (fs_fpg fs) 8 - start;
       let loc = scanc len (cg_free cgp) start tbl msk;
       let len2 = start + 1;
       let loc2 = scanc len2 (cg_free cgp) 0 tbl msk;
       if loc = 0 \<and> loc2 = 0 then Some (-1, cgp)
       else do {
         let bno = (if loc \<noteq> 0 then start + len - loc else 0 + len2 - loc2) * 8;
         b \<leftarrow> mapsearch_byte (fs_frag fs) (cg_free cgp) allocsiz bno (bno + 8);
         Some (int b, cgp\<lparr>cg_frotor := bno\<rparr>)
       }
     }"

section \<open>Allocating a block\<close>

text \<open>The two loops that look for a rotational position with a free block, from \<open>pos\<close> on.\<close>

definition rot_pos :: "(nat \<Rightarrow> int) \<Rightarrow> nat \<Rightarrow> nat" where
  "rot_pos cylbp pos =
     (case find (\<lambda>i. 0 < cylbp i) [pos..<NRPOS] of
        Some i \<Rightarrow> i
      | None \<Rightarrow> (case find (\<lambda>i. 0 < cylbp i) [0..<pos] of Some i \<Rightarrow> i | None \<Rightarrow> pos))"

text \<open>Following the list of the blocks at a rotational position; a panic at its end.\<close>

function rot_chain :: "nat \<Rightarrow> (nat \<Rightarrow> nat) \<Rightarrow> bitmap \<Rightarrow> nat \<Rightarrow> nat \<Rightarrow> nat option" where
  "rot_chain frag rotbl free bno i =
     do {
       b \<leftarrow> isblock frag free (bno + i);
       if b then Some ((bno + i) * frag)
       else if rotbl i = 0 \<or> int (rotbl i) > int MAXBPC - int i then None
       else rot_chain frag rotbl free bno (i + rotbl i)
     }"
  by pat_completeness auto
termination by (relation "measure (\<lambda>(frag, rotbl, free, bno, i). MAXBPC - i)") auto

declare rot_chain.simps [simp del]

text \<open>Label \<open>gotit\<close>.\<close>

definition gotit :: "fs \<Rightarrow> cg \<Rightarrow> nat \<Rightarrow> (nat \<times> fs \<times> cg) option" where
  "gotit fs cgp bno =
     do {
       free \<leftarrow> clrblock (fs_frag fs) (cg_free cgp) (bno div fs_frag fs);
       let dec = cs_nbfree_update (\<lambda>n. n - 1);
       let cylno = cbtocylno fs bno;
       let rpos = cbtorpos fs bno;
       Some (cg_cgx cgp * fs_fpg fs + bno,
         (fs_count dec (cg_cgx cgp) fs)\<lparr>fs_fmod := fs_fmod fs + 1\<rparr>,
         cgp\<lparr>cg_free := free, cg_cs := dec (cg_cs cgp),
           cg_b := (cg_b cgp)(cylno := (cg_b cgp cylno)(rpos := cg_b cgp cylno rpos - 1)),
           cg_btot := (cg_btot cgp)(cylno := cg_btot cgp cylno - 1)\<rparr>)
     }"

text \<open>Label \<open>norot\<close>.\<close>

definition norot :: "fs \<Rightarrow> cg \<Rightarrow> nat \<Rightarrow> (nat \<times> fs \<times> cg) option" where
  "norot fs cgp bpref =
     do {
       (bno, cgp) \<leftarrow> mapsearch fs cgp bpref (fs_frag fs);
       if bno < 0 then Some (0, fs, cgp)
       else gotit fs (cgp\<lparr>cg_rotor := nat bno\<rparr>) (nat bno)
     }"

definition alloccgblk :: "fs \<Rightarrow> cg \<Rightarrow> nat \<Rightarrow> (nat \<times> fs \<times> cg) option" where
  "alloccgblk fs cgp bpref =
     (if bpref = 0 then norot fs cgp (cg_rotor cgp)
      else do {
        let bpref = dtogd fs (nat (int bpref AND NOT (int (fs_frag fs) - 1)));
        b \<leftarrow> isblock (fs_frag fs) (cg_free cgp) (bpref div fs_frag fs);
        if b then gotit fs cgp bpref
        else do {
          let cylno = cbtocylno fs bpref;
          if cg_btot cgp cylno = 0 then norot fs cgp bpref
          else if fs_cpc fs = 0 then norot fs cgp (howmany (fs_spc fs * cylno) (fs_nspf fs))
          else do {
            let cylbp = cg_b cgp cylno;
            let i = rot_pos cylbp (cbtorpos fs bpref);
            if 0 < cylbp i then do {
              let pos = cylno mod fs_cpc fs;
              let bno = (cylno - pos) * fs_spc fs div NSPB fs;
              if fs_postbl fs pos i = -1 then None
              else do {
                bno \<leftarrow> rot_chain (fs_frag fs) (fs_rotbl fs) (cg_free cgp) bno (nat (fs_postbl fs pos i));
                gotit fs cgp bno
              }
            }
            else norot fs cgp bpref
          }
        }
      })"

section \<open>Geometry\<close>

text \<open>What newfs establishes of the constants of the super block.\<close>

definition fs_geom :: "fs \<Rightarrow> bool" where
  "fs_geom fs \<longleftrightarrow> frag_ok (fs_frag fs) \<and> fs_fsize fs = 2 ^ fs_fshift fs \<and> fs_bsize fs = fs_frag fs * fs_fsize fs \<and>
     fs_fmask fs = NOT (mask (fs_fshift fs)) \<and> fs_frag fs dvd fs_fsize fs \<and> fs_frag fs dvd fs_fpg fs \<and>
     fs_csmask fs = NOT (mask (fs_csshift fs)) \<and> 0 < fs_fpg fs \<and> 0 < fs_ncg fs \<and> 0 < fs_ipg fs \<and> 0 < fs_nspf fs \<and>
     0 < fs_nsect fs \<and> 0 < fs_spc fs \<and> fs_size fs \<le> fs_ncg fs * fs_fpg fs"

lemma fs_geomD:
  assumes "fs_geom fs"
  shows "frag_ok (fs_frag fs)" "0 < fs_frag fs" "fs_frag fs \<le> 8" "fs_fsize fs = 2 ^ fs_fshift fs" "fs_bsize fs = fs_frag fs * fs_fsize fs"
    "fs_fmask fs = NOT (mask (fs_fshift fs))" "fs_frag fs dvd fs_fsize fs" "fs_frag fs dvd fs_fpg fs"
    "fs_csmask fs = NOT (mask (fs_csshift fs))" "0 < fs_fpg fs" "0 < fs_ncg fs" "0 < fs_ipg fs" "0 < fs_nspf fs" "0 < fs_nsect fs"
    "0 < fs_spc fs" "fs_size fs \<le> fs_ncg fs * fs_fpg fs" "0 < fs_fsize fs"
  using assms by (auto simp: fs_geom_def frag_ok_def)

text \<open>The macros that mask and shift are remainder and division.\<close>

lemma int_and_not_mask: "nat (int x AND mask k) = x mod 2 ^ k"
  by (simp add: take_bit_eq_mask [symmetric] take_bit_eq_mod nat_mod_distrib nat_power_eq)

lemma fragoff_mod: "fs_geom fs \<Longrightarrow> fragoff fs loc = loc mod fs_fsize fs"
  by (simp add: fragoff_def fs_geomD int_and_not_mask)

lemma numfrags_div: "fs_geom fs \<Longrightarrow> numfrags fs loc = loc div fs_fsize fs"
  by (simp add: numfrags_def fs_geomD drop_bit_eq_div)

lemma frag_align: "frag_ok frag \<Longrightarrow> nat (int b AND NOT (int frag - 1)) = b - b mod frag"
proof -
  assume "frag_ok frag"
  then obtain k where f: "frag = 2 ^ k" by (auto simp: frag_ok_def intro: that [of 0] that [of 1] that [of 2] that [of 3])
  have "int b - take_bit k (int b) = int b AND NOT (take_bit k (int b))"
    by (rule disjunctive_diff_eq_and_not) (auto simp: bit_eq_iff bit_simps)
  also have "\<dots> = int b AND NOT (mask k)" by (auto simp: bit_eq_iff bit_simps)
  finally have "int b AND NOT (int frag - 1) = int b - int (b mod frag)"
    by (simp add: f mask_eq_exp_minus_1 take_bit_eq_mod of_nat_mod)
  then show ?thesis by simp
qed

lemma fs_cs_index:
  assumes "fs_geom fs"
  shows "drop_bit (fs_csshift fs) i = drop_bit (fs_csshift fs) j \<and>
      nat (int i AND NOT (fs_csmask fs)) = nat (int j AND NOT (fs_csmask fs)) \<longleftrightarrow> i = j"
proof -
  have "nat (int k AND NOT (fs_csmask fs)) = k mod 2 ^ fs_csshift fs" for k by (simp add: fs_geomD(9) [OF assms] int_and_not_mask)
  then show ?thesis by (simp only: drop_bit_eq_div) (metis div_mult_mod_eq)
qed

lemma fs_cs_count: "fs_geom fs \<Longrightarrow> fs_cs (fs_count f i fs) j = (if j = i then f (fs_cs fs i) else fs_cs fs j)"
  using fs_cs_index [of fs i j] by (auto simp: fs_cs_def fs_count_def)

lemma fs_count_sel [simp]:
  "fs_size (fs_count f i fs) = fs_size fs" "fs_dsize (fs_count f i fs) = fs_dsize fs" "fs_ncg (fs_count f i fs) = fs_ncg fs"
  "fs_bsize (fs_count f i fs) = fs_bsize fs" "fs_fsize (fs_count f i fs) = fs_fsize fs" "fs_frag (fs_count f i fs) = fs_frag fs"
  "fs_fpg (fs_count f i fs) = fs_fpg fs" "fs_ipg (fs_count f i fs) = fs_ipg fs" "fs_cstotal (fs_count f i fs) = f (fs_cstotal fs)"
  "fs_fmod (fs_count f i fs) = fs_fmod fs" "fs_nspf (fs_count f i fs) = fs_nspf fs" "fs_nsect (fs_count f i fs) = fs_nsect fs"
  "fs_spc (fs_count f i fs) = fs_spc fs"
  by (simp_all add: fs_count_def)

text \<open>Counting again and the modified flag leave the geometry as it is.\<close>

definition same_geom :: "fs \<Rightarrow> fs \<Rightarrow> bool" where
  "same_geom fs fs' \<longleftrightarrow> (\<exists>tot csp fm rot. fs' = fs\<lparr>fs_cstotal := tot, fs_csp := csp, fs_fmod := fm, fs_cgrotor := rot\<rparr>)"

lemma same_geom_refl [simp]: "same_geom fs fs"
  unfolding same_geom_def by (intro exI [of _ "fs_cstotal fs"] exI [of _ "fs_csp fs"] exI [of _ "fs_fmod fs"] exI [of _ "fs_cgrotor fs"]) simp

lemma same_geom_trans: "same_geom a b \<Longrightarrow> same_geom b c \<Longrightarrow> same_geom a c"
  unfolding same_geom_def by (elim exE, hypsubst) (simp, blast)

lemma same_geom_count [simp]: "same_geom fs (fs_count f i fs)"
proof -
  obtain csp where e: "fs_count f i fs = fs\<lparr>fs_cstotal := f (fs_cstotal fs), fs_csp := csp\<rparr>" by (simp add: fs_count_def)
  show ?thesis unfolding same_geom_def e
    by (intro exI [of _ "f (fs_cstotal fs)"] exI [of _ csp] exI [of _ "fs_fmod fs"] exI [of _ "fs_cgrotor fs"]) simp
qed

lemma same_geom_fmod [simp]: "same_geom fs (fs\<lparr>fs_fmod := m\<rparr>)"
  unfolding same_geom_def by (intro exI [of _ "fs_cstotal fs"] exI [of _ "fs_csp fs"] exI [of _ m] exI [of _ "fs_cgrotor fs"]) simp

lemma same_geom_sel:
  assumes "same_geom fs fs'"
  shows "fs_size fs' = fs_size fs" "fs_dsize fs' = fs_dsize fs" "fs_ncg fs' = fs_ncg fs"
  "fs_bsize fs' = fs_bsize fs" "fs_fsize fs' = fs_fsize fs" "fs_frag fs' = fs_frag fs" "fs_minfree fs' = fs_minfree fs"
  "fs_fpg fs' = fs_fpg fs" "fs_ipg fs' = fs_ipg fs" "fs_nspf fs' = fs_nspf fs" "fs_nsect fs' = fs_nsect fs"
  "fs_spc fs' = fs_spc fs" "fs_cpc fs' = fs_cpc fs" "fs_postbl fs' = fs_postbl fs" "fs_rotbl fs' = fs_rotbl fs"
  "fs_fragshift fs' = fs_fragshift fs"
  "fs_geom fs' = fs_geom fs" "cbtocylno fs' = cbtocylno fs" "cbtorpos fs' = cbtorpos fs" "fragoff fs' = fragoff fs"
  "numfrags fs' = numfrags fs" "dtog fs' = dtog fs" "dtogd fs' = dtogd fs" "itog fs' = itog fs" "NSPB fs' = NSPB fs"
proof -
  obtain tot csp fm rot where e: "fs' = fs\<lparr>fs_cstotal := tot, fs_csp := csp, fs_fmod := fm, fs_cgrotor := rot\<rparr>"
    using assms unfolding same_geom_def by blast
  show "fs_geom fs' = fs_geom fs" by (simp add: e fs_geom_def)
  show "cbtocylno fs' = cbtocylno fs" by (rule ext) (simp add: e cbtocylno_def)
  show "cbtorpos fs' = cbtorpos fs" by (rule ext) (simp add: e cbtorpos_def)
  show "fragoff fs' = fragoff fs" by (rule ext) (simp add: e fragoff_def)
  show "numfrags fs' = numfrags fs" by (rule ext) (simp add: e numfrags_def)
  show "dtog fs' = dtog fs" by (rule ext) (simp add: e dtog_def)
  show "dtogd fs' = dtogd fs" by (rule ext) (simp add: e dtogd_def)
  show "itog fs' = itog fs" by (rule ext) (simp add: e itog_def)
  show "NSPB fs' = NSPB fs" by (simp add: e NSPB_def)
qed (use assms in \<open>auto simp: same_geom_def\<close>)

section \<open>Ranges of bits\<close>

text \<open>A vector of bits, as far as the loops of the allocator use it.\<close>

locale bit_vector =
  fixes test :: "'v \<Rightarrow> nat \<Rightarrow> bool" and raise :: "'v \<Rightarrow> nat \<Rightarrow> 'v" and lower :: "'v \<Rightarrow> nat \<Rightarrow> 'v"
  assumes test_raise: "test (raise a i) j \<longleftrightarrow> j = i \<or> test a j"
    and test_lower: "test (lower a i) j \<longleftrightarrow> j \<noteq> i \<and> test a j"
begin

lemma test_raise_range: "test (fold (\<lambda>i a. raise a (b + i)) [m..<n] a) j \<longleftrightarrow> test a j \<or> (b + m \<le> j \<and> j < b + n)"
proof (induction n arbitrary: j)
  case (Suc n)
  show ?case by (cases "m \<le> n") (auto simp: test_raise Suc.IH)
qed auto

lemma test_lower_range: "test (fold (\<lambda>i a. lower a (b + i)) [m..<n] a) j \<longleftrightarrow> test a j \<and> \<not> (b + m \<le> j \<and> j < b + n)"
proof (induction n arbitrary: j)
  case (Suc n)
  show ?case by (cases "m \<le> n") (auto simp: test_lower Suc.IH)
qed auto

end

interpretation bm: bit_vector isset setbit clrbit
  by (unfold_locales, simp_all)

lemma blk_eqI: "(\<And>i. i div frag = h \<Longrightarrow> isset a' i = isset a i) \<Longrightarrow> blk a' frag h = blk a frag h"
  by (simp add: blk_def)

section \<open>Counting over the blocks of a group\<close>

definition tally :: "fs \<Rightarrow> (nat \<Rightarrow> bool list \<Rightarrow> int) \<Rightarrow> bitmap \<Rightarrow> int" where
  "tally fs w a = (\<Sum>h < fs_fpg fs div fs_frag fs. w h (blk a (fs_frag fs) h))"

lemma tally_change:
  assumes "h < fs_fpg fs div fs_frag fs" "\<And>k. k \<noteq> h \<Longrightarrow> blk a' (fs_frag fs) k = blk a (fs_frag fs) k"
  shows "tally fs w a' = tally fs w a + (w h (blk a' (fs_frag fs) h) - w h (blk a (fs_frag fs) h))"
proof -
  let ?I = "{..< fs_fpg fs div fs_frag fs}"
  have "tally fs w b = w h (blk b (fs_frag fs) h) + (\<Sum>k \<in> ?I - {h}. w k (blk b (fs_frag fs) k))" for b
    using sum.remove [of ?I h "\<lambda>k. w k (blk b (fs_frag fs) k)"] assms(1) by (simp add: tally_def)
  moreover have "(\<Sum>k \<in> ?I - {h}. w k (blk a' (fs_frag fs) k)) = (\<Sum>k \<in> ?I - {h}. w k (blk a (fs_frag fs) k))"
    using assms(2) by (intro sum.cong) auto
  ultimately show ?thesis by simp
qed

lemma tally_pos:
  assumes "h < fs_fpg fs div fs_frag fs" "\<And>k bl. 0 \<le> w k bl" "0 < w h (blk a (fs_frag fs) h)"
  shows "0 < tally fs w a"
  unfolding tally_def using assms by (intro sum_pos2 [of _ h]) auto

lemma tally_zero:
  assumes "tally fs w a = 0" "\<And>k bl. 0 \<le> w k bl" "h < fs_fpg fs div fs_frag fs"
  shows "w h (blk a (fs_frag fs) h) = 0"
  using assms sum_nonneg_eq_0_iff [of "{..< fs_fpg fs div fs_frag fs}" "\<lambda>h. w h (blk a (fs_frag fs) h)"] by (auto simp: tally_def)

lemma tally_ex:
  assumes "tally fs w a \<noteq> 0"
  shows "\<exists>h < fs_fpg fs div fs_frag fs. w h (blk a (fs_frag fs) h) \<noteq> 0"
  using assms unfolding tally_def by (metis (mono_tags, lifting) lessThan_iff sum.neutral)

section \<open>What \<open>mapsearch\<close> finds\<close>

lemma scanc_0: "scanc len cp start tbl msk = 0 \<longleftrightarrow> (\<forall>k < len. tbl ! unat (cp (start + k)) AND msk = 0)"
proof (induction len arbitrary: start)
  case (Suc len)
  have "(\<forall>k < Suc len. P k) \<longleftrightarrow> P 0 \<and> (\<forall>k < len. P (Suc k))" for P :: "nat \<Rightarrow> bool"
    by (auto simp: less_Suc_eq_0_disj)
  then show ?case using Suc by simp
qed simp

lemma scanc_found:
  assumes "scanc len cp start tbl msk \<noteq> 0"
  shows "scanc len cp start tbl msk \<le> len \<and> tbl ! unat (cp (start + len - scanc len cp start tbl msk)) AND msk \<noteq> 0"
  using assms
proof (induction len arbitrary: start)
  case (Suc len)
  show ?case
  proof (cases "tbl ! unat (cp start) AND msk \<noteq> 0")
    case False
    then show ?thesis using Suc.IH [of "Suc start"] Suc.prems by (auto simp: Suc_diff_le)
  qed simp
qed simp

lemma find_Some_first: "find P xs = Some x \<Longrightarrow> P x \<and> x \<in> set xs"
  by (auto simp: find_Some_iff)

lemma mapsearch_blk_maxrun:
  assumes "holds m bl" "length bl = frag" "frag \<le> 8" "0 < siz" "siz \<le> frag"
  shows "mapsearch_blk frag m siz = None \<Longrightarrow> siz \<notin> set (runs bl)"
    "mapsearch_blk frag m siz = Some s \<Longrightarrow> maxrun bl s siz"
proof -
  have mm: "push_bit 1 m AND push_bit s (around ! siz) = push_bit s (inside ! siz) \<longleftrightarrow> maxrun bl s siz" if "s < Suc (frag - siz)" for s
    using match_iff [OF assms(1,4)] assms(2,3,5) that by simp
  show "siz \<notin> set (runs bl)" if "mapsearch_blk frag m siz = None"
  proof -
    have "\<not> maxrun bl s siz" for s
    proof
      assume r: "maxrun bl s siz"
      then have s: "s < Suc (frag - siz)" using assms(2) by (auto simp: maxrun_def)
      then have "\<not> push_bit 1 m AND push_bit s (around ! siz) = push_bit s (inside ! siz)"
        using that unfolding mapsearch_blk_def find_None_iff by (metis add_0 atLeast_upt lessThan_iff set_upt atLeast0LessThan)
      then show False using mm [OF s] r by blast
    qed
    then show ?thesis using runs_maxrun [OF assms(4)] by blast
  qed
  show "maxrun bl s siz" if "mapsearch_blk frag m siz = Some s"
    using find_Some_first [OF that [unfolded mapsearch_blk_def]] mm [of s] by (metis atLeastLessThan_iff set_upt)
qed

lemma mapsearch_byte_found:
  assumes "frag_ok frag" "0 < siz" "siz \<le> frag" "h < n" "siz \<in> set (runs (blk cp frag h))" "k \<le> h"
  shows "\<exists>h' s. mapsearch_byte frag cp siz (k * frag) (n * frag) = Some (h' * frag + s) \<and> k \<le> h' \<and> h' < n \<and> maxrun (blk cp frag h') s siz"
  using assms(6)
proof (induction "n - k" arbitrary: k rule: less_induct)
  case less
  have f: "0 < frag" "frag \<le> 8" using assms(1) by (auto simp: frag_ok_def)
  have lt: "k * frag < n * frag" using less.prems assms(4) f by simp
  note b = mapsearch_blk_maxrun [OF holds_blkmap [OF assms(1)] length_blk f(2) assms(2,3)]
  show ?case
  proof (cases "mapsearch_blk frag (blkmap frag cp (k * frag)) siz")
    case None
    then have "k \<noteq> h" using b(1) [of cp k] assms(5) by auto
    then have "n - Suc k < n - k" "Suc k \<le> h" using less.prems assms(4) by auto
    from less.hyps [OF this] obtain h' s where
      r: "mapsearch_byte frag cp siz (Suc k * frag) (n * frag) = Some (h' * frag + s)" "Suc k \<le> h'" "h' < n" "maxrun (blk cp frag h') s siz"
      by blast
    have "mapsearch_byte frag cp siz (k * frag) (n * frag) = mapsearch_byte frag cp siz (Suc k * frag) (n * frag)"
      using lt f None by (simp add: mapsearch_byte.simps [of _ _ _ "k * frag"] add.commute)
    then show ?thesis using r by (metis Suc_leD)
  next
    case (Some s)
    then have "mapsearch_byte frag cp siz (k * frag) (n * frag) = Some (k * frag + s)"
      using lt f by (simp add: mapsearch_byte.simps [of _ _ _ "k * frag"])
    moreover have "k < n" using less.prems assms(4) by simp
    ultimately show ?thesis using b(2) [OF Some] by blast
  qed
qed

lemma entry_runs:
  assumes "frag_ok frag" "fragtbl frag = Some tbl" "0 < siz" "siz \<le> frag"
  shows "tbl ! unat (cp i) AND push_bit (siz - 1 + frag mod 8) 1 \<noteq> 0 \<longleftrightarrow> (\<exists>h. h div (8 div frag) = i \<and> siz \<in> set (runs (blk cp frag h)))"
proof -
  have "unat (cp i) < 256" using unsigned_less [of "cp i"] by simp
  from fragtbl_runs [OF assms(1) this assms(3,4,2)] show ?thesis
    unfolding byte_chunks [OF assms(1)] bit_iff_and_push_bit_not_eq_0 by auto
qed

text \<open>Bits beyond the group are not set.\<close>

definition map_bounded :: "fs \<Rightarrow> cg \<Rightarrow> bool" where
  "map_bounded fs cgp \<longleftrightarrow> (\<forall>i. isset (cg_free cgp) i \<longrightarrow> i < fs_fpg fs)"

lemma run_in_group:
  assumes "fs_geom fs" "map_bounded fs cgp" "siz \<in> set (runs (blk (cg_free cgp) (fs_frag fs) h))"
  shows "h < fs_fpg fs div fs_frag fs" "h div (8 div fs_frag fs) < howmany (fs_fpg fs) 8"
proof -
  let ?frag = "fs_frag fs"
  have p: "0 < siz" "siz \<le> ?frag" using runs_pos [OF assms(3)] by simp_all
  then obtain s where "maxrun (blk (cg_free cgp) ?frag h) s siz" using assms(3) runs_maxrun by blast
  then have "s < ?frag" "isset (cg_free cgp) (h * ?frag + s)"
    using maxrun_in [of _ s siz s] p by (auto simp: maxrun_def nth_blk)
  then have l: "h * ?frag + s < fs_fpg fs" using assms(2) by (auto simp: map_bounded_def)
  obtain k where k: "fs_fpg fs = ?frag * k" using fs_geomD(8) [OF assms(1)] by blast
  have "h * ?frag < k * ?frag" using le_less_trans [OF le_add1 l] unfolding k by (simp only: mult.commute)
  then have "h < k" by simp
  then show "h < fs_fpg fs div ?frag" using k fs_geomD(2) [OF assms(1)] by simp
  have "h div (8 div ?frag) = (h * ?frag + s) div 8" using blk_pos(1) [OF fs_geomD(1) [OF assms(1)] \<open>s < ?frag\<close>] by simp
  also have "\<dots> < howmany (fs_fpg fs) 8" using l by (simp add: howmany_def)
  finally show "h div (8 div ?frag) < howmany (fs_fpg fs) 8" .
qed

lemma mapsearch_spec:
  assumes "fs_geom fs" "map_bounded fs cgp" "cg_frotor cgp < fs_fpg fs" "0 < siz" "siz \<le> fs_frag fs"
  shows "\<lbrakk>h < fs_fpg fs div fs_frag fs; siz \<in> set (runs (blk (cg_free cgp) (fs_frag fs) h))\<rbrakk> \<Longrightarrow>
    \<exists>h' s f. mapsearch fs cgp bpref siz = Some (int (h' * fs_frag fs + s), cgp\<lparr>cg_frotor := f\<rparr>) \<and> f < fs_fpg fs \<and>
      h' < fs_fpg fs div fs_frag fs \<and> maxrun (blk (cg_free cgp) (fs_frag fs) h') s siz"
    "(\<And>h. h < fs_fpg fs div fs_frag fs \<Longrightarrow> siz \<notin> set (runs (blk (cg_free cgp) (fs_frag fs) h))) \<Longrightarrow>
      mapsearch fs cgp bpref siz = Some (-1, cgp)"
proof -
  let ?frag = "fs_frag fs" and ?cp = "cg_free cgp"
  define per where "per = 8 div ?frag"
  define start where "start = (if bpref \<noteq> 0 then dtogd fs bpref div 8 else cg_frotor cgp div 8)"
  define msk where "msk = push_bit (siz - 1 + ?frag mod 8) (1 :: nat)"
  note frag = fs_geomD(1) [OF assms(1)]
  have per: "per * ?frag = 8" "0 < per" using frag by (auto simp: frag_ok_def per_def)
  obtain tbl where tbl: "fragtbl ?frag = Some tbl" using frag by (auto simp: fragtbl_def frag_ok_def)
  note entry = entry_runs [OF frag tbl assms(4,5), of ?cp, folded per_def msk_def]
  have "x div 8 * 8 < fs_fpg fs" if "x < fs_fpg fs" for x using that div_times_less_eq_dividend [of x 8] by linarith
  then have "start * 8 < fs_fpg fs" unfolding start_def dtogd_def
    using mod_less_divisor [OF fs_geomD(10) [OF assms(1)], of bpref] assms(3) by simp
  then have start: "start < howmany (fs_fpg fs) 8" by (simp add: howmany_def)
  let ?loc = "scanc (howmany (fs_fpg fs) 8 - start) ?cp start tbl msk" and ?loc2 = "scanc (start + 1) ?cp 0 tbl msk"
  define i where "i = (if ?loc \<noteq> 0 then howmany (fs_fpg fs) 8 - ?loc else start + 1 - ?loc2)"
  have m: "mapsearch fs cgp bpref siz = (if ?loc = 0 \<and> ?loc2 = 0 then Some (-1, cgp)
      else map_option (\<lambda>b. (int b, cgp\<lparr>cg_frotor := i * 8\<rparr>)) (mapsearch_byte ?frag ?cp siz (i * 8) (i * 8 + 8)))"
  proof -
    have "start + (howmany (fs_fpg fs) 8 - start) - ?loc = howmany (fs_fpg fs) 8 - ?loc" using start by simp
    then show ?thesis
      unfolding mapsearch_def tbl Option.bind.simps Let_def start_def [symmetric] msk_def [symmetric] i_def map_option_case
      by (simp del: scanc.simps cong: if_cong split: option.split)
  qed
  show "mapsearch fs cgp bpref siz = Some (-1, cgp)"
    if none: "\<And>h. h < fs_fpg fs div ?frag \<Longrightarrow> siz \<notin> set (runs (blk ?cp ?frag h))"
  proof -
    have "tbl ! unat (?cp j) AND msk = 0" for j using entry [of j] none run_in_group(1) [OF assms(1,2), of siz] by blast
    then show ?thesis unfolding m by (simp add: scanc_0)
  qed
  assume h: "h < fs_fpg fs div ?frag" "siz \<in> set (runs (blk ?cp ?frag h))"
  have j: "h div per < howmany (fs_fpg fs) 8" "tbl ! unat (?cp (h div per)) AND msk \<noteq> 0"
    using run_in_group(2) [OF assms(1,2) h(2)] entry [of "h div per"] h(2) by (auto simp: per_def)
  have nz: "\<not> (?loc = 0 \<and> ?loc2 = 0)"
  proof (cases "h div per < start")
    case True
    then show ?thesis using j(2) scanc_0 [of "start + 1" ?cp 0 tbl msk] by (metis add_0 less_SucI Suc_eq_plus1)
  next
    case False
    then have "h div per - start < howmany (fs_fpg fs) 8 - start" using j(1) start by auto
    moreover have "start + (h div per - start) = h div per" using False by simp
    ultimately show ?thesis using j(2) scanc_0 [of "howmany (fs_fpg fs) 8 - start" ?cp start tbl msk] by metis
  qed
  have "tbl ! unat (?cp i) AND msk \<noteq> 0"
    using nz start scanc_found [of "howmany (fs_fpg fs) 8 - start" ?cp start tbl msk] scanc_found [of "start + 1" ?cp 0 tbl msk]
    by (auto simp: i_def)
  then obtain h2 where h2: "h2 div per = i" "siz \<in> set (runs (blk ?cp ?frag h2))" using entry by blast
  have i8: "i * 8 = (i * per) * ?frag" "i * 8 + 8 = (i * per + per) * ?frag"
    by (simp_all add: mult.assoc per(1) distrib_right)
  have "h2 < i * per + per" "i * per \<le> h2" using h2(1) per(2) div_mult_mod_eq [of h2 per] mod_less_divisor [OF per(2), of h2] by auto
  from mapsearch_byte_found [OF frag assms(4,5) this(1) h2(2) this(2)] obtain h' s where
    r: "mapsearch_byte ?frag ?cp siz ((i * per) * ?frag) ((i * per + per) * ?frag) = Some (h' * ?frag + s)" "maxrun (blk ?cp ?frag h') s siz"
    by blast
  have "i * 8 < fs_fpg fs"
    using run_in_group(2) [OF assms(1,2) h2(2)] h2(1) by (simp add: howmany_def per_def)
  moreover have "h' < fs_fpg fs div ?frag" using run_in_group(1) [OF assms(1,2)] runs_maxrun [OF assms(4)] r(2) by blast
  moreover have "mapsearch fs cgp bpref siz = Some (int (h' * ?frag + s), cgp\<lparr>cg_frotor := i * 8\<rparr>)"
    unfolding m r(1) [folded i8] using nz by (simp only: if_False option.map)
  ultimately show "\<exists>h' s f. mapsearch fs cgp bpref siz = Some (int (h' * ?frag + s), cgp\<lparr>cg_frotor := f\<rparr>) \<and> f < fs_fpg fs \<and>
      h' < fs_fpg fs div ?frag \<and> maxrun (blk ?cp ?frag h') s siz" using r(2) by blast
qed

end
