(* ===== verification/Ufs_Block.thy ===== *)
theory Ufs_Block
  imports Ufs_Cg
begin

text \<open>
  The invariant of a cylinder group, and \<open>alloccgblk\<close> (sys/ufs_alloc.c) under it: a group with a free block
  always yields one, no panic is reached, and the summary information stays exact.
\<close>

unbundle bit_operations_syntax

section \<open>The invariant\<close>

definition full :: "bool list \<Rightarrow> bool" where
  "full bl \<longleftrightarrow> bl = replicate (length bl) True"

definition free_blocks :: "bool list \<Rightarrow> int" where
  "free_blocks bl = (if full bl then 1 else 0)"

definition free_frags :: "bool list \<Rightarrow> int" where
  "free_frags bl = (if full bl then 0 else int (length (filter id bl)))"

definition runs_of :: "nat \<Rightarrow> bool list \<Rightarrow> int" where
  "runs_of s bl = int (count_list (runs bl) s)"

definition cg_counts :: "fs \<Rightarrow> cg \<Rightarrow> bool" where
  "cg_counts fs cgp \<longleftrightarrow>
     cs_nbfree (cg_cs cgp) = tally fs (\<lambda>_. free_blocks) (cg_free cgp) \<and>
     cs_nffree (cg_cs cgp) = tally fs (\<lambda>_. free_frags) (cg_free cgp) \<and>
     (\<forall>s. 0 < s \<and> s < fs_frag fs \<longrightarrow> cg_frsum cgp s = tally fs (\<lambda>_. runs_of s) (cg_free cgp)) \<and>
     (\<forall>c. cg_btot cgp c = tally fs (\<lambda>h bl. if cbtocylno fs (h * fs_frag fs) = c then free_blocks bl else 0) (cg_free cgp)) \<and>
     (\<forall>c r. cg_b cgp c r = tally fs (\<lambda>h bl. if cbtocylno fs (h * fs_frag fs) = c \<and> cbtorpos fs (h * fs_frag fs) = r
        then free_blocks bl else 0) (cg_free cgp))"

definition cg_map_ok :: "fs \<Rightarrow> cg \<Rightarrow> bool" where
  "cg_map_ok fs cgp \<longleftrightarrow> map_bounded fs cgp \<and> cg_counts fs cgp \<and> cg_frotor cgp < fs_fpg fs \<and> cg_rotor cgp < fs_fpg fs"

text \<open>The list of blocks that \<open>rot_chain\<close> walks, and what it has to hold for every block.\<close>

function rot_list :: "(nat \<Rightarrow> nat) \<Rightarrow> nat \<Rightarrow> nat list" where
  "rot_list rotbl i = i # (if rotbl i = 0 \<or> int (rotbl i) > int MAXBPC - int i then [] else rot_list rotbl (i + rotbl i))"
  by pat_completeness auto
termination by (relation "measure (\<lambda>(rotbl, i). MAXBPC - i)") auto

declare rot_list.simps [simp del]

definition rot_ok :: "fs \<Rightarrow> bool" where
  "rot_ok fs \<longleftrightarrow> fs_cpc fs = 0 \<or>
     (\<forall>h \<in> {..< fs_fpg fs div fs_frag fs}.
        let c = cbtocylno fs (h * fs_frag fs); r = cbtorpos fs (h * fs_frag fs); p = c mod fs_cpc fs in
        fs_postbl fs p r \<noteq> -1 \<and>
        (\<exists>j \<in> set (rot_list (fs_rotbl fs) (nat (fs_postbl fs p r))). h = (c - p) * fs_spc fs div NSPB fs + j))"

lemma free_blocks_nonneg: "0 \<le> free_blocks bl"
  by (simp add: free_blocks_def)

lemma full_blk: "full (blk a frag h) \<longleftrightarrow> (\<forall>j < frag. isset a (h * frag + j))"
  by (simp add: full_def list_eq_iff_nth_eq)

lemma full_runs: "bl \<noteq> [] \<Longrightarrow> length bl \<in> set (runs bl) \<longleftrightarrow> full bl"
proof
  assume "bl \<noteq> []" "length bl \<in> set (runs bl)"
  then obtain s where "maxrun bl s (length bl)" using runs_maxrun [of "length bl" bl] by auto
  then have "\<forall>j < length bl. bl ! j" by (auto simp: maxrun_def)
  then show "full bl" by (simp add: full_def list_eq_iff_nth_eq)
next
  assume "bl \<noteq> []" "full bl"
  then show "length bl \<in> set (runs bl)" by (metis full_def length_0_conv list.set_intros(1) runs_replicate)
qed

lemma full_run_start: "maxrun bl s (length bl) \<Longrightarrow> s = 0 \<and> full bl"
  using full_runs [of bl] runs_maxrun [of "length bl" bl] by (auto simp: maxrun_def)

section \<open>Taking a block\<close>

definition took :: "fs \<Rightarrow> cg \<Rightarrow> nat \<Rightarrow> cg \<Rightarrow> bool" where
  "took fs cgp h cgp' \<longleftrightarrow>
     h < fs_fpg fs div fs_frag fs \<and> full (blk (cg_free cgp) (fs_frag fs) h) \<and>
     (\<forall>i. isset (cg_free cgp') i \<longleftrightarrow> isset (cg_free cgp) i \<and> i div fs_frag fs \<noteq> h) \<and> cg_map_ok fs cgp' \<and>
     cg_cs cgp' = cs_nbfree_update (\<lambda>n. n - 1) (cg_cs cgp) \<and> cg_frsum cgp' = cg_frsum cgp \<and> cg_cgx cgp' = cg_cgx cgp \<and>
     cg_magic cgp' = cg_magic cgp \<and> cg_iused cgp' = cg_iused cgp \<and> cg_irotor cgp' = cg_irotor cgp"

definition block_taken :: "fs \<Rightarrow> nat \<Rightarrow> fs" where
  "block_taken fs i = (fs_count (cs_nbfree_update (\<lambda>n. n - 1)) i fs)\<lparr>fs_fmod := fs_fmod fs + 1\<rparr>"

lemma gotit_took:
  assumes "fs_geom fs" "cg_map_ok fs cgp" "h < fs_fpg fs div fs_frag fs" "full (blk (cg_free cgp) (fs_frag fs) h)"
  shows "\<exists>cgp'. gotit fs cgp (h * fs_frag fs) = Some (cg_cgx cgp * fs_fpg fs + h * fs_frag fs, block_taken fs (cg_cgx cgp), cgp') \<and>
    took fs cgp h cgp'"
proof -
  let ?frag = "fs_frag fs" and ?a = "cg_free cgp"
  note p = fs_geomD(2) [OF assms(1)]
  from clrblock_isset [OF fs_geomD(1) [OF assms(1)], of ?a h] obtain a' where
    a': "clrblock ?frag ?a h = Some a'" "\<And>i. isset a' i \<longleftrightarrow> isset ?a i \<and> i div ?frag \<noteq> h" by blast
  have same: "blk a' ?frag k = blk ?a ?frag k" if "k \<noteq> h" for k using that by (intro blk_eqI) (simp add: a')
  have gone: "blk a' ?frag h = replicate ?frag False" using p by (intro nth_equalityI) (simp_all add: a')
  have bl: "blk ?a ?frag h = replicate ?frag True" using assms(4) by (simp add: full_def)
  have nf: "\<not> full (replicate ?frag False)" using p by (simp add: full_def list_eq_iff_nth_eq) (metis not_gr_zero)
  have r: "count_list (runs (replicate ?frag True)) s = 0" "count_list (runs (replicate ?frag False)) s = 0" if "s < ?frag" for s
    using that runs_used [of ?frag "[]"] by (simp_all add: runs_replicate)
  note ch = tally_change [OF assms(3) same, unfolded gone bl]
  have counts: "cg_counts fs cgp" and mb: "map_bounded fs cgp" using assms(2) by (simp_all add: cg_map_ok_def)
  obtain cgp' where g: "gotit fs cgp (h * ?frag) = Some (cg_cgx cgp * fs_fpg fs + h * ?frag, block_taken fs (cg_cgx cgp), cgp')"
    and c': "cgp' = cgp\<lparr>cg_free := a', cg_cs := cs_nbfree_update (\<lambda>n. n - 1) (cg_cs cgp),
       cg_b := (cg_b cgp)(cbtocylno fs (h * ?frag) := (cg_b cgp (cbtocylno fs (h * ?frag)))
         (cbtorpos fs (h * ?frag) := cg_b cgp (cbtocylno fs (h * ?frag)) (cbtorpos fs (h * ?frag)) - 1)),
       cg_btot := (cg_btot cgp)(cbtocylno fs (h * ?frag) := cg_btot cgp (cbtocylno fs (h * ?frag)) - 1)\<rparr>"
    using p a'(1) by (simp add: gotit_def Let_def block_taken_def)
  have "cg_counts fs cgp'" unfolding cg_counts_def
  proof (intro conjI allI impI)
    show "cs_nbfree (cg_cs cgp') = tally fs (\<lambda>_. free_blocks) (cg_free cgp')"
      using counts nf ch [of "\<lambda>_. free_blocks"] by (simp add: c' cg_counts_def free_blocks_def full_def)
    show "cs_nffree (cg_cs cgp') = tally fs (\<lambda>_. free_frags) (cg_free cgp')"
      using counts nf ch [of "\<lambda>_. free_frags"] by (simp add: c' cg_counts_def free_frags_def full_def)
    show "cg_frsum cgp' s = tally fs (\<lambda>_. runs_of s) (cg_free cgp')" if "0 < s \<and> s < ?frag" for s
      using counts that r ch [of "\<lambda>_. runs_of s"] by (simp add: c' cg_counts_def runs_of_def)
    show "cg_btot cgp' c = tally fs (\<lambda>h bl. if cbtocylno fs (h * ?frag) = c then free_blocks bl else 0) (cg_free cgp')" for c
      using counts nf ch [of "\<lambda>h bl. if cbtocylno fs (h * ?frag) = c then free_blocks bl else 0"]
      by (simp add: c' cg_counts_def free_blocks_def full_def)
    show "cg_b cgp' c r = tally fs (\<lambda>h bl. if cbtocylno fs (h * ?frag) = c \<and> cbtorpos fs (h * ?frag) = r
        then free_blocks bl else 0) (cg_free cgp')" for c r
      using counts nf ch [of "\<lambda>h bl. if cbtocylno fs (h * ?frag) = c \<and> cbtorpos fs (h * ?frag) = r then free_blocks bl else 0"]
      by (simp add: c' cg_counts_def free_blocks_def full_def)
  qed
  then have "cg_map_ok fs cgp'" using assms(2) mb by (simp add: cg_map_ok_def map_bounded_def c' a'(2))
  then have "took fs cgp h cgp'" using assms(3,4) by (simp add: took_def a'(2) c')
  then show ?thesis using g by blast
qed

section \<open>Searching along a cylinder\<close>

lemma rot_chain_found:
  assumes "frag_ok frag" "j \<in> set (rot_list rotbl i)" "full (blk a frag (bno + j))"
  shows "\<exists>j'. rot_chain frag rotbl a bno i = Some ((bno + j') * frag) \<and> full (blk a frag (bno + j'))"
  using assms(2)
proof (induction rotbl i rule: rot_list.induct)
  case (1 rotbl i)
  have b: "isblock frag a (bno + i) = Some (full (blk a frag (bno + i)))"
    using isblock_blk [OF assms(1)] by (simp add: full_def)
  show ?case
  proof (cases "full (blk a frag (bno + i))")
    case True
    then show ?thesis using b by (auto simp: rot_chain.simps [of _ _ _ _ i])
  next
    case False
    then have "j \<noteq> i" using assms(3) by auto
    then have "\<not> (rotbl i = 0 \<or> int (rotbl i) > int MAXBPC - int i)" "j \<in> set (rot_list rotbl (i + rotbl i))"
      using 1(2) by (auto simp: rot_list.simps [of _ i] split: if_splits)
    with 1(1) [OF this] show ?thesis using b False by (simp add: rot_chain.simps [of _ _ _ _ i])
  qed
qed

lemma full_in_group:
  assumes "fs_geom fs" "map_bounded fs cgp" "full (blk (cg_free cgp) (fs_frag fs) h)"
  shows "h < fs_fpg fs div fs_frag fs"
proof (rule run_in_group(1) [OF assms(1,2)])
  have "blk (cg_free cgp) (fs_frag fs) h \<noteq> []" using fs_geomD(2) [OF assms(1)] by (metis length_blk length_greater_0_conv)
  then show "fs_frag fs \<in> set (runs (blk (cg_free cgp) (fs_frag fs) h))" using full_runs assms(3) by fastforce
qed

section \<open>\<open>alloccgblk\<close>\<close>

text \<open>What the routine ends with: a block taken from the group, whatever became of the rotors before.\<close>

definition block_result :: "fs \<Rightarrow> cg \<Rightarrow> (nat \<times> fs \<times> cg) option \<Rightarrow> bool" where
  "block_result fs cgp r \<longleftrightarrow>
     (\<exists>h cgp'. r = Some (cg_cgx cgp * fs_fpg fs + h * fs_frag fs, block_taken fs (cg_cgx cgp), cgp') \<and> took fs cgp h cgp')"

lemma block_resultI:
  "fs_geom fs \<Longrightarrow> cg_map_ok fs cgp \<Longrightarrow> full (blk (cg_free cgp) (fs_frag fs) h) \<Longrightarrow> block_result fs cgp (gotit fs cgp (h * fs_frag fs))"
  unfolding block_result_def using gotit_took [of fs cgp h] full_in_group [of fs cgp h] by (auto simp: cg_map_ok_def)

lemma cg_map_ok_rotors:
  "\<lbrakk>cg_map_ok fs cgp; f < fs_fpg fs; r < fs_fpg fs\<rbrakk> \<Longrightarrow> cg_map_ok fs (cgp\<lparr>cg_frotor := f, cg_rotor := r\<rparr>)"
  by (simp add: cg_map_ok_def cg_counts_def map_bounded_def)

lemma has_free_block:
  "cg_map_ok fs cgp \<Longrightarrow> cs_nbfree (cg_cs cgp) \<noteq> 0 \<Longrightarrow>
    \<exists>h < fs_fpg fs div fs_frag fs. full (blk (cg_free cgp) (fs_frag fs) h)"
  using tally_ex [of fs "\<lambda>_. free_blocks" "cg_free cgp"] unfolding cg_map_ok_def cg_counts_def free_blocks_def by (metis (full_types))

lemma norot_result:
  assumes "fs_geom fs" "cg_map_ok fs cgp" "cs_nbfree (cg_cs cgp) \<noteq> 0"
  shows "block_result fs cgp (norot fs cgp bpref)"
proof -
  let ?frag = "fs_frag fs"
  note p = fs_geomD(2) [OF assms(1)]
  have ok: "map_bounded fs cgp" "cg_frotor cgp < fs_fpg fs" using assms(2) by (simp_all add: cg_map_ok_def)
  have ne: "blk (cg_free cgp) ?frag k \<noteq> []" for k using p by (metis length_blk length_greater_0_conv)
  obtain h where "h < fs_fpg fs div ?frag" "full (blk (cg_free cgp) ?frag h)" using has_free_block [OF assms(2,3)] by blast
  then have "?frag \<in> set (runs (blk (cg_free cgp) ?frag h))" using full_runs [OF ne, of h] by simp
  from mapsearch_spec(1) [OF assms(1) ok p order_refl \<open>h < _\<close> this, of bpref] obtain h' s f where
    m: "mapsearch fs cgp bpref ?frag = Some (int (h' * ?frag + s), cgp\<lparr>cg_frotor := f\<rparr>)" "f < fs_fpg fs"
    "h' < fs_fpg fs div ?frag" "maxrun (blk (cg_free cgp) ?frag h') s ?frag" by blast
  from full_run_start [of "blk (cg_free cgp) ?frag h'" s] m(4) have s: "s = 0" "full (blk (cg_free cgp) ?frag h')" by simp_all
  have "h' * ?frag < fs_fpg fs" using m(3) p by (simp add: less_eq_div_iff_mult_less_eq less_le_trans Suc_le_eq [symmetric] del: Suc_le_eq)
  then have ok': "cg_map_ok fs (cgp\<lparr>cg_frotor := f, cg_rotor := h' * ?frag\<rparr>)" using cg_map_ok_rotors [OF assms(2) m(2)] by simp
  have "norot fs cgp bpref = gotit fs (cgp\<lparr>cg_frotor := f, cg_rotor := h' * ?frag\<rparr>) (h' * ?frag)"
    using m(1) s(1) by (simp add: norot_def del: of_nat_mult)
  moreover have "took fs (cgp\<lparr>cg_frotor := f, cg_rotor := h' * ?frag\<rparr>) k c = took fs cgp k c" for k c by (simp add: took_def)
  ultimately show ?thesis
    using gotit_took [OF assms(1) ok' m(3)] s(2) by (auto simp: block_result_def)
qed

lemma alloccgblk_result:
  assumes "fs_geom fs" "rot_ok fs" "cg_map_ok fs cgp" "cs_nbfree (cg_cs cgp) \<noteq> 0"
  shows "block_result fs cgp (alloccgblk fs cgp bpref)"
proof (cases "bpref = 0")
  case True
  then show ?thesis using norot_result [OF assms(1,3,4)] by (simp add: alloccgblk_def)
next
  case False
  let ?frag = "fs_frag fs" and ?a = "cg_free cgp"
  note p = fs_geomD(2) [OF assms(1)] and fr = fs_geomD(1) [OF assms(1)]
  define b where "b = dtogd fs (nat (int bpref AND NOT (int ?frag - 1)))"
  define h where "h = b div ?frag"
  have "?frag dvd bpref - bpref mod ?frag" by (rule dvd_minus_mod)
  then have "?frag dvd b" unfolding b_def frag_align [OF fr] dtogd_def by (rule dvd_mod [OF _ fs_geomD(8) [OF assms(1)]])
  then have b: "b = h * ?frag" by (simp add: h_def)
  have isb: "isblock ?frag ?a k = Some (full (blk ?a ?frag k))" for k using isblock_blk [OF fr] by (simp add: full_def)
  note norot = norot_result [OF assms(1,3,4)]
  let ?c = "cbtocylno fs b"
  let ?i = "rot_pos (cg_b cgp ?c) (cbtorpos fs b)"
  let ?base = "(?c - ?c mod fs_cpc fs) * fs_spc fs div NSPB fs" and ?post = "fs_postbl fs (?c mod fs_cpc fs) ?i"
  have "alloccgblk fs cgp bpref =
     (if full (blk ?a ?frag h) then gotit fs cgp b
      else if cg_btot cgp ?c = 0 then norot fs cgp b
      else if fs_cpc fs = 0 then norot fs cgp (howmany (fs_spc fs * ?c) (fs_nspf fs))
      else if 0 < cg_b cgp ?c ?i then
        if ?post = -1 then None
        else rot_chain ?frag (fs_rotbl fs) ?a ?base (nat ?post) \<bind> gotit fs cgp
      else norot fs cgp b)" (is "_ = ?rhs")
    using False by (simp add: alloccgblk_def isb Let_def b_def [symmetric] h_def [symmetric])
  moreover have "block_result fs cgp ?rhs"
  proof -
    have rot: "block_result fs cgp (if ?post = -1 then None else rot_chain ?frag (fs_rotbl fs) ?a ?base (nat ?post) \<bind> gotit fs cgp)"
      if i: "0 < cg_b cgp ?c ?i" and cpc: "fs_cpc fs \<noteq> 0"
    proof -
      have "tally fs (\<lambda>h bl. if cbtocylno fs (h * ?frag) = ?c \<and> cbtorpos fs (h * ?frag) = ?i then free_blocks bl else 0) ?a \<noteq> 0"
        using i assms(3) by (simp add: cg_map_ok_def cg_counts_def)
      from tally_ex [OF this] obtain k where k: "k < fs_fpg fs div ?frag" "cbtocylno fs (k * ?frag) = ?c"
        "cbtorpos fs (k * ?frag) = ?i" "full (blk ?a ?frag k)" by (auto simp: free_blocks_def split: if_splits)
      then obtain j where j: "?post \<noteq> -1" "j \<in> set (rot_list (fs_rotbl fs) (nat ?post))" "k = ?base + j"
        using assms(2) cpc unfolding rot_ok_def Let_def by (metis lessThan_iff)
      from rot_chain_found [OF fr j(2), of ?a ?base] k(4) j(3) obtain j' where
        "rot_chain ?frag (fs_rotbl fs) ?a ?base (nat ?post) = Some ((?base + j') * ?frag)" "full (blk ?a ?frag (?base + j'))" by blast
      then show ?thesis using j(1) block_resultI [OF assms(1,3)] by simp
    qed
    then show ?thesis using norot block_resultI [OF assms(1,3), of h] b by simp
  qed
  ultimately show ?thesis by simp
qed

text \<open>Counting fragments and blocks.\<close>

definition nffree_add :: "int \<Rightarrow> csum \<Rightarrow> csum" where
  "nffree_add k = cs_nffree_update (\<lambda>n. n + k)"

definition nbfree_add :: "int \<Rightarrow> csum \<Rightarrow> csum" where
  "nbfree_add k = cs_nbfree_update (\<lambda>n. n + k)"

section \<open>Changing one block\<close>

lemma counts_change:
  assumes "cg_counts fs cgp" "h < fs_fpg fs div fs_frag fs"
    and "\<And>k. k \<noteq> h \<Longrightarrow> blk (cg_free cgp') (fs_frag fs) k = blk (cg_free cgp) (fs_frag fs) k"
    and "blk (cg_free cgp) (fs_frag fs) h = bl" "blk (cg_free cgp') (fs_frag fs) h = bl'"
    and "cs_nbfree (cg_cs cgp') = cs_nbfree (cg_cs cgp) + (free_blocks bl' - free_blocks bl)"
    and "cs_nffree (cg_cs cgp') = cs_nffree (cg_cs cgp) + (free_frags bl' - free_frags bl)"
    and "\<And>s. 0 < s \<Longrightarrow> s < fs_frag fs \<Longrightarrow> cg_frsum cgp' s = cg_frsum cgp s + (runs_of s bl' - runs_of s bl)"
    and "\<And>c. cg_btot cgp' c = cg_btot cgp c + (if cbtocylno fs (h * fs_frag fs) = c then free_blocks bl' - free_blocks bl else 0)"
    and "\<And>c r. cg_b cgp' c r = cg_b cgp c r +
      (if cbtocylno fs (h * fs_frag fs) = c \<and> cbtorpos fs (h * fs_frag fs) = r then free_blocks bl' - free_blocks bl else 0)"
  shows "cg_counts fs cgp'"
  unfolding cg_counts_def
proof (intro conjI allI impI)
  note ch = tally_change [OF assms(2,3), unfolded assms(4,5)]
  have c: "cs_nbfree (cg_cs cgp) = tally fs (\<lambda>_. free_blocks) (cg_free cgp)" "cs_nffree (cg_cs cgp) = tally fs (\<lambda>_. free_frags) (cg_free cgp)"
    "\<And>s. 0 < s \<Longrightarrow> s < fs_frag fs \<Longrightarrow> cg_frsum cgp s = tally fs (\<lambda>_. runs_of s) (cg_free cgp)"
    "\<And>c. cg_btot cgp c = tally fs (\<lambda>h bl. if cbtocylno fs (h * fs_frag fs) = c then free_blocks bl else 0) (cg_free cgp)"
    "\<And>c r. cg_b cgp c r = tally fs (\<lambda>h bl. if cbtocylno fs (h * fs_frag fs) = c \<and> cbtorpos fs (h * fs_frag fs) = r
        then free_blocks bl else 0) (cg_free cgp)"
    using assms(1) unfolding cg_counts_def by blast+
  show "cs_nbfree (cg_cs cgp') = tally fs (\<lambda>_. free_blocks) (cg_free cgp')" using ch [of "\<lambda>_. free_blocks"] assms(6) c(1) by simp
  show "cs_nffree (cg_cs cgp') = tally fs (\<lambda>_. free_frags) (cg_free cgp')" using ch [of "\<lambda>_. free_frags"] assms(7) c(2) by simp
  show "cg_frsum cgp' s = tally fs (\<lambda>_. runs_of s) (cg_free cgp')" if "0 < s \<and> s < fs_frag fs" for s
    using that ch [of "\<lambda>_. runs_of s"] assms(8) c(3) by simp
  show "cg_btot cgp' c = tally fs (\<lambda>h bl. if cbtocylno fs (h * fs_frag fs) = c then free_blocks bl else 0) (cg_free cgp')" for c
    using ch [of "\<lambda>h bl. if cbtocylno fs (h * fs_frag fs) = c then free_blocks bl else 0"] assms(9) c(4) by simp
  show "cg_b cgp' c r = tally fs (\<lambda>h bl. if cbtocylno fs (h * fs_frag fs) = c \<and> cbtorpos fs (h * fs_frag fs) = r
        then free_blocks bl else 0) (cg_free cgp')" for c r
    using ch [of "\<lambda>h bl. if cbtocylno fs (h * fs_frag fs) = c \<and> cbtorpos fs (h * fs_frag fs) = r then free_blocks bl else 0"]
      assms(10) c(5) by simp
qed

text \<open>A range inside one block.\<close>

lemma block_of: "j < frag \<Longrightarrow> (h * frag + j) div frag = h" for h j frag :: nat
  by (metis add_cancel_right_right div_less div_mult_self3 gr_implies_not0)

lemma div_block_iff:
  fixes j frag :: nat
  assumes "0 < frag"
  shows "j div frag = h \<longleftrightarrow> h * frag \<le> j \<and> j < h * frag + frag"
proof
  assume "j div frag = h"
  then show "h * frag \<le> j \<and> j < h * frag + frag"
    using div_mult_mod_eq [of j frag] mod_less_divisor [OF assms, of j] by auto
next
  assume "h * frag \<le> j \<and> j < h * frag + frag"
  then have "j - h * frag < frag" "h * frag + (j - h * frag) = j" by auto
  then show "j div frag = h" using block_of by metis
qed

lemma range_blk:
  assumes "\<And>j. isset a' j \<longleftrightarrow> P (isset a j) (h * frag + m \<le> j \<and> j < h * frag + n)" "\<And>x. P x False = x" "n \<le> frag"
  shows "k \<noteq> h \<Longrightarrow> blk a' frag k = blk a frag k" "j < frag \<Longrightarrow> blk a' frag h ! j \<longleftrightarrow> P (blk a frag h ! j) (m \<le> j \<and> j < n)"
proof -
  show "blk a' frag k = blk a frag k" if "k \<noteq> h"
  proof (rule blk_eqI)
    fix i assume "i div frag = k"
    have "\<not> (h * frag + m \<le> i \<and> i < h * frag + n)"
    proof
      assume r: "h * frag + m \<le> i \<and> i < h * frag + n"
      then have "i - h * frag < frag" "h * frag + (i - h * frag) = i" using assms(3) by auto
      then show False using block_of [of "i - h * frag" frag h] \<open>i div frag = k\<close> that by simp
    qed
    then have "(h * frag + m \<le> i \<and> i < h * frag + n) = False" by simp
    then show "isset a' i = isset a i" unfolding assms(1) by (simp only: assms(2))
  qed
  show "blk a' frag h ! j \<longleftrightarrow> P (blk a frag h ! j) (m \<le> j \<and> j < n)" if "j < frag" using that by (simp add: assms(1))
qed

lemma cut_run_ok:
  assumes "fs_geom fs" "cg_map_ok fs cgp" "h < fs_fpg fs div fs_frag fs" "maxrun (blk (cg_free cgp) (fs_frag fs) h) s L"
    and "L < fs_frag fs" "0 < d" "d \<le> L"
    and a': "\<And>j. isset a' j \<longleftrightarrow> isset (cg_free cgp) j \<and> \<not> (h * fs_frag fs + s \<le> j \<and> j < h * fs_frag fs + (s + d))"
    and cs: "cs' = nffree_add (- int d) (cg_cs cgp)"
    and fr: "frsum' = (cg_frsum cgp)(L := cg_frsum cgp L - 1)"
    and fr2: "frsum2 = (if d \<noteq> L then frsum'(L - d := frsum' (L - d) + 1) else frsum')"
    and f: "f < fs_fpg fs"
  shows "cg_map_ok fs (cgp\<lparr>cg_frotor := f, cg_free := a', cg_cs := cs', cg_frsum := frsum2\<rparr>)"
proof -
  let ?frag = "fs_frag fs" and ?bl = "blk (cg_free cgp) (fs_frag fs) h"
  let ?cgp' = "cgp\<lparr>cg_frotor := f, cg_free := a', cg_cs := cs', cg_frsum := frsum2\<rparr>"
  have sl: "s + L \<le> ?frag" using assms(4) by (simp add: maxrun_def)
  have rb: "k \<noteq> h \<Longrightarrow> blk a' ?frag k = blk (cg_free cgp) ?frag k" "j < ?frag \<Longrightarrow> blk a' ?frag h ! j \<longleftrightarrow> ?bl ! j \<and> \<not> (s \<le> j \<and> j < s + d)" for k j
    using range_blk [of a' "\<lambda>x y. x \<and> \<not> y", OF a'] sl assms(7) by auto
  have bl': "blk a' ?frag h = cut_run ?bl s L d"
    using cut_run_nth [OF assms(4,7)] rb(2) length_cut_run [OF assms(4,7)] by (intro nth_equalityI) simp_all
  have nfull: "\<not> full ?bl"
  proof
    assume fl: "full ?bl"
    then have b: "?bl ! j" if "j < ?frag" for j using that by (simp add: full_blk)
    have "s = 0 \<or> s - 1 < ?frag" "s + L = ?frag \<or> s + L < ?frag" using sl by auto
    then show False using b [of "s - 1"] b [of "s + L"] assms(4,5) by (auto simp: maxrun_def)
  qed
  have "\<not> cut_run ?bl s L d ! s" using cut_run_nth [OF assms(4,7), of s] sl assms(6,7) by simp
  then have nfull': "\<not> full (cut_run ?bl s L d)"
    using sl assms(6,7) length_cut_run [OF assms(4,7)] unfolding full_def by (metis add_gr_0 less_le_trans length_blk less_add_same_cancel1 nth_replicate le_less_trans less_numeral_extra(3) linorder_not_less add_leE)
  note r = runs_split [OF assms(4)] runs_cut [OF assms(4,7,6)]
  have ff: "int (length (filter id (cut_run ?bl s L d))) = int (length (filter id ?bl)) - int d"
    using assms(7) by (auto simp flip: sum_runs simp: r)
  have "cg_counts fs ?cgp'"
  proof (rule counts_change [where bl = ?bl and bl' = "cut_run ?bl s L d" and h = h and cgp = cgp])
    show "cg_frsum ?cgp' k = cg_frsum cgp k + (runs_of k (cut_run ?bl s L d) - runs_of k ?bl)" if "0 < k" for k
      using that assms(6,7) unfolding runs_of_def r by (auto simp: fr2 fr count_list_append)
  qed (use assms(2,3) rb(1) bl' nfull nfull' ff in \<open>simp_all add: cg_map_ok_def cs nffree_add_def free_blocks_def free_frags_def\<close>)
  then show ?thesis using assms(2) f a' by (simp add: cg_map_ok_def map_bounded_def)
qed

text \<open>The rest of a block of which the first fragments are used.\<close>

lemma not_full_used: "0 < k \<Longrightarrow> k \<le> n \<Longrightarrow> \<not> full (replicate k False @ replicate (n - k) True)"
  by (cases k; cases n) (simp_all add: full_def)

lemma hack_ok:
  assumes "fs_geom fs" "cg_map_ok fs cgp" "h < fs_fpg fs div fs_frag fs" "\<And>j. j < fs_frag fs \<Longrightarrow> \<not> isset (cg_free cgp) (h * fs_frag fs + j)"
    and "0 < k" "k < fs_frag fs"
    and a': "\<And>j. isset a' j \<longleftrightarrow> isset (cg_free cgp) j \<or> (h * fs_frag fs + k \<le> j \<and> j < h * fs_frag fs + fs_frag fs)"
  shows "cg_map_ok fs (cgp\<lparr>cg_free := a', cg_cs := nffree_add (int (fs_frag fs - k)) (cg_cs cgp),
    cg_frsum := (cg_frsum cgp)(fs_frag fs - k := cg_frsum cgp (fs_frag fs - k) + 1)\<rparr>)" (is "cg_map_ok fs ?cgp'")
proof -
  let ?frag = "fs_frag fs"
  let ?bl' = "replicate k False @ replicate (?frag - k) True"
  note rb = range_blk [of a' "\<lambda>x y. x \<or> y", OF a' _ order_refl]
  have bl: "blk (cg_free cgp) ?frag h = replicate ?frag False" using assms(4) by (intro nth_equalityI) simp_all
  have bl': "blk a' ?frag h = ?bl'" using assms(4,6) by (intro nth_equalityI) (simp_all add: a' nth_append)
  have nf: "\<not> full (replicate ?frag False)" using not_full_used [of ?frag ?frag] assms(5,6) by simp
  note nf' = not_full_used [OF assms(5) less_imp_le [OF assms(6)]]
  have r: "runs ?bl' = [?frag - k]" "runs (replicate ?frag False) = []"
    using runs_used [of _ "[]"] assms(6) by (simp_all add: runs_used runs_replicate)
  have "cg_counts fs ?cgp'"
    by (rule counts_change [where bl = "replicate ?frag False" and bl' = ?bl' and h = h and cgp = cgp])
      (use assms(2,3,6) rb(1) bl bl' nf nf' in \<open>simp_all add: cg_map_ok_def nffree_add_def free_blocks_def free_frags_def runs_of_def r\<close>)
  moreover have "isset a' i \<Longrightarrow> i < fs_fpg fs" for i
  proof -
    assume "isset a' i"
    moreover have "h * ?frag + ?frag \<le> fs_fpg fs"
      using assms(3) fs_geomD(2) [OF assms(1)] by (metis add.commute less_eq_div_iff_mult_less_eq mult_Suc Suc_leI)
    ultimately show ?thesis using a' assms(2) by (auto simp: cg_map_ok_def map_bounded_def)
  qed
  ultimately show ?thesis using assms(2) by (simp add: cg_map_ok_def map_bounded_def)
qed

section \<open>Giving back\<close>

lemma filter_set_range:
  assumes "length bl' = length bl" "\<And>j. j < length bl \<Longrightarrow> bl' ! j \<longleftrightarrow> bl ! j \<or> (m \<le> j \<and> j < m + k)"
    and "\<And>j. m \<le> j \<Longrightarrow> j < m + k \<Longrightarrow> \<not> bl ! j" "m + k \<le> length bl"
  shows "length (filter id bl') = length (filter id bl) + k"
proof -
  have "{j. j < length bl' \<and> id (bl' ! j)} = {j. j < length bl \<and> id (bl ! j)} \<union> {m..<m + k}"
    using assms(1,2,4) by auto
  moreover have "{j. j < length bl \<and> id (bl ! j)} \<inter> {m..<m + k} = {}" using assms(3) by auto
  ultimately show ?thesis unfolding length_filter_conv_card by (simp add: card_Un_disjoint)
qed

definition gain_block :: "fs \<Rightarrow> cg \<Rightarrow> nat \<Rightarrow> cg" where
  "gain_block fs cgp bno = cgp\<lparr>
     cg_b := (cg_b cgp)(cbtocylno fs bno := (cg_b cgp (cbtocylno fs bno))(cbtorpos fs bno := cg_b cgp (cbtocylno fs bno) (cbtorpos fs bno) + 1)),
     cg_btot := (cg_btot cgp)(cbtocylno fs bno := cg_btot cgp (cbtocylno fs bno) + 1)\<rparr>"

lemma release_ok:
  assumes "fs_geom fs" "cg_map_ok fs cgp" "h < fs_fpg fs div fs_frag fs" "m + k \<le> fs_frag fs" "0 < k"
    and used: "\<And>j. m \<le> j \<Longrightarrow> j < m + k \<Longrightarrow> \<not> isset (cg_free cgp) (h * fs_frag fs + j)"
    and a': "\<And>j. isset a' j \<longleftrightarrow> isset (cg_free cgp) j \<or> (h * fs_frag fs + m \<le> j \<and> j < h * fs_frag fs + (m + k))"
    and fr: "\<And>s. 0 < s \<Longrightarrow> s < fs_frag fs \<Longrightarrow> frsum s = cg_frsum cgp s + (runs_of s (blk a' (fs_frag fs) h) - runs_of s (blk (cg_free cgp) (fs_frag fs) h))"
    and cs: "cs = (if full (blk a' (fs_frag fs) h) then nbfree_add 1 (nffree_add (int k - int (fs_frag fs)) (cg_cs cgp)) else nffree_add (int k) (cg_cs cgp))"
    and c': "cgp' = (if full (blk a' (fs_frag fs) h) then gain_block fs cgp (h * fs_frag fs) else cgp)\<lparr>cg_free := a', cg_cs := cs, cg_frsum := frsum\<rparr>"
  shows "cg_map_ok fs cgp'"
proof -
  let ?frag = "fs_frag fs"
  let ?bl = "blk (cg_free cgp) ?frag h" and ?bl' = "blk a' ?frag h"
  note rb = range_blk [of a' "\<lambda>x y. x \<or> y", OF a' _ assms(4)]
  have cnt: "length (filter id ?bl') = length (filter id ?bl) + k"
    using rb(2) used assms(4) by (intro filter_set_range [of _ _ m]) simp_all
  have nf: "\<not> full ?bl" using used [of m] assms(4,5) by (auto simp: full_blk intro!: exI [of _ m])
  have all: "length (filter id ?bl') = ?frag" if "full ?bl'" using that by (metis filter_True full_def id_apply in_set_replicate length_blk)
  have "cg_counts fs cgp'"
    by (rule counts_change [where bl = ?bl and bl' = ?bl' and h = h and cgp = cgp])
      (use assms(2,3) rb(1) nf all cnt fr in \<open>auto simp: cg_map_ok_def c' cs gain_block_def nffree_add_def nbfree_add_def free_blocks_def free_frags_def\<close>)
  moreover have "isset a' i \<Longrightarrow> i < fs_fpg fs" for i
  proof -
    assume "isset a' i"
    moreover have "h * ?frag + ?frag \<le> fs_fpg fs"
      using assms(3) fs_geomD(2) [OF assms(1)] by (metis add.commute less_eq_div_iff_mult_less_eq mult_Suc Suc_leI)
    ultimately show ?thesis using a' assms(2,4) by (auto simp: cg_map_ok_def map_bounded_def)
  qed
  ultimately show ?thesis using assms(2) by (simp add: cg_map_ok_def map_bounded_def c' gain_block_def)
qed

end
