(* ===== verification/Ufs_Alloc.thy ===== *)
theory Ufs_Alloc
  imports Ufs_Block
begin

text \<open>
  The allocation routines of sys/ufs_alloc.c.  The state is the super block, the cylinder groups as the buffer
  cache holds them, and the contents of the data blocks.  A group whose buffer was left locked by a routine
  that returned without \<open>brelse\<close> makes the next reader sleep for ever, which is \<open>None\<close>, as a panic is.
  The reads that fail and the time are part of the state and do not change.
\<close>

unbundle bit_operations_syntax

section \<open>State\<close>

record ufs =
  u_fs :: fs
  u_cg :: "nat \<Rightarrow> cg"
  u_held :: "nat \<Rightarrow> bool"
  u_rderr :: "nat \<Rightarrow> bool"
  u_drderr :: "nat \<Rightarrow> bool"
  u_time :: int
  u_uid :: nat
  u_error :: nat
  u_data :: "nat \<Rightarrow> byte"

definition ENOSPC :: nat where
  "ENOSPC = 28"

text \<open>\<open>bread\<close> of a group with the test of its magic number: the inner \<open>None\<close> is an error.\<close>

definition cgread :: "ufs \<Rightarrow> nat \<Rightarrow> cg option option" where
  "cgread s cg =
     (if u_held s cg then None
      else Some (if u_rderr s cg \<or> cg_magic (u_cg s cg) \<noteq> CG_MAGIC then None else Some (u_cg s cg)))"

text \<open>The group as the routine leaves it in the buffer, released, or still locked.\<close>

definition cgput :: "ufs \<Rightarrow> nat \<Rightarrow> cg \<Rightarrow> ufs" where
  "cgput s cg cgp = s\<lparr>u_cg := (u_cg s)(cg := cgp)\<rparr>"

definition cgleak :: "ufs \<Rightarrow> nat \<Rightarrow> cg \<Rightarrow> ufs" where
  "cgleak s cg cgp = s\<lparr>u_cg := (u_cg s)(cg := cgp), u_held := (u_held s)(cg := True)\<rparr>"

section \<open>Fragments\<close>

definition fragextend :: "ufs \<Rightarrow> nat \<Rightarrow> nat \<Rightarrow> nat \<Rightarrow> nat \<Rightarrow> (nat \<times> ufs) option" where
  "fragextend s cg bprev osize nsize =
     (let fs = u_fs s; frags = numfrags fs nsize; ofrags = numfrags fs osize; bbase = fragoff fs bprev in
      if cs_nffree (fs_cs fs cg) < int nsize - int osize then Some (0, s)
      else if bbase > (bprev + frags - 1) mod fs_frag fs then Some (0, s)
      else do {
        r \<leftarrow> cgread s cg;
        (case r of
           None \<Rightarrow> Some (0, s)
         | Some cgp \<Rightarrow>
             let cgp = cgp\<lparr>cg_time := u_time s\<rparr>; bno = dtogd fs bprev in
             if \<exists>i \<in> set [ofrags..<frags]. isclr (cg_free cgp) (bno + i) then Some (0, cgput s cg cgp)
             else
               let i = (case find (\<lambda>i. isclr (cg_free cgp) (bno + i)) [frags..<fs_frag fs - bbase] of
                          Some i \<Rightarrow> i | None \<Rightarrow> max frags (fs_frag fs - bbase));
                   frsum = (cg_frsum cgp)(i - ofrags := cg_frsum cgp (i - ofrags) - 1);
                   frsum = (if i \<noteq> frags then frsum(i - frags := frsum (i - frags) + 1) else frsum);
                   free = fold (\<lambda>i a. clrbit a (bno + i)) [ofrags..<frags] (cg_free cgp);
                   dec = nffree_add (- int (frags - ofrags))
               in Some (bprev,
                    (cgput s cg (cgp\<lparr>cg_frsum := frsum, cg_free := free, cg_cs := dec (cg_cs cgp)\<rparr>))
                      \<lparr>u_fs := (fs_count dec cg fs)\<lparr>fs_fmod := fs_fmod fs + 1\<rparr>\<rparr>))
      })"

definition alloccg :: "ufs \<Rightarrow> nat \<Rightarrow> nat \<Rightarrow> nat \<Rightarrow> (nat \<times> ufs) option" where
  "alloccg s cg bpref sz =
     (let fs = u_fs s in
      if cs_nbfree (fs_cs fs cg) = 0 \<and> sz = fs_bsize fs then Some (0, s)
      else do {
        r \<leftarrow> cgread s cg;
        (case r of
           None \<Rightarrow> Some (0, s)
         | Some cgp \<Rightarrow>
             if cs_nbfree (cg_cs cgp) = 0 \<and> sz = fs_bsize fs then Some (0, cgleak s cg cgp)
             else
               let cgp = cgp\<lparr>cg_time := u_time s\<rparr> in
               if sz = fs_bsize fs then do {
                 (bno, fs, cgp) \<leftarrow> alloccgblk fs cgp bpref;
                 Some (bno, (cgput s cg cgp)\<lparr>u_fs := fs\<rparr>)
               }
               else
                 let frags = numfrags fs sz in
                 (case find (\<lambda>k. cg_frsum cgp k \<noteq> 0) [frags..<fs_frag fs] of
                    None \<Rightarrow>
                      if cs_nbfree (cg_cs cgp) = 0 then Some (0, cgput s cg cgp)
                      else do {
                        (bno, fs, cgp) \<leftarrow> alloccgblk fs cgp bpref;
                        let bpref = dtogd fs bno;
                        let free = fold (\<lambda>i a. setbit a (bpref + i)) [frags..<fs_frag fs] (cg_free cgp);
                        let i = fs_frag fs - frags;
                        let inc = nffree_add (int i);
                        Some (bno,
                          (cgput s cg (cgp\<lparr>cg_free := free, cg_cs := inc (cg_cs cgp),
                             cg_frsum := (cg_frsum cgp)(i := cg_frsum cgp i + 1)\<rparr>))
                            \<lparr>u_fs := (fs_count inc cg fs)\<lparr>fs_fmod := fs_fmod fs + 1\<rparr>\<rparr>)
                      }
                  | Some allocsiz \<Rightarrow> do {
                      (bno, cgp) \<leftarrow> mapsearch fs cgp bpref allocsiz;
                      if bno < 0 then Some (0, cgleak s cg cgp)
                      else
                        let bno = nat bno;
                            free = fold (\<lambda>i a. clrbit a (bno + i)) [0..<frags] (cg_free cgp);
                            dec = nffree_add (- int frags);
                            frsum = (cg_frsum cgp)(allocsiz := cg_frsum cgp allocsiz - 1);
                            frsum = (if frags \<noteq> allocsiz then frsum(allocsiz - frags := frsum (allocsiz - frags) + 1)
                                     else frsum)
                        in Some (cg * fs_fpg fs + bno,
                             (cgput s cg (cgp\<lparr>cg_free := free, cg_cs := dec (cg_cs cgp), cg_frsum := frsum\<rparr>))
                               \<lparr>u_fs := (fs_count dec cg fs)\<lparr>fs_fmod := fs_fmod fs + 1\<rparr>\<rparr>)
                    }))
      })"

section \<open>Overflowing into other groups\<close>

text \<open>Step 2 of \<open>hashalloc\<close>: \<open>i\<close> doubles while it is less than the number of groups.\<close>

function hash_quad :: "(nat \<Rightarrow> nat \<Rightarrow> 's \<Rightarrow> (nat \<times> 's) option) \<Rightarrow> nat \<Rightarrow> nat \<Rightarrow> nat \<Rightarrow> 's \<Rightarrow> (nat \<times> 's) option" where
  "hash_quad allocator ncg cg i s =
     (if 0 < i \<and> i < ncg then do {
        let cg = (if ncg \<le> cg + i then cg + i - ncg else cg + i);
        (res, s) \<leftarrow> allocator cg 0 s;
        if res \<noteq> 0 then Some (res, s) else hash_quad allocator ncg cg (i * 2) s
      }
      else Some (0, s))"
  by pat_completeness auto
termination by (relation "measure (\<lambda>(allocator, ncg, cg, i, s). ncg - i)") auto

declare hash_quad.simps [simp del]

text \<open>Step 3: the other groups, one after the other.\<close>

fun hash_brute :: "(nat \<Rightarrow> nat \<Rightarrow> 's \<Rightarrow> (nat \<times> 's) option) \<Rightarrow> nat \<Rightarrow> nat \<Rightarrow> nat \<Rightarrow> 's \<Rightarrow> (nat \<times> 's) option" where
  "hash_brute allocator ncg cg 0 s = Some (0, s)"
| "hash_brute allocator ncg cg (Suc n) s =
     do {
       (res, s) \<leftarrow> allocator cg 0 s;
       if res \<noteq> 0 then Some (res, s)
       else hash_brute allocator ncg (if cg + 1 = ncg then 0 else cg + 1) n s
     }"

definition hashalloc :: "(nat \<Rightarrow> nat \<Rightarrow> 's \<Rightarrow> (nat \<times> 's) option) \<Rightarrow> nat \<Rightarrow> nat \<Rightarrow> nat \<Rightarrow> 's \<Rightarrow> (nat \<times> 's) option" where
  "hashalloc allocator ncg cg pref s =
     do {
       (res, s) \<leftarrow> allocator cg pref s;
       if res \<noteq> 0 then Some (res, s)
       else do {
         (res, s) \<leftarrow> hash_quad allocator ncg cg 1 s;
         if res \<noteq> 0 then Some (res, s)
         else hash_brute allocator ncg ((cg + 2) mod ncg) (ncg - 2) s
       }
     }"

section \<open>Allocating for a file\<close>

definition minfree_left :: "ufs \<Rightarrow> bool" where
  "minfree_left s = (let fs = u_fs s in
     u_uid s \<noteq> 0 \<and> cs_nbfree (fs_cstotal fs) * int (fs_frag fs) + cs_nffree (fs_cstotal fs) <
       int (fs_dsize fs * fs_minfree fs div 100))"

definition nospace :: "ufs \<Rightarrow> (nat option \<times> ufs) option" where
  "nospace s = Some (None, s\<lparr>u_error := ENOSPC\<rparr>)"

definition clrdata :: "ufs \<Rightarrow> nat \<Rightarrow> nat \<Rightarrow> nat \<Rightarrow> ufs" where
  "clrdata s bno from until =
     s\<lparr>u_data := (\<lambda>a. if bno * fs_fsize (u_fs s) + from \<le> a \<and> a < bno * fs_fsize (u_fs s) + until then 0 else u_data s a)\<rparr>"

definition copydata :: "ufs \<Rightarrow> nat \<Rightarrow> nat \<Rightarrow> nat \<Rightarrow> ufs" where
  "copydata s obno bno sz = (let d = bno * fs_fsize (u_fs s) in
     s\<lparr>u_data := (\<lambda>a. if d \<le> a \<and> a < d + sz then u_data s (obno * fs_fsize (u_fs s) + (a - d)) else u_data s a)\<rparr>)"

definition alloc :: "ufs \<Rightarrow> nat \<Rightarrow> nat \<Rightarrow> nat \<Rightarrow> (nat option \<times> ufs) option" where
  "alloc s inumber bpref sz =
     (let fs = u_fs s in
      if fs_bsize fs < sz \<or> fragoff fs sz \<noteq> 0 then None
      else if sz = fs_bsize fs \<and> cs_nbfree (fs_cstotal fs) = 0 then nospace s
      else if minfree_left s then nospace s
      else
        let bpref = (if fs_size fs \<le> bpref then 0 else bpref);
            cg = (if bpref = 0 then itog fs inumber else dtog fs bpref)
        in do {
          (bno, s) \<leftarrow> hashalloc (\<lambda>cg pref s. alloccg s cg pref sz) (fs_ncg fs) cg bpref s;
          if bno = 0 then nospace s else Some (Some bno, clrdata s bno 0 sz)
        })"

section \<open>Freeing\<close>

text \<open>The loop that sets the bits, with its panic.\<close>

fun setfrags :: "bitmap \<Rightarrow> nat list \<Rightarrow> bitmap option" where
  "setfrags a [] = Some a"
| "setfrags a (i # is) = (if isset a i then None else setfrags (setbit a i) is)"

text \<open>Accounting for a whole block.\<close>

definition block_freed :: "fs \<Rightarrow> cg \<Rightarrow> nat \<Rightarrow> cg" where
  "block_freed fs cgp bno =
     (let i = cbtocylno fs bno; r = cbtorpos fs bno in
      cgp\<lparr>cg_cs := nbfree_add 1 (cg_cs cgp),
        cg_b := (cg_b cgp)(i := (cg_b cgp i)(r := cg_b cgp i r + 1)),
        cg_btot := (cg_btot cgp)(i := cg_btot cgp i + 1)\<rparr>)"

definition ufs_free :: "ufs \<Rightarrow> nat \<Rightarrow> nat \<Rightarrow> ufs option" where
  "ufs_free s bno sz =
     (let fs = u_fs s; cg = dtog fs bno in
      if fs_bsize fs < sz \<or> fragoff fs sz \<noteq> 0 then None
      else if fs_size fs \<le> bno then Some s
      else do {
        r \<leftarrow> cgread s cg;
        (case r of
           None \<Rightarrow> Some s
         | Some cgp \<Rightarrow>
             let cgp = cgp\<lparr>cg_time := u_time s\<rparr>; bno = dtogd fs bno in
             if sz = fs_bsize fs then do {
               b \<leftarrow> isblock (fs_frag fs) (cg_free cgp) (bno div fs_frag fs);
               if b then None
               else do {
                 free \<leftarrow> setblock (fs_frag fs) (cg_free cgp) (bno div fs_frag fs);
                 Some ((cgput s cg (block_freed fs (cgp\<lparr>cg_free := free\<rparr>) bno))
                   \<lparr>u_fs := (fs_count (nbfree_add 1) cg fs)\<lparr>fs_fmod := fs_fmod fs + 1\<rparr>\<rparr>)
               }
             }
             else do {
               let bbase = bno - bno mod fs_frag fs;
               frsum \<leftarrow> fragacct (fs_frag fs) (blkmap (fs_frag fs) (cg_free cgp) bbase) (cg_frsum cgp) (- 1);
               let frags = numfrags fs sz;
               free \<leftarrow> setfrags (cg_free cgp) [bno..<bno + frags];
               let inc = nffree_add (int frags);
               let fs = fs_count inc cg fs;
               frsum \<leftarrow> fragacct (fs_frag fs) (blkmap (fs_frag fs) free bbase) frsum 1;
               let cgp = cgp\<lparr>cg_free := free, cg_cs := inc (cg_cs cgp), cg_frsum := frsum\<rparr>;
               b \<leftarrow> isblock (fs_frag fs) free (bbase div fs_frag fs);
               let dec = nffree_add (- int (fs_frag fs));
               let cgp = (if b then block_freed fs (cgp\<lparr>cg_cs := dec (cg_cs cgp)\<rparr>) bbase else cgp);
               let fs = (if b then fs_count (nbfree_add 1) cg (fs_count dec cg fs) else fs);
               Some ((cgput s cg cgp)\<lparr>u_fs := fs\<lparr>fs_fmod := fs_fmod fs + 1\<rparr>\<rparr>)
             })
      })"

section \<open>Growing a fragment\<close>

definition realloccg :: "ufs \<Rightarrow> nat \<Rightarrow> nat \<Rightarrow> nat \<Rightarrow> nat \<Rightarrow> (nat option \<times> ufs) option" where
  "realloccg s bprev bpref osize nsize =
     (let fs = u_fs s in
      if fs_bsize fs < osize \<or> fragoff fs osize \<noteq> 0 \<or> fs_bsize fs < nsize \<or> fragoff fs nsize \<noteq> 0 then None
      else if minfree_left s then nospace s
      else if bprev = 0 then None
      else
        let cg = dtog fs bprev in
        do {
          (bno, s) \<leftarrow> fragextend s cg bprev osize nsize;
          if bno \<noteq> 0 then
            (if u_drderr s bno then Some (None, s) else Some (Some bno, clrdata s bno osize nsize))
          else do {
            let bpref = (if fs_size fs \<le> bpref then 0 else bpref);
            (bno, s) \<leftarrow> hashalloc (\<lambda>cg pref s. alloccg s cg pref nsize) (fs_ncg fs) cg bpref s;
            if bno = 0 then nospace s
            else if u_drderr s bprev then Some (None, s)
            else do {
              s \<leftarrow> ufs_free (clrdata (copydata s bprev bno osize) bno osize nsize) bprev osize;
              Some (Some bno, s)
            }
          }
        })"

section \<open>The invariant of the file system\<close>

definition cg_inodes_ok :: "fs \<Rightarrow> cg \<Rightarrow> bool" where
  "cg_inodes_ok fs cgp \<longleftrightarrow> (cg_cgx cgp = 0 \<longrightarrow> isset (cg_iused cgp) 0) \<and> cg_irotor cgp < fs_ipg fs \<and>
     cs_nifree (cg_cs cgp) = (\<Sum>j < fs_ipg fs. if isset (cg_iused cgp) j then 0 else 1)"

definition cg_ok :: "fs \<Rightarrow> nat \<Rightarrow> cg \<Rightarrow> bool" where
  "cg_ok fs i cgp \<longleftrightarrow> cg_map_ok fs cgp \<and> cg_inodes_ok fs cgp \<and> cg_magic cgp = CG_MAGIC \<and> cg_cgx cgp = i \<and>
     (\<forall>j. isset (cg_free cgp) j \<longrightarrow> 0 < i * fs_fpg fs + j \<and> i * fs_fpg fs + j < fs_size fs)"

definition total :: "ufs \<Rightarrow> (csum \<Rightarrow> int) \<Rightarrow> int" where
  "total s f = (\<Sum>i < fs_ncg (u_fs s). f (cg_cs (u_cg s i)))"

definition ufs_ok :: "ufs \<Rightarrow> bool" where
  "ufs_ok s \<longleftrightarrow> fs_geom (u_fs s) \<and> rot_ok (u_fs s) \<and>
     (\<forall>i < fs_ncg (u_fs s). \<not> u_held s i \<and> cg_ok (u_fs s) i (u_cg s i) \<and> fs_cs (u_fs s) i = cg_cs (u_cg s i)) \<and>
     cs_ndir (fs_cstotal (u_fs s)) = total s cs_ndir \<and> cs_nbfree (fs_cstotal (u_fs s)) = total s cs_nbfree \<and>
     cs_nifree (fs_cstotal (u_fs s)) = total s cs_nifree \<and> cs_nffree (fs_cstotal (u_fs s)) = total s cs_nffree"

lemma ufs_okD:
  assumes "ufs_ok s"
  shows "fs_geom (u_fs s)" "rot_ok (u_fs s)"
    "i < fs_ncg (u_fs s) \<Longrightarrow> \<not> u_held s i" "i < fs_ncg (u_fs s) \<Longrightarrow> cg_ok (u_fs s) i (u_cg s i)"
    "i < fs_ncg (u_fs s) \<Longrightarrow> fs_cs (u_fs s) i = cg_cs (u_cg s i)"
    "i < fs_ncg (u_fs s) \<Longrightarrow> cg_map_ok (u_fs s) (u_cg s i)"
  using assms by (auto simp: ufs_ok_def cg_ok_def)

text \<open>The free fragments of the file system.\<close>

definition free_set :: "ufs \<Rightarrow> nat set" where
  "free_set s = {b. b < fs_ncg (u_fs s) * fs_fpg (u_fs s) \<and> isset (cg_free (u_cg s (dtog (u_fs s) b))) (dtogd (u_fs s) b)}"

section \<open>A step on one group\<close>

definition adds :: "(csum \<Rightarrow> csum) \<Rightarrow> bool" where
  "adds g \<longleftrightarrow> (\<exists>a b c d. \<forall>x. g x = \<lparr>cs_ndir = cs_ndir x + a, cs_nbfree = cs_nbfree x + b, cs_nifree = cs_nifree x + c, cs_nffree = cs_nffree x + d\<rparr>)"

lemma adds_intros: "adds (\<lambda>x. x)" "adds (nffree_add k)" "adds (nbfree_add k)" "adds (cs_nbfree_update (\<lambda>n. n - 1))"
  unfolding adds_def nffree_add_def nbfree_add_def by (rule exI, rule exI, rule exI, rule exI, rule allI, case_tac x, simp)+

lemma adds_comp: "adds f \<Longrightarrow> adds g \<Longrightarrow> adds (\<lambda>x. g (f x))"
proof -
  assume "adds f" "adds g"
  then obtain a b c d a' b' c' d' where
    f: "\<And>x. f x = \<lparr>cs_ndir = cs_ndir x + a, cs_nbfree = cs_nbfree x + b, cs_nifree = cs_nifree x + c, cs_nffree = cs_nffree x + d\<rparr>" and
    g: "\<And>x. g x = \<lparr>cs_ndir = cs_ndir x + a', cs_nbfree = cs_nbfree x + b', cs_nifree = cs_nifree x + c', cs_nffree = cs_nffree x + d'\<rparr>"
    unfolding adds_def by blast
  show ?thesis unfolding adds_def f g
    by (intro exI [of _ "a + a'"] exI [of _ "b + b'"] exI [of _ "c + c'"] exI [of _ "d + d'"]) simp
qed

text \<open>The counters of the super block move by \<open>g\<close> for group \<open>i\<close>.\<close>

definition counted :: "(csum \<Rightarrow> csum) \<Rightarrow> nat \<Rightarrow> fs \<Rightarrow> fs \<Rightarrow> bool" where
  "counted g i fs fs' \<longleftrightarrow> same_geom fs fs' \<and> fs_cstotal fs' = g (fs_cstotal fs) \<and>
     (\<forall>j. fs_cs fs' j = (if j = i then g (fs_cs fs j) else fs_cs fs j))"

lemma fs_cs_fmod [simp]: "fs_cs (fs\<lparr>fs_fmod := m\<rparr>) j = fs_cs fs j"
  by (simp add: fs_cs_def)

lemma counted_count: "fs_geom fs \<Longrightarrow> counted g i fs (fs_count g i fs)"
  by (simp add: counted_def fs_cs_count)

lemma counted_id: "counted (\<lambda>x. x) i fs fs"
  by (simp add: counted_def)

lemma counted_comp: "counted f i a b \<Longrightarrow> counted g i b c \<Longrightarrow> counted (\<lambda>x. g (f x)) i a c"
  unfolding counted_def using same_geom_trans by auto

lemma counted_fmod: "counted g i fs fs' \<Longrightarrow> counted g i fs (fs'\<lparr>fs_fmod := m\<rparr>)"
  unfolding counted_def using same_geom_trans [OF _ same_geom_fmod] by auto

lemma total_change:
  assumes "i < fs_ncg (u_fs s)" "fs_ncg (u_fs s') = fs_ncg (u_fs s)" "\<And>j. j \<noteq> i \<Longrightarrow> u_cg s' j = u_cg s j"
  shows "total s' f = total s f + (f (cg_cs (u_cg s' i)) - f (cg_cs (u_cg s i)))"
proof -
  let ?I = "{..< fs_ncg (u_fs s)}"
  have "total t f = f (cg_cs (u_cg t i)) + (\<Sum>j \<in> ?I - {i}. f (cg_cs (u_cg t j)))" if "fs_ncg (u_fs t) = fs_ncg (u_fs s)" for t
    using sum.remove [of ?I i "\<lambda>j. f (cg_cs (u_cg t j))"] assms(1) that by (simp add: total_def)
  moreover have "(\<Sum>j \<in> ?I - {i}. f (cg_cs (u_cg s' j))) = (\<Sum>j \<in> ?I - {i}. f (cg_cs (u_cg s j)))"
    using assms(3) by (intro sum.cong) auto
  ultimately show ?thesis using assms(2) by simp
qed

lemma rot_ok_same: "same_geom fs fs' \<Longrightarrow> rot_ok fs' = rot_ok fs"
  unfolding rot_ok_def by (simp only: same_geom_sel)

lemma tally_same: "same_geom fs fs' \<Longrightarrow> tally fs' = tally fs"
  unfolding tally_def by (intro ext) (simp only: same_geom_sel)

lemma cg_map_ok_same: "same_geom fs fs' \<Longrightarrow> cg_map_ok fs' = cg_map_ok fs"
  unfolding cg_map_ok_def cg_counts_def map_bounded_def by (intro ext) (simp only: same_geom_sel tally_same)

lemma cg_ok_same: "same_geom fs fs' \<Longrightarrow> cg_ok fs' = cg_ok fs"
  unfolding cg_ok_def cg_inodes_ok_def by (intro ext) (simp only: same_geom_sel cg_map_ok_same)

lemma group_step:
  assumes "ufs_ok s" "i < fs_ncg (u_fs s)" "counted g i (u_fs s) fs'" "adds g" "cg_ok (u_fs s) i cgp'"
    and "cg_cs cgp' = g (cg_cs (u_cg s i))"
  shows "ufs_ok ((cgput s i cgp')\<lparr>u_fs := fs'\<rparr>)" (is "ufs_ok ?s'")
proof -
  have sg: "same_geom (u_fs s) fs'" using assms(3) by (simp add: counted_def)
  note sel = same_geom_sel [OF sg]
  have tot: "total ?s' f = total s f + (f (cg_cs cgp') - f (cg_cs (u_cg s i)))" for f
    using total_change [of i s ?s'] assms(2) by (simp add: cgput_def sel)
  obtain a b c d where g: "\<And>x. g x = \<lparr>cs_ndir = cs_ndir x + a, cs_nbfree = cs_nbfree x + b, cs_nifree = cs_nifree x + c, cs_nffree = cs_nffree x + d\<rparr>"
    using assms(4) unfolding adds_def by blast
  have tots: "cs_ndir (fs_cstotal fs') = total ?s' cs_ndir" "cs_nbfree (fs_cstotal fs') = total ?s' cs_nbfree"
    "cs_nifree (fs_cstotal fs') = total ?s' cs_nifree" "cs_nffree (fs_cstotal fs') = total ?s' cs_nffree"
    using assms(1,3) unfolding tot assms(6) g by (simp_all add: counted_def ufs_ok_def g)
  have "\<not> u_held ?s' j \<and> cg_ok (u_fs ?s') j (u_cg ?s' j) \<and> fs_cs (u_fs ?s') j = cg_cs (u_cg ?s' j)" if "j < fs_ncg (u_fs s)" for j
    using that ufs_okD(3-5) [OF assms(1) that] assms(3,5,6) by (auto simp: cgput_def counted_def cg_ok_same [OF sg])
  then show ?thesis
    using tots ufs_okD(1,2) [OF assms(1)] unfolding ufs_ok_def by (simp add: sel rot_ok_same [OF sg] cgput_def)
qed

text \<open>Only the super block and the groups change.\<close>

definition frame :: "ufs \<Rightarrow> ufs \<Rightarrow> bool" where
  "frame s s' \<longleftrightarrow> s' = s\<lparr>u_fs := u_fs s', u_cg := u_cg s'\<rparr> \<and> same_geom (u_fs s) (u_fs s')"

lemma frame_put: "counted g i (u_fs s) fs' \<Longrightarrow> frame s ((cgput s i cgp)\<lparr>u_fs := fs'\<rparr>)"
  by (simp add: frame_def cgput_def counted_def)

lemma fs_frame_refl: "frame s s"
  by (simp add: frame_def)

lemma fs_frame_trans: "frame a b \<Longrightarrow> frame b c \<Longrightarrow> frame a c"
  unfolding frame_def by (metis (no_types, lifting) same_geom_trans ufs.surjective ufs.update_convs(1,2))

text \<open>How the set of free fragments moves.\<close>

lemma mem_free_set:
  "b \<in> free_set s \<longleftrightarrow> b < fs_ncg (u_fs s) * fs_fpg (u_fs s) \<and> isset (cg_free (u_cg s (dtog (u_fs s) b))) (dtogd (u_fs s) b)"
  by (simp add: free_set_def)

lemma free_set_put:
  assumes "same_geom (u_fs s) fs'"
  shows "b \<in> free_set ((cgput s i cgp')\<lparr>u_fs := fs'\<rparr>) \<longleftrightarrow> b < fs_ncg (u_fs s) * fs_fpg (u_fs s) \<and>
    (if dtog (u_fs s) b = i then isset (cg_free cgp') (dtogd (u_fs s) b) else b \<in> free_set s)"
  by (auto simp: free_set_def cgput_def same_geom_sel [OF assms])

lemma group_range:
  fixes b i :: nat
  assumes "c + k \<le> fpg" "0 < fpg"
  shows "i * fpg + c \<le> b \<and> b < i * fpg + c + k \<longleftrightarrow> b div fpg = i \<and> c \<le> b mod fpg \<and> b mod fpg < c + k"
proof
  assume r: "i * fpg + c \<le> b \<and> b < i * fpg + c + k"
  then have j: "b - i * fpg < fpg" "i * fpg + (b - i * fpg) = b" using assms(1) by auto
  then have "b div fpg = i" using block_of by metis
  then show "b div fpg = i \<and> c \<le> b mod fpg \<and> b mod fpg < c + k"
    using r j by (auto simp: modulo_nat_def mult.commute)
next
  assume "b div fpg = i \<and> c \<le> b mod fpg \<and> b mod fpg < c + k"
  then show "i * fpg + c \<le> b \<and> b < i * fpg + c + k" using div_mult_mod_eq [of b fpg] by auto
qed

lemma free_set_cut:
  assumes "fs_geom (u_fs s)" "same_geom (u_fs s) fs'" "i < fs_ncg (u_fs s)" "c + k \<le> fs_fpg (u_fs s)"
    and "\<And>j. isset (cg_free cgp') j \<longleftrightarrow> isset (cg_free (u_cg s i)) j \<and> \<not> (c \<le> j \<and> j < c + k)"
  shows "free_set ((cgput s i cgp')\<lparr>u_fs := fs'\<rparr>) = free_set s - {i * fs_fpg (u_fs s) + c..<i * fs_fpg (u_fs s) + c + k}"
proof (rule set_eqI)
  fix b
  show "b \<in> free_set ((cgput s i cgp')\<lparr>u_fs := fs'\<rparr>) \<longleftrightarrow>
      b \<in> free_set s - {i * fs_fpg (u_fs s) + c..<i * fs_fpg (u_fs s) + c + k}"
    unfolding free_set_put [OF assms(2)] Diff_iff atLeastLessThan_iff group_range [OF assms(4) fs_geomD(10) [OF assms(1)]]
    unfolding mem_free_set assms(5) dtog_def dtogd_def by auto
qed

lemma free_set_join:
  assumes "fs_geom (u_fs s)" "same_geom (u_fs s) fs'" "i < fs_ncg (u_fs s)" "c + k \<le> fs_fpg (u_fs s)"
    and "\<And>j. isset (cg_free cgp') j \<longleftrightarrow> isset (cg_free (u_cg s i)) j \<or> (c \<le> j \<and> j < c + k)"
  shows "free_set ((cgput s i cgp')\<lparr>u_fs := fs'\<rparr>) = free_set s \<union> {i * fs_fpg (u_fs s) + c..<i * fs_fpg (u_fs s) + c + k}"
proof -
  have "(i + 1) * fs_fpg (u_fs s) \<le> fs_ncg (u_fs s) * fs_fpg (u_fs s)" using assms(3) by (intro mult_le_mono1) simp
  then have lt: "b < i * fs_fpg (u_fs s) + c + k \<Longrightarrow> b < fs_ncg (u_fs s) * fs_fpg (u_fs s)" for b using assms(4) by simp
  note gr = group_range [OF assms(4) fs_geomD(10) [OF assms(1)]]
  show ?thesis
  proof (rule set_eqI)
    fix b
    have "b div fs_fpg (u_fs s) = i \<and> c \<le> b mod fs_fpg (u_fs s) \<and> b mod fs_fpg (u_fs s) < c + k \<Longrightarrow> b < fs_ncg (u_fs s) * fs_fpg (u_fs s)"
      using lt [of b] gr [of i b] by blast
    then show "b \<in> free_set ((cgput s i cgp')\<lparr>u_fs := fs'\<rparr>) \<longleftrightarrow>
        b \<in> free_set s \<union> {i * fs_fpg (u_fs s) + c..<i * fs_fpg (u_fs s) + c + k}"
      unfolding free_set_put [OF assms(2)] Un_iff atLeastLessThan_iff gr
      unfolding mem_free_set assms(5) dtog_def dtogd_def by auto
  qed
qed

end
