(* ===== verification/Ufs_Example.thy ===== *)
theory Ufs_Example
  imports Ufs_Alloc
begin

text \<open>
  A small file system that satisfies the invariant, for the witnesses: two groups of eight fragments in blocks of two.
  Group 0 has a free block at 2, a free fragment at 4 and one free inode (3); group 1 has the blocks 10, 12
  and 14 and the inodes 5 to 7 free.
\<close>

definition tiny_free :: "nat \<Rightarrow> bitmap" where
  "tiny_free i = (\<lambda>n. if n = 0 then (if i = 0 then 28 else if i = 1 then 252 else 0) else 0)"

definition tiny_iused :: "nat \<Rightarrow> bitmap" where
  "tiny_iused i = (\<lambda>n. if n = 0 then (if i = 0 then 7 else 1) else 0)"

definition tiny_cs :: "nat \<Rightarrow> csum" where
  "tiny_cs i = (if i = 0 then \<lparr>cs_ndir = 1, cs_nbfree = 1, cs_nifree = 1, cs_nffree = 1\<rparr>
     else \<lparr>cs_ndir = 0, cs_nbfree = 3, cs_nifree = 3, cs_nffree = 0\<rparr>)"

definition tiny_fs :: fs where
  "tiny_fs = \<lparr>fs_size = 16, fs_dsize = 12, fs_ncg = 2, fs_bsize = 4, fs_fsize = 2, fs_frag = 2, fs_minfree = 10,
     fs_rotdelay = 4, fs_rps = 60, fs_fmask = - 2, fs_fshift = 1, fs_maxcontig = 1, fs_maxbpg = 8, fs_fragshift = 1,
     fs_csmask = - 16, fs_csshift = 4, fs_nspf = 1, fs_nsect = 8, fs_spc = 8, fs_ipg = 4, fs_fpg = 8,
     fs_cstotal = \<lparr>cs_ndir = 1, cs_nbfree = 4, cs_nifree = 4, cs_nffree = 1\<rparr>, fs_fmod = 0, fs_cgrotor = 0,
     fs_csp = (\<lambda>_. tiny_cs), fs_cpc = 0, fs_postbl = (\<lambda>_ _. - 1), fs_rotbl = (\<lambda>_. 0)\<rparr>"

definition tiny_cg :: "nat \<Rightarrow> cg" where
  "tiny_cg i = \<lparr>cg_time = 0, cg_cgx = i, cg_cs = tiny_cs i, cg_rotor = 0, cg_frotor = 0, cg_irotor = 0,
     cg_frsum = (\<lambda>s. if s = 1 \<and> i = 0 then 1 else 0), cg_btot = (\<lambda>c. if c = 0 then (if i = 0 then 1 else 3) else 0),
     cg_b = (\<lambda>c r. if c = 0 then (if i = 0 then (if r = 2 then 1 else 0) else if r \<in> {2, 4, 6} then 1 else 0) else 0),
     cg_iused = tiny_iused i, cg_magic = CG_MAGIC, cg_free = tiny_free i\<rparr>"

definition tiny :: ufs where
  "tiny = \<lparr>u_fs = tiny_fs, u_cg = tiny_cg, u_held = (\<lambda>_. False), u_rderr = (\<lambda>_. False), u_drderr = (\<lambda>_. False),
     u_time = 100, u_uid = 0, u_error = 0, u_data = (\<lambda>_. 7)\<rparr>"

lemma tiny_sel [simp]: "u_fs tiny = tiny_fs" "u_cg tiny = tiny_cg" "\<not> u_rderr tiny i" "\<not> u_drderr tiny i" "\<not> u_held tiny i" "u_uid tiny = 0"
  by (simp_all add: tiny_def)

lemma tiny_fs_sel [simp]: "fs_frag tiny_fs = 2" "fs_fsize tiny_fs = 2" "fs_ncg tiny_fs = 2" "fs_ipg tiny_fs = 4" "fs_fpg tiny_fs = 8"
  "fs_size tiny_fs = 16" "fs_cgrotor tiny_fs = 0" "fs_maxbpg tiny_fs = 8"
  by (simp_all add: tiny_fs_def)

lemma tiny_geom: "fs_geom tiny_fs"
  by (simp add: fs_geom_def tiny_fs_def frag_ok_def mask_eq_exp_minus_1 not_int_def)

lemma tiny_isset: "isset (tiny_free i) j \<longleftrightarrow> (i = 0 \<and> j \<in> {2, 3, 4}) \<or> (i = 1 \<and> j \<in> {2..<8})"
proof -
  have "bit (28 :: byte) j \<longleftrightarrow> j \<in> {2, 3, 4}" "bit (252 :: byte) j \<longleftrightarrow> j \<in> {2..<8}" if "j < 8" for j
    using that by (auto simp: numeral_eq_Suc less_Suc_eq)
  then show ?thesis by (cases "j < 8") (auto simp: isset_bit tiny_free_def)
qed

lemma tiny_blk: "blk (tiny_free 0) 2 0 = [False, False]" "blk (tiny_free 0) 2 1 = [True, True]" "blk (tiny_free 0) 2 2 = [True, False]"
  "blk (tiny_free 0) 2 3 = [False, False]" "blk (tiny_free 1) 2 0 = [False, False]" "blk (tiny_free 1) 2 1 = [True, True]"
  "blk (tiny_free 1) 2 2 = [True, True]" "blk (tiny_free 1) 2 3 = [True, True]"
  by (simp_all add: blk_def tiny_isset upt_rec)

lemma four_blocks: "(\<Sum>h < (4::nat). g h) = g 0 + g 1 + g 2 + (g 3 :: int)"
  by (simp add: eval_nat_numeral)

lemma tiny_tally: "tally tiny_fs w (tiny_free i) = w 0 (blk (tiny_free i) 2 0) + w 1 (blk (tiny_free i) 2 1) + w 2 (blk (tiny_free i) 2 2) + w 3 (blk (tiny_free i) 2 3)"
  by (simp add: tally_def four_blocks)

lemma two_frags:
  "free_blocks [False, False] = 0" "free_blocks [True, False] = 0" "free_blocks [True, True] = 1"
  "free_frags [False, False] = 0" "free_frags [True, False] = 1" "free_frags [True, True] = 0"
  "runs_of s [False, False] = 0" "runs_of s [True, False] = (if s = 1 then 1 else 0)" "runs_of s [True, True] = (if s = 2 then 1 else 0)"
  by (auto simp: free_blocks_def free_frags_def full_def runs_of_def runs_def)

lemma tiny_places:
  "cbtocylno tiny_fs 0 = 0" "cbtocylno tiny_fs 2 = 0" "cbtocylno tiny_fs 4 = 0" "cbtocylno tiny_fs 6 = 0"
  "cbtorpos tiny_fs 0 = 0" "cbtorpos tiny_fs 2 = 2" "cbtorpos tiny_fs 4 = 4" "cbtorpos tiny_fs 6 = 6"
  by (simp_all add: cbtocylno_def cbtorpos_def NRPOS_def tiny_fs_def)

lemma tiny_tallies:
  "tally tiny_fs w (tiny_free 0) = w 0 [False, False] + w 1 [True, True] + w 2 [True, False] + w 3 [False, False]"
  "tally tiny_fs w (tiny_free 1) = w 0 [False, False] + w 1 [True, True] + w 2 [True, True] + w 3 [True, True]"
  by (simp_all only: tiny_tally tiny_blk)

lemma tiny_counts: "cg_counts tiny_fs (tiny_cg 0)" "cg_counts tiny_fs (tiny_cg 1)"
  unfolding cg_counts_def
  by (simp_all add: tiny_tallies tiny_tallies(2) [simplified] two_frags tiny_places tiny_cg_def tiny_cs_def)

lemma tiny_cg_sel [simp]: "cg_free (tiny_cg i) = tiny_free i" "cg_iused (tiny_cg i) = tiny_iused i" "cg_magic (tiny_cg i) = CG_MAGIC"
  "cg_cgx (tiny_cg i) = i" "cg_irotor (tiny_cg i) = 0" "cg_rotor (tiny_cg i) = 0" "cg_frotor (tiny_cg i) = 0" "cg_cs (tiny_cg i) = tiny_cs i"
  by (simp_all add: tiny_cg_def)

lemma tiny_inodes: "isset (tiny_iused i) j \<longleftrightarrow> (if i = 0 then j \<in> {0, 1, 2} else j = 0)"
proof -
  have "bit (7 :: byte) j \<longleftrightarrow> j \<in> {0, 1, 2}" "bit (1 :: byte) j \<longleftrightarrow> j = 0" if "j < 8" for j
    using that by (auto simp: numeral_eq_Suc less_Suc_eq)
  then show ?thesis by (cases "j < 8") (auto simp: isset_bit tiny_iused_def)
qed

lemma tiny_group: "i < 2 \<Longrightarrow> cg_ok tiny_fs i (tiny_cg i)"
  using tiny_counts
  by (auto simp: less_2_cases_iff cg_ok_def cg_map_ok_def map_bounded_def tiny_isset cg_inodes_ok_def tiny_inodes tiny_cs_def four_blocks)

lemma tiny_fs_cs: "i < 2 \<Longrightarrow> fs_cs tiny_fs i = tiny_cs i"
  by (auto simp: less_2_cases_iff fs_cs_def tiny_fs_def)

lemma two_groups: "(\<Sum>i < (2::nat). g i) = g 0 + (g 1 :: int)"
  by (simp add: eval_nat_numeral)

lemma tiny_total: "fs_cstotal tiny_fs = \<lparr>cs_ndir = 1, cs_nbfree = 4, cs_nifree = 4, cs_nffree = 1\<rparr>"
  by (simp add: tiny_fs_def)

lemma tiny_ok: "ufs_ok tiny"
  by (simp add: ufs_ok_def tiny_geom rot_ok_def tiny_group tiny_fs_cs total_def two_groups tiny_cs_def tiny_total)
    (simp add: tiny_fs_def)

lemma tiny_free_set: "b \<in> free_set tiny \<longleftrightarrow> b div 8 = 0 \<and> b mod 8 \<in> {2, 3, 4} \<or> b div 8 = 1 \<and> 2 \<le> b mod 8"
  by (auto simp: free_set_def dtog_def dtogd_def tiny_isset)

end
