(* ===== verification/Ufs_Space.thy ===== *)
theory Ufs_Space
  imports Ufs_Example
begin

text \<open>
  \<open>alloccg\<close>, \<open>hashalloc\<close> and \<open>alloc\<close> (sys/ufs_alloc.c) under the invariant: no panic is reached and no
  buffer stays locked, what is handed out was free and lies in one block, and a request fails only when no
  readable group holds that much space in one place.
\<close>

section \<open>Space in a group\<close>

text \<open>Some block of the group has \<open>k\<close> adjacent free fragments.\<close>

definition space :: "ufs \<Rightarrow> nat \<Rightarrow> nat \<Rightarrow> bool" where
  "space s i k \<longleftrightarrow> (\<exists>h \<in> {..< fs_fpg (u_fs s) div fs_frag (u_fs s)}. \<exists>r \<in> set (runs (blk (cg_free (u_cg s i)) (fs_frag (u_fs s)) h)). k \<le> r)"

text \<open>A failed attempt leaves the maps and the counters as they are.\<close>

definition no_change :: "ufs \<Rightarrow> ufs \<Rightarrow> bool" where
  "no_change s s' \<longleftrightarrow> ufs_ok s' \<and> u_fs s' = u_fs s \<and> frame s s' \<and>
     (\<forall>i. cg_free (u_cg s' i) = cg_free (u_cg s i) \<and> cg_iused (u_cg s' i) = cg_iused (u_cg s i))"

definition gave :: "nat \<Rightarrow> ufs \<Rightarrow> nat \<Rightarrow> ufs \<Rightarrow> bool" where
  "gave k s b s' \<longleftrightarrow> ufs_ok s' \<and> frame s s' \<and> {b..<b + k} \<subseteq> free_set s \<and> free_set s' = free_set s - {b..<b + k} \<and>
     b mod fs_frag (u_fs s) + k \<le> fs_frag (u_fs s)"

lemma no_change_space: "no_change s s' \<Longrightarrow> space s' i k = space s i k"
  by (simp add: no_change_def space_def)

lemma no_change_free_set: "no_change s s' \<Longrightarrow> free_set s' = free_set s"
  by (simp add: no_change_def free_set_def)

lemma no_change_refl: "ufs_ok s \<Longrightarrow> no_change s s"
  by (simp add: no_change_def fs_frame_refl)

lemma no_change_trans: "no_change a b \<Longrightarrow> no_change b c \<Longrightarrow> no_change a c"
  using fs_frame_trans [of a b c] by (simp add: no_change_def)

lemma no_change_gave: "no_change a b \<Longrightarrow> gave k b x c \<Longrightarrow> gave k a x c"
  using no_change_free_set [of a b] fs_frame_trans [of a b c] by (simp add: gave_def no_change_def)

lemma cg_ok_time: "cg_ok fs i (cgp\<lparr>cg_time := t\<rparr>) = cg_ok fs i cgp"
  by (simp add: cg_ok_def cg_map_ok_def cg_counts_def map_bounded_def cg_inodes_ok_def)

lemma cg_map_ok_time: "cg_map_ok fs (cgp\<lparr>cg_time := t\<rparr>) = cg_map_ok fs cgp"
  by (simp add: cg_map_ok_def cg_counts_def map_bounded_def)

lemma no_change_time:
  assumes "ufs_ok s" "i < fs_ncg (u_fs s)"
  shows "no_change s (cgput s i ((u_cg s i)\<lparr>cg_time := t\<rparr>))"
proof -
  have "ufs_ok ((cgput s i ((u_cg s i)\<lparr>cg_time := t\<rparr>))\<lparr>u_fs := u_fs s\<rparr>)"
    using group_step [OF assms counted_id adds_intros(1), of "(u_cg s i)\<lparr>cg_time := t\<rparr>"] ufs_okD(4) [OF assms] by (simp add: cg_ok_time)
  then show ?thesis by (simp add: no_change_def frame_def cgput_def)
qed

lemma block_end:
  assumes "fs_geom fs" "h < fs_fpg fs div fs_frag fs"
  shows "h * fs_frag fs + fs_frag fs \<le> fs_fpg fs"
  using assms(2) fs_geomD(2) [OF assms(1)] by (metis add.commute less_eq_div_iff_mult_less_eq mult_Suc Suc_leI)

lemma frag_of:
  assumes "fs_geom fs" "j < fs_frag fs"
  shows "(i * fs_fpg fs + (h * fs_frag fs + j)) mod fs_frag fs = j"
proof -
  obtain q where "fs_fpg fs = fs_frag fs * q" using fs_geomD(8) [OF assms(1)] by blast
  then have "i * fs_fpg fs + (h * fs_frag fs + j) = j + fs_frag fs * (i * q + h)" by (simp add: algebra_simps)
  then show ?thesis using assms(2) by (metis mod_mult_self2 mod_less)
qed

text \<open>The step that takes \<open>k\<close> fragments of a block.\<close>

lemma gaveI:
  assumes "ufs_ok s" "i < fs_ncg (u_fs s)" "counted g i (u_fs s) fs'" "adds g" "cg_map_ok (u_fs s) cgp'" "cg_cs cgp' = g (cg_cs (u_cg s i))"
    and nif: "\<And>x. cs_nifree (g x) = cs_nifree x"
    and same: "cg_irotor cgp' = cg_irotor (u_cg s i)" "cg_iused cgp' = cg_iused (u_cg s i)" "cg_magic cgp' = cg_magic (u_cg s i)"
      "cg_cgx cgp' = cg_cgx (u_cg s i)"
    and h: "h < fs_fpg (u_fs s) div fs_frag (u_fs s)" "m + k \<le> fs_frag (u_fs s)"
    and was: "\<And>j. m \<le> j \<Longrightarrow> j < m + k \<Longrightarrow> isset (cg_free (u_cg s i)) (h * fs_frag (u_fs s) + j)"
    and now: "\<And>j. isset (cg_free cgp') j \<longleftrightarrow> isset (cg_free (u_cg s i)) j \<and>
      \<not> (h * fs_frag (u_fs s) + m \<le> j \<and> j < h * fs_frag (u_fs s) + m + k)"
    and "0 < k"
  shows "gave k s (i * fs_fpg (u_fs s) + (h * fs_frag (u_fs s) + m)) ((cgput s i cgp')\<lparr>u_fs := fs'\<rparr>)"
    and "0 < i * fs_fpg (u_fs s) + (h * fs_frag (u_fs s) + m)"
proof -
  let ?fs = "u_fs s"
  let ?c = "h * fs_frag ?fs + m"
  have geom: "fs_geom ?fs" and ok: "cg_ok ?fs i (u_cg s i)" using ufs_okD(1,4) [OF assms(1)] assms(2) by simp_all
  have sg: "same_geom ?fs fs'" using assms(3) by (simp add: counted_def)
  have c: "?c + k \<le> fs_fpg ?fs" using block_end [OF geom h(1)] h(2) by simp
  have "cg_ok ?fs i cgp'" using ok assms(5) nif by (auto simp: cg_ok_def cg_inodes_ok_def same now assms(6))
  then have "ufs_ok ((cgput s i cgp')\<lparr>u_fs := fs'\<rparr>)" using group_step [OF assms(1-4)] assms(6) by simp
  moreover have "free_set ((cgput s i cgp')\<lparr>u_fs := fs'\<rparr>) = free_set s - {i * fs_fpg ?fs + ?c..<i * fs_fpg ?fs + ?c + k}"
    using free_set_cut [OF geom sg assms(2) c] now by simp
  moreover have "{i * fs_fpg ?fs + ?c..<i * fs_fpg ?fs + ?c + k} \<subseteq> free_set s"
  proof
    fix b assume "b \<in> {i * fs_fpg ?fs + ?c..<i * fs_fpg ?fs + ?c + k}"
    then have b: "b div fs_fpg ?fs = i" "?c \<le> b mod fs_fpg ?fs" "b mod fs_fpg ?fs < ?c + k"
      using group_range [OF c fs_geomD(10) [OF geom]] by auto
    have "b < fs_ncg ?fs * fs_fpg ?fs" using b(1) assms(2) fs_geomD(10) [OF geom] by (simp flip: div_less_iff_less_mult)
    moreover have "isset (cg_free (u_cg s i)) (b mod fs_fpg ?fs)"
      using was [of "b mod fs_fpg ?fs - h * fs_frag ?fs"] b by (simp add: add.commute le_diff_conv2 less_diff_conv2)
    ultimately show "b \<in> free_set s" using b(1) by (simp add: mem_free_set dtog_def dtogd_def)
  qed
  moreover have "(i * fs_fpg ?fs + ?c) mod fs_frag ?fs + k \<le> fs_frag ?fs"
    using frag_of [OF geom, of m i h] h(2) \<open>0 < k\<close> by simp
  ultimately show "gave k s (i * fs_fpg ?fs + ?c) ((cgput s i cgp')\<lparr>u_fs := fs'\<rparr>)"
    unfolding gave_def using frame_put [OF assms(3)] by simp
  have "isset (cg_free (u_cg s i)) ?c" using was [of m] \<open>0 < k\<close> by simp
  moreover have "\<forall>j. isset (cg_free (u_cg s i)) j \<longrightarrow> 0 < i * fs_fpg ?fs + j \<and> i * fs_fpg ?fs + j < fs_size ?fs"
    using ok unfolding cg_ok_def by (elim conjE)
  ultimately show "0 < i * fs_fpg ?fs + ?c" by (metis (no_types))
qed

lemma took_now:
  assumes "took fs cgp h cgp'" "0 < fs_frag fs"
  shows "isset (cg_free cgp') j \<longleftrightarrow> isset (cg_free cgp) j \<and> \<not> (h * fs_frag fs \<le> j \<and> j < h * fs_frag fs + fs_frag fs)"
  using assms(1) div_block_iff [OF assms(2), of j h] by (simp add: took_def)

lemma counted_taken: "fs_geom fs \<Longrightarrow> counted (cs_nbfree_update (\<lambda>n. n - 1)) i fs (block_taken fs i)"
  unfolding block_taken_def by (intro counted_fmod counted_count)

section \<open>\<open>alloccg\<close>\<close>

text \<open>What one attempt does.\<close>

definition attempt :: "nat \<Rightarrow> nat \<Rightarrow> ufs \<Rightarrow> (nat \<times> ufs) option \<Rightarrow> bool" where
  "attempt k i s r \<longleftrightarrow> (\<exists>b s'. r = Some (b, s') \<and>
     (if b = 0 then no_change s s' \<and> (u_rderr s i \<or> \<not> space s i k) else gave k s b s' \<and> dtog (u_fs s) b = i))"

lemma attempt_failed: "no_change s s' \<Longrightarrow> u_rderr s i \<or> \<not> space s i k \<Longrightarrow> attempt k i s (Some (0, s'))"
  by (simp add: attempt_def)

lemma gave_group:
  "fs_geom fs \<Longrightarrow> h < fs_fpg fs div fs_frag fs \<Longrightarrow> m < fs_frag fs \<Longrightarrow> dtog fs (i * fs_fpg fs + (h * fs_frag fs + m)) = i"
  using block_end [of fs h] block_of [of "h * fs_frag fs + m" "fs_fpg fs" i] by (simp add: dtog_def)

lemma no_block_no_space:
  assumes "ufs_ok s" "i < fs_ncg (u_fs s)" "cs_nbfree (cg_cs (u_cg s i)) = 0"
  shows "\<not> space s i (fs_frag (u_fs s))"
proof
  let ?fs = "u_fs s"
  note p = fs_geomD(2) [OF ufs_okD(1) [OF assms(1)]]
  assume "space s i (fs_frag ?fs)"
  then obtain h r where h: "h < fs_fpg ?fs div fs_frag ?fs" "r \<in> set (runs (blk (cg_free (u_cg s i)) (fs_frag ?fs) h))" "fs_frag ?fs \<le> r"
    by (auto simp: space_def)
  let ?bl = "blk (cg_free (u_cg s i)) (fs_frag ?fs) h"
  have "r = length ?bl" using runs_pos [OF h(2)] h(3) by simp
  moreover have "?bl \<noteq> []" using p by (metis length_blk length_greater_0_conv)
  ultimately have "full ?bl" using full_runs h(2) by blast
  moreover have "tally ?fs (\<lambda>_. free_blocks) (cg_free (u_cg s i)) = 0"
    using ufs_okD(6) [OF assms(1,2)] assms(3) by (simp add: cg_map_ok_def cg_counts_def)
  from tally_zero [OF this free_blocks_nonneg h(1)] have "free_blocks ?bl = 0" .
  ultimately show False by (simp add: free_blocks_def)
qed

lemma no_run_no_space:
  assumes "ufs_ok s" "i < fs_ncg (u_fs s)" "cs_nbfree (cg_cs (u_cg s i)) = 0"
    and "\<And>r. k \<le> r \<Longrightarrow> r < fs_frag (u_fs s) \<Longrightarrow> cg_frsum (u_cg s i) r = 0" "0 < k"
  shows "\<not> space s i k"
proof
  let ?fs = "u_fs s"
  assume "space s i k"
  then obtain h r where h: "h < fs_fpg ?fs div fs_frag ?fs" "r \<in> set (runs (blk (cg_free (u_cg s i)) (fs_frag ?fs) h))" "k \<le> r"
    by (auto simp: space_def)
  show False
  proof (cases "r < fs_frag ?fs")
    case True
    then have "tally ?fs (\<lambda>_. runs_of r) (cg_free (u_cg s i)) = 0"
      using assms(4) [OF h(3)] ufs_okD(6) [OF assms(1,2)] h(3) assms(5) by (simp add: cg_map_ok_def cg_counts_def)
    from tally_zero [OF this _ h(1)] show False using h(2) by (simp add: runs_of_def count_list_0_iff)
  next
    case False
    then show False using no_block_no_space [OF assms(1-3)] h unfolding space_def by fastforce
  qed
qed

lemma attempt_gave: "gave k s b s' \<Longrightarrow> 0 < b \<Longrightarrow> dtog (u_fs s) b = i \<Longrightarrow> attempt k i s (Some (b, s'))"
  by (simp add: attempt_def)

lemma attemptI:
  assumes "ufs_ok s" "i < fs_ncg (u_fs s)" "counted g i (u_fs s) fs'" "adds g" "cg_map_ok (u_fs s) cgp'" "cg_cs cgp' = g (cg_cs (u_cg s i))"
    and nif: "\<And>x. cs_nifree (g x) = cs_nifree x"
    and same: "cg_irotor cgp' = cg_irotor (u_cg s i)" "cg_iused cgp' = cg_iused (u_cg s i)" "cg_magic cgp' = cg_magic (u_cg s i)"
      "cg_cgx cgp' = cg_cgx (u_cg s i)"
    and h: "h < fs_fpg (u_fs s) div fs_frag (u_fs s)" "m + k \<le> fs_frag (u_fs s)"
    and was: "\<And>j. m \<le> j \<Longrightarrow> j < m + k \<Longrightarrow> isset (cg_free (u_cg s i)) (h * fs_frag (u_fs s) + j)"
    and now: "\<And>j. isset (cg_free cgp') j \<longleftrightarrow> isset (cg_free (u_cg s i)) j \<and>
      \<not> (h * fs_frag (u_fs s) + m \<le> j \<and> j < h * fs_frag (u_fs s) + m + k)"
    and "0 < k"
  shows "attempt k i s (Some (i * fs_fpg (u_fs s) + (h * fs_frag (u_fs s) + m), (cgput s i cgp')\<lparr>u_fs := fs'\<rparr>))"
proof (rule attempt_gave)
  show "gave k s (i * fs_fpg (u_fs s) + (h * fs_frag (u_fs s) + m)) ((cgput s i cgp')\<lparr>u_fs := fs'\<rparr>)"
    "0 < i * fs_fpg (u_fs s) + (h * fs_frag (u_fs s) + m)"
    by (rule gaveI [OF assms]; assumption)+
  show "dtog (u_fs s) (i * fs_fpg (u_fs s) + (h * fs_frag (u_fs s) + m)) = i"
    using gave_group [OF ufs_okD(1) [OF assms(1)] h(1), of m i] h(2) \<open>0 < k\<close> by simp
qed

lemma fs_size_k:
  assumes "fs_geom fs" "k \<le> fs_frag fs"
  shows "numfrags fs (k * fs_fsize fs) = k" "k * fs_fsize fs = fs_bsize fs \<longleftrightarrow> k = fs_frag fs"
  using fs_geomD(17) [OF assms(1)] by (simp_all add: numfrags_div [OF assms(1)] fs_geomD(5) [OF assms(1)])

lemma took_unchanged:
  "took fs cgp h cgp' \<Longrightarrow> cg_irotor cgp' = cg_irotor cgp \<and> cg_iused cgp' = cg_iused cgp \<and> cg_magic cgp' = cg_magic cgp \<and>
    cg_cgx cgp' = cg_cgx cgp \<and> cg_cs cgp' = cs_nbfree_update (\<lambda>n. n - 1) (cg_cs cgp) \<and> cg_map_ok fs cgp' \<and>
    h < fs_fpg fs div fs_frag fs \<and> full (blk (cg_free cgp) (fs_frag fs) h)"
  by (simp add: took_def)

lemma alloccgblk_took:
  assumes "ufs_ok s" "i < fs_ncg (u_fs s)" "cs_nbfree (cg_cs (u_cg s i)) \<noteq> 0"
  shows "\<exists>h cgp'. alloccgblk (u_fs s) ((u_cg s i)\<lparr>cg_time := t\<rparr>) bpref =
      Some (i * fs_fpg (u_fs s) + h * fs_frag (u_fs s), block_taken (u_fs s) i, cgp') \<and> took (u_fs s) (u_cg s i) h cgp'"
proof -
  have "cg_cgx (u_cg s i) = i" using ufs_okD(4) [OF assms(1,2)] by (simp add: cg_ok_def)
  moreover have "took (u_fs s) ((u_cg s i)\<lparr>cg_time := t\<rparr>) h c = took (u_fs s) (u_cg s i) h c" for h c by (simp add: took_def)
  ultimately show ?thesis
    using alloccgblk_result [OF ufs_okD(1,2) [OF assms(1)], of "(u_cg s i)\<lparr>cg_time := t\<rparr>" bpref] ufs_okD(6) [OF assms(1,2)] assms(3)
    by (simp add: block_result_def cg_map_ok_time)
qed

lemma attempt_block:
  assumes "ufs_ok s" "i < fs_ncg (u_fs s)" "took (u_fs s) (u_cg s i) h cgp'"
  shows "attempt (fs_frag (u_fs s)) i s
    (Some (i * fs_fpg (u_fs s) + h * fs_frag (u_fs s), (cgput s i cgp')\<lparr>u_fs := block_taken (u_fs s) i\<rparr>))"
proof -
  let ?fs = "u_fs s"
  note geom = ufs_okD(1) [OF assms(1)] and u = took_unchanged [OF assms(3)]
  note p = fs_geomD(2) [OF geom]
  have now: "isset (cg_free cgp') j \<longleftrightarrow> isset (cg_free (u_cg s i)) j \<and> \<not> (h * fs_frag ?fs + 0 \<le> j \<and> j < h * fs_frag ?fs + 0 + fs_frag ?fs)" for j
    using took_now [OF assms(3) p] by simp
  have was: "isset (cg_free (u_cg s i)) (h * fs_frag ?fs + j)" if "0 \<le> j" "j < 0 + fs_frag ?fs" for j using u that by (simp add: full_blk)
  show ?thesis
    using attemptI [OF assms(1,2) counted_taken [OF geom] adds_intros(4) _ _ _ _ _ _ _ _ _ was now p] u by simp
qed

lemma attempt_hack:
  assumes "ufs_ok s" "i < fs_ncg (u_fs s)" "took (u_fs s) (u_cg s i) h cgp'" "0 < k" "k < fs_frag (u_fs s)"
    and a': "\<And>j. isset a' j \<longleftrightarrow> isset (cg_free cgp') j \<or> (h * fs_frag (u_fs s) + k \<le> j \<and> j < h * fs_frag (u_fs s) + fs_frag (u_fs s))"
    and inc: "inc = nffree_add (int (fs_frag (u_fs s) - k))"
    and cgp2: "cgp2 = cgp'\<lparr>cg_free := a', cg_cs := inc (cg_cs cgp'),
      cg_frsum := (cg_frsum cgp')(fs_frag (u_fs s) - k := cg_frsum cgp' (fs_frag (u_fs s) - k) + 1)\<rparr>"
  shows "attempt k i s (Some (i * fs_fpg (u_fs s) + h * fs_frag (u_fs s),
    (cgput s i cgp2)\<lparr>u_fs := (fs_count inc i (block_taken (u_fs s) i))\<lparr>fs_fmod := m\<rparr>\<rparr>))"
proof -
  let ?fs = "u_fs s" and ?dec = "cs_nbfree_update (\<lambda>n. n - 1) :: csum \<Rightarrow> csum"
  note geom = ufs_okD(1) [OF assms(1)] and u = took_unchanged [OF assms(3)]
  note p = fs_geomD(2) [OF geom] and tn = took_now [OF assms(3) fs_geomD(2) [OF geom]]
  have geom': "fs_geom (block_taken ?fs i)" 
    using counted_taken [OF geom, of i] geom same_geom_sel(17) [of ?fs "block_taken ?fs i"] by (simp add: counted_def)
  have cnt: "counted (\<lambda>x. inc (?dec x)) i ?fs ((fs_count inc i (block_taken ?fs i))\<lparr>fs_fmod := m\<rparr>)"
    by (intro counted_fmod counted_comp [OF counted_taken [OF geom]] counted_count [OF geom'])
  have ad: "adds (\<lambda>x. inc (?dec x))" unfolding inc by (rule adds_comp [OF adds_intros(4,2)])
  have fl: "isset (cg_free (u_cg s i)) (h * fs_frag ?fs + j)" if "j < fs_frag ?fs" for j using u that by (simp add: full_blk)
  have now: "isset (cg_free cgp2) j \<longleftrightarrow> isset (cg_free (u_cg s i)) j \<and> \<not> (h * fs_frag ?fs + 0 \<le> j \<and> j < h * fs_frag ?fs + 0 + k)" for j
  proof (cases "h * fs_frag ?fs \<le> j \<and> j < h * fs_frag ?fs + fs_frag ?fs")
    case True
    then have "j - h * fs_frag ?fs < fs_frag ?fs" "h * fs_frag ?fs + (j - h * fs_frag ?fs) = j" by auto
    with fl [of "j - h * fs_frag ?fs"] have "isset (cg_free (u_cg s i)) j" by simp
    then show ?thesis using True by (simp add: cgp2 a' tn not_less)
  next
    case False
    then have "isset a' j = isset (cg_free cgp') j" unfolding a' by auto
    moreover have "isset (cg_free cgp') j = isset (cg_free (u_cg s i)) j" unfolding tn using False by simp
    moreover have "\<not> (h * fs_frag ?fs \<le> j \<and> j < h * fs_frag ?fs + k)" using False assms(5) by auto
    ultimately show ?thesis by (simp add: cgp2)
  qed
  have ok: "cg_map_ok ?fs cgp2"
    unfolding cgp2 inc by (rule hack_ok [OF geom _ _ _ assms(4,5) a']) (use u tn in auto)
  have was: "isset (cg_free (u_cg s i)) (h * fs_frag ?fs + j)" if "0 \<le> j" "j < 0 + k" for j using fl that assms(5) by simp
  show ?thesis
    using attemptI [OF assms(1,2) cnt ad ok _ _ _ _ _ _ _ _ was now assms(4)] u assms(5)
    by (simp add: cgp2 inc nffree_add_def)
qed

lemma attempt_run:
  assumes "ufs_ok s" "i < fs_ncg (u_fs s)" "h < fs_fpg (u_fs s) div fs_frag (u_fs s)" "0 < k" "k \<le> L" "L < fs_frag (u_fs s)"
    and run: "maxrun (blk (cg_free (u_cg s i)) (fs_frag (u_fs s)) h) m L"
    and a': "\<And>j. isset a' j \<longleftrightarrow> isset (cg_free (u_cg s i)) j \<and>
      \<not> (h * fs_frag (u_fs s) + m \<le> j \<and> j < h * fs_frag (u_fs s) + (m + k))"
    and f: "f < fs_fpg (u_fs s)"
    and fr: "frsum = (cg_frsum (u_cg s i))(L := cg_frsum (u_cg s i) L - 1)"
    and fr2: "frsum2 = (if k \<noteq> L then frsum(L - k := frsum (L - k) + 1) else frsum)"
    and dec: "dec = nffree_add (- int k)"
    and cgp2: "cgp2 = (u_cg s i)\<lparr>cg_time := t, cg_frotor := f, cg_free := a', cg_cs := dec (cg_cs (u_cg s i)), cg_frsum := frsum2\<rparr>"
  shows "attempt k i s (Some (i * fs_fpg (u_fs s) + (h * fs_frag (u_fs s) + m),
    (cgput s i cgp2)\<lparr>u_fs := (fs_count dec i (u_fs s))\<lparr>fs_fmod := fm\<rparr>\<rparr>))"
proof -
  let ?fs = "u_fs s" and ?cgp = "u_cg s i"
  note geom = ufs_okD(1) [OF assms(1)]
  have cnt: "counted dec i ?fs ((fs_count dec i ?fs)\<lparr>fs_fmod := fm\<rparr>)" by (intro counted_fmod counted_count [OF geom])
  have ad: "adds dec" unfolding dec by (rule adds_intros)
  have mL: "m + k \<le> fs_frag ?fs" "m < fs_frag ?fs" using run assms(4,5) by (auto simp: maxrun_def)
  have c: "cgp2 = (?cgp\<lparr>cg_frotor := f, cg_free := a', cg_cs := dec (cg_cs ?cgp), cg_frsum := frsum2\<rparr>)\<lparr>cg_time := t\<rparr>"
    by (simp add: cgp2)
  have ok: "cg_map_ok ?fs cgp2" unfolding c cg_map_ok_time unfolding dec
    by (rule cut_run_ok [OF geom ufs_okD(6) [OF assms(1,2)] assms(3) run assms(6,4,5) a' refl fr fr2 f])
  have was: "isset (cg_free ?cgp) (h * fs_frag ?fs + j)" if "m \<le> j" "j < m + k" for j
    using maxrun_in [OF run that(1)] that assms(5) mL(1) by simp
  have now: "isset (cg_free cgp2) j \<longleftrightarrow> isset (cg_free ?cgp) j \<and> \<not> (h * fs_frag ?fs + m \<le> j \<and> j < h * fs_frag ?fs + m + k)" for j
    by (simp add: cgp2 a' add.assoc)
  show ?thesis by (rule attemptI [OF assms(1,2) cnt ad ok _ _ _ _ _ _ assms(3) mL(1) was now assms(4)]) (simp_all add: cgp2 dec nffree_add_def)
qed

lemma cgread_ok:
  "ufs_ok s \<Longrightarrow> i < fs_ncg (u_fs s) \<Longrightarrow> cgread s i = Some (if u_rderr s i then None else Some (u_cg s i))"
  using ufs_okD(3,4) [of s i] by (simp add: cgread_def cg_ok_def)

lemma alloccg_attempt:
  assumes "ufs_ok s" "i < fs_ncg (u_fs s)" "0 < k" "k \<le> fs_frag (u_fs s)"
  shows "attempt k i s (alloccg s i bpref (k * fs_fsize (u_fs s)))"
proof -
  let ?fs = "u_fs s" and ?cgp = "u_cg s i"
  let ?t = "?cgp\<lparr>cg_time := u_time s\<rparr>" and ?sz = "k * fs_fsize (u_fs s)"
  note geom = ufs_okD(1) [OF assms(1)]
  note sz = fs_size_k [OF geom assms(4)]
  note map = ufs_okD(6) [OF assms(1,2)]
  have cs: "fs_cs ?fs i = cg_cs ?cgp" by (rule ufs_okD(5) [OF assms(1,2)])
  have nc: "no_change s (cgput s i ?t)" by (rule no_change_time [OF assms(1,2)])
  consider (none) "cs_nbfree (cg_cs ?cgp) = 0" "k = fs_frag ?fs"
    | (err) "\<not> (cs_nbfree (cg_cs ?cgp) = 0 \<and> k = fs_frag ?fs)" "u_rderr s i"
    | (block) "cs_nbfree (cg_cs ?cgp) \<noteq> 0" "k = fs_frag ?fs" "\<not> u_rderr s i"
    | (frag) "k < fs_frag ?fs" "\<not> u_rderr s i" using assms(4) by linarith
  then show ?thesis
  proof cases
    case none
    then have "?sz = fs_bsize ?fs" using sz(2) by simp
    with none(1) have "alloccg s i bpref ?sz = Some (0, s)" unfolding alloccg_def Let_def cs by simp
    then show ?thesis using attempt_failed [OF no_change_refl [OF assms(1)]] no_block_no_space [OF assms(1,2)] none by simp
  next
    case err
    then have "alloccg s i bpref ?sz = Some (0, s)" using sz(2) by (auto simp: alloccg_def cs cgread_ok [OF assms(1,2)])
    then show ?thesis using attempt_failed [OF no_change_refl [OF assms(1)]] err by simp
  next
    case block
    obtain h cgp' where b: "alloccgblk ?fs ?t bpref = Some (i * fs_fpg ?fs + h * fs_frag ?fs, block_taken ?fs i, cgp')"
      and tk: "took ?fs ?cgp h cgp'" using alloccgblk_took [OF assms(1,2) block(1)] by blast
    have "alloccg s i bpref ?sz = Some (i * fs_fpg ?fs + h * fs_frag ?fs, (cgput s i cgp')\<lparr>u_fs := block_taken ?fs i\<rparr>)"
      using block b sz by (simp add: alloccg_def cs cgread_ok [OF assms(1,2)] Let_def)
    then show ?thesis using attempt_block [OF assms(1,2) tk] block(2) by simp
  next
    case frag
    then have nsz: "?sz \<noteq> fs_bsize ?fs" using sz(2) by simp
    show ?thesis
    proof (cases "find (\<lambda>r. cg_frsum ?cgp r \<noteq> 0) [k..<fs_frag ?fs]")
      case None
      then have zero: "cg_frsum ?cgp r = 0" if "k \<le> r" "r < fs_frag ?fs" for r using that by (auto simp: find_None_iff)
      show ?thesis
      proof (cases "cs_nbfree (cg_cs ?cgp) = 0")
        case True
        then have "alloccg s i bpref ?sz = Some (0, cgput s i ?t)"
          using None frag nsz sz(1) by (simp add: alloccg_def cs cgread_ok [OF assms(1,2)] Let_def)
        then show ?thesis using attempt_failed [OF nc] no_run_no_space [OF assms(1,2) True zero assms(3)] by simp
      next
        case False
        obtain h cgp' where b: "alloccgblk ?fs ?t bpref = Some (i * fs_fpg ?fs + h * fs_frag ?fs, block_taken ?fs i, cgp')"
          and tk: "took ?fs ?cgp h cgp'" using alloccgblk_took [OF assms(1,2) False] by blast
        have h: "h * fs_frag ?fs < fs_fpg ?fs"
          using block_end [OF geom, of h] tk fs_geomD(2) [OF geom] by (simp add: took_def)
        have bf: "fs_frag (block_taken ?fs i) = fs_frag ?fs" by (simp add: block_taken_def)
        have d: "dtogd (block_taken ?fs i) (i * fs_fpg ?fs + h * fs_frag ?fs) = h * fs_frag ?fs"
          using h by (simp add: dtogd_def block_taken_def)
        have "alloccg s i bpref ?sz = Some (i * fs_fpg ?fs + h * fs_frag ?fs,
           (cgput s i (cgp'\<lparr>cg_free := fold (\<lambda>j a. setbit a (h * fs_frag ?fs + j)) [k..<fs_frag ?fs] (cg_free cgp'),
               cg_cs := nffree_add (int (fs_frag ?fs - k)) (cg_cs cgp'),
               cg_frsum := (cg_frsum cgp')(fs_frag ?fs - k := cg_frsum cgp' (fs_frag ?fs - k) + 1)\<rparr>))
             \<lparr>u_fs := (fs_count (nffree_add (int (fs_frag ?fs - k))) i (block_taken ?fs i))\<lparr>fs_fmod := fs_fmod (block_taken ?fs i) + 1\<rparr>\<rparr>)"
          using None False frag nsz sz(1) b d bf by (simp add: alloccg_def cs cgread_ok [OF assms(1,2)] Let_def)
        then show ?thesis using attempt_hack [OF assms(1,2) tk assms(3) frag(1) bm.test_raise_range refl refl] by simp
      qed
    next
      case (Some L)
      then have L: "cg_frsum ?cgp L \<noteq> 0" "k \<le> L" "L < fs_frag ?fs" using find_Some_first [OF Some] by auto
      then have "tally ?fs (\<lambda>_. runs_of L) (cg_free ?cgp) \<noteq> 0" using map assms(3) by (simp add: cg_map_ok_def cg_counts_def)
      from tally_ex [OF this] obtain h0 where "h0 < fs_fpg ?fs div fs_frag ?fs" "L \<in> set (runs (blk (cg_free ?cgp) (fs_frag ?fs) h0))"
        by (auto simp: runs_of_def count_list_0_iff)
      with mapsearch_spec(1) [OF geom, of ?t L h0 bpref] map L assms(3) obtain h m f where
        ms: "mapsearch ?fs ?t bpref L = Some (int (h * fs_frag ?fs + m), ?t\<lparr>cg_frotor := f\<rparr>)" "f < fs_fpg ?fs"
        "h < fs_fpg ?fs div fs_frag ?fs" "maxrun (blk (cg_free ?cgp) (fs_frag ?fs) h) m L"
        by (auto simp: cg_map_ok_def map_bounded_def)
      let ?a = "fold (\<lambda>j a. clrbit a (h * fs_frag ?fs + m + j)) [0..<k] (cg_free ?cgp)"
      let ?fr = "(cg_frsum ?cgp)(L := cg_frsum ?cgp L - 1)"
      have a: "isset ?a j \<longleftrightarrow> isset (cg_free ?cgp) j \<and> \<not> (h * fs_frag ?fs + m \<le> j \<and> j < h * fs_frag ?fs + (m + k))" for j
        unfolding bm.test_lower_range by (simp add: add.assoc)
      have "alloccg s i bpref ?sz = Some (i * fs_fpg ?fs + (h * fs_frag ?fs + m),
         (cgput s i (?cgp\<lparr>cg_time := u_time s, cg_frotor := f, cg_free := ?a, cg_cs := nffree_add (- int k) (cg_cs ?cgp),
             cg_frsum := (if k \<noteq> L then ?fr(L - k := ?fr (L - k) + 1) else ?fr)\<rparr>))
           \<lparr>u_fs := (fs_count (nffree_add (- int k)) i ?fs)\<lparr>fs_fmod := fs_fmod ?fs + 1\<rparr>\<rparr>)"
        using Some frag nsz sz(1) ms(1) by (simp add: alloccg_def cs cgread_ok [OF assms(1,2)] Let_def del: of_nat_add of_nat_mult)
      then show ?thesis using attempt_run [OF assms(1,2) ms(3) assms(3) L(2,3) ms(4) a ms(2) refl refl refl refl] by simp
    qed
  qed
qed

section \<open>\<open>hashalloc\<close>\<close>

text \<open>
  What \<open>hashalloc\<close> needs of the allocator of one group, and what it then gives: it tries every group before
  it fails.  \<open>alloccg\<close> and \<open>ialloccg\<close> are such allocators.
\<close>

locale group_allocator =
  fixes allocator :: "nat \<Rightarrow> nat \<Rightarrow> 's \<Rightarrow> (nat \<times> 's) option"
    and ncg :: nat
    and inv :: "'s \<Rightarrow> bool"
    and room :: "'s \<Rightarrow> nat \<Rightarrow> bool"
    and idle :: "'s \<Rightarrow> 's \<Rightarrow> bool"
    and granted :: "'s \<Rightarrow> nat \<Rightarrow> 's \<Rightarrow> bool"
  assumes call: "inv s \<Longrightarrow> cg < ncg \<Longrightarrow>
      \<exists>b s'. allocator cg pref s = Some (b, s') \<and> (if b = 0 then idle s s' \<and> \<not> room s cg else granted s b s')"
    and idle_refl: "inv s \<Longrightarrow> idle s s"
    and idle_trans: "idle s t \<Longrightarrow> idle t u \<Longrightarrow> idle s u"
    and idle_inv: "inv s \<Longrightarrow> idle s t \<Longrightarrow> inv t"
    and idle_room: "idle s t \<Longrightarrow> room t i = room s i"
    and idle_granted: "idle s t \<Longrightarrow> granted t b u \<Longrightarrow> granted s b u"
begin

lemma quad_result:
  assumes "inv s" "cg < ncg"
  shows "\<exists>b s'. hash_quad allocator ncg cg i s = Some (b, s') \<and>
    (if b = 0 then idle s s' \<and> (0 < i \<and> i < ncg \<longrightarrow> \<not> room s ((cg + i) mod ncg)) else granted s b s')"
  using assms
proof (induction "ncg - i" arbitrary: i cg s rule: less_induct)
  case less
  show ?case
  proof (cases "0 < i \<and> i < ncg")
    case False
    then show ?thesis using idle_refl [OF less.prems(1)] by (auto simp: hash_quad.simps [of _ _ _ i])
  next
    case True
    let ?cg = "if ncg \<le> cg + i then cg + i - ncg else cg + i"
    have cg: "?cg < ncg" "(cg + i) mod ncg = ?cg" using True less.prems(2) by (auto simp: mod_if)
    obtain b t where c: "allocator ?cg 0 s = Some (b, t)" "if b = 0 then idle s t \<and> \<not> room s ?cg else granted s b t"
      using call [OF less.prems(1) cg(1)] by blast
    show ?thesis
    proof (cases "b = 0")
      case False
      then show ?thesis using c True by (simp add: hash_quad.simps [of _ _ _ i] Let_def)
    next
      case b: True
      then have t: "idle s t" "inv t" "\<not> room s ?cg" using c(2) idle_inv less.prems(1) by auto
      have "ncg - i * 2 < ncg - i" using True by auto
      from less.hyps [OF this t(2) cg(1)] obtain b' u where
        u: "hash_quad allocator ncg ?cg (i * 2) t = Some (b', u)" "if b' = 0 then idle t u else granted t b' u"
        by (auto split: if_splits)
      have "hash_quad allocator ncg cg i s = Some (b', u)" using True b c(1) u(1) by (simp add: hash_quad.simps [of _ _ _ i] Let_def)
      then show ?thesis using u(2) t cg(2) idle_trans idle_granted by (auto split: if_splits)
    qed
  qed
qed

lemma brute_result:
  assumes "inv s" "cg < ncg"
  shows "\<exists>b s'. hash_brute allocator ncg cg n s = Some (b, s') \<and>
    (if b = 0 then idle s s' \<and> (\<forall>j < n. \<not> room s ((cg + j) mod ncg)) else granted s b s')"
  using assms
proof (induction n arbitrary: cg s)
  case 0
  then show ?case using idle_refl by simp
next
  case (Suc n)
  let ?cg = "if cg + 1 = ncg then 0 else cg + 1"
  have cg: "?cg < ncg" using Suc.prems(2) by simp
  have cg': "(?cg + j) mod ncg = (cg + Suc j) mod ncg" for j
  proof (cases "cg + 1 = ncg")
    case True
    then have e: "cg + Suc j = ncg + j" by simp
    show ?thesis unfolding if_P [OF True] e by simp
  qed simp
  obtain b t where c: "allocator cg 0 s = Some (b, t)" "if b = 0 then idle s t \<and> \<not> room s cg else granted s b t"
    using call [OF Suc.prems] by blast
  show ?case
  proof (cases "b = 0")
    case False
    then show ?thesis using c by simp
  next
    case b: True
    then have t: "idle s t" "inv t" "\<not> room s cg" using c(2) idle_inv Suc.prems(1) by auto
    from Suc.IH [OF t(2) cg] obtain b' u where
      u: "hash_brute allocator ncg ?cg n t = Some (b', u)"
      "if b' = 0 then idle t u \<and> (\<forall>j < n. \<not> room t ((?cg + j) mod ncg)) else granted t b' u" by blast
    have r: "hash_brute allocator ncg cg (Suc n) s = Some (b', u)" using b c(1) u(1) by simp
    show ?thesis
    proof (cases "b' = 0")
      case True
      then have "idle s u" "\<And>j. j < n \<Longrightarrow> \<not> room s ((cg + Suc j) mod ncg)"
        using u(2) idle_trans [OF t(1)] idle_room [OF t(1)] cg' by auto
      then have "\<forall>j < Suc n. \<not> room s ((cg + j) mod ncg)" using t(3) Suc.prems(2) by (simp add: All_less_Suc2)
      then show ?thesis using r True \<open>idle s u\<close> by simp
    next
      case False
      then show ?thesis using r u(2) idle_granted [OF t(1)] by simp
    qed
  qed
qed

lemma hashalloc_result:
  assumes "inv s" "cg < ncg"
  shows "\<exists>b s'. hashalloc allocator ncg cg pref s = Some (b, s') \<and>
    (if b = 0 then idle s s' \<and> (\<forall>i < ncg. \<not> room s i) else granted s b s')"
proof -
  obtain b t where c: "allocator cg pref s = Some (b, t)" "if b = 0 then idle s t \<and> \<not> room s cg else granted s b t"
    using call [OF assms] by blast
  show ?thesis
  proof (cases "b = 0")
    case False
    then show ?thesis using c by (simp add: hashalloc_def)
  next
    case b: True
    then have t: "idle s t" "inv t" "\<not> room s cg" using c(2) idle_inv assms(1) by auto
    obtain b' u where u: "hash_quad allocator ncg cg 1 t = Some (b', u)"
      "if b' = 0 then idle t u \<and> (1 < ncg \<longrightarrow> \<not> room t ((cg + 1) mod ncg)) else granted t b' u"
      using quad_result [OF t(2) assms(2), of 1] by (metis zero_less_one)
    show ?thesis
    proof (cases "b' = 0")
      case False
      then show ?thesis using b c(1) u idle_granted [OF t(1)] by (simp add: hashalloc_def)
    next
      case b': True
      then have u': "idle s u" "inv u" "1 < ncg \<longrightarrow> \<not> room s ((cg + 1) mod ncg)"
        using u(2) idle_trans [OF t(1)] idle_inv [OF t(2)] idle_room [OF t(1)] by auto
      have "(cg + 2) mod ncg < ncg" using assms(2) by simp
      from brute_result [OF u'(2) this, of "ncg - 2"] obtain b2 v where
        v: "hash_brute allocator ncg ((cg + 2) mod ncg) (ncg - 2) u = Some (b2, v)"
        "if b2 = 0 then idle u v \<and> (\<forall>j < ncg - 2. \<not> room u (((cg + 2) mod ncg + j) mod ncg)) else granted u b2 v" by blast
      have r: "hashalloc allocator ncg cg pref s = Some (b2, v)" using b b' c(1) u(1) v(1) by (simp add: hashalloc_def)
      show ?thesis
      proof (cases "b2 = 0")
        case False
        then show ?thesis using r v(2) idle_granted [OF u'(1)] by simp
      next
        case b2: True
        have x: "idle u v" "\<forall>j < ncg - 2. \<not> room u (((cg + 2) mod ncg + j) mod ncg)"
          using v(2) unfolding if_P [OF b2] by blast+
        have v'1: "idle s v" by (rule idle_trans [OF u'(1) x(1)])
        have v'2: "\<not> room s ((cg + (2 + j)) mod ncg)" if "j < ncg - 2" for j
          using x(2) [rule_format, OF that] unfolding idle_room [OF u'(1)] mod_add_left_eq add.assoc .
        have "\<not> room s i" if i: "i < ncg" for i
        proof -
          define j where "j = (i + ncg - cg) mod ncg"
          have "(cg + j) mod ncg = (cg + (i + ncg - cg)) mod ncg" unfolding j_def by (rule mod_add_right_eq)
          also have "cg + (i + ncg - cg) = i + ncg" using assms(2) by simp
          finally have e: "(cg + j) mod ncg = i" using i by simp
          have j: "j < ncg" using i by (simp add: j_def)
          consider "j = 0" | "j = 1" | "2 \<le> j" by linarith
          then show ?thesis
          proof cases
            case 1
            then show ?thesis using e t(3) assms(2) by simp
          next
            case 2
            then show ?thesis using e u'(3) j by simp
          next
            case 3
            then have "2 + (j - 2) = j" "j - 2 < ncg - 2" using j by auto
            then show ?thesis using e v'2 [of "j - 2"] by simp
          qed
        qed
        then show ?thesis using r b2 v'1 by simp
      qed
    qed
  qed
qed

end

lemma no_changeD: "no_change s t \<Longrightarrow> ufs_ok t \<and> u_fs t = u_fs s"
  by (simp add: no_change_def)

text \<open>The allocator of \<open>k\<close> adjacent fragments.\<close>

definition block_inv :: "nat \<Rightarrow> nat \<Rightarrow> nat \<Rightarrow> ufs \<Rightarrow> bool" where
  "block_inv ncg k sz s \<longleftrightarrow> ufs_ok s \<and> fs_ncg (u_fs s) = ncg \<and> 0 < k \<and> k \<le> fs_frag (u_fs s) \<and> sz = k * fs_fsize (u_fs s)"

interpretation blocks: group_allocator "\<lambda>cg pref s. alloccg s cg pref sz" ncg "block_inv ncg k sz"
  "\<lambda>s i. \<not> u_rderr s i \<and> space s i k" "no_change" "gave k"
proof unfold_locales
  show "\<exists>b s'. alloccg s cg pref sz = Some (b, s') \<and>
      (if b = 0 then no_change s s' \<and> \<not> (\<not> u_rderr s cg \<and> space s cg k) else gave k s b s')"
    if "block_inv ncg k sz s" "cg < ncg" for s cg pref
  proof -
    have "attempt k cg s (alloccg s cg pref sz)" using alloccg_attempt [of s cg k pref] that by (simp add: block_inv_def)
    then obtain b s' where "alloccg s cg pref sz = Some (b, s')"
      "if b = 0 then no_change s s' \<and> (u_rderr s cg \<or> \<not> space s cg k) else gave k s b s' \<and> dtog (u_fs s) b = cg"
      unfolding attempt_def by blast
    then show ?thesis by (intro exI [of _ b] exI [of _ s']) (simp split: if_splits)
  qed
  show "(\<not> u_rderr t i \<and> space t i k) = (\<not> u_rderr s i \<and> space s i k)" if "no_change s t" for s t i
  proof -
    have "u_rderr t = u_rderr s" using that unfolding no_change_def frame_def by (metis ufs.select_convs(4) ufs.surjective ufs.update_convs(1,2))
    then show ?thesis using no_change_space [OF that] by simp
  qed
qed (auto simp: block_inv_def no_change_refl intro: no_change_trans no_change_gave dest: no_changeD)

section \<open>\<open>alloc\<close>\<close>

lemma ufs_ok_data: "ufs_ok (s\<lparr>u_data := d\<rparr>) = ufs_ok s" "ufs_ok (s\<lparr>u_error := e\<rparr>) = ufs_ok s"
  by (simp_all add: ufs_ok_def total_def)

lemma clrdata_sel [simp]:
  "ufs_ok (clrdata s b m n) = ufs_ok s" "free_set (clrdata s b m n) = free_set s" "u_fs (clrdata s b m n) = u_fs s"
  by (simp_all add: clrdata_def ufs_ok_data mem_free_set set_eq_iff)

lemma frame_sel:
  assumes "frame s s'"
  shows "u_data s' = u_data s" "u_rderr s' = u_rderr s" "u_drderr s' = u_drderr s" "u_uid s' = u_uid s" "u_error s' = u_error s"
    "u_time s' = u_time s" "u_held s' = u_held s"
proof -
  have "s' = s\<lparr>u_fs := u_fs s', u_cg := u_cg s'\<rparr>" using assms by (simp add: frame_def)
  then obtain f c where e: "s' = s\<lparr>u_fs := f, u_cg := c\<rparr>" by blast
  show "u_data s' = u_data s" "u_rderr s' = u_rderr s" "u_drderr s' = u_drderr s" "u_uid s' = u_uid s" "u_error s' = u_error s"
    "u_time s' = u_time s" "u_held s' = u_held s" by (simp_all add: e)
qed

lemma space_nbfree:
  assumes "ufs_ok s" "i < fs_ncg (u_fs s)" "space s i (fs_frag (u_fs s))"
  shows "cs_nbfree (fs_cstotal (u_fs s)) \<noteq> 0"
proof -
  have nn: "0 \<le> cs_nbfree (cg_cs (u_cg s j))" if "j < fs_ncg (u_fs s)" for j
    using ufs_okD(6) [OF assms(1) that] by (simp add: cg_map_ok_def cg_counts_def tally_def sum_nonneg free_blocks_nonneg)
  have "cs_nbfree (cg_cs (u_cg s i)) \<noteq> 0" using no_block_no_space [OF assms(1,2)] assms(3) by blast
  then have "0 < cs_nbfree (cg_cs (u_cg s i))" using nn [OF assms(2)] by simp
  then have "0 < total s cs_nbfree" unfolding total_def using assms(2) nn by (intro sum_pos2 [of _ i]) auto
  then show ?thesis using assms(1) by (simp add: ufs_ok_def)
qed

lemma alloc_outcome:
  assumes "ufs_ok s" "0 < k" "k \<le> fs_frag (u_fs s)" "inumber < fs_ncg (u_fs s) * fs_ipg (u_fs s)"
  shows "\<exists>r s'. alloc s inumber bpref (k * fs_fsize (u_fs s)) = Some (r, s') \<and>
    (case r of
       Some b \<Rightarrow> \<exists>t. gave k s b t \<and> s' = clrdata t b 0 (k * fs_fsize (u_fs s)) \<and> b \<noteq> 0
     | None \<Rightarrow> \<exists>t. no_change s t \<and> s' = t\<lparr>u_error := ENOSPC\<rparr> \<and>
         (minfree_left s \<or> (\<forall>i < fs_ncg (u_fs s). u_rderr s i \<or> \<not> space s i k)))"
proof -
  let ?fs = "u_fs s" and ?sz = "k * fs_fsize (u_fs s)"
  note geom = ufs_okD(1) [OF assms(1)]
  have sz: "?sz \<le> fs_bsize ?fs" "fragoff ?fs ?sz = 0" "?sz = fs_bsize ?fs \<longleftrightarrow> k = fs_frag ?fs"
    using assms(3) fs_size_k [OF geom assms(3)] by (simp_all add: fragoff_mod [OF geom] fs_geomD(5) [OF geom])
  define bp where "bp = (if fs_size ?fs \<le> bpref then 0 else bpref)"
  define cg where "cg = (if bp = 0 then itog ?fs inumber else dtog ?fs bp)"
  have "bp < fs_ncg ?fs * fs_fpg ?fs" if "bp \<noteq> 0" using that fs_geomD(16) [OF geom] by (auto simp: bp_def split: if_splits)
  then have cg: "cg < fs_ncg ?fs"
    using assms(4) fs_geomD(10,12) [OF geom] by (auto simp: cg_def itog_def dtog_def div_less_iff_less_mult)
  consider (full) "?sz = fs_bsize ?fs \<and> cs_nbfree (fs_cstotal ?fs) = 0"
    | (min) "\<not> (?sz = fs_bsize ?fs \<and> cs_nbfree (fs_cstotal ?fs) = 0)" "minfree_left s"
    | (go) "\<not> (?sz = fs_bsize ?fs \<and> cs_nbfree (fs_cstotal ?fs) = 0)" "\<not> minfree_left s" by blast
  then show ?thesis
  proof cases
    case full
    then have "alloc s inumber bpref ?sz = Some (None, s\<lparr>u_error := ENOSPC\<rparr>)" using sz by (simp add: alloc_def nospace_def Let_def)
    moreover have "\<not> space s i k" if "i < fs_ncg ?fs" for i using space_nbfree [OF assms(1) that] full sz(3) by auto
    ultimately show ?thesis using no_change_refl [OF assms(1)] by auto
  next
    case min
    then have "alloc s inumber bpref ?sz = Some (None, s\<lparr>u_error := ENOSPC\<rparr>)" using sz by (auto simp: alloc_def nospace_def Let_def)
    then show ?thesis using no_change_refl [OF assms(1)] min by auto
  next
    case go
    have inv: "block_inv (fs_ncg ?fs) k ?sz s" using assms by (simp add: block_inv_def)
    from blocks.hashalloc_result [OF inv cg, of bp] obtain b t where
      h: "hashalloc (\<lambda>cg pref s. alloccg s cg pref ?sz) (fs_ncg ?fs) cg bp s = Some (b, t)"
      "if b = 0 then no_change s t \<and> (\<forall>i < fs_ncg ?fs. \<not> (\<not> u_rderr s i \<and> space s i k)) else gave k s b t" by blast
    have "alloc s inumber bpref ?sz = (if b = 0 then Some (None, t\<lparr>u_error := ENOSPC\<rparr>) else Some (Some b, clrdata t b 0 ?sz))"
      using go sz h(1) unfolding alloc_def Let_def bp_def [symmetric] cg_def [symmetric] by (auto simp: nospace_def)
    then show ?thesis using h(2) by (cases "b = 0") auto
  qed
qed

lemma group_index: "j < p \<Longrightarrow> n div p = i \<and> n mod p = j \<longleftrightarrow> n = i * p + (j::nat)"
  using div_mult_mod_eq [of n p] by fastforce

lemma group_below:
  assumes "i < m" "j < p"
  shows "i * p + j < m * (p::nat)"
proof -
  have "(i + 1) * p \<le> m * p" using assms(1) by (intro mult_le_mono1) simp
  then show ?thesis using assms(2) by simp
qed

lemma full_space:
  assumes "ufs_ok s" "h < fs_fpg (u_fs s) div fs_frag (u_fs s)" "full (blk (cg_free (u_cg s i)) (fs_frag (u_fs s)) h)"
  shows "space s i (fs_frag (u_fs s))"
proof -
  let ?bl = "blk (cg_free (u_cg s i)) (fs_frag (u_fs s)) h"
  have "?bl \<noteq> []" using fs_geomD(2) [OF ufs_okD(1) [OF assms(1)]] by (metis length_blk length_greater_0_conv)
  then have "fs_frag (u_fs s) \<in> set (runs ?bl)" using full_runs [of ?bl] assms(3) by simp
  then show ?thesis unfolding space_def using assms(2) by (metis lessThan_iff order_refl)
qed

section \<open>Properties\<close>

text \<open>
  C5: Under the invariant, \<open>alloc\<close> of \<open>k\<close> fragments always returns and keeps the invariant.  What it hands out is \<open>k\<close>
  adjacent fragments of one block that were free, which leave the free map and are cleared; no other byte
  changes.  It refuses only below the reserve, or when no group that can be read has \<open>k\<close> adjacent free fragments in a block,
  and then the error is \<open>ENOSPC\<close> and the free map is as before.
\<close>

theorem alloc_serves:
  assumes "ufs_ok s" "0 < k" "k \<le> fs_frag (u_fs s)" "inumber < fs_ncg (u_fs s) * fs_ipg (u_fs s)"
  shows "\<exists>r s'. alloc s inumber bpref (k * fs_fsize (u_fs s)) = Some (r, s') \<and> ufs_ok s' \<and>
    (case r of
       Some b \<Rightarrow> 0 < b \<and> b mod fs_frag (u_fs s) + k \<le> fs_frag (u_fs s) \<and> {b..<b + k} \<subseteq> free_set s \<and>
         free_set s' = free_set s - {b..<b + k} \<and>
         (\<forall>a. u_data s' a = (if b * fs_fsize (u_fs s) \<le> a \<and> a < (b + k) * fs_fsize (u_fs s) then 0 else u_data s a))
     | None \<Rightarrow> u_error s' = ENOSPC \<and> free_set s' = free_set s \<and> u_data s' = u_data s \<and>
         (minfree_left s \<or> (\<forall>i < fs_ncg (u_fs s). u_rderr s i \<or> \<not> space s i k)))"
proof -
  obtain r s' where c: "alloc s inumber bpref (k * fs_fsize (u_fs s)) = Some (r, s')"
    "case r of Some b \<Rightarrow> \<exists>t. gave k s b t \<and> s' = clrdata t b 0 (k * fs_fsize (u_fs s)) \<and> b \<noteq> 0
     | None \<Rightarrow> \<exists>t. no_change s t \<and> s' = t\<lparr>u_error := ENOSPC\<rparr> \<and>
         (minfree_left s \<or> (\<forall>i < fs_ncg (u_fs s). u_rderr s i \<or> \<not> space s i k))"
    using alloc_outcome [OF assms] by blast
  show ?thesis
  proof (cases r)
    case None
    then obtain t where t: "no_change s t" "s' = t\<lparr>u_error := ENOSPC\<rparr>"
      "minfree_left s \<or> (\<forall>i < fs_ncg (u_fs s). u_rderr s i \<or> \<not> space s i k)" using c(2) by auto
    then have "ufs_ok s'" "u_data s' = u_data s" "free_set s' = free_set s"
      using frame_sel(1) [of s t] no_change_free_set [OF t(1)] by (simp_all add: no_change_def ufs_ok_data free_set_def)
    then show ?thesis using c(1) t None by simp
  next
    case (Some b)
    then obtain t where t: "gave k s b t" "s' = clrdata t b 0 (k * fs_fsize (u_fs s))" "b \<noteq> 0" using c(2) by auto
    then have f: "frame s t" by (simp add: gave_def)
    then have "fs_fsize (u_fs t) = fs_fsize (u_fs s)" by (simp add: frame_def same_geom_sel)
    then have "u_data s' a = (if b * fs_fsize (u_fs s) \<le> a \<and> a < (b + k) * fs_fsize (u_fs s) then 0 else u_data s a)" for a
      using frame_sel(1) [OF f] by (simp add: t(2) clrdata_def add_mult_distrib)
    then show ?thesis using c(1) t Some by (simp add: gave_def)
  qed
qed

theorem alloc_serves_witness:
  "\<exists>r s'. alloc tiny 5 0 (1 * 2) = Some (r, s') \<and> ufs_ok s' \<and>
    (case r of
       Some b \<Rightarrow> 0 < b \<and> b mod 2 + 1 \<le> 2 \<and> {b..<b + 1} \<subseteq> free_set tiny \<and> free_set s' = free_set tiny - {b..<b + 1} \<and>
         (\<forall>a. u_data s' a = (if b * 2 \<le> a \<and> a < (b + 1) * 2 then 0 else u_data tiny a))
     | None \<Rightarrow> u_error s' = ENOSPC \<and> free_set s' = free_set tiny \<and> u_data s' = u_data tiny \<and>
         (minfree_left tiny \<or> (\<forall>i < 2. u_rderr tiny i \<or> \<not> space tiny i 1)))"
  using alloc_serves [of tiny 1 5 0, OF tiny_ok] unfolding tiny_sel tiny_fs_sel by simp

text \<open>
  A whole block is taken where it is asked for: when the preferred block is free, its group can be read
  and the reserve is not touched, \<open>alloc\<close> returns that block.
\<close>

theorem alloc_takes_preferred:
  assumes "ufs_ok s" "0 < bpref" "bpref < fs_size (u_fs s)" "\<not> minfree_left s" "\<not> u_rderr s (dtog (u_fs s) bpref)"
    and free: "{bpref - bpref mod fs_frag (u_fs s)..<bpref - bpref mod fs_frag (u_fs s) + fs_frag (u_fs s)} \<subseteq> free_set s"
  shows "\<exists>s'. alloc s inumber bpref (fs_bsize (u_fs s)) = Some (Some (bpref - bpref mod fs_frag (u_fs s)), s')"
proof -
  let ?fs = "u_fs s" and ?frag = "fs_frag (u_fs s)"
  note geom = ufs_okD(1) [OF assms(1)]
  note fr = fs_geomD(1) [OF geom] and p = fs_geomD(2) [OF geom]
  define i where "i = dtog ?fs bpref"
  define b where "b = bpref - bpref mod ?frag"
  define h where "h = dtogd ?fs b div ?frag"
  obtain q where q: "fs_fpg ?fs = ?frag * q" using fs_geomD(8) [OF geom] by blast
  have "?frag dvd b" unfolding b_def by (rule dvd_minus_mod)
  then have bh: "dtogd ?fs b = h * ?frag" by (simp add: h_def dtogd_def dvd_mod [OF _ fs_geomD(8) [OF geom]])
  have "bpref div fs_fpg ?fs = b div fs_fpg ?fs" unfolding q div_mult2_eq b_def using p by (simp add: minus_mod_eq_mult_div)
  then have bi: "dtog ?fs b = i" by (simp add: i_def dtog_def)
  have i: "i < fs_ncg ?fs" using assms(3) fs_geomD(10,16) [OF geom] by (simp add: i_def dtog_def div_less_iff_less_mult)
  note mok = ufs_okD(6) [OF assms(1) i]
  let ?cgp = "(u_cg s i)\<lparr>cg_time := u_time s\<rparr>"
  have fb: "full (blk (cg_free (u_cg s i)) ?frag h)"
    unfolding full_blk
  proof (intro allI impI)
    fix j assume j: "j < ?frag"
    then have "b + j \<in> free_set s" using free [folded b_def] by auto
    moreover have "h * ?frag + j < fs_fpg ?fs"
    proof -
      have "dtogd ?fs b < fs_fpg ?fs" using fs_geomD(10) [OF geom] by (simp add: dtogd_def)
      then have "h < q" using p unfolding bh q by (simp add: mult.commute)
      then have "(h + 1) * ?frag \<le> q * ?frag" by (intro mult_le_mono1) simp
      then show ?thesis using j unfolding q by (simp add: mult.commute)
    qed
    then have "(b + j) div fs_fpg ?fs = i \<and> (b + j) mod fs_fpg ?fs = h * ?frag + j"
      using group_index [of "h * ?frag + j" "fs_fpg ?fs" "b + j" i] bh bi div_mult_mod_eq [of b "fs_fpg ?fs"]
      by (simp add: dtog_def dtogd_def)
    ultimately show "isset (cg_free (u_cg s i)) (h * ?frag + j)" by (simp add: mem_free_set dtog_def dtogd_def)
  qed
  have hl: "h < fs_fpg ?fs div ?frag" using full_in_group [OF geom _ fb] mok by (simp add: cg_map_ok_def)
  have sp: "space s i ?frag" by (rule full_space [OF assms(1) hl fb])
  have tot: "cs_nbfree (fs_cstotal ?fs) \<noteq> 0" by (rule space_nbfree [OF assms(1) i sp])
  have nb: "cs_nbfree (cg_cs (u_cg s i)) \<noteq> 0" using no_block_no_space [OF assms(1) i] sp by blast
  have cgp: "cg_map_ok ?fs ?cgp" using mok by (simp add: cg_map_ok_time)
  have al: "dtogd ?fs (nat (int bpref AND NOT (int ?frag - 1))) = h * ?frag" unfolding frag_align [OF fr] b_def [symmetric] by (rule bh)
  have isb: "isblock ?frag (cg_free ?cgp) (h * ?frag div ?frag) = Some True" using isblock_blk [OF fr] fb p by (simp add: full_def)
  have "alloccgblk ?fs ?cgp bpref = gotit ?fs ?cgp (h * ?frag)"
    using assms(2) unfolding alloccgblk_def al Let_def isb by simp
  moreover obtain cgp' where "gotit ?fs ?cgp (h * ?frag) = Some (cg_cgx ?cgp * fs_fpg ?fs + h * ?frag, block_taken ?fs (cg_cgx ?cgp), cgp')"
    using gotit_took [OF geom cgp hl] fb by auto
  moreover have "cg_cgx (u_cg s i) * fs_fpg ?fs + h * ?frag = b"
    using ufs_okD(4) [OF assms(1) i] bi bh div_mult_mod_eq [of b "fs_fpg ?fs"] by (simp add: cg_ok_def dtog_def dtogd_def)
  ultimately obtain fs' where blk: "alloccgblk ?fs ?cgp bpref = Some (b, fs', cgp')" by auto
  have a: "alloccg s i bpref (fs_bsize ?fs) = Some (b, (cgput s i cgp')\<lparr>u_fs := fs'\<rparr>)"
    using nb assms(5) unfolding alloccg_def Let_def ufs_okD(5) [OF assms(1) i] cgread_ok [OF assms(1) i] i_def [symmetric]
    by (simp add: blk)
  have "b \<in> free_set s" using free [folded b_def] p by auto
  then have "isset (cg_free (u_cg s i)) (dtogd ?fs b)" by (simp add: mem_free_set bi)
  then have b0: "0 < b"
    using ufs_okD(4) [OF assms(1) i] div_mult_mod_eq [of b "fs_fpg ?fs"] bi by (metis cg_ok_def dtog_def dtogd_def)
  have "fragoff ?fs (fs_bsize ?fs) = 0" by (simp add: fragoff_mod [OF geom] fs_geomD(5) [OF geom])
  then show ?thesis
    using tot assms(2-4) a b0 unfolding alloc_def Let_def by (simp add: hashalloc_def i_def b_def)
qed

theorem alloc_takes_preferred_witness:
  "\<exists>s'. alloc tiny 1 13 (fs_bsize tiny_fs) = Some (Some 12, s')"
proof -
  have "t \<in> free_set tiny" if "t \<in> {12..<14}" for t
  proof -
    have "t = 12 \<or> t = 13" using that by auto
    then show ?thesis by (auto simp: tiny_free_set)
  qed
  then show ?thesis using alloc_takes_preferred [of tiny 13 1] tiny_ok by (simp add: minfree_left_def subset_iff)
qed



end
