(* ===== verification/Ufs_Free.thy ===== *)
theory Ufs_Free
  imports Ufs_Space
begin

text \<open>
  \<open>free\<close>, \<open>fragextend\<close> and \<open>realloccg\<close> (sys/ufs_alloc.c): what is given back becomes free and the counts of
  runs stay exact when fragments merge; a fragment that grows keeps its contents.
\<close>

section \<open>\<open>free\<close>\<close>

lemma setfrags_ok:
  "\<forall>i \<in> set is. \<not> isset a i \<Longrightarrow> distinct is \<Longrightarrow> \<exists>a'. setfrags a is = Some a' \<and> (\<forall>j. isset a' j \<longleftrightarrow> isset a j \<or> j \<in> set is)"
proof (induction "is" arbitrary: a)
  case (Cons i "is")
  then have "\<forall>j \<in> set is. \<not> isset (setbit a i) j" by auto
  from Cons.IH [OF this] Cons.prems show ?case by auto
qed simp

lemma setfrags_panic: "\<exists>i \<in> set is. isset a i \<Longrightarrow> setfrags a is = None"
proof (induction "is" arbitrary: a)
  case (Cons i "is")
  show ?case
  proof (cases "isset a i")
    case False
    then have "\<exists>x \<in> set is. isset (setbit a i) x" using Cons.prems by auto
    from Cons.IH [OF this] show ?thesis using False by simp
  qed simp
qed simp

lemma nffree_add_add: "nffree_add a (nffree_add b x) = nffree_add (a + b) x"
  by (simp add: nffree_add_def add.assoc)

lemma not_free_bits:
  assumes "fs_geom (u_fs s)" "i < fs_ncg (u_fs s)" "h < fs_fpg (u_fs s) div fs_frag (u_fs s)" "m + k \<le> fs_frag (u_fs s)"
    and "{i * fs_fpg (u_fs s) + (h * fs_frag (u_fs s) + m)..<i * fs_fpg (u_fs s) + (h * fs_frag (u_fs s) + m) + k} \<inter> free_set s = {}"
    and "m \<le> j" "j < m + k"
  shows "\<not> isset (cg_free (u_cg s i)) (h * fs_frag (u_fs s) + j)"
proof
  let ?fs = "u_fs s"
  let ?b = "i * fs_fpg ?fs + (h * fs_frag ?fs + j)"
  assume b: "isset (cg_free (u_cg s i)) (h * fs_frag ?fs + j)"
  have l: "h * fs_frag ?fs + j < fs_fpg ?fs" using block_end [OF assms(1,3)] assms(4,7) by simp
  then have d: "?b div fs_fpg ?fs = i" "?b mod fs_fpg ?fs = h * fs_frag ?fs + j"
    using block_of [OF l] mod_mult_self3 [of i "fs_fpg ?fs"] by auto
  have "?b < fs_ncg ?fs * fs_fpg ?fs" using d(1) assms(2) fs_geomD(10) [OF assms(1)] by (simp flip: div_less_iff_less_mult)
  then have "?b \<in> free_set s" using b d by (simp add: mem_free_set dtog_def dtogd_def)
  moreover have "?b \<in> {i * fs_fpg ?fs + (h * fs_frag ?fs + m)..<i * fs_fpg ?fs + (h * fs_frag ?fs + m) + k}"
    using assms(6,7) by simp
  ultimately show False using assms(5) by blast
qed

text \<open>Adding a range to one group.\<close>

lemma took_backI:
  assumes "ufs_ok s" "i < fs_ncg (u_fs s)" "counted g i (u_fs s) fs'" "adds g" "cg_map_ok (u_fs s) cgp'" "cg_cs cgp' = g (cg_cs (u_cg s i))"
    and nif: "\<And>x. cs_nifree (g x) = cs_nifree x"
    and same: "cg_irotor cgp' = cg_irotor (u_cg s i)" "cg_iused cgp' = cg_iused (u_cg s i)" "cg_magic cgp' = cg_magic (u_cg s i)"
      "cg_cgx cgp' = cg_cgx (u_cg s i)"
    and c: "c + k \<le> fs_fpg (u_fs s)" "0 < i * fs_fpg (u_fs s) + c" "i * fs_fpg (u_fs s) + c + k \<le> fs_size (u_fs s)"
    and now: "\<And>j. isset (cg_free cgp') j \<longleftrightarrow> isset (cg_free (u_cg s i)) j \<or> (c \<le> j \<and> j < c + k)"
  shows "ufs_ok ((cgput s i cgp')\<lparr>u_fs := fs'\<rparr>) \<and> frame s ((cgput s i cgp')\<lparr>u_fs := fs'\<rparr>) \<and>
    free_set ((cgput s i cgp')\<lparr>u_fs := fs'\<rparr>) = free_set s \<union> {i * fs_fpg (u_fs s) + c..<i * fs_fpg (u_fs s) + c + k}"
proof -
  let ?fs = "u_fs s"
  have geom: "fs_geom ?fs" and ok: "cg_ok ?fs i (u_cg s i)" using ufs_okD(1,4) [OF assms(1)] assms(2) by simp_all
  have sg: "same_geom ?fs fs'" using assms(3) by (simp add: counted_def)
  have "cg_ok ?fs i cgp'" using ok assms(5) nif c(2,3) by (auto simp: cg_ok_def cg_inodes_ok_def same now assms(6))
  then have "ufs_ok ((cgput s i cgp')\<lparr>u_fs := fs'\<rparr>)" using group_step [OF assms(1-4)] assms(6) by simp
  then show ?thesis using frame_put [OF assms(3)] free_set_join [OF geom sg assms(2) c(1) now] by simp
qed

text \<open>The parts of a fragment address.\<close>

lemma address:
  assumes "fs_geom fs" "b < fs_size fs"
  shows "dtog fs b < fs_ncg fs" "dtogd fs b div fs_frag fs < fs_fpg fs div fs_frag fs" "dtogd fs b mod fs_frag fs = b mod fs_frag fs"
    "b = dtog fs b * fs_fpg fs + (dtogd fs b div fs_frag fs * fs_frag fs + b mod fs_frag fs)"
proof -
  note g = fs_geomD(2,8,10,16) [OF assms(1)]
  have "b < fs_ncg fs * fs_fpg fs" using g(4) assms(2) by simp
  then show "dtog fs b < fs_ncg fs" using g(3) by (simp add: dtog_def div_less_iff_less_mult)
  obtain q where q: "fs_fpg fs = fs_frag fs * q" using g(2) by blast
  have "dtogd fs b < fs_frag fs * q" using g(3) q by (simp add: dtogd_def)
  then show "dtogd fs b div fs_frag fs < fs_fpg fs div fs_frag fs"
    using q g(1) by (simp add: div_less_iff_less_mult mult.commute)
  show m: "dtogd fs b mod fs_frag fs = b mod fs_frag fs" by (simp add: dtogd_def q mod_mod_cancel)
  show "b = dtog fs b * fs_fpg fs + (dtogd fs b div fs_frag fs * fs_frag fs + b mod fs_frag fs)"
    unfolding m [symmetric] by (simp add: dtog_def dtogd_def)
qed

text \<open>Giving back a whole block, and a part of one.\<close>

lemma free_block_step:
  assumes "ufs_ok s" "i < fs_ncg (u_fs s)" "h < fs_fpg (u_fs s) div fs_frag (u_fs s)"
    and used: "\<And>j. j < fs_frag (u_fs s) \<Longrightarrow> \<not> isset (cg_free (u_cg s i)) (h * fs_frag (u_fs s) + j)"
    and a': "\<And>j. isset a' j \<longleftrightarrow> isset (cg_free (u_cg s i)) j \<or> j div fs_frag (u_fs s) = h"
    and pos: "0 < i * fs_fpg (u_fs s) + h * fs_frag (u_fs s)" "i * fs_fpg (u_fs s) + h * fs_frag (u_fs s) + fs_frag (u_fs s) \<le> fs_size (u_fs s)"
    and s': "s' = (cgput s i (block_freed (u_fs s) ((u_cg s i)\<lparr>cg_time := t, cg_free := a'\<rparr>) (h * fs_frag (u_fs s))))
      \<lparr>u_fs := (fs_count (nbfree_add 1) i (u_fs s))\<lparr>fs_fmod := fm\<rparr>\<rparr>"
  shows "ufs_ok s' \<and> frame s s' \<and>
    free_set s' = free_set s \<union> {i * fs_fpg (u_fs s) + h * fs_frag (u_fs s)..<i * fs_fpg (u_fs s) + h * fs_frag (u_fs s) + fs_frag (u_fs s)}"
proof -
  let ?fs = "u_fs s" and ?frag = "fs_frag (u_fs s)" and ?cgp = "u_cg s i"
  let ?cgp' = "block_freed ?fs (?cgp\<lparr>cg_time := t, cg_free := a'\<rparr>) (h * ?frag)"
  note geom = ufs_okD(1) [OF assms(1)]
  note p = fs_geomD(2) [OF geom]
  have dv: "j div ?frag = h \<longleftrightarrow> h * ?frag + 0 \<le> j \<and> j < h * ?frag + (0 + ?frag)" for j
    using div_block_iff [OF p, of j h] by simp
  have now: "isset a' j \<longleftrightarrow> isset (cg_free ?cgp) j \<or> (h * ?frag + 0 \<le> j \<and> j < h * ?frag + (0 + ?frag))" for j
    unfolding a' dv ..
  have bl': "blk a' ?frag h = replicate ?frag True" and bl: "blk (cg_free ?cgp) ?frag h = replicate ?frag False"
    using used p by (auto intro!: nth_equalityI simp: now)
  have f: "full (replicate ?frag True)" by (simp add: full_def)
  have r: "runs_of x (replicate ?frag True) = 0" "runs_of x (replicate ?frag False) = 0" if "x < ?frag" for x
    using that runs_used [of ?frag "[]"] by (simp_all add: runs_of_def runs_replicate)
  have "cg_map_ok ?fs ((gain_block ?fs ?cgp (h * ?frag))\<lparr>cg_free := a', cg_cs := nbfree_add 1 (cg_cs ?cgp), cg_frsum := cg_frsum ?cgp\<rparr>)"
    by (rule release_ok [OF geom ufs_okD(6) [OF assms(1,2)] assms(3) _ p _ now])
      (use used f r in \<open>auto simp: bl bl' nbfree_add_def nffree_add_def\<close>)
  moreover have "?cgp' = ((gain_block ?fs ?cgp (h * ?frag))\<lparr>cg_free := a', cg_cs := nbfree_add 1 (cg_cs ?cgp), cg_frsum := cg_frsum ?cgp\<rparr>)\<lparr>cg_time := t\<rparr>"
    by (simp add: block_freed_def gain_block_def Let_def)
  ultimately have ok: "cg_map_ok ?fs ?cgp'" by (simp only: cg_map_ok_time)
  have cnt: "counted (nbfree_add 1) i ?fs ((fs_count (nbfree_add 1) i ?fs)\<lparr>fs_fmod := fm\<rparr>)" by (intro counted_fmod counted_count [OF geom])
  have "h * ?frag + ?frag \<le> fs_fpg ?fs" by (rule block_end [OF geom assms(3)])
  then show ?thesis unfolding s'
    using took_backI [OF assms(1,2) cnt adds_intros(3) ok, of "h * ?frag" ?frag] pos now
    by (simp add: block_freed_def nbfree_add_def Let_def)
qed

lemma free_frags_step:
  assumes "ufs_ok s" "i < fs_ncg (u_fs s)" "h < fs_fpg (u_fs s) div fs_frag (u_fs s)" "m + k \<le> fs_frag (u_fs s)" "0 < k"
    and used: "\<And>j. m \<le> j \<Longrightarrow> j < m + k \<Longrightarrow> \<not> isset (cg_free (u_cg s i)) (h * fs_frag (u_fs s) + j)"
    and a': "\<And>j. isset a' j \<longleftrightarrow> isset (cg_free (u_cg s i)) j \<or> (h * fs_frag (u_fs s) + m \<le> j \<and> j < h * fs_frag (u_fs s) + (m + k))"
    and pos: "0 < i * fs_fpg (u_fs s) + (h * fs_frag (u_fs s) + m)" "i * fs_fpg (u_fs s) + (h * fs_frag (u_fs s) + m) + k \<le> fs_size (u_fs s)"
    and fr: "\<And>x. 0 < x \<Longrightarrow> x < fs_frag (u_fs s) \<Longrightarrow> frsum x = cg_frsum (u_cg s i) x +
      (runs_of x (blk a' (fs_frag (u_fs s)) h) - runs_of x (blk (cg_free (u_cg s i)) (fs_frag (u_fs s)) h))"
    and b: "b = full (blk a' (fs_frag (u_fs s)) h)"
    and g: "g = (if b then (\<lambda>x. nbfree_add 1 (nffree_add (int k - int (fs_frag (u_fs s))) x)) else nffree_add (int k))"
    and c': "cgp' = (if b then gain_block (u_fs s) (u_cg s i) (h * fs_frag (u_fs s)) else u_cg s i)
      \<lparr>cg_free := a', cg_cs := g (cg_cs (u_cg s i)), cg_frsum := frsum\<rparr>"
    and cnt: "counted g i (u_fs s) fs'"
    and s': "s' = (cgput s i (cgp'\<lparr>cg_time := t\<rparr>))\<lparr>u_fs := fs'\<rparr>"
  shows "ufs_ok s' \<and> frame s s' \<and> free_set s' = free_set s \<union>
    {i * fs_fpg (u_fs s) + (h * fs_frag (u_fs s) + m)..<i * fs_fpg (u_fs s) + (h * fs_frag (u_fs s) + m) + k}"
proof -
  let ?fs = "u_fs s" and ?frag = "fs_frag (u_fs s)" and ?cgp = "u_cg s i"
  note geom = ufs_okD(1) [OF assms(1)]
  have cs: "g (cg_cs ?cgp) = (if full (blk a' ?frag h) then nbfree_add 1 (nffree_add (int k - int ?frag) (cg_cs ?cgp)) else nffree_add (int k) (cg_cs ?cgp))"
    by (simp add: g b)
  have "cg_map_ok ?fs cgp'"
    by (rule release_ok [OF geom ufs_okD(6) [OF assms(1,2)] assms(3,4,5) used a' fr cs c' [unfolded b]])
  then have ok: "cg_map_ok ?fs (cgp'\<lparr>cg_time := t\<rparr>)" by (simp only: cg_map_ok_time)
  have ad: "adds g" unfolding g using adds_intros(2) adds_comp [OF adds_intros(2,3)] by simp
  have nif: "cs_nifree (g x) = cs_nifree x" for x by (simp add: g nffree_add_def nbfree_add_def)
  have e: "h * ?frag + m + k \<le> fs_fpg ?fs" using block_end [OF geom assms(3)] assms(4) by simp
  show ?thesis unfolding s'
    by (rule took_backI [OF assms(1,2) cnt ad ok _ nif _ _ _ _ e pos]) (simp_all add: c' gain_block_def a' add.assoc)
qed

lemma ufs_free_gives_back:
  assumes "ufs_ok s" "0 < k" "k \<le> fs_frag (u_fs s)" "0 < b" "b + k \<le> fs_size (u_fs s)" "b mod fs_frag (u_fs s) + k \<le> fs_frag (u_fs s)"
    and "{b..<b + k} \<inter> free_set s = {}" "\<not> u_rderr s (dtog (u_fs s) b)"
  shows "\<exists>s'. ufs_free s b (k * fs_fsize (u_fs s)) = Some s' \<and> ufs_ok s' \<and> frame s s' \<and> free_set s' = free_set s \<union> {b..<b + k}"
proof -
  let ?fs = "u_fs s" and ?frag = "fs_frag (u_fs s)" and ?sz = "k * fs_fsize (u_fs s)"
  define i where "i = dtog ?fs b"
  define h where "h = dtogd ?fs b div ?frag"
  define m where "m = b mod ?frag"
  note geom = ufs_okD(1) [OF assms(1)]
  note fr = fs_geomD(1) [OF geom] and p = fs_geomD(2) [OF geom]
  have bl: "b < fs_size ?fs" using assms(2,5) by simp
  note ad = address [OF geom bl, folded i_def h_def m_def]
  have d: "dtogd ?fs b = h * ?frag + m" unfolding h_def ad(3) [symmetric] by simp
  have sz: "?sz \<le> fs_bsize ?fs" "fragoff ?fs ?sz = 0" "?sz = fs_bsize ?fs \<longleftrightarrow> k = ?frag" "numfrags ?fs ?sz = k"
    using assms(3) fs_size_k [OF geom assms(3)] by (simp_all add: fragoff_mod [OF geom] fs_geomD(5) [OF geom])
  let ?cgp = "u_cg s i"
  have mk: "m + k \<le> ?frag" using assms(6) by (simp add: m_def)
  have used: "\<not> isset (cg_free ?cgp) (h * ?frag + j)" if "m \<le> j" "j < m + k" for j
    using not_free_bits [OF geom ad(1,2) mk _ that] assms(7) ad(4) by simp
  have rd: "cgread s i = Some (Some ?cgp)" using cgread_ok [OF assms(1) ad(1)] assms(8) by (simp add: i_def)
  have iso: "isblock ?frag a h = Some (full (blk a ?frag h))" for a using isblock_blk [OF fr] by (simp add: full_def)
  have pos: "0 < i * fs_fpg ?fs + (h * ?frag + m)" "i * fs_fpg ?fs + (h * ?frag + m) + k \<le> fs_size ?fs" using ad(4) assms(4,5) by simp_all
  show ?thesis
  proof (cases "k = ?frag")
    case True
    then have m0: "m = 0" using mk by simp
    have "\<not> full (blk (cg_free ?cgp) ?frag h)" using used [of 0] p True m0 by (auto simp: full_blk intro: exI [of _ 0])
    moreover obtain a' where a': "setblock ?frag (cg_free ?cgp) h = Some a'" "\<And>j. isset a' j \<longleftrightarrow> isset (cg_free ?cgp) j \<or> j div ?frag = h"
      using setblock_isset [OF fr] by blast
    ultimately have "ufs_free s b ?sz = Some ((cgput s i (block_freed ?fs (?cgp\<lparr>cg_time := u_time s, cg_free := a'\<rparr>) (h * ?frag)))
        \<lparr>u_fs := (fs_count (nbfree_add 1) i ?fs)\<lparr>fs_fmod := fs_fmod ?fs + 1\<rparr>\<rparr>)"
      using sz True bl rd p unfolding ufs_free_def Let_def i_def [symmetric] d m0 by (simp add: iso)
    then show ?thesis
      using free_block_step [OF assms(1) ad(1,2) _ a'(2) _ _ refl] used pos ad(4) m0 True by simp
  next
    case False
    then have nsz: "?sz \<noteq> fs_bsize ?fs" using sz(3) by simp
    have bb: "h * ?frag + m - (h * ?frag + m) mod ?frag = h * ?frag" using mk assms(2) by simp
    have len: "length (blk a ?frag h) = ?frag" for a by simp
    note acct = fragacct_counts [OF holds_blkmap [OF fr], unfolded length_blk, OF fr, of _ h]
    have "\<not> isset (cg_free ?cgp) j" if "j \<in> set [h * ?frag + m..<h * ?frag + m + k]" for j
    proof -
      have "m \<le> j - h * ?frag" "j - h * ?frag < m + k" "h * ?frag + (j - h * ?frag) = j" using that by auto
      with used [of "j - h * ?frag"] show ?thesis by simp
    qed
    with setfrags_ok [of "[h * ?frag + m..<h * ?frag + m + k]" "cg_free ?cgp"] obtain a' where
      s': "setfrags (cg_free ?cgp) [h * ?frag + m..<h * ?frag + m + k] = Some a'"
      "\<And>j. isset a' j \<longleftrightarrow> isset (cg_free ?cgp) j \<or> j \<in> set [h * ?frag + m..<h * ?frag + m + k]" by auto
    have a': "setfrags (cg_free ?cgp) [h * ?frag + m..<h * ?frag + m + k] = Some a'"
      "\<And>j. isset a' j \<longleftrightarrow> isset (cg_free ?cgp) j \<or> (h * ?frag + m \<le> j \<and> j < h * ?frag + (m + k))"
      unfolding s' by (simp_all add: add.assoc)
    define full' where "full' = full (blk a' ?frag h)"
    define frsum where "frsum = (\<lambda>x. if 0 < x \<and> x < ?frag
      then (if 0 < x \<and> x < ?frag then cg_frsum ?cgp x + int (count_list (runs (blk (cg_free ?cgp) ?frag h)) x) * (- 1) else cg_frsum ?cgp x)
        + int (count_list (runs (blk a' ?frag h)) x) * 1
      else (if 0 < x \<and> x < ?frag then cg_frsum ?cgp x + int (count_list (runs (blk (cg_free ?cgp) ?frag h)) x) * (- 1) else cg_frsum ?cgp x))"
    define g where "g = (if full' then (\<lambda>x. nbfree_add 1 (nffree_add (int k - int ?frag) x)) else nffree_add (int k))"
    define fs1 where "fs1 = fs_count (nffree_add (int k)) i ?fs"
    define fs2 where "fs2 = (if full' then fs_count (nbfree_add 1) i (fs_count (nffree_add (- int ?frag)) i fs1) else fs1)"
    let ?c1 = "?cgp\<lparr>cg_time := u_time s, cg_free := a', cg_cs := nffree_add (int k) (cg_cs ?cgp), cg_frsum := frsum\<rparr>"
    let ?c2 = "if full' then block_freed ?fs (?c1\<lparr>cg_cs := nffree_add (- int ?frag) (cg_cs ?c1)\<rparr>) (h * ?frag) else ?c1"
    have sg1: "counted (nffree_add (int k)) i ?fs fs1" unfolding fs1_def by (rule counted_count [OF geom])
    then have sel1: "fs_frag fs1 = ?frag" "cbtocylno fs1 = cbtocylno ?fs" "cbtorpos fs1 = cbtorpos ?fs" "fs_geom fs1"
      using same_geom_sel [of ?fs fs1] geom by (simp_all add: counted_def)
    have "block_freed fs1 = block_freed ?fs" by (intro ext) (simp add: block_freed_def sel1)
    then have e1: "ufs_free s b ?sz = Some ((cgput s i ?c2)\<lparr>u_fs := fs2\<lparr>fs_fmod := fs_fmod fs2 + 1\<rparr>\<rparr>)"
      using sz(1,2,4) nsz bl rd p a'(1) acct unfolding ufs_free_def Let_def i_def [symmetric] d bb
      by (simp add: iso fs1_def [symmetric] sel1 full'_def [symmetric] fs2_def frsum_def [symmetric])
    have e2: "?c2 = ((if full' then gain_block ?fs ?cgp (h * ?frag) else ?cgp)
        \<lparr>cg_free := a', cg_cs := g (cg_cs ?cgp), cg_frsum := frsum\<rparr>)\<lparr>cg_time := u_time s\<rparr>"
      by (simp add: block_freed_def gain_block_def Let_def g_def nffree_add_add)
    have cnt: "counted g i ?fs (fs2\<lparr>fs_fmod := fs_fmod fs2 + 1\<rparr>)"
    proof (rule counted_fmod, cases full')
      case True
      have "counted (\<lambda>x. nbfree_add 1 (nffree_add (- int ?frag) (nffree_add (int k) x))) i ?fs fs2"
        unfolding fs2_def if_P [OF True]
        by (rule counted_comp [OF counted_comp [OF sg1 counted_count [OF sel1(4)]] counted_count]) (simp add: same_geom_sel(17) [OF same_geom_count] sel1(4))
      then show "counted g i ?fs fs2" by (simp add: g_def True nffree_add_add)
    qed (use sg1 in \<open>simp add: g_def fs2_def\<close>)
    have frx: "frsum x = cg_frsum ?cgp x + (runs_of x (blk a' ?frag h) - runs_of x (blk (cg_free ?cgp) ?frag h))"
      if "0 < x" "x < ?frag" for x using that by (simp add: frsum_def runs_of_def)
    note step = free_frags_step [OF assms(1) ad(1,2) mk assms(2) used a'(2) pos frx full'_def g_def refl cnt refl, of "u_time s"]
    show ?thesis unfolding e1 e2 using step ad(4) by simp
  qed
qed

text \<open>Freeing what is free is a panic, as far as the routine looks.\<close>

lemma ufs_free_panics:
  assumes "fs_geom (u_fs s)" "b < fs_size (u_fs s)" "0 < k" "k \<le> fs_frag (u_fs s)" "b mod fs_frag (u_fs s) + k \<le> fs_frag (u_fs s)"
    and "cgread s (dtog (u_fs s) b) = Some (Some cgp)"
    and "if k = fs_frag (u_fs s) then full (blk (cg_free cgp) (fs_frag (u_fs s)) (dtogd (u_fs s) b div fs_frag (u_fs s)))
      else \<exists>j < k. isset (cg_free cgp) (dtogd (u_fs s) b + j)"
  shows "ufs_free s b (k * fs_fsize (u_fs s)) = None"
proof -
  let ?fs = "u_fs s" and ?sz = "k * fs_fsize (u_fs s)"
  note fr = fs_geomD(1) [OF assms(1)]
  have sz: "?sz \<le> fs_bsize ?fs" "fragoff ?fs ?sz = 0" "?sz = fs_bsize ?fs \<longleftrightarrow> k = fs_frag ?fs" "numfrags ?fs ?sz = k"
    using assms(4) fs_size_k [OF assms(1,4)] by (simp_all add: fragoff_mod [OF assms(1)] fs_geomD(5) [OF assms(1)])
  have iso: "isblock (fs_frag ?fs) a h = Some (full (blk a (fs_frag ?fs) h))" for a h using isblock_blk [OF fr] by (simp add: full_def)
  show ?thesis
  proof (cases "k = fs_frag ?fs")
    case True
    then show ?thesis using sz assms(2,6,7) unfolding ufs_free_def Let_def by (simp add: iso)
  next
    case False
    then have nsz: "?sz \<noteq> fs_bsize ?fs" using sz(3) by simp
    have "\<exists>i \<in> set [dtogd ?fs b..<dtogd ?fs b + k]. isset (cg_free cgp) i"
    proof -
      obtain j where "j < k" "isset (cg_free cgp) (dtogd ?fs b + j)" using assms(7) False by auto
      then show ?thesis by (intro bexI [of _ "dtogd ?fs b + j"]) simp_all
    qed
    from setfrags_panic [OF this] show ?thesis using sz(1,2,4) nsz assms(2,6) unfolding ufs_free_def Let_def by (simp add: bind_eq_None_conv)
  qed
qed

section \<open>\<open>fragextend\<close>\<close>

text \<open>
  The test against crossing a block boundary masks the address with \<open>fs_fmask\<close>, as if it were an offset in
  bytes; when it lets an address pass, the address is one whose remainder is the same for both masks.
\<close>

lemma frag_fits:
  assumes "fs_geom fs" "0 < k" "k \<le> fs_frag fs" "fragoff fs b \<le> (b + k - 1) mod fs_frag fs"
  shows "fragoff fs b = b mod fs_frag fs" "b mod fs_frag fs + k \<le> fs_frag fs"
proof -
  note p = fs_geomD(2) [OF assms(1)]
  have "fragoff fs b < fs_frag fs" using assms(4) mod_less_divisor [OF p] le_less_trans by blast
  moreover have "fragoff fs b mod fs_frag fs = b mod fs_frag fs"
    by (simp add: fragoff_mod [OF assms(1)] mod_mod_cancel [OF fs_geomD(7) [OF assms(1)]])
  ultimately show e: "fragoff fs b = b mod fs_frag fs" by simp
  show "b mod fs_frag fs + k \<le> fs_frag fs"
  proof (rule ccontr)
    assume a: "\<not> b mod fs_frag fs + k \<le> fs_frag fs"
    have "(b + k - 1) mod fs_frag fs = (b mod fs_frag fs + (k - 1)) mod fs_frag fs"
    proof -
      have "b + k - 1 = b + (k - 1)" using assms(2) by simp
      then show ?thesis by (simp only: mod_add_left_eq)
    qed
    also have "\<dots> = b mod fs_frag fs + (k - 1) - fs_frag fs"
      using a assms(3) mod_less_divisor [OF p, of b] by (subst mod_if) (simp add: mod_less le_mod_geq)
    also have "\<dots> < b mod fs_frag fs" using assms(2,3) a p by linarith
    finally show False using assms(4) e by simp
  qed
qed

lemma fragextend_outcome:
  assumes "ufs_ok s" "0 < ok" "ok < nk" "nk \<le> fs_frag (u_fs s)" "0 < b" "b < fs_size (u_fs s)"
    and "{b..<b + ok} \<inter> free_set s = {}"
  shows "\<exists>r s'. fragextend s (dtog (u_fs s) b) b (ok * fs_fsize (u_fs s)) (nk * fs_fsize (u_fs s)) = Some (r, s') \<and>
    (if r = 0 then no_change s s' else r = b \<and> gave (nk - ok) s (b + ok) s' \<and> b mod fs_frag (u_fs s) + nk \<le> fs_frag (u_fs s))"
proof -
  let ?fs = "u_fs s" and ?frag = "fs_frag (u_fs s)"
  define i where "i = dtog ?fs b"
  define h where "h = dtogd ?fs b div ?frag"
  define m where "m = b mod ?frag"
  let ?cgp = "u_cg s i"
  note geom = ufs_okD(1) [OF assms(1)]
  note p = fs_geomD(2) [OF geom] and ad = address [OF geom assms(6), folded i_def h_def m_def]
  have d: "dtogd ?fs b = h * ?frag + m" unfolding h_def ad(3) [symmetric] by simp
  have nf: "numfrags ?fs (ok * fs_fsize ?fs) = ok" "numfrags ?fs (nk * fs_fsize ?fs) = nk"
    using assms(3,4) by (simp_all add: fs_size_k(1) [OF geom])
  consider (few) "cs_nffree (fs_cs ?fs i) < int (nk * fs_fsize ?fs) - int (ok * fs_fsize ?fs) \<or> fragoff ?fs b > (b + nk - 1) mod ?frag"
    | (err) "u_rderr s i" "\<not> cs_nffree (fs_cs ?fs i) < int (nk * fs_fsize ?fs) - int (ok * fs_fsize ?fs)" "\<not> fragoff ?fs b > (b + nk - 1) mod ?frag"
    | (go) "\<not> u_rderr s i" "\<not> cs_nffree (fs_cs ?fs i) < int (nk * fs_fsize ?fs) - int (ok * fs_fsize ?fs)" "\<not> fragoff ?fs b > (b + nk - 1) mod ?frag"
    by blast
  then show ?thesis
  proof cases
    case few
    then have "fragextend s i b (ok * fs_fsize ?fs) (nk * fs_fsize ?fs) = Some (0, s)" unfolding fragextend_def Let_def nf by auto
    then show ?thesis using no_change_refl [OF assms(1)] by (simp add: i_def)
  next
    case err
    then have "fragextend s i b (ok * fs_fsize ?fs) (nk * fs_fsize ?fs) = Some (0, s)"
      unfolding fragextend_def Let_def nf by (simp add: cgread_ok [OF assms(1) ad(1)])
    then show ?thesis using no_change_refl [OF assms(1)] by (simp add: i_def)
  next
    case go
    have fit: "fragoff ?fs b = m" "m + nk \<le> ?frag" using frag_fits [OF geom _ assms(4), of b] go(3) assms(3) by (simp_all add: m_def)
    let ?B = "h * ?frag + m" and ?bl = "blk (cg_free ?cgp) ?frag h"
    have rd: "cgread s i = Some (Some ?cgp)" using cgread_ok [OF assms(1) ad(1)] go(1) by simp
    show ?thesis
    proof (cases "\<exists>j \<in> set [ok..<nk]. isclr (cg_free ?cgp) (?B + j)")
      case True
      then have "fragextend s i b (ok * fs_fsize ?fs) (nk * fs_fsize ?fs) = Some (0, cgput s i (?cgp\<lparr>cg_time := u_time s\<rparr>))"
        using go rd unfolding fragextend_def Let_def nf d by simp
      then show ?thesis using no_change_time [OF assms(1) ad(1)] by (simp add: i_def)
    next
      case False
      then have free: "isset (cg_free ?cgp) (?B + j)" if "ok \<le> j" "j < nk" for j using that by (auto simp: isclr_isset)
      define e where "e = (case find (\<lambda>j. isclr (cg_free ?cgp) (?B + j)) [nk..<?frag - m] of Some j \<Rightarrow> j | None \<Rightarrow> max nk (?frag - m))"
      have e: "nk \<le> e" "m + e \<le> ?frag" "\<And>j. nk \<le> j \<Longrightarrow> j < e \<Longrightarrow> isset (cg_free ?cgp) (?B + j)"
        "m + e = ?frag \<or> \<not> isset (cg_free ?cgp) (?B + e)"
      proof -
        show "nk \<le> e" "m + e \<le> ?frag" "m + e = ?frag \<or> \<not> isset (cg_free ?cgp) (?B + e)"
          using fit(2) by (auto simp: e_def find_Some_iff isclr_isset split: option.splits)
        show "isset (cg_free ?cgp) (?B + j)" if "nk \<le> j" "j < e" for j
        proof (cases "find (\<lambda>j. isclr (cg_free ?cgp) (?B + j)) [nk..<?frag - m]")
          case None
          then have "e = ?frag - m" using fit(2) by (simp add: e_def)
          then show ?thesis using that None by (simp add: find_None_iff isclr_isset)
        next
          case (Some x)
          then obtain n where "n < ?frag - m - nk" "x = nk + n" "\<forall>l < n. isset (cg_free ?cgp) (?B + (nk + l))"
            by (auto simp: find_Some_iff isclr_isset)
          moreover from Some have "e = x" by (simp add: e_def)
          moreover have "j - nk < n" "nk + (j - nk) = j" using that calculation by auto
          ultimately show ?thesis by metis
        qed
      qed
      have used: "\<not> isset (cg_free ?cgp) (h * ?frag + (m + (ok - 1)))"
        using not_free_bits [OF geom ad(1,2), of m ok "m + (ok - 1)"] assms(2,3,7) fit(2) ad(4) by simp
      have run: "maxrun ?bl (m + ok) (e - ok)"
      proof -
        have "?bl ! (m + ok + j)" if "j < e - ok" for j
          using that e(2) free [of "ok + j"] e(3) [of "ok + j"] by (cases "ok + j < nk") (auto simp: add.assoc)
        moreover have "\<not> ?bl ! (m + ok - 1)" using used assms(2) e(1,2) assms(3) by simp
        moreover have "m + e = ?frag \<or> \<not> ?bl ! (m + e)" using e(2,4) by (auto simp: add.assoc)
        ultimately show ?thesis using e(1,2) assms(3) by (simp add: maxrun_def)
      qed
      let ?fr = "(cg_frsum ?cgp)(e - ok := cg_frsum ?cgp (e - ok) - 1)"
      let ?fr2 = "if e \<noteq> nk then ?fr(e - nk := ?fr (e - nk) + 1) else ?fr"
      let ?a = "fold (\<lambda>j a. clrbit a (?B + j)) [ok..<nk] (cg_free ?cgp)"
      let ?dec = "nffree_add (- int (nk - ok))"
      let ?s' = "(cgput s i (?cgp\<lparr>cg_time := u_time s, cg_frsum := ?fr2, cg_free := ?a, cg_cs := ?dec (cg_cs ?cgp)\<rparr>))
        \<lparr>u_fs := (fs_count ?dec i ?fs)\<lparr>fs_fmod := fs_fmod ?fs + 1\<rparr>\<rparr>"
      have sel: "cg_free (?cgp\<lparr>cg_time := u_time s\<rparr>) = cg_free ?cgp" "cg_frsum (?cgp\<lparr>cg_time := u_time s\<rparr>) = cg_frsum ?cgp"
        "cg_cs (?cgp\<lparr>cg_time := u_time s\<rparr>) = cg_cs ?cgp" by simp_all
      have r: "fragextend s i b (ok * fs_fsize ?fs) (nk * fs_fsize ?fs) = Some (b, ?s')"
        unfolding fragextend_def Let_def nf d fit(1) rd if_not_P [OF go(2)] if_not_P [OF go(3) [unfolded fit(1)]]
          Option.bind.simps option.case sel if_not_P [OF False] e_def [symmetric] ..
      have L: "nk - ok \<le> e - ok" "e - ok < ?frag" "0 < nk - ok" using e(1,2) assms(2,3) by auto
      have a: "isset ?a j \<longleftrightarrow> isset (cg_free ?cgp) j \<and> \<not> (h * ?frag + (m + ok) \<le> j \<and> j < h * ?frag + (m + ok + (nk - ok)))" for j
        unfolding bm.test_lower_range using assms(3) by (simp add: add.assoc)
      have f: "cg_frotor ?cgp < fs_fpg ?fs" using ufs_okD(6) [OF assms(1) ad(1)] by (simp add: cg_map_ok_def)
      have c: "?cgp\<lparr>cg_time := u_time s, cg_frsum := ?fr2, cg_free := ?a, cg_cs := ?dec (cg_cs ?cgp)\<rparr> =
        ?cgp\<lparr>cg_time := u_time s, cg_frotor := cg_frotor ?cgp, cg_free := ?a, cg_cs := ?dec (cg_cs ?cgp), cg_frsum := ?fr2\<rparr>"
        by simp
      have fr2: "?fr2 = (if nk - ok \<noteq> e - ok then ?fr(e - ok - (nk - ok) := ?fr (e - ok - (nk - ok)) + 1) else ?fr)"
        using assms(3) e(1) by auto
      have "attempt (nk - ok) i s (Some (i * fs_fpg ?fs + (h * ?frag + (m + ok)), ?s'))"
        by (rule attempt_run [OF assms(1) ad(1,2) L(3,1,2) run a f refl fr2 refl c])
      moreover have "i * fs_fpg ?fs + (h * ?frag + (m + ok)) = b + ok" using ad(4) by simp
      ultimately have "gave (nk - ok) s (b + ok) ?s'" using assms(2) by (simp add: attempt_def)
      then show ?thesis using r fit(2) assms(5) by (simp add: i_def m_def)
    qed
  qed
qed

section \<open>\<open>realloccg\<close>\<close>

lemma data_of_write:
  fixes n j k sz a :: nat
  assumes "0 < sz" "n * sz + j * sz \<le> a" "a < n * sz + k * sz"
  shows "a div sz \<in> {n + j..<n + k}"
proof -
  have "(n + j) * sz \<le> a" "a < (n + k) * sz" using assms(2,3) by (simp_all add: distrib_right)
  then show ?thesis using assms(1) by (simp add: less_eq_div_iff_mult_less_eq div_less_iff_less_mult)
qed

lemma copydata_sel [simp]:
  "ufs_ok (copydata s b n z) = ufs_ok s" "free_set (copydata s b n z) = free_set s" "u_fs (copydata s b n z) = u_fs s"
  by (simp_all add: copydata_def Let_def ufs_ok_data mem_free_set set_eq_iff)

lemma data_env [simp]:
  "u_rderr (clrdata s b m n) = u_rderr s" "u_rderr (copydata s b n z) = u_rderr s"
  "u_drderr (clrdata s b m n) = u_drderr s" "u_drderr (copydata s b n z) = u_drderr s"
  "u_error (clrdata s b m n) = u_error s" "u_error (copydata s b n z) = u_error s"
  by (simp_all add: clrdata_def copydata_def Let_def)

text \<open>The new place of the fragment holds what the old one held, then zeros, and nothing else moved.\<close>

definition moved :: "ufs \<Rightarrow> nat \<Rightarrow> nat \<Rightarrow> nat \<Rightarrow> nat \<Rightarrow> ufs \<Rightarrow> bool" where
  "moved s b ok nk n s' \<longleftrightarrow> (let sz = fs_fsize (u_fs s) in
     0 < n \<and> n mod fs_frag (u_fs s) + nk \<le> fs_frag (u_fs s) \<and>
     free_set s' \<union> {n..<n + nk} = free_set s \<union> {b..<b + ok} \<and> free_set s' \<inter> {n..<n + nk} = {} \<and>
     (\<forall>a < ok * sz. u_data s' (n * sz + a) = u_data s (b * sz + a)) \<and>
     (\<forall>a \<in> {ok * sz..<nk * sz}. u_data s' (n * sz + a) = 0) \<and>
     (\<forall>a. a div sz \<notin> free_set s \<union> {b..<b + ok} \<longrightarrow> u_data s' a = u_data s a))"

lemma moved_in_place:
  assumes "gave (nk - ok) s (b + ok) t" "ok < nk" "{b..<b + ok} \<inter> free_set s = {}" "0 < fs_fsize (u_fs s)"
    and "0 < b" "b mod fs_frag (u_fs s) + nk \<le> fs_frag (u_fs s)"
  shows "moved s b ok nk b (clrdata t b (ok * fs_fsize (u_fs s)) (nk * fs_fsize (u_fs s)))"
proof -
  let ?sz = "fs_fsize (u_fs s)"
  have g: "{b + ok..<b + nk} \<subseteq> free_set s" "free_set t = free_set s - {b + ok..<b + nk}" "frame s t"
    using assms(1,2) by (simp_all add: gave_def)
  have t: "fs_fsize (u_fs t) = ?sz" "u_data t = u_data s"
    using g(3) frame_sel [OF g(3)] by (simp_all add: frame_def same_geom_sel)
  have c: "u_data (clrdata t b (ok * ?sz) (nk * ?sz)) a = (if b * ?sz + ok * ?sz \<le> a \<and> a < b * ?sz + nk * ?sz then 0 else u_data s a)" for a
    by (simp add: clrdata_def t)
  have "{b..<b + nk} = {b..<b + ok} \<union> {b + ok..<b + nk}" using assms(2) by auto
  then have 1: "free_set t \<union> {b..<b + nk} = free_set s \<union> {b..<b + ok}" "free_set t \<inter> {b..<b + nk} = {}"
    using g(1,2) assms(3) by auto
  have "u_data (clrdata t b (ok * ?sz) (nk * ?sz)) a = u_data s a" if "a div ?sz \<notin> free_set s" for a
  proof -
    have "\<not> (b * ?sz + ok * ?sz \<le> a \<and> a < b * ?sz + nk * ?sz)" using data_of_write [OF assms(4), of b ok a nk] that g(1) by blast
    then show ?thesis unfolding c by (rule if_not_P)
  qed
  then show ?thesis unfolding moved_def Let_def using 1 assms(5,6) by (simp add: c)
qed

lemma moved_away:
  assumes "gave nk s n t" "ok < nk" "{b..<b + ok} \<inter> free_set s = {}" "0 < fs_fsize (u_fs s)" "0 < n"
    and u: "u = clrdata (copydata t b n (ok * fs_fsize (u_fs s))) n (ok * fs_fsize (u_fs s)) (nk * fs_fsize (u_fs s))"
    and s': "frame u s'" "free_set s' = free_set u \<union> {b..<b + ok}"
  shows "moved s b ok nk n s'"
proof -
  let ?sz = "fs_fsize (u_fs s)"
  have g: "{n..<n + nk} \<subseteq> free_set s" "free_set t = free_set s - {n..<n + nk}" "frame s t"
    using assms(1) by (simp_all add: gave_def)
  have t: "fs_fsize (u_fs t) = ?sz" "u_data t = u_data s" using g(3) frame_sel [OF g(3)] by (simp_all add: frame_def same_geom_sel)
  have "free_set s' = free_set s - {n..<n + nk} \<union> {b..<b + ok}" by (simp add: s'(2) u g(2))
  then have 1: "free_set s' \<union> {n..<n + nk} = free_set s \<union> {b..<b + ok}" "free_set s' \<inter> {n..<n + nk} = {}"
    using g(1) assms(3) by auto
  have lt: "ok * ?sz < nk * ?sz" using assms(2,4) by simp
  have d: "u_data s' a = (if n * ?sz + ok * ?sz \<le> a \<and> a < n * ?sz + nk * ?sz then 0
      else if n * ?sz \<le> a \<and> a < n * ?sz + ok * ?sz then u_data s (b * ?sz + (a - n * ?sz)) else u_data s a)" for a
    using frame_sel(1) [OF s'(1)] by (simp add: u clrdata_def copydata_def Let_def t)
  have "u_data s' a = u_data s a" if "a div ?sz \<notin> free_set s" for a
  proof -
    have "\<not> (n * ?sz \<le> a \<and> a < n * ?sz + nk * ?sz)" using data_of_write [OF assms(4), of n 0 a nk] that g(1) by auto
    then have x: "\<not> (n * ?sz + ok * ?sz \<le> a \<and> a < n * ?sz + nk * ?sz)" "\<not> (n * ?sz \<le> a \<and> a < n * ?sz + ok * ?sz)"
      using lt by linarith+
    show ?thesis unfolding d if_not_P [OF x(1)] if_not_P [OF x(2)] ..
  qed
  then show ?thesis unfolding moved_def Let_def using 1 lt assms(1,5) by (simp add: d gave_def)
qed

lemma realloccg_outcome:
  assumes "ufs_ok s" "0 < ok" "ok < nk" "nk \<le> fs_frag (u_fs s)" "0 < b" "b + ok \<le> fs_size (u_fs s)" "b mod fs_frag (u_fs s) + ok \<le> fs_frag (u_fs s)"
    and "{b..<b + ok} \<inter> free_set s = {}" "\<not> u_rderr s (dtog (u_fs s) b)" "\<not> u_drderr s b"
  shows "\<exists>r s'. realloccg s b bpref (ok * fs_fsize (u_fs s)) (nk * fs_fsize (u_fs s)) = Some (r, s') \<and> ufs_ok s' \<and> same_geom (u_fs s) (u_fs s') \<and>
    (case r of Some n \<Rightarrow> moved s b ok nk n s'
     | None \<Rightarrow> free_set s' = free_set s \<and> u_data s' = u_data s \<and> u_error s' = ENOSPC)"
proof -
  let ?fs = "u_fs s" and ?osz = "ok * fs_fsize (u_fs s)" and ?nsz = "nk * fs_fsize (u_fs s)"
  note geom = ufs_okD(1) [OF assms(1)] and szp = fs_geomD(17) [OF ufs_okD(1) [OF assms(1)]]
  have b: "b < fs_size ?fs" using assms(2,6) by simp
  have sz: "?osz \<le> fs_bsize ?fs" "fragoff ?fs ?osz = 0" "?nsz \<le> fs_bsize ?fs" "fragoff ?fs ?nsz = 0"
    using assms(3,4) by (simp_all add: fragoff_mod [OF geom] fs_geomD(5) [OF geom])
  note cg = address(1) [OF geom b]
  show ?thesis
  proof (cases "minfree_left s")
    case True
    then have "realloccg s b bpref ?osz ?nsz = Some (None, s\<lparr>u_error := ENOSPC\<rparr>)" using sz by (simp add: realloccg_def nospace_def Let_def)
    then show ?thesis using assms(1) by (simp add: ufs_ok_data mem_free_set set_eq_iff same_geom_refl)
  next
    case False
    obtain r t where e: "fragextend s (dtog ?fs b) b ?osz ?nsz = Some (r, t)"
      "if r = 0 then no_change s t else r = b \<and> gave (nk - ok) s (b + ok) t \<and> b mod fs_frag ?fs + nk \<le> fs_frag ?fs"
      using fragextend_outcome [OF assms(1-5) b assms(8)] by blast
    show ?thesis
    proof (cases "r = 0")
      case False
      then have g: "r = b" "gave (nk - ok) s (b + ok) t" "b mod fs_frag ?fs + nk \<le> fs_frag ?fs" using e(2) by auto
      then have fr: "frame s t" "ufs_ok t" by (simp_all add: gave_def)
      have "realloccg s b bpref ?osz ?nsz = Some (Some b, clrdata t b ?osz ?nsz)"
        using sz \<open>\<not> minfree_left s\<close> assms(5,10) e(1) g(1) frame_sel(3) [OF fr(1)] by (simp add: realloccg_def Let_def)
      then show ?thesis using moved_in_place [OF g(2) assms(3,8) szp assms(5) g(3)] fr by (simp add: frame_def)
    next
      case r0: True
      then have nc: "no_change s t" using e(2) by simp
      then have t: "ufs_ok t" "u_fs t = ?fs" "frame s t" by (simp_all add: no_change_def)
      define bp where "bp = (if fs_size ?fs \<le> bpref then 0 else bpref)"
      have inv: "block_inv (fs_ncg ?fs) nk ?nsz t" using t assms(2-4) by (simp add: block_inv_def)
      from blocks.hashalloc_result [OF inv cg, of bp] obtain n v where
        h: "hashalloc (\<lambda>cg pref s. alloccg s cg pref ?nsz) (fs_ncg ?fs) (dtog ?fs b) bp t = Some (n, v)"
        "if n = 0 then no_change t v \<and> (\<forall>i < fs_ncg ?fs. \<not> (\<not> u_rderr t i \<and> space t i nk)) else gave nk t n v" by blast
      note run = sz \<open>\<not> minfree_left s\<close> assms(5) e(1) r0 h(1) bp_def
      show ?thesis
      proof (cases "n = 0")
        case True
        then have nv: "no_change s v" using h(2) no_change_trans [OF nc] by simp
        have "realloccg s b bpref ?osz ?nsz = Some (None, v\<lparr>u_error := ENOSPC\<rparr>)"
          using run True by (simp add: realloccg_def nospace_def Let_def)
        then show ?thesis using nv no_change_free_set [OF nv] frame_sel(1) [of s v]
          by (simp add: no_change_def ufs_ok_data mem_free_set set_eq_iff same_geom_refl)
      next
        case False
        then have gv: "gave nk s n v" using h(2) no_change_gave [OF nc] by simp
        then have v: "frame s v" "ufs_ok v" "free_set v = free_set s - {n..<n + nk}" by (simp_all add: gave_def)
        have vs: "fs_frag (u_fs v) = fs_frag ?fs" "fs_size (u_fs v) = fs_size ?fs" "fs_fsize (u_fs v) = fs_fsize ?fs" "dtog (u_fs v) = dtog ?fs"
          using v(1) by (simp_all add: frame_def same_geom_sel)
        define u where "u = clrdata (copydata v b n ?osz) n ?osz ?nsz"
        have "{b..<b + ok} \<inter> free_set u = {}" using assms(8) v(3) by (auto simp: u_def)
        then obtain s' where s': "ufs_free u b (ok * fs_fsize (u_fs u)) = Some s'" "ufs_ok s'" "frame u s'" "free_set s' = free_set u \<union> {b..<b + ok}"
          using ufs_free_gives_back [of u ok b] v(2) assms(2-7,9) frame_sel(2) [OF v(1)] by (auto simp: u_def vs)
        have "realloccg s b bpref ?osz ?nsz = Some (Some n, s')"
          using run False assms(10) frame_sel(3) [OF v(1)] s'(1) by (simp add: realloccg_def Let_def u_def vs)
        moreover have "same_geom ?fs (u_fs s')" using v(1) s'(3) same_geom_trans by (auto simp: frame_def u_def)
        ultimately show ?thesis using moved_away [OF gv assms(3,8) szp _ u_def s'(3,4)] s'(2) False by simp
      qed
    qed
  qed
qed

lemma free_set_below:
  assumes "ufs_ok s" "b \<in> free_set s"
  shows "b < fs_size (u_fs s)"
proof -
  let ?fs = "u_fs s"
  have b: "b < fs_ncg ?fs * fs_fpg ?fs" "isset (cg_free (u_cg s (dtog ?fs b))) (dtogd ?fs b)" using assms(2) by (simp_all add: mem_free_set)
  then have "dtog ?fs b < fs_ncg ?fs" using fs_geomD(10) [OF ufs_okD(1) [OF assms(1)]] by (simp add: dtog_def div_less_iff_less_mult)
  from ufs_okD(4) [OF assms(1) this] b(2) have "dtog ?fs b * fs_fpg ?fs + dtogd ?fs b < fs_size ?fs" by (simp add: cg_ok_def)
  then show ?thesis by (simp add: dtog_def dtogd_def)
qed

text \<open>What \<open>alloc\<close> hands out \<open>free\<close> takes back.\<close>

lemma free_undoes_alloc:
  assumes "ufs_ok s" "0 < k" "k \<le> fs_frag (u_fs s)" "inumber < fs_ncg (u_fs s) * fs_ipg (u_fs s)"
    and "alloc s inumber bpref (k * fs_fsize (u_fs s)) = Some (Some b, t)" "\<not> u_rderr s (dtog (u_fs s) b)"
  shows "\<exists>s'. ufs_free t b (k * fs_fsize (u_fs s)) = Some s' \<and> ufs_ok s' \<and> free_set s' = free_set s"
proof -
  from alloc_outcome [OF assms(1-4), of bpref] assms(5) obtain v where
    g: "gave k s b v" "t = clrdata v b 0 (k * fs_fsize (u_fs s))" "b \<noteq> 0" by auto
  then have v: "ufs_ok v" "frame s v" "{b..<b + k} \<subseteq> free_set s" "free_set v = free_set s - {b..<b + k}" "b mod fs_frag (u_fs s) + k \<le> fs_frag (u_fs s)"
    by (simp_all add: gave_def)
  have vs: "fs_frag (u_fs v) = fs_frag (u_fs s)" "fs_size (u_fs v) = fs_size (u_fs s)" "fs_fsize (u_fs v) = fs_fsize (u_fs s)"
    "dtog (u_fs v) = dtog (u_fs s)" using v(2) by (simp_all add: frame_def same_geom_sel)
  have "b + k - 1 \<in> free_set s" using v(3) assms(2) by auto
  then have "b + k - 1 < fs_size (u_fs s)" by (rule free_set_below [OF assms(1)])
  then have "\<exists>s'. ufs_free t b (k * fs_fsize (u_fs t)) = Some s' \<and> ufs_ok s' \<and> frame t s' \<and> free_set s' = free_set t \<union> {b..<b + k}"
    using assms(2,3,6) v g(2,3) vs frame_sel(2) [OF v(2)] by (intro ufs_free_gives_back) auto
  moreover have "free_set t \<union> {b..<b + k} = free_set s" using v(3,4) g(2) by auto
  ultimately show ?thesis using g(2) vs by auto
qed

section \<open>When \<open>free\<close> panics, and when it should\<close>

lemma mem_free_block:
  assumes "fs_geom (u_fs s)" "i < fs_ncg (u_fs s)" "h < fs_fpg (u_fs s) div fs_frag (u_fs s)" "j < fs_frag (u_fs s)"
  shows "i * fs_fpg (u_fs s) + (h * fs_frag (u_fs s) + j) \<in> free_set s \<longleftrightarrow> isset (cg_free (u_cg s i)) (h * fs_frag (u_fs s) + j)"
proof -
  let ?j = "h * fs_frag (u_fs s) + j" and ?p = "fs_fpg (u_fs s)"
  have l: "?j < ?p" using block_end [OF assms(1,3)] assms(4) by simp
  then have "(i * ?p + ?j) div ?p = i \<and> (i * ?p + ?j) mod ?p = ?j" using group_index by blast
  then show ?thesis using group_below [OF assms(2) l] by (simp add: mem_free_set dtog_def dtogd_def)
qed

lemma meets_range: "{b..<b + k} \<inter> A \<noteq> {} \<longleftrightarrow> (\<exists>j < k. b + j \<in> A)" for b k :: nat
proof
  assume "{b..<b + k} \<inter> A \<noteq> {}"
  then obtain x where "b \<le> x" "x < b + k" "x \<in> A" by auto
  then have "x - b < k \<and> b + (x - b) \<in> A" by auto
  then show "\<exists>j < k. b + j \<in> A" by blast
next
  assume "\<exists>j < k. b + j \<in> A"
  then obtain j where "b + j \<in> {b..<b + k}" "b + j \<in> A" by auto
  then show "{b..<b + k} \<inter> A \<noteq> {}" by blast
qed

lemma covers_range: "{b..<b + k} \<subseteq> A \<longleftrightarrow> (\<forall>j < k. b + j \<in> A)" for b k :: nat
proof
  assume a: "\<forall>j < k. b + j \<in> A"
  show "{b..<b + k} \<subseteq> A"
  proof
    fix x assume "x \<in> {b..<b + k}"
    then have "x - b < k" "b + (x - b) = x" by auto
    then show "x \<in> A" using a by metis
  qed
qed auto

lemma some_free: "j < length bl \<Longrightarrow> bl ! j \<Longrightarrow> filter id bl \<noteq> []"
  using nth_mem [of j bl] by (auto simp: filter_empty_conv)

text \<open>A whole block of which only some fragments are free passes the test, and its free fragments are then counted twice.\<close>

lemma free_partial_block:
  assumes "ufs_ok s" "i < fs_ncg (u_fs s)" "h < fs_fpg (u_fs s) div fs_frag (u_fs s)" "b = i * fs_fpg (u_fs s) + h * fs_frag (u_fs s)"
    and "b < fs_size (u_fs s)" "\<not> u_rderr s i"
    and part: "j < fs_frag (u_fs s)" "isset (cg_free (u_cg s i)) (h * fs_frag (u_fs s) + j)" "\<not> full (blk (cg_free (u_cg s i)) (fs_frag (u_fs s)) h)"
  shows "\<exists>s'. ufs_free s b (fs_bsize (u_fs s)) = Some s' \<and> \<not> ufs_ok s'"
proof -
  let ?fs = "u_fs s" and ?frag = "fs_frag (u_fs s)" and ?cgp = "u_cg s i"
  note geom = ufs_okD(1) [OF assms(1)]
  note fr = fs_geomD(1) [OF geom] and p = fs_geomD(2) [OF geom]
  have hb: "h * ?frag < fs_fpg ?fs" using block_end [OF geom assms(3)] p by simp
  then have d: "dtog ?fs b = i" "dtogd ?fs b = h * ?frag"
    using group_index [OF hb, of b i] assms(4) by (simp_all add: dtog_def dtogd_def)
  obtain a' where a': "setblock ?frag (cg_free ?cgp) h = Some a'" "\<And>j. isset a' j \<longleftrightarrow> isset (cg_free ?cgp) j \<or> j div ?frag = h"
    using setblock_isset [OF fr] by blast
  have iso: "isblock ?frag (cg_free ?cgp) h = Some False" using isblock_blk [OF fr] part(3) by (simp add: full_def)
  define s' where "s' = (cgput s i (block_freed ?fs (?cgp\<lparr>cg_time := u_time s, cg_free := a'\<rparr>) (h * ?frag)))
        \<lparr>u_fs := (fs_count (nbfree_add 1) i ?fs)\<lparr>fs_fmod := fs_fmod ?fs + 1\<rparr>\<rparr>"
  have run: "ufs_free s b (fs_bsize ?fs) = Some s'"
    using assms(5,6) a'(1) p unfolding ufs_free_def Let_def d cgread_ok [OF assms(1,2)] s'_def
    by (simp add: iso fragoff_mod [OF geom] fs_geomD(5) [OF geom])
  have "\<not> ufs_ok s'"
  proof
    assume ok: "ufs_ok s'"
    have sg: "same_geom ?fs (u_fs s')" unfolding s'_def using same_geom_trans [OF same_geom_count same_geom_fmod] by simp
    have i': "i < fs_ncg (u_fs s')" using assms(2) by (simp add: same_geom_sel [OF sg])
    have new: "u_cg s' i = block_freed ?fs (?cgp\<lparr>cg_time := u_time s, cg_free := a'\<rparr>) (h * ?frag)" by (simp add: s'_def cgput_def)
    have "cs_nffree (cg_cs (u_cg s' i)) = tally (u_fs s') (\<lambda>_. free_frags) (cg_free (u_cg s' i))"
      using ufs_okD(6) [OF ok i'] by (simp add: cg_map_ok_def cg_counts_def)
    then have "cs_nffree (cg_cs ?cgp) = tally ?fs (\<lambda>_. free_frags) a'"
      unfolding new by (simp add: block_freed_def Let_def nbfree_add_def tally_def same_geom_sel [OF sg])
    moreover have "tally ?fs (\<lambda>_. free_frags) a' = tally ?fs (\<lambda>_. free_frags) (cg_free ?cgp) +
        (free_frags (blk a' ?frag h) - free_frags (blk (cg_free ?cgp) ?frag h))"
    proof (rule tally_change [OF assms(3)])
      show "blk a' ?frag k = blk (cg_free ?cgp) ?frag k" if "k \<noteq> h" for k
        unfolding blk_def a'(2) using that block_of [of _ ?frag k] by (intro map_cong refl) auto
    qed
    moreover have "cs_nffree (cg_cs ?cgp) = tally ?fs (\<lambda>_. free_frags) (cg_free ?cgp)"
      using ufs_okD(6) [OF assms(1,2)] by (simp add: cg_map_ok_def cg_counts_def)
    moreover have "full (blk a' ?frag h)" unfolding full_blk a'(2) using block_of [of _ ?frag h] by blast
    then have "free_frags (blk a' ?frag h) = 0" by (simp add: free_frags_def)
    moreover have "free_frags (blk (cg_free ?cgp) ?frag h) \<noteq> 0"
    proof -
      have "j < length (blk (cg_free ?cgp) ?frag h)" "blk (cg_free ?cgp) ?frag h ! j" using part(1,2) by simp_all
      from some_free [OF this] show ?thesis using part(3) by (simp add: free_frags_def)
    qed
    ultimately show False by simp
  qed
  then show ?thesis using run by blast
qed

text \<open>
  C8: \<open>free\<close> of \<open>k\<close> fragments that lie in one block of a readable group.  If none is free, it returns, keeps the
  invariant and adds exactly these fragments to the free map.  If some are free and the piece is smaller than a block, or if all of a whole
  block is free, it panics.  The test for a whole block sees no more than that: if a part of it is free,
  \<open>free\<close> succeeds and breaks the invariant.
\<close>

theorem free_exact:
  assumes "ufs_ok s" "0 < k" "k \<le> fs_frag (u_fs s)" "0 < b" "b + k \<le> fs_size (u_fs s)" "b mod fs_frag (u_fs s) + k \<le> fs_frag (u_fs s)"
    and "\<not> u_rderr s (dtog (u_fs s) b)"
  shows "if {b..<b + k} \<inter> free_set s = {}
    then \<exists>s'. ufs_free s b (k * fs_fsize (u_fs s)) = Some s' \<and> ufs_ok s' \<and> free_set s' = free_set s \<union> {b..<b + k} \<and> u_data s' = u_data s
    else if k < fs_frag (u_fs s) \<or> {b..<b + k} \<subseteq> free_set s then ufs_free s b (k * fs_fsize (u_fs s)) = None
    else \<exists>s'. ufs_free s b (k * fs_fsize (u_fs s)) = Some s' \<and> \<not> ufs_ok s'"
proof -
  let ?fs = "u_fs s" and ?frag = "fs_frag (u_fs s)"
  define i where "i = dtog ?fs b"
  define h where "h = dtogd ?fs b div ?frag"
  define m where "m = b mod ?frag"
  note geom = ufs_okD(1) [OF assms(1)]
  have bl: "b < fs_size ?fs" using assms(2,5) by simp
  note ad = address [OF geom bl, folded i_def h_def m_def]
  have d: "dtogd ?fs b = h * ?frag + m" unfolding h_def ad(3) [symmetric] by simp
  have mem: "b + j \<in> free_set s \<longleftrightarrow> isset (cg_free (u_cg s i)) (h * ?frag + (m + j))" if "j < k" for j
  proof -
    have e: "b + j = i * fs_fpg ?fs + (h * ?frag + (m + j))" using ad(4) by linarith
    have "m + j < ?frag" using that assms(6) by (simp add: m_def)
    then show ?thesis unfolding e by (rule mem_free_block [OF geom ad(1,2)])
  qed
  note ex = meets_range [of b k "free_set s"] and all = covers_range [of b k "free_set s"]
  have rd: "cgread s i = Some (Some (u_cg s i))" using cgread_ok [OF assms(1) ad(1)] assms(7) by (simp add: i_def)
  consider (none) "{b..<b + k} \<inter> free_set s = {}"
    | (panic) "{b..<b + k} \<inter> free_set s \<noteq> {}" "k < ?frag \<or> {b..<b + k} \<subseteq> free_set s"
    | (part) "{b..<b + k} \<inter> free_set s \<noteq> {}" "k = ?frag" "\<not> {b..<b + k} \<subseteq> free_set s"
    using assms(3) by fastforce
  then show ?thesis
  proof cases
    case none
    obtain s' where "ufs_free s b (k * fs_fsize ?fs) = Some s'" "ufs_ok s'" "frame s s'" "free_set s' = free_set s \<union> {b..<b + k}"
      using ufs_free_gives_back [OF assms(1-6) none assms(7)] by blast
    then show ?thesis unfolding if_P [OF none] using frame_sel(1) by blast
  next
    case panic
    have "if k = ?frag then full (blk (cg_free (u_cg s i)) ?frag (dtogd ?fs b div ?frag))
      else \<exists>j < k. isset (cg_free (u_cg s i)) (dtogd ?fs b + j)"
    proof (cases "k = ?frag")
      case True
      then have "m = 0" using assms(6) by (simp add: m_def)
      then show ?thesis using panic(2) True all mem by (simp add: full_blk h_def)
    next
      case False
      obtain j where j: "j < k" "b + j \<in> free_set s" using panic(1) ex by blast
      then have "isset (cg_free (u_cg s i)) (dtogd ?fs b + j)" unfolding d add.assoc using mem [OF j(1)] by blast
      then show ?thesis unfolding if_not_P [OF False] using j(1) by blast
    qed
    then have "ufs_free s b (k * fs_fsize ?fs) = None"
      by (rule ufs_free_panics [OF geom bl assms(2,3,6) rd [unfolded i_def], folded i_def])
    then show ?thesis using panic by simp
  next
    case part
    then have m0: "m = 0" using assms(6) by (simp add: m_def)
    obtain j where j: "j < ?frag" "isset (cg_free (u_cg s i)) (h * ?frag + j)" using part ex mem m0 by auto
    have nf: "\<not> full (blk (cg_free (u_cg s i)) ?frag h)" using part all mem m0 by (auto simp: full_blk)
    have e: "b = i * fs_fpg ?fs + h * ?frag" using ad(4) m0 by linarith
    have "\<not> u_rderr s i" using assms(7) by (simp add: i_def)
    from free_partial_block [OF assms(1) ad(1,2) e bl this j nf] show ?thesis using part fs_geomD(5) [OF geom] by simp
  qed
qed

theorem free_exact_witness:
  "(\<exists>s'. ufs_free tiny 8 (2 * 2) = Some s' \<and> ufs_ok s' \<and> free_set s' = free_set tiny \<union> {8..<10} \<and> u_data s' = u_data tiny) \<and>
   ufs_free tiny 4 (1 * 2) = None \<and> (\<exists>s'. ufs_free tiny 4 (2 * 2) = Some s' \<and> \<not> ufs_ok s')"
proof -
  have a: "{8..<10} \<inter> free_set tiny = {}" by (auto simp: tiny_free_set) presburger+
  have b: "4 \<in> free_set tiny" and c: "5 \<notin> free_set tiny" by (auto simp: tiny_free_set)
  have 1: "\<exists>s'. ufs_free tiny 8 (2 * 2) = Some s' \<and> ufs_ok s' \<and> free_set s' = free_set tiny \<union> {8..<10} \<and> u_data s' = u_data tiny"
    using free_exact [of tiny 2 8, OF tiny_ok] a by simp
  have "{4..<4 + 1} \<inter> free_set tiny \<noteq> {}" unfolding meets_range using b by (intro exI [of _ 0]) simp
  then have 2: "ufs_free tiny 4 (1 * 2) = None" using free_exact [of tiny 1 4, OF tiny_ok] by simp
  have "{4..<4 + 2} \<inter> free_set tiny \<noteq> {}" "\<not> {4..<4 + 2} \<subseteq> free_set tiny"
    unfolding meets_range covers_range using b c by (auto intro: exI [of _ 0] exI [of _ 1])
  then have 3: "\<exists>s'. ufs_free tiny 4 (2 * 2) = Some s' \<and> \<not> ufs_ok s'" using free_exact [of tiny 2 4, OF tiny_ok] by simp
  show ?thesis using 1 2 3 by blast
qed

text \<open>
  C9: \<open>realloccg\<close> grows a piece of \<open>ok\<close> fragments at \<open>b\<close> to \<open>nk\<close>, in place or elsewhere, when the groups can be read.  It always
  returns and keeps the invariant.  The new place \<open>n\<close> holds the old bytes and then zeros, the fragments of the old and the new place and
  of the free map are accounted for exactly, no byte outside them changes; a refusal changes neither the map nor the data.
\<close>

theorem realloccg_moves:
  assumes "ufs_ok s" "0 < ok" "ok < nk" "nk \<le> fs_frag (u_fs s)" "0 < b" "b + ok \<le> fs_size (u_fs s)" "b mod fs_frag (u_fs s) + ok \<le> fs_frag (u_fs s)"
    and "{b..<b + ok} \<inter> free_set s = {}" "\<not> u_rderr s (dtog (u_fs s) b)" "\<not> u_drderr s b"
  shows "\<exists>r s'. realloccg s b bpref (ok * fs_fsize (u_fs s)) (nk * fs_fsize (u_fs s)) = Some (r, s') \<and> ufs_ok s' \<and>
    (case r of
       Some n \<Rightarrow> n mod fs_frag (u_fs s) + nk \<le> fs_frag (u_fs s) \<and>
         free_set s' \<union> {n..<n + nk} = free_set s \<union> {b..<b + ok} \<and> free_set s' \<inter> {n..<n + nk} = {} \<and>
         (\<forall>a < ok * fs_fsize (u_fs s). u_data s' (n * fs_fsize (u_fs s) + a) = u_data s (b * fs_fsize (u_fs s) + a)) \<and>
         (\<forall>a \<in> {ok * fs_fsize (u_fs s)..<nk * fs_fsize (u_fs s)}. u_data s' (n * fs_fsize (u_fs s) + a) = 0) \<and>
         (\<forall>a. a div fs_fsize (u_fs s) \<notin> free_set s \<union> {b..<b + ok} \<longrightarrow> u_data s' a = u_data s a)
     | None \<Rightarrow> free_set s' = free_set s \<and> u_data s' = u_data s \<and> u_error s' = ENOSPC)"
proof -
  obtain r s' where r: "realloccg s b bpref (ok * fs_fsize (u_fs s)) (nk * fs_fsize (u_fs s)) = Some (r, s')" "ufs_ok s'"
    "case r of Some n \<Rightarrow> moved s b ok nk n s' | None \<Rightarrow> free_set s' = free_set s \<and> u_data s' = u_data s \<and> u_error s' = ENOSPC"
    using realloccg_outcome [OF assms, of bpref] by blast
  show ?thesis by (rule exI [of _ r], rule exI [of _ s']) (use r in \<open>cases r; simp add: moved_def Let_def\<close>)
qed

theorem realloccg_moves_witness:
  "\<exists>r s'. realloccg tiny 5 0 (1 * 2) (2 * 2) = Some (r, s') \<and> ufs_ok s'"
proof -
  have "{5..<5 + 1} \<inter> free_set tiny = {}" by (auto simp: tiny_free_set)
  then show ?thesis using realloccg_moves [of tiny 1 2 5 0, OF tiny_ok] by auto
qed

text \<open>
  When the old piece cannot be read, \<open>realloccg\<close> gives up after it has taken the new fragments: it returns
  nothing, sets no error of its own, and the fragments stay marked in use although no file has them.
\<close>

theorem realloccg_read_error_leaks:
  assumes "ufs_ok s" "0 < ok" "ok < nk" "nk \<le> fs_frag (u_fs s)" "0 < b" "b + ok \<le> fs_size (u_fs s)" "b mod fs_frag (u_fs s) + ok \<le> fs_frag (u_fs s)"
    and "{b..<b + ok} \<inter> free_set s = {}" "u_drderr s b" "\<not> minfree_left s" "i < fs_ncg (u_fs s)" "\<not> u_rderr s i" "space s i nk"
  shows "\<exists>s' n j. realloccg s b bpref (ok * fs_fsize (u_fs s)) (nk * fs_fsize (u_fs s)) = Some (None, s') \<and> u_error s' = u_error s \<and>
    0 < j \<and> {n..<n + j} \<subseteq> free_set s \<and> free_set s' = free_set s - {n..<n + j}"
proof -
  let ?fs = "u_fs s" and ?osz = "ok * fs_fsize (u_fs s)" and ?nsz = "nk * fs_fsize (u_fs s)"
  note geom = ufs_okD(1) [OF assms(1)]
  have b: "b < fs_size ?fs" using assms(2,6) by simp
  have sz: "?osz \<le> fs_bsize ?fs" "fragoff ?fs ?osz = 0" "?nsz \<le> fs_bsize ?fs" "fragoff ?fs ?nsz = 0"
    using assms(3,4) by (simp_all add: fragoff_mod [OF geom] fs_geomD(5) [OF geom])
  obtain r t where e: "fragextend s (dtog ?fs b) b ?osz ?nsz = Some (r, t)"
    "if r = 0 then no_change s t else r = b \<and> gave (nk - ok) s (b + ok) t \<and> b mod fs_frag ?fs + nk \<le> fs_frag ?fs"
    using fragextend_outcome [OF assms(1-5) b assms(8)] by blast
  show ?thesis
  proof (cases "r = 0")
    case False
    then have g: "r = b" "gave (nk - ok) s (b + ok) t" using e(2) by auto
    then have f: "frame s t" by (simp add: gave_def)
    have "realloccg s b bpref ?osz ?nsz = Some (None, t)"
      using sz assms(5,9,10) e(1) g(1) frame_sel(3) [OF f] by (simp add: realloccg_def Let_def)
    then show ?thesis using g(2) frame_sel(5) [OF f] assms(3) by (intro exI [of _ t] exI [of _ "b + ok"] exI [of _ "nk - ok"]) (simp add: gave_def)
  next
    case r0: True
    then have nc: "no_change s t" using e(2) by simp
    then have t: "ufs_ok t" "u_fs t = ?fs" "u_rderr t = u_rderr s" using frame_sel(2) by (simp_all add: no_change_def)
    define bp where "bp = (if fs_size ?fs \<le> bpref then 0 else bpref)"
    have inv: "block_inv (fs_ncg ?fs) nk ?nsz t" using t assms(2-4) by (simp add: block_inv_def)
    from blocks.hashalloc_result [OF inv address(1) [OF geom b], of bp] obtain n v where
      h: "hashalloc (\<lambda>cg pref s. alloccg s cg pref ?nsz) (fs_ncg ?fs) (dtog ?fs b) bp t = Some (n, v)"
      "if n = 0 then no_change t v \<and> (\<forall>i < fs_ncg ?fs. \<not> (\<not> u_rderr t i \<and> space t i nk)) else gave nk t n v" by blast
    have "n \<noteq> 0" using h(2) assms(11-13) t(3) no_change_space [OF nc] by (auto split: if_splits)
    then have gv: "gave nk s n v" using h(2) no_change_gave [OF nc] by simp
    then have f: "frame s v" by (simp add: gave_def)
    have "realloccg s b bpref ?osz ?nsz = Some (None, v)"
      using sz assms(5,9,10) e(1) r0 h(1) \<open>n \<noteq> 0\<close> frame_sel(3) [OF f] by (simp add: realloccg_def Let_def bp_def)
    then show ?thesis using gv frame_sel(5) [OF f] assms(2,3) by (intro exI [of _ v] exI [of _ n] exI [of _ nk]) (simp add: gave_def)
  qed
qed

theorem realloccg_read_error_leaks_witness:
  "\<exists>s' n j. realloccg (tiny\<lparr>u_drderr := \<lambda>_. True\<rparr>) 5 0 (1 * 2) (2 * 2) = Some (None, s') \<and> u_error s' = 0 \<and>
    0 < j \<and> {n..<n + j} \<subseteq> free_set tiny \<and> free_set s' = free_set tiny - {n..<n + j}"
proof -
  let ?s = "tiny\<lparr>u_drderr := \<lambda>_. True\<rparr>"
  have s: "ufs_ok ?s" "free_set ?s = free_set tiny" "space ?s i 2 = space tiny i 2" "minfree_left ?s = minfree_left tiny" "u_error tiny = 0" for i
    using tiny_ok by (simp_all add: ufs_ok_def total_def free_set_def space_def minfree_left_def tiny_def)
  have "{5..<5 + 1} \<inter> free_set tiny = {}" by (auto simp: tiny_free_set)
  moreover have "space tiny 1 2" by (auto simp: space_def tiny_blk [unfolded One_nat_def] runs_def intro!: bexI [of _ 2])
  ultimately show ?thesis using realloccg_read_error_leaks [of ?s 1 2 5 1 0, OF s(1)] s by (simp add: minfree_left_def)
qed

end
