(* ===== verification/Ufs_Inode.thy ===== *)
theory Ufs_Inode
  imports Ufs_Space
begin

text \<open>
  Inodes and placement (sys/ufs_alloc.c): \<open>ialloccg\<close>, \<open>ialloc\<close>, \<open>ifree\<close>, and the policies \<open>dirpref\<close> and \<open>blkpref\<close>.
  The table of inodes in memory is a parameter of \<open>ialloc\<close>: what \<open>iget\<close> returns for an inode number, no
  inode or one with the given mode.
\<close>

section \<open>Operations\<close>

definition IFMT :: nat where
  "IFMT = 0xf000"

definition IFDIR :: nat where
  "IFDIR = 0x4000"

definition NDADDR :: nat where
  "NDADDR = 12"

definition inode_count :: "int \<Rightarrow> int \<Rightarrow> csum \<Rightarrow> csum" where
  "inode_count a b = (\<lambda>x. x\<lparr>cs_nifree := cs_nifree x + a, cs_ndir := cs_ndir x + b\<rparr>)"

fun inode_scan :: "nat \<Rightarrow> bitmap \<Rightarrow> nat \<Rightarrow> nat \<Rightarrow> nat option" where
  "inode_scan ipg used 0 ipref = None"
| "inode_scan ipg used (Suc n) ipref =
     (let ipref = (if ipg \<le> ipref + 1 then 0 else ipref + 1) in
      if isclr used ipref then Some ipref else inode_scan ipg used n ipref)"

definition ialloccg :: "ufs \<Rightarrow> nat \<Rightarrow> nat \<Rightarrow> nat \<Rightarrow> (nat \<times> ufs) option" where
  "ialloccg s cg ipref mode =
     (let fs = u_fs s in
      if cs_nifree (fs_cs fs cg) = 0 then Some (0, s)
      else do {
        r \<leftarrow> cgread s cg;
        (case r of
           None \<Rightarrow> Some (0, s)
         | Some cgp \<Rightarrow>
             if cs_nifree (cg_cs cgp) = 0 then Some (0, cgleak s cg cgp)
             else
               let cgp = cgp\<lparr>cg_time := u_time s\<rparr>;
                   count = inode_count (- 1) (if mode AND IFMT = IFDIR then 1 else 0);
                   gotit = (\<lambda>ipref cgp. (cg * fs_ipg fs + ipref,
                     (cgput s cg (cgp\<lparr>cg_iused := setbit (cg_iused cgp) ipref, cg_cs := count (cg_cs cgp)\<rparr>))
                       \<lparr>u_fs := (fs_count count cg fs)\<lparr>fs_fmod := fs_fmod fs + 1\<rparr>\<rparr>));
                   ip = (if ipref \<noteq> 0 then ipref mod fs_ipg fs else cg_irotor cgp)
               in if ipref \<noteq> 0 \<and> isclr (cg_iused cgp) ip then Some (gotit ip cgp)
                  else (case inode_scan (fs_ipg fs) (cg_iused cgp) (fs_ipg fs) ip of
                      Some i \<Rightarrow> Some (gotit i (cgp\<lparr>cg_irotor := i\<rparr>))
                    | None \<Rightarrow> Some (0, cgput s cg cgp)))
      })"

definition ialloc :: "(nat \<Rightarrow> nat option) \<Rightarrow> ufs \<Rightarrow> nat \<Rightarrow> nat \<Rightarrow> (nat option \<times> ufs) option" where
  "ialloc iget s ipref mode =
     (let fs = u_fs s in
      if cs_nifree (fs_cstotal fs) = 0 then nospace s
      else
        let ipref = (if fs_ncg fs * fs_ipg fs \<le> ipref then 0 else ipref) in
        do {
          (ino, s) \<leftarrow> hashalloc (\<lambda>cg pref s. ialloccg s cg pref mode) (fs_ncg fs) (itog fs ipref) ipref s;
          if ino = 0 then nospace s
          else (case iget ino of
              None \<Rightarrow> None
            | Some m \<Rightarrow> if m \<noteq> 0 then None else Some (Some ino, s))
        })"

definition ifree :: "ufs \<Rightarrow> nat \<Rightarrow> nat \<Rightarrow> ufs option" where
  "ifree s ino mode =
     (let fs = u_fs s; cg = itog fs ino in
      if fs_ipg fs * fs_ncg fs \<le> ino then None
      else do {
        r \<leftarrow> cgread s cg;
        (case r of
           None \<Rightarrow> Some s
         | Some cgp \<Rightarrow>
             let cgp = cgp\<lparr>cg_time := u_time s\<rparr>; i = ino mod fs_ipg fs;
                 count = inode_count 1 (if mode AND IFMT = IFDIR then - 1 else 0) in
             if isclr (cg_iused cgp) i then None
             else Some ((cgput s cg (cgp\<lparr>cg_iused := clrbit (cg_iused cgp) i, cg_cs := count (cg_cs cgp)\<rparr>))
               \<lparr>u_fs := (fs_count count cg fs)\<lparr>fs_fmod := fs_fmod fs + 1\<rparr>\<rparr>))
      })"

section \<open>Policies\<close>

definition dirpref :: "fs \<Rightarrow> nat" where
  "dirpref fs =
     (let avgifree = c_div (cs_nifree (fs_cstotal fs)) (int (fs_ncg fs)) in
      fs_ipg fs * fst (fold (\<lambda>cg (mincg, minndir).
        if cs_ndir (fs_cs fs cg) < minndir \<and> avgifree \<le> cs_nifree (fs_cs fs cg) then (cg, cs_ndir (fs_cs fs cg))
        else (mincg, minndir)) [0..<fs_ncg fs] (0, int (fs_ipg fs))))"

text \<open>The address of the next block and the super block with its rotor; 0 is NULL.\<close>

definition blkpref :: "fs \<Rightarrow> nat \<Rightarrow> nat \<Rightarrow> nat \<Rightarrow> (nat \<Rightarrow> nat) \<Rightarrow> nat \<times> fs" where
  "blkpref fs inumber lbn indx bap =
     (if indx mod fs_maxbpg fs = 0 \<or> bap (indx - 1) = 0 then
        if lbn < NDADDR then (fs_fpg fs * itog fs inumber + fs_frag fs, fs)
        else
          let avgbfree = c_div (cs_nbfree (fs_cstotal fs)) (int (fs_ncg fs)) in
          (case find (\<lambda>cg. avgbfree \<le> cs_nbfree (fs_cs fs cg)) ([fs_cgrotor fs + 1..<fs_ncg fs] @ [0..<fs_cgrotor fs + 1]) of
             Some cg \<Rightarrow> (fs_fpg fs * cg + fs_frag fs, fs\<lparr>fs_cgrotor := cg\<rparr>)
           | None \<Rightarrow> (0, fs))
      else
        let nextblk = bap (indx - 1) + fs_frag fs in
        if fs_maxcontig fs < indx \<and> bap (indx - fs_maxcontig fs) + fs_frag fs * fs_maxcontig fs \<noteq> nextblk then (nextblk, fs)
        else if fs_rotdelay fs \<noteq> 0 then
          (nextblk + roundup (fs_rotdelay fs * fs_rps fs * fs_nsect fs div (fs_nspf fs * 1000)) (fs_frag fs), fs)
        else (nextblk, fs))"

section \<open>Inodes in use\<close>

definition used_inodes :: "ufs \<Rightarrow> nat set" where
  "used_inodes s = {n. n < fs_ncg (u_fs s) * fs_ipg (u_fs s) \<and> isset (cg_iused (u_cg s (itog (u_fs s) n))) (n mod fs_ipg (u_fs s))}"

definition inode_room :: "ufs \<Rightarrow> nat \<Rightarrow> bool" where
  "inode_room s i \<longleftrightarrow> \<not> u_rderr s i \<and> (\<exists>j \<in> {..< fs_ipg (u_fs s)}. isclr (cg_iused (u_cg s i)) j)"

definition inode_given :: "ufs \<Rightarrow> nat \<Rightarrow> ufs \<Rightarrow> bool" where
  "inode_given s n s' \<longleftrightarrow> ufs_ok s' \<and> frame s s' \<and> n < fs_ncg (u_fs s) * fs_ipg (u_fs s) \<and> n \<notin> used_inodes s \<and>
     used_inodes s' = insert n (used_inodes s) \<and> free_set s' = free_set s"

lemma inode_scan_found: "inode_scan ipg used n ip = Some j \<Longrightarrow> 0 < ipg \<Longrightarrow> j < ipg \<and> \<not> isset used j"
  by (induction n arbitrary: ip) (auto simp: Let_def isclr_isset split: if_splits)

lemma inode_scan_none:
  "inode_scan ipg used n ip = None \<Longrightarrow> ip < ipg \<Longrightarrow> k < n \<Longrightarrow> isset used ((ip + Suc k) mod ipg)"
proof (induction n arbitrary: ip k)
  case (Suc n)
  let ?ip = "if ipg \<le> ip + 1 then 0 else ip + 1"
  have ip: "?ip < ipg" "\<And>j. (?ip + j) mod ipg = (ip + Suc j) mod ipg"
  proof -
    show "?ip < ipg" using Suc.prems(2) by simp
    show "(?ip + j) mod ipg = (ip + Suc j) mod ipg" for j
    proof (cases "ipg \<le> ip + 1")
      case True
      then have e: "ip + Suc j = ipg + j" using Suc.prems(2) by simp
      show ?thesis unfolding if_P [OF True] e by simp
    qed simp
  qed
  have u: "isset used ?ip" "inode_scan ipg used n ?ip = None"
    using Suc.prems(1) by (auto simp: Let_def isclr_isset split: if_splits)
  show ?case
  proof (cases k)
    case 0
    then show ?thesis using u(1) ip by (metis add_0_right mod_less)
  next
    case (Suc k')
    then show ?thesis using Suc.IH [OF u(2) ip(1), of k'] Suc.prems(3) ip(2) [of "Suc k'"] by simp
  qed
qed simp

lemma inode_scan_all:
  assumes "inode_scan ipg used ipg ip = None" "ip < ipg" "j < ipg"
  shows "isset used j"
proof -
  define k where "k = (j + ipg - Suc ip) mod ipg"
  have "(ip + Suc k) mod ipg = (Suc ip + k) mod ipg" by simp
  also have "... = (Suc ip + (j + ipg - Suc ip)) mod ipg" unfolding k_def by (rule mod_add_right_eq)
  also have "Suc ip + (j + ipg - Suc ip) = j + ipg" using assms(2) by simp
  finally have "(ip + Suc k) mod ipg = j" using assms(3) by simp
  moreover have "k < ipg" using assms(3) by (simp add: k_def)
  ultimately show ?thesis using inode_scan_none [OF assms(1,2), of k] by simp
qed

definition free_inodes :: "nat \<Rightarrow> bitmap \<Rightarrow> int" where
  "free_inodes n a = (\<Sum>j < n. if isset a j then 0 else 1)"

lemma free_inodes_change:
  assumes "j < n" "\<And>l. l \<noteq> j \<Longrightarrow> isset a' l = isset a l"
  shows "free_inodes n a' = free_inodes n a + ((if isset a' j then 0 else 1) - (if isset a j then 0 else 1))"
proof -
  have "free_inodes n b = (if isset b j then 0 else 1) + (\<Sum>l \<in> {..<n} - {j}. if isset b l then 0 else 1)" for b
    using sum.remove [of "{..<n}" j "\<lambda>l. if isset b l then 0 else 1 :: int"] assms(1) by (simp add: free_inodes_def)
  moreover have "(\<Sum>l \<in> {..<n} - {j}. if isset a' l then 0 else 1 :: int) = (\<Sum>l \<in> {..<n} - {j}. if isset a l then 0 else 1)"
    using assms(2) by (intro sum.cong) auto
  ultimately show ?thesis by simp
qed

lemma adds_inode_count: "adds (inode_count a b)"
  unfolding adds_def inode_count_def
  by (intro exI [of _ b] exI [of _ 0] exI [of _ a] allI) (case_tac x, simp)

lemma mem_used_inodes:
  "n \<in> used_inodes s \<longleftrightarrow> n < fs_ncg (u_fs s) * fs_ipg (u_fs s) \<and> isset (cg_iused (u_cg s (itog (u_fs s) n))) (n mod fs_ipg (u_fs s))"
  by (simp add: used_inodes_def)

lemma used_put:
  assumes "same_geom (u_fs s) fs'"
  shows "n \<in> used_inodes ((cgput s i cgp')\<lparr>u_fs := fs'\<rparr>) \<longleftrightarrow> n < fs_ncg (u_fs s) * fs_ipg (u_fs s) \<and>
    (if itog (u_fs s) n = i then isset (cg_iused cgp') (n mod fs_ipg (u_fs s)) else n \<in> used_inodes s)"
  by (auto simp: used_inodes_def cgput_def same_geom_sel [OF assms])

lemma free_set_kept:
  assumes "same_geom (u_fs s) fs'" "cg_free cgp' = cg_free (u_cg s i)"
  shows "free_set ((cgput s i cgp')\<lparr>u_fs := fs'\<rparr>) = free_set s"
  by (rule set_eqI, unfold free_set_put [OF assms(1)]) (auto simp: mem_free_set assms(2))

text \<open>The step on the inode map of one group.\<close>

lemma inode_step:
  assumes "ufs_ok s" "i < fs_ncg (u_fs s)" "j < fs_ipg (u_fs s)" "cg_irotor cgp' < fs_ipg (u_fs s)"
    and a': "\<And>l. isset (cg_iused cgp') l \<longleftrightarrow> (if l = j then v else isset (cg_iused (u_cg s i)) l)"
    and c: "cg_cs cgp' = inode_count ((if v then 0 else 1) - (if isset (cg_iused (u_cg s i)) j then 0 else 1)) b (cg_cs (u_cg s i))"
    and root: "i = 0 \<Longrightarrow> j = 0 \<Longrightarrow> v"
    and same: "cg_free cgp' = cg_free (u_cg s i)" "cg_magic cgp' = cg_magic (u_cg s i)" "cg_cgx cgp' = cg_cgx (u_cg s i)"
      "cg_frsum cgp' = cg_frsum (u_cg s i)" "cg_b cgp' = cg_b (u_cg s i)" "cg_btot cgp' = cg_btot (u_cg s i)"
      "cg_rotor cgp' = cg_rotor (u_cg s i)" "cg_frotor cgp' = cg_frotor (u_cg s i)"
    and fs': "counted (inode_count ((if v then 0 else 1) - (if isset (cg_iused (u_cg s i)) j then 0 else 1)) b) i (u_fs s) fs'"
    and s': "s' = (cgput s i cgp')\<lparr>u_fs := fs'\<rparr>"
  shows "ufs_ok s' \<and> frame s s' \<and> free_set s' = free_set s \<and>
    used_inodes s' = (if v then insert (i * fs_ipg (u_fs s) + j) (used_inodes s) else used_inodes s - {i * fs_ipg (u_fs s) + j})"
proof -
  let ?fs = "u_fs s" and ?cgp = "u_cg s i"
  note ok = ufs_okD(4) [OF assms(1,2)]
  have sg: "same_geom ?fs fs'" using fs' by (simp add: counted_def)
  have "cg_map_ok ?fs cgp'" using ok
    by (simp add: cg_ok_def cg_map_ok_def cg_counts_def map_bounded_def c same inode_count_def)
  moreover have "cg_inodes_ok ?fs cgp'"
    using ok assms(4) root free_inodes_change [of j "fs_ipg ?fs" "cg_iused cgp'" "cg_iused ?cgp", OF assms(3)]
    by (auto simp: cg_ok_def cg_inodes_ok_def a' c same inode_count_def free_inodes_def)
  ultimately have "cg_ok ?fs i cgp'" using ok by (simp add: cg_ok_def same)
  then have 1: "ufs_ok s'" unfolding s' using group_step [OF assms(1,2) fs' adds_inode_count] c by simp
  have 2: "frame s s'" unfolding s' by (rule frame_put [OF fs'])
  have 3: "free_set s' = free_set s" unfolding s' by (rule free_set_kept [OF sg same(1)])
  have "n \<in> used_inodes s' \<longleftrightarrow> (if n = i * fs_ipg ?fs + j then v else n \<in> used_inodes s)" for n
  proof (cases "n = i * fs_ipg ?fs + j")
    case True
    then have "itog ?fs n = i \<and> n mod fs_ipg ?fs = j" using group_index [OF assms(3), of n i] by (simp add: itog_def)
    then show ?thesis unfolding s' used_put [OF sg] using True group_below [OF assms(2,3)] a' [of j] by simp
  next
    case False
    then have "itog ?fs n = i \<Longrightarrow> n mod fs_ipg ?fs \<noteq> j" using group_index [OF assms(3), of n i] by (simp add: itog_def)
    then show ?thesis unfolding s' used_put [OF sg] using False a' [of "n mod fs_ipg ?fs"] by (simp add: mem_used_inodes)
  qed
  then have 4: "used_inodes s' = (if v then insert (i * fs_ipg ?fs + j) (used_inodes s) else used_inodes s - {i * fs_ipg ?fs + j})"
    unfolding set_eq_iff by simp
  show ?thesis using 1 2 3 4 by blast
qed

section \<open>Allocation\<close>

lemma free_inodes_0: "free_inodes n a = 0 \<longleftrightarrow> (\<forall>j \<in> {..<n}. isset a j)"
  unfolding free_inodes_def by (subst sum_nonneg_eq_0_iff) auto

lemma nifree_eq:
  assumes "ufs_ok s" "i < fs_ncg (u_fs s)"
  shows "cs_nifree (cg_cs (u_cg s i)) = free_inodes (fs_ipg (u_fs s)) (cg_iused (u_cg s i))"
  using ufs_okD(4) [OF assms] unfolding cg_ok_def cg_inodes_ok_def free_inodes_def by simp

lemma nifree_room:
  assumes "ufs_ok s" "i < fs_ncg (u_fs s)" "inode_room s i"
  shows "0 < cs_nifree (cg_cs (u_cg s i))" "0 < cs_nifree (fs_cstotal (u_fs s))"
proof -
  have nn: "0 \<le> cs_nifree (cg_cs (u_cg s j))" if "j < fs_ncg (u_fs s)" for j
    unfolding nifree_eq [OF assms(1) that] free_inodes_def by (rule sum_nonneg) simp
  have "cs_nifree (cg_cs (u_cg s i)) \<noteq> 0"
    using assms(3) unfolding nifree_eq [OF assms(1,2)] free_inodes_0 inode_room_def isclr_isset by blast
  then show 1: "0 < cs_nifree (cg_cs (u_cg s i))" using nn [OF assms(2)] by simp
  have "0 < total s cs_nifree" unfolding total_def using assms(2) nn 1 by (intro sum_pos2 [of _ i]) auto
  then show "0 < cs_nifree (fs_cstotal (u_fs s))" using assms(1) by (simp add: ufs_ok_def)
qed

lemma ialloccg_outcome:
  assumes "ufs_ok s" "i < fs_ncg (u_fs s)"
  shows "\<exists>n s'. ialloccg s i ipref mode = Some (n, s') \<and>
    (if n = 0 then no_change s s' \<and> \<not> inode_room s i else inode_given s n s')"
proof -
  let ?fs = "u_fs s" and ?cgp = "u_cg s i"
  have cs: "fs_cs ?fs i = cg_cs ?cgp" by (rule ufs_okD(5) [OF assms])
  note ok = ufs_okD(4) [OF assms] and geom = ufs_okD(1) [OF assms(1)]
  have rot: "cg_irotor ?cgp < fs_ipg ?fs" using ok by (simp add: cg_ok_def cg_inodes_ok_def)
  then have pos: "0 < fs_ipg ?fs" by simp
  consider (out) "cs_nifree (cg_cs ?cgp) = 0" | (err) "cs_nifree (cg_cs ?cgp) \<noteq> 0" "u_rderr s i"
    | (go) "cs_nifree (cg_cs ?cgp) \<noteq> 0" "\<not> u_rderr s i" by blast
  then show ?thesis
  proof cases
    case out
    then have "\<not> inode_room s i" using nifree_room(1) [OF assms] by auto
    then show ?thesis using out no_change_refl [OF assms(1)] by (simp add: ialloccg_def cs Let_def)
  next
    case err
    then show ?thesis using no_change_refl [OF assms(1)] by (simp add: ialloccg_def cs cgread_ok [OF assms] Let_def inode_room_def)
  next
    case go
    define d :: int where "d = (if mode AND IFMT = IFDIR then 1 else 0)"
    define ip where "ip = (if ipref \<noteq> 0 then ipref mod fs_ipg ?fs else cg_irotor ?cgp)"
    have ip: "ip < fs_ipg ?fs" using rot pos by (simp add: ip_def)
    have gives: "inode_given s (i * fs_ipg ?fs + j) s' \<and> i * fs_ipg ?fs + j \<noteq> 0"
      if j: "j < fs_ipg ?fs" "\<not> isset (cg_iused ?cgp) j" "r < fs_ipg ?fs"
        and s': "s' = (cgput s i (?cgp\<lparr>cg_time := u_time s, cg_irotor := r, cg_iused := setbit (cg_iused ?cgp) j,
          cg_cs := inode_count (- 1) d (cg_cs ?cgp)\<rparr>))\<lparr>u_fs := (fs_count (inode_count (- 1) d) i ?fs)\<lparr>fs_fmod := fs_fmod ?fs + 1\<rparr>\<rparr>" for j r s'
    proof -
      have st: "ufs_ok s' \<and> frame s s' \<and> free_set s' = free_set s \<and> used_inodes s' = (if True then insert (i * fs_ipg ?fs + j) (used_inodes s)
        else used_inodes s - {i * fs_ipg ?fs + j})"
        by (rule inode_step [OF assms j(1) _ _ _ _ _ _ _ _ _ _ _ _ _ s', where b = d]) (use j in \<open>simp_all add: counted_fmod counted_count [OF geom]\<close>)
      have "(i * fs_ipg ?fs + j) div fs_ipg ?fs = i \<and> (i * fs_ipg ?fs + j) mod fs_ipg ?fs = j" using group_index [OF j(1)] by blast
      then have "i * fs_ipg ?fs + j \<notin> used_inodes s" using j(2) by (simp add: mem_used_inodes itog_def)
      moreover have "i * fs_ipg ?fs + j \<noteq> 0" using ok j(2) by (auto simp: cg_ok_def cg_inodes_ok_def)
      ultimately show ?thesis using st group_below [OF assms(2) j(1)] by (simp add: inode_given_def)
    qed
    have call: "ialloccg s i ipref mode = (if ipref \<noteq> 0 \<and> isclr (cg_iused ?cgp) ip
        then Some (i * fs_ipg ?fs + ip, (cgput s i (?cgp\<lparr>cg_time := u_time s, cg_irotor := cg_irotor ?cgp, cg_iused := setbit (cg_iused ?cgp) ip,
          cg_cs := inode_count (- 1) d (cg_cs ?cgp)\<rparr>))\<lparr>u_fs := (fs_count (inode_count (- 1) d) i ?fs)\<lparr>fs_fmod := fs_fmod ?fs + 1\<rparr>\<rparr>)
        else (case inode_scan (fs_ipg ?fs) (cg_iused ?cgp) (fs_ipg ?fs) ip of
          Some j \<Rightarrow> Some (i * fs_ipg ?fs + j, (cgput s i (?cgp\<lparr>cg_time := u_time s, cg_irotor := j, cg_iused := setbit (cg_iused ?cgp) j,
            cg_cs := inode_count (- 1) d (cg_cs ?cgp)\<rparr>))\<lparr>u_fs := (fs_count (inode_count (- 1) d) i ?fs)\<lparr>fs_fmod := fs_fmod ?fs + 1\<rparr>\<rparr>)
        | None \<Rightarrow> Some (0, cgput s i (?cgp\<lparr>cg_time := u_time s\<rparr>))))"
      using go unfolding ialloccg_def Let_def cs cgread_ok [OF assms] d_def ip_def by (simp cong: option.case_cong)
    show ?thesis
    proof (cases "ipref \<noteq> 0 \<and> isclr (cg_iused ?cgp) ip")
      case True
      then have c: "\<not> isset (cg_iused ?cgp) ip" by (simp add: isclr_isset)
      show ?thesis unfolding call if_P [OF True] using gives [OF ip c rot refl] by auto
    next
      case False
      show ?thesis
      proof (cases "inode_scan (fs_ipg ?fs) (cg_iused ?cgp) (fs_ipg ?fs) ip")
        case None
        then have "\<not> inode_room s i" using inode_scan_all [OF None ip] by (auto simp: inode_room_def isclr_isset)
        moreover have "no_change s (cgput s i (?cgp\<lparr>cg_time := u_time s\<rparr>))" by (rule no_change_time [OF assms])
        ultimately show ?thesis unfolding call if_not_P [OF False] None by simp
      next
        case (Some j)
        have c: "j < fs_ipg ?fs" "\<not> isset (cg_iused ?cgp) j" using inode_scan_found [OF Some pos] by blast+
        show ?thesis unfolding call if_not_P [OF False] Some option.case using gives [OF c c(1) refl] by auto
      qed
    qed
  qed
qed

lemma no_change_used: "no_change s t \<Longrightarrow> used_inodes t = used_inodes s"
  by (simp add: no_change_def used_inodes_def)

lemma no_change_given: "no_change s t \<Longrightarrow> inode_given t n u \<Longrightarrow> inode_given s n u"
  using no_change_used [of s t] no_change_free_set [of s t] fs_frame_trans [of s t u] by (simp add: inode_given_def no_change_def)

lemma no_change_iroom:
  assumes "no_change s t"
  shows "inode_room t i = inode_room s i"
proof -
  have "u_rderr t = u_rderr s" using assms frame_sel(2) [of s t] by (simp add: no_change_def)
  then show ?thesis using assms by (simp add: inode_room_def no_change_def)
qed

definition inode_inv :: "nat \<Rightarrow> ufs \<Rightarrow> bool" where
  "inode_inv ncg s \<longleftrightarrow> ufs_ok s \<and> fs_ncg (u_fs s) = ncg"

interpretation inodes: group_allocator "\<lambda>cg pref s. ialloccg s cg pref mode" ncg "inode_inv ncg" inode_room no_change "\<lambda>s n s'. inode_given s n s'"
proof unfold_locales
  show "\<exists>b s'. ialloccg s cg pref mode = Some (b, s') \<and> (if b = 0 then no_change s s' \<and> \<not> inode_room s cg else inode_given s b s')"
    if "inode_inv ncg s" "cg < ncg" for s cg pref
    using ialloccg_outcome [of s cg pref mode] that by (simp add: inode_inv_def)
qed (auto simp: inode_inv_def no_change_refl no_change_iroom intro: no_change_trans no_change_given dest: no_changeD)

text \<open>An inode is refused only when no readable group has one left.\<close>

lemma ialloc_outcome:
  assumes "ufs_ok s" "\<And>n. n \<notin> used_inodes s \<Longrightarrow> iget n = Some 0"
  shows "\<exists>r s'. ialloc iget s ipref mode = Some (r, s') \<and>
    (case r of
       Some n \<Rightarrow> inode_given s n s'
     | None \<Rightarrow> (\<exists>t. no_change s t \<and> s' = t\<lparr>u_error := ENOSPC\<rparr>) \<and> (\<forall>i < fs_ncg (u_fs s). \<not> inode_room s i))"
proof (cases "cs_nifree (fs_cstotal (u_fs s)) = 0")
  case True
  then have "ialloc iget s ipref mode = Some (None, s\<lparr>u_error := ENOSPC\<rparr>)" by (simp add: ialloc_def nospace_def Let_def)
  moreover have "\<not> inode_room s i" if "i < fs_ncg (u_fs s)" for i using nifree_room(2) [OF assms(1) that] True by auto
  ultimately show ?thesis using no_change_refl [OF assms(1)] by auto
next
  case False
  let ?fs = "u_fs s"
  define ip where "ip = (if fs_ncg ?fs * fs_ipg ?fs \<le> ipref then 0 else ipref)"
  note geom = ufs_okD(1) [OF assms(1)]
  have cg: "itog ?fs ip < fs_ncg ?fs" using fs_geomD(11,12) [OF geom] by (simp add: itog_def ip_def div_less_iff_less_mult)
  have inv: "inode_inv (fs_ncg ?fs) s" using assms(1) by (simp add: inode_inv_def)
  from inodes.hashalloc_result [OF inv cg, of mode ip] obtain n t where
    h: "hashalloc (\<lambda>cg pref s. ialloccg s cg pref mode) (fs_ncg ?fs) (itog ?fs ip) ip s = Some (n, t)"
    "if n = 0 then no_change s t \<and> (\<forall>i < fs_ncg ?fs. \<not> inode_room s i) else inode_given s n t" by blast
  have c: "ialloc iget s ipref mode = (if n = 0 then Some (None, t\<lparr>u_error := ENOSPC\<rparr>)
      else (case iget n of None \<Rightarrow> None | Some m \<Rightarrow> if m \<noteq> 0 then None else Some (Some n, t)))"
    using False h(1) unfolding ialloc_def Let_def ip_def [symmetric] by (simp add: nospace_def)
  show ?thesis
  proof (cases "n = 0")
    case True
    then show ?thesis using c h(2) by auto
  next
    case n: False
    then have g: "inode_given s n t" using h(2) by simp
    then have "iget n = Some 0" by (intro assms(2)) (simp add: inode_given_def)
    then show ?thesis using c n g by simp
  qed
qed

section \<open>Freeing\<close>

lemma ifree_outcome:
  assumes "ufs_ok s" "n \<noteq> 0" "\<not> u_rderr s (itog (u_fs s) n)"
  shows "if n \<in> used_inodes s
    then \<exists>s'. ifree s n mode = Some s' \<and> ufs_ok s' \<and> frame s s' \<and> used_inodes s' = used_inodes s - {n} \<and> free_set s' = free_set s
    else ifree s n mode = None"
proof -
  let ?fs = "u_fs s"
  define i where "i = itog ?fs n"
  define j where "j = n mod fs_ipg ?fs"
  define d :: int where "d = (if mode AND IFMT = IFDIR then - 1 else 0)"
  note geom = ufs_okD(1) [OF assms(1)]
  have pos: "0 < fs_ipg ?fs" using fs_geomD(12) [OF geom] .
  have j: "j < fs_ipg ?fs" using pos by (simp add: j_def)
  have n: "n = i * fs_ipg ?fs + j" by (simp add: i_def j_def itog_def)
  show ?thesis
  proof (cases "n < fs_ncg ?fs * fs_ipg ?fs")
    case False
    then show ?thesis by (simp add: mem_used_inodes ifree_def Let_def mult.commute)
  next
    case lt: True
    then have i: "i < fs_ncg ?fs" using pos by (simp add: i_def itog_def div_less_iff_less_mult)
    have rd: "cgread s i = Some (Some (u_cg s i))" using cgread_ok [OF assms(1) i] assms(3) by (simp add: i_def)
    have nr: "\<not> fs_ipg ?fs * fs_ncg ?fs \<le> n" using lt by (simp add: mult.commute)
    define s' where "s' = (cgput s i ((u_cg s i)\<lparr>cg_time := u_time s, cg_iused := clrbit (cg_iused (u_cg s i)) j,
        cg_cs := inode_count 1 d (cg_cs (u_cg s i))\<rparr>))\<lparr>u_fs := (fs_count (inode_count 1 d) i ?fs)\<lparr>fs_fmod := fs_fmod ?fs + 1\<rparr>\<rparr>"
    have call: "ifree s n mode = (if isset (cg_iused (u_cg s i)) j then Some s' else None)"
      using nr unfolding ifree_def Let_def i_def [symmetric] rd s'_def d_def j_def by (simp add: isclr_isset)
    show ?thesis
    proof (cases "n \<in> used_inodes s")
      case False
      then show ?thesis using call lt by (simp add: mem_used_inodes i_def j_def)
    next
      case True
      then have u: "isset (cg_iused (u_cg s i)) j" by (simp add: mem_used_inodes i_def j_def)
      have root: "i = 0 \<Longrightarrow> j = 0 \<Longrightarrow> False" using n assms(2) by simp
      have rot: "cg_irotor (u_cg s i) < fs_ipg ?fs" using ufs_okD(4) [OF assms(1) i] by (simp add: cg_ok_def cg_inodes_ok_def)
      have "ufs_ok s' \<and> frame s s' \<and> free_set s' = free_set s \<and> used_inodes s' = (if False then insert (i * fs_ipg ?fs + j) (used_inodes s)
        else used_inodes s - {i * fs_ipg ?fs + j})"
        by (rule inode_step [OF assms(1) i j _ _ _ root _ _ _ _ _ _ _ _ _ s'_def, where b = d])
          (use u rot in \<open>simp_all add: counted_fmod counted_count [OF geom]\<close>)
      then show ?thesis using True call u n by simp
    qed
  qed
qed

text \<open>Freeing the inode that was handed out restores the set in use.\<close>

lemma ifree_undoes_ialloc:
  assumes "ufs_ok s" "\<And>n. n \<notin> used_inodes s \<Longrightarrow> iget n = Some 0"
    and "ialloc iget s ipref mode = Some (Some n, t)" "\<not> u_rderr s (itog (u_fs s) n)"
  shows "\<exists>s'. ifree t n mode = Some s' \<and> ufs_ok s' \<and> used_inodes s' = used_inodes s \<and> free_set s' = free_set s"
proof -
  have g: "inode_given s n t" using ialloc_outcome [of s iget ipref mode] assms(1-3) by auto
  then have t: "ufs_ok t" "frame s t" "n \<notin> used_inodes s" "used_inodes t = insert n (used_inodes s)" "free_set t = free_set s"
    by (simp_all add: inode_given_def)
  have "0 \<in> used_inodes s"
    using ufs_okD(4) [OF assms(1), of 0] fs_geomD(11,12) [OF ufs_okD(1) [OF assms(1)]]
    by (simp add: mem_used_inodes itog_def cg_ok_def cg_inodes_ok_def)
  then have n: "n \<noteq> 0" using t(3) by (metis (no_types))
  have rd: "\<not> u_rderr t (itog (u_fs t) n)" 
    using assms(4) same_geom_sel(24) [of "u_fs s" "u_fs t"] frame_sel(2) [OF t(2)] t(2) by (simp add: frame_def)
  show ?thesis using ifree_outcome [OF t(1) n rd, of mode] t(3-5) by auto
qed

section \<open>Placement\<close>

lemma exists_average:
  assumes "0 < n" "(\<Sum>i < n. f i) = (t::int)" "\<And>i. i < n \<Longrightarrow> 0 \<le> f i"
  shows "\<exists>i < n. c_div t (int n) \<le> f i"
proof (rule ccontr)
  have t: "0 \<le> t" using assms(2,3) by (metis lessThan_iff sum_nonneg)
  assume "\<not> (\<exists>i < n. c_div t (int n) \<le> f i)"
  then have "\<And>i. i \<in> {..<n} \<Longrightarrow> f i < t div int n" using assms(1) t by (auto simp: c_div_pos not_le)
  then have "(\<Sum>i < n. f i) < (\<Sum>i < n. t div int n)" using assms(1) by (intro sum_strict_mono) auto
  also have "... = int n * (t div int n)" by simp
  also have "... \<le> t" using assms(1) by (metis mult.commute div_times_less_eq_dividend minus_mod_eq_div_mult mult_div_mod_eq add_increasing2 le_add_same_cancel1 of_nat_0_less_iff pos_mod_sign)
  finally show False using assms(2) by simp
qed

text \<open>The scan of \<open>dirpref\<close>: the first group with the least value among those that pass.\<close>

lemma least_scan:
  fixes f :: "nat \<Rightarrow> int" and lim q
  defines "P \<equiv> \<lambda>c. f c < lim \<and> q c"
  assumes "fold (\<lambda>cg (m, d). if f cg < d \<and> q cg then (cg, f cg) else (m, d)) [0..<n] (0, lim) = (m, d)"
  shows "(\<forall>c < n. P c \<longrightarrow> d \<le> f c) \<and>
    ((m = 0 \<and> d = lim \<and> (\<forall>c < n. \<not> P c)) \<or> (m < n \<and> P m \<and> d = f m \<and> (\<forall>c < m. P c \<longrightarrow> f m < f c)))"
  using assms(2)
proof (induction n arbitrary: m d)
  case (Suc n)
  obtain m' d' where r: "fold (\<lambda>cg (m, d). if f cg < d \<and> q cg then (cg, f cg) else (m, d)) [0..<n] (0, lim) = (m', d')" by fastforce
  note IH = Suc.IH [OF r]
  have md: "(m, d) = (if f n < d' \<and> q n then (n, f n) else (m', d'))" using Suc.prems r by simp
  have lim: "d' \<le> lim" using IH by (auto simp: P_def)
  show ?case
  proof (cases "f n < d' \<and> q n")
    case True
    then have e: "m = n" "d = f n" using md by simp_all
    have "P n" using True lim by (simp add: P_def)
    moreover have "\<forall>c < n. P c \<longrightarrow> f n < f c" using IH True by fastforce
    ultimately show ?thesis using e by (auto simp: less_Suc_eq less_imp_le)
  next
    case False
    then have e: "m = m'" "d = d'" using md by auto
    have "P n \<longrightarrow> d' \<le> f n" using False by (auto simp: P_def)
    moreover have "d' = lim \<longrightarrow> \<not> P n" using False by (auto simp: P_def)
    ultimately show ?thesis using IH e by (auto simp: less_Suc_eq)
  qed
qed simp

lemma dirpref_outcome:
  fixes fs
  defines "P \<equiv> \<lambda>c. cs_ndir (fs_cs fs c) < int (fs_ipg fs) \<and> c_div (cs_nifree (fs_cstotal fs)) (int (fs_ncg fs)) \<le> cs_nifree (fs_cs fs c)"
  shows "if \<exists>c < fs_ncg fs. P c
    then \<exists>m < fs_ncg fs. dirpref fs = fs_ipg fs * m \<and> P m \<and>
      (\<forall>c < fs_ncg fs. P c \<longrightarrow> cs_ndir (fs_cs fs m) \<le> cs_ndir (fs_cs fs c)) \<and> (\<forall>c < m. P c \<longrightarrow> cs_ndir (fs_cs fs m) < cs_ndir (fs_cs fs c))
    else dirpref fs = 0"
proof -
  let ?q = "\<lambda>c. c_div (cs_nifree (fs_cstotal fs)) (int (fs_ncg fs)) \<le> cs_nifree (fs_cs fs c)"
  obtain m d where r: "fold (\<lambda>cg (m, d). if cs_ndir (fs_cs fs cg) < d \<and> ?q cg then (cg, cs_ndir (fs_cs fs cg)) else (m, d))
    [0..<fs_ncg fs] (0, int (fs_ipg fs)) = (m, d)" by fastforce
  have d: "dirpref fs = fs_ipg fs * m" using r by (simp add: dirpref_def Let_def)
  have L: "(\<forall>c < fs_ncg fs. P c \<longrightarrow> d \<le> cs_ndir (fs_cs fs c)) \<and>
    ((m = 0 \<and> d = int (fs_ipg fs) \<and> (\<forall>c < fs_ncg fs. \<not> P c)) \<or>
     (m < fs_ncg fs \<and> P m \<and> d = cs_ndir (fs_cs fs m) \<and> (\<forall>c < m. P c \<longrightarrow> cs_ndir (fs_cs fs m) < cs_ndir (fs_cs fs c))))"
    unfolding P_def by (rule least_scan [OF r])
  from L [THEN conjunct2] show ?thesis
  proof (elim disjE conjE)
    assume "m = 0" "\<forall>c < fs_ncg fs. \<not> P c"
    then have "\<not> (\<exists>c < fs_ncg fs. P c)" by blast
    then show ?thesis using d \<open>m = 0\<close> by (simp only: if_False mult_0_right)
  next
    assume m: "m < fs_ncg fs" "P m" "d = cs_ndir (fs_cs fs m)" "\<forall>c < m. P c \<longrightarrow> cs_ndir (fs_cs fs m) < cs_ndir (fs_cs fs c)"
    then have ex: "\<exists>c < fs_ncg fs. P c" by blast
    show ?thesis unfolding if_P [OF ex]
      by (rule exI [of _ m], intro conjI m d) (use L [THEN conjunct1] m(3) in simp)
  qed
qed

lemma sweep_order:
  assumes "r < n" "k < n"
  shows "([r + 1..<n] @ [0..<r + 1]) ! k = (r + 1 + k) mod n"
proof (cases "r + 1 + k < n")
  case True
  then have "k < n - Suc r" by simp
  then show ?thesis using True by (simp add: nth_append)
next
  case False
  then have "(r + 1 + k) mod n = r + 1 + k - n" using assms by (simp add: mod_if)
  moreover have "\<not> k < n - Suc r" "k - (n - Suc r) = r + 1 + k - n" using False assms(1) by auto
  ultimately show ?thesis using assms(2) by (simp add: nth_append del: upt_Suc)
qed

lemma find_sweep:
  assumes "r < n" "\<exists>c < n. P c"
  shows "\<exists>k < n. find P ([r + 1..<n] @ [0..<r + 1]) = Some ((r + 1 + k) mod n) \<and> P ((r + 1 + k) mod n) \<and> (\<forall>j < k. \<not> P ((r + 1 + j) mod n))"
proof -
  let ?xs = "[r + 1..<n] @ [0..<r + 1]"
  have len: "List.length ?xs = n" using assms(1) by simp
  have "set ?xs = {..<n}" using assms(1) by auto
  then obtain c where "find P ?xs = Some c" using assms(2) by (metis find_None_iff lessThan_iff not_None_eq)
  then obtain k where k: "k < n" "P (?xs ! k)" "c = ?xs ! k" "\<forall>j < k. \<not> P (?xs ! j)" "find P ?xs = Some c"
    unfolding find_Some_iff len by blast
  then show ?thesis using sweep_order [OF assms(1)] by (intro exI [of _ k]) auto
qed

lemma roundup_dvd: "y dvd roundup x y"
  by (simp add: roundup_def)

text \<open>The preferred address is the start of a block.\<close>

lemma blkpref_aligned:
  assumes "fs_geom fs" "fs_frag fs dvd bap (indx - 1)"
  shows "fs_frag fs dvd fst (blkpref fs inumber lbn indx bap)"
  using assms(2) fs_geomD(8) [OF assms(1)] unfolding blkpref_def Let_def
  by (auto simp: roundup_dvd split: option.splits)

section \<open>Properties\<close>



text \<open>
  C30: In a readable group, \<open>ifree\<close> of an inode in use takes exactly that number out of the map of inodes and keeps the invariant,
  and \<open>ifree\<close> of any other number panics.  So \<open>ifree\<close> takes back what \<open>ialloc\<close> has handed out, once.
\<close>

theorem ifree_exact:
  assumes "ufs_ok s" "n \<noteq> 0" "\<not> u_rderr s (itog (u_fs s) n)"
  shows "if n \<in> used_inodes s
    then \<exists>s'. ifree s n mode = Some s' \<and> ufs_ok s' \<and> used_inodes s' = used_inodes s - {n} \<and> free_set s' = free_set s \<and> ifree s' n mode' = None
    else ifree s n mode = None"
proof (cases "n \<in> used_inodes s")
  case True
  then obtain s' where s': "ifree s n mode = Some s'" "ufs_ok s'" "frame s s'" "used_inodes s' = used_inodes s - {n}" "free_set s' = free_set s"
    using ifree_outcome [OF assms, of mode] by auto
  have "\<not> u_rderr s' (itog (u_fs s') n)"
    using assms(3) same_geom_sel(24) [of "u_fs s" "u_fs s'"] frame_sel(2) [OF s'(3)] s'(3) by (simp add: frame_def)
  then have "ifree s' n mode' = None" using ifree_outcome [OF s'(2) assms(2), of mode'] s'(4) by simp
  then show ?thesis using True s' by auto
next
  case False
  then show ?thesis using ifree_outcome [OF assms, of mode] by simp
qed

theorem ifree_exact_witness:
  "(\<exists>s'. ifree tiny 2 IFDIR = Some s' \<and> ufs_ok s' \<and> used_inodes s' = used_inodes tiny - {2} \<and> free_set s' = free_set tiny \<and> ifree s' 2 0 = None) \<and>
   ifree tiny 3 0 = None"
proof -
  have "2 \<in> used_inodes tiny" "3 \<notin> used_inodes tiny" by (simp_all add: mem_used_inodes itog_def tiny_inodes)
  then show ?thesis using ifree_exact [of tiny 2 IFDIR 0, OF tiny_ok] ifree_exact [of tiny 3 0 0, OF tiny_ok] by simp
qed

text \<open>
  \<open>dirpref\<close> names the first inode of the group with the fewest directories among the groups with at least the average of free
  inodes and fewer directories than inodes, the first such group if there are several, and group 0 if there is none.
\<close>

theorem dirpref_least:
  "if \<exists>c < fs_ncg fs. cs_ndir (fs_cs fs c) < int (fs_ipg fs) \<and> c_div (cs_nifree (fs_cstotal fs)) (int (fs_ncg fs)) \<le> cs_nifree (fs_cs fs c)
   then \<exists>m < fs_ncg fs. dirpref fs = fs_ipg fs * m \<and> cs_ndir (fs_cs fs m) < int (fs_ipg fs) \<and>
      c_div (cs_nifree (fs_cstotal fs)) (int (fs_ncg fs)) \<le> cs_nifree (fs_cs fs m) \<and>
      (\<forall>c < fs_ncg fs. c_div (cs_nifree (fs_cstotal fs)) (int (fs_ncg fs)) \<le> cs_nifree (fs_cs fs c) \<longrightarrow>
         cs_ndir (fs_cs fs m) \<le> cs_ndir (fs_cs fs c) \<and> (c < m \<longrightarrow> cs_ndir (fs_cs fs m) < cs_ndir (fs_cs fs c)))
   else dirpref fs = 0"
proof (cases "\<exists>c < fs_ncg fs. cs_ndir (fs_cs fs c) < int (fs_ipg fs) \<and> c_div (cs_nifree (fs_cstotal fs)) (int (fs_ncg fs)) \<le> cs_nifree (fs_cs fs c)")
  case True
  with dirpref_outcome [of fs] obtain m where m: "m < fs_ncg fs" "dirpref fs = fs_ipg fs * m" "cs_ndir (fs_cs fs m) < int (fs_ipg fs)"
    "c_div (cs_nifree (fs_cstotal fs)) (int (fs_ncg fs)) \<le> cs_nifree (fs_cs fs m)"
    "\<And>c. c < fs_ncg fs \<Longrightarrow> cs_ndir (fs_cs fs c) < int (fs_ipg fs) \<Longrightarrow> c_div (cs_nifree (fs_cstotal fs)) (int (fs_ncg fs)) \<le> cs_nifree (fs_cs fs c) \<Longrightarrow>
      cs_ndir (fs_cs fs m) \<le> cs_ndir (fs_cs fs c)"
    "\<And>c. c < m \<Longrightarrow> cs_ndir (fs_cs fs c) < int (fs_ipg fs) \<Longrightarrow> c_div (cs_nifree (fs_cstotal fs)) (int (fs_ncg fs)) \<le> cs_nifree (fs_cs fs c) \<Longrightarrow>
      cs_ndir (fs_cs fs m) < cs_ndir (fs_cs fs c)"
    unfolding if_P [OF True] by blast
  have "cs_ndir (fs_cs fs m) \<le> cs_ndir (fs_cs fs c) \<and> (c < m \<longrightarrow> cs_ndir (fs_cs fs m) < cs_ndir (fs_cs fs c))"
    if "c < fs_ncg fs" "c_div (cs_nifree (fs_cstotal fs)) (int (fs_ncg fs)) \<le> cs_nifree (fs_cs fs c)" for c
    using m(3) m(5) [OF that(1) _ that(2)] m(6) [OF _ _ that(2)] by (cases "cs_ndir (fs_cs fs c) < int (fs_ipg fs)") auto
  then show ?thesis unfolding if_P [OF True] using m(1-4) by blast
next
  case False
  then show ?thesis unfolding if_not_P [OF False] using dirpref_outcome [of fs] by (simp only: if_False)
qed

theorem dirpref_least_witness:
  "dirpref tiny_fs = 4 \<and>
   (if \<exists>c < fs_ncg tiny_fs. cs_ndir (fs_cs tiny_fs c) < int (fs_ipg tiny_fs) \<and> c_div (cs_nifree (fs_cstotal tiny_fs)) (int (fs_ncg tiny_fs)) \<le> cs_nifree (fs_cs tiny_fs c)
    then \<exists>m < fs_ncg tiny_fs. dirpref tiny_fs = fs_ipg tiny_fs * m \<and> cs_ndir (fs_cs tiny_fs m) < int (fs_ipg tiny_fs) \<and>
      c_div (cs_nifree (fs_cstotal tiny_fs)) (int (fs_ncg tiny_fs)) \<le> cs_nifree (fs_cs tiny_fs m) \<and>
      (\<forall>c < fs_ncg tiny_fs. c_div (cs_nifree (fs_cstotal tiny_fs)) (int (fs_ncg tiny_fs)) \<le> cs_nifree (fs_cs tiny_fs c) \<longrightarrow>
         cs_ndir (fs_cs tiny_fs m) \<le> cs_ndir (fs_cs tiny_fs c) \<and> (c < m \<longrightarrow> cs_ndir (fs_cs tiny_fs m) < cs_ndir (fs_cs tiny_fs c)))
    else dirpref tiny_fs = 0)"
proof
  show "dirpref tiny_fs = 4" by (simp add: dirpref_def tiny_total c_div_pos tiny_fs_cs tiny_cs_def upt_rec)
qed (rule dirpref_least)

text \<open>
  The first block of a section past the direct blocks is sent to the next group in turn after the rotor that has at least the
  average of free blocks, and the rotor moves there; under the invariant there always is such a group, so the
  search does not fail.
\<close>

theorem blkpref_sweeps:
  assumes "ufs_ok s" "fs_cgrotor (u_fs s) < fs_ncg (u_fs s)" "indx mod fs_maxbpg (u_fs s) = 0 \<or> bap (indx - 1) = 0" "NDADDR \<le> lbn"
  shows "\<exists>k < fs_ncg (u_fs s). \<exists>cg. cg = (fs_cgrotor (u_fs s) + 1 + k) mod fs_ncg (u_fs s) \<and>
    blkpref (u_fs s) inumber lbn indx bap = (fs_fpg (u_fs s) * cg + fs_frag (u_fs s), (u_fs s)\<lparr>fs_cgrotor := cg\<rparr>) \<and>
    c_div (cs_nbfree (fs_cstotal (u_fs s))) (int (fs_ncg (u_fs s))) \<le> cs_nbfree (fs_cs (u_fs s) cg) \<and>
    (\<forall>j < k. cs_nbfree (fs_cs (u_fs s) ((fs_cgrotor (u_fs s) + 1 + j) mod fs_ncg (u_fs s))) < c_div (cs_nbfree (fs_cstotal (u_fs s))) (int (fs_ncg (u_fs s))))"
proof -
  let ?fs = "u_fs s"
  let ?P = "\<lambda>cg. c_div (cs_nbfree (fs_cstotal ?fs)) (int (fs_ncg ?fs)) \<le> cs_nbfree (fs_cs ?fs cg)"
  note geom = ufs_okD(1) [OF assms(1)]
  have nn: "0 \<le> cs_nbfree (cg_cs (u_cg s j))" if "j < fs_ncg ?fs" for j
    using ufs_okD(6) [OF assms(1) that] by (simp add: cg_map_ok_def cg_counts_def tally_def sum_nonneg free_blocks_nonneg)
  have "(\<Sum>i < fs_ncg ?fs. cs_nbfree (cg_cs (u_cg s i))) = cs_nbfree (fs_cstotal ?fs)"
    using assms(1) by (simp add: ufs_ok_def total_def)
  from exists_average [OF fs_geomD(11) [OF geom] this nn] have "\<exists>c < fs_ncg ?fs. ?P c" using ufs_okD(5) [OF assms(1)] by auto
  from find_sweep [OF assms(2) this] obtain k where
    k: "k < fs_ncg ?fs" "find ?P ([fs_cgrotor ?fs + 1..<fs_ncg ?fs] @ [0..<fs_cgrotor ?fs + 1]) = Some ((fs_cgrotor ?fs + 1 + k) mod fs_ncg ?fs)"
    "?P ((fs_cgrotor ?fs + 1 + k) mod fs_ncg ?fs)" "\<forall>j < k. \<not> ?P ((fs_cgrotor ?fs + 1 + j) mod fs_ncg ?fs)" by blast
  have "blkpref ?fs inumber lbn indx bap =
    (fs_fpg ?fs * ((fs_cgrotor ?fs + 1 + k) mod fs_ncg ?fs) + fs_frag ?fs, ?fs\<lparr>fs_cgrotor := (fs_cgrotor ?fs + 1 + k) mod fs_ncg ?fs\<rparr>)"
    using assms(3,4) unfolding blkpref_def Let_def k(2) by simp
  then show ?thesis using k(1,3,4) by (auto simp: not_le)
qed

theorem blkpref_sweeps_witness:
  "\<exists>k < 2. \<exists>cg. cg = (1 + k) mod 2 \<and>
    blkpref tiny_fs 5 12 0 (\<lambda>_. 0) = (8 * cg + 2, tiny_fs\<lparr>fs_cgrotor := cg\<rparr>) \<and>
    c_div (cs_nbfree (fs_cstotal tiny_fs)) 2 \<le> cs_nbfree (fs_cs tiny_fs cg) \<and>
    (\<forall>j < k. cs_nbfree (fs_cs tiny_fs ((1 + j) mod 2)) < c_div (cs_nbfree (fs_cstotal tiny_fs)) 2)"
  using blkpref_sweeps [of tiny 0 "\<lambda>_. 0" 12 5, OF tiny_ok] by (simp add: NDADDR_def)

end
