(* ===== verification/Ufs_Client.thy ===== *)
theory Ufs_Client
  imports Ufs_Free Ufs_Inode
begin

text \<open>
  The users of the allocator (sys/ufs_alloc.c): any sequence of calls of \<open>alloc\<close>, \<open>realloccg\<close>, \<open>free\<close>,
  \<open>ialloc\<close> and \<open>ifree\<close> in which a caller frees and grows only the pieces it was given, on groups that can be
  read.  A piece is the address of its first fragment and its length in fragments.
\<close>

section \<open>Sequences of calls\<close>

inductive calls :: "ufs \<Rightarrow> (nat \<times> nat) set \<Rightarrow> ufs \<Rightarrow> (nat \<times> nat) set \<Rightarrow> bool" for s0 own0 where
  start: "calls s0 own0 s0 own0"
| call_alloc: "calls s0 own0 s own \<Longrightarrow> 0 < k \<Longrightarrow> k \<le> fs_frag (u_fs s) \<Longrightarrow> inumber < fs_ncg (u_fs s) * fs_ipg (u_fs s) \<Longrightarrow>
    alloc s inumber bpref (k * fs_fsize (u_fs s)) = Some (r, s') \<Longrightarrow>
    own' = (case r of None \<Rightarrow> own | Some b \<Rightarrow> insert (b, k) own) \<Longrightarrow> calls s0 own0 s' own'"
| call_grow: "calls s0 own0 s own \<Longrightarrow> (b, ok) \<in> own \<Longrightarrow> ok < nk \<Longrightarrow> nk \<le> fs_frag (u_fs s) \<Longrightarrow>
    \<not> u_rderr s (dtog (u_fs s) b) \<Longrightarrow> \<not> u_drderr s b \<Longrightarrow>
    realloccg s b bpref (ok * fs_fsize (u_fs s)) (nk * fs_fsize (u_fs s)) = Some (r, s') \<Longrightarrow>
    own' = (case r of None \<Rightarrow> own | Some n \<Rightarrow> insert (n, nk) (own - {(b, ok)})) \<Longrightarrow> calls s0 own0 s' own'"
| call_free: "calls s0 own0 s own \<Longrightarrow> (b, k) \<in> own \<Longrightarrow> \<not> u_rderr s (dtog (u_fs s) b) \<Longrightarrow>
    ufs_free s b (k * fs_fsize (u_fs s)) = Some s' \<Longrightarrow> calls s0 own0 s' (own - {(b, k)})"
| call_ialloc: "calls s0 own0 s own \<Longrightarrow> (\<And>n. n \<notin> used_inodes s \<Longrightarrow> iget n = Some 0) \<Longrightarrow>
    ialloc iget s ipref mode = Some (r, s') \<Longrightarrow> calls s0 own0 s' own"
| call_ifree: "calls s0 own0 s own \<Longrightarrow> n \<in> used_inodes s \<Longrightarrow> n \<noteq> 0 \<Longrightarrow> \<not> u_rderr s (itog (u_fs s) n) \<Longrightarrow>
    ifree s n mode = Some s' \<Longrightarrow> calls s0 own0 s' own"

section \<open>What the callers hold\<close>

definition span_of :: "nat \<times> nat \<Rightarrow> nat set" where
  "span_of p = {fst p..<fst p + snd p}"

definition held :: "(nat \<times> nat) set \<Rightarrow> nat set" where
  "held own = (\<Union>p \<in> own. span_of p)"

definition piece_ok :: "fs \<Rightarrow> nat \<times> nat \<Rightarrow> bool" where
  "piece_ok fs p \<longleftrightarrow> 0 < snd p \<and> snd p \<le> fs_frag fs \<and> 0 < fst p \<and> fst p + snd p \<le> fs_size fs \<and> fst p mod fs_frag fs + snd p \<le> fs_frag fs"

definition pieces_ok :: "ufs \<Rightarrow> (nat \<times> nat) set \<Rightarrow> bool" where
  "pieces_ok s own \<longleftrightarrow> (\<forall>p \<in> own. piece_ok (u_fs s) p) \<and> held own \<inter> free_set s = {} \<and>
     (\<forall>p \<in> own. \<forall>q \<in> own. p \<noteq> q \<longrightarrow> span_of p \<inter> span_of q = {})"

lemma held_insert [simp]: "held (insert p own) = span_of p \<union> held own"
  by (simp add: held_def)

lemma held_remove:
  assumes "pieces_ok s own" "p \<in> own"
  shows "held (own - {p}) = held own - span_of p"
  using assms unfolding pieces_ok_def held_def by blast

lemma pieces_ok_same: "pieces_ok s own \<Longrightarrow> same_geom (u_fs s) (u_fs s') \<Longrightarrow> free_set s' = free_set s \<Longrightarrow> pieces_ok s' own"
  by (simp add: pieces_ok_def piece_ok_def same_geom_sel)

lemma pieces_ok_insert:
  assumes "pieces_ok s own" "same_geom (u_fs s) (u_fs s')" "piece_ok (u_fs s) p" "span_of p \<subseteq> free_set s" "free_set s' = free_set s - span_of p"
  shows "pieces_ok s' (insert p own)"
proof -
  have "span_of p \<inter> held own = {}" using assms(1,4) unfolding pieces_ok_def by blast
  then have "\<forall>q \<in> own. span_of p \<inter> span_of q = {}" by (auto simp: held_def)
  then show ?thesis using assms unfolding pieces_ok_def piece_ok_def same_geom_sel [OF assms(2)] by (auto simp: Int_commute)
qed

lemma pieces_ok_remove:
  assumes "pieces_ok s own" "same_geom (u_fs s) (u_fs s')" "p \<in> own" "free_set s' = free_set s \<union> span_of p"
  shows "pieces_ok s' (own - {p})"
proof -
  have "held (own - {p}) \<inter> free_set s' = {}"
    using assms(1,4) held_remove [OF assms(1,3)] by (auto simp: pieces_ok_def)
  then show ?thesis using assms(1) unfolding pieces_ok_def piece_ok_def same_geom_sel [OF assms(2)] by auto
qed

lemma pieces_ok_gave:
  assumes "pieces_ok s own" "ufs_ok s" "gave k s b t" "0 < k" "b \<noteq> 0" "k \<le> fs_frag (u_fs s)"
  shows "piece_ok (u_fs s) (b, k)"
proof -
  have "b + k - 1 \<in> free_set s" using assms(3,4) by (auto simp: gave_def)
  from free_set_below [OF assms(2) this] show ?thesis using assms(3-6) by (simp add: piece_ok_def gave_def)
qed

lemma pieces_ok_moved:
  assumes "pieces_ok s own" "ufs_ok s" "(b, ok) \<in> own" "ok < nk" "moved s b ok nk n s'" "same_geom (u_fs s) (u_fs s')"
  shows "pieces_ok s' (insert (n, nk) (own - {(b, ok)})) \<and>
    free_set s' \<union> held (insert (n, nk) (own - {(b, ok)})) = free_set s \<union> held own"
proof -
  let ?own = "own - {(b, ok)}"
  have m: "free_set s' \<union> span_of (n, nk) = free_set s \<union> span_of (b, ok)" "free_set s' \<inter> span_of (n, nk) = {}"
    "0 < n" "n mod fs_frag (u_fs s) + nk \<le> fs_frag (u_fs s)"
    using assms(5) by (simp_all add: moved_def Let_def span_of_def)
  have p: "piece_ok (u_fs s) (b, ok)" "span_of (b, ok) \<subseteq> held own" using assms(1,3) unfolding pieces_ok_def held_def by blast+
  note h = held_remove [OF assms(1,3)]
  have "n + nk - 1 \<in> span_of (n, nk)" using assms(4) by (auto simp: span_of_def)
  then have "n + nk - 1 \<in> free_set s \<or> n + nk - 1 \<in> span_of (b, ok)" using m(1) by blast
  then have "n + nk - 1 < fs_size (u_fs s)"
    using free_set_below [OF assms(2)] p(1) by (auto simp: piece_ok_def span_of_def)
  then have "piece_ok (u_fs s) (n, nk)" using assms(4) m(3,4) by (simp add: piece_ok_def)
  moreover have "span_of (n, nk) \<inter> held ?own = {}" using m(1) assms(1) h unfolding pieces_ok_def by blast
  then have "\<forall>q \<in> ?own. span_of (n, nk) \<inter> span_of q = {}" by (auto simp: held_def)
  moreover have "held (insert (n, nk) ?own) \<inter> free_set s' = {}" using m assms(1) h by (auto simp: pieces_ok_def)
  ultimately have "pieces_ok s' (insert (n, nk) ?own)"
    using assms(1) unfolding pieces_ok_def piece_ok_def same_geom_sel [OF assms(6)] by (auto simp: Int_commute)
  moreover have "free_set s' \<union> held (insert (n, nk) ?own) = free_set s \<union> held own" using m(1) h p(2) by auto
  ultimately show ?thesis by blast
qed

section \<open>The invariant\<close>

lemma calls_ok:
  assumes "calls s0 own0 s own" "ufs_ok s0" "pieces_ok s0 own0"
  shows "ufs_ok s \<and> same_geom (u_fs s0) (u_fs s) \<and> pieces_ok s own \<and> free_set s \<union> held own = free_set s0 \<union> held own0"
  using assms(1)
proof induction
  case start
  then show ?case using assms(2,3) by simp
next
  case (call_alloc s own k inumber bpref r s' own')
  then have ok: "ufs_ok s" "same_geom (u_fs s0) (u_fs s)" "pieces_ok s own" "free_set s \<union> held own = free_set s0 \<union> held own0" by simp_all
  note out = alloc_outcome [OF ok(1) call_alloc.hyps(2-4), of bpref, unfolded call_alloc.hyps(5)]
  show ?case
  proof (cases r)
    case None
    then obtain t where "no_change s t" "s' = t\<lparr>u_error := ENOSPC\<rparr>" using out by auto
    then have t: "ufs_ok s'" "u_fs s' = u_fs s" "free_set s' = free_set s"
      using no_change_free_set [of s t] by (simp_all add: no_change_def ufs_ok_data mem_free_set set_eq_iff)
    then show ?thesis using ok pieces_ok_same [OF ok(3), of s'] None call_alloc.hyps(6) by simp
  next
    case (Some b)
    then obtain t where t: "gave k s b t" "s' = clrdata t b 0 (k * fs_fsize (u_fs s))" "b \<noteq> 0" using out by auto
    then have g: "ufs_ok s'" "same_geom (u_fs s) (u_fs s')" "span_of (b, k) \<subseteq> free_set s" "free_set s' = free_set s - span_of (b, k)"
      by (simp_all add: gave_def frame_def span_of_def)
    have "pieces_ok s' (insert (b, k) own)"
      by (rule pieces_ok_insert [OF ok(3) g(2) pieces_ok_gave [OF ok(3,1) t(1) call_alloc.hyps(2) t(3) call_alloc.hyps(3)] g(3,4)])
    then show ?thesis using ok(2,4) g same_geom_trans [OF ok(2) g(2)] Some call_alloc.hyps(6) by auto
  qed
next
  case (call_grow s own b ok nk bpref r s' own')
  then have inv: "ufs_ok s" "same_geom (u_fs s0) (u_fs s)" "pieces_ok s own" "free_set s \<union> held own = free_set s0 \<union> held own0" by simp_all
  have p: "piece_ok (u_fs s) (b, ok)" "span_of (b, ok) \<inter> free_set s = {}"
    using inv(3) call_grow.hyps(2) unfolding pieces_ok_def held_def by blast+
  have out: "ufs_ok s' \<and> same_geom (u_fs s) (u_fs s') \<and>
    (case r of Some n \<Rightarrow> moved s b ok nk n s' | None \<Rightarrow> free_set s' = free_set s \<and> u_data s' = u_data s \<and> u_error s' = ENOSPC)"
    using realloccg_outcome [of s ok nk b bpref] inv(1) p call_grow.hyps(3-7) by (auto simp: piece_ok_def span_of_def)
  show ?case
  proof (cases r)
    case None
    then show ?thesis using out inv pieces_ok_same [OF inv(3), of s'] same_geom_trans [OF inv(2)] call_grow.hyps(8) by simp
  next
    case (Some n)
    then have own': "own' = insert (n, nk) (own - {(b, ok)})" and m: "moved s b ok nk n s'" using call_grow.hyps(8) out by simp_all
    from pieces_ok_moved [OF inv(3,1) call_grow.hyps(2,3) m] out inv(2,4) same_geom_trans show ?thesis unfolding own' by auto
  qed
next
  case (call_free s own b k s')
  then have inv: "ufs_ok s" "same_geom (u_fs s0) (u_fs s)" "pieces_ok s own" "free_set s \<union> held own = free_set s0 \<union> held own0" by simp_all
  have p: "piece_ok (u_fs s) (b, k)" "span_of (b, k) \<inter> free_set s = {}" "span_of (b, k) \<subseteq> held own"
    using inv(3) call_free.hyps(2) unfolding pieces_ok_def held_def by blast+
  have "ufs_ok s' \<and> frame s s' \<and> free_set s' = free_set s \<union> span_of (b, k)"
    using ufs_free_gives_back [of s k b] inv(1) p(1,2) call_free.hyps(3,4) by (auto simp: piece_ok_def span_of_def)
  then have g: "ufs_ok s'" "same_geom (u_fs s) (u_fs s')" "free_set s' = free_set s \<union> span_of (b, k)" by (simp_all add: frame_def)
  then show ?case
    using pieces_ok_remove [OF inv(3) g(2) call_free.hyps(2) g(3)] held_remove [OF inv(3) call_free.hyps(2)] same_geom_trans [OF inv(2) g(2)]
      p(3) inv(4) by auto
next
  case (call_ialloc s own iget ipref mode r s')
  then have inv: "ufs_ok s" "same_geom (u_fs s0) (u_fs s)" "pieces_ok s own" "free_set s \<union> held own = free_set s0 \<union> held own0" by simp_all
  have "ufs_ok s' \<and> same_geom (u_fs s) (u_fs s') \<and> free_set s' = free_set s"
  proof (cases r)
    case None
    then obtain t where "no_change s t" "s' = t\<lparr>u_error := ENOSPC\<rparr>"
      using ialloc_outcome [of s iget ipref mode, OF inv(1) call_ialloc.hyps(2)] call_ialloc.hyps(3) by auto
    then show ?thesis using no_change_free_set [of s t] by (simp add: no_change_def ufs_ok_data mem_free_set set_eq_iff)
  next
    case (Some n)
    then show ?thesis using ialloc_outcome [of s iget ipref mode, OF inv(1) call_ialloc.hyps(2)] call_ialloc.hyps(3)
      by (auto simp: inode_given_def frame_def)
  qed
  then show ?case using inv pieces_ok_same [OF inv(3), of s'] same_geom_trans [OF inv(2)] by simp
next
  case (call_ifree s own n mode s')
  then have inv: "ufs_ok s" "same_geom (u_fs s0) (u_fs s)" "pieces_ok s own" "free_set s \<union> held own = free_set s0 \<union> held own0" by simp_all
  have "ufs_ok s' \<and> same_geom (u_fs s) (u_fs s') \<and> free_set s' = free_set s"
    using ifree_outcome [OF inv(1) call_ifree.hyps(3,4), of mode] call_ifree.hyps(2,5) by (auto simp: frame_def)
  then show ?case using inv pieces_ok_same [OF inv(3), of s'] same_geom_trans [OF inv(2)] by simp
qed

section \<open>Properties\<close>

lemma tiny_piece: "pieces_ok tiny {(5, 1)}"
  by (auto simp: pieces_ok_def piece_ok_def held_def span_of_def tiny_free_set)

lemma tiny_give_back: "\<exists>s'. ufs_free tiny 5 (1 * 2) = Some s'"
proof -
  have "{5..<5 + 1} \<inter> free_set tiny = {}" by (auto simp: tiny_free_set)
  then show ?thesis using ufs_free_gives_back [of tiny 1 5] tiny_ok by auto
qed

text \<open>
  C31: Whatever the calls and their order, the file system stays well formed (its geometry, the rotors, the maps within their
  bounds, every summary count equal to what the maps hold, no buffer left locked), and every piece a caller
  holds is a legal address: inside the file system, not block 0, and inside one block.
\<close>

theorem callers_well_formed:
  assumes "calls s0 own0 s own" "ufs_ok s0" "pieces_ok s0 own0"
  shows "ufs_ok s \<and> same_geom (u_fs s0) (u_fs s) \<and> (\<forall>p \<in> own. piece_ok (u_fs s) p)"
  using calls_ok [OF assms] by (simp add: pieces_ok_def)

theorem callers_well_formed_witness:
  "\<exists>s own. calls tiny {(5, 1)} s own \<and> own \<noteq> {(5, 1)} \<and> ufs_ok s \<and> same_geom tiny_fs (u_fs s) \<and> (\<forall>p \<in> own. piece_ok (u_fs s) p)"
proof -
  note p = tiny_piece
  obtain s' where f: "ufs_free tiny 5 (1 * 2) = Some s'" using tiny_give_back by blast
  have "calls tiny {(5, 1)} s' ({(5, 1)} - {(5, 1)})"
    by (rule call_free [OF start]) (use f in simp_all)
  then show ?thesis using callers_well_formed [OF _ tiny_ok p, of s' "{(5, 1)} - {(5, 1)}"] by (intro exI [of _ s'] exI [of _ "{}"]) simp
qed





end
