(* ===== verification/Disk_Sort.thy ===== *)
theory Disk_Sort
  imports Kern_Prelude
begin

text \<open>
  The seek sort of the disk drivers, \<open>disksort\<close> of sys/sys/ufs_dsort.c, at the level of its pointers: a
  buffer is a number (0 is the null pointer), \<open>av_forw\<close> the store of the chain field, and the header of
  the drive's queue its fields \<open>b_actf\<close> and \<open>b_actl\<close>.  The three loops are partial functions, so that a
  chain that never ends is the result \<open>None\<close>.  Then what the routine is for: a queue is two runs of
  ascending cylinders, the sweep in progress and the next one, and a request is put into the sweep that
  can still reach it, after the requests for its own cylinder.
\<close>

section \<open>The code\<close>

record dqueue =
  b_actf :: nat
  b_actl :: nat
  av_forw :: "nat \<Rightarrow> nat"
  b_cylin :: "nat \<Rightarrow> int"

text \<open>The inner loop: the place in the second request list.\<close>

partial_function (option) scan_second :: "(nat \<Rightarrow> int) \<Rightarrow> (nat \<Rightarrow> nat) \<Rightarrow> nat \<Rightarrow> nat \<Rightarrow> nat option" where
  "scan_second cyl fw bp ap =
     (if cyl bp < cyl (fw ap) then Some ap
      else let ap' = fw ap
           in if fw ap' \<noteq> 0 then scan_second cyl fw bp ap' else Some ap')"

text \<open>The loop that looks for the inversion.\<close>

partial_function (option) seek_inversion :: "(nat \<Rightarrow> int) \<Rightarrow> (nat \<Rightarrow> nat) \<Rightarrow> nat \<Rightarrow> nat \<Rightarrow> nat option" where
  "seek_inversion cyl fw bp ap =
     (if fw ap = 0 then Some ap
      else if cyl (fw ap) < cyl ap then scan_second cyl fw bp ap
      else seek_inversion cyl fw bp (fw ap))"

text \<open>The loop over the first request list.\<close>

partial_function (option) scan_first :: "(nat \<Rightarrow> int) \<Rightarrow> (nat \<Rightarrow> nat) \<Rightarrow> nat \<Rightarrow> nat \<Rightarrow> nat option" where
  "scan_first cyl fw bp ap =
     (if fw ap = 0 then Some ap
      else if cyl (fw ap) < cyl ap \<or> cyl bp < cyl (fw ap) then Some ap
      else scan_first cyl fw bp (fw ap))"

text \<open>The statements at the label \<open>insert\<close>.\<close>

definition insert_after :: "nat \<Rightarrow> nat \<Rightarrow> dqueue \<Rightarrow> dqueue" where
  "insert_after ap bp s =
     (let fw1 = (av_forw s)(bp := av_forw s ap);
          s1 = s\<lparr>av_forw := fw1(ap := bp)\<rparr>
      in if ap = b_actl s1 then s1\<lparr>b_actl := bp\<rparr> else s1)"

definition disksort :: "nat \<Rightarrow> dqueue \<Rightarrow> dqueue option" where
  "disksort bp s =
     (let ap = b_actf s
      in if ap = 0
         then Some (s\<lparr>b_actf := bp, b_actl := bp, av_forw := (av_forw s)(bp := 0)\<rparr>)
         else map_option (\<lambda>ap. insert_after ap bp s)
                (if b_cylin s bp < b_cylin s ap
                 then seek_inversion (b_cylin s) (av_forw s) bp ap
                 else scan_first (b_cylin s) (av_forw s) bp ap))"

text \<open>The completion of the request at the head, in \<open>mbintr\<close>: \<open>mi_tab.b_actf = bp->av_forw\<close>.\<close>

definition flush_head :: "dqueue \<Rightarrow> dqueue" where
  "flush_head s = (let bp = b_actf s in s\<lparr>b_actf := av_forw s bp\<rparr>)"

section \<open>The queue as a list\<close>

fun path :: "(nat \<Rightarrow> nat) \<Rightarrow> nat \<Rightarrow> nat list \<Rightarrow> nat \<Rightarrow> bool" where
  "path fw p [] q = (p = q)"
| "path fw p (x # xs) q = (p = x \<and> x \<noteq> 0 \<and> path fw (fw x) xs q)"

text \<open>What a drive's queue is: a chain without repetition, with \<open>b_actl\<close> at its end.\<close>

definition queue_of :: "dqueue \<Rightarrow> nat list \<Rightarrow> bool" where
  "queue_of s xs =
     (path (av_forw s) (b_actf s) xs 0 \<and> distinct xs \<and> (xs \<noteq> [] \<longrightarrow> b_actl s = last xs))"

text \<open>The sweep in progress, and the requests of the next one.\<close>

fun first_run :: "(nat \<Rightarrow> int) \<Rightarrow> nat list \<Rightarrow> nat list" where
  "first_run c (x # y # zs) = (if c y < c x then [x] else x # first_run c (y # zs))"
| "first_run c xs = xs"

fun second_run :: "(nat \<Rightarrow> int) \<Rightarrow> nat list \<Rightarrow> nat list" where
  "second_run c (x # y # zs) = (if c y < c x then y # zs else second_run c (y # zs))"
| "second_run c xs = []"

text \<open>Into a run: after the cylinders up to one's own.\<close>

definition place :: "(nat \<Rightarrow> int) \<Rightarrow> nat \<Rightarrow> nat list \<Rightarrow> nat list" where
  "place c b xs = takeWhile (\<lambda>x. c x \<le> c b) xs @ b # dropWhile (\<lambda>x. c x \<le> c b) xs"

definition sweep_insert :: "(nat \<Rightarrow> int) \<Rightarrow> nat \<Rightarrow> nat list \<Rightarrow> nat list" where
  "sweep_insert c b xs =
     (if xs = [] then [b]
      else if c b < c (hd xs) then first_run c xs @ place c b (second_run c xs)
      else place c b (first_run c xs) @ second_run c xs)"

text \<open>
  The order of a one way scan from cylinder \<open>h\<close>: first the cylinders from \<open>h\<close> on, ascending, then the ones
  below, ascending.  In it a queue is one ordered list, and \<open>scan_insert\<close> is insertion behind all that
  come no later.
\<close>

definition ahead :: "(nat \<Rightarrow> int) \<Rightarrow> int \<Rightarrow> nat \<Rightarrow> nat \<Rightarrow> bool" where
  "ahead c h x y = (if (c x < h) = (c y < h) then c x \<le> c y else h \<le> c x)"

definition scan_insert :: "(nat \<Rightarrow> int) \<Rightarrow> nat \<Rightarrow> nat list \<Rightarrow> nat list" where
  "scan_insert c b xs =
     takeWhile (\<lambda>x. ahead c (c (hd xs)) x b) xs @ b # dropWhile (\<lambda>x. ahead c (c (hd xs)) x b) xs"

definition one_way :: "(nat \<Rightarrow> int) \<Rightarrow> nat list \<Rightarrow> bool" where
  "one_way c xs = sorted_wrt (ahead c (c (hd xs))) xs"

section \<open>Chains\<close>

lemma path_append: "path fw p (xs @ ys) q \<longleftrightarrow> (\<exists>r. path fw p xs r \<and> path fw r ys q)"
  by (induction xs arbitrary: p) auto

lemma path_upd [simp]: "a \<notin> set xs \<Longrightarrow> path (fw(a := v)) p xs q = path fw p xs q"
  by (induction xs arbitrary: p) auto

lemma path_null: "path fw p xs 0 \<Longrightarrow> p = 0 \<longleftrightarrow> xs = []"
  by (cases xs) auto

lemma path_next: "path fw a (a # ws) 0 \<Longrightarrow> path fw (fw a) ws 0"
  by simp

lemma path_insert:
  assumes "path fw p (us @ a # ws) 0" "distinct (us @ a # ws)" "b \<notin> set (us @ a # ws)" "b \<noteq> 0"
  shows "path (fw(b := fw a, a := b)) p (us @ a # b # ws) 0"
  using assms by (auto simp: path_append)

section \<open>The loops\<close>

lemma place_Nil [simp]: "place c b [] = [b]"
  by (simp add: place_def)

lemma place_Cons [simp]:
  "place c b (x # xs) = (if c b < c x then b # x # xs else x # place c b xs)"
  by (simp add: place_def)

lemma split_Cons:
  "\<exists>us a ws. f = Some a \<and> xs = us @ a # ws \<and> us @ a # b # ws = ys \<Longrightarrow>
   \<exists>us a ws. f = Some a \<and> x # xs = us @ a # ws \<and> us @ a # b # ws = x # ys"
  by (metis append_Cons)

text \<open>Each loop returns the request after which the new one is to be linked.\<close>

lemma scan_second_place:
  "path fw ap (ap # vs) 0 \<Longrightarrow> vs \<noteq> [] \<Longrightarrow>
   \<exists>us a ws. scan_second c fw b ap = Some a \<and> ap # vs = us @ a # ws \<and> us @ a # b # ws = ap # place c b vs"
proof (induction vs arbitrary: ap)
  case Nil
  then show ?case by simp
next
  case (Cons v vs)
  then have v: "fw ap = v" "v \<noteq> 0" "path fw v (v # vs) 0" by auto
  show ?case
  proof (cases "c b < c v")
    case True
    then have "scan_second c fw b ap = Some ap" using v by (subst scan_second.simps) simp
    then show ?thesis using True by force
  next
    case up: False
    show ?thesis
    proof (cases "vs = []")
      case True
      then have "scan_second c fw b ap = Some v" using v up by (subst scan_second.simps) simp
      then show ?thesis using True up
        by (intro exI [of _ "[ap]"] exI [of _ v] exI [of _ "[]"]) simp
    next
      case False
      then have "fw v \<noteq> 0" using path_null [OF path_next [OF v(3)]] by simp
      then have "scan_second c fw b ap = scan_second c fw b v"
        using v up by (subst scan_second.simps) (simp add: Let_def)
      then show ?thesis using split_Cons [OF Cons.IH [OF v(3) False]] up by simp
    qed
  qed
qed

lemma seek_inversion_place:
  "path fw ap (ap # vs) 0 \<Longrightarrow>
   \<exists>us a ws. seek_inversion c fw b ap = Some a \<and> ap # vs = us @ a # ws \<and>
     us @ a # b # ws = first_run c (ap # vs) @ place c b (second_run c (ap # vs))"
proof (induction vs arbitrary: ap)
  case Nil
  then have "seek_inversion c fw b ap = Some ap" by (subst seek_inversion.simps) simp
  then show ?case by force
next
  case (Cons v vs)
  then have v: "fw ap = v" "v \<noteq> 0" "path fw v (v # vs) 0" by auto
  show ?case
  proof (cases "c v < c ap")
    case True
    then have "seek_inversion c fw b ap = scan_second c fw b ap"
      using v by (subst seek_inversion.simps) simp
    then show ?thesis using scan_second_place [OF Cons.prems, of c b] True by simp
  next
    case False
    then have "seek_inversion c fw b ap = seek_inversion c fw b v"
      using v by (subst seek_inversion.simps) simp
    then show ?thesis using split_Cons [OF Cons.IH [OF v(3)]] False by simp
  qed
qed

lemma first_run_Cons: "\<exists>ys. first_run c (x # xs) = x # ys"
  by (cases xs) auto

lemma scan_first_place:
  "path fw ap (ap # vs) 0 \<Longrightarrow> c ap \<le> c b \<Longrightarrow>
   \<exists>us a ws. scan_first c fw b ap = Some a \<and> ap # vs = us @ a # ws \<and>
     us @ a # b # ws = place c b (first_run c (ap # vs)) @ second_run c (ap # vs)"
proof (induction vs arbitrary: ap)
  case Nil
  then have "scan_first c fw b ap = Some ap" by (subst scan_first.simps) simp
  then show ?case using Nil by force
next
  case (Cons v vs)
  then have v: "fw ap = v" "v \<noteq> 0" "path fw v (v # vs) 0" by auto
  obtain ys where fr: "first_run c (v # vs) = v # ys" using first_run_Cons by blast
  show ?case
  proof (cases "c v < c ap \<or> c b < c v")
    case True
    then have r: "scan_first c fw b ap = Some ap" using v by (subst scan_first.simps) auto
    have "first_run c (v # vs) @ second_run c (v # vs) = v # vs"
      by (induction vs arbitrary: v) auto
    then have "ap # b # v # vs = place c b (first_run c (ap # v # vs)) @ second_run c (ap # v # vs)"
      using True Cons.prems(2) fr by auto
    then show ?thesis using r by (intro exI [of _ "[]"]) simp
  next
    case False
    then have "scan_first c fw b ap = scan_first c fw b v"
      using v by (subst scan_first.simps) simp
    then show ?thesis using split_Cons [OF Cons.IH [OF v(3)]] False Cons.prems(2) by simp
  qed
qed

section \<open>The routine on lists\<close>

lemma runs_append: "first_run c xs @ second_run c xs = xs"
  by (induction c xs rule: first_run.induct) auto

lemma insert_after_queue:
  assumes q: "queue_of s (us @ a # ws)" and b: "b \<notin> set (us @ a # ws)" "b \<noteq> 0"
  shows "queue_of (insert_after a b s) (us @ a # b # ws)"
proof -
  have p: "path ((av_forw s)(b := av_forw s a, a := b)) (b_actf s) (us @ a # b # ws) 0"
    using q b by (intro path_insert) (auto simp: queue_of_def)
  have l: "a = b_actl s \<longleftrightarrow> ws = []"
    using q by (cases ws rule: rev_cases) (auto simp: queue_of_def)
  have "distinct (us @ a # b # ws)"
    using q b by (simp add: queue_of_def)
  moreover have "b_actl (insert_after a b s) = last (us @ a # b # ws)"
    using q l by (simp add: queue_of_def insert_after_def Let_def)
  moreover have "av_forw (insert_after a b s) = (av_forw s)(b := av_forw s a, a := b)"
      "b_actf (insert_after a b s) = b_actf s"
    by (simp_all add: insert_after_def Let_def)
  ultimately show ?thesis
    using p by (simp only: queue_of_def) simp
qed

lemma b_cylin_insert_after [simp]: "b_cylin (insert_after a b s) = b_cylin s"
  by (simp add: insert_after_def Let_def)

lemma disksort_queue:
  assumes q: "queue_of s xs" and b: "b \<notin> set xs" "b \<noteq> 0"
  shows "\<exists>s'. disksort b s = Some s' \<and> queue_of s' (sweep_insert (b_cylin s) b xs) \<and> b_cylin s' = b_cylin s"
proof (cases xs)
  case Nil
  then show ?thesis using q b by (simp add: queue_of_def disksort_def sweep_insert_def)
next
  case (Cons x vs)
  let ?c = "b_cylin s" and ?f = "av_forw s"
  have x: "b_actf s = x" "x \<noteq> 0" "path ?f x (x # vs) 0" using q Cons by (auto simp: queue_of_def)
  have "\<exists>us a ws. (if ?c b < ?c x then seek_inversion ?c ?f b x else scan_first ?c ?f b x) = Some a \<and>
      xs = us @ a # ws \<and> us @ a # b # ws = sweep_insert ?c b xs"
  proof (cases "?c b < ?c x")
    case True
    then show ?thesis using seek_inversion_place [OF x(3), of ?c b] Cons by (simp add: sweep_insert_def)
  next
    case False
    then show ?thesis using scan_first_place [OF x(3), of ?c b] Cons by (simp add: sweep_insert_def)
  qed
  then obtain us a ws where
    r: "(if ?c b < ?c x then seek_inversion ?c ?f b x else scan_first ?c ?f b x) = Some a"
       "xs = us @ a # ws" "us @ a # b # ws = sweep_insert ?c b xs"
    by blast
  have "disksort b s = Some (insert_after a b s)"
    using r(1) x by (simp add: disksort_def Let_def)
  moreover have "queue_of (insert_after a b s) (us @ a # b # ws)"
    using q b r(2) by (intro insert_after_queue) simp_all
  ultimately show ?thesis using r(3) by simp
qed

section \<open>The one way scan\<close>

lemma ahead_total: "ahead c h x y \<or> ahead c h y x"
  by (auto simp: ahead_def)

lemma ahead_trans: "ahead c h x y \<Longrightarrow> ahead c h y z \<Longrightarrow> ahead c h x z"
  by (auto simp: ahead_def split: if_splits)

lemma ahead_hd [simp]: "ahead c (c x) x y"
  by (simp add: ahead_def)

lemma run_split:
  "sorted_wrt (ahead c h) (x # xs) \<Longrightarrow> h \<le> c x \<Longrightarrow>
   first_run c (x # xs) = takeWhile (\<lambda>y. h \<le> c y) (x # xs) \<and>
   second_run c (x # xs) = dropWhile (\<lambda>y. h \<le> c y) (x # xs)"
proof (induction xs arbitrary: x)
  case (Cons y ys)
  show ?case
  proof (cases "c y < c x")
    case True
    then have "\<not> h \<le> c y" using Cons.prems by (auto simp: ahead_def)
    then show ?thesis using True Cons.prems(2) by simp
  next
    case False
    then show ?thesis using Cons.IH [of y] Cons.prems by auto
  qed
qed simp

lemma sorted_below:
  "sorted_wrt (ahead c h) xs \<Longrightarrow> y \<in> set (dropWhile (\<lambda>y. h \<le> c y) xs) \<Longrightarrow> c y < h"
  by (induction xs) (auto simp: ahead_def split: if_splits)

lemma takeWhile_prefix: "(\<And>x. x \<in> set xs \<Longrightarrow> P x) \<Longrightarrow> takeWhile P (xs @ ys) = xs @ takeWhile P ys"
  by (induction xs) auto

lemma dropWhile_prefix: "(\<And>x. x \<in> set xs \<Longrightarrow> P x) \<Longrightarrow> dropWhile P (xs @ ys) = dropWhile P ys"
  by (induction xs) auto

lemma place_append:
  "(\<And>z. z \<in> set zs \<Longrightarrow> \<not> P z) \<Longrightarrow>
   takeWhile P (ys @ zs) @ b # dropWhile P (ys @ zs) = (takeWhile P ys @ b # dropWhile P ys) @ zs"
  by (induction ys) (auto simp: takeWhile_eq_Nil_iff dropWhile_eq_self_iff)

lemma while_cong:
  "(\<And>x. x \<in> set xs \<Longrightarrow> P x = Q x) \<Longrightarrow>
   takeWhile P xs @ b # dropWhile P xs = takeWhile Q xs @ b # dropWhile Q xs"
  by (induction xs) auto

lemma sweep_scan:
  assumes "one_way c xs"
  shows "sweep_insert c b xs = scan_insert c b xs"
proof (cases xs)
  case Nil
  then show ?thesis by (simp add: sweep_insert_def scan_insert_def)
next
  case (Cons x vs)
  let ?h = "c x" and ?P = "\<lambda>y. ahead c (c x) y b"
  let ?T = "takeWhile (\<lambda>y. c x \<le> c y) xs" and ?D = "dropWhile (\<lambda>y. c x \<le> c y) xs"
  have so: "sorted_wrt (ahead c ?h) (x # vs)" using assms Cons by (simp add: one_way_def)
  have sp: "first_run c xs = ?T" "second_run c xs = ?D"
    using run_split [OF so] Cons by auto
  have xs: "?T @ ?D = xs" by simp
  have d: "c y < ?h" if "y \<in> set ?D" for y
    using sorted_below [OF so] that Cons by simp
  have t: "?h \<le> c y" if "y \<in> set ?T" for y
    using that by (auto dest: set_takeWhileD)
  have "scan_insert c b xs = takeWhile ?P (?T @ ?D) @ b # dropWhile ?P (?T @ ?D)"
    using Cons by (simp add: scan_insert_def)
  also have "\<dots> = sweep_insert c b xs"
  proof (cases "c b < ?h")
    case True
    then have tp: "?P y" if "y \<in> set ?T" for y
      using t [OF that] by (simp add: ahead_def)
    have "takeWhile ?P (?T @ ?D) @ b # dropWhile ?P (?T @ ?D)
        = ?T @ takeWhile ?P ?D @ b # dropWhile ?P ?D"
      by (simp only: takeWhile_prefix [OF tp] dropWhile_prefix [OF tp] append_assoc)
    also have "\<dots> = ?T @ place c b ?D"
      using True d while_cong [of ?D ?P "\<lambda>y. c y \<le> c b" b] by (simp add: place_def ahead_def)
    finally show ?thesis using True Cons sp by (simp add: sweep_insert_def)
  next
    case False
    then have "takeWhile ?P (?T @ ?D) @ b # dropWhile ?P (?T @ ?D)
        = (takeWhile ?P ?T @ b # dropWhile ?P ?T) @ ?D"
      using d by (intro place_append) (force simp: ahead_def)
    also have "\<dots> = place c b ?T @ ?D"
      using False t while_cong [of ?T ?P "\<lambda>y. c y \<le> c b" b] by (simp add: place_def ahead_def)
    finally show ?thesis using False Cons sp by (simp add: sweep_insert_def)
  qed
  finally show ?thesis by simp
qed

lemma dropWhile_hd_sorted:
  assumes "sorted_wrt R xs" "\<And>x y z. R x y \<Longrightarrow> R y z \<Longrightarrow> R x z" "\<And>x y. R x y \<or> R y x"
  shows "sorted_wrt R (takeWhile (\<lambda>x. R x b) xs @ b # dropWhile (\<lambda>x. R x b) xs)"
  using assms(1)
proof (induction xs)
  case (Cons x xs)
  show ?case
  proof (cases "R x b")
    case True
    then show ?thesis using Cons assms(2) [OF True]
      by (auto dest: set_takeWhileD set_dropWhileD)
  next
    case False
    then have "R b x" using assms(3) by blast
    then show ?thesis using False Cons.prems assms(2) by auto
  qed
qed simp

lemma set_scan_insert: "set (scan_insert c b xs) = insert b (set xs)"
proof -
  have "set (takeWhile P xs @ b # dropWhile P xs) = insert b (set xs)" for P
    by (induction xs) auto
  then show ?thesis by (simp add: scan_insert_def)
qed

lemma hd_scan_insert: "xs \<noteq> [] \<Longrightarrow> hd (scan_insert c b xs) = hd xs"
  by (cases xs) (simp_all add: scan_insert_def)

lemma one_way_insert: "one_way c xs \<Longrightarrow> one_way c (scan_insert c b xs)"
proof (cases "xs = []")
  case False
  assume "one_way c xs"
  then have "sorted_wrt (ahead c (c (hd xs))) (scan_insert c b xs)"
    unfolding one_way_def scan_insert_def
    by (rule dropWhile_hd_sorted) (fact ahead_trans ahead_total)+
  then show ?thesis using False by (simp add: one_way_def hd_scan_insert)
qed (simp add: one_way_def scan_insert_def)

lemma one_way_tl:
  assumes "one_way c (x # xs)"
  shows "one_way c xs"
proof (cases xs)
  case (Cons y ys)
  have s: "sorted_wrt (ahead c (c x)) (y # ys)" using assms Cons by (simp add: one_way_def)
  have "ahead c (c y) p q" if "ahead c (c x) p q" "p \<in> set (y # ys)" "q \<in> set (y # ys)" for p q
  proof -
    have "ahead c (c x) y p" "ahead c (c x) y q" using s that ahead_total [of c "c x" y y] by auto
    then show ?thesis using that(1) by (auto simp: ahead_def split: if_splits)
  qed
  then have "sorted_wrt (ahead c (c y)) (y # ys)"
    by (rule sorted_wrt_mono_rel [OF _ s, rotated -1])
  then show ?thesis using Cons by (simp add: one_way_def)
qed (simp add: one_way_def)

lemma one_way_cong: "(\<And>x. x \<in> set xs \<Longrightarrow> c x = d x) \<Longrightarrow> one_way c xs = one_way d xs"
proof -
  assume e: "\<And>x. x \<in> set xs \<Longrightarrow> c x = d x"
  then have "ahead c h x y = ahead d h x y" if "x \<in> set xs" "y \<in> set xs" for h x y
    using that by (simp add: ahead_def)
  then have "sorted_wrt (ahead c h) xs = sorted_wrt (ahead d h) xs" for h
    using sorted_wrt_mono_rel [of xs "ahead c h" "ahead d h"] sorted_wrt_mono_rel [of xs "ahead d h" "ahead c h"]
    by blast
  moreover have "xs \<noteq> [] \<Longrightarrow> c (hd xs) = d (hd xs)" by (rule e) simp
  ultimately show ?thesis by (cases "xs = []") (simp_all add: one_way_def)
qed

lemma flush_queue:
  assumes "queue_of s (x # xs)"
  shows "queue_of (flush_head s) xs \<and> b_cylin (flush_head s) = b_cylin s"
  using assms by (cases xs) (auto simp: queue_of_def flush_head_def Let_def)

lemma path_agree: "\<forall>x \<in> set xs. fw' x = fw x \<Longrightarrow> path fw' p xs q = path fw p xs q"
  by (induction xs arbitrary: p) auto

section \<open>Arrivals and completions\<close>

text \<open>
  The histories of one drive: it starts idle, requests arrive, the one at the head completes, and the rest
  of the kernel changes whatever does not belong to the queue (among it the cylinder number of a buffer
  before the driver calls \<open>disksort\<close> with it).
\<close>

inductive disk_run :: "dqueue \<Rightarrow> bool" where
  idle: "b_actf s = 0 \<Longrightarrow> disk_run s"
| arrive: "disk_run s \<Longrightarrow> queue_of s xs \<Longrightarrow> bp \<notin> set xs \<Longrightarrow> bp \<noteq> 0 \<Longrightarrow> disksort bp s = Some s' \<Longrightarrow> disk_run s'"
| complete: "disk_run s \<Longrightarrow> b_actf s \<noteq> 0 \<Longrightarrow> disk_run (flush_head s)"
| elsewhere: "disk_run s \<Longrightarrow> queue_of s xs \<Longrightarrow>
    \<forall>x \<in> set xs. av_forw s' x = av_forw s x \<and> b_cylin s' x = b_cylin s x \<Longrightarrow>
    b_actf s' = b_actf s \<Longrightarrow> b_actl s' = b_actl s \<Longrightarrow> disk_run s'"

lemma path_unique: "path fw p xs 0 \<Longrightarrow> path fw p ys 0 \<Longrightarrow> xs = ys"
proof (induction xs arbitrary: p ys)
  case (Cons x xs)
  then show ?case by (cases ys) auto
qed (auto simp: path_null)

lemma queue_unique: "queue_of s xs \<Longrightarrow> queue_of s ys \<Longrightarrow> xs = ys"
  by (auto simp: queue_of_def path_unique)

text \<open>
  C16: \<open>disksort\<close> always returns, and what it does to a drive's queue is insertion in the order of a one
  way scan that starts at the request being served: behind every request the arm meets no later, before
  all the others, none of which is lost or reordered; the chain stays well formed with \<open>b_actl\<close> at its
  end, and the queue stays ordered.
\<close>

theorem disksort_scans:
  assumes "queue_of s xs" "one_way (b_cylin s) xs" "bp \<notin> set xs" "bp \<noteq> 0"
  shows "\<exists>s'. disksort bp s = Some s' \<and> queue_of s' (scan_insert (b_cylin s) bp xs)
    \<and> b_cylin s' = b_cylin s \<and> one_way (b_cylin s') (scan_insert (b_cylin s) bp xs)"
  using disksort_queue [OF assms(1,3,4)] one_way_insert [OF assms(2)] sweep_scan [OF assms(2)]
  by metis

definition dq_example :: dqueue where
  "dq_example = \<lparr>b_actf = 1, b_actl = 3, av_forw = (\<lambda>_. 0)(1 := 2, 2 := 3),
     b_cylin = (\<lambda>_. 0)(1 := 10, 2 := 40, 3 := 5, 4 := 7)\<rparr>"

theorem disksort_scans_witness:
  "\<exists>s'. disksort 4 dq_example = Some s' \<and> queue_of s' [1, 2, 3, 4]"
  using disksort_scans [of dq_example "[1, 2, 3]" 4]
  by (auto simp: dq_example_def queue_of_def one_way_def ahead_def scan_insert_def)

text \<open>
  C28: In every history of arrivals and completions the queue of a drive is well formed, and it is one
  sweep of the arm from the request being served: the cylinders at and after it in ascending order, then
  the ones before it in ascending order.
\<close>

theorem disk_run_one_way:
  assumes "disk_run s"
  shows "\<exists>xs. queue_of s xs \<and> one_way (b_cylin s) xs"
  using assms
proof induction
  case (idle s)
  then have "queue_of s [] \<and> one_way (b_cylin s) []" by (simp add: queue_of_def one_way_def)
  then show ?case ..
next
  case (arrive s xs bp s')
  then have "one_way (b_cylin s) xs" using queue_unique by metis
  then show ?case
    using disksort_queue [OF arrive.hyps(2-4)] arrive.hyps(5) one_way_insert sweep_scan
    by (metis option.inject)
next
  case (complete s)
  then obtain xs where q: "queue_of s xs" "one_way (b_cylin s) xs" by blast
  moreover obtain x ys where "xs = x # ys"
    using q complete.hyps(2) by (cases xs) (auto simp: queue_of_def)
  ultimately show ?case using flush_queue one_way_tl by metis
next
  case (elsewhere s xs s')
  then have "one_way (b_cylin s) xs" using queue_unique by metis
  then have "one_way (b_cylin s') xs"
    using elsewhere.hyps(3) one_way_cong [of xs "b_cylin s'" "b_cylin s"] by simp
  moreover have "queue_of s' xs"
    using elsewhere.hyps path_agree [of xs "av_forw s'" "av_forw s"] by (simp add: queue_of_def)
  ultimately show ?case by blast
qed

theorem disk_run_one_way_witness:
  "\<exists>s xs. disksort 1 (dq_example\<lparr>b_actf := 0\<rparr>) = Some s \<and> queue_of s xs \<and> one_way (b_cylin s) xs"
proof -
  let ?i = "dq_example\<lparr>b_actf := 0\<rparr>"
  have i: "disk_run ?i" by (rule disk_run.idle) simp
  have q: "queue_of ?i []" by (simp add: queue_of_def)
  obtain s where s: "disksort 1 ?i = Some s" using disksort_queue [OF q, of 1] by auto
  have "disk_run s" using disk_run.arrive [OF i q _ _ s] by simp
  then show ?thesis using disk_run_one_way s by blast
qed

end
