(* ===== verification/Sched.thy ===== *)
theory Sched
  imports Complex_Main Kern_Prelude
begin

text \<open>
  The process scheduler: sys/sys/kern_synch.c with the run queue primitives of sys/vax/locore.s.  A process
  is the number of its slot in the process table.  A sleep queue is the list of the processes linked from
  \<open>slpque[i]\<close>, a run queue the list from the header \<open>qs[i]\<close> on, first to last; \<open>p_rlink\<close> says whether
  the field is nonzero, which the code uses for \<open>on a run queue\<close>.  The globals are fields of one record,
  and the addresses used as channels are numbers, those of the scheduler's own variables fields of it too.
  \<open>None\<close> as a result is a panic, the use of a null pointer, or a store outside \<open>qs\<close>.
\<close>

section \<open>The state\<close>

text \<open>\<open>SFREE\<close> is the value 0 of \<open>p_stat\<close>, a free slot.\<close>

datatype pstat = SFREE | SSLEEP | SWAIT | SRUN | SIDL | SZOMB | SSTOP

datatype pflag = SLOAD | STRC | SWTED | SVFORK

record sproc =
  p_rlink :: bool
  p_usrpri :: int
  p_pri :: int
  p_cpu :: "8 word"
  p_stat :: pstat
  p_time :: int
  p_nice :: int
  p_slptime :: int
  p_cursig :: nat
  p_sig :: "32 word"
  p_siga0 :: "32 word"
  p_siga1 :: "32 word"
  p_flag :: "pflag set"
  p_pptr :: nat
  p_rssize :: int
  p_maxrss :: int
  p_wchan :: nat
  p_cpticks :: int

record sched =
  procs :: "nat \<Rightarrow> sproc"
  nproc :: nat
  slpque :: "nat \<Rightarrow> nat list"
  qs :: "nat \<Rightarrow> nat list"
  whichqs :: "32 word"
  u_procp :: nat
  noproc :: bool
  curpri :: int
  runrun :: int
  astlvl :: bool
  runout :: int
  runin :: int
  wantin :: int
  freemem :: int
  desfree :: int
  avenrun0 :: rat
  hz :: int
  bclnlist :: bool
  timeouts :: "(string \<times> int) list"
  lbolt_addr :: nat
  runout_addr :: nat
  runin_addr :: nat
  proc_addr :: "nat \<Rightarrow> nat"

definition upd :: "nat \<Rightarrow> (sproc \<Rightarrow> sproc) \<Rightarrow> sched \<Rightarrow> sched" where
  "upd p f s = s\<lparr>procs := (procs s)(p := f (procs s p))\<rparr>"

text \<open>Storing into a \<open>char\<close>; reading one as unsigned.\<close>

definition s8 :: "int \<Rightarrow> int" where
  "s8 x = (x + 128) mod 256 - 128"

abbreviation PZERO :: int where "PZERO \<equiv> 25"
abbreviation PUSER :: int where "PUSER \<equiv> 50"
abbreviation NZERO :: int where "NZERO \<equiv> 20"
abbreviation NQS :: nat where "NQS \<equiv> 32"

section \<open>Run queues\<close>

definition rqinit :: "sched \<Rightarrow> sched" where
  "rqinit s = s\<lparr>qs := (\<lambda>i. if i < NQS then [] else qs s i)\<rparr>"

text \<open>The queue of a process: its priority as an unsigned byte, divided by 4.\<close>

definition rqno :: "sproc \<Rightarrow> nat" where
  "rqno pr = nat (p_pri pr mod 256) div 4"

definition setrq :: "nat \<Rightarrow> sched \<Rightarrow> sched option" where
  "setrq p s =
     (if p_rlink (procs s p) then None
      else let q = rqno (procs s p)
           in if q < NQS
              then Some (upd p (\<lambda>pr. pr\<lparr>p_rlink := True\<rparr>)
                     (s\<lparr>qs := (qs s)(q := qs s q @ [p]), whichqs := set_bit q (whichqs s)\<rparr>))
              else None)"

definition remrq :: "nat \<Rightarrow> sched \<Rightarrow> sched option" where
  "remrq p s =
     (let q = rqno (procs s p)
      in if q < NQS \<and> bit (whichqs s) q \<and> p \<in> set (qs s q)
         then let rest = remove1 p (qs s q);
                  w = unset_bit q (whichqs s)
              in Some (upd p (\<lambda>pr. pr\<lparr>p_rlink := False\<rparr>)
                   (s\<lparr>qs := (qs s)(q := rest), whichqs := (if rest = [] then w else set_bit q w)\<rparr>))
         else None)"

text \<open>The \<open>ffs\<close> instruction: the first bit set.\<close>

definition ffs :: "32 word \<Rightarrow> nat option" where
  "ffs w = find (\<lambda>i. bit w i) [0..<32]"

text \<open>
  The loop of \<open>swtch\<close>, at the label \<open>sw1\<close>.  With no queue marked the processor idles there with interrupts
  enabled, the state as it is, until an interrupt has changed it and the loop looks again.
\<close>

definition swtch_pick :: "sched \<Rightarrow> sched option" where
  "swtch_pick s =
     (case ffs (whichqs s) of
        None \<Rightarrow> Some s
      | Some i \<Rightarrow>
          (case qs s i of
             [] \<Rightarrow> None
           | p # rest \<Rightarrow>
               let w = unset_bit i (whichqs s);
                   s1 = s\<lparr>qs := (qs s)(i := rest), whichqs := (if rest = [] then w else set_bit i w),
                          noproc := False\<rparr>
               in if p_wchan (procs s1 p) \<noteq> 0 \<or> p_stat (procs s1 p) \<noteq> SRUN then None
                  else Some (upd p (\<lambda>pr. pr\<lparr>p_rlink := False\<rparr>) (s1\<lparr>u_procp := p\<rparr>))))"

definition swtch :: "sched \<Rightarrow> sched option" where
  "swtch s = swtch_pick (s\<lparr>noproc := True, runrun := 0\<rparr>)"

section \<open>Sleep and wakeup\<close>

definition SQSIZE :: nat where
  "SQSIZE = 64"

definition HASH :: "nat \<Rightarrow> nat" where
  "HASH x = x div 32 mod SQSIZE"

definition unsleep :: "nat \<Rightarrow> sched \<Rightarrow> sched option" where
  "unsleep p s =
     (let c = p_wchan (procs s p); h = HASH c
      in if c = 0 then Some s
         else if p \<in> set (slpque s h)
              then Some (upd p (\<lambda>pr. pr\<lparr>p_wchan := 0\<rparr>) (s\<lparr>slpque := (slpque s)(h := remove1 p (slpque s h))\<rparr>))
              else None)"

text \<open>\<open>if (p->p_pri < curpri) { runrun++; aston(); }\<close>\<close>

definition kick :: "int \<Rightarrow> sched \<Rightarrow> sched" where
  "kick pri s = (if pri < curpri s then s\<lparr>runrun := runrun s + 1, astlvl := True\<rparr> else s)"

text \<open>
  The loop of \<open>wakeup\<close> from the label \<open>restart\<close>, \<open>k\<close> processes of the chain already passed.  It calls
  \<open>wakeup(&runout)\<close> when it has readied a process that is swapped out.
\<close>

partial_function (option) wakeup_loop :: "nat \<Rightarrow> nat \<Rightarrow> sched \<Rightarrow> sched option" where
  "wakeup_loop chan k s =
     (let h = HASH chan
      in if length (slpque s h) \<le> k then Some s
         else
           let p = slpque s h ! k
           in if p_rlink (procs s p) \<or> p_stat (procs s p) \<noteq> SSLEEP \<and> p_stat (procs s p) \<noteq> SSTOP then None
              else if p_wchan (procs s p) = chan then
                let s1 = upd p (\<lambda>pr. pr\<lparr>p_wchan := 0, p_slptime := 0\<rparr>)
                           (s\<lparr>slpque := (slpque s)(h := take k (slpque s h) @ drop (k + 1) (slpque s h))\<rparr>)
                in if p_stat (procs s1 p) = SSLEEP then
                     do {
                       let s2 = upd p (\<lambda>pr. pr\<lparr>p_stat := SRUN\<rparr>) s1;
                       s3 \<leftarrow> (if SLOAD \<in> p_flag (procs s2 p) then setrq p s2 else Some s2);
                       let s4 = kick (p_pri (procs s3 p)) s3;
                       s5 \<leftarrow> (if SLOAD \<notin> p_flag (procs s4 p)
                             then (if runout s4 \<noteq> 0
                                   then do {
                                          s5 \<leftarrow> wakeup_loop (runout_addr s4) 0 (s4\<lparr>runout := 0\<rparr>);
                                          Some (s5\<lparr>wantin := wantin s5 + 1\<rparr>)
                                        }
                                   else Some (s4\<lparr>wantin := wantin s4 + 1\<rparr>))
                             else Some s4);
                       wakeup_loop chan 0 s5
                     }
                   else wakeup_loop chan k s1
              else wakeup_loop chan (k + 1) s)"

definition wakeup :: "nat \<Rightarrow> sched \<Rightarrow> sched option" where
  "wakeup chan s = wakeup_loop chan 0 s"

definition setrun :: "nat \<Rightarrow> sched \<Rightarrow> sched option" where
  "setrun p s =
     do {
       s1 \<leftarrow> (case p_stat (procs s p) of
               SSTOP \<Rightarrow> unsleep p s
             | SSLEEP \<Rightarrow> unsleep p s
             | SIDL \<Rightarrow> Some s
             | _ \<Rightarrow> None);
       let s2 = upd p (\<lambda>pr. pr\<lparr>p_stat := SRUN\<rparr>) s1;
       s3 \<leftarrow> (if SLOAD \<in> p_flag (procs s2 p) then setrq p s2 else Some s2);
       let s4 = kick (p_pri (procs s3 p)) s3;
       if SLOAD \<notin> p_flag (procs s4 p)
       then (if runout s4 \<noteq> 0
             then do {
                    s5 \<leftarrow> wakeup (runout_addr s4) (s4\<lparr>runout := 0\<rparr>);
                    Some (s5\<lparr>wantin := wantin s5 + 1\<rparr>)
                  }
             else Some (s4\<lparr>wantin := wantin s4 + 1\<rparr>))
       else Some s4
     }"

text \<open>
  \<open>sleep\<close>.  Its first part puts the running process on the queue of the channel.  \<open>ISSIG\<close> is the argument
  \<open>issig\<close>: whether there is a signal, and the state it leaves.  The result says how \<open>sleep\<close> went on: it
  switched to another process, it returned, or it left through \<open>longjmp\<close>.
\<close>

datatype slept = Switched sched | Returned sched | Psig sched

definition sleep_enqueue :: "nat \<Rightarrow> int \<Rightarrow> sched \<Rightarrow> sched option" where
  "sleep_enqueue chan pri s =
     (let rp = u_procp s
      in if chan = 0 \<or> p_stat (procs s rp) \<noteq> SRUN \<or> p_rlink (procs s rp) then None
         else Some (upd rp (\<lambda>pr. pr\<lparr>p_wchan := chan, p_slptime := 0, p_pri := s8 pri\<rparr>)
                (s\<lparr>slpque := (slpque s)(HASH chan := rp # slpque s (HASH chan))\<rparr>)))"

definition sleep_block :: "nat \<Rightarrow> sched \<Rightarrow> slept option" where
  "sleep_block rp s = map_option Switched (swtch (upd rp (\<lambda>pr. pr\<lparr>p_stat := SSLEEP\<rparr>) s))"

definition sleep :: "nat \<Rightarrow> int \<Rightarrow> (sched \<Rightarrow> bool \<times> sched) \<Rightarrow> sched \<Rightarrow> slept option" where
  "sleep chan pri issig s =
     do {
       let rp = u_procp s;
       s1 \<leftarrow> sleep_enqueue chan pri s;
       if pri > PZERO then
         (let (sig, s2) = issig s1
          in if sig then
               do {
                 s3 \<leftarrow> (if p_wchan (procs s2 rp) \<noteq> 0 then unsleep rp s2 else Some s2);
                 Some (Psig (upd rp (\<lambda>pr. pr\<lparr>p_stat := SRUN\<rparr>) s3))
               }
             else if p_wchan (procs s2 rp) = 0 then Some (Returned s2)
             else sleep_block rp s2)
       else sleep_block rp s1
     }"

section \<open>Priorities\<close>

definition setpri :: "nat \<Rightarrow> sched \<Rightarrow> int \<times> sched" where
  "setpri pp s =
     (let pr = procs s pp;
          a = uint (p_cpu pr) div 4 + (PUSER + 2 * (p_nice pr - NZERO));
          b = (if p_rssize pr > p_maxrss pr \<and> freemem s < desfree s then a + 2 * 4 else a);
          c = (if b > 127 then 127 else b)
      in (c, upd pp (\<lambda>pr. pr\<lparr>p_usrpri := s8 c\<rparr>) (kick c s)))"

definition roundrobin :: "sched \<Rightarrow> sched" where
  "roundrobin s =
     s\<lparr>runrun := runrun s + 1, astlvl := True, timeouts := timeouts s @ [(''roundrobin'', hz s div 10)]\<rparr>"

text \<open>
  \<open>ave(a, avenrun[0]*nrscale)\<close> with \<open>nrscale\<close> 2: conversions to \<open>int\<close> truncate, and the arithmetic on
  doubles is taken as exact.
\<close>

definition trunc_int :: "rat \<Rightarrow> int" where
  "trunc_int x = (if 0 \<le> x then \<lfloor>x\<rfloor> else \<lceil>x\<rceil>)"

definition ave :: "int \<Rightarrow> rat \<Rightarrow> int" where
  "ave a b = trunc_int (of_int (trunc_int (of_int a * b)) / (b + 1))"

definition schedcpu_cpu :: "rat \<Rightarrow> sproc \<Rightarrow> int" where
  "schedcpu_cpu av pr =
     (let a = ave (uint (p_cpu pr)) (av * 2) + p_nice pr - NZERO;
          b = (if a < 0 then 0 else a)
      in if b > 255 then 255 else b)"

text \<open>The charges for one process, all but the floating point average \<open>p_pctcpu\<close>.\<close>

definition schedcpu_charge :: "rat \<Rightarrow> sproc \<Rightarrow> sproc" where
  "schedcpu_charge av pr =
     (let pr1 = (if p_time pr \<noteq> 127 then pr\<lparr>p_time := p_time pr + 1\<rparr> else pr);
          pr2 = (if (p_stat pr1 = SSLEEP \<or> p_stat pr1 = SSTOP) \<and> p_slptime pr1 \<noteq> 127
                 then pr1\<lparr>p_slptime := p_slptime pr1 + 1\<rparr> else pr1);
          pr3 = pr2\<lparr>p_cpticks := 0\<rparr>
      in pr3\<lparr>p_cpu := word_of_int (schedcpu_cpu av pr3)\<rparr>)"

definition schedcpu_requeue :: "nat \<Rightarrow> sched \<Rightarrow> sched option" where
  "schedcpu_requeue p s =
     (let pr = procs s p
      in if p_pri pr \<ge> PUSER then
           if (p \<noteq> u_procp s \<or> noproc s) \<and> p_stat pr = SRUN \<and> SLOAD \<in> p_flag pr \<and> p_pri pr \<noteq> p_usrpri pr
           then do {
                  s1 \<leftarrow> remrq p s;
                  setrq p (upd p (\<lambda>pr. pr\<lparr>p_pri := p_usrpri pr\<rparr>) s1)
                }
           else Some (upd p (\<lambda>pr. pr\<lparr>p_pri := p_usrpri pr\<rparr>) s)
         else Some s)"

definition schedcpu_proc :: "nat \<Rightarrow> sched \<Rightarrow> sched option" where
  "schedcpu_proc p s =
     (let st = p_stat (procs s p)
      in if st \<noteq> SFREE \<and> st \<noteq> SZOMB
         then let s1 = upd p (schedcpu_charge (avenrun0 s)) s;
                  (_, s2) = setpri p s1
              in schedcpu_requeue p s2
         else Some s)"

fun schedcpu_loop :: "nat list \<Rightarrow> sched \<Rightarrow> sched option" where
  "schedcpu_loop [] s = Some s"
| "schedcpu_loop (p # ps) s = Option.bind (schedcpu_proc p s) (schedcpu_loop ps)"

text \<open>Its end; \<open>vmmeter\<close> is not modelled.\<close>

definition schedcpu :: "sched \<Rightarrow> sched option" where
  "schedcpu s =
     do {
       s1 \<leftarrow> wakeup (lbolt_addr s) s;
       s2 \<leftarrow> schedcpu_loop [0..<nproc s1] s1;
       s3 \<leftarrow> (if runin s2 \<noteq> 0 then wakeup (runin_addr s2) (s2\<lparr>runin := 0\<rparr>) else Some s2);
       s4 \<leftarrow> (if bclnlist s3 then wakeup (proc_addr s3 2) s3 else Some s3);
       Some (s4\<lparr>timeouts := timeouts s4 @ [(''schedcpu'', hz s4)]\<rparr>)
     }"

end
