(* ===== verification/Sched_Inv.thy ===== *)
theory Sched_Inv
  imports Sched
begin

text \<open>
  The invariant of the scheduler, and what its operations do in a state that has it: no panic, and the
  invariant again.  A process is on a sleep queue exactly when it has a wait channel, on the queue the
  channel hashes to; on a run queue exactly when \<open>p_rlink\<close> is set, on the queue of its priority; and every
  process that is ready, in core and not running is on one.
\<close>

section \<open>The invariant\<close>

definition on_cpu :: "sched \<Rightarrow> nat \<Rightarrow> bool" where
  "on_cpu s p = (p = u_procp s \<and> \<not> noproc s)"

definition prio_ok :: "sproc \<Rightarrow> bool" where
  "prio_ok pr = (0 \<le> p_pri pr \<and> p_pri pr \<le> 127 \<and> 0 \<le> p_usrpri pr \<and> p_usrpri pr \<le> 127 \<and>
     0 \<le> p_nice pr \<and> p_nice pr \<le> 127)"

definition proc_ok :: "bool \<Rightarrow> sproc \<Rightarrow> bool" where
  "proc_ok running pr =
     (prio_ok pr \<and>
      (p_rlink pr = (p_stat pr = SRUN \<and> SLOAD \<in> p_flag pr \<and> \<not> running)) \<and>
      (p_stat pr = SSLEEP \<longrightarrow> p_wchan pr \<noteq> 0 \<and> \<not> running) \<and>
      (p_wchan pr \<noteq> 0 \<longrightarrow> p_stat pr = SSLEEP \<or> p_stat pr = SSTOP) \<and>
      (running \<longrightarrow> SLOAD \<in> p_flag pr))"

definition rq_ok :: "sched \<Rightarrow> bool" where
  "rq_ok s =
     ((\<forall>i p. p \<in> set (qs s i) = (p_rlink (procs s p) \<and> rqno (procs s p) = i)) \<and>
      (\<forall>i. distinct (qs s i)) \<and> (\<forall>i < NQS. bit (whichqs s) i = (qs s i \<noteq> [])))"

definition sq_ok :: "sched \<Rightarrow> bool" where
  "sq_ok s =
     ((\<forall>h p. p \<in> set (slpque s h) = (p_wchan (procs s p) \<noteq> 0 \<and> HASH (p_wchan (procs s p)) = h)) \<and>
      (\<forall>h. distinct (slpque s h)))"

definition chans_ok :: "sched \<Rightarrow> bool" where
  "chans_ok s = (lbolt_addr s \<noteq> 0 \<and> runout_addr s \<noteq> 0 \<and> runin_addr s \<noteq> 0 \<and> (\<forall>p. proc_addr s p \<noteq> 0))"

text \<open>The invariant, but for the processes of \<open>E\<close> that an operation has in hand.\<close>

definition sinv_but :: "nat set \<Rightarrow> sched \<Rightarrow> bool" where
  "sinv_but E s =
     (rq_ok s \<and> sq_ok s \<and> chans_ok s \<and> (\<forall>p. p \<notin> E \<longrightarrow> proc_ok (on_cpu s p) (procs s p)))"

abbreviation sinv :: "sched \<Rightarrow> bool" where
  "sinv s \<equiv> sinv_but {} s"

text \<open>The fields the queue operations leave alone.\<close>

definition frame :: "sched \<Rightarrow> sched \<Rightarrow> bool" where
  "frame s t =
     (nproc t = nproc s \<and> u_procp t = u_procp s \<and> noproc t = noproc s \<and> curpri t = curpri s \<and>
      runin t = runin s \<and> freemem t = freemem s \<and> desfree t = desfree s \<and> avenrun0 t = avenrun0 s \<and>
      hz t = hz s \<and> bclnlist t = bclnlist s \<and> timeouts t = timeouts s \<and>
      lbolt_addr t = lbolt_addr s \<and> runout_addr t = runout_addr s \<and> runin_addr t = runin_addr s \<and>
      proc_addr t = proc_addr s)"

lemma frame_refl' [simp]: "frame s s"
  by (simp add: frame_def)

lemma frame_trans': "frame s t \<Longrightarrow> frame t u \<Longrightarrow> frame s u"
  by (simp add: frame_def)

lemma frame_on_cpu: "frame s t \<Longrightarrow> on_cpu t p = on_cpu s p"
  by (simp add: frame_def on_cpu_def)

lemma frame_chans: "frame s t \<Longrightarrow> chans_ok t = chans_ok s"
  by (simp add: frame_def chans_ok_def)

section \<open>Updates\<close>

lemma upd_sel [simp]:
  "procs (upd p f s) = (procs s)(p := f (procs s p))"
  "nproc (upd p f s) = nproc s" "slpque (upd p f s) = slpque s" "qs (upd p f s) = qs s"
  "whichqs (upd p f s) = whichqs s" "u_procp (upd p f s) = u_procp s" "noproc (upd p f s) = noproc s"
  "curpri (upd p f s) = curpri s" "runrun (upd p f s) = runrun s" "astlvl (upd p f s) = astlvl s"
  "runout (upd p f s) = runout s" "runin (upd p f s) = runin s" "wantin (upd p f s) = wantin s"
  "freemem (upd p f s) = freemem s" "desfree (upd p f s) = desfree s" "avenrun0 (upd p f s) = avenrun0 s"
  "hz (upd p f s) = hz s" "bclnlist (upd p f s) = bclnlist s" "timeouts (upd p f s) = timeouts s"
  "lbolt_addr (upd p f s) = lbolt_addr s" "runout_addr (upd p f s) = runout_addr s"
  "runin_addr (upd p f s) = runin_addr s" "proc_addr (upd p f s) = proc_addr s"
  by (simp_all add: upd_def)

lemma kick_sel [simp]:
  "procs (kick c s) = procs s"
  "nproc (kick c s) = nproc s" "slpque (kick c s) = slpque s" "qs (kick c s) = qs s"
  "whichqs (kick c s) = whichqs s" "u_procp (kick c s) = u_procp s" "noproc (kick c s) = noproc s"
  "curpri (kick c s) = curpri s"
  "runout (kick c s) = runout s" "runin (kick c s) = runin s" "wantin (kick c s) = wantin s"
  "freemem (kick c s) = freemem s" "desfree (kick c s) = desfree s" "avenrun0 (kick c s) = avenrun0 s"
  "hz (kick c s) = hz s" "bclnlist (kick c s) = bclnlist s" "timeouts (kick c s) = timeouts s"
  "lbolt_addr (kick c s) = lbolt_addr s" "runout_addr (kick c s) = runout_addr s"
  "runin_addr (kick c s) = runin_addr s" "proc_addr (kick c s) = proc_addr s"
  by (simp_all add: kick_def)

text \<open>The invariant reads only the tables and the queues.\<close>

definition same_queues :: "sched \<Rightarrow> sched \<Rightarrow> bool" where
  "same_queues s t = (procs t = procs s \<and> qs t = qs s \<and> whichqs t = whichqs s \<and> slpque t = slpque s)"

lemma rq_ok_same: "same_queues s t \<Longrightarrow> rq_ok t = rq_ok s"
  by (simp add: rq_ok_def same_queues_def)

lemma sq_ok_same: "same_queues s t \<Longrightarrow> sq_ok t = sq_ok s"
  by (simp add: sq_ok_def same_queues_def)

lemma sinv_same: "same_queues s t \<Longrightarrow> frame s t \<Longrightarrow> sinv_but E t = sinv_but E s"
  by (simp add: sinv_but_def rq_ok_same sq_ok_same frame_chans frame_on_cpu) (simp add: same_queues_def)

text \<open>A change of one process that keeps its place on the queues.\<close>

lemma rq_ok_upd:
  "rq_ok s \<Longrightarrow> p_rlink (f (procs s p)) = p_rlink (procs s p) \<Longrightarrow>
   p_rlink (procs s p) \<longrightarrow> p_pri (f (procs s p)) = p_pri (procs s p) \<Longrightarrow> rq_ok (upd p f s)"
  by (auto simp: rq_ok_def rqno_def)

lemma sq_ok_upd:
  "sq_ok s \<Longrightarrow> p_wchan (f (procs s p)) = p_wchan (procs s p) \<Longrightarrow> sq_ok (upd p f s)"
  by (auto simp: sq_ok_def)

lemma frame_upd [simp]: "frame s (upd p f s)"
  by (simp add: frame_def)

lemma sinv_but_upd:
  assumes "sinv_but E s" "p_rlink (f (procs s p)) = p_rlink (procs s p)"
    "p_rlink (procs s p) \<longrightarrow> p_pri (f (procs s p)) = p_pri (procs s p)"
    "p_wchan (f (procs s p)) = p_wchan (procs s p)"
    "p \<notin> E' \<longrightarrow> proc_ok (on_cpu s p) (f (procs s p))" "E \<subseteq> insert p E'"
  shows "sinv_but E' (upd p f s)"
  using assms unfolding sinv_but_def
  by (auto simp: rq_ok_upd sq_ok_upd frame_chans [of s "upd p f s"] frame_on_cpu [of s "upd p f s"])

section \<open>Run queues\<close>

lemma on_rq: "rq_ok s \<Longrightarrow> p \<in> set (qs s i) = (p_rlink (procs s p) \<and> rqno (procs s p) = i)"
  by (simp add: rq_ok_def)

lemma rq_head: "rq_ok s \<Longrightarrow> p_rlink (procs s p) \<Longrightarrow> p \<in> set (qs s (rqno (procs s p))) \<and> qs s (rqno (procs s p)) \<noteq> []"
  using on_rq [of s p "rqno (procs s p)"] by auto

lemma rqno_bound: "prio_ok pr \<Longrightarrow> rqno pr < NQS \<and> int (rqno pr) = p_pri pr div 4"
  by (simp add: prio_ok_def rqno_def nat_div_distrib) linarith

definition enq :: "nat \<Rightarrow> sched \<Rightarrow> sched" where
  "enq p s =
     (let q = rqno (procs s p)
      in upd p (\<lambda>pr. pr\<lparr>p_rlink := True\<rparr>)
           (s\<lparr>qs := (qs s)(q := qs s q @ [p]), whichqs := set_bit q (whichqs s)\<rparr>))"

lemma enq_sel [simp]:
  "procs (enq p s) = (procs s)(p := (procs s p)\<lparr>p_rlink := True\<rparr>)"
  "qs (enq p s) = (qs s)(rqno (procs s p) := qs s (rqno (procs s p)) @ [p])"
  "slpque (enq p s) = slpque s" "runout (enq p s) = runout s" "wantin (enq p s) = wantin s"
  "runrun (enq p s) = runrun s"
  "whichqs (enq p s) = set_bit (rqno (procs s p)) (whichqs s)"
  by (simp_all add: enq_def Let_def)

lemma frame_enq [simp]: "frame s (enq p s)"
  by (simp add: frame_def enq_def Let_def)

lemma setrq_enq: "prio_ok (procs s p) \<Longrightarrow> \<not> p_rlink (procs s p) \<Longrightarrow> setrq p s = Some (enq p s)"
  using rqno_bound [of "procs s p"] by (simp add: setrq_def enq_def Let_def)

lemma rqno_rlink [simp]: "rqno (pr\<lparr>p_rlink := b\<rparr>) = rqno pr"
  by (simp add: rqno_def)

lemma rq_ok_enq:
  assumes "rq_ok s" "prio_ok (procs s p)" "\<not> p_rlink (procs s p)"
  shows "rq_ok (enq p s)"
  using assms rqno_bound [OF assms(2)]
  by (auto simp: rq_ok_def bit_set_bit_iff)

lemma sq_ok_enq: "sq_ok s \<Longrightarrow> sq_ok (enq p s)"
  by (auto simp: sq_ok_def)

lemma sinv_enq:
  assumes "sinv_but E s" "prio_ok (procs s p)" "\<not> p_rlink (procs s p)"
    "p \<notin> E' \<longrightarrow> proc_ok (on_cpu s p) ((procs s p)\<lparr>p_rlink := True\<rparr>)" "E \<subseteq> insert p E'"
  shows "setrq p s = Some (enq p s)" "sinv_but E' (enq p s)"
  using assms frame_chans [OF frame_enq [of s p]] frame_on_cpu [OF frame_enq [of s p]]
  by (auto simp: setrq_enq sinv_but_def rq_ok_enq sq_ok_enq)

definition deq :: "nat \<Rightarrow> sched \<Rightarrow> sched" where
  "deq p s =
     (let q = rqno (procs s p); rest = remove1 p (qs s q)
      in upd p (\<lambda>pr. pr\<lparr>p_rlink := False\<rparr>)
           (s\<lparr>qs := (qs s)(q := rest),
              whichqs := (if rest = [] then unset_bit q (whichqs s) else set_bit q (unset_bit q (whichqs s)))\<rparr>))"

lemma deq_sel [simp]:
  "procs (deq p s) = (procs s)(p := (procs s p)\<lparr>p_rlink := False\<rparr>)"
  "qs (deq p s) = (qs s)(rqno (procs s p) := remove1 p (qs s (rqno (procs s p))))"
  "slpque (deq p s) = slpque s" "runout (deq p s) = runout s" "wantin (deq p s) = wantin s"
  by (simp_all add: deq_def Let_def)

lemma whichqs_deq:
  "whichqs (deq p s) =
     (let q = rqno (procs s p)
      in if remove1 p (qs s q) = [] then unset_bit q (whichqs s) else set_bit q (unset_bit q (whichqs s)))"
  by (simp add: deq_def Let_def)

lemma frame_deq [simp]: "frame s (deq p s)"
  by (simp add: frame_def deq_def Let_def)

lemma remrq_deq:
  assumes "rq_ok s" "prio_ok (procs s p)" "p_rlink (procs s p)"
  shows "remrq p s = Some (deq p s)"
proof -
  have "p \<in> set (qs s (rqno (procs s p)))" "qs s (rqno (procs s p)) \<noteq> []"
    using rq_head [OF assms(1,3)] by simp_all
  moreover from this have "bit (whichqs s) (rqno (procs s p))"
    using assms(1) rqno_bound [OF assms(2)] by (auto simp: rq_ok_def)
  ultimately show ?thesis
    using rqno_bound [OF assms(2)] by (simp add: remrq_def deq_def Let_def)
qed

lemma rq_ok_deq:
  assumes "rq_ok s" "prio_ok (procs s p)" "p_rlink (procs s p)"
  shows "rq_ok (deq p s)"
proof -
  have "qs s (rqno (procs s p)) \<noteq> []" using rq_head [OF assms(1,3)] by simp
  then show ?thesis
    using assms(1) rqno_bound [OF assms(2)]
    by (auto simp: rq_ok_def whichqs_deq Let_def bit_set_bit_iff bit_unset_bit_iff)
qed

lemma sq_ok_deq: "sq_ok s \<Longrightarrow> sq_ok (deq p s)"
  by (auto simp: sq_ok_def)

lemma sinv_deq:
  assumes "sinv_but E s" "prio_ok (procs s p)" "p_rlink (procs s p)"
    "p \<notin> E' \<longrightarrow> proc_ok (on_cpu s p) ((procs s p)\<lparr>p_rlink := False\<rparr>)" "E \<subseteq> insert p E'"
  shows "remrq p s = Some (deq p s)" "sinv_but E' (deq p s)"
  using assms frame_chans [OF frame_deq [of s p]] frame_on_cpu [OF frame_deq [of s p]]
  by (auto simp: remrq_deq sinv_but_def rq_ok_deq sq_ok_deq)

section \<open>Sleep queues\<close>

lemma sq_ok_remove:
  assumes "sq_ok s" "p_wchan (procs s p) \<noteq> 0" "p_wchan (f (procs s p)) = 0"
    "slpque t = (slpque s)(HASH (p_wchan (procs s p)) := remove1 p (slpque s (HASH (p_wchan (procs s p)))))"
    "procs t = (procs s)(p := f (procs s p))"
  shows "sq_ok t"
  using assms by (auto simp: sq_ok_def)

lemma on_slpque: "sq_ok s \<Longrightarrow> p \<in> set (slpque s h) = (p_wchan (procs s p) \<noteq> 0 \<and> HASH (p_wchan (procs s p)) = h)"
  by (simp add: sq_ok_def)

definition unslept :: "nat \<Rightarrow> sched \<Rightarrow> sched" where
  "unslept p s =
     (let h = HASH (p_wchan (procs s p))
      in upd p (\<lambda>pr. pr\<lparr>p_wchan := 0\<rparr>) (s\<lparr>slpque := (slpque s)(h := remove1 p (slpque s h))\<rparr>))"

lemma unslept_sel [simp]:
  "procs (unslept p s) = (procs s)(p := (procs s p)\<lparr>p_wchan := 0\<rparr>)"
  "qs (unslept p s) = qs s" "whichqs (unslept p s) = whichqs s" "runout (unslept p s) = runout s"
  "slpque (unslept p s) = (slpque s)(HASH (p_wchan (procs s p)) := remove1 p (slpque s (HASH (p_wchan (procs s p)))))"
  "wantin (unslept p s) = wantin s" "runrun (unslept p s) = runrun s"
  by (simp_all add: unslept_def Let_def)

lemma frame_unslept [simp]: "frame s (unslept p s)"
  by (simp add: frame_def unslept_def Let_def)

text \<open>A process without a channel is on no sleep queue, and removing it changes nothing.\<close>

lemma unslept_none:
  assumes "sq_ok s" "p_wchan (procs s p) = 0"
  shows "unslept p s = s"
proof -
  have "p \<notin> set (slpque s (HASH 0))" using assms by (auto simp: sq_ok_def)
  moreover have "(procs s)(p := (procs s p)\<lparr>p_wchan := 0\<rparr>) = procs s"
    using assms(2) by (intro fun_upd_idem) (cases "procs s p", simp)
  ultimately show ?thesis using assms(2) by (simp add: unslept_def Let_def upd_def remove1_idem)
qed

lemma unsleep_unslept: "sq_ok s \<Longrightarrow> unsleep p s = Some (unslept p s)"
  using unslept_none [of s p] by (auto simp: unsleep_def Let_def sq_ok_def unslept_def)

lemma rqno_wchan [simp]: "rqno (pr\<lparr>p_wchan := c\<rparr>) = rqno pr"
  by (simp add: rqno_def)

lemma rq_ok_unslept: "rq_ok s \<Longrightarrow> rq_ok (unslept p s)"
  by (auto simp: rq_ok_def)

lemma sq_ok_unslept:
  assumes "sq_ok s"
  shows "sq_ok (unslept p s)"
proof (cases "p_wchan (procs s p) = 0")
  case True
  then show ?thesis using assms by (simp add: unslept_none)
next
  case False
  then show ?thesis using assms by (auto simp: sq_ok_def)
qed

lemma sinv_unslept:
  assumes "sinv_but E s" "p \<notin> E' \<longrightarrow> proc_ok (on_cpu s p) ((procs s p)\<lparr>p_wchan := 0\<rparr>)" "E \<subseteq> insert p E'"
  shows "unsleep p s = Some (unslept p s)" "sinv_but E' (unslept p s)"
  using assms frame_chans [OF frame_unslept [of s p]] frame_on_cpu [OF frame_unslept [of s p]]
  by (auto simp: unsleep_unslept sinv_but_def rq_ok_unslept sq_ok_unslept)

section \<open>Wakeup\<close>

text \<open>What \<open>wakeup\<close> makes of a process that sleeps on the channel.\<close>

definition woken :: "sproc \<Rightarrow> sproc" where
  "woken pr =
     (let pr1 = pr\<lparr>p_wchan := 0, p_slptime := 0\<rparr>
      in if p_stat pr = SSLEEP then pr1\<lparr>p_stat := SRUN, p_rlink := (SLOAD \<in> p_flag pr)\<rparr> else pr1)"

definition sleepers :: "nat \<Rightarrow> sched \<Rightarrow> nat set" where
  "sleepers c s = {p. p_wchan (procs s p) = c}"

text \<open>Whether waking \<open>c\<close> wakes the swapper too.\<close>

definition calls_swapper :: "nat \<Rightarrow> sched \<Rightarrow> bool" where
  "calls_swapper c s =
     (runout s \<noteq> 0 \<and> (\<exists>p. p_wchan (procs s p) = c \<and> p_stat (procs s p) = SSLEEP \<and> SLOAD \<notin> p_flag (procs s p)))"

definition woke :: "nat set \<Rightarrow> sched \<Rightarrow> sched \<Rightarrow> bool" where
  "woke P s t =
     (procs t = (\<lambda>p. if p \<in> P then woken (procs s p) else procs s p) \<and>
      (\<forall>h. slpque t h = [p \<leftarrow> slpque s h. p \<notin> P]) \<and>
      (\<forall>i. \<exists>ws. qs t i = qs s i @ ws) \<and> frame s t)"

lemma woke_trans:
  assumes "woke P s t" "woke Q t u" "P \<inter> Q = {}"
  shows "woke (P \<union> Q) s u"
proof -
  have "\<exists>ws. qs u i = qs s i @ ws" for i
    using assms(1,2) by (metis woke_def append.assoc)
  moreover have "slpque u h = [p \<leftarrow> slpque s h. p \<notin> P \<union> Q]" for h
    using assms(1,2) by (simp add: woke_def conj_commute)
  moreover have "procs u = (\<lambda>p. if p \<in> P \<union> Q then woken (procs s p) else procs s p)"
    using assms by (auto simp: woke_def fun_eq_iff)
  moreover have "frame s u" using assms(1,2) frame_trans' by (simp add: woke_def) metis
  ultimately show ?thesis by (simp add: woke_def)
qed

lemma woke_none: "woke {} s s"
  by (simp add: woke_def)

text \<open>A sleeper taken off its queue.\<close>

definition taken :: "nat \<Rightarrow> sched \<Rightarrow> sched" where
  "taken p s = upd p (\<lambda>pr. pr\<lparr>p_slptime := 0\<rparr>) (unslept p s)"

lemma taken_sel [simp]:
  "procs (taken p s) = (procs s)(p := (procs s p)\<lparr>p_wchan := 0, p_slptime := 0\<rparr>)"
  "qs (taken p s) = qs s" "whichqs (taken p s) = whichqs s" "runout (taken p s) = runout s"
  "slpque (taken p s) = (slpque s)(HASH (p_wchan (procs s p)) := remove1 p (slpque s (HASH (p_wchan (procs s p)))))"
  by (simp_all add: taken_def)

lemma frame_taken [simp]: "frame s (taken p s)"
  using frame_trans' [OF frame_unslept frame_upd] by (simp add: taken_def)

lemma sinv_taken: "sinv_but E s \<Longrightarrow> sinv_but (insert p E) (taken p s)"
  unfolding taken_def by (intro sinv_but_upd [where E = "insert p E"] sinv_unslept) auto

lemma filter_taken: "sq_ok s \<Longrightarrow> slpque (taken p s) h = [q \<leftarrow> slpque s h. q \<notin> {p}]"
proof -
  assume "sq_ok s"
  then have "distinct (slpque s h)" "p \<in> set (slpque s h) \<longrightarrow> HASH (p_wchan (procs s p)) = h"
    by (simp_all add: sq_ok_def)
  then show ?thesis
    by (cases "HASH (p_wchan (procs s p)) = h")
       (auto simp: distinct_remove1_removeAll removeAll_filter_not_eq intro!: filter_cong [symmetric]
         intro: filter_True [symmetric])
qed

lemma remove1_nth: "distinct l \<Longrightarrow> k < length l \<Longrightarrow> take k l @ drop (Suc k) l = remove1 (l ! k) l"
proof -
  assume d: "distinct l" and k: "k < length l"
  have "distinct (take k l @ l ! k # drop (Suc k) l)"
    by (simp only: id_take_nth_drop [OF k, symmetric] d)
  then have "remove1 (l ! k) (take k l @ l ! k # drop (Suc k) l) = take k l @ drop (Suc k) l"
    by (simp add: remove1_append)
  then show ?thesis by (simp only: id_take_nth_drop [OF k, symmetric])
qed

lemma taken_code:
  "sq_ok s \<Longrightarrow> k < length (slpque s (HASH c)) \<Longrightarrow> p = slpque s (HASH c) ! k \<Longrightarrow> p_wchan (procs s p) = c \<Longrightarrow>
   upd p (\<lambda>pr. pr\<lparr>p_wchan := 0, p_slptime := 0\<rparr>)
     (s\<lparr>slpque := (slpque s)(HASH c := take k (slpque s (HASH c)) @ drop (k + 1) (slpque s (HASH c)))\<rparr>) = taken p s"
  by (simp add: taken_def unslept_def Let_def remove1_nth sq_ok_def upd_def)

text \<open>The three things that happen to a process being woken.\<close>

lemma woke_one:
  assumes "sq_ok s" "frame s t" "procs t = (procs s)(p := woken (procs s p))"
    "slpque t = slpque (taken p s)" "\<forall>i. \<exists>ws. qs t i = qs s i @ ws"
  shows "woke {p} s t"
  using assms filter_taken [OF assms(1), of p] by (auto simp: woke_def)

lemma wake_stopped:
  assumes "sinv s" "p_stat (procs s p) = SSTOP"
  shows "sinv (taken p s) \<and> woke {p} s (taken p s)"
proof
  have ok: "proc_ok (on_cpu s p) (procs s p)" using assms by (simp add: sinv_but_def)
  then show "sinv (taken p s)"
    unfolding taken_def using assms
    by (intro sinv_but_upd [where E = "{}"] sinv_unslept)
       (auto simp: proc_ok_def prio_ok_def frame_on_cpu [OF frame_unslept])
  show "woke {p} s (taken p s)"
    using assms by (intro woke_one) (auto simp: sinv_but_def woken_def Let_def)
qed

lemma wake_ready:
  assumes "sinv s" "p_stat (procs s p) = SSLEEP" "SLOAD \<in> p_flag (procs s p)"
  defines "s2 \<equiv> upd p (\<lambda>pr. pr\<lparr>p_stat := SRUN\<rparr>) (taken p s)"
  shows "setrq p s2 = Some (enq p s2) \<and> sinv (enq p s2) \<and> woke {p} s (enq p s2)"
proof -
  have ok: "proc_ok (on_cpu s p) (procs s p)" using assms by (simp add: sinv_but_def)
  have f: "frame s s2" using frame_trans' [OF frame_taken frame_upd] by (simp add: s2_def)
  have i: "sinv_but {p} s2"
    unfolding s2_def using sinv_taken [OF assms(1), of p] by (rule sinv_but_upd) auto
  have e: "setrq p s2 = Some (enq p s2)" "sinv (enq p s2)"
    by (rule sinv_enq [OF i, where E' = "{}"]; use ok assms(2,3) frame_on_cpu [OF f, of p]
        in \<open>simp add: s2_def proc_ok_def prio_ok_def\<close>)+
  have "woke {p} s (enq p s2)"
    using assms(1-3) frame_trans' [OF f frame_enq [of s2 p]]
    by (intro woke_one) (auto simp: sinv_but_def woken_def Let_def s2_def)
  with e show ?thesis by simp
qed

lemma wake_swapped:
  assumes "sinv s" "p_stat (procs s p) = SSLEEP" "SLOAD \<notin> p_flag (procs s p)"
  defines "s2 \<equiv> upd p (\<lambda>pr. pr\<lparr>p_stat := SRUN\<rparr>) (taken p s)"
  shows "sinv s2 \<and> woke {p} s s2"
proof -
  have ok: "proc_ok (on_cpu s p) (procs s p)" using assms by (simp add: sinv_but_def)
  have f: "frame s s2" using frame_trans' [OF frame_taken frame_upd] by (simp add: s2_def)
  have "sinv s2"
    unfolding s2_def using ok assms(2,3) frame_on_cpu [OF frame_taken [of s p], of p]
    by (intro sinv_but_upd [OF sinv_taken [OF assms(1), of p]]) (auto simp: proc_ok_def prio_ok_def)
  moreover have "(procs s p)\<lparr>p_wchan := 0, p_slptime := 0, p_stat := SRUN\<rparr> = woken (procs s p)"
    using ok assms(2,3) by (cases "procs s p") (simp add: woken_def Let_def proc_ok_def)
  then have "woke {p} s s2"
    using assms(1-3) f by (intro woke_one) (auto simp: sinv_but_def s2_def)
  ultimately show ?thesis by simp
qed

text \<open>The number of processes on the sleep queues goes down with each one woken.\<close>

definition nsleep :: "sched \<Rightarrow> nat" where
  "nsleep s = (\<Sum>h < SQSIZE. length (slpque s h))"

lemma nsleep_le: "woke P s t \<Longrightarrow> nsleep t \<le> nsleep s"
  unfolding nsleep_def by (rule sum_mono) (simp add: woke_def)

lemma HASH_bound: "HASH c < SQSIZE"
  by (simp add: HASH_def SQSIZE_def)

lemma nsleep_less:
  assumes "woke P s t" "p \<in> P" "p \<in> set (slpque s (HASH c))"
  shows "nsleep t < nsleep s"
  unfolding nsleep_def
proof (rule sum_strict_mono_ex1)
  show "\<forall>h \<in> {..<SQSIZE}. length (slpque t h) \<le> length (slpque s h)"
    using assms(1) by (simp add: woke_def)
  have "length [q \<leftarrow> slpque s (HASH c). q \<notin> P] < length (slpque s (HASH c))"
    using assms(2,3) by (intro length_filter_less) auto
  then show "\<exists>h \<in> {..<SQSIZE}. length (slpque t h) < length (slpque s h)"
    using assms(1) HASH_bound by (auto simp: woke_def)
qed simp

lemma woke_same: "same_queues t u \<Longrightarrow> frame t u \<Longrightarrow> woke P s t \<Longrightarrow> woke P s u"
  using frame_trans' by (simp add: woke_def same_queues_def) blast

lemma same_wantin [simp]: "same_queues t (t\<lparr>wantin := x\<rparr>)" "frame t (t\<lparr>wantin := x\<rparr>)"
  and same_runout [simp]: "same_queues t (t\<lparr>runout := y\<rparr>)" "frame t (t\<lparr>runout := y\<rparr>)"
  and same_kick [simp]: "same_queues t (kick c t)" "frame t (kick c t)"
  by (simp_all add: same_queues_def frame_def)

lemma sinv_wantin [simp]: "sinv_but E (t\<lparr>wantin := x\<rparr>) = sinv_but E t"
  and sinv_runout [simp]: "sinv_but E (t\<lparr>runout := y\<rparr>) = sinv_but E t"
  and sinv_kick [simp]: "sinv_but E (kick c t) = sinv_but E t"
  by (rule sinv_same; simp)+

lemma woke_wantin [simp]: "woke P s t \<Longrightarrow> woke P s (t\<lparr>wantin := x\<rparr>)"
  and woke_runout [simp]: "woke P s t \<Longrightarrow> woke P s (t\<lparr>runout := y\<rparr>)"
  and woke_kick [simp]: "woke P s t \<Longrightarrow> woke P s (kick c t)"
  by (rule woke_same; simp)+

lemma p_wchan_woken [simp]: "p_wchan (woken pr) = 0"
  by (simp add: woken_def Let_def)

lemma p_flag_woken [simp]: "p_flag (woken pr) = p_flag pr"
  by (simp add: woken_def Let_def)

lemma p_pri_woken [simp]: "p_pri (woken pr) = p_pri pr"
  by (simp add: woken_def Let_def)

lemma sleepers_woke: "woke P s t \<Longrightarrow> c \<noteq> 0 \<Longrightarrow> sleepers c t = sleepers c s - P"
  by (auto simp: woke_def sleepers_def)

text \<open>The processes a call of \<open>wakeup\<close> wakes, and the whole of its effect.\<close>

definition awoken :: "nat \<Rightarrow> sched \<Rightarrow> nat set" where
  "awoken c s = sleepers c s \<union> (if calls_swapper c s then sleepers (runout_addr s) s else {})"

definition woke_up :: "nat \<Rightarrow> sched \<Rightarrow> sched \<Rightarrow> bool" where
  "woke_up c s t =
     (sinv t \<and> woke (awoken c s) s t \<and> runout t = (if calls_swapper c s then 0 else runout s))"

lemma calls_swapper_woke:
  "woke {p} s t \<Longrightarrow> c \<noteq> 0 \<Longrightarrow> runout t = runout s \<Longrightarrow>
   runout s = 0 \<or> p_stat (procs s p) \<noteq> SSLEEP \<or> SLOAD \<in> p_flag (procs s p) \<Longrightarrow>
   calls_swapper c t = calls_swapper c s"
  by (auto simp: calls_swapper_def woke_def)

lemma frame_runout_addr: "frame s t \<Longrightarrow> runout_addr t = runout_addr s"
  by (simp add: frame_def)

lemma woke_up_step:
  assumes w: "woke {p} s s1" and p: "p_wchan (procs s p) = c" and c: "c \<noteq> 0" "runout_addr s \<noteq> 0"
    and r: "runout s1 = runout s"
    and q: "runout s = 0 \<or> p_stat (procs s p) \<noteq> SSLEEP \<or> SLOAD \<in> p_flag (procs s p)"
    and t: "woke_up c s1 t"
  shows "woke_up c s t"
proof -
  have cs: "calls_swapper c s1 = calls_swapper c s" by (rule calls_swapper_woke [OF w c(1) r q])
  have "runout_addr s1 = runout_addr s" using w by (simp add: woke_def frame_runout_addr)
  then have a: "awoken c s1 = awoken c s - {p}"
    using cs sleepers_woke [OF w c(1)] sleepers_woke [OF w c(2)] by (auto simp: awoken_def)
  have "woke ({p} \<union> (awoken c s - {p})) s t"
    using t a by (intro woke_trans [OF w]) (auto simp: woke_up_def)
  moreover have "{p} \<union> (awoken c s - {p}) = awoken c s"
    using p by (auto simp: awoken_def sleepers_def)
  ultimately show ?thesis using t cs r by (simp add: woke_up_def)
qed

lemma woke_up_swapper:
  assumes w: "woke {p} s s1" and p: "p_wchan (procs s p) = c" and c: "c \<noteq> 0" "runout_addr s \<noteq> 0"
    and r: "runout s \<noteq> 0" "runout s1 = 0"
    and q: "p_stat (procs s p) = SSLEEP" "SLOAD \<notin> p_flag (procs s p)"
    and s2: "woke_up (runout_addr s) s1 s2" and t: "woke_up c (s2\<lparr>wantin := x\<rparr>) t"
  shows "woke_up c s t"
proof -
  let ?r = "runout_addr s"
  have cs: "calls_swapper c s" using p r q by (auto simp: calls_swapper_def)
  have n: "\<not> calls_swapper d u" if "runout u = 0" for d u using that by (simp add: calls_swapper_def)
  have w2: "woke (sleepers ?r s - {p}) s1 (s2\<lparr>wantin := x\<rparr>)"
    using s2 sleepers_woke [OF w c(2)] n [OF r(2)] by (simp add: woke_up_def awoken_def)
  have r2: "runout (s2\<lparr>wantin := x\<rparr>) = 0" using s2 r n [OF r(2)] by (simp add: woke_up_def)
  have a: "awoken c (s2\<lparr>wantin := x\<rparr>) = sleepers c s - {p} - (sleepers ?r s - {p})"
    using sleepers_woke [OF w2 c(1)] sleepers_woke [OF w c(1)] n [OF r2] by (simp add: awoken_def)
  have "woke ({p} \<union> (sleepers ?r s - {p}) \<union> (sleepers c s - {p} - (sleepers ?r s - {p}))) s t"
    using t a by (intro woke_trans [OF woke_trans [OF w w2]]) (auto simp: woke_up_def)
  moreover have "{p} \<union> (sleepers ?r s - {p}) \<union> (sleepers c s - {p} - (sleepers ?r s - {p})) = awoken c s"
    using p cs by (auto simp: awoken_def sleepers_def)
  ultimately show ?thesis using t cs n [OF r2] r2 by (simp add: woke_up_def)
qed

text \<open>One turn of the loop, by what it finds.\<close>

lemma loop_end: "length (slpque s (HASH c)) \<le> k \<Longrightarrow> wakeup_loop c k s = Some s"
  by (subst wakeup_loop.simps) (simp add: Let_def)

lemma chain_member:
  assumes "sinv s" "k < length (slpque s (HASH c))" "p = slpque s (HASH c) ! k"
  shows "\<not> p_rlink (procs s p) \<and> (p_stat (procs s p) = SSLEEP \<or> p_stat (procs s p) = SSTOP)"
proof -
  have "p \<in> set (slpque s (HASH c))" using assms(2,3) by simp
  then have "p_wchan (procs s p) \<noteq> 0" using assms(1) by (simp add: sinv_but_def on_slpque)
  moreover have "proc_ok (on_cpu s p) (procs s p)" using assms(1) by (simp add: sinv_but_def)
  ultimately show ?thesis by (auto simp: proc_ok_def)
qed

lemma loop_skip:
  assumes "sinv s" "k < length (slpque s (HASH c))" "p_wchan (procs s (slpque s (HASH c) ! k)) \<noteq> c"
  shows "wakeup_loop c k s = wakeup_loop c (k + 1) s"
  using chain_member [OF assms(1,2) refl] assms(2,3)
  by (subst wakeup_loop.simps) (auto simp: Let_def)

lemma loop_stopped:
  assumes "sinv s" "k < length (slpque s (HASH c))" "p = slpque s (HASH c) ! k" "p_wchan (procs s p) = c"
    "p_stat (procs s p) = SSTOP"
  shows "wakeup_loop c k s = wakeup_loop c k (taken p s)"
proof -
  have q: "sq_ok s" using assms(1) by (simp add: sinv_but_def)
  show ?thesis
    using chain_member [OF assms(1-3)] assms(2-5) taken_code [OF q assms(2-4)]
    by (subst wakeup_loop.simps) (simp add: Let_def)
qed

text \<open>The statements for a process that was asleep, as a function.\<close>

definition wake_sleeper :: "nat \<Rightarrow> sched \<Rightarrow> sched option" where
  "wake_sleeper p s1 =
     do {
       let s2 = upd p (\<lambda>pr. pr\<lparr>p_stat := SRUN\<rparr>) s1;
       s3 \<leftarrow> (if SLOAD \<in> p_flag (procs s2 p) then setrq p s2 else Some s2);
       let s4 = kick (p_pri (procs s3 p)) s3;
       (if SLOAD \<notin> p_flag (procs s4 p)
        then (if runout s4 \<noteq> 0
              then do {
                     s5 \<leftarrow> wakeup_loop (runout_addr s4) 0 (s4\<lparr>runout := 0\<rparr>);
                     Some (s5\<lparr>wantin := wantin s5 + 1\<rparr>)
                   }
              else Some (s4\<lparr>wantin := wantin s4 + 1\<rparr>))
        else Some s4)
     }"

lemma loop_asleep:
  assumes "sinv s" "k < length (slpque s (HASH c))" "p = slpque s (HASH c) ! k" "p_wchan (procs s p) = c"
    "p_stat (procs s p) = SSLEEP"
  shows "wakeup_loop c k s = Option.bind (wake_sleeper p (taken p s)) (wakeup_loop c 0)"
proof -
  have q: "sq_ok s" using assms(1) by (simp add: sinv_but_def)
  have "wakeup_loop c k s = do {
      s5 \<leftarrow> wake_sleeper p (upd p (\<lambda>pr. pr\<lparr>p_wchan := 0, p_slptime := 0\<rparr>)
        (s\<lparr>slpque := (slpque s)(HASH c := take k (slpque s (HASH c)) @ drop (k + 1) (slpque s (HASH c)))\<rparr>));
      wakeup_loop c 0 s5 }"
    using chain_member [OF assms(1-3)] assms(2-5)
    by (subst wakeup_loop.simps) (simp add: Let_def wake_sleeper_def)
  then show ?thesis by (simp only: taken_code [OF q assms(2-4)])
qed

text \<open>
  A sleeper readied: what follows is again a loop, over fewer sleepers, which \<open>again\<close> is about.
\<close>

lemma nsleep_wantin [simp]: "nsleep (s\<lparr>wantin := x\<rparr>) = nsleep s"
  by (simp add: nsleep_def)

lemma runout_addr_ok: "sinv s \<Longrightarrow> runout_addr s \<noteq> 0"
  by (simp add: sinv_but_def chans_ok_def)

lemma asleep_ready:
  assumes inv: "sinv s" and c0: "c \<noteq> 0" and p: "p \<in> set (slpque s (HASH c))" and here: "p_wchan (procs s p) = c"
    and again: "\<And>u d. sinv u \<Longrightarrow> nsleep u < nsleep s \<Longrightarrow> d \<noteq> 0 \<Longrightarrow>
      \<exists>t. wakeup_loop d 0 u = Some t \<and> woke_up d u t"
    and sl: "p_stat (procs s p) = SSLEEP" and ld: "SLOAD \<in> p_flag (procs s p)"
  shows "\<exists>t. Option.bind (wake_sleeper p (taken p s)) (wakeup_loop c 0) = Some t \<and> woke_up c s t"
proof -
  let ?s2 = "upd p (\<lambda>pr. pr\<lparr>p_stat := SRUN\<rparr>) (taken p s)"
  let ?u = "kick (p_pri (procs s p)) (enq p ?s2)"
  have w: "setrq p ?s2 = Some (enq p ?s2)" "sinv ?u" "woke {p} s ?u"
    using wake_ready [OF inv sl ld] by simp_all
  obtain t where t: "wakeup_loop c 0 ?u = Some t" "woke_up c ?u t"
    using again [OF w(2) nsleep_less [OF w(3) _ p] c0] by auto
  have "wake_sleeper p (taken p s) = Some ?u" using w(1) ld by (simp add: wake_sleeper_def Let_def)
  moreover have "woke_up c s t"
    by (intro woke_up_step [OF w(3) here c0 runout_addr_ok [OF inv] _ _ t(2)]) (simp_all add: ld)
  ultimately show ?thesis using t by simp
qed

lemma asleep_swapped:
  assumes inv: "sinv s" and c0: "c \<noteq> 0" and p: "p \<in> set (slpque s (HASH c))" and here: "p_wchan (procs s p) = c"
    and again: "\<And>u d. sinv u \<Longrightarrow> nsleep u < nsleep s \<Longrightarrow> d \<noteq> 0 \<Longrightarrow>
      \<exists>t. wakeup_loop d 0 u = Some t \<and> woke_up d u t"
    and sl: "p_stat (procs s p) = SSLEEP" and ld: "SLOAD \<notin> p_flag (procs s p)" and r0: "runout s = 0"
  shows "\<exists>t. Option.bind (wake_sleeper p (taken p s)) (wakeup_loop c 0) = Some t \<and> woke_up c s t"
proof -
  let ?u = "kick (p_pri (procs s p)) (upd p (\<lambda>pr. pr\<lparr>p_stat := SRUN\<rparr>) (taken p s))"
  let ?v = "?u\<lparr>wantin := wantin ?u + 1\<rparr>"
  have v: "sinv ?v" "woke {p} s ?v" using wake_swapped [OF inv sl ld] by simp_all
  obtain t where t: "wakeup_loop c 0 ?v = Some t" "woke_up c ?v t"
    using again [OF v(1) nsleep_less [OF v(2) _ p] c0] by auto
  have "wake_sleeper p (taken p s) = Some ?v" using ld r0 by (simp add: wake_sleeper_def Let_def)
  moreover have "woke_up c s t"
    by (intro woke_up_step [OF v(2) here c0 runout_addr_ok [OF inv] _ _ t(2)]) (simp_all add: r0)
  ultimately show ?thesis using t by simp
qed

lemma asleep_swapper:
  assumes inv: "sinv s" and c0: "c \<noteq> 0" and p: "p \<in> set (slpque s (HASH c))" and here: "p_wchan (procs s p) = c"
    and again: "\<And>u d. sinv u \<Longrightarrow> nsleep u < nsleep s \<Longrightarrow> d \<noteq> 0 \<Longrightarrow>
      \<exists>t. wakeup_loop d 0 u = Some t \<and> woke_up d u t"
    and sl: "p_stat (procs s p) = SSLEEP" and ld: "SLOAD \<notin> p_flag (procs s p)" and r: "runout s \<noteq> 0"
  shows "\<exists>t. Option.bind (wake_sleeper p (taken p s)) (wakeup_loop c 0) = Some t \<and> woke_up c s t"
proof -
  let ?u = "kick (p_pri (procs s p)) (upd p (\<lambda>pr. pr\<lparr>p_stat := SRUN\<rparr>) (taken p s))"
  let ?v = "?u\<lparr>runout := 0\<rparr>"
  note ch = runout_addr_ok [OF inv]
  have w: "sinv ?u" "woke {p} s ?u" using wake_swapped [OF inv sl ld] by simp_all
  then have v: "sinv ?v" "woke {p} s ?v" by simp_all
  have nv: "nsleep ?v < nsleep s" by (rule nsleep_less [OF v(2) _ p]) simp
  have ra: "runout_addr ?u = runout_addr s" using w(2) by (simp add: woke_def frame_runout_addr)
  obtain s5 where s5: "wakeup_loop (runout_addr s) 0 ?v = Some s5" "woke_up (runout_addr s) ?v s5"
    using again [OF v(1) nv ch] by blast
  let ?x = "s5\<lparr>wantin := wantin s5 + 1\<rparr>"
  have "nsleep s5 \<le> nsleep ?v" using s5(2) nsleep_le by (simp add: woke_up_def) blast
  then obtain t where t: "wakeup_loop c 0 ?x = Some t" "woke_up c ?x t"
    using again [of ?x c] s5(2) c0 nv by (auto simp: woke_up_def)
  have "wake_sleeper p (taken p s) = Some ?x" using ld r s5(1) ra by (simp add: wake_sleeper_def Let_def)
  moreover have "woke_up c s t"
    by (rule woke_up_swapper [OF v(2) here c0 ch r _ sl ld s5(2) t(2)]) simp
  ultimately show ?thesis using t by simp
qed

lemma stopped_turn:
  assumes inv: "sinv s" and c0: "c \<noteq> 0" and k: "k < length (slpque s (HASH c))"
    and p: "p = slpque s (HASH c) ! k" and here: "p_wchan (procs s p) = c" and st: "p_stat (procs s p) = SSTOP"
    and before: "\<forall>q \<in> set (take k (slpque s (HASH c))). p_wchan (procs s q) \<noteq> c"
    and again: "\<And>u. sinv u \<Longrightarrow> nsleep u < nsleep s \<Longrightarrow>
      \<forall>q \<in> set (take k (slpque u (HASH c))). p_wchan (procs u q) \<noteq> c \<Longrightarrow>
      \<exists>t. wakeup_loop c k u = Some t \<and> woke_up c u t"
  shows "\<exists>t. wakeup_loop c k s = Some t \<and> woke_up c s t"
proof -
  let ?l = "slpque s (HASH c)"
  have w: "sinv (taken p s)" "woke {p} s (taken p s)" using wake_stopped [OF inv st] by simp_all
  have n: "nsleep (taken p s) < nsleep s" using nsleep_less [OF w(2), of p c] nth_mem [OF k] p by simp
  have "slpque (taken p s) (HASH c) = take k ?l @ drop (Suc k) ?l"
    using here remove1_nth [OF _ k] inv by (simp add: p sq_ok_def sinv_but_def)
  then have "\<forall>q \<in> set (take k (slpque (taken p s) (HASH c))). p_wchan (procs (taken p s) q) \<noteq> c"
    using before c0 k by simp
  then obtain t where t: "wakeup_loop c k (taken p s) = Some t" "woke_up c (taken p s) t"
    using again [OF w(1) n] by blast
  have "woke_up c s t"
    by (intro woke_up_step [OF w(2) here c0 runout_addr_ok [OF inv] _ _ t(2)]) (simp_all add: st)
  then show ?thesis using t loop_stopped [OF inv k p here st] by simp
qed

lemma nobody_sleeps:
  assumes "sinv s" "c \<noteq> 0" "\<forall>q \<in> set (slpque s (HASH c)). p_wchan (procs s q) \<noteq> c"
  shows "woke_up c s s"
proof -
  have "p_wchan (procs s q) \<noteq> c" for q
    using assms on_slpque [of s q "HASH c"] by (auto simp: sinv_but_def)
  then have "sleepers c s = {}" "\<not> calls_swapper c s" by (auto simp: sleepers_def calls_swapper_def)
  then show ?thesis using assms(1) by (simp add: woke_up_def awoken_def woke_none)
qed

text \<open>\<open>wakeup\<close> returns, by induction on the sleepers left, and within one chain on its rest.\<close>

lemma wakeup_loop_ok:
  "sinv s \<Longrightarrow> c \<noteq> 0 \<Longrightarrow> \<forall>q \<in> set (take k (slpque s (HASH c))). p_wchan (procs s q) \<noteq> c \<Longrightarrow>
   \<exists>t. wakeup_loop c k s = Some t \<and> woke_up c s t"
proof (induction "nsleep s" arbitrary: s c k rule: less_induct)
  case less
  note outer = less.hyps
  show ?case using less.prems
  proof (induction "length (slpque s (HASH c)) - k" arbitrary: k rule: less_induct)
    case less
    note inv = less.prems(1) and c0 = less.prems(2) and before = less.prems(3)
    let ?l = "slpque s (HASH c)"
    show ?case
    proof (cases "k < length ?l")
      case False
      then show ?thesis using before nobody_sleeps [OF inv c0] by (simp add: loop_end)
    next
      case k: True
      define p where p: "p = ?l ! k"
      have pm: "p \<in> set ?l" using k by (simp add: p)
      have again: "\<And>u d. sinv u \<Longrightarrow> nsleep u < nsleep s \<Longrightarrow> d \<noteq> 0 \<Longrightarrow>
          \<exists>t. wakeup_loop d 0 u = Some t \<and> woke_up d u t"
        using outer [where k = 0] by simp
      consider (other) "p_wchan (procs s p) \<noteq> c" | (stopped) "p_wchan (procs s p) = c" "p_stat (procs s p) = SSTOP"
        | (asleep) "p_wchan (procs s p) = c" "p_stat (procs s p) = SSLEEP"
        using chain_member [OF inv k p] by blast
      then show ?thesis
      proof cases
        case other
        then have "\<forall>q \<in> set (take (k + 1) ?l). p_wchan (procs s q) \<noteq> c"
          using before k by (auto simp: p take_Suc_conv_app_nth)
        then show ?thesis
          using less.hyps [of "k + 1"] inv c0 k loop_skip [OF inv k] other by (simp add: p)
      next
        case stopped
        show ?thesis
          by (rule stopped_turn [OF inv c0 k p stopped before]) (rule outer [OF _ _ c0])
      next
        case asleep
        show ?thesis
          unfolding loop_asleep [OF inv k p asleep]
          using asleep_ready [OF inv c0 pm asleep(1) again asleep(2)]
            asleep_swapped [OF inv c0 pm asleep(1) again asleep(2)]
            asleep_swapper [OF inv c0 pm asleep(1) again asleep(2)] by blast
      qed
    qed
  qed
qed

lemma wakeup_ok: "sinv s \<Longrightarrow> c \<noteq> 0 \<Longrightarrow> \<exists>t. wakeup c s = Some t \<and> woke_up c s t"
  using wakeup_loop_ok [of s c 0] by (simp add: wakeup_def)

end
