(* ===== verification/Sched_Ops.thy ===== *)
theory Sched_Ops
  imports Sched_Inv
begin

text \<open>
  The operations of the scheduler in a state with the invariant: none panics, each keeps it, and what each
  does.  \<open>swtch\<close> is called by a process that has just stopped being runnable, or has put itself on a run
  queue; its precondition is the invariant with the processor counted as idle.
\<close>

section \<open>Making a process run\<close>

definition started :: "sproc \<Rightarrow> sproc" where
  "started pr = pr\<lparr>p_wchan := 0, p_stat := SRUN, p_rlink := (SLOAD \<in> p_flag pr)\<rparr>"

lemma sinvD: "sinv_but E s \<Longrightarrow> p \<notin> E \<Longrightarrow> proc_ok (on_cpu s p) (procs s p)"
  by (simp add: sinv_but_def)

text \<open>Whether \<open>setrun\<close> of the process wakes the swapper.\<close>

definition start_swapper :: "nat \<Rightarrow> sched \<Rightarrow> bool" where
  "start_swapper p s = (SLOAD \<notin> p_flag (procs s p) \<and> runout s \<noteq> 0)"

definition started_up :: "nat \<Rightarrow> sched \<Rightarrow> sched \<Rightarrow> bool" where
  "started_up p s t =
     (sinv t \<and>
      procs t = (\<lambda>q. if q = p then started (procs s p)
                     else if start_swapper p s \<and> p_wchan (procs s q) = runout_addr s then woken (procs s q)
                     else procs s q) \<and>
      runout t = (if start_swapper p s then 0 else runout s) \<and> (\<forall>i. \<exists>ws. qs t i = qs s i @ ws) \<and> frame s t)"

lemma setrun_head:
  assumes "sinv s" "p_stat (procs s p) \<in> {SSTOP, SSLEEP, SIDL}" "\<not> on_cpu s p"
  defines "s2 \<equiv> upd p (\<lambda>pr. pr\<lparr>p_stat := SRUN\<rparr>) (unslept p s)"
  shows "(case p_stat (procs s p) of SSTOP \<Rightarrow> unsleep p s | SSLEEP \<Rightarrow> unsleep p s | SIDL \<Rightarrow> Some s | _ \<Rightarrow> None)
           = Some (unslept p s)"
    and "frame s s2" and "sinv_but {p} s2"
    and "SLOAD \<in> p_flag (procs s p) \<Longrightarrow> setrq p s2 = Some (enq p s2) \<and> sinv (enq p s2)"
    and "SLOAD \<notin> p_flag (procs s p) \<Longrightarrow> sinv s2"
proof -
  have ok: "proc_ok False (procs s p)" using sinvD [OF assms(1), of p] assms(3) by simp
  have sq: "sq_ok s" using assms(1) by (simp add: sinv_but_def)
  show "(case p_stat (procs s p) of SSTOP \<Rightarrow> unsleep p s | SSLEEP \<Rightarrow> unsleep p s | SIDL \<Rightarrow> Some s | _ \<Rightarrow> None)
      = Some (unslept p s)"
    using assms(2) ok unsleep_unslept [OF sq] unslept_none [OF sq, of p] by (auto simp: proc_ok_def)
  show f: "frame s s2" using frame_trans' [OF frame_unslept frame_upd] by (simp add: s2_def)
  have u: "sinv_but {p} (unslept p s)" by (rule sinv_unslept [OF assms(1)]) simp_all
  show i: "sinv_but {p} s2" unfolding s2_def by (rule sinv_but_upd [OF u]) simp_all
  show "setrq p s2 = Some (enq p s2) \<and> sinv (enq p s2)" if "SLOAD \<in> p_flag (procs s p)"
    using ok assms(2,3) that frame_on_cpu [OF f, of p]
    by (intro conjI sinv_enq [OF i, where E' = "{}"]) (auto simp: s2_def proc_ok_def prio_ok_def)
  show "sinv s2" if "SLOAD \<notin> p_flag (procs s p)"
    unfolding s2_def using ok assms(2,3) that frame_on_cpu [OF frame_unslept [of s p], of p]
    by (intro sinv_but_upd [OF u]) (auto simp: proc_ok_def prio_ok_def)
qed

lemma setrun_ready:
  assumes "sinv s" "p_stat (procs s p) \<in> {SSTOP, SSLEEP, SIDL}" "\<not> on_cpu s p"
    and ld: "SLOAD \<in> p_flag (procs s p)"
  shows "\<exists>t. setrun p s = Some t \<and> started_up p s t"
proof -
  note h = setrun_head [OF assms(1-3)]
  let ?s2 = "upd p (\<lambda>pr. pr\<lparr>p_stat := SRUN\<rparr>) (unslept p s)"
  let ?t = "kick (p_pri (procs s p)) (enq p ?s2)"
  have "setrun p s = Some ?t"
    using h(1) h(4) [OF ld] ld by (simp add: setrun_def Let_def)
  moreover have "started_up p s ?t"
    using ld h(4) [OF ld] frame_trans' [OF frame_trans' [OF h(2) frame_enq] same_kick(2)]
    by (auto simp: started_up_def start_swapper_def started_def fun_eq_iff)
  ultimately show ?thesis by blast
qed

lemma setrun_swapped:
  assumes "sinv s" "p_stat (procs s p) \<in> {SSTOP, SSLEEP, SIDL}" "\<not> on_cpu s p"
    and ld: "SLOAD \<notin> p_flag (procs s p)"
  defines "u \<equiv> kick (p_pri (procs s p)) (upd p (\<lambda>pr. pr\<lparr>p_stat := SRUN\<rparr>) (unslept p s))"
  shows "sinv u" "frame s u" "procs u = (procs s)(p := started (procs s p))"
    "qs u = qs s" "runout u = runout s"
    "setrun p s = (if runout s \<noteq> 0
       then map_option (\<lambda>t. t\<lparr>wantin := wantin t + 1\<rparr>) (wakeup (runout_addr s) (u\<lparr>runout := 0\<rparr>))
       else Some (u\<lparr>wantin := wantin u + 1\<rparr>))"
proof -
  note h = setrun_head [OF assms(1-3)]
  have ok: "proc_ok False (procs s p)" using sinvD [OF assms(1), of p] assms(3) by simp
  show "sinv u" using h(5) [OF ld] by (simp add: u_def)
  show f: "frame s u" using frame_trans' [OF h(2) same_kick(2)] by (simp add: u_def)
  have "(procs s p)\<lparr>p_wchan := 0, p_stat := SRUN\<rparr> = started (procs s p)"
    using ok assms(2) ld by (cases "procs s p") (auto simp: started_def proc_ok_def)
  then show "procs u = (procs s)(p := started (procs s p))" by (simp add: u_def)
  show "qs u = qs s" "runout u = runout s" by (simp_all add: u_def)
  show "setrun p s = (if runout s \<noteq> 0
      then map_option (\<lambda>t. t\<lparr>wantin := wantin t + 1\<rparr>) (wakeup (runout_addr s) (u\<lparr>runout := 0\<rparr>))
      else Some (u\<lparr>wantin := wantin u + 1\<rparr>))"
    using h(1) ld frame_runout_addr [OF f]
    by (simp add: setrun_def Let_def u_def map_conv_bind_option comp_def)
qed

lemma setrun_swapper:
  assumes "sinv s" "p_stat (procs s p) \<in> {SSTOP, SSLEEP, SIDL}" "\<not> on_cpu s p"
    and ld: "SLOAD \<notin> p_flag (procs s p)" and r: "runout s \<noteq> 0"
  shows "\<exists>t. setrun p s = Some t \<and> started_up p s t"
proof -
  define u where "u = kick (p_pri (procs s p)) (upd p (\<lambda>pr. pr\<lparr>p_stat := SRUN\<rparr>) (unslept p s))"
  note u = setrun_swapped [OF assms(1-4), folded u_def]
  note ra = runout_addr_ok [OF assms(1)]
  obtain t where t: "wakeup (runout_addr s) (u\<lparr>runout := 0\<rparr>) = Some t"
      "woke_up (runout_addr s) (u\<lparr>runout := 0\<rparr>) t"
    using wakeup_ok [of "u\<lparr>runout := 0\<rparr>" "runout_addr s"] u(1) ra by auto
  let ?t = "t\<lparr>wantin := wantin t + 1\<rparr>"
  have "awoken (runout_addr s) (u\<lparr>runout := 0\<rparr>) = sleepers (runout_addr s) s - {p}"
    using ra u(3) by (auto simp: awoken_def calls_swapper_def sleepers_def started_def)
  then have w: "woke (sleepers (runout_addr s) s - {p}) (u\<lparr>runout := 0\<rparr>) ?t"
    using t(2) by (simp add: woke_up_def)
  have "frame (u\<lparr>runout := 0\<rparr>) ?t" using w by (simp only: woke_def)
  then have "frame s ?t" by (rule frame_trans' [OF frame_trans' [OF u(2) same_runout(2)]])
  moreover have "procs ?t = (\<lambda>q. if q = p then started (procs s p)
      else if p_wchan (procs s q) = runout_addr s then woken (procs s q) else procs s q)"
    using w u(3) by (auto simp: woke_def sleepers_def fun_eq_iff)
  moreover have "\<exists>ws. qs ?t i = qs s i @ ws" for i
    using w u(4) by (auto simp: woke_def)
  moreover have "start_swapper p s" using r ld by (simp add: start_swapper_def)
  ultimately have "started_up p s ?t"
    using t(2) by (simp add: started_up_def woke_up_def calls_swapper_def cong: if_cong)
  moreover have "setrun p s = Some ?t" using u(6) r t(1) by simp
  ultimately show ?thesis by blast
qed

lemma setrun_ok:
  assumes "sinv s" "p_stat (procs s p) \<in> {SSTOP, SSLEEP, SIDL}" "\<not> on_cpu s p"
  shows "\<exists>t. setrun p s = Some t \<and> started_up p s t"
proof (cases "SLOAD \<notin> p_flag (procs s p) \<and> runout s = 0")
  case True
  let ?u = "kick (p_pri (procs s p)) (upd p (\<lambda>pr. pr\<lparr>p_stat := SRUN\<rparr>) (unslept p s))"
  note u = setrun_swapped [OF assms conjunct1 [OF True]]
  have "started_up p s (?u\<lparr>wantin := wantin ?u + 1\<rparr>)"
    using u(1,3-5) True frame_trans' [OF u(2) same_wantin(2)]
    by (simp add: started_up_def start_swapper_def fun_eq_iff)
  then show ?thesis using u(6) True by simp
next
  case False
  then show ?thesis using setrun_ready [OF assms] setrun_swapper [OF assms] by blast
qed

section \<open>The switch\<close>

lemma ffs_Some: "ffs w = Some i \<Longrightarrow> i < 32 \<and> bit w i \<and> (\<forall>j < i. \<not> bit w j)"
  by (auto simp: ffs_def find_Some_iff)

lemma ffs_None: "ffs w = None \<Longrightarrow> j < 32 \<Longrightarrow> \<not> bit w j"
  by (auto simp: ffs_def find_None_iff)

text \<open>What \<open>swtch\<close> promises: the processor goes to the first of the best nonempty queue.\<close>

definition switched :: "sched \<Rightarrow> sched \<Rightarrow> bool" where
  "switched s t =
     (sinv t \<and> slpque t = slpque s \<and>
      (if \<forall>p. \<not> p_rlink (procs s p) then noproc t \<and> procs t = procs s \<and> u_procp t = u_procp s
       else let p = u_procp t; i = rqno (procs s p)
            in \<not> noproc t \<and> p_rlink (procs s p) \<and> (\<exists>rest. qs s i = p # rest \<and> qs t = (qs s)(i := rest)) \<and>
               (\<forall>q. p_rlink (procs s q) \<longrightarrow> i \<le> rqno (procs s q)) \<and>
               procs t = (procs s)(p := (procs s p)\<lparr>p_rlink := False\<rparr>)))"

lemma switched_cong:
  assumes "slpque s = slpque s'" "procs s = procs s'" "u_procp s = u_procp s'" "qs s = qs s'" "switched s t"
  shows "switched s' t"
  using assms(5) unfolding switched_def assms(1-4) .

lemma swtch_pick_ok:
  assumes i: "sinv s" and n: "noproc s"
  shows "\<exists>t. swtch_pick s = Some t \<and> switched s t"
proof (cases "ffs (whichqs s)")
  case None
  have "\<not> p_rlink (procs s p)" for p
  proof
    assume r: "p_rlink (procs s p)"
    have rq: "rq_ok s" "prio_ok (procs s p)" using i by (simp_all add: sinv_but_def proc_ok_def)
    then show False
      using rq_head [OF rq(1) r] rqno_bound [OF rq(2)] ffs_None [OF None, of "rqno (procs s p)"]
      by (simp add: rq_ok_def)
  qed
  then show ?thesis using None i n by (simp add: swtch_pick_def switched_def)
next
  case (Some j)
  note f = ffs_Some [OF Some]
  have rq: "rq_ok s" using i by (simp add: sinv_but_def)
  then have "qs s j \<noteq> []" using f by (auto simp: rq_ok_def)
  then obtain p rest where q: "qs s j = p # rest" by (cases "qs s j") auto
  then have p: "p_rlink (procs s p)" "rqno (procs s p) = j"
    using on_rq [OF rq, of p j] by simp_all
  have ok: "proc_ok False (procs s p)" using i n by (auto simp: sinv_but_def on_cpu_def)
  then have st: "p_stat (procs s p) = SRUN" "p_wchan (procs s p) = 0" "prio_ok (procs s p)"
    using p(1) by (auto simp: proc_ok_def)
  let ?t = "(deq p s)\<lparr>noproc := False, u_procp := p\<rparr>"
  have pick: "swtch_pick s = Some ?t"
    using Some q st p by (simp add: swtch_pick_def Let_def deq_def upd_def)
  have "sinv_but {p} (deq p s)" by (rule sinv_deq [OF i st(3) p(1)]) simp_all
  then have "sinv ?t"
    using ok st n p by (auto simp: sinv_but_def rq_ok_def sq_ok_def chans_ok_def on_cpu_def proc_ok_def frame_def
        deq_def Let_def prio_ok_def)
  moreover have "j \<le> rqno (procs s q)" if "p_rlink (procs s q)" for q
  proof (rule ccontr)
    assume "\<not> j \<le> rqno (procs s q)"
    then show False
      using rq_head [OF rq that] f by (auto simp: rq_ok_def not_le)
         (use rq f in \<open>auto simp: rq_ok_def\<close>)
  qed
  ultimately have "switched s ?t"
    using p q by (auto simp: switched_def Let_def deq_def)
  then show ?thesis using pick by blast
qed

lemma swtch_ok: "sinv (s\<lparr>noproc := True\<rparr>) \<Longrightarrow> \<exists>t. swtch s = Some t \<and> switched s t"
proof -
  assume i: "sinv (s\<lparr>noproc := True\<rparr>)"
  let ?s = "s\<lparr>noproc := True, runrun := 0\<rparr>"
  have "same_queues (s\<lparr>noproc := True\<rparr>) ?s" "frame (s\<lparr>noproc := True\<rparr>) ?s"
    by (simp_all add: same_queues_def frame_def)
  then have "sinv ?s" using i sinv_same by blast
  then obtain t where t: "swtch_pick ?s = Some t" "switched ?s t" using swtch_pick_ok [of ?s] by auto
  have "switched s t" by (rule switched_cong [OF _ _ _ _ t(2)]) simp_all
  then show ?thesis using t(1) by (simp add: swtch_def)
qed

text \<open>A process that stops being runnable, with the processor, leaves a state \<open>swtch\<close> can be called in.\<close>

lemma sinv_leaves:
  assumes "sinv_but {p} s" "p = u_procp s" "proc_ok False (procs s p)"
  shows "sinv (s\<lparr>noproc := True\<rparr>)"
proof -
  have "proc_ok (on_cpu (s\<lparr>noproc := True\<rparr>) q) (procs s q)" for q
    using assms sinvD [OF assms(1), of q] by (cases "q = p") (auto simp: on_cpu_def)
  then show ?thesis using assms(1) by (simp add: sinv_but_def rq_ok_def sq_ok_def chans_ok_def)
qed

section \<open>Sleep\<close>

lemma rqno_pri: "rqno (pr\<lparr>p_wchan := c, p_slptime := x, p_pri := y\<rparr>) = rqno (pr\<lparr>p_pri := y\<rparr>)"
  by (simp add: rqno_def)

lemma sleep_enqueue_ok:
  assumes i: "sinv s" and n: "\<not> noproc s" and st: "p_stat (procs s (u_procp s)) = SRUN" and c: "chan \<noteq> 0"
    and pri: "0 \<le> pri" "pri \<le> 127"
  defines "rp \<equiv> u_procp s"
  shows "\<exists>t. sleep_enqueue chan pri s = Some t \<and> sinv_but {rp} t \<and> frame s t \<and> qs t = qs s \<and>
    procs t = (procs s)(rp := (procs s rp)\<lparr>p_wchan := chan, p_slptime := 0, p_pri := pri\<rparr>) \<and>
    slpque t = (slpque s)(HASH chan := rp # slpque s (HASH chan)) \<and> runout t = runout s"
proof -
  have ok: "proc_ok True (procs s rp)" using sinvD [OF i, of rp] n by (simp add: on_cpu_def rp_def)
  then have p: "\<not> p_rlink (procs s rp)" "p_wchan (procs s rp) = 0"
    using st by (auto simp: proc_ok_def rp_def)
  have s8: "s8 pri = pri" using pri by (simp add: s8_def)
  let ?t = "upd rp (\<lambda>pr. pr\<lparr>p_wchan := chan, p_slptime := 0, p_pri := pri\<rparr>)
      (s\<lparr>slpque := (slpque s)(HASH chan := rp # slpque s (HASH chan))\<rparr>)"
  have e: "sleep_enqueue chan pri s = Some ?t"
    using c st p s8 by (simp add: sleep_enqueue_def rp_def Let_def)
  have f: "frame s ?t" by (simp add: frame_def)
  have r: "rq_ok s" "sq_ok s" using i by (simp_all add: sinv_but_def)
  have "rp \<notin> set (slpque s h)" for h using on_slpque [OF r(2)] p by simp
  then have "sq_ok ?t" using r(2) c p by (auto simp: sq_ok_def)
  moreover have "rp \<notin> set (qs s h)" for h using on_rq [OF r(1)] p by simp
  then have "rq_ok ?t" using r(1) p by (auto simp: rq_ok_def)
  ultimately have "sinv_but {rp} ?t"
    using i frame_chans [OF f] frame_on_cpu [OF f] by (simp add: sinv_but_def)
  then show ?thesis using e f by simp
qed

lemma sleep_block_ok:
  assumes "sinv_but {rp} t" "rp = u_procp t" "p_wchan (procs t rp) \<noteq> 0" "prio_ok (procs t rp)"
    "\<not> p_rlink (procs t rp)"
  shows "\<exists>u. sleep_block rp t = Some (Switched u) \<and> switched (upd rp (\<lambda>pr. pr\<lparr>p_stat := SSLEEP\<rparr>) t) u"
proof -
  let ?u = "upd rp (\<lambda>pr. pr\<lparr>p_stat := SSLEEP\<rparr>) t"
  have "sinv_but {rp} ?u" using assms(1) by (rule sinv_but_upd) simp_all
  then have "sinv (?u\<lparr>noproc := True\<rparr>)"
    by (rule sinv_leaves) (use assms in \<open>simp_all add: proc_ok_def prio_ok_def\<close>)
  then show ?thesis using swtch_ok by (auto simp: sleep_block_def)
qed

text \<open>The effect of a sleep that gives up the processor.\<close>

definition slept_on :: "nat \<Rightarrow> int \<Rightarrow> sched \<Rightarrow> sched" where
  "slept_on chan pri s =
     (let rp = u_procp s
      in upd rp (\<lambda>pr. pr\<lparr>p_wchan := chan, p_slptime := 0, p_pri := pri, p_stat := SSLEEP\<rparr>)
           (s\<lparr>slpque := (slpque s)(HASH chan := rp # slpque s (HASH chan))\<rparr>))"

lemma sleep_ok:
  assumes "sinv s" "\<not> noproc s" "p_stat (procs s (u_procp s)) = SRUN" "chan \<noteq> 0" "0 \<le> pri" "pri \<le> 127"
    and "\<And>t. PZERO < pri \<Longrightarrow> issig t = (False, t)"
  shows "\<exists>t. sleep chan pri issig s = Some (Switched t) \<and> switched (slept_on chan pri s) t"
proof -
  define rp where "rp = u_procp s"
  obtain t where t: "sleep_enqueue chan pri s = Some t" "sinv_but {rp} t" "frame s t" "qs t = qs s"
    "procs t = (procs s)(rp := (procs s rp)\<lparr>p_wchan := chan, p_slptime := 0, p_pri := pri\<rparr>)"
    "slpque t = (slpque s)(HASH chan := rp # slpque s (HASH chan))"
    using sleep_enqueue_ok [OF assms(1-6)] by (auto simp: rp_def)
  have ok: "proc_ok True (procs s rp)" using sinvD [OF assms(1), of rp] assms(2) by (simp add: on_cpu_def rp_def)
  have u: "u_procp t = rp" using t(3) by (simp add: frame_def rp_def)
  obtain v where v: "sleep_block rp t = Some (Switched v)"
      "switched (upd rp (\<lambda>pr. pr\<lparr>p_stat := SSLEEP\<rparr>) t) v"
    using sleep_block_ok [OF t(2)] t(5) u assms(4-6) ok by (auto simp: proc_ok_def prio_ok_def)
  have "sleep chan pri issig s = Some (Switched v)"
    using t(1,5) v(1) assms(4,7) by (simp add: sleep_def rp_def [symmetric])
  moreover have "switched (slept_on chan pri s) v"
    by (rule switched_cong [OF _ _ _ _ v(2)])
       (simp_all add: t u slept_on_def Let_def rp_def [symmetric])
  ultimately show ?thesis by blast
qed

text \<open>A sleep that finds a signal pending takes the process off the queue again.\<close>

lemma sleep_signalled:
  assumes "sinv s" "\<not> noproc s" "p_stat (procs s (u_procp s)) = SRUN" "chan \<noteq> 0" "PZERO < pri" "pri \<le> 127"
    and "\<And>t. issig t = (True, t)"
  shows "\<exists>t. sleep chan pri issig s = Some (Psig t) \<and> sinv t \<and> slpque t = slpque s \<and> qs t = qs s \<and>
    frame s t \<and> procs t = (procs s)(u_procp s := (procs s (u_procp s))\<lparr>p_slptime := 0, p_pri := pri\<rparr>)"
proof -
  define rp where "rp = u_procp s"
  obtain t where t: "sleep_enqueue chan pri s = Some t" "sinv_but {rp} t" "frame s t" "qs t = qs s"
    "procs t = (procs s)(rp := (procs s rp)\<lparr>p_wchan := chan, p_slptime := 0, p_pri := pri\<rparr>)"
    "slpque t = (slpque s)(HASH chan := rp # slpque s (HASH chan))"
    using sleep_enqueue_ok [OF assms(1-4) _ assms(6)] assms(5) by (auto simp: rp_def)
  have ok: "proc_ok True (procs s rp)" using sinvD [OF assms(1), of rp] assms(2) by (simp add: on_cpu_def rp_def)
  let ?t = "upd rp (\<lambda>pr. pr\<lparr>p_stat := SRUN\<rparr>) (unslept rp t)"
  have w: "p_wchan (procs s rp) = 0" using ok assms(3) by (auto simp: proc_ok_def rp_def)
  have f: "frame s ?t" using frame_trans' [OF t(3) frame_trans' [OF frame_unslept frame_upd]] .
  have u: "unsleep rp t = Some (unslept rp t)" "sinv_but {rp} (unslept rp t)"
    using sinv_unslept [OF t(2), of rp "{rp}"] by simp_all
  have "sinv ?t"
    by (rule sinv_but_upd [OF u(2)])
       (use ok assms(3,5,6) t(5) frame_on_cpu [OF frame_trans' [OF t(3) frame_unslept [of t rp]], of rp] assms(2)
        in \<open>simp_all add: proc_ok_def prio_ok_def on_cpu_def rp_def\<close>)
  moreover have "sleep chan pri issig s = Some (Psig ?t)"
    using t(1,5) u(1) assms(4,5,7) by (simp add: sleep_def rp_def [symmetric])
  moreover have "(procs s rp)\<lparr>p_slptime := 0, p_pri := pri, p_wchan := 0, p_stat := SRUN\<rparr>
      = (procs s rp)\<lparr>p_slptime := 0, p_pri := pri\<rparr>"
    using w assms(3) by (cases "procs s rp") (simp add: rp_def)
  then have "procs ?t = (procs s)(rp := (procs s rp)\<lparr>p_slptime := 0, p_pri := pri\<rparr>)"
    using t(5) by (simp add: fun_eq_iff)
  moreover have "qs ?t = qs s" "slpque ?t = slpque s" using t(4-6) by (simp_all add: fun_eq_iff)
  ultimately show ?thesis using f unfolding rp_def by blast
qed

section \<open>Priorities\<close>

definition user_prio :: "sched \<Rightarrow> sproc \<Rightarrow> int" where
  "user_prio s pr =
     min 127 (uint (p_cpu pr) div 4 + PUSER + 2 * (p_nice pr - NZERO) +
              (if p_rssize pr > p_maxrss pr \<and> freemem s < desfree s then 8 else 0))"

lemma user_prio_range: "0 \<le> p_nice pr \<Longrightarrow> 10 \<le> user_prio s pr \<and> user_prio s pr \<le> 127"
proof -
  assume "0 \<le> p_nice pr"
  moreover have "0 \<le> uint (p_cpu pr) div 4" by (simp add: pos_imp_zdiv_nonneg_iff)
  ultimately show ?thesis by (simp add: user_prio_def)
qed

lemma setpri_eq:
  "0 \<le> p_nice (procs s p) \<Longrightarrow>
   setpri p s = (user_prio s (procs s p),
     upd p (\<lambda>pr. pr\<lparr>p_usrpri := user_prio s (procs s p)\<rparr>) (kick (user_prio s (procs s p)) s))"
proof -
  assume n: "0 \<le> p_nice (procs s p)"
  let ?c = "user_prio s (procs s p)"
  have "s8 ?c = ?c" using user_prio_range [OF n, of s] by (simp add: s8_def)
  moreover have "setpri p s = (?c, upd p (\<lambda>pr. pr\<lparr>p_usrpri := s8 ?c\<rparr>) (kick ?c s))"
    by (simp add: setpri_def user_prio_def Let_def min_def algebra_simps)
  ultimately show ?thesis by simp
qed

text \<open>What a pass of \<open>schedcpu\<close> makes of a live process.\<close>

definition rescheduled :: "sched \<Rightarrow> sproc \<Rightarrow> sproc" where
  "rescheduled s pr =
     (let pr1 = schedcpu_charge (avenrun0 s) pr; c = user_prio s pr1
      in pr1\<lparr>p_usrpri := c, p_pri := (if p_pri pr1 \<ge> PUSER then c else p_pri pr1)\<rparr>)"

lemma charge_sel [simp]:
  "p_rlink (schedcpu_charge a pr) = p_rlink pr" "p_pri (schedcpu_charge a pr) = p_pri pr"
  "p_usrpri (schedcpu_charge a pr) = p_usrpri pr" "p_nice (schedcpu_charge a pr) = p_nice pr"
  "p_stat (schedcpu_charge a pr) = p_stat pr" "p_flag (schedcpu_charge a pr) = p_flag pr"
  "p_wchan (schedcpu_charge a pr) = p_wchan pr"
  by (simp_all add: schedcpu_charge_def Let_def)

lemma schedcpu_requeue_ok:
  fixes p :: nat
  assumes "sinv s"
  defines "pr \<equiv> procs s p"
  shows "\<exists>t. schedcpu_requeue p s = Some t \<and> sinv t \<and> frame s t \<and> runout t = runout s \<and>
    procs t = (procs s)(p := pr\<lparr>p_pri := (if p_pri pr \<ge> PUSER then p_usrpri pr else p_pri pr)\<rparr>)"
proof -
  have ok: "proc_ok (on_cpu s p) pr" using sinvD [OF assms(1), of p] by (simp add: pr_def)
  let ?g = "\<lambda>pr. pr\<lparr>p_pri := p_usrpri pr\<rparr>"
  consider (low) "\<not> p_pri pr \<ge> PUSER" | (off) "p_pri pr \<ge> PUSER" "\<not> p_rlink pr"
    | (same) "p_pri pr \<ge> PUSER" "p_rlink pr" "p_pri pr = p_usrpri pr"
    | (move) "p_pri pr \<ge> PUSER" "p_rlink pr" "p_pri pr \<noteq> p_usrpri pr" by blast
  then show ?thesis
  proof cases
    case low
    then show ?thesis using assms(1) by (auto simp: schedcpu_requeue_def Let_def pr_def intro: fun_upd_idem)
  next
    case off
    have "\<not> (p_stat pr = SRUN \<and> SLOAD \<in> p_flag pr \<and> \<not> on_cpu s p)"
      using off(2) ok by (simp add: proc_ok_def)
    then have "schedcpu_requeue p s = Some (upd p ?g s)"
      using off(1) unfolding schedcpu_requeue_def Let_def pr_def on_cpu_def by auto
    moreover have "sinv (upd p ?g s)"
      using off ok by (intro sinv_but_upd [OF assms(1)]) (auto simp: pr_def proc_ok_def prio_ok_def)
    ultimately show ?thesis using off by (simp add: pr_def)
  next
    case same
    then have "schedcpu_requeue p s = Some (upd p ?g s)"
      by (simp add: schedcpu_requeue_def Let_def pr_def)
    moreover have "sinv (upd p ?g s)"
      using same ok by (intro sinv_but_upd [OF assms(1)]) (auto simp: pr_def proc_ok_def prio_ok_def)
    ultimately show ?thesis using same by (simp add: pr_def)
  next
    case move
    have st: "p_stat pr = SRUN" "SLOAD \<in> p_flag pr" "\<not> on_cpu s p" "prio_ok pr"
      using ok move(2) by (auto simp: proc_ok_def)
    have d: "remrq p s = Some (deq p s)" "sinv_but {p} (deq p s)"
      using sinv_deq [OF assms(1), of p "{p}"] move(2) st(4) by (simp_all add: pr_def)
    let ?u = "upd p ?g (deq p s)"
    have u: "sinv_but {p} ?u" by (rule sinv_but_upd [OF d(2)]) simp_all
    have f: "frame s ?u" by (rule frame_trans' [OF frame_deq frame_upd])
    have e: "setrq p ?u = Some (enq p ?u)" "sinv (enq p ?u)"
      by (rule sinv_enq [OF u, where E' = "{}"]; use ok st frame_on_cpu [OF f, of p] in
          \<open>simp add: pr_def proc_ok_def prio_ok_def\<close>)+
    have "schedcpu_requeue p s = Some (enq p ?u)"
      using move st d(1) e(1) by (auto simp: schedcpu_requeue_def Let_def pr_def on_cpu_def)
    moreover have "pr\<lparr>p_rlink := False, p_pri := p_usrpri pr, p_rlink := True\<rparr> = pr\<lparr>p_pri := p_usrpri pr\<rparr>"
      using move(2) by (cases pr) simp
    ultimately show ?thesis using e(2) move(1) frame_trans' [OF f frame_enq] by (simp add: pr_def)
  qed
qed

lemma frame_user_prio: "frame s t \<Longrightarrow> user_prio t pr = user_prio s pr"
  by (simp add: frame_def user_prio_def)

lemma frame_rescheduled: "frame s t \<Longrightarrow> rescheduled t pr = rescheduled s pr"
  by (simp add: rescheduled_def frame_user_prio) (simp add: frame_def)

definition live :: "sproc \<Rightarrow> bool" where
  "live pr = (p_stat pr \<noteq> SFREE \<and> p_stat pr \<noteq> SZOMB)"

lemma schedcpu_proc_ok:
  assumes "sinv s"
  shows "\<exists>t. schedcpu_proc p s = Some t \<and> sinv t \<and> frame s t \<and> runout t = runout s \<and>
    procs t = (if live (procs s p) then (procs s)(p := rescheduled s (procs s p)) else procs s)"
proof (cases "live (procs s p)")
  case False
  then show ?thesis using assms by (auto simp: schedcpu_proc_def live_def Let_def)
next
  case True
  have ok: "proc_ok (on_cpu s p) (procs s p)" using sinvD [OF assms, of p] by simp
  then have n: "0 \<le> p_nice (procs s p)" by (simp add: proc_ok_def prio_ok_def)
  let ?c = "schedcpu_charge (avenrun0 s)" and ?s1 = "upd p (schedcpu_charge (avenrun0 s)) s"
  define c where "c = user_prio ?s1 (?c (procs s p))"
  let ?s2 = "upd p (\<lambda>pr. pr\<lparr>p_usrpri := c\<rparr>) (kick c ?s1)"
  have i1: "sinv ?s1" using ok by (intro sinv_but_upd [OF assms]) (simp_all add: proc_ok_def prio_ok_def)
  have c: "c = user_prio s (?c (procs s p))" unfolding c_def by (rule frame_user_prio) simp
  have f: "frame s ?s2" using frame_trans' [OF frame_trans' [OF frame_upd same_kick(2)] frame_upd] .
  have oc: "on_cpu (kick c ?s1) p = on_cpu s p" by (simp add: on_cpu_def)
  have i2: "sinv ?s2"
    by (rule sinv_but_upd [where E = "{}"])
       (use i1 ok oc user_prio_range [of "?c (procs s p)" s] n c
        in \<open>simp_all add: proc_ok_def prio_ok_def\<close>)
  have "schedcpu_proc p s = schedcpu_requeue p ?s2"
    using True n by (simp add: schedcpu_proc_def live_def Let_def setpri_eq c_def)
  then show ?thesis
    using schedcpu_requeue_ok [OF i2, of p] True c frame_trans' [OF f]
    by (auto simp: rescheduled_def Let_def fun_eq_iff)
qed

lemma schedcpu_loop_ok:
  "sinv s \<Longrightarrow> distinct ps \<Longrightarrow>
   \<exists>t. schedcpu_loop ps s = Some t \<and> sinv t \<and> frame s t \<and> runout t = runout s \<and>
     procs t = (\<lambda>p. if p \<in> set ps \<and> live (procs s p) then rescheduled s (procs s p) else procs s p)"
proof (induction ps arbitrary: s)
  case (Cons p ps)
  obtain t where t: "schedcpu_proc p s = Some t" "sinv t" "frame s t" "runout t = runout s"
    "procs t = (if live (procs s p) then (procs s)(p := rescheduled s (procs s p)) else procs s)"
    using schedcpu_proc_ok [OF Cons.prems(1)] by blast
  obtain u where u: "schedcpu_loop ps t = Some u" "sinv u" "frame t u" "runout u = runout t"
    "procs u = (\<lambda>p. if p \<in> set ps \<and> live (procs t p) then rescheduled t (procs t p) else procs t p)"
    using Cons.IH [OF t(2)] Cons.prems(2) by auto
  have "procs u = (\<lambda>q. if q \<in> set (p # ps) \<and> live (procs s q) then rescheduled s (procs s q) else procs s q)"
    using u(5) t(5) Cons.prems(2) by (auto simp: fun_eq_iff frame_rescheduled [OF t(3)])
  then show ?case using t u frame_trans' [OF t(3) u(3)] by simp
qed auto

definition runs_on :: "sched \<Rightarrow> sched \<Rightarrow> bool" where
  "runs_on s t = (\<forall>q. p_stat (procs s q) = SRUN \<longrightarrow> p_stat (procs t q) = SRUN)"

lemma runs_on_trans: "runs_on s t \<Longrightarrow> runs_on t u \<Longrightarrow> runs_on s u"
  by (simp add: runs_on_def)

lemma woke_up_frame: "woke_up c s t \<Longrightarrow> frame s t \<and> sinv t \<and> runs_on s t"
  by (auto simp: woke_up_def woke_def runs_on_def woken_def Let_def)

lemma rescheduled_stat [simp]: "p_stat (rescheduled s pr) = p_stat pr"
  by (simp add: rescheduled_def Let_def)

text \<open>The whole of it: three wakeups around the pass over the table.\<close>

lemma schedcpu_ok:
  assumes "sinv s"
  shows "\<exists>t. schedcpu s = Some t \<and> sinv t \<and> timeouts t = timeouts s @ [(''schedcpu'', hz s)] \<and> runin t = 0 \<and>
    u_procp t = u_procp s \<and> noproc t = noproc s \<and> runs_on s t"
proof -
  have c: "lbolt_addr s \<noteq> 0" using assms by (simp add: sinv_but_def chans_ok_def)
  obtain s1 where s1: "wakeup (lbolt_addr s) s = Some s1" "frame s s1" "sinv s1" "runs_on s s1"
    using wakeup_ok [OF assms c] woke_up_frame by blast
  obtain s2 where s2: "schedcpu_loop [0..<nproc s1] s1 = Some s2" "frame s1 s2" "sinv s2" "runs_on s1 s2"
    using schedcpu_loop_ok [OF s1(3), of "[0..<nproc s1]"] by (auto simp: runs_on_def)
  let ?r = "s2\<lparr>runin := 0\<rparr>"
  have ri: "sinv ?r" "runs_on s2 ?r" using s2(3)
    by (simp_all add: sinv_but_def rq_ok_def sq_ok_def chans_ok_def on_cpu_def runs_on_def)
  then have "runin_addr s2 \<noteq> 0" by (simp add: sinv_but_def chans_ok_def)
  then have "\<exists>s3. (if runin s2 \<noteq> 0 then wakeup (runin_addr s2) ?r else Some s2) = Some s3 \<and> frame ?r s3 \<and>
      sinv s3 \<and> runs_on ?r s3"
    using wakeup_ok [OF ri(1), of "runin_addr s2"] woke_up_frame s2(3) by (auto simp: frame_def runs_on_def)
  then obtain s3 where s3: "(if runin s2 \<noteq> 0 then wakeup (runin_addr s2) ?r else Some s2) = Some s3"
    "frame ?r s3" "sinv s3" "runs_on ?r s3" by blast
  then have "proc_addr s3 2 \<noteq> 0" by (simp add: sinv_but_def chans_ok_def)
  then have "\<exists>s4. (if bclnlist s3 then wakeup (proc_addr s3 2) s3 else Some s3) = Some s4 \<and> frame s3 s4 \<and>
      sinv s4 \<and> runs_on s3 s4"
    using wakeup_ok [OF s3(3), of "proc_addr s3 2"] woke_up_frame s3(3) by (auto simp: runs_on_def)
  then obtain s4 where s4: "(if bclnlist s3 then wakeup (proc_addr s3 2) s3 else Some s3) = Some s4"
    "frame s3 s4" "sinv s4" "runs_on s3 s4" by blast
  let ?t = "s4\<lparr>timeouts := timeouts s4 @ [(''schedcpu'', hz s4)]\<rparr>"
  have "schedcpu s = Some ?t" using s1(1) s2(1) s3(1) s4(1) by (simp add: schedcpu_def)
  moreover have "sinv ?t" using s4(3) by (simp add: sinv_but_def rq_ok_def sq_ok_def chans_ok_def on_cpu_def)
  moreover have "runs_on s ?t"
    using s1(4) s2(4) ri(2) s3(4) s4(4) by (simp add: runs_on_def)
  ultimately show ?thesis using s1(2) s2(2) s3(2) s4(2) by (simp add: frame_def)
qed

end
