(* ===== verification/Signal.thy ===== *)
theory Signal
  imports Sched_Ops
begin

text \<open>
  Posting a signal: \<open>psignal\<close> and \<open>stop\<close> of sys/sys/kern_sig.c, which decide what a signal does to a process
  that sleeps, is stopped or runs, on the scheduler of theory Sched.  The signals are their numbers and the
  action is its code, as in the source.
\<close>

section \<open>Numbers\<close>

abbreviation NSIG :: nat where "NSIG \<equiv> 32"
abbreviation SIGKILL :: nat where "SIGKILL \<equiv> 9"
abbreviation SIGTERM :: nat where "SIGTERM \<equiv> 15"
abbreviation SIGURG :: nat where "SIGURG \<equiv> 16"
abbreviation SIGSTOP :: nat where "SIGSTOP \<equiv> 17"
abbreviation SIGTSTP :: nat where "SIGTSTP \<equiv> 18"
abbreviation SIGCONT :: nat where "SIGCONT \<equiv> 19"
abbreviation SIGCHLD :: nat where "SIGCHLD \<equiv> 20"
abbreviation SIGTTIN :: nat where "SIGTTIN \<equiv> 21"
abbreviation SIGTTOU :: nat where "SIGTTOU \<equiv> 22"
abbreviation SIGIO :: nat where "SIGIO \<equiv> 23"

abbreviation SIG_DFL :: nat where "SIG_DFL \<equiv> 0"
abbreviation SIG_IGN :: nat where "SIG_IGN \<equiv> 1"
abbreviation SIG_HOLD :: nat where "SIG_HOLD \<equiv> 3"

text \<open>\<open>1L << (sig-1)\<close>; the VAX shifts right by one for signal 0.\<close>

definition sigmask :: "nat \<Rightarrow> 32 word" where
  "sigmask sig = (if sig = 0 then 0 else push_bit (sig - 1) 1)"

definition stop_signal :: "nat \<Rightarrow> bool" where
  "stop_signal sig = (sig \<in> {SIGSTOP, SIGTSTP, SIGTTIN, SIGTTOU})"

definition stops :: "32 word" where
  "stops = or (or (or (sigmask SIGSTOP) (sigmask SIGTSTP)) (sigmask SIGTTIN)) (sigmask SIGTTOU)"

section \<open>The code\<close>

definition psignal_action :: "nat \<Rightarrow> sproc \<Rightarrow> nat" where
  "psignal_action sig pr =
     (if STRC \<in> p_flag pr then SIG_DFL
      else (if and (p_siga1 pr) (sigmask sig) \<noteq> 0 then 2 else 0) +
           (if and (p_siga0 pr) (sigmask sig) \<noteq> 0 then 1 else 0))"

text \<open>The statements under \<open>if (sig)\<close>, and the two ways they take signals away.\<close>

definition post_nice :: "sproc \<Rightarrow> sproc" where
  "post_nice pr = (if p_nice pr > NZERO then pr\<lparr>p_nice := NZERO\<rparr> else pr)"

definition psignal_post :: "nat \<Rightarrow> nat \<Rightarrow> sproc \<Rightarrow> sproc" where
  "psignal_post sig action pr =
     (if sig = 0 then pr
      else
        let pr1 = pr\<lparr>p_sig := or (p_sig pr) (sigmask sig)\<rparr>
        in if sig = SIGTERM then
             (if STRC \<in> p_flag pr1 \<or> action \<noteq> SIG_DFL then pr1 else post_nice pr1)
           else if sig = SIGKILL then post_nice pr1
           else if sig = SIGCONT then pr1\<lparr>p_sig := and (p_sig pr1) (not stops)\<rparr>
           else if stop_signal sig then pr1\<lparr>p_sig := and (p_sig pr1) (not (sigmask SIGCONT))\<rparr>
           else pr1)"

definition take_away :: "nat \<Rightarrow> sproc \<Rightarrow> sproc" where
  "take_away sig pr = pr\<lparr>p_sig := and (p_sig pr) (not (sigmask sig))\<rparr>"

text \<open>The label \<open>run\<close>.\<close>

definition psignal_run :: "nat \<Rightarrow> sched \<Rightarrow> sched option" where
  "psignal_run p s =
     do {
       let pr = procs s p;
       s1 \<leftarrow> (if p_pri pr > PUSER then
                if (p \<noteq> u_procp s \<or> noproc s) \<and> p_stat pr = SRUN \<and> SLOAD \<in> p_flag pr
                then do {
                       s1 \<leftarrow> remrq p s;
                       setrq p (upd p (\<lambda>pr. pr\<lparr>p_pri := PUSER\<rparr>) s1)
                     }
                else Some (upd p (\<lambda>pr. pr\<lparr>p_pri := PUSER\<rparr>) s)
              else Some s);
       setrun p s1
     }"

text \<open>The first statements of \<open>stop\<close>.\<close>

definition stop_mark :: "nat \<Rightarrow> sched \<Rightarrow> sched option" where
  "stop_mark p s =
     (let s1 = upd p (\<lambda>pr. pr\<lparr>p_stat := SSTOP, p_flag := p_flag pr - {SWTED}\<rparr>) s
      in wakeup (proc_addr s1 (p_pptr (procs s1 p))) s1)"

text \<open>
  \<open>psignal\<close>.  It calls itself for \<open>SIGKILL\<close>, and, where it stops the process, through \<open>stop\<close>, which is
  written out there.
\<close>

function psignal :: "nat \<Rightarrow> nat \<Rightarrow> sched \<Rightarrow> sched option" where
  "psignal p sig s =
     (let action = psignal_action sig (procs s p)
      in if NSIG \<le> sig \<or> (STRC \<notin> p_flag (procs s p) \<and> action = SIG_IGN) then Some s
         else
           let s1 = upd p (psignal_post sig action) s;
               pr = procs s1 p
           in if action = SIG_HOLD then Some s1
              else
                case p_stat pr of
                  SSLEEP \<Rightarrow>
                    if p_pri pr \<le> PZERO then Some s1
                    else if STRC \<in> p_flag pr then psignal_run p s1
                    else if stop_signal sig then
                      (if action \<noteq> SIG_DFL then psignal_run p s1
                       else if sig \<noteq> SIGSTOP \<and> p_pptr pr = 1 then
                         do {
                           s2 \<leftarrow> psignal p SIGKILL s1;
                           Some (upd p (take_away sig) s2)
                         }
                       else if SVFORK \<in> p_flag pr then Some s1
                       else
                         do {
                           let s2 = upd p (\<lambda>pr. (take_away sig pr)\<lparr>p_cursig := sig\<rparr>) s1;
                           s3 \<leftarrow> stop_mark p s2;
                           if STRC \<in> p_flag (procs s3 p) then Some s3
                           else psignal (p_pptr (procs s3 p)) SIGCHLD s3
                         })
                    else if sig \<in> {SIGIO, SIGURG, SIGCHLD} then
                      (if action \<noteq> SIG_DFL then psignal_run p s1 else Some (upd p (take_away sig) s1))
                    else psignal_run p s1
                | SSTOP \<Rightarrow>
                    if STRC \<in> p_flag pr then Some s1
                    else if sig = SIGKILL then psignal_run p s1
                    else if sig = SIGCONT then
                      (if action \<noteq> SIG_DFL \<or> p_wchan pr = 0 then psignal_run p s1
                       else Some (upd p (\<lambda>pr. pr\<lparr>p_stat := SSLEEP\<rparr>) s1))
                    else if stop_signal sig then Some (upd p (take_away sig) s1)
                    else if p_wchan pr \<noteq> 0 \<and> p_pri pr > PZERO then unsleep p s1
                    else Some s1
                | _ \<Rightarrow>
                    if p = u_procp s1 \<and> \<not> noproc s1 then Some (s1\<lparr>astlvl := True\<rparr>) else Some s1)"
  by pat_completeness auto

termination
  by (relation "measure (\<lambda>(p, sig, s). if stop_signal sig then 1 else 0)")
     (simp_all add: stop_signal_def)

declare psignal.simps [simp del]

definition stop :: "nat \<Rightarrow> sched \<Rightarrow> sched option" where
  "stop p s =
     do {
       s1 \<leftarrow> stop_mark p s;
       if STRC \<in> p_flag (procs s1 p) then Some s1
       else psignal (p_pptr (procs s1 p)) SIGCHLD s1
     }"

section \<open>Stop signals and \<open>SIGCONT\<close>\<close>

text \<open>Never is a stop signal pending together with \<open>SIGCONT\<close>.\<close>

definition stop_or_cont :: "sproc \<Rightarrow> bool" where
  "stop_or_cont pr = (and (p_sig pr) stops = 0 \<or> and (p_sig pr) (sigmask SIGCONT) = 0)"

lemma bit_sigmask: "0 < sig \<Longrightarrow> sig \<le> 32 \<Longrightarrow> bit (sigmask sig) i = (i = sig - 1)"
  by (auto simp: sigmask_def bit_exp_iff)

lemma bit_stops: "bit stops i = (i \<in> {16, 17, 20, 21})"
  by (simp add: stops_def bit_or_iff bit_sigmask)

lemma and_zero_iff: "and w m = 0 \<longleftrightarrow> (\<forall>i. \<not> (bit w i \<and> bit m i))" for w m :: "32 word"
proof -
  have "i < 32" if "bit w i" for i using bit_imp_le_length [OF that] by simp
  moreover have "and w m = 0 \<longleftrightarrow> (\<forall>i < 32. \<not> (bit w i \<and> bit m i))"
    by (simp add: bit_eq_iff bit_and_iff)
  ultimately show ?thesis by blast
qed

lemma stop_or_cont_bits:
  "stop_or_cont pr = ((\<forall>i \<in> {16, 17, 20, 21}. \<not> bit (p_sig pr) i) \<or> \<not> bit (p_sig pr) 18)"
  by (auto simp: stop_or_cont_def and_zero_iff bit_stops bit_sigmask)

lemma post_bits:
  assumes "0 < sig" "sig < 32"
  shows "bit (p_sig (psignal_post sig a pr)) i =
    ((bit (p_sig pr) i \<or> i = sig - 1) \<and> (sig = SIGCONT \<longrightarrow> i \<notin> {16, 17, 20, 21}) \<and>
     (stop_signal sig \<longrightarrow> i \<noteq> 18))"
proof -
  have "i < 32" if "bit (p_sig pr) i" using bit_imp_le_length [OF that] by simp
  then show ?thesis
    using assms by (auto simp: psignal_post_def post_nice_def Let_def bit_or_iff bit_and_iff bit_not_iff
      bit_sigmask bit_stops stop_signal_def)
qed

lemma post_stop_or_cont: "stop_or_cont pr \<Longrightarrow> sig < 32 \<Longrightarrow> stop_or_cont (psignal_post sig a pr)"
proof (cases "sig = 0")
  case False
  moreover assume "stop_or_cont pr" "sig < 32"
  ultimately show ?thesis
    using post_bits [of sig a pr] by (auto simp: stop_or_cont_bits stop_signal_def)
qed (simp add: psignal_post_def)

section \<open>No panic\<close>

lemma post_sel [simp]:
  "p_rlink (psignal_post sig a pr) = p_rlink pr" "p_pri (psignal_post sig a pr) = p_pri pr"
  "p_usrpri (psignal_post sig a pr) = p_usrpri pr" "p_stat (psignal_post sig a pr) = p_stat pr"
  "p_flag (psignal_post sig a pr) = p_flag pr" "p_wchan (psignal_post sig a pr) = p_wchan pr"
  "p_pptr (psignal_post sig a pr) = p_pptr pr" "p_cursig (psignal_post sig a pr) = p_cursig pr"
  by (simp_all add: psignal_post_def post_nice_def Let_def)

lemma post_nice_range: "p_nice (psignal_post sig a pr) = p_nice pr \<or> p_nice (psignal_post sig a pr) = NZERO"
  by (simp add: psignal_post_def post_nice_def Let_def)

lemma take_sel [simp]:
  "p_rlink (take_away sig pr) = p_rlink pr" "p_pri (take_away sig pr) = p_pri pr"
  "p_usrpri (take_away sig pr) = p_usrpri pr" "p_stat (take_away sig pr) = p_stat pr"
  "p_flag (take_away sig pr) = p_flag pr" "p_wchan (take_away sig pr) = p_wchan pr"
  "p_nice (take_away sig pr) = p_nice pr" "p_pptr (take_away sig pr) = p_pptr pr"
  by (simp_all add: take_away_def)

text \<open>Changes that the invariant does not see.\<close>

lemma sinv_quiet:
  assumes "sinv s" "p_rlink (f (procs s p)) = p_rlink (procs s p)" "p_pri (f (procs s p)) = p_pri (procs s p)"
    "p_usrpri (f (procs s p)) = p_usrpri (procs s p)" "p_stat (f (procs s p)) = p_stat (procs s p)"
    "SLOAD \<in> p_flag (f (procs s p)) \<longleftrightarrow> SLOAD \<in> p_flag (procs s p)"
    "p_wchan (f (procs s p)) = p_wchan (procs s p)"
    "p_nice (f (procs s p)) = p_nice (procs s p) \<or> p_nice (f (procs s p)) = NZERO"
  shows "sinv (upd p f s)"
  using assms sinvD [OF assms(1), of p]
  by (intro sinv_but_upd [OF assms(1)]) (auto simp: proc_ok_def prio_ok_def)

lemma sinv_post: "sinv s \<Longrightarrow> sinv (upd p (psignal_post sig a) s)"
  by (rule sinv_quiet) (simp_all add: post_nice_range)

lemma sinv_take: "sinv s \<Longrightarrow> sinv (upd p (take_away sig) s)"
  by (rule sinv_quiet) simp_all

lemma upd_idem: "f (procs s p) = procs s p \<Longrightarrow> upd p f s = s"
  by (simp add: upd_def fun_upd_idem)

definition capped :: "sproc \<Rightarrow> sproc" where
  "capped pr = pr\<lparr>p_pri := min (p_pri pr) PUSER\<rparr>"

lemma psignal_run_ok:
  assumes "sinv s" "p_stat (procs s p) \<in> {SSLEEP, SSTOP}" "\<not> on_cpu s p"
  shows "\<exists>t. psignal_run p s = Some t \<and> started_up p (upd p capped s) t"
proof -
  let ?u = "upd p capped s"
  have ok: "proc_ok False (procs s p)" using sinvD [OF assms(1), of p] assms(3) by simp
  then have nr: "\<not> p_rlink (procs s p)" using assms(2) by (auto simp: proc_ok_def)
  have "sinv ?u"
    using ok nr assms(3) by (intro sinv_but_upd [OF assms(1)]) (auto simp: capped_def proc_ok_def prio_ok_def)
  moreover have "p_stat (procs ?u p) = p_stat (procs s p)" by (simp add: capped_def)
  moreover have "on_cpu ?u p = on_cpu s p" by (simp add: on_cpu_def)
  ultimately obtain t where t: "setrun p ?u = Some t" "started_up p ?u t"
    using setrun_ok [of ?u p] assms(2,3) by auto
  have "capped (procs s p) = procs s p" if "\<not> p_pri (procs s p) > PUSER"
    using that by (cases "procs s p") (simp add: capped_def)
  then have "?u = s" if "\<not> p_pri (procs s p) > PUSER"
    using that by (intro upd_idem) simp
  moreover have "upd p (\<lambda>pr. pr\<lparr>p_pri := PUSER\<rparr>) s = upd p capped s" if "p_pri (procs s p) > PUSER"
    using that by (simp add: upd_def capped_def min_def)
  ultimately have "psignal_run p s = setrun p ?u"
    using assms(2) by (auto simp: psignal_run_def Let_def)
  then show ?thesis using t by simp
qed

lemma started_up_frame: "started_up p (upd p f s) t \<Longrightarrow> sinv t \<and> frame s t"
  using frame_trans' [OF frame_upd] by (auto simp: started_up_def)

text \<open>A process that stops: it sleeps, or it is the running one, on its way into a sleep or not.\<close>

lemma stop_mark_ok:
  assumes "sinv_but {p} s" "prio_ok (procs s p)" "\<not> p_rlink (procs s p)"
    "on_cpu s p \<longrightarrow> SLOAD \<in> p_flag (procs s p)"
  shows "\<exists>t. stop_mark p s = Some t \<and> sinv t \<and> frame s t \<and> p_stat (procs t p) = SSTOP \<and>
    (\<forall>q. q \<noteq> p \<longrightarrow> (p_stat (procs t q) = SSTOP) = (p_stat (procs s q) = SSTOP) \<and>
       (p_stat (procs s q) = SRUN \<longrightarrow> p_stat (procs t q) = SRUN)) \<and>
    (\<forall>q. p_sig (procs t q) = p_sig (procs s q)) \<and>
    p_pptr (procs t p) = p_pptr (procs s p)"
proof -
  let ?u = "upd p (\<lambda>pr. pr\<lparr>p_stat := SSTOP, p_flag := p_flag pr - {SWTED}\<rparr>) s"
  have u: "sinv ?u"
    using assms by (intro sinv_but_upd [OF assms(1)]) (auto simp: proc_ok_def prio_ok_def)
  have "proc_addr ?u (p_pptr (procs ?u p)) \<noteq> 0" using u by (simp add: sinv_but_def chans_ok_def)
  from wakeup_ok [OF u this]
  obtain t where t: "stop_mark p s = Some t" "woke_up (proc_addr ?u (p_pptr (procs ?u p))) ?u t"
    by (auto simp: stop_mark_def Let_def)
  then show ?thesis
    using frame_trans' [where s = s, OF frame_upd] by (auto simp: woke_up_def woke_def woken_def Let_def)
qed

lemma sinv_weaken: "sinv s \<Longrightarrow> sinv_but E s"
  by (simp add: sinv_but_def)

text \<open>The signal was posted while the process is on the processor and already stopped.\<close>

definition stopped_here :: "sched \<Rightarrow> nat \<Rightarrow> bool" where
  "stopped_here s p = (on_cpu s p \<and> p_stat (procs s p) = SSTOP)"

lemma upd_frame_on_cpu [simp]: "on_cpu (upd p f s) q = on_cpu s q"
  by (simp add: on_cpu_def)

lemma frame_ast: "frame s (s\<lparr>astlvl := b\<rparr>)"
  by (simp add: frame_def)

lemma sinv_ast: "sinv (s\<lparr>astlvl := b\<rparr>) = sinv s"
  by (rule sinv_same) (simp_all add: same_queues_def frame_def)

text \<open>
  It returns with the invariant, what was stopped stays so, but for the processes of \<open>P\<close>, what was
  running stays so, and no process gets a stop signal and \<open>SIGCONT\<close> pending together.
\<close>

definition still_stopped :: "nat set \<Rightarrow> sched \<Rightarrow> sched \<Rightarrow> bool" where
  "still_stopped P s t =
     (\<forall>q. (q \<notin> P \<longrightarrow> p_stat (procs s q) = SSTOP \<longrightarrow> p_stat (procs t q) = SSTOP) \<and>
          (p_stat (procs s q) = SRUN \<longrightarrow> p_stat (procs t q) = SRUN) \<and>
          (stop_or_cont (procs s q) \<longrightarrow> stop_or_cont (procs t q)))"

definition goes_on :: "nat set \<Rightarrow> sched \<Rightarrow> sched option \<Rightarrow> bool" where
  "goes_on P s r = (\<exists>t. r = Some t \<and> sinv t \<and> frame s t \<and> still_stopped P s t)"

lemma goes_on_Some [simp]: "goes_on P s (Some t) = (sinv t \<and> frame s t \<and> still_stopped P s t)"
  by (simp add: goes_on_def)

lemma still_refl [simp]: "still_stopped P s s"
  by (simp add: still_stopped_def)

lemma still_ast [simp]: "still_stopped P s (s\<lparr>astlvl := b\<rparr>)"
  by (simp add: still_stopped_def)

lemma still_upd [simp]:
  "p \<in> P \<Longrightarrow> p_stat (procs s p) = SRUN \<longrightarrow> p_stat (f (procs s p)) = SRUN \<Longrightarrow>
   stop_or_cont (procs s p) \<longrightarrow> stop_or_cont (f (procs s p)) \<Longrightarrow> still_stopped P s (upd p f s)"
  by (simp add: still_stopped_def)

lemma goes_on_trans: "frame s t \<Longrightarrow> still_stopped P s t \<Longrightarrow> goes_on P t r \<Longrightarrow> goes_on P s r"
  using frame_trans' by (fastforce simp: goes_on_def still_stopped_def)

lemma goes_on_mono: "goes_on P s r \<Longrightarrow> P \<subseteq> Q \<Longrightarrow> goes_on Q s r"
  by (auto simp: goes_on_def still_stopped_def)

lemma started_up_still: "started_up p (upd p capped s) t \<Longrightarrow> p \<in> P \<Longrightarrow> still_stopped P s t"
  by (auto simp: started_up_def still_stopped_def woken_def started_def capped_def stop_or_cont_def Let_def)

lemma stop_or_cont_take: "stop_or_cont pr \<Longrightarrow> stop_or_cont (take_away sig pr)"
  by (auto simp: stop_or_cont_bits take_away_def bit_and_iff)

lemma stop_or_cont_same [simp]:
  "stop_or_cont (pr\<lparr>p_stat := x\<rparr>) = stop_or_cont pr" "stop_or_cont (pr\<lparr>p_wchan := c\<rparr>) = stop_or_cont pr"
  "stop_or_cont (pr\<lparr>p_cursig := n\<rparr>) = stop_or_cont pr"
  by (simp_all add: stop_or_cont_def)

lemma psignal_run_goes_on:
  assumes "sinv s" "p_stat (procs s p) \<in> {SSLEEP, SSTOP}" "\<not> stopped_here s p"
  shows "goes_on {p} s (psignal_run p s)"
proof -
  have "\<not> on_cpu s p"
    using sinvD [OF assms(1), of p] assms(2,3) by (auto simp: proc_ok_def stopped_here_def)
  then show ?thesis
    using psignal_run_ok [OF assms(1,2)] started_up_frame [of p capped s] started_up_still [of p s _ "{p}"]
    by (auto simp: goes_on_def)
qed

text \<open>The ends of its branches, in the state with the signal posted.\<close>

lemma branch_ends:
  assumes i: "sinv s" and h: "\<not> stopped_here s p"
  shows "p_stat (procs s p) = SSLEEP \<or> p_stat (procs s p) = SSTOP \<Longrightarrow> goes_on {p} s (psignal_run p s)"
    "p_stat (procs s p) = SSTOP \<Longrightarrow> p_wchan (procs s p) \<noteq> 0 \<Longrightarrow> sinv (upd p (\<lambda>pr. pr\<lparr>p_stat := SSLEEP\<rparr>) s)"
    "p_stat (procs s p) = SSTOP \<Longrightarrow> goes_on {p} s (unsleep p s)"
    "sinv (upd p (take_away sig) s)"
proof -
  show "goes_on {p} s (psignal_run p s)" if "p_stat (procs s p) = SSLEEP \<or> p_stat (procs s p) = SSTOP"
    using psignal_run_goes_on [OF i _ h] that by auto
  have ok: "p_stat (procs s p) = SSTOP \<Longrightarrow> proc_ok False (procs s p) \<and> \<not> on_cpu s p"
    using sinvD [OF i, of p] h by (simp add: stopped_here_def)
  show "sinv (upd p (\<lambda>pr. pr\<lparr>p_stat := SSLEEP\<rparr>) s)"
    if "p_stat (procs s p) = SSTOP" "p_wchan (procs s p) \<noteq> 0"
    using ok that by (intro sinv_but_upd [OF i]) (auto simp: proc_ok_def prio_ok_def)
  show "goes_on {p} s (unsleep p s)" if "p_stat (procs s p) = SSTOP"
    using sinv_unslept [OF i, of p "{}"] ok that by (auto simp: proc_ok_def prio_ok_def still_stopped_def)
  show "sinv (upd p (take_away sig) s)" by (rule sinv_take [OF i])
qed

lemma psignal_ignored:
  "NSIG \<le> sig \<or> STRC \<notin> p_flag (procs s p) \<and> psignal_action sig (procs s p) = SIG_IGN \<Longrightarrow> psignal p sig s = Some s"
  by (subst psignal.simps) (simp add: Let_def)

lemma psignal_plain_goes_on:
  assumes i: "sinv s" and h: "\<not> stopped_here s p" and sig: "\<not> stop_signal sig"
  shows "goes_on {p} s (psignal p sig s)"
proof (cases "NSIG \<le> sig \<or> STRC \<notin> p_flag (procs s p) \<and> psignal_action sig (procs s p) = SIG_IGN")
  case True
  then show ?thesis using i by (simp add: psignal_ignored)
next
  case go: False
  define a where "a = psignal_action sig (procs s p)"
  define s1 where "s1 = upd p (psignal_post sig a) s"
  have i1: "sinv s1" "frame s s1" "still_stopped {p} s s1"
    using go by (simp_all add: s1_def sinv_post i post_stop_or_cont)
  have h1: "\<not> stopped_here s1 p" using h by (simp add: s1_def stopped_here_def)
  have "goes_on {p} s1 (psignal p sig s)"
    unfolding psignal.simps [of p sig s] Let_def a_def [symmetric] s1_def [symmetric] if_not_P [OF go [folded a_def]]
    using branch_ends [OF i1(1) h1] i1(1) sig
    by (cases "p_stat (procs s1 p)") (simp_all add: sinv_ast frame_ast stop_or_cont_take)
  then show ?thesis by (rule goes_on_trans [OF i1(2,3)])
qed

lemma psignal_stop_goes_on:
  assumes i: "sinv s" and h: "\<And>q. \<not> stopped_here s q" and st: "p_stat (procs s p) = SSLEEP"
  shows "goes_on UNIV s (do {
      s3 \<leftarrow> stop_mark p s;
      if STRC \<in> p_flag (procs s3 p) then Some s3 else psignal (p_pptr (procs s3 p)) SIGCHLD s3 })"
proof -
  have ok: "prio_ok (procs s p)" "\<not> p_rlink (procs s p)" "\<not> on_cpu s p"
    using sinvD [OF i, of p] st by (auto simp: proc_ok_def)
  obtain t where t: "stop_mark p s = Some t" "sinv t" "frame s t"
    "\<And>q. q \<noteq> p \<Longrightarrow> p_stat (procs t q) = SSTOP \<Longrightarrow> p_stat (procs s q) = SSTOP"
    "\<And>q. q \<noteq> p \<Longrightarrow> p_stat (procs s q) = SRUN \<Longrightarrow> p_stat (procs t q) = SRUN"
    "\<And>q. p_sig (procs t q) = p_sig (procs s q)"
    using stop_mark_ok [OF sinv_weaken [OF i] ok(1,2)] ok(3) by blast
  have "\<not> stopped_here t q" for q
    using h [of q] t(4) [of q] ok(3) frame_on_cpu [OF t(3), of q]
    by (cases "q = p") (auto simp: stopped_here_def)
  then have "goes_on UNIV t (psignal (p_pptr (procs t p)) SIGCHLD t)"
    by (intro goes_on_mono [OF psignal_plain_goes_on [OF t(2)]]) (simp_all add: stop_signal_def)
  moreover have st': "still_stopped UNIV s t"
    unfolding still_stopped_def
  proof (intro allI conjI impI)
    fix q assume r: "p_stat (procs s q) = SRUN"
    then have "q \<noteq> p" using st by auto
    then show "p_stat (procs t q) = SRUN" using t(5) r by blast
  qed (simp_all add: stop_or_cont_def t(6))
  ultimately have "goes_on UNIV s (psignal (p_pptr (procs t p)) SIGCHLD t)"
    using goes_on_trans [OF t(3)] by blast
  then show ?thesis using t(1-3) st' by simp
qed

lemma psignal_goes_on:
  assumes i: "sinv s" and h: "\<And>q. \<not> stopped_here s q"
  shows "goes_on UNIV s (psignal p sig s)"
proof (cases "NSIG \<le> sig \<or> STRC \<notin> p_flag (procs s p) \<and> psignal_action sig (procs s p) = SIG_IGN \<or> \<not> stop_signal sig")
  case True
  then show ?thesis using goes_on_mono [OF psignal_plain_goes_on [OF i h], of sig p UNIV] i by (auto simp: psignal_ignored)
next
  case False
  then have sig: "stop_signal sig"
    and go: "\<not> (NSIG \<le> sig \<or> STRC \<notin> p_flag (procs s p) \<and> psignal_action sig (procs s p) = SIG_IGN)" by simp_all
  define a where "a = psignal_action sig (procs s p)"
  define s1 where "s1 = upd p (psignal_post sig a) s"
  have i1: "sinv s1" "frame s s1" by (simp_all add: s1_def sinv_post i)
  have h1: "\<not> stopped_here s1 q" for q using h [of q] by (auto simp: s1_def stopped_here_def)
  let ?s2 = "upd p (\<lambda>pr. (take_away sig pr)\<lparr>p_cursig := sig\<rparr>) s1"
  have i2: "sinv ?s2" by (rule sinv_quiet [OF i1(1)]) simp_all
  have h2: "\<not> stopped_here ?s2 q" for q using h1 [of q] by (auto simp: stopped_here_def)
  define r where "r = do {
      s3 \<leftarrow> stop_mark p ?s2;
      if STRC \<in> p_flag (procs s3 p) then Some s3 else psignal (p_pptr (procs s3 p)) SIGCHLD s3 }"
  have stop: "goes_on UNIV s1 r" if "p_stat (procs s1 p) = SSLEEP"
    unfolding r_def
    by (rule goes_on_trans [OF frame_upd _ psignal_stop_goes_on [OF i2 h2]])
      (simp_all add: that stop_or_cont_take)
  obtain k where k: "psignal p SIGKILL s1 = Some k" "sinv k" "frame s1 k" and ks: "still_stopped {p} s1 k"
    using psignal_plain_goes_on [OF i1(1) h1, of SIGKILL p] by (auto simp: goes_on_def stop_signal_def)
  have k': "goes_on UNIV s1 (do { s2 \<leftarrow> psignal p SIGKILL s1; Some (upd p (take_away sig) s2) })"
    using ks k sinv_take frame_trans' [OF k(3) frame_upd] by (simp add: still_stopped_def stop_or_cont_take)
  have "goes_on UNIV s1 (psignal p sig s)"
    unfolding psignal.simps [of p sig s] Let_def a_def [symmetric] s1_def [symmetric] if_not_P [OF go [folded a_def]]
      r_def [symmetric]
    using branch_ends(2,4) [OF i1(1) h1] goes_on_mono [OF branch_ends(1) [OF i1(1) h1], of p UNIV]
      goes_on_mono [OF branch_ends(3) [OF i1(1) h1], of p UNIV] i1(1) sig stop k'
    by (cases "p_stat (procs s1 p)") (simp_all add: sinv_ast frame_ast stop_or_cont_take)
  then show ?thesis using go by (intro goes_on_trans [OF i1(2), rotated]) (simp_all add: s1_def post_stop_or_cont)
qed

section \<open>What a signal does to a sleeping process\<close>

text \<open>Whether a signal that is neither ignored nor held back ends the sleep.\<close>

definition ends_sleep :: "nat \<Rightarrow> sproc \<Rightarrow> bool" where
  "ends_sleep sig pr =
     (p_pri pr > PZERO \<and>
      (STRC \<in> p_flag pr \<or> psignal_action sig pr \<noteq> SIG_DFL \<or>
       \<not> stop_signal sig \<and> sig \<notin> {SIGIO, SIGURG, SIGCHLD}))"

text \<open>The code for a process asleep, the signal not ignored.\<close>

lemma psignal_asleep:
  assumes "p_stat (procs s p) = SSLEEP" "sig < NSIG" "STRC \<in> p_flag (procs s p) \<or> psignal_action sig (procs s p) \<noteq> SIG_IGN"
  defines "a \<equiv> psignal_action sig (procs s p)"
  defines "s1 \<equiv> upd p (psignal_post sig a) s"
  shows "a = SIG_HOLD \<or> p_pri (procs s p) \<le> PZERO \<Longrightarrow> psignal p sig s = Some s1"
    and "a \<noteq> SIG_HOLD \<Longrightarrow> ends_sleep sig (procs s p) \<Longrightarrow> psignal p sig s = psignal_run p s1"
proof -
  have go: "\<not> (NSIG \<le> sig \<or> STRC \<notin> p_flag (procs s p) \<and> a = SIG_IGN)"
    using assms(2,3) by (auto simp: a_def)
  have st: "p_stat (procs s1 p) = SSLEEP" "p_pri (procs s1 p) = p_pri (procs s p)"
    "p_flag (procs s1 p) = p_flag (procs s p)" using assms(1) by (simp_all add: s1_def)
  note code = psignal.simps [of p sig s, unfolded Let_def, folded a_def, folded s1_def, unfolded if_not_P [OF go]]
  show "psignal p sig s = Some s1" if "a = SIG_HOLD \<or> p_pri (procs s p) \<le> PZERO"
  proof (cases "a = SIG_HOLD")
    case True
    then show ?thesis by (subst code) (simp only: if_True simp_thms)
  next
    case False
    then have "p_pri (procs s p) \<le> PZERO" using that by simp
    then show ?thesis using False by (subst code) (simp only: st pstat.case if_True if_False simp_thms)
  qed
  show "psignal p sig s = psignal_run p s1" if nh: "a \<noteq> SIG_HOLD" and e: "ends_sleep sig (procs s p)"
  proof -
    have n: "\<not> p_pri (procs s p) \<le> PZERO" using e by (simp add: ends_sleep_def)
    consider "STRC \<in> p_flag (procs s p)" | "a \<noteq> SIG_DFL" | "\<not> stop_signal sig" "sig \<notin> {SIGIO, SIGURG, SIGCHLD}"
      using e by (auto simp: ends_sleep_def a_def)
    then show ?thesis
    proof cases
      case 1
      then show ?thesis using n nh by (subst code) (simp only: st pstat.case if_True if_False simp_thms)
    next
      case 2
      then show ?thesis using n nh by (subst code) (simp only: st pstat.case if_True if_False if_cancel simp_thms)
    next
      case 3
      then show ?thesis using n nh by (subst code) (simp only: st pstat.case if_True if_False if_cancel simp_thms)
    qed
  qed
qed

lemma psignal_ends_sleep:
  assumes i: "sinv s" and "p_stat (procs s p) = SSLEEP" "sig < NSIG"
    "STRC \<in> p_flag (procs s p) \<or> psignal_action sig (procs s p) \<noteq> SIG_IGN"
    "psignal_action sig (procs s p) \<noteq> SIG_HOLD" "ends_sleep sig (procs s p)"
  shows "\<exists>t. psignal p sig s = Some t \<and> sinv t \<and> p_stat (procs t p) = SRUN \<and> p_wchan (procs t p) = 0 \<and>
    p_pri (procs t p) = min (p_pri (procs s p)) PUSER \<and> p_rlink (procs t p) = (SLOAD \<in> p_flag (procs s p))"
proof -
  let ?s1 = "upd p (psignal_post sig (psignal_action sig (procs s p))) s"
  have "\<not> on_cpu s p" using sinvD [OF i, of p] assms(2) by (auto simp: proc_ok_def)
  then obtain t where "psignal_run p ?s1 = Some t" "started_up p (upd p capped ?s1) t"
    using psignal_run_ok [OF sinv_post [OF i], of p sig "psignal_action sig (procs s p)" p] assms(2) by auto
  then show ?thesis
    using psignal_asleep(2) [OF assms(2-6)] by (auto simp: started_up_def started_def capped_def)
qed

end
