(* ===== verification/Sched_Run.thy ===== *)
theory Sched_Run
  imports Signal
begin

text \<open>
  The scheduler in use: the statements of the trap handler, the clock, fork, exit and the swapper that move a
  process on or off the queues, and the step relation of the whole, in which the running process and the
  interrupts call any of the operations in any order.  Its reachable states have the invariant, and no
  step from one of them panics.
\<close>

section \<open>The callers\<close>

text \<open>The end of \<open>trap\<close>: the priority goes back to the user's, and the processor is given up when \<open>runrun\<close> is set.\<close>

definition trap_out :: "sched \<Rightarrow> sched option" where
  "trap_out s =
     (let p = u_procp s;
          s1 = upd p (\<lambda>pr. pr\<lparr>p_pri := p_usrpri pr\<rparr>) s
      in if runrun s1 \<noteq> 0 then Option.bind (setrq p s1) swtch else Some s1)"

text \<open>Its last statement, when the process runs again.\<close>

definition trap_curpri :: "sched \<Rightarrow> sched" where
  "trap_curpri s = s\<lparr>curpri := p_pri (procs s (u_procp s))\<rparr>"

text \<open>The part of \<open>hardclock\<close> that adjusts the priority of the running process.\<close>

definition hardclock_adjust :: "sched \<Rightarrow> sched" where
  "hardclock_adjust s =
     (if noproc s then s
      else
        let p = u_procp s;
            s1 = upd p (\<lambda>pr. pr\<lparr>p_cpticks := s16 (p_cpticks pr + 1),
                                 p_cpu := (if p_cpu pr + 1 = 0 then p_cpu pr else p_cpu pr + 1)\<rparr>) s
        in if and (p_cpu (procs s1 p)) 3 = 0 then
             let (_, s2) = setpri p s1
             in if p_pri (procs s2 p) \<ge> PUSER then upd p (\<lambda>pr. pr\<lparr>p_pri := p_usrpri pr\<rparr>) s2 else s2
           else s1)"

text \<open>\<open>newproc\<close>: the slot's entry, of the scheduler's fields those the code sets, and making the child run.\<close>

definition newproc_entry :: "nat \<Rightarrow> bool \<Rightarrow> sched \<Rightarrow> sched" where
  "newproc_entry rpp isvfork s =
     (let rip = u_procp s
      in upd rpp (\<lambda>pr. pr\<lparr>p_stat := SIDL, p_flag := (if isvfork then {SLOAD, SVFORK} else {SLOAD}),
           p_nice := p_nice (procs s rip), p_pptr := rip, p_time := 0, p_cpu := 0,
           p_siga0 := p_siga0 (procs s rip), p_siga1 := p_siga1 (procs s rip), p_rssize := 0,
           p_maxrss := p_maxrss (procs s rip), p_wchan := 0, p_slptime := 0, p_cpticks := 0\<rparr>) s)"

definition newproc_run :: "nat \<Rightarrow> sched \<Rightarrow> sched option" where
  "newproc_run rpp s = setrq rpp (upd rpp (\<lambda>pr. pr\<lparr>p_stat := SRUN\<rparr>) s)"

text \<open>\<open>exit\<close>: the process becomes a zombie, and at the end tells its parent and switches.\<close>

definition exit_mark :: "sched \<Rightarrow> sched" where
  "exit_mark s = (upd (u_procp s) (\<lambda>pr. pr\<lparr>p_stat := SZOMB\<rparr>) s)\<lparr>noproc := True\<rparr>"

definition exit_end :: "nat \<Rightarrow> sched \<Rightarrow> sched option" where
  "exit_end p s =
     do {
       s1 \<leftarrow> psignal (p_pptr (procs s p)) SIGCHLD s;
       s2 \<leftarrow> wakeup (proc_addr s1 (p_pptr (procs s1 p))) s1;
       swtch s2
     }"

text \<open>The swapper takes a process off or puts it on.\<close>

definition sched_outswap :: "nat \<Rightarrow> sched \<Rightarrow> sched option" where
  "sched_outswap p s =
     (let s1 = upd p (\<lambda>pr. pr\<lparr>p_flag := p_flag pr - {SLOAD}\<rparr>) s
      in if p_stat (procs s1 p) = SRUN then remrq p s1 else Some s1)"

definition swapin_ready :: "nat \<Rightarrow> sched \<Rightarrow> sched option" where
  "swapin_ready p s =
     do {
       s1 \<leftarrow> (if p_stat (procs s p) = SRUN then setrq p s else Some s);
       Some (upd p (\<lambda>pr. pr\<lparr>p_flag := insert SLOAD (p_flag pr)\<rparr>) s1)
     }"

text \<open>A process that \<open>issig\<close> stops: in \<open>sleep\<close>, or on the way out of the kernel.\<close>

definition stop_switch :: "sched \<Rightarrow> sched option" where
  "stop_switch s = Option.bind (stop (u_procp s) s) swtch"

definition sleep_stop :: "nat \<Rightarrow> int \<Rightarrow> sched \<Rightarrow> sched option" where
  "sleep_stop chan pri s = Option.bind (sleep_enqueue chan pri s) stop_switch"

section \<open>Each keeps the invariant\<close>

text \<open>Between two operations the process on the processor, if there is one, is runnable.\<close>

definition running_ok :: "sched \<Rightarrow> bool" where
  "running_ok s = (sinv s \<and> (noproc s \<or> p_stat (procs s (u_procp s)) = SRUN))"

definition fine :: "sched option \<Rightarrow> bool" where
  "fine r = (\<exists>t. r = Some t \<and> running_ok t)"

lemma fine_Some [simp]: "fine (Some t) = running_ok t"
  by (simp add: fine_def)

lemma running_okD:
  "running_ok s \<Longrightarrow> \<not> noproc s \<Longrightarrow> sinv s \<and> p_stat (procs s (u_procp s)) = SRUN \<and> proc_ok True (procs s (u_procp s))"
  using sinvD [of "{}" s "u_procp s"] by (auto simp: running_ok_def on_cpu_def)

lemma running_ok_kept:
  "running_ok s \<Longrightarrow> sinv t \<Longrightarrow> u_procp t = u_procp s \<Longrightarrow> noproc t = noproc s \<Longrightarrow> runs_on s t \<Longrightarrow> running_ok t"
  by (auto simp: running_ok_def runs_on_def)

lemma switched_running_ok: "sinv (s\<lparr>noproc := True\<rparr>) \<Longrightarrow> switched s t \<Longrightarrow> running_ok t"
  using sinvD [of "{}" "s\<lparr>noproc := True\<rparr>" "u_procp t"]
  by (auto simp: switched_def running_ok_def Let_def proc_ok_def on_cpu_def split: if_splits)

lemma swtch_fine: "sinv (s\<lparr>noproc := True\<rparr>) \<Longrightarrow> fine (swtch s)"
  using swtch_ok [of s] switched_running_ok by (auto simp: fine_def)

lemma trap_out_fine:
  assumes r: "running_ok s" and n: "\<not> noproc s"
  shows "fine (trap_out s)"
proof -
  have i: "sinv s" and st: "p_stat (procs s (u_procp s)) = SRUN" using running_okD [OF r n] by simp_all
  let ?p = "u_procp s" and ?s = "upd (u_procp s) (\<lambda>pr. pr\<lparr>p_pri := p_usrpri pr\<rparr>) s"
  have ok: "proc_ok True (procs s ?p)" using sinvD [OF i, of ?p] n by (simp add: on_cpu_def)
  then have pr: "prio_ok (procs ?s ?p)" "\<not> p_rlink (procs s ?p)" "p_wchan (procs s ?p) = 0" "SLOAD \<in> p_flag (procs s ?p)"
    using st by (auto simp: proc_ok_def prio_ok_def)
  have i1: "sinv ?s"
    using ok by (intro sinv_but_upd [OF i]) (auto simp: proc_ok_def prio_ok_def on_cpu_def n)
  have e: "setrq ?p ?s = Some (enq ?p ?s)" "sinv_but {?p} (enq ?p ?s)"
    using sinv_enq [OF i1 pr(1), of "{?p}"] pr(2) by simp_all
  have "u_procp (enq ?p ?s) = ?p" by (simp add: enq_def Let_def)
  then have "sinv ((enq ?p ?s)\<lparr>noproc := True\<rparr>)"
    by (intro sinv_leaves [OF e(2)]) (use pr st in \<open>simp_all add: proc_ok_def prio_ok_def\<close>)
  moreover have "running_ok ?s" using i1 st by (simp add: running_ok_def)
  ultimately show ?thesis using e(1) by (simp add: trap_out_def Let_def swtch_fine)
qed

lemma trap_curpri_fine: "running_ok s \<Longrightarrow> running_ok (trap_curpri s)"
  by (simp add: running_ok_def trap_curpri_def sinv_but_def rq_ok_def sq_ok_def chans_ok_def on_cpu_def)

lemma hardclock_adjust_sinv:
  assumes i: "sinv s"
  shows "sinv (hardclock_adjust s)"
proof (cases "noproc s")
  case True
  then show ?thesis using i by (simp add: hardclock_adjust_def)
next
  case n: False
  let ?p = "u_procp s"
  let ?s1 = "upd ?p (\<lambda>pr. pr\<lparr>p_cpticks := s16 (p_cpticks pr + 1),
      p_cpu := (if p_cpu pr + 1 = 0 then p_cpu pr else p_cpu pr + 1)\<rparr>) s"
  have ok: "proc_ok True (procs s ?p)" using sinvD [OF i, of ?p] n by (simp add: on_cpu_def)
  have i1: "sinv ?s1" by (rule sinv_quiet [OF i]) simp_all
  have nice: "0 \<le> p_nice (procs ?s1 ?p)" using ok by (simp add: proc_ok_def prio_ok_def)
  define c where "c = user_prio ?s1 (procs ?s1 ?p)"
  let ?s2 = "upd ?p (\<lambda>pr. pr\<lparr>p_usrpri := c\<rparr>) (kick c ?s1)"
  have c: "10 \<le> c" "c \<le> 127" using user_prio_range [OF nice] by (simp_all add: c_def)
  have i2: "sinv ?s2"
    using i1 ok c n by (intro sinv_but_upd [where E = "{}"]) (auto simp: proc_ok_def prio_ok_def on_cpu_def)
  have "\<not> p_rlink (procs s ?p)" using ok by (simp add: proc_ok_def)
  then have "sinv (upd ?p (\<lambda>pr. pr\<lparr>p_pri := p_usrpri pr\<rparr>) ?s2)"
    using ok c n by (intro sinv_but_upd [OF i2]) (auto simp: proc_ok_def prio_ok_def on_cpu_def)
  then show ?thesis using n i1 i2 setpri_eq [OF nice] by (simp add: hardclock_adjust_def Let_def c_def)
qed

lemma hardclock_adjust_fine: "running_ok s \<Longrightarrow> running_ok (hardclock_adjust s)"
  using hardclock_adjust_sinv [of s]
  by (auto simp: running_ok_def hardclock_adjust_def Let_def setpri_def split: if_splits)

lemma newproc_entry_fine:
  assumes r: "running_ok s" and run: "\<not> noproc s" and st: "p_stat (procs s q) = SFREE"
  shows "running_ok (newproc_entry q v s)"
proof -
  have i: "sinv s" and u: "p_stat (procs s (u_procp s)) = SRUN" using running_okD [OF r run] by simp_all
  then have n: "\<not> on_cpu s q" using st by (auto simp: on_cpu_def)
  have ok: "proc_ok False (procs s q)" "prio_ok (procs s (u_procp s))"
    using sinvD [OF i, of q] sinvD [OF i, of "u_procp s"] n by (simp_all add: proc_ok_def)
  then have "\<not> p_rlink (procs s q)" "p_wchan (procs s q) = 0" using st by (auto simp: proc_ok_def)
  then have "sinv (newproc_entry q v s)"
    unfolding newproc_entry_def Let_def using ok n
    by (intro sinv_but_upd [OF i]) (auto simp: proc_ok_def prio_ok_def)
  then show ?thesis using u st by (auto simp: running_ok_def newproc_entry_def Let_def)
qed

lemma newproc_run_fine:
  assumes r: "running_ok s" and st: "p_stat (procs s q) = SIDL" and ld: "SLOAD \<in> p_flag (procs s q)"
  shows "fine (newproc_run q s)"
proof -
  have i: "sinv s" using r by (simp add: running_ok_def)
  have n: "\<not> on_cpu s q" using r st by (auto simp: on_cpu_def running_ok_def)
  let ?s = "upd q (\<lambda>pr. pr\<lparr>p_stat := SRUN\<rparr>) s"
  have ok: "proc_ok False (procs s q)" using sinvD [OF i, of q] n by simp
  have i1: "sinv_but {q} ?s" by (rule sinv_but_upd [OF i]) simp_all
  have "setrq q ?s = Some (enq q ?s)" "sinv (enq q ?s)"
    using sinv_enq [OF i1, of q "{}"] ok st ld n by (auto simp: proc_ok_def prio_ok_def)
  moreover have "frame s (enq q ?s)" by (rule frame_trans' [OF frame_upd frame_enq])
  then have "running_ok (enq q ?s)"
    using running_ok_kept [OF r calculation(2)] by (simp add: frame_def runs_on_def)
  ultimately show ?thesis by (simp add: newproc_run_def)
qed

lemma exit_mark_fine:
  assumes r: "running_ok s" and n: "\<not> noproc s"
  shows "running_ok (exit_mark s)"
proof -
  have i: "sinv s" and st: "p_stat (procs s (u_procp s)) = SRUN" using running_okD [OF r n] by simp_all
  let ?p = "u_procp s" and ?s = "upd (u_procp s) (\<lambda>pr. pr\<lparr>p_stat := SZOMB\<rparr>) s"
  have ok: "proc_ok True (procs s ?p)" using sinvD [OF i, of ?p] n by (simp add: on_cpu_def)
  have "sinv_but {?p} ?s" by (rule sinv_but_upd [OF i]) simp_all
  then have "sinv (exit_mark s)"
    unfolding exit_mark_def by (rule sinv_leaves) (use ok st in \<open>auto simp: proc_ok_def prio_ok_def\<close>)
  then show ?thesis by (simp add: running_ok_def exit_mark_def)
qed

lemma sinv_idle: "sinv s \<Longrightarrow> noproc s \<Longrightarrow> sinv (s\<lparr>noproc := True\<rparr>)"
  by (simp add: sinv_but_def rq_ok_def sq_ok_def chans_ok_def on_cpu_def)

lemma exit_end_fine:
  assumes i: "sinv s" and n: "noproc s"
  shows "fine (exit_end p s)"
proof -
  have "goes_on UNIV s (psignal (p_pptr (procs s p)) SIGCHLD s)"
    using n by (intro psignal_goes_on [OF i]) (simp add: stopped_here_def on_cpu_def)
  then obtain s1 where s1: "psignal (p_pptr (procs s p)) SIGCHLD s = Some s1" "sinv s1" "frame s s1"
    by (auto simp: goes_on_def)
  have "proc_addr s1 (p_pptr (procs s1 p)) \<noteq> 0" using s1(2) by (simp add: sinv_but_def chans_ok_def)
  then obtain s2 where s2: "wakeup (proc_addr s1 (p_pptr (procs s1 p))) s1 = Some s2" "frame s1 s2" "sinv s2"
    using wakeup_ok [OF s1(2)] woke_up_frame by blast
  have "noproc s2" using n s1(3) s2(2) by (simp add: frame_def)
  then have "fine (swtch s2)" using s2(3) by (intro swtch_fine sinv_idle)
  then show ?thesis using s1(1) s2(1) by (simp add: exit_end_def)
qed

lemma sched_outswap_fine:
  assumes r: "running_ok s" and n: "\<not> on_cpu s p" and ld: "SLOAD \<in> p_flag (procs s p)"
  shows "fine (sched_outswap p s)"
proof -
  have i: "sinv s" using r by (simp add: running_ok_def)
  let ?s = "upd p (\<lambda>pr. pr\<lparr>p_flag := p_flag pr - {SLOAD}\<rparr>) s"
  have ok: "proc_ok False (procs s p)" using sinvD [OF i, of p] n by simp
  have i1: "sinv_but {p} ?s" by (rule sinv_but_upd [OF i]) simp_all
  show ?thesis
  proof (cases "p_stat (procs s p) = SRUN")
    case True
    then have "remrq p ?s = Some (deq p ?s)" "sinv (deq p ?s)"
      using sinv_deq [OF i1, of p "{}"] ok ld n by (auto simp: proc_ok_def prio_ok_def)
    moreover have "frame s (deq p ?s)" by (rule frame_trans' [OF frame_upd frame_deq])
    then have "running_ok (deq p ?s)"
      using running_ok_kept [OF r calculation(2)] by (simp add: frame_def runs_on_def)
    ultimately show ?thesis using True by (simp add: sched_outswap_def)
  next
    case False
    have "sinv ?s" using False ok n by (intro sinv_but_upd [OF i]) (auto simp: proc_ok_def prio_ok_def)
    then have "running_ok ?s" using running_ok_kept [OF r, of ?s] by (simp add: runs_on_def)
    then show ?thesis using False by (simp add: sched_outswap_def)
  qed
qed

lemma swapin_ready_fine:
  assumes r: "running_ok s" and n: "\<not> on_cpu s p" and ld: "SLOAD \<notin> p_flag (procs s p)"
  shows "fine (swapin_ready p s)"
proof -
  have i: "sinv s" using r by (simp add: running_ok_def)
  have ok: "proc_ok False (procs s p)" using sinvD [OF i, of p] n by simp
  show ?thesis
  proof (cases "p_stat (procs s p) = SRUN")
    case True
    have e: "setrq p s = Some (enq p s)" "sinv_but {p} (enq p s)"
      using sinv_enq [OF i, of p "{p}"] ok ld by (auto simp: proc_ok_def)
    let ?t = "upd p (\<lambda>pr. pr\<lparr>p_flag := insert SLOAD (p_flag pr)\<rparr>) (enq p s)"
    have "sinv ?t"
      using ok True n frame_on_cpu [OF frame_enq [of s p], of p]
      by (intro sinv_but_upd [OF e(2)]) (auto simp: proc_ok_def prio_ok_def)
    moreover have "frame s ?t" by (rule frame_trans' [OF frame_enq frame_upd])
    ultimately have "running_ok ?t" using running_ok_kept [OF r, of ?t] by (simp add: frame_def runs_on_def)
    then show ?thesis using True e(1) by (simp add: swapin_ready_def)
  next
    case False
    let ?t = "upd p (\<lambda>pr. pr\<lparr>p_flag := insert SLOAD (p_flag pr)\<rparr>) s"
    have "sinv ?t"
      using ok False n by (intro sinv_but_upd [OF i]) (auto simp: proc_ok_def prio_ok_def)
    then have "running_ok ?t" using running_ok_kept [OF r, of ?t] by (simp add: runs_on_def)
    then show ?thesis using False by (simp add: swapin_ready_def)
  qed
qed

text \<open>A process that stops itself, on a sleep queue or not.\<close>

lemma stop_switch_fine:
  assumes i: "sinv_but {u_procp s} s" and n: "\<not> noproc s" and pr: "prio_ok (procs s (u_procp s))"
    "\<not> p_rlink (procs s (u_procp s))" "SLOAD \<in> p_flag (procs s (u_procp s))" "p_pptr (procs s (u_procp s)) \<noteq> u_procp s"
  shows "fine (stop_switch s)"
proof -
  let ?p = "u_procp s"
  obtain t where t: "stop_mark ?p s = Some t" "sinv t" "frame s t" "p_stat (procs t ?p) = SSTOP"
    "p_pptr (procs t ?p) = p_pptr (procs s ?p)"
    using stop_mark_ok [OF i pr(1,2)] pr(3) by blast
  have u: "u_procp t = ?p" "\<not> noproc t" using t(3) n by (simp_all add: frame_def)
  have "goes_on {p_pptr (procs t ?p)} t (psignal (p_pptr (procs t ?p)) SIGCHLD t)"
    using pr(4) t(5) u by (intro psignal_plain_goes_on [OF t(2)]) (auto simp: stopped_here_def on_cpu_def stop_signal_def)
  then obtain v where v: "psignal (p_pptr (procs t ?p)) SIGCHLD t = Some v" "sinv v" "frame t v"
      "p_stat (procs v ?p) = SSTOP"
    using t(4,5) pr(4) by (auto simp: goes_on_def still_stopped_def)
  have leaves: "fine (swtch w)" if "sinv w" "u_procp w = ?p" "p_stat (procs w ?p) = SSTOP" "\<not> noproc w" for w
  proof (rule swtch_fine, rule sinv_leaves [OF sinv_weaken [OF that(1)]])
    show "u_procp s = u_procp w" using that(2) by simp
    show "proc_ok False (procs w (u_procp s))"
      using sinvD [OF that(1), of ?p] that(3) by (simp add: proc_ok_def)
  qed
  have "u_procp v = ?p" "\<not> noproc v" using v(3) u by (simp_all add: frame_def)
  then show ?thesis
    using t u v leaves [OF t(2)] leaves [OF v(2)] by (simp add: stop_switch_def stop_def)
qed

text \<open>The operations of theories Sched and Signal.\<close>

lemma frame_running_ok: "running_ok s \<Longrightarrow> sinv t \<Longrightarrow> frame s t \<Longrightarrow> runs_on s t \<Longrightarrow> running_ok t"
  by (rule running_ok_kept) (simp_all add: frame_def)

lemma wakeup_fine: "running_ok s \<Longrightarrow> c \<noteq> 0 \<Longrightarrow> fine (wakeup c s)"
  using wakeup_ok [of s c] woke_up_frame [of c s] frame_running_ok [of s]
  by (fastforce simp: fine_def running_ok_def)

lemma started_up_runs: "started_up p s t \<Longrightarrow> runs_on s t"
  by (auto simp: started_up_def runs_on_def started_def woken_def Let_def)

lemma setrun_fine:
  assumes r: "running_ok s" and st: "p_stat (procs s p) \<in> {SSTOP, SSLEEP, SIDL}"
  shows "fine (setrun p s)"
proof -
  have "sinv s" "\<not> on_cpu s p" using r st by (auto simp: running_ok_def on_cpu_def)
  then obtain t where t: "setrun p s = Some t" "started_up p s t" using setrun_ok [of s p] st by auto
  have "sinv t" "frame s t" using t(2) by (simp_all add: started_up_def)
  then show ?thesis using t frame_running_ok [OF r] started_up_runs by simp
qed

lemma psignal_fine:
  assumes r: "running_ok s"
  shows "fine (psignal p sig s)"
proof -
  have "sinv s" "\<And>q. \<not> stopped_here s q" using r by (auto simp: running_ok_def stopped_here_def on_cpu_def)
  then have "goes_on UNIV s (psignal p sig s)" by (rule psignal_goes_on)
  then show ?thesis
    using frame_running_ok [OF r] by (auto simp: goes_on_def fine_def still_stopped_def runs_on_def)
qed

lemma schedcpu_fine: "running_ok s \<Longrightarrow> fine (schedcpu s)"
  using schedcpu_ok [of s] running_ok_kept [of s] by (fastforce simp: fine_def running_ok_def)

fun slept_state :: "slept \<Rightarrow> sched" where
  "slept_state (Switched s) = s"
| "slept_state (Returned s) = s"
| "slept_state (Psig s) = s"

lemma slept_on_leaves:
  assumes r: "running_ok s" and n: "\<not> noproc s" and c: "chan \<noteq> 0" "0 \<le> pri" "pri \<le> 127"
  shows "sinv ((slept_on chan pri s)\<lparr>noproc := True\<rparr>)"
proof -
  define rp where "rp = u_procp s"
  note ok = running_okD [OF r n]
  obtain t where t: "sinv_but {rp} t" "frame s t" "qs t = qs s"
    "procs t = (procs s)(rp := (procs s rp)\<lparr>p_wchan := chan, p_slptime := 0, p_pri := pri\<rparr>)"
    "slpque t = (slpque s)(HASH chan := rp # slpque s (HASH chan))" "whichqs t = whichqs s"
    using sleep_enqueue_ok [of s chan pri] ok n c
    by (auto simp: rp_def sleep_enqueue_def Let_def split: if_splits)
  let ?u = "slept_on chan pri s"
  have "sinv_but {rp} (upd rp (\<lambda>pr. pr\<lparr>p_stat := SSLEEP\<rparr>) t)" by (rule sinv_but_upd [OF t(1)]) simp_all
  moreover have "same_queues (upd rp (\<lambda>pr. pr\<lparr>p_stat := SSLEEP\<rparr>) t) ?u"
    using t(3-6) by (simp add: same_queues_def slept_on_def Let_def rp_def)
  moreover have "frame (upd rp (\<lambda>pr. pr\<lparr>p_stat := SSLEEP\<rparr>) t) ?u"
    using t(2) by (simp add: frame_def slept_on_def Let_def)
  ultimately have "sinv_but {rp} ?u" using sinv_same by blast
  then show ?thesis
    by (rule sinv_leaves) (use ok c in \<open>simp_all add: rp_def slept_on_def Let_def proc_ok_def prio_ok_def\<close>)
qed

lemma sleep_fine:
  assumes r: "running_ok s" and n: "\<not> noproc s" and c: "chan \<noteq> 0" "0 \<le> pri" "pri \<le> 127"
  shows "fine (map_option slept_state (sleep chan pri (\<lambda>t. (sig, t)) s))"
proof (cases "sig \<and> PZERO < pri")
  case True
  then obtain t where t: "sleep chan pri (\<lambda>t. (sig, t)) s = Some (Psig t)" "sinv t" "frame s t"
    "procs t = (procs s)(u_procp s := (procs s (u_procp s))\<lparr>p_slptime := 0, p_pri := pri\<rparr>)"
    using sleep_signalled [of s chan pri "\<lambda>t. (sig, t)"] running_okD [OF r n] n c by auto
  then have "running_ok t" using frame_running_ok [OF r t(2,3)] by (simp add: runs_on_def)
  then show ?thesis using t(1) by simp
next
  case False
  then obtain t where t: "sleep chan pri (\<lambda>t. (sig, t)) s = Some (Switched t)" "switched (slept_on chan pri s) t"
    using sleep_ok [of s chan pri "\<lambda>t. (sig, t)"] running_okD [OF r n] n c by auto
  then show ?thesis using switched_running_ok [OF slept_on_leaves [OF r n c]] by simp
qed

lemma sleep_stop_fine:
  assumes r: "running_ok s" and n: "\<not> noproc s" and c: "chan \<noteq> 0" "0 \<le> pri" "pri \<le> 127"
    and pp: "p_pptr (procs s (u_procp s)) \<noteq> u_procp s"
  shows "fine (sleep_stop chan pri s)"
proof -
  note ok = running_okD [OF r n]
  obtain t where t: "sleep_enqueue chan pri s = Some t" "sinv_but {u_procp s} t" "frame s t"
    "procs t = (procs s)(u_procp s := (procs s (u_procp s))\<lparr>p_wchan := chan, p_slptime := 0, p_pri := pri\<rparr>)"
    using sleep_enqueue_ok [of s chan pri] ok n c by auto
  have u: "u_procp t = u_procp s" "\<not> noproc t" using t(3) n by (simp_all add: frame_def)
  have "fine (stop_switch t)"
    by (rule stop_switch_fine) (use t u ok c pp in \<open>simp_all add: proc_ok_def prio_ok_def\<close>)
  then show ?thesis using t(1) by (simp add: sleep_stop_def)
qed

lemma self_stop_fine:
  "running_ok s \<Longrightarrow> \<not> noproc s \<Longrightarrow> p_pptr (procs s (u_procp s)) \<noteq> u_procp s \<Longrightarrow> fine (stop_switch s)"
  using running_okD [of s] sinv_weaken [of s "{u_procp s}"]
  by (intro stop_switch_fine) (auto simp: proc_ok_def)

lemma idle_fine: "running_ok s \<Longrightarrow> noproc s \<Longrightarrow> fine (swtch_pick s)"
  using swtch_pick_ok [of s] switched_running_ok [of s] sinv_idle [of s] by (auto simp: running_ok_def fine_def)

section \<open>The step relation\<close>

text \<open>
  What can happen next, and the state it leaves.  \<open>wakeup\<close>, \<open>psignal\<close>, \<open>setrun\<close>, the clock and the swapper
  are called from interrupts and by other processes, also while the processor idles; the rest is done by
  the running process.  \<open>silent\<close> are the changes of the rest of the kernel to a process (its usage, its
  pending signals, its nice value within the range, its other flags) and \<open>globals\<close> those to memory
  and the swapper's flags.  \<open>stop_switch\<close> is one step: with an interrupt between \<open>stop\<close> and \<open>swtch\<close>, a
  signal could start the process while it still has the processor.
\<close>

inductive sched_step :: "sched \<Rightarrow> sched option \<Rightarrow> bool" where
  step_wakeup: "chan \<noteq> 0 \<Longrightarrow> sched_step s (wakeup chan s)"
| step_psignal: "sched_step s (psignal p sig s)"
| step_setrun: "p_stat (procs s p) \<in> {SSTOP, SSLEEP, SIDL} \<Longrightarrow> sched_step s (setrun p s)"
| step_schedcpu: "sched_step s (schedcpu s)"
| step_roundrobin: "sched_step s (Some (roundrobin s))"
| step_hardclock: "sched_step s (Some (hardclock_adjust s))"
| step_idle: "noproc s \<Longrightarrow> sched_step s (swtch_pick s)"
| step_sleep: "\<not> noproc s \<Longrightarrow> chan \<noteq> 0 \<Longrightarrow> 0 \<le> pri \<Longrightarrow> pri \<le> 127 \<Longrightarrow>
    sched_step s (map_option slept_state (sleep chan pri (\<lambda>t. (sig, t)) s))"
| step_sleep_stop: "\<not> noproc s \<Longrightarrow> chan \<noteq> 0 \<Longrightarrow> PZERO < pri \<Longrightarrow> pri \<le> 127 \<Longrightarrow>
    p_pptr (procs s (u_procp s)) \<noteq> u_procp s \<Longrightarrow> sched_step s (sleep_stop chan pri s)"
| step_stop: "\<not> noproc s \<Longrightarrow> p_pptr (procs s (u_procp s)) \<noteq> u_procp s \<Longrightarrow> sched_step s (stop_switch s)"
| step_trap: "\<not> noproc s \<Longrightarrow> sched_step s (trap_out s)"
| step_curpri: "\<not> noproc s \<Longrightarrow> sched_step s (Some (trap_curpri s))"
| step_fork: "\<not> noproc s \<Longrightarrow> p_stat (procs s q) = SFREE \<Longrightarrow> sched_step s (Some (newproc_entry q v s))"
| step_forked: "\<not> noproc s \<Longrightarrow> p_stat (procs s q) = SIDL \<Longrightarrow> SLOAD \<in> p_flag (procs s q) \<Longrightarrow>
    sched_step s (newproc_run q s)"
| step_exit: "\<not> noproc s \<Longrightarrow> sched_step s (Some (exit_mark s))"
| step_exited: "noproc s \<Longrightarrow> p_stat (procs s p) = SZOMB \<Longrightarrow> sched_step s (exit_end p s)"
| step_outswap: "\<not> on_cpu s p \<Longrightarrow> SLOAD \<in> p_flag (procs s p) \<Longrightarrow> sched_step s (sched_outswap p s)"
| step_swapin: "\<not> on_cpu s p \<Longrightarrow> SLOAD \<notin> p_flag (procs s p) \<Longrightarrow> sched_step s (swapin_ready p s)"
| step_silent: "p_rlink pr = p_rlink (procs s p) \<Longrightarrow> p_pri pr = p_pri (procs s p) \<Longrightarrow>
    p_usrpri pr = p_usrpri (procs s p) \<Longrightarrow> p_stat pr = p_stat (procs s p) \<Longrightarrow>
    p_wchan pr = p_wchan (procs s p) \<Longrightarrow> (SLOAD \<in> p_flag pr) = (SLOAD \<in> p_flag (procs s p)) \<Longrightarrow>
    0 \<le> p_nice pr \<Longrightarrow> p_nice pr \<le> 127 \<Longrightarrow> sched_step s (Some (upd p (\<lambda>_. pr) s))"
| step_globals: "sched_step s (Some (s\<lparr>runout := ro, runin := ri, wantin := w, freemem := fm, desfree := df,
    avenrun0 := av, bclnlist := b, astlvl := a, runrun := rr\<rparr>))"

text \<open>Booting: process 0 runs, the other slots are free.\<close>

definition booted :: "sched \<Rightarrow> bool" where
  "booted s =
     (u_procp s = 0 \<and> \<not> noproc s \<and> (\<forall>i. qs s i = []) \<and> whichqs s = 0 \<and> (\<forall>h. slpque s h = []) \<and> chans_ok s \<and>
      (\<forall>p. prio_ok (procs s p) \<and> \<not> p_rlink (procs s p) \<and> p_wchan (procs s p) = 0 \<and>
           p_stat (procs s p) = (if p = 0 then SRUN else SFREE)) \<and> SLOAD \<in> p_flag (procs s 0))"

inductive sched_run :: "sched \<Rightarrow> bool" where
  run_boot: "booted s \<Longrightarrow> sched_run s"
| run_step: "sched_run s \<Longrightarrow> sched_step s (Some t) \<Longrightarrow> sched_run t"

inductive_cases sched_runE: "sched_run s"

lemma booted_ok: "booted s \<Longrightarrow> running_ok s"
proof -
  assume b: "booted s"
  then have "proc_ok (on_cpu s p) (procs s p)" for p
    by (cases "p = 0") (auto simp: booted_def proc_ok_def on_cpu_def)
  then show ?thesis
    using b by (auto simp: booted_def running_ok_def sinv_but_def rq_ok_def sq_ok_def)
qed

lemma silent_fine:
  assumes r: "running_ok s" and "p_rlink pr = p_rlink (procs s p)" "p_pri pr = p_pri (procs s p)"
    "p_usrpri pr = p_usrpri (procs s p)" "p_stat pr = p_stat (procs s p)" "p_wchan pr = p_wchan (procs s p)"
    "(SLOAD \<in> p_flag pr) = (SLOAD \<in> p_flag (procs s p))" "0 \<le> p_nice pr" "p_nice pr \<le> 127"
  shows "running_ok (upd p (\<lambda>_. pr) s)"
proof -
  have i: "sinv s" using r by (simp add: running_ok_def)
  have "sinv (upd p (\<lambda>_. pr) s)"
    using sinvD [OF i, of p] assms(2-) by (intro sinv_but_upd [OF i]) (auto simp: proc_ok_def prio_ok_def)
  then show ?thesis using frame_running_ok [OF r _ frame_upd] assms(5) by (simp add: runs_on_def)
qed

lemma globals_fine:
  assumes "running_ok s"
  shows "running_ok (s\<lparr>runout := ro, runin := ri, wantin := w, freemem := fm, desfree := df,
    avenrun0 := av, bclnlist := b, astlvl := a, runrun := rr\<rparr>)"
  using assms by (simp add: running_ok_def sinv_but_def rq_ok_def sq_ok_def chans_ok_def on_cpu_def)

lemma roundrobin_fine: "running_ok s \<Longrightarrow> running_ok (roundrobin s)"
  by (simp add: roundrobin_def running_ok_def sinv_but_def rq_ok_def sq_ok_def chans_ok_def on_cpu_def)

lemma sched_step_fine: "sched_step s r \<Longrightarrow> running_ok s \<Longrightarrow> fine r"
proof (induction rule: sched_step.induct)
  case (step_exited s p)
  then show ?case using exit_end_fine [of s p] by (simp add: running_ok_def)
next
  case (step_silent pr s p)
  then show ?case using silent_fine by simp
qed (simp_all add: wakeup_fine psignal_fine setrun_fine schedcpu_fine roundrobin_fine hardclock_adjust_fine
      idle_fine sleep_fine sleep_stop_fine self_stop_fine trap_out_fine trap_curpri_fine newproc_entry_fine
      newproc_run_fine exit_mark_fine sched_outswap_fine swapin_ready_fine globals_fine)

lemma sched_run_ok: "sched_run s \<Longrightarrow> running_ok s"
  by (induction rule: sched_run.induct) (use booted_ok sched_step_fine in \<open>auto simp: fine_def\<close>)

section \<open>A small system\<close>

text \<open>
  For the witnesses: process 1 runs, 2 and 3 sleep on channels of one hash chain, 4 is ready, 5 is stopped;
  process 1 is the parent of all.
\<close>

definition ex_proc :: "pstat \<Rightarrow> int \<Rightarrow> nat \<Rightarrow> bool \<Rightarrow> sproc" where
  "ex_proc st pri c rl =
     \<lparr>p_rlink = rl, p_usrpri = 60, p_pri = pri, p_cpu = 200, p_stat = st, p_time = 5, p_nice = 20, p_slptime = 3,
      p_cursig = 0, p_sig = 0, p_siga0 = 0, p_siga1 = 0, p_flag = {SLOAD}, p_pptr = 1, p_rssize = 0,
      p_maxrss = 100, p_wchan = c, p_cpticks = 0\<rparr>"

definition ex_sched :: sched where
  "ex_sched =
     \<lparr>procs = (\<lambda>p. if p = 1 then ex_proc SRUN 60 0 False
                   else if p = 2 then ex_proc SSLEEP 30 64 False
                   else if p = 3 then ex_proc SSLEEP 30 2112 False
                   else if p = 4 then ex_proc SRUN 60 0 True
                   else if p = 5 then ex_proc SSTOP 60 0 False
                   else ex_proc SFREE 0 0 False),
      nproc = 6, slpque = (\<lambda>h. if h = 2 then [3, 2] else []), qs = (\<lambda>i. if i = 15 then [4] else []),
      whichqs = set_bit 15 0, u_procp = 1, noproc = False, curpri = 60, runrun = 0, astlvl = False, runout = 0,
      runin = 0, wantin = 0, freemem = 100, desfree = 10, avenrun0 = 1, hz = 60, bclnlist = False,
      timeouts = [], lbolt_addr = 4, runout_addr = 8, runin_addr = 12, proc_addr = (\<lambda>p. 1000 + p)\<rparr>"

lemma ex_sched_ok: "sinv ex_sched"
proof -
  have "bit (whichqs ex_sched) i = (i = 15)" for i
    unfolding ex_sched_def sched.select_convs bit_set_bit_iff by auto
  moreover have "qs ex_sched i = (if i = 15 then [4] else [])" for i by (simp add: ex_sched_def)
  moreover have "(p_rlink (procs ex_sched p) \<and> rqno (procs ex_sched p) = i) = (p = 4 \<and> i = 15)" for p i
    by (auto simp: ex_sched_def ex_proc_def rqno_def)
  ultimately have "rq_ok ex_sched" by (simp add: rq_ok_def)
  moreover have "sq_ok ex_sched"
    by (auto simp: sq_ok_def ex_sched_def ex_proc_def HASH_def SQSIZE_def)
  moreover have "chans_ok ex_sched" by (simp add: chans_ok_def ex_sched_def)
  moreover have "proc_ok (on_cpu ex_sched p) (procs ex_sched p)" for p
    by (auto simp: proc_ok_def prio_ok_def on_cpu_def ex_sched_def ex_proc_def)
  ultimately show ?thesis by (simp add: sinv_but_def)
qed

lemma ex_running_ok: "running_ok ex_sched"
  using ex_sched_ok by (simp add: running_ok_def ex_sched_def ex_proc_def)

section \<open>Properties\<close>

text \<open>
  C12: \<open>wakeup\<close> always returns, and wakes exactly the processes that sleep on the channel: those asleep become
  runnable, and go on the run queue of their priority when they are in core, those stopped only lose the
  channel, and nothing else of the process table changes; but when one of them is swapped out and the
  swapper waits for work, the processes on its channel are woken in the same way.
\<close>

theorem wakeup_wakes:
  assumes "sinv s" "chan \<noteq> 0"
  shows "\<exists>t. wakeup chan s = Some t \<and> sinv t \<and>
    procs t = (\<lambda>p. if p_wchan (procs s p) = chan \<or> calls_swapper chan s \<and> p_wchan (procs s p) = runout_addr s
                   then woken (procs s p) else procs s p)"
  using wakeup_ok [OF assms]
  by (auto simp: woke_up_def woke_def awoken_def sleepers_def fun_eq_iff)

theorem wakeup_wakes_witness:
  "\<exists>t. wakeup 64 ex_sched = Some t \<and> p_stat (procs t 2) = SRUN \<and> p_rlink (procs t 2) \<and> p_stat (procs t 3) = SSLEEP"
  using wakeup_wakes [OF ex_sched_ok, of 64]
  by (auto simp: ex_sched_def ex_proc_def woken_def calls_swapper_def)

text \<open>
  C13: Where a process is ready, \<open>swtch\<close> gives the processor to one: the first of its run queue, on a queue
  that no ready process betters, and the process leaves the queue, the others on it in their order.
\<close>

theorem swtch_picks_best:
  assumes "sinv (s\<lparr>noproc := True\<rparr>)" "p_rlink (procs s q)"
  shows "\<exists>t rest. swtch s = Some t \<and> sinv t \<and> \<not> noproc t \<and> p_rlink (procs s (u_procp t)) \<and>
    (\<forall>p. p_rlink (procs s p) \<longrightarrow> p_pri (procs s (u_procp t)) div 4 \<le> p_pri (procs s p) div 4) \<and>
    qs s (rqno (procs s (u_procp t))) = u_procp t # rest \<and>
    qs t = (qs s)(rqno (procs s (u_procp t)) := rest)"
proof -
  obtain t where t: "swtch s = Some t" "switched s t" using swtch_ok [OF assms(1)] by blast
  let ?p = "u_procp t"
  have some: "\<not> (\<forall>p. \<not> p_rlink (procs s p))" using assms(2) by blast
  have "prio_ok (procs s p)" for p using sinvD [OF assms(1), of p] by (simp add: proc_ok_def)
  then have "int (rqno (procs s p)) = p_pri (procs s p) div 4" for p using rqno_bound by blast
  moreover obtain rest where r: "\<not> noproc t" "p_rlink (procs s ?p)" "qs s (rqno (procs s ?p)) = ?p # rest"
    "qs t = (qs s)(rqno (procs s ?p) := rest)" "\<And>p. p_rlink (procs s p) \<Longrightarrow> rqno (procs s ?p) \<le> rqno (procs s p)"
    "sinv t"
    using t(2) unfolding switched_def Let_def if_not_P [OF some] by blast
  ultimately have "p_rlink (procs s p) \<Longrightarrow> p_pri (procs s ?p) div 4 \<le> p_pri (procs s p) div 4" for p
    by (metis of_nat_le_iff)
  then show ?thesis using t(1) r by blast
qed

lemma ex_stopping: "sinv ((upd 1 (\<lambda>pr. pr\<lparr>p_stat := SSTOP\<rparr>) ex_sched)\<lparr>noproc := True\<rparr>)"
  by (rule sinv_leaves, rule sinv_but_upd [OF ex_sched_ok])
     (simp_all add: ex_sched_def ex_proc_def proc_ok_def prio_ok_def)

theorem swtch_picks_best_witness:
  "\<exists>t. swtch (upd 1 (\<lambda>pr. pr\<lparr>p_stat := SSTOP\<rparr>) ex_sched) = Some t \<and> u_procp t = 4"
  using swtch_picks_best [OF ex_stopping, of 4]
  by (auto simp: ex_sched_def ex_proc_def split: if_splits)

text \<open>
  C20: A process that goes to sleep and is woken is back on the run queue of the priority it slept at, with no
  channel: \<open>sleep\<close> by the running process switches to another process or idles, and a \<open>wakeup\<close> of the
  channel then makes exactly that process ready.
\<close>

theorem sleep_wakeup:
  assumes "sinv s" "\<not> noproc s" "p_stat (procs s (u_procp s)) = SRUN" "chan \<noteq> 0" "0 \<le> pri" "pri \<le> PZERO"
  shows "\<exists>t u. sleep chan pri issig s = Some (Switched t) \<and> p_stat (procs t (u_procp s)) = SSLEEP \<and>
    (noproc t \<or> u_procp t \<noteq> u_procp s) \<and>
    wakeup chan t = Some u \<and> p_stat (procs u (u_procp s)) = SRUN \<and> p_wchan (procs u (u_procp s)) = 0 \<and>
    u_procp s \<in> set (qs u (nat pri div 4))"
proof -
  let ?p = "u_procp s"
  have ok: "proc_ok True (procs s ?p)" using sinvD [OF assms(1), of ?p] assms(2) by (simp add: on_cpu_def)
  obtain t where t: "sleep chan pri issig s = Some (Switched t)" "switched (slept_on chan pri s) t"
    using sleep_ok [OF assms(1-5), of issig] assms(6) by auto
  then have it: "sinv t" by (simp add: switched_def)
  have nr: "\<not> p_rlink (procs (slept_on chan pri s) ?p)" using ok by (simp add: slept_on_def Let_def proc_ok_def)
  then have tp: "procs t ?p = procs (slept_on chan pri s) ?p \<and> (noproc t \<or> u_procp t \<noteq> ?p)"
    using t(2) by (auto simp: switched_def Let_def split: if_splits)
  then have st: "p_stat (procs t ?p) = SSLEEP" "p_wchan (procs t ?p) = chan" "p_pri (procs t ?p) = pri"
    "SLOAD \<in> p_flag (procs t ?p)" using ok by (simp_all add: slept_on_def Let_def proc_ok_def)
  obtain u where u: "wakeup chan t = Some u" "woke_up chan t u" using wakeup_ok [OF it assms(4)] by blast
  have "procs u ?p = woken (procs t ?p)" using u(2) st by (simp add: woke_up_def woke_def awoken_def sleepers_def)
  then have up: "p_stat (procs u ?p) = SRUN" "p_wchan (procs u ?p) = 0" "p_rlink (procs u ?p)" "p_pri (procs u ?p) = pri"
    using st by (simp_all add: woken_def Let_def)
  have "rq_ok u" using u(2) by (simp add: woke_up_def sinv_but_def)
  then have "?p \<in> set (qs u (rqno (procs u ?p)))" using rq_head up(3) by blast
  moreover have "rqno (procs u ?p) = nat pri div 4" using up(4) assms(5,6) by (simp add: rqno_def)
  ultimately show ?thesis using t(1) u(1) tp st up by metis
qed

theorem sleep_wakeup_witness:
  "\<exists>t u. sleep 128 20 (\<lambda>t. (False, t)) ex_sched = Some (Switched t) \<and> wakeup 128 t = Some u \<and> 1 \<in> set (qs u 5)"
  using sleep_wakeup [OF ex_sched_ok, of 128 20 "\<lambda>t. (False, t)"]
  by (auto simp: ex_sched_def ex_proc_def)

text \<open>The decay of the usage estimate.\<close>

lemma ave_range:
  assumes "0 \<le> a" "0 \<le> b"
  shows "0 \<le> ave a b" "ave a b \<le> a"
proof -
  have ab: "0 \<le> of_int a * b" using assms by simp
  let ?f = "\<lfloor>of_int a * b\<rfloor>"
  have f: "0 \<le> ?f" using ab by simp
  have q: "0 \<le> of_int ?f / (b + 1)" using f assms(2) by simp
  have e: "ave a b = \<lfloor>of_int ?f / (b + 1)\<rfloor>" using ab q by (simp add: ave_def trunc_int_def)
  show "0 \<le> ave a b" using q e by simp
  have "of_int ?f \<le> of_int a * b" by simp
  also have "\<dots> \<le> of_int a * (b + 1)" using assms by (simp add: algebra_simps)
  finally have "of_int ?f / (b + 1) \<le> of_int a" using assms(2) by (simp add: pos_divide_le_eq)
  then show "ave a b \<le> a" using e by linarith
qed

lemma rescheduled_cpu:
  assumes "0 \<le> avenrun0 s" "p_nice pr \<le> NZERO"
  shows "uint (p_cpu (rescheduled s pr)) \<le> uint (p_cpu pr)"
proof -
  have b: "0 \<le> uint (p_cpu pr)" "uint (p_cpu pr) < 256" using uint_lt2p [of "p_cpu pr"] by simp_all
  have c: "0 \<le> schedcpu_cpu (avenrun0 s) pr" "schedcpu_cpu (avenrun0 s) pr \<le> uint (p_cpu pr)"
    using ave_range [OF b(1), of "avenrun0 s * 2"] assms b by (simp_all add: schedcpu_cpu_def Let_def)
  have "p_cpu (rescheduled s pr) = word_of_int (schedcpu_cpu (avenrun0 s) pr)"
    by (simp add: rescheduled_def schedcpu_charge_def schedcpu_cpu_def Let_def)
  then have "uint (p_cpu (rescheduled s pr)) = schedcpu_cpu (avenrun0 s) pr mod 256"
    by (simp add: uint_word_of_int)
  then show ?thesis using b c by simp
qed

text \<open>
  C27: The pass of \<open>schedcpu\<close> over the process table returns with the run queues consistent, every live process
  charged and its priorities recomputed (a process that waits on a run queue moved to the queue of its new
  priority) and every other slot as it was; and a process that is not niced never has its usage estimate
  raised by it.
\<close>

theorem schedcpu_pass:
  assumes "sinv s" "0 \<le> avenrun0 s"
  shows "\<exists>t. schedcpu_loop [0..<nproc s] s = Some t \<and> sinv t \<and>
    procs t = (\<lambda>p. if p < nproc s \<and> live (procs s p) then rescheduled s (procs s p) else procs s p) \<and>
    (\<forall>p. p_nice (procs s p) \<le> NZERO \<longrightarrow> uint (p_cpu (procs t p)) \<le> uint (p_cpu (procs s p)))"
proof -
  obtain t where t: "schedcpu_loop [0..<nproc s] s = Some t" "sinv t"
    "procs t = (\<lambda>p. if p < nproc s \<and> live (procs s p) then rescheduled s (procs s p) else procs s p)"
    using schedcpu_loop_ok [OF assms(1), of "[0..<nproc s]"] by auto
  then show ?thesis using rescheduled_cpu [OF assms(2)] by auto
qed

theorem schedcpu_pass_witness:
  "\<exists>t. schedcpu_loop [0..<6] ex_sched = Some t \<and> uint (p_cpu (procs t 4)) \<le> 200"
proof -
  have "p_nice (procs ex_sched 4) \<le> NZERO" "uint (p_cpu (procs ex_sched 4)) = 200" "nproc ex_sched = 6"
    "0 \<le> avenrun0 ex_sched"
    by (simp_all add: ex_sched_def ex_proc_def)
  then show ?thesis using schedcpu_pass [OF ex_sched_ok] by metis
qed

text \<open>
  C25: A signal that is neither ignored nor held ends a sleep at an interruptible priority, unless the process
  takes the default action for it and that is to stop or to do nothing: \<open>psignal\<close> returns with the process
  runnable, off its channel, its priority no worse than \<open>PUSER\<close>, and on the run queue if it is in core.
\<close>

theorem psignal_interrupts:
  assumes "sinv s" "p_stat (procs s p) = SSLEEP" "sig < NSIG"
    "STRC \<in> p_flag (procs s p) \<or> psignal_action sig (procs s p) \<noteq> SIG_IGN"
    "psignal_action sig (procs s p) \<noteq> SIG_HOLD" "ends_sleep sig (procs s p)"
  shows "\<exists>t. psignal p sig s = Some t \<and> sinv t \<and> p_stat (procs t p) = SRUN \<and> p_wchan (procs t p) = 0 \<and>
    p_pri (procs t p) = min (p_pri (procs s p)) PUSER \<and> p_rlink (procs t p) = (SLOAD \<in> p_flag (procs s p))"
  using assms by (rule psignal_ends_sleep)

theorem psignal_interrupts_witness:
  "\<exists>t. psignal 2 SIGTERM ex_sched = Some t \<and> p_stat (procs t 2) = SRUN \<and> p_rlink (procs t 2)"
proof -
  have "\<exists>t. psignal 2 SIGTERM ex_sched = Some t \<and> sinv t \<and> p_stat (procs t 2) = SRUN \<and> p_wchan (procs t 2) = 0 \<and>
    p_pri (procs t 2) = min (p_pri (procs ex_sched 2)) PUSER \<and>
    p_rlink (procs t 2) = (SLOAD \<in> p_flag (procs ex_sched 2))"
    by (rule psignal_interrupts [OF ex_sched_ok])
       (simp_all add: ex_sched_def ex_proc_def psignal_action_def ends_sleep_def stop_signal_def)
  then show ?thesis by (auto simp: ex_sched_def ex_proc_def)
qed

text \<open>
  A sleep at an uninterruptible priority (\<open>PZERO\<close> or better) is never disturbed by a signal, whatever the
  signal and its action: \<open>psignal\<close> changes at most the pending signals and the nice value of the process,
  and neither the queues nor any other process.
\<close>

theorem psignal_uninterruptible:
  assumes "p_stat (procs s p) = SSLEEP" "p_pri (procs s p) \<le> PZERO"
  shows "\<exists>pend nice. psignal p sig s = Some (upd p (\<lambda>pr. pr\<lparr>p_sig := pend, p_nice := nice\<rparr>) s)"
proof -
  have same: "psignal_post sg a (procs s p) =
      (procs s p)\<lparr>p_sig := p_sig (psignal_post sg a (procs s p)), p_nice := p_nice (psignal_post sg a (procs s p))\<rparr>" for sg a
    by (simp add: psignal_post_def post_nice_def Let_def)
  have post: "upd p (psignal_post sg a) s =
      upd p (\<lambda>pr. pr\<lparr>p_sig := p_sig (psignal_post sg a (procs s p)), p_nice := p_nice (psignal_post sg a (procs s p))\<rparr>) s" for sg a
    unfolding upd_def by (subst same) (rule refl)
  have none: "s = upd p (\<lambda>pr. pr\<lparr>p_sig := p_sig (procs s p), p_nice := p_nice (procs s p)\<rparr>) s"
    by (rule upd_idem [symmetric]) simp
  show ?thesis
  proof (cases "NSIG \<le> sig \<or> STRC \<notin> p_flag (procs s p) \<and> psignal_action sig (procs s p) = SIG_IGN")
    case True
    then show ?thesis using psignal_ignored none by metis
  next
    case False
    then show ?thesis using psignal_asleep(1) [OF assms(1), of sig] assms(2) post by (metis not_le)
  qed
qed

theorem psignal_uninterruptible_witness:
  "\<exists>pend nice. psignal 2 SIGKILL (upd 2 (\<lambda>pr. pr\<lparr>p_pri := 20\<rparr>) ex_sched) =
     Some (upd 2 (\<lambda>pr. pr\<lparr>p_sig := pend, p_nice := nice\<rparr>) (upd 2 (\<lambda>pr. pr\<lparr>p_pri := 20\<rparr>) ex_sched))"
  using psignal_uninterruptible [of "upd 2 (\<lambda>pr. pr\<lparr>p_pri := 20\<rparr>) ex_sched" 2 SIGKILL]
  by (simp add: ex_sched_def ex_proc_def)




definition ex_boot :: sched where
  "ex_boot = ex_sched\<lparr>procs := (\<lambda>p. if p = 0 then ex_proc SRUN 0 0 False else ex_proc SFREE 0 0 False),
     slpque := (\<lambda>_. []), qs := (\<lambda>_. []), whichqs := 0, u_procp := 0\<rparr>"

lemma ex_boot_run: "sched_run ex_boot"
  by (rule run_boot) (auto simp: booted_def ex_boot_def ex_sched_def ex_proc_def prio_ok_def chans_ok_def)




text \<open>
  C26: The one place the argument needs care: a process that has stopped itself and not yet called \<open>swtch\<close> is
  still on the processor, and \<open>SIGCONT\<close> or \<open>SIGKILL\<close> posted at that moment makes it ready, on a run queue,
  while it runs, which the invariant excludes: its priority can then change, at a clock interrupt, without
  it being moved.
\<close>

theorem psignal_requeues_running:
  assumes "sinv s" "on_cpu s p" "p_stat (procs s p) = SSTOP" "p_wchan (procs s p) = 0" "p_flag (procs s p) = {SLOAD}"
    "sig = SIGCONT \<or> sig = SIGKILL" "psignal_action sig (procs s p) = SIG_DFL"
  shows "\<exists>t. psignal p sig s = Some t \<and> on_cpu t p \<and> p_rlink (procs t p) \<and> p \<in> set (qs t (rqno (procs t p)))"
proof -
  define s1 where "s1 = upd p (psignal_post sig SIG_DFL) s"
  define s2 where "s2 = upd p capped s1"
  let ?s3 = "upd p (\<lambda>pr. pr\<lparr>p_stat := SRUN\<rparr>) s2"
  have ok: "prio_ok (procs s p)" "\<not> p_rlink (procs s p)" using sinvD [OF assms(1), of p] assms(2) by (auto simp: proc_ok_def)
  have p2: "p_stat (procs s2 p) = SSTOP" "p_wchan (procs s2 p) = 0" "p_flag (procs s2 p) = {SLOAD}"
    "\<not> p_rlink (procs s2 p)" using assms(3-5) ok by (simp_all add: s2_def s1_def capped_def)
  have "prio_ok (procs ?s3 p)"
    using ok(1) post_nice_range [of sig SIG_DFL "procs s p"] by (auto simp: prio_ok_def s2_def s1_def capped_def)
  then have "setrq p ?s3 = Some (enq p ?s3)" using p2 by (simp add: setrq_enq)
  then have r: "setrun p s2 = Some (kick (p_pri (procs s2 p)) (enq p ?s3))"
    using p2 by (simp add: setrun_def Let_def unsleep_def)
  have "psignal_run p s1 = setrun p s2"
  proof (cases "p_pri (procs s1 p) > PUSER")
    case True
    then show ?thesis
      using assms(3) by (simp add: psignal_run_def Let_def s2_def capped_def upd_def min_def s1_def)
  next
    case False
    then have "capped (procs s1 p) = procs s1 p" by (cases "procs s1 p") (simp add: capped_def)
    then show ?thesis using False by (simp add: psignal_run_def Let_def s2_def upd_idem)
  qed
  moreover have "psignal p sig s = psignal_run p s1"
    using assms(3-7) unfolding s1_def by (subst psignal.simps) (auto simp: Let_def)
  ultimately have "psignal p sig s = Some (kick (p_pri (procs s2 p)) (enq p ?s3))" using r by simp
  moreover have "on_cpu (kick (p_pri (procs s2 p)) (enq p ?s3)) p"
    using assms(2) frame_on_cpu [OF frame_trans' [OF frame_enq same_kick(2)]] by (simp add: s2_def s1_def)
  ultimately show ?thesis by simp
qed

theorem psignal_requeues_running_witness:
  "\<exists>t. psignal 1 SIGCONT (upd 1 (\<lambda>pr. pr\<lparr>p_stat := SSTOP\<rparr>) ex_sched) = Some t \<and> u_procp t = 1 \<and> p_rlink (procs t 1)"
proof -
  let ?s = "upd 1 (\<lambda>pr. pr\<lparr>p_stat := SSTOP\<rparr>) ex_sched"
  have "sinv ?s"
    by (rule sinv_but_upd [OF ex_sched_ok]) (simp_all add: ex_sched_def ex_proc_def proc_ok_def prio_ok_def on_cpu_def)
  moreover have "on_cpu ?s 1" "p_stat (procs ?s 1) = SSTOP" "p_wchan (procs ?s 1) = 0" "p_flag (procs ?s 1) = {SLOAD}"
    "psignal_action SIGCONT (procs ?s 1) = SIG_DFL"
    by (simp_all add: on_cpu_def ex_sched_def ex_proc_def psignal_action_def)
  ultimately show ?thesis
    using psignal_requeues_running [of ?s 1 SIGCONT] by (auto simp: on_cpu_def)
qed

end
